(* ===== verification/Prelude.thy ===== *)
theory Prelude
  imports Main "HOL-Library.Word"
begin

text \<open>
  Shared vocabulary of the development: the widths of the machine integers of the x86-64
  build (\<open>size_t\<close>, \<open>uint64_t\<close>: 64 bits; \<open>uint32_t\<close>: 32; \<open>unsigned short\<close>: 16), the C++
  exceptions that the sources catch or let escape, and the generic facts on words, lists and
  powers of two that several components use.
\<close>

unbundle bit_operations_syntax

type_synonym u16 = "16 word"
type_synonym u32 = "32 word"
type_synonym u64 = "64 word"

text \<open>
  \<open>std::out_of_range\<close> is the only standard exception the sources name in a handler; every other
  exception is told apart by the text of its type.
\<close>

datatype cxx_exn = Out_of_range | Transport_exn | Other_exn string

text \<open>Sequencing of fallible steps: the first exception ends the computation.\<close>

definition bindE :: "'e + 'a \<Rightarrow> ('a \<Rightarrow> 'e + 'b) \<Rightarrow> 'e + 'b" where
  "bindE r f = (case r of Inl e \<Rightarrow> Inl e | Inr x \<Rightarrow> f x)"

lemma bindE_simps [simp]: "bindE (Inl e) f = Inl e" "bindE (Inr x) f = f x"
  by (simp_all add: bindE_def)

lemma bindE_eq_Inr: "bindE r f = Inr y \<longleftrightarrow> (\<exists>x. r = Inr x \<and> f x = Inr y)"
  by (cases r) auto

text \<open>Collections: bit-level rewriting, and the preservation lemmas of the components.\<close>

named_theorems bits_simps \<open>bit-level rewriting of packed words\<close>
named_theorems inv_intros \<open>preservation of the component invariants\<close>

subsection \<open>Words\<close>

lemma bit_mask20 [bits_simps]: "bit (0xFFFFF :: 'a :: len word) n \<longleftrightarrow> n < 20 \<and> n < LENGTH('a)"
proof -
  have m: "(0xFFFFF :: 'a word) = mask 20"
    by (simp add: mask_eq_exp_minus_1)
  show ?thesis
    unfolding m by (auto simp: bit_mask_iff)
qed

lemma less_exp_bit_False:
  fixes w :: "'a :: len word"
  assumes "unat w < 2 ^ k" "k \<le> n"
  shows "\<not> bit w n"
proof -
  have "unat w < 2 ^ n"
    using assms power_increasing [of k n "2 :: nat"] by linarith
  then have "\<not> bit (unat w) n"
    by (simp add: bit_iff_odd div_less)
  then show ?thesis
    by (simp add: bit_unsigned_iff)
qed

lemma unat_less_2_64: "unat (w :: u64) < 2 ^ 64"
  using unsigned_less [where ?'a = nat and w = w] by simp

text \<open>
  The queues keep their indices in ring buffers whose size is a power of two and cut them with
  \<open>& (size - 1)\<close>; on the unsigned values this is the remainder.
\<close>

lemma unat_and_pow2:
  fixes x m :: "'a :: len word"
  assumes "unat m + 1 = 2 ^ k"
  shows "unat (x AND m) = unat x mod 2 ^ k"
proof -
  have m: "unat m = mask k"
    using assms by (simp add: mask_eq_exp_minus_1)
  have "unat (x AND m) = unat x AND unat m"
    by (simp add: unsigned_and_eq)
  then show ?thesis
    by (simp add: m flip: take_bit_eq_mask) (simp add: take_bit_eq_mod)
qed

lemma pow2_le_word:
  fixes m :: "'a :: len word"
  assumes "unat m + 1 = 2 ^ k"
  shows "k \<le> LENGTH('a)"
proof -
  have "(2::nat) ^ k \<le> 2 ^ LENGTH('a)"
    using assms unsigned_less [of m] by (metis Suc_eq_plus1 Suc_leI)
  then show ?thesis by simp
qed

lemma unat_add_and_pow2:
  fixes x m :: "'a :: len word"
  assumes "unat m + 1 = 2 ^ k"
  shows "unat ((x + of_nat i) AND m) = (unat x + i) mod 2 ^ k"
proof -
  have "(2::nat) ^ k dvd 2 ^ LENGTH('a)"
    using pow2_le_word [OF assms] by (simp add: le_imp_power_dvd)
  then show ?thesis
    by (simp add: unat_and_pow2 [OF assms] unat_word_ariths unat_of_nat mod_mod_cancel mod_add_right_eq)
qed

lemma unat_incr_and_pow2:
  fixes x m :: "'a :: len word"
  assumes "unat m + 1 = 2 ^ k"
  shows "unat ((x + 1) AND m) = (unat x + 1) mod 2 ^ k"
  using unat_add_and_pow2 [OF assms, of x 1] by simp

lemma unat_diff_and_pow2:
  fixes x y m :: "'a :: len word"
  assumes "unat m + 1 = 2 ^ k" "unat x = (unat y + n) mod 2 ^ k" "n < 2 ^ k"
  shows "unat ((x - y) AND m) = n"
proof -
  have d: "(2::int) ^ k dvd 2 ^ LENGTH('a)"
    using pow2_le_word [OF assms(1)] by (simp add: le_imp_power_dvd)
  have "int (unat (x - y)) = (int (unat x) - int (unat y)) mod 2 ^ LENGTH('a)"
    by (simp add: uint_word_ariths flip: uint_nat)
  then have "int (unat (x - y) mod 2 ^ k) = (int (unat x) - int (unat y)) mod 2 ^ k"
    by (simp add: zmod_int mod_mod_cancel [OF d])
  also have "\<dots> = ((int (unat y) + int n) mod 2 ^ k - int (unat y)) mod 2 ^ k"
    by (simp add: assms(2) zmod_int)
  also have "\<dots> = int n"
    using assms(3) by (simp add: mod_diff_left_eq)
  finally show ?thesis
    by (simp add: unat_and_pow2 [OF assms(1)])
qed
subsection \<open>Rounding up to a power of two\<close>

text \<open>
  Both queue headers round up to a power of two by smearing the highest bit of \<open>x - 1\<close> to the
  right, doubling the reach of the smear in every step.
\<close>

lemma smear_step:
  fixes x y :: "'a :: len word"
  assumes "\<And>n. bit y n \<longleftrightarrow> (\<exists>j < w. bit x (n + j))"
  shows "bit (y OR drop_bit w y) n \<longleftrightarrow> (\<exists>j < 2 * w. bit x (n + j))"
proof -
  have "(\<exists>j < 2 * w. bit x (n + j)) \<longleftrightarrow> (\<exists>j < w. bit x (n + j)) \<or> (\<exists>j < w. bit x (n + w + j))"
  proof
    assume "\<exists>j < 2 * w. bit x (n + j)"
    then obtain j where j: "j < 2 * w" "bit x (n + j)" by blast
    show "(\<exists>j < w. bit x (n + j)) \<or> (\<exists>j < w. bit x (n + w + j))"
    proof (cases "j < w")
      case False
      then have "j - w < w" "n + w + (j - w) = n + j" using j(1) by simp_all
      then show ?thesis using j(2) by metis
    qed (use j in blast)
  next
    assume "(\<exists>j < w. bit x (n + j)) \<or> (\<exists>j < w. bit x (n + w + j))"
    then show "\<exists>j < 2 * w. bit x (n + j)"
    proof (elim disjE exE conjE)
      fix j assume "j < w" "bit x (n + w + j)"
      then show ?thesis by (intro exI [of _ "w + j"]) (simp add: add.assoc)
    next
      fix j assume "j < w" "bit x (n + j)"
      then show ?thesis by (intro exI [of _ j]) simp
    qed
  qed
  then show ?thesis
    by (simp add: bit_or_iff bit_drop_bit_eq assms add.commute)
qed

lemma highest_bit:
  fixes x :: "'a :: len word"
  assumes "x \<noteq> 0"
  obtains h where "bit x h" "\<And>m. h < m \<Longrightarrow> \<not> bit x m" "2 ^ h \<le> unat x" "unat x < 2 ^ Suc h" "h < LENGTH('a)"
proof -
  let ?S = "{n. bit x n}"
  have fin: "finite ?S"
    by (rule finite_subset [of _ "{..<LENGTH('a)}"]) (auto dest: bit_imp_le_length)
  have "?S \<noteq> {}" using assms by (auto simp: bit_eq_iff)
  with fin obtain h where h: "bit x h" and above: "\<And>m. bit x m \<Longrightarrow> m \<le> h"
    using Max_in [of ?S] Max_ge [of ?S] by blast
  have "bit (unat x) h" using h by (simp add: bit_unsigned_iff)
  then have "odd (unat x div 2 ^ h)" unfolding bit_iff_odd .
  then have "unat x div 2 ^ h \<noteq> 0" by (metis even_zero)
  then have lo: "2 ^ h \<le> unat x" by (metis div_less not_le)
  have "bit (take_bit (Suc h) (unat x)) n = bit (unat x) n" for n
    using above [of n] by (cases "n < Suc h") (auto simp: bit_take_bit_iff bit_unsigned_iff)
  then have "take_bit (Suc h) (unat x) = unat x"
    by (intro bit_eqI) blast
  then have hi: "unat x < 2 ^ Suc h"
    by (simp only: take_bit_nat_eq_self_iff)
  show ?thesis
    using that [OF h _ lo hi] above bit_imp_le_length [OF h] by (meson not_le)
qed

lemma smeared_is_mask:
  fixes x y :: "'a :: len word"
  assumes y: "\<And>n. bit y n \<longleftrightarrow> (\<exists>j < LENGTH('a). bit x (n + j))"
  shows "\<exists>k \<le> LENGTH('a). y = mask k \<and> unat x < 2 ^ k \<and> (\<forall>j. unat x < 2 ^ j \<longrightarrow> k \<le> j)"
proof (cases "x = 0")
  case True
  then have "y = mask 0" using y by (intro bit_eqI) simp
  then show ?thesis using True by (intro exI [of _ 0]) simp
next
  case False
  then obtain h where h: "bit x h" "\<And>m. h < m \<Longrightarrow> \<not> bit x m" "2 ^ h \<le> unat x" "unat x < 2 ^ Suc h" "h < LENGTH('a)"
    using highest_bit by metis
  have "bit y n \<longleftrightarrow> n < Suc h" for n
  proof
    assume "bit y n"
    then show "n < Suc h" using y h(2) by (meson le_add1 le_less_trans not_less not_less_eq)
  next
    assume "n < Suc h"
    then have "h - n < LENGTH('a)" "n + (h - n) = h" using h(5) by simp_all
    then show "bit y n" using y h(1) by metis
  qed
  then have "y = mask (Suc h)"
    using h(5) by (intro bit_eqI) (auto simp: bit_mask_iff)
  moreover have "Suc h \<le> j" if "unat x < 2 ^ j" for j
  proof -
    have "(2::nat) ^ h < 2 ^ j" using that h(3) by linarith
    then show ?thesis by simp
  qed
  ultimately show ?thesis using h(4,5) by (intro exI [of _ "Suc h"]) auto
qed
text \<open>The six steps of the smear on 64-bit words, and the rounding that results from adding one.\<close>

lemma smear64_mask:
  fixes x0 x1 x2 x3 x4 x5 x6 :: u64
  assumes d: "x1 = x0 OR drop_bit 1 x0" "x2 = x1 OR drop_bit 2 x1" "x3 = x2 OR drop_bit 4 x2"
    "x4 = x3 OR drop_bit 8 x3" "x5 = x4 OR drop_bit 16 x4" "x6 = x5 OR drop_bit 32 x5"
  shows "\<exists>k \<le> 64. x6 = mask k \<and> unat x0 < 2 ^ k \<and> (\<forall>j. unat x0 < 2 ^ j \<longrightarrow> k \<le> j)"
proof -
  have s0: "bit x0 n \<longleftrightarrow> (\<exists>j < 1. bit x0 (n + j))" for n by simp
  have s1: "bit x1 n \<longleftrightarrow> (\<exists>j < 2 * 1. bit x0 (n + j))" for n unfolding d(1) by (rule smear_step [OF s0])
  have s2: "bit x2 n \<longleftrightarrow> (\<exists>j < 2 * 2. bit x0 (n + j))" for n unfolding d(2) by (rule smear_step) (simp add: s1)
  have s3: "bit x3 n \<longleftrightarrow> (\<exists>j < 2 * 4. bit x0 (n + j))" for n unfolding d(3) by (rule smear_step) (simp add: s2)
  have s4: "bit x4 n \<longleftrightarrow> (\<exists>j < 2 * 8. bit x0 (n + j))" for n unfolding d(4) by (rule smear_step) (simp add: s3)
  have s5: "bit x5 n \<longleftrightarrow> (\<exists>j < 2 * 16. bit x0 (n + j))" for n unfolding d(5) by (rule smear_step) (simp add: s4)
  have s6: "bit x6 n \<longleftrightarrow> (\<exists>j < 2 * 32. bit x0 (n + j))" for n unfolding d(6) by (rule smear_step) (simp add: s5)
  show ?thesis
    using smeared_is_mask [of x6 x0] s6 by simp
qed

lemma mask_ceiling:
  fixes x r :: u64
  assumes "r = mask k + 1" "unat (x - 1) < 2 ^ k" "\<And>j. unat (x - 1) < 2 ^ j \<Longrightarrow> k \<le> j" "0 < x" "unat x \<le> 2 ^ 63"
  shows "k \<le> 63 \<and> unat r = 2 ^ k \<and> unat x \<le> 2 ^ k \<and> (\<forall>j. unat x \<le> 2 ^ j \<longrightarrow> k \<le> j)"
proof -
  have "x \<noteq> 0" using assms(4) by auto
  then have x: "unat (x - 1) = unat x - 1" "0 < unat x"
    by (simp_all add: unat_minus_one unat_gt_0)
  have le: "unat x \<le> 2 ^ k" "unat x \<le> 2 ^ j \<Longrightarrow> k \<le> j" for j
    using assms(2,3) x by (simp_all add: less_eq_Suc_le flip: Suc_le_eq)
  have k63: "k \<le> 63" using le(2) [OF assms(5)] .
  have "mask k + 1 = (of_nat (2 ^ k) :: u64)"
    by (simp add: mask_eq_exp_minus_1)
  moreover have "(2::nat) ^ k < 2 ^ 64" using k63 by (intro power_strict_increasing) simp_all
  ultimately have "unat r = 2 ^ k"
    unfolding assms(1) by (simp add: unat_of_nat del: of_nat_power)
  then show ?thesis using k63 le by simp
qed

end
