(* ===== verification/ScheduleDay.thy ===== *)
theory ScheduleDay
  imports Prelude
begin

text \<open>
  \<open>source/datastore/ScheduleDay.h\<close> and \<open>ScheduleDay.cpp\<close>: the 64-bit compound identifier of
  one station's schedule for one day, three 21-bit slots (station, year, day of year) read
  back through a 20-bit mask. The calendar is \<open>boost::gregorian\<close> and the number printer is
  \<open>folly::toAppend\<close>; neither is part of the repository, so both are arguments: a record of the
  Boost operations the code calls, and a printer for \<open>unsigned short\<close>.
\<close>

record 'd boost_gregorian =
  from_simple_string :: "string \<Rightarrow> cxx_exn + 'd"
  mk_date :: "u16 \<Rightarrow> u16 \<Rightarrow> u16 \<Rightarrow> cxx_exn + 'd"
  day_of_year :: "'d \<Rightarrow> u16"
  date_year :: "'d \<Rightarrow> u16"
  date_month :: "'d \<Rightarrow> u16"
  date_day :: "'d \<Rightarrow> u16"

record schedule_day =
  mId :: u64

definition mPackWidth :: nat where
  "mPackWidth = 21"

definition mPackedMask :: u64 where
  "mPackedMask = 0xFFFFF"

definition stationId :: "schedule_day \<Rightarrow> u32" where
  "stationId s = ucast (mId s AND mPackedMask)"

definition day :: "schedule_day \<Rightarrow> u32" where
  "day s = ucast (drop_bit (mPackWidth * 2) (mId s) AND mPackedMask)"

definition year :: "schedule_day \<Rightarrow> u32" where
  "year s = ucast (drop_bit mPackWidth (mId s) AND mPackedMask)"

definition isValid :: "schedule_day \<Rightarrow> bool" where
  "isValid s \<longleftrightarrow> mId s \<noteq> 0"

text \<open>The two read-modify-write lines shared by all three overloads of \<open>create\<close>.\<close>

definition put_day :: "u64 \<Rightarrow> u64 \<Rightarrow> u64" where
  "put_day val d =
     (val AND NOT (push_bit (mPackWidth * 2) mPackedMask)) OR push_bit (mPackWidth * 2) d"

definition put_year :: "u64 \<Rightarrow> u64 \<Rightarrow> u64" where
  "put_year val y = (val AND NOT (push_bit mPackWidth mPackedMask)) OR push_bit mPackWidth y"

text \<open>
  \<open>create(stationId, date)\<close>: every exception of the parser is caught and logged, and the
  identifier stays 0.
\<close>

definition create_string :: "'d boost_gregorian \<Rightarrow> u32 \<Rightarrow> string \<Rightarrow> u64" where
  "create_string bg station date =
     (case from_simple_string bg date of
        Inl _ \<Rightarrow> 0
      | Inr d \<Rightarrow>
          let val = ucast station AND mPackedMask;
              val = put_day val (ucast (day_of_year bg d));
              val = put_year val (ucast (date_year bg d))
          in val)"

text \<open>
  \<open>create(stationId, day, month, year)\<close>: the three \<open>uint32_t\<close> arguments are converted to the
  16-bit parameters of the date constructor, the year stored is the unconverted argument, and
  only \<open>std::out_of_range\<close> is caught: any other exception leaves the function.
\<close>

definition create_dmy :: "'d boost_gregorian \<Rightarrow> u32 \<Rightarrow> u32 \<Rightarrow> u32 \<Rightarrow> u32 \<Rightarrow> cxx_exn + u64" where
  "create_dmy bg station dy month yr =
     (case mk_date bg (ucast yr) (ucast month) (ucast dy) of
        Inl Out_of_range \<Rightarrow> Inr 0
      | Inl e \<Rightarrow> Inl e
      | Inr d \<Rightarrow>
          let val = ucast station AND mPackedMask;
              val = put_day val (ucast (day_of_year bg d));
              val = put_year val (ucast yr)
          in Inr val)"

definition create_dy :: "u32 \<Rightarrow> u32 \<Rightarrow> u32 \<Rightarrow> u64" where
  "create_dy station dy yr =
     (let val = ucast station AND mPackedMask;
          val = put_day val (ucast dy);
          val = put_year val (ucast yr)
      in val)"

text \<open>The four constructors.\<close>

definition ScheduleDay_string :: "'d boost_gregorian \<Rightarrow> u32 \<Rightarrow> string \<Rightarrow> schedule_day" where
  "ScheduleDay_string bg station date = \<lparr>mId = create_string bg station date\<rparr>"

definition ScheduleDay_dmy ::
  "'d boost_gregorian \<Rightarrow> u32 \<Rightarrow> u32 \<Rightarrow> u32 \<Rightarrow> u32 \<Rightarrow> cxx_exn + schedule_day" where
  "ScheduleDay_dmy bg station dy month yr =
     map_sum id (\<lambda>i. \<lparr>mId = i\<rparr>) (create_dmy bg station dy month yr)"

definition ScheduleDay_dy :: "u32 \<Rightarrow> u32 \<Rightarrow> u32 \<Rightarrow> schedule_day" where
  "ScheduleDay_dy station dy yr = \<lparr>mId = create_dy station dy yr\<rparr>"

definition ScheduleDay_id :: "u64 \<Rightarrow> schedule_day" where
  "ScheduleDay_id compoundId = \<lparr>mId = compoundId\<rparr>"

text \<open>\<open>formatDay\<close> appends year, month and day, unpadded, separated by dashes.\<close>

definition formatDay ::
  "(u16 \<Rightarrow> string) \<Rightarrow> 'd boost_gregorian \<Rightarrow> 'd \<Rightarrow> string \<Rightarrow> string" where
  "formatDay appendU16 bg d buffer =
     buffer @ appendU16 (date_year bg d) @ ''-'' @ appendU16 (date_month bg d) @ ''-''
       @ appendU16 (date_day bg d)"

subsection \<open>Bit positions\<close>

lemma bit_mPackedMask [bits_simps]: "bit mPackedMask n \<longleftrightarrow> n < 20"
  unfolding mPackedMask_def bit_mask20 by auto

lemmas pack_defs = mPackWidth_def put_day_def put_year_def create_dy_def
  stationId_def day_def year_def ScheduleDay_dy_def Let_def

lemmas pack_bits = bit_and_iff bit_or_iff bit_not_iff bit_push_bit_iff bit_drop_bit_eq
  bit_unsigned_iff bit_take_bit_iff bit_mPackedMask

lemma stationId_create: "stationId (ScheduleDay_dy s d y) = take_bit 20 s"
  by (rule bit_eqI) (auto simp: pack_defs pack_bits)

lemma year_create: "year (ScheduleDay_dy s d y) = take_bit 20 y"
  by (rule bit_eqI) (auto simp: pack_defs pack_bits)

lemma day_create: "day (ScheduleDay_dy s d y) = take_bit 20 (d OR drop_bit 21 y)"
  by (rule bit_eqI) (auto simp: pack_defs pack_bits)

lemma take_bit_id:
  fixes w :: u32
  assumes "unat w < 2 ^ 20"
  shows "take_bit 20 w = w"
proof (rule bit_eqI)
  fix n
  show "bit (take_bit 20 w) n \<longleftrightarrow> bit w n"
    using less_exp_bit_False [OF assms, of n] by (cases "n < 20") (auto simp: bit_take_bit_iff)
qed

lemma drop_bit_21_zero:
  fixes w :: u32
  assumes "unat w < 2 ^ 20"
  shows "drop_bit 21 w = 0"
  using less_exp_bit_False [OF assms] by (auto simp: bit_eq_iff bit_drop_bit_eq)

lemma take_bit_ucast_u16: "take_bit 20 (ucast (w :: u16) :: u32) = ucast w"
  by (rule bit_eqI) (auto simp: bit_take_bit_iff bit_unsigned_iff dest: bit_imp_le_length)

lemma drop_bit_ucast_u16: "drop_bit 21 (ucast (w :: u16) :: u32) = 0"
  by (rule bit_eqI) (auto simp: bit_drop_bit_eq bit_unsigned_iff dest: bit_imp_le_length)

lemma ucast_u16_u32_u64: "(ucast (ucast (w :: u16) :: u32) :: u64) = ucast w"
  by (rule bit_eqI) (auto simp: bit_unsigned_iff dest: bit_imp_le_length)

lemma ucast_u16_eq_0: "(ucast (w :: u16) :: u32) = 0 \<longleftrightarrow> w = 0"
proof -
  have "ucast (ucast w :: u32) = w"
    by (rule bit_eqI) (auto simp: bit_unsigned_iff dest: bit_imp_le_length)
  then show ?thesis
    by (metis unsigned_0)
qed

lemma create_string_Inr:
  "from_simple_string bg date = Inr d \<Longrightarrow>
     ScheduleDay_string bg station date =
       ScheduleDay_dy station (ucast (day_of_year bg d)) (ucast (date_year bg d))"
  by (simp add: ScheduleDay_string_def ScheduleDay_dy_def create_string_def create_dy_def
      ucast_u16_u32_u64)

lemma create_dmy_Inr:
  "mk_date bg (ucast yr) (ucast month) (ucast dy) = Inr d \<Longrightarrow>
     ScheduleDay_dmy bg station dy month yr =
       Inr (ScheduleDay_dy station (ucast (day_of_year bg d)) yr)"
  by (simp add: ScheduleDay_dmy_def ScheduleDay_dy_def create_dmy_def create_dy_def
      ucast_u16_u32_u64)

lemma year_zero: "year \<lparr>mId = 0\<rparr> = 0"
  by (simp add: year_def)

text \<open>A one-date calendar, 8 May 2016, on which the hypotheses below are exercised.\<close>

definition sample_gregorian :: "u16 boost_gregorian" where
  "sample_gregorian =
     \<lparr>from_simple_string = (\<lambda>s. if s = ''2016-05-08'' then Inr 129 else Inl (Other_exn ''bad_month'')),
      mk_date = (\<lambda>y m d. if y = 2016 \<and> m = 5 \<and> d = 8 then Inr 129 else Inl Out_of_range),
      day_of_year = id, date_year = (\<lambda>_. 2016), date_month = (\<lambda>_. 5), date_day = (\<lambda>_. 8)\<rparr>"

subsection \<open>Properties\<close>

text \<open>
  What the three accessors read back from the identifier that \<open>create(station, day, year)\<close>
  packs, for every argument: the station and the year come back modulo \<open>2^20\<close>, and the day
  comes back modulo \<open>2^20\<close> after the bits of the year above its 21-bit slot were or-ed into it
  (the code masks neither the day nor the year before shifting them in).
\<close>

theorem pack_accessors:
  "stationId (ScheduleDay_dy s d y) = take_bit 20 s
   \<and> year (ScheduleDay_dy s d y) = take_bit 20 y
   \<and> day (ScheduleDay_dy s d y) = take_bit 20 (d OR drop_bit 21 y)"
  by (simp add: stationId_create year_create day_create)

text \<open>
  C30: the round trip. Within 20 bits each, station, day and year are read back unchanged, so
  two packed identifiers are equal only if all three components are.
\<close>

theorem pack_roundtrip:
  assumes "unat s < 2 ^ 20" "unat d < 2 ^ 20" "unat y < 2 ^ 20"
  shows "stationId (ScheduleDay_dy s d y) = s \<and> day (ScheduleDay_dy s d y) = d
    \<and> year (ScheduleDay_dy s d y) = y"
  using assms by (simp add: stationId_create year_create day_create take_bit_id drop_bit_21_zero)

theorem pack_roundtrip_witness:
  "stationId (ScheduleDay_dy 10003 129 2016) = 10003 \<and> day (ScheduleDay_dy 10003 129 2016) = 129
   \<and> year (ScheduleDay_dy 10003 129 2016) = 2016"
  by (rule pack_roundtrip) simp_all

text \<open>
  C40: the date-string constructor. If the string parses, the identifier is valid and gives back
  the parsed day of the year and year (and the station modulo \<open>2^20\<close>); if the parser throws, whatever it throws,
  the identifier is 0 and invalid. The calendar's years are never 0 (\<open>greg_year\<close> starts at
  1400).
\<close>

theorem ScheduleDay_string_spec:
  assumes "\<forall>d. date_year bg d \<noteq> 0"
  shows "case from_simple_string bg date of
       Inl e \<Rightarrow> \<not> isValid (ScheduleDay_string bg s date)
     | Inr d \<Rightarrow> isValid (ScheduleDay_string bg s date)
         \<and> stationId (ScheduleDay_string bg s date) = take_bit 20 s
         \<and> day (ScheduleDay_string bg s date) = ucast (day_of_year bg d)
         \<and> year (ScheduleDay_string bg s date) = ucast (date_year bg d)"
proof (cases "from_simple_string bg date")
  case (Inl e)
  then show ?thesis
    by (simp add: ScheduleDay_string_def create_string_def isValid_def)
next
  case (Inr d)
  let ?sd = "ScheduleDay_string bg s date"
  have eq: "?sd = ScheduleDay_dy s (ucast (day_of_year bg d)) (ucast (date_year bg d))"
    using Inr by (rule create_string_Inr)
  have y: "year ?sd = ucast (date_year bg d)"
    unfolding eq year_create by (rule take_bit_ucast_u16)
  have "(ucast (date_year bg d) :: u32) \<noteq> 0"
    using assms by (simp add: ucast_u16_eq_0)
  then have "mId ?sd \<noteq> 0"
    using y year_zero by (cases ?sd) auto
  then show ?thesis
    using Inr y by (simp add: isValid_def eq stationId_create day_create take_bit_ucast_u16
        drop_bit_ucast_u16)
qed

theorem ScheduleDay_string_spec_witness:
  "isValid (ScheduleDay_string sample_gregorian 10003 ''2016-05-08'')
   \<and> day (ScheduleDay_string sample_gregorian 10003 ''2016-05-08'') = 129
   \<and> \<not> isValid (ScheduleDay_string sample_gregorian 10003 ''2016-55-245'')"
  using ScheduleDay_string_spec [where bg = sample_gregorian and date = "''2016-05-08''" and s = 10003]
    ScheduleDay_string_spec [where bg = sample_gregorian and date = "''2016-55-245''" and s = 10003]
  by (simp add: sample_gregorian_def)

text \<open>
  The day/month/year constructor validates the year modulo \<open>2^16\<close> but stores the argument:
  an argument that agrees with a valid year modulo \<open>2^16\<close> is accepted, the stored year is
  the argument modulo \<open>2^20\<close>, and the day of the year read back is the calendar's with the
  argument's bits from bit 21 on or-ed in. \<open>std::out_of_range\<close> gives the invalid identifier, any other exception escapes.
\<close>

theorem ScheduleDay_dmy_spec:
  "case mk_date bg (ucast y) (ucast m) (ucast d) of
     Inl e \<Rightarrow> ScheduleDay_dmy bg s d m y = (if e = Out_of_range then Inr \<lparr>mId = 0\<rparr> else Inl e)
   | Inr dt \<Rightarrow> (\<exists>sd. ScheduleDay_dmy bg s d m y = Inr sd \<and> year sd = take_bit 20 y
       \<and> day sd = take_bit 20 (ucast (day_of_year bg dt) OR drop_bit 21 y)
       \<and> stationId sd = take_bit 20 s)"
proof (cases "mk_date bg (ucast y) (ucast m) (ucast d)")
  case (Inl e)
  then show ?thesis
    by (cases e) (simp_all add: ScheduleDay_dmy_def create_dmy_def)
next
  case (Inr dt)
  then show ?thesis
    by (simp add: create_dmy_Inr year_create day_create stationId_create)
qed

end
