(* ===== verification/IntrusivePtr.thy ===== *)
theory IntrusivePtr
  imports Prelude
begin

text \<open>
  \<open>source/utils/intrusive_ptr.h\<close> and \<open>IntrusiveTracked.h\<close>: reference-counted objects and the smart
  pointers that count them. Objects are addresses; \<open>px\<close> is the list of the smart pointers
  in existence, each null (\<open>None\<close>) or the address it holds; a destroyed pointer leaves a null slot, and the temporaries of the
  copy-and-swap assignments are appended and removed again. \<open>deleted\<close> and \<open>released\<close> log the
  calls of \<open>delete\<close> and of \<open>Creator::release\<close>, newest first.
\<close>

record rc_heap =
  mReference :: "nat \<Rightarrow> u64"
  mCreator :: "nat \<Rightarrow> nat option"
  px :: "nat option list"
  deleted :: "nat list"
  released :: "nat list"

definition IntrusiveTracked_new :: "nat \<Rightarrow> rc_heap \<Rightarrow> rc_heap" where
  "IntrusiveTracked_new a h =
     h\<lparr>mReference := (mReference h)(a := 0), mCreator := (mCreator h)(a := None)\<rparr>"

definition referenceCount :: "nat \<Rightarrow> rc_heap \<Rightarrow> u64" where
  "referenceCount a h = mReference h a"

definition setCreator :: "nat \<Rightarrow> nat option \<Rightarrow> rc_heap \<Rightarrow> rc_heap" where
  "setCreator a c h = h\<lparr>mCreator := (mCreator h)(a := c)\<rparr>"

definition creator :: "nat \<Rightarrow> rc_heap \<Rightarrow> nat option" where
  "creator a h = mCreator h a"

text \<open>\<open>this->releaseObject(tracked)\<close>; \<open>delete\<close> of a null pointer does nothing.\<close>

definition releaseObject :: "nat \<Rightarrow> nat option \<Rightarrow> rc_heap \<Rightarrow> rc_heap" where
  "releaseObject this tracked h =
     (case tracked of
        None \<Rightarrow> h
      | Some t \<Rightarrow> if mCreator h this \<noteq> None then h\<lparr>released := t # released h\<rparr>
                  else h\<lparr>deleted := t # deleted h\<rparr>)"

definition intrusive_ptr_add_ref :: "nat \<Rightarrow> rc_heap \<Rightarrow> rc_heap" where
  "intrusive_ptr_add_ref p h = h\<lparr>mReference := (mReference h)(p := mReference h p + 1)\<rparr>"

definition intrusive_ptr_release :: "nat \<Rightarrow> rc_heap \<Rightarrow> rc_heap" where
  "intrusive_ptr_release p h =
     (let h = h\<lparr>mReference := (mReference h)(p := mReference h p - 1)\<rparr>
      in if mReference h p = 0 then releaseObject p (Some p) h else h)"

subsection \<open>The smart pointer\<close>

definition ptr_default :: "rc_heap \<Rightarrow> rc_heap" where
  "ptr_default h = h\<lparr>px := px h @ [None]\<rparr>"

definition ptr_from_raw :: "nat option \<Rightarrow> bool \<Rightarrow> rc_heap \<Rightarrow> rc_heap" where
  "ptr_from_raw p add_ref h =
     (let h = h\<lparr>px := px h @ [p]\<rparr>
      in case p of None \<Rightarrow> h | Some a \<Rightarrow> if add_ref then intrusive_ptr_add_ref a h else h)"

definition ptr_copy :: "nat \<Rightarrow> rc_heap \<Rightarrow> rc_heap" where
  "ptr_copy rhs h =
     (let p = px h ! rhs; h = h\<lparr>px := px h @ [p]\<rparr>
      in case p of None \<Rightarrow> h | Some a \<Rightarrow> intrusive_ptr_add_ref a h)"

definition ptr_destroy :: "nat \<Rightarrow> rc_heap \<Rightarrow> rc_heap" where
  "ptr_destroy i h =
     (let h' = (case px h ! i of None \<Rightarrow> h | Some a \<Rightarrow> intrusive_ptr_release a h)
      in h'\<lparr>px := (px h')[i := None]\<rparr>)"

definition ptr_swap :: "nat \<Rightarrow> nat \<Rightarrow> rc_heap \<Rightarrow> rc_heap" where
  "ptr_swap i rhs h =
     (let tmp = px h ! i; h = h\<lparr>px := (px h)[i := px h ! rhs]\<rparr>
      in h\<lparr>px := (px h)[rhs := tmp]\<rparr>)"

text \<open>
  \<open>this_type(...).swap(*this)\<close>: the temporary is the last slot; it is destroyed at the end of the
  full expression.
\<close>

definition swap_with_temp :: "nat \<Rightarrow> rc_heap \<Rightarrow> rc_heap" where
  "swap_with_temp i h =
     (let t = length (px h) - 1; h = ptr_swap t i h; h = ptr_destroy t h
      in h\<lparr>px := butlast (px h)\<rparr>)"

definition ptr_assign :: "nat \<Rightarrow> nat \<Rightarrow> rc_heap \<Rightarrow> rc_heap" where
  "ptr_assign i rhs h = swap_with_temp i (ptr_copy rhs h)"

definition ptr_assign_raw :: "nat \<Rightarrow> nat option \<Rightarrow> rc_heap \<Rightarrow> rc_heap" where
  "ptr_assign_raw i p h = swap_with_temp i (ptr_from_raw p True h)"

definition ptr_reset :: "nat \<Rightarrow> rc_heap \<Rightarrow> rc_heap" where
  "ptr_reset i h = swap_with_temp i (ptr_default h)"

definition ptr_reset_raw :: "nat \<Rightarrow> nat option \<Rightarrow> rc_heap \<Rightarrow> rc_heap" where
  "ptr_reset_raw i p h = swap_with_temp i (ptr_from_raw p True h)"

definition ptr_get :: "nat \<Rightarrow> rc_heap \<Rightarrow> nat option" where
  "ptr_get i h = px h ! i"

definition ptr_eq :: "nat \<Rightarrow> nat \<Rightarrow> rc_heap \<Rightarrow> bool" where
  "ptr_eq a b h \<longleftrightarrow> ptr_get a h = ptr_get b h"

definition ptr_eq_raw :: "nat \<Rightarrow> nat option \<Rightarrow> rc_heap \<Rightarrow> bool" where
  "ptr_eq_raw a b h \<longleftrightarrow> ptr_get a h = b"

subsection \<open>Programs over smart pointers\<close>

text \<open>
  One step of a client: any operation on existing pointers; a raw pointer is only taken
  from an object that was not deleted, and a new object is one that no pointer refers to. The
  constructor flag \<open>add_ref = false\<close>, which adopts a reference counted elsewhere, is not used by the sources and has no
  rule. The bound keeps the number of pointers within \<open>size_t\<close>.
\<close>

inductive rc_step :: "rc_heap \<Rightarrow> rc_heap \<Rightarrow> bool" where
  new_obj: "Some a \<notin> set (px h) \<Longrightarrow> a \<notin> set (deleted h) \<Longrightarrow> rc_step h (IntrusiveTracked_new a h)"
| set_creator: "rc_step h (setCreator a c h)"
| default: "length (px h) + 1 < 2 ^ 64 \<Longrightarrow> rc_step h (ptr_default h)"
| from_raw: "length (px h) + 1 < 2 ^ 64 \<Longrightarrow> (\<And>a. p = Some a \<Longrightarrow> a \<notin> set (deleted h)) \<Longrightarrow>
    rc_step h (ptr_from_raw p True h)"
| copy: "length (px h) + 1 < 2 ^ 64 \<Longrightarrow> i < length (px h) \<Longrightarrow> rc_step h (ptr_copy i h)"
| destroy: "i < length (px h) \<Longrightarrow> rc_step h (ptr_destroy i h)"
| swap: "i < length (px h) \<Longrightarrow> j < length (px h) \<Longrightarrow> rc_step h (ptr_swap i j h)"
| assign: "length (px h) + 1 < 2 ^ 64 \<Longrightarrow> i < length (px h) \<Longrightarrow> j < length (px h) \<Longrightarrow>
    rc_step h (ptr_assign i j h)"
| assign_raw: "length (px h) + 1 < 2 ^ 64 \<Longrightarrow> i < length (px h) \<Longrightarrow>
    (\<And>a. p = Some a \<Longrightarrow> a \<notin> set (deleted h)) \<Longrightarrow> rc_step h (ptr_assign_raw i p h)"
| reset: "length (px h) + 1 < 2 ^ 64 \<Longrightarrow> i < length (px h) \<Longrightarrow> rc_step h (ptr_reset i h)"
| reset_raw: "length (px h) + 1 < 2 ^ 64 \<Longrightarrow> i < length (px h) \<Longrightarrow>
    (\<And>a. p = Some a \<Longrightarrow> a \<notin> set (deleted h)) \<Longrightarrow> rc_step h (ptr_reset_raw i p h)"

definition rc_init :: rc_heap where
  "rc_init = \<lparr>mReference = (\<lambda>_. 0), mCreator = (\<lambda>_. None), px = [], deleted = [], released = []\<rparr>"

inductive rc_reachable :: "rc_heap \<Rightarrow> bool" where
  start: "rc_reachable rc_init"
| step: "rc_reachable h \<Longrightarrow> rc_step h h' \<Longrightarrow> rc_reachable h'"

definition handles :: "rc_heap \<Rightarrow> nat \<Rightarrow> nat" where
  "handles h a = count_list (px h) (Some a)"

text \<open>The invariant: every counter is the number of pointers, and no pointer dangles.\<close>

definition rc_inv :: "rc_heap \<Rightarrow> bool" where
  "rc_inv h \<longleftrightarrow> length (px h) < 2 ^ 64 \<and> (\<forall>a. unat (mReference h a) = handles h a)
     \<and> (\<forall>a \<in> set (deleted h). handles h a = 0)"

subsection \<open>Counting\<close>

lemma count_list_update:
  "i < length xs \<Longrightarrow>
     count_list (xs[i := v]) y + (if xs ! i = y then 1 else 0) = count_list xs y + (if v = y then 1 else 0)"
proof (induction xs arbitrary: i)
  case (Cons x xs)
  show ?case
  proof (cases i)
    case (Suc k)
    then show ?thesis using Cons.IH [of k] Cons.prems by auto
  qed simp
qed simp

lemma count_list_pos: "i < length xs \<Longrightarrow> xs ! i = y \<Longrightarrow> 0 < count_list xs y"
  by (metis count_list_0_iff gr0I nth_mem)

lemma handles_le_length: "handles h a \<le> length (px h)"
  by (simp add: handles_def count_le_length)

lemma count_list_swap:
  assumes "i < length xs" "j < length xs"
  shows "count_list (xs[i := xs ! j, j := xs ! i]) y = count_list xs y"
proof (cases "i = j")
  case False
  then show ?thesis
    using count_list_update [of i xs "xs ! j" y] count_list_update [of j "xs[i := xs ! j]" "xs ! i" y] assms
    by (auto split: if_splits)
qed simp

lemma unat_incr: "unat (w :: u64) + 1 < 2 ^ 64 \<Longrightarrow> unat (w + 1) = unat w + 1"
  by (simp add: unat_word_ariths)

lemma unat_decr: "0 < unat (w :: u64) \<Longrightarrow> unat (w - 1) = unat w - 1"
  by (rule unat_minus_one) auto

lemma decr_zero_iff: "(w :: u64) - 1 = 0 \<longleftrightarrow> unat w = 1"
  unfolding right_minus_eq by (simp add: word_unat_eq_iff)

subsection \<open>Every operation keeps the invariant\<close>

lemma rc_inv_from_raw [inv_intros]:
  assumes "rc_inv h" "length (px h) + 1 < 2 ^ 64" "\<And>a. p = Some a \<Longrightarrow> a \<notin> set (deleted h)"
  shows "rc_inv (ptr_from_raw p True h)"
proof (cases p)
  case None
  then show ?thesis
    using assms(1,2) by (auto simp: rc_inv_def ptr_from_raw_def handles_def)
next
  case (Some a)
  have "unat (mReference h a + 1) = handles h a + 1"
    using unat_incr [of "mReference h a"] assms(1,2) handles_le_length [of h a] by (auto simp: rc_inv_def)
  then show ?thesis
    using assms Some by (auto simp: rc_inv_def ptr_from_raw_def intrusive_ptr_add_ref_def handles_def)
qed

lemma ptr_copy_from_raw: "ptr_copy i h = ptr_from_raw (px h ! i) True h"
  by (simp add: ptr_copy_def ptr_from_raw_def Let_def split: option.split)

lemma ptr_default_from_raw: "ptr_default h = ptr_from_raw None True h"
  by (simp add: ptr_default_def ptr_from_raw_def)

lemma rc_inv_not_deleted: "rc_inv h \<Longrightarrow> i < length (px h) \<Longrightarrow> px h ! i = Some a \<Longrightarrow> a \<notin> set (deleted h)"
  using count_list_pos [of i "px h" "Some a"] by (auto simp: rc_inv_def handles_def)

lemma rc_inv_copy [inv_intros]:
  "rc_inv h \<Longrightarrow> length (px h) + 1 < 2 ^ 64 \<Longrightarrow> i < length (px h) \<Longrightarrow> rc_inv (ptr_copy i h)"
  unfolding ptr_copy_from_raw by (rule rc_inv_from_raw) (auto dest: rc_inv_not_deleted)

lemma rc_inv_swap [inv_intros]:
  "rc_inv h \<Longrightarrow> i < length (px h) \<Longrightarrow> j < length (px h) \<Longrightarrow> rc_inv (ptr_swap i j h)"
  by (simp add: rc_inv_def ptr_swap_def handles_def count_list_swap Let_def)

lemma rc_inv_destroy [inv_intros]:
  assumes "rc_inv h" "i < length (px h)"
  shows "rc_inv (ptr_destroy i h)"
proof (cases "px h ! i")
  case None
  then show ?thesis
    using assms list_update_id [of "px h" i] by (auto simp: rc_inv_def ptr_destroy_def handles_def)
next
  case (Some a)
  have c: "count_list ((px h)[i := None]) (Some b) = (if b = a then handles h a - 1 else handles h b)" for b
    using count_list_update [OF assms(2), of None "Some b"] Some by (auto simp: handles_def)
  have pos: "0 < handles h a"
    using count_list_pos assms(2) Some by (simp add: handles_def)
  then have d: "unat (mReference h a - 1) = handles h a - 1"
    using unat_decr [of "mReference h a"] assms(1) by (simp add: rc_inv_def)
  have z: "mReference h a - 1 = 0 \<longleftrightarrow> handles h a = 1"
    using assms(1) unfolding decr_zero_iff by (simp add: rc_inv_def)
  show ?thesis
    using assms Some c d z pos
    by (auto simp: rc_inv_def ptr_destroy_def intrusive_ptr_release_def releaseObject_def handles_def Let_def)
qed

lemma rc_inv_swap_with_temp:
  assumes "rc_inv h" "px h = ys @ [p]" "i < length ys"
  shows "rc_inv (swap_with_temp i h)"
proof -
  let ?h = "ptr_destroy (length ys) (ptr_swap (length ys) i h)"
  have inv: "rc_inv ?h"
    using assms by (intro inv_intros) (simp_all add: ptr_swap_def Let_def)
  have "\<exists>zs. px ?h = zs @ [None]"
    using assms(2,3)
    by (auto simp: ptr_destroy_def ptr_swap_def Let_def intrusive_ptr_release_def releaseObject_def
        list_update_append split: option.splits)
  then obtain zs where "px ?h = zs @ [None]" ..
  then have "rc_inv (?h\<lparr>px := butlast (px ?h)\<rparr>)"
    using inv by (simp add: rc_inv_def handles_def)
  then show ?thesis
    using assms(2) by (simp add: swap_with_temp_def Let_def)
qed

lemma px_from_raw [simp]: "px (ptr_from_raw p b h) = px h @ [p]"
  by (simp add: ptr_from_raw_def intrusive_ptr_add_ref_def Let_def split: option.split)

lemma rc_inv_temp_assign:
  assumes "rc_inv h" "length (px h) + 1 < 2 ^ 64" "i < length (px h)"
    and "\<And>a. p = Some a \<Longrightarrow> a \<notin> set (deleted h)"
  shows "rc_inv (swap_with_temp i (ptr_from_raw p True h))"
  by (rule rc_inv_swap_with_temp [of _ "px h" p]) (use assms in \<open>auto intro: rc_inv_from_raw\<close>)

lemma rc_step_inv: "rc_step h h' \<Longrightarrow> rc_inv h \<Longrightarrow> rc_inv h'"
proof (induction rule: rc_step.induct)
  case (new_obj a h)
  then have "handles h a = 0" by (simp add: handles_def count_list_0_iff)
  with new_obj show ?case by (auto simp: rc_inv_def IntrusiveTracked_new_def handles_def)
next
  case (set_creator h a c)
  then show ?case by (simp add: rc_inv_def setCreator_def handles_def)
next
  case (assign h i j)
  then show ?case
    unfolding ptr_assign_def ptr_copy_from_raw
    by (intro rc_inv_temp_assign) (auto dest: rc_inv_not_deleted)
qed (auto simp: ptr_default_from_raw ptr_assign_raw_def ptr_reset_def ptr_reset_raw_def
      intro: inv_intros rc_inv_temp_assign)

lemma rc_reachable_inv: "rc_reachable h \<Longrightarrow> rc_inv h"
proof (induction rule: rc_reachable.induct)
  case start
  show ?case by (simp add: rc_inv_def rc_init_def handles_def)
next
  case (step h h')
  then show ?case by (blast intro: rc_step_inv)
qed

subsection \<open>Properties\<close>

text \<open>
  C5: in every state a program over \<open>intrusive_ptr\<close>s can reach, each object's counter is the number of
  pointers to it, and no pointer refers to an object that was deleted.
\<close>

theorem refcount_is_handle_count:
  assumes "rc_reachable h"
  shows "unat (referenceCount a h) = handles h a
    \<and> (\<forall>i < length (px h). \<forall>b. ptr_get i h = Some b \<longrightarrow> b \<notin> set (deleted h))"
proof -
  have inv: "rc_inv h" using assms by (rule rc_reachable_inv)
  then have "unat (referenceCount a h) = handles h a"
    by (simp add: rc_inv_def referenceCount_def)
  then show ?thesis
    using rc_inv_not_deleted [OF inv] by (simp add: ptr_get_def)
qed

theorem refcount_is_handle_count_witness:
  "unat (referenceCount 7 (ptr_copy 0 (ptr_from_raw (Some 7) True rc_init))) = 2"
proof -
  have "rc_reachable (ptr_from_raw (Some 7) True rc_init)"
    by (rule rc_reachable.step [OF rc_reachable.start], rule rc_step.from_raw) (simp_all add: rc_init_def)
  then have "rc_reachable (ptr_copy 0 (ptr_from_raw (Some 7) True rc_init))"
    by (rule rc_reachable.step, intro rc_step.copy) (simp_all add: rc_init_def)
  from refcount_is_handle_count [OF this, of 7] show ?thesis
    by (simp add: handles_def ptr_copy_from_raw rc_init_def)
qed

text \<open>
  C31: the last pointer releases. Destroying a pointer to \<open>a\<close> hands \<open>a\<close> to its creator (or deletes it, if it has none)
  exactly when no other pointer refers to it, and touches no other object's counter.
\<close>

theorem last_handle_releases:
  assumes "rc_reachable h" "i < length (px h)" "ptr_get i h = Some a"
  shows "(if handles h a = 1
      then (if creator a h = None then deleted (ptr_destroy i h) = a # deleted h \<and> released (ptr_destroy i h) = released h
            else released (ptr_destroy i h) = a # released h \<and> deleted (ptr_destroy i h) = deleted h)
      else released (ptr_destroy i h) = released h \<and> deleted (ptr_destroy i h) = deleted h)
    \<and> (\<forall>b. b \<noteq> a \<longrightarrow> referenceCount b (ptr_destroy i h) = referenceCount b h)"
proof -
  have inv: "unat (mReference h a) = handles h a"
    using rc_reachable_inv [OF assms(1)] by (simp add: rc_inv_def)
  have z: "mReference h a - 1 = 0 \<longleftrightarrow> handles h a = 1"
    unfolding decr_zero_iff inv ..
  have e: "ptr_destroy i h =
      (let h' = h\<lparr>mReference := (mReference h)(a := mReference h a - 1)\<rparr>;
           h' = (if handles h a = 1 then releaseObject a (Some a) h' else h')
       in h'\<lparr>px := (px h')[i := None]\<rparr>)"
    using assms(3) z by (simp add: ptr_destroy_def ptr_get_def intrusive_ptr_release_def Let_def)
  show ?thesis
    unfolding e by (simp add: releaseObject_def Let_def creator_def referenceCount_def)
qed

theorem last_handle_releases_witness:
  "deleted (ptr_destroy 0 (ptr_from_raw (Some 7) True rc_init)) = [7]"
proof -
  have r: "rc_reachable (ptr_from_raw (Some 7) True rc_init)"
    by (rule rc_reachable.step [OF rc_reachable.start], rule rc_step.from_raw) (simp_all add: rc_init_def)
  have "handles (ptr_from_raw (Some 7) True rc_init) 7 = 1" "creator 7 (ptr_from_raw (Some 7) True rc_init) = None"
    by (simp_all add: handles_def rc_init_def creator_def ptr_from_raw_def intrusive_ptr_add_ref_def)
  then show ?thesis
    using last_handle_releases [OF r, of 0 7]
    by (simp add: rc_init_def ptr_get_def ptr_from_raw_def intrusive_ptr_add_ref_def)
qed

end
