(* ===== verification/Topics.thy ===== *)
theory Topics
  imports Prelude
begin

text \<open>
  \<open>source/datastore/Topics.h\<close> and \<open>Topics.cpp\<close>: the topics of the catapult database, their
  underlying \<open>size_t\<close> values (declaration order) and the names under which the rows are stored.
\<close>

datatype Topic =
  Metamorphosis_Station |
  Metamorphosis_Linuep |
  Metamorphosis_Image |
  Metamorphosis_Person |
  Metamorphosis_Program_TmsId |
  Metamorphosis_Affiliation |
  Metamorphosis_Market |
  Metamorphosis_Schedule_Day |
  Metamorphosis_Provider |
  Metamorphosis_Headend |
  Metamorphosis_Rating_Body |
  Metamorphosis_Rating_Value |
  Metamorphosis_Animation |
  Metamorphosis_Award_Type |
  Metamorphosis_Award_Body |
  Metamorphosis_Genre |
  Metamorphosis_Production_Company |
  Metamorphosis_Advisory |
  Metamorphosis_Holiday |
  Metamorphosis_Playoff |
  Metamorphosis_Team |
  Metamorphosis_Venue |
  Metamorphosis_Warning |
  Metamorphosis_Conference |
  Metamorphosis_University

fun topic_value :: "Topic \<Rightarrow> u64" where
  "topic_value Metamorphosis_Station = 0"
| "topic_value Metamorphosis_Linuep = 1"
| "topic_value Metamorphosis_Image = 2"
| "topic_value Metamorphosis_Person = 3"
| "topic_value Metamorphosis_Program_TmsId = 4"
| "topic_value Metamorphosis_Affiliation = 5"
| "topic_value Metamorphosis_Market = 6"
| "topic_value Metamorphosis_Schedule_Day = 7"
| "topic_value Metamorphosis_Provider = 8"
| "topic_value Metamorphosis_Headend = 9"
| "topic_value Metamorphosis_Rating_Body = 10"
| "topic_value Metamorphosis_Rating_Value = 11"
| "topic_value Metamorphosis_Animation = 12"
| "topic_value Metamorphosis_Award_Type = 13"
| "topic_value Metamorphosis_Award_Body = 14"
| "topic_value Metamorphosis_Genre = 15"
| "topic_value Metamorphosis_Production_Company = 16"
| "topic_value Metamorphosis_Advisory = 17"
| "topic_value Metamorphosis_Holiday = 18"
| "topic_value Metamorphosis_Playoff = 19"
| "topic_value Metamorphosis_Team = 20"
| "topic_value Metamorphosis_Venue = 21"
| "topic_value Metamorphosis_Warning = 22"
| "topic_value Metamorphosis_Conference = 23"
| "topic_value Metamorphosis_University = 24"

fun toChar :: "Topic \<Rightarrow> string" where
  "toChar Metamorphosis_Station = ''metamorphosis.station''"
| "toChar Metamorphosis_Linuep = ''metamorphosis.lineup''"
| "toChar Metamorphosis_Image = ''metamorphosis.image''"
| "toChar Metamorphosis_Person = ''metamorphosis.person''"
| "toChar Metamorphosis_Program_TmsId = ''metamorphosis.program.tmsId''"
| "toChar Metamorphosis_Affiliation = ''metamorphosis.affiliation''"
| "toChar Metamorphosis_Market = ''metamorphosis.market''"
| "toChar Metamorphosis_Schedule_Day = ''metamorphosis.schedule.day''"
| "toChar Metamorphosis_Provider = ''metamorphosis.provider''"
| "toChar Metamorphosis_Headend = ''metamorphosis.headend''"
| "toChar Metamorphosis_Rating_Body = ''metamorphosis.rating.body''"
| "toChar Metamorphosis_Rating_Value = ''metamorphosis.rating.value''"
| "toChar Metamorphosis_Animation = ''metamorphosis.animation''"
| "toChar Metamorphosis_Award_Type = ''metamorphosis.award.type''"
| "toChar Metamorphosis_Award_Body = ''metamorphosis.award.body''"
| "toChar Metamorphosis_Genre = ''metamorphosis.genre''"
| "toChar Metamorphosis_Production_Company = ''metamorphosis.production.company''"
| "toChar Metamorphosis_Advisory = ''metamorphosis.advisory''"
| "toChar Metamorphosis_Holiday = ''metamorphosis.holiday''"
| "toChar Metamorphosis_Playoff = ''metamorphosis.playoff''"
| "toChar Metamorphosis_Team = ''metamorphosis.team''"
| "toChar Metamorphosis_Venue = ''metamorphosis.venue''"
| "toChar Metamorphosis_Warning = ''metamorphosis.warning''"
| "toChar Metamorphosis_Conference = ''metamorphosis.conference''"
| "toChar Metamorphosis_University = ''metamorphosis.university''"

text \<open>\<open>operator<<\<close> appends the topic's name to the stream; \<open>FormatValue<Topic>\<close> formats it.\<close>

definition stream_topic :: "string \<Rightarrow> Topic \<Rightarrow> string" where
  "stream_topic os topic = os @ toChar topic"

definition format_topic :: "Topic \<Rightarrow> string" where
  "format_topic mTopic = toChar mTopic"

definition all_topics :: "Topic list" where
  "all_topics =
     [Metamorphosis_Station,
      Metamorphosis_Linuep,
      Metamorphosis_Image,
      Metamorphosis_Person,
      Metamorphosis_Program_TmsId,
      Metamorphosis_Affiliation,
      Metamorphosis_Market,
      Metamorphosis_Schedule_Day,
      Metamorphosis_Provider,
      Metamorphosis_Headend,
      Metamorphosis_Rating_Body,
      Metamorphosis_Rating_Value,
      Metamorphosis_Animation,
      Metamorphosis_Award_Type,
      Metamorphosis_Award_Body,
      Metamorphosis_Genre,
      Metamorphosis_Production_Company,
      Metamorphosis_Advisory,
      Metamorphosis_Holiday,
      Metamorphosis_Playoff,
      Metamorphosis_Team,
      Metamorphosis_Venue,
      Metamorphosis_Warning,
      Metamorphosis_Conference,
      Metamorphosis_University]"

lemma all_topics_complete: "t \<in> set all_topics"
  by (cases t) (simp_all add: all_topics_def)

lemma distinct_values: "distinct (map topic_value all_topics)"
  by (simp add: all_topics_def)

lemma inj_topic_value: "topic_value s = topic_value t \<longleftrightarrow> s = t"
  using distinct_values all_topics_complete by (metis distinct_map inj_onD)

text \<open>Scoped enumerations compare by their underlying value.\<close>

instantiation Topic :: linorder
begin

definition less_eq_Topic :: "Topic \<Rightarrow> Topic \<Rightarrow> bool" where
  "less_eq_Topic s t \<longleftrightarrow> topic_value s \<le> topic_value t"

definition less_Topic :: "Topic \<Rightarrow> Topic \<Rightarrow> bool" where
  "less_Topic s t \<longleftrightarrow> topic_value s < topic_value t"

instance
  by intro_classes (auto simp: less_eq_Topic_def less_Topic_def simp flip: inj_topic_value)

end

subsection \<open>Properties\<close>

text \<open>
  No two topics share a name: the topic filter of a query selects one topic's rows
  only. All names carry the prefix \<open>metamorphosis.\<close>.
\<close>

theorem toChar_injective: "(toChar s = toChar t) = (s = t) \<and> take 14 (toChar s) = ''metamorphosis.''"
proof -
  have "distinct (map toChar all_topics)"
    by (simp add: all_topics_def)
  then have "inj_on toChar (set all_topics)"
    by (simp add: distinct_map)
  then have "(toChar s = toChar t) = (s = t)"
    using all_topics_complete by (metis inj_onD)
  moreover have "take 14 (toChar s) = ''metamorphosis.''"
    by (cases s) simp_all
  ultimately show ?thesis by blast
qed

end
