(* ===== verification/DatastoreIterator.thy ===== *)
theory DatastoreIterator
  imports Topics ScheduleDay
begin

text \<open>
  \<open>source/datastore/DatastoreIterator.h\<close> / \<open>.cpp\<close> and \<open>DataObject.h\<close>: one PostgreSQL cursor at a
  time over a libpq connection, read in batches of \<open>fetchSize\<close> rows.

  libpq and folly are not part of the repository. libpq is the record \<open>libpq\<close> of the calls the
  code makes, over an abstract connection state \<open>'c\<close> that every \<open>PQexec\<close> advances; a
  null \<open>PGconn*\<close> or \<open>PGresult*\<close> is \<open>None\<close>. folly is the record \<open>folly\<close> of its number, enum and
  format-string printers. \<open>pq_live\<close> is a ghost field: the \<open>PGresult\<close>s obtained from \<open>PQexec\<close> and
  not passed to \<open>PQclear\<close> yet. Log lines are not modelled.
\<close>

datatype exec_status = PGRES_COMMAND_OK | PGRES_TUPLES_OK | PGRES_OTHER

record pgresult =
  res_status :: exec_status
  res_rows :: "string option list"

record 'c libpq =
  pq_exec :: "'c \<Rightarrow> string \<Rightarrow> pgresult option \<times> 'c"
  pq_connectdb :: "string \<Rightarrow> 'c option"
  pq_status_ok :: "'c \<Rightarrow> bool"
  pq_errorMessage :: "'c option \<Rightarrow> string"

record folly =
  appendTopic :: "Topic \<Rightarrow> string"
  appendU64 :: "u64 \<Rightarrow> string"
  appendU16 :: "u16 \<Rightarrow> string"
  sformat :: "string \<Rightarrow> string list \<Rightarrow> string"

record data_object =
  sizeInBytes :: nat
  thriftObject :: "string option"

definition DataObject_new :: data_object where
  "DataObject_new = \<lparr>sizeInBytes = 0, thriftObject = None\<rparr>"

datatype iter_state = Ready | Open

record 'c iter =
  mError :: string
  mFetchCommand :: string
  mCloseCommand :: string
  mQueryCommand :: string
  mResult :: "pgresult option"
  mState :: iter_state
  mConnection :: "'c option"
  mThreadId :: string
  mConnectionString :: string
  mResultOffset :: nat
  mWasError :: bool
  pq_live :: int

subsection \<open>libpq calls on possibly null pointers\<close>

definition PQresultStatus :: "pgresult option \<Rightarrow> exec_status" where
  "PQresultStatus r = (case r of None \<Rightarrow> PGRES_OTHER | Some x \<Rightarrow> res_status x)"

definition PQntuples :: "pgresult option \<Rightarrow> nat" where
  "PQntuples r = (case r of None \<Rightarrow> 0 | Some x \<Rightarrow> length (res_rows x))"

definition PQclear :: "pgresult option \<Rightarrow> 'c iter \<Rightarrow> 'c iter" where
  "PQclear r it = (case r of None \<Rightarrow> it | Some _ \<Rightarrow> it\<lparr>pq_live := pq_live it - 1\<rparr>)"

definition PQexec :: "'c libpq \<Rightarrow> string \<Rightarrow> 'c iter \<Rightarrow> pgresult option \<times> 'c iter" where
  "PQexec pq cmd it =
     (case mConnection it of
        None \<Rightarrow> (None, it)
      | Some c \<Rightarrow>
          (case pq_exec pq c cmd of
             (r, c') \<Rightarrow> (r, it\<lparr>mConnection := Some c',
                            pq_live := pq_live it + (case r of None \<Rightarrow> 0 | Some _ \<Rightarrow> 1)\<rparr>)))"

subsection \<open>Operations\<close>

definition setError :: "'c iter \<Rightarrow> 'c iter" where
  "setError it = it\<lparr>mWasError := True\<rparr>"

definition resetError :: "'c iter \<Rightarrow> 'c iter" where
  "resetError it = it\<lparr>mWasError := False\<rparr>"

definition hasError :: "'c iter \<Rightarrow> bool" where
  "hasError it = mWasError it"

definition iter_isValid :: "'c iter \<Rightarrow> bool" where
  "iter_isValid it \<longleftrightarrow> mConnection it \<noteq> None"

definition iter_isConnected :: "'c libpq \<Rightarrow> 'c iter \<Rightarrow> bool" where
  "iter_isConnected pq it \<longleftrightarrow>
     (case mConnection it of None \<Rightarrow> False | Some c \<Rightarrow> pq_status_ok pq c)"

definition isReady :: "'c iter \<Rightarrow> bool" where
  "isReady it \<longleftrightarrow> mState it = Ready"

definition destroyConnection :: "'c iter \<Rightarrow> 'c iter" where
  "destroyConnection it = it\<lparr>mConnection := None\<rparr>"

definition createConnection :: "'c libpq \<Rightarrow> folly \<Rightarrow> 'c iter \<Rightarrow> 'c iter" where
  "createConnection pq fo it =
     (if iter_isValid it then it
      else
        let it = destroyConnection it;
            it = it\<lparr>mConnection := pq_connectdb pq (mConnectionString it)\<rparr>
        in if \<not> iter_isValid it \<or> \<not> iter_isConnected pq it
           then (setError it)\<lparr>mError := sformat fo
                  ''Error connecting to PostgreSQL with connection string: {}: {} ''
                  [mConnectionString it, pq_errorMessage pq (mConnection it)]\<rparr>
           else it)"

text \<open>One of the two close commands: run it, flag the error, clear its result.\<close>

definition exec_close :: "'c libpq \<Rightarrow> string \<Rightarrow> 'c iter \<Rightarrow> 'c iter" where
  "exec_close pq cmd it =
     (case PQexec pq cmd it of
        (result, it) \<Rightarrow>
          PQclear result (if PQresultStatus result \<noteq> PGRES_COMMAND_OK then setError it else it))"

definition closeAndReset :: "'c libpq \<Rightarrow> 'c iter \<Rightarrow> 'c iter" where
  "closeAndReset pq it =
     (let it =
        (if mState it = Open then
           let it = (if mResult it \<noteq> None then (PQclear (mResult it) it)\<lparr>mResult := None\<rparr> else it)
           in if mConnection it \<noteq> None
              then exec_close pq ''END'' (exec_close pq (mCloseCommand it) it)
              else it
         else it)
      in it\<lparr>mState := Ready\<rparr>)"

definition DatastoreIterator_new :: "'c libpq \<Rightarrow> folly \<Rightarrow> string \<Rightarrow> string \<Rightarrow> 'c iter" where
  "DatastoreIterator_new pq fo threadId connectionString =
     (let it = \<lparr>mError = [], mFetchCommand = [], mCloseCommand = [], mQueryCommand = [],
                mResult = None, mState = Ready, mConnection = None, mThreadId = threadId,
                mConnectionString = connectionString, mResultOffset = 0, mWasError = False,
                pq_live = 0\<rparr>;
          it = createConnection pq fo it;
          it = it\<lparr>mState := Ready\<rparr>
      in resetError it)"

definition DatastoreIterator_delete :: "'c libpq \<Rightarrow> 'c iter \<Rightarrow> 'c iter" where
  "DatastoreIterator_delete pq it = destroyConnection (closeAndReset pq it)"

text \<open>
  \<open>next()\<close>: fetch a batch when there is none or it is used up, then hand out the row at the
  offset; \<open>None\<close> is the null pointer that ends the iteration.
\<close>

definition fetch_batch :: "'c libpq \<Rightarrow> 'c iter \<Rightarrow> 'c iter" where
  "fetch_batch pq it =
     (if mResult it = None \<or> mResultOffset it = PQntuples (mResult it) then
        let it = (if mResult it \<noteq> None then PQclear (mResult it) it else it);
            it = it\<lparr>mResultOffset := 0\<rparr>
        in (case PQexec pq (mFetchCommand it) it of (r, it) \<Rightarrow> it\<lparr>mResult := r\<rparr>)
      else it)"

definition read_row :: "string option \<Rightarrow> data_object" where
  "read_row v =
     (case v of
        None \<Rightarrow> DataObject_new
      | Some b \<Rightarrow> DataObject_new\<lparr>sizeInBytes := length b, thriftObject := Some b\<rparr>)"

definition iter_next :: "'c libpq \<Rightarrow> folly \<Rightarrow> 'c iter \<Rightarrow> data_object option \<times> 'c iter" where
  "iter_next pq fo it =
     (let it = fetch_batch pq it
      in case mResult it of
           Some r \<Rightarrow>
             (if res_status r \<noteq> PGRES_TUPLES_OK then
                (None, closeAndReset pq (setError (it\<lparr>mError :=
                    sformat fo ''Error fetching results : {} '' [pq_errorMessage pq (mConnection it)]\<rparr>)))
              else if length (res_rows r) = 0 then (None, closeAndReset pq it)
              else (Some (read_row (res_rows r ! mResultOffset it)),
                    it\<lparr>mResultOffset := mResultOffset it + 1\<rparr>))
         | None \<Rightarrow>
             (None, closeAndReset pq (setError (it\<lparr>mError :=
                 sformat fo ''Error fetching results : {} '' [pq_errorMessage pq (mConnection it)]\<rparr>))))"

subsection \<open>Query texts\<close>

text \<open>Both list printers compare iterators: the separator is left out at the last position.\<close>

fun stringIdList_from :: "folly \<Rightarrow> u64 list \<Rightarrow> nat \<Rightarrow> nat \<Rightarrow> string" where
  "stringIdList_from fo ids 0 pos = []"
| "stringIdList_from fo ids (Suc left) pos =
     (if pos \<noteq> length ids - 1
      then [CHR 0x27] @ appendU64 fo (ids ! pos) @ [CHR 0x27] @ '',''
      else [CHR 0x27] @ appendU64 fo (ids ! pos) @ [CHR 0x27])
     @ stringIdList_from fo ids left (Suc pos)"

definition generateStringIdList :: "folly \<Rightarrow> u64 list \<Rightarrow> string \<Rightarrow> string" where
  "generateStringIdList fo ids str = str @ stringIdList_from fo ids (length ids) 0"

fun longIdList_from :: "folly \<Rightarrow> u64 list \<Rightarrow> nat \<Rightarrow> nat \<Rightarrow> string" where
  "longIdList_from fo ids 0 pos = []"
| "longIdList_from fo ids (Suc left) pos =
     (if pos \<noteq> length ids - 1
      then appendU64 fo (ids ! pos) @ '',''
      else appendU64 fo (ids ! pos))
     @ longIdList_from fo ids left (Suc pos)"

definition generateLongIdList :: "folly \<Rightarrow> u64 list \<Rightarrow> string \<Rightarrow> string" where
  "generateLongIdList fo ids str = str @ longIdList_from fo ids (length ids) 0"

abbreviation quot :: string where
  "quot \<equiv> [CHR 0x27]"

text \<open>
  The four overloads of \<open>executeQuery\<close>: the last runs \<open>BEGIN\<close> and the \<open>DECLARE\<close> it is given, and
  prepares the fetch and close commands; the others build the \<open>DECLARE\<close>.
\<close>

definition fetch_command :: "folly \<Rightarrow> Topic \<Rightarrow> u64 \<Rightarrow> string \<Rightarrow> string" where
  "fetch_command fo topic fetchSize threadId =
     ''FETCH '' @ appendU64 fo fetchSize @ '' in cursor_'' @ appendTopic fo topic @ ''_'' @ threadId"

definition close_command :: "folly \<Rightarrow> Topic \<Rightarrow> string \<Rightarrow> string" where
  "close_command fo topic threadId = ''CLOSE cursor_'' @ appendTopic fo topic @ ''_'' @ threadId"

definition executeQuery ::
  "'c libpq \<Rightarrow> folly \<Rightarrow> string \<Rightarrow> Topic \<Rightarrow> u64 \<Rightarrow> 'c iter \<Rightarrow> 'c iter" where
  "executeQuery pq fo query topic fetchSize it =
     (let it = it\<lparr>mResultOffset := 0, mResult := None\<rparr>
      in case PQexec pq ''BEGIN'' it of
        (result, it) \<Rightarrow>
          if PQresultStatus result \<noteq> PGRES_COMMAND_OK then
            setError (PQclear result (it\<lparr>mError := sformat fo
              ''Error executing query for topic : {} : BEGIN command failed {}''
              [format_topic topic, pq_errorMessage pq (mConnection it)]\<rparr>))
          else
            let it = PQclear result it;
                it = it\<lparr>mState := Open\<rparr>;
                it = it\<lparr>mFetchCommand := fetch_command fo topic fetchSize (mThreadId it)\<rparr>;
                it = it\<lparr>mCloseCommand := close_command fo topic (mThreadId it)\<rparr>
            in case PQexec pq query it of
              (result, it) \<Rightarrow>
                if PQresultStatus result \<noteq> PGRES_COMMAND_OK then
                  closeAndReset pq (setError (PQclear result (it\<lparr>mError := sformat fo
                    ''Error executing query {} :  '' [query, pq_errorMessage pq (mConnection it)]\<rparr>)))
                else it)"

definition declare_prefix :: "folly \<Rightarrow> Topic \<Rightarrow> string \<Rightarrow> string" where
  "declare_prefix fo topic threadId =
     ''DECLARE cursor_'' @ appendTopic fo topic @ ''_'' @ threadId"

definition ids_query :: "folly \<Rightarrow> u64 list \<Rightarrow> Topic \<Rightarrow> string \<Rightarrow> string" where
  "ids_query fo ids topic threadId =
     (if topic \<noteq> Metamorphosis_Schedule_Day then
        generateStringIdList fo ids
          (declare_prefix fo topic threadId
           @ '' BINARY CURSOR for select thrift from catapult.general where id in ('')
        @ '' ) and topic='' @ quot @ toChar topic @ quot
      else
        generateLongIdList fo ids
          (declare_prefix fo topic threadId
           @ '' BINARY CURSOR for select thrift from catapult.schedule_day where schedule_day_id in ('')
        @ '' ) '')"

definition executeQuery_ids ::
  "'c libpq \<Rightarrow> folly \<Rightarrow> u64 list \<Rightarrow> Topic \<Rightarrow> u64 \<Rightarrow> 'c iter \<Rightarrow> 'c iter" where
  "executeQuery_ids pq fo ids topic fetchSize it =
     (let it = it\<lparr>mQueryCommand := ids_query fo ids topic (mThreadId it)\<rparr>
      in executeQuery pq fo (mQueryCommand it) topic fetchSize it)"

definition days_query :: "folly \<Rightarrow> string \<Rightarrow> string \<Rightarrow> u64 list \<Rightarrow> string \<Rightarrow> string" where
  "days_query fo dateFrom dateTo stations threadId =
     generateLongIdList fo stations
       (declare_prefix fo Metamorphosis_Schedule_Day threadId
        @ '' BINARY CURSOR for select thrift from catapult.schedule_day where(day AT TIME ZONE ''
        @ quot @ ''UTC'' @ quot @ ''  >='' @ quot @ dateFrom @ quot
        @ '' and day  AT TIME ZONE '' @ quot @ ''UTC'' @ quot @ ''<='' @ quot @ dateTo @ quot
        @ '' ) and station in ('')
     @ '' ) order by station,day ''"

definition executeQuery_strings ::
  "'c libpq \<Rightarrow> folly \<Rightarrow> string \<Rightarrow> string \<Rightarrow> u64 list \<Rightarrow> u64 \<Rightarrow> 'c iter \<Rightarrow> 'c iter" where
  "executeQuery_strings pq fo dateFrom dateTo stations fetchSize it =
     (let it = it\<lparr>mQueryCommand := days_query fo dateFrom dateTo stations (mThreadId it)\<rparr>
      in executeQuery pq fo (mQueryCommand it) Metamorphosis_Schedule_Day fetchSize it)"

definition append_date :: "folly \<Rightarrow> 'd boost_gregorian \<Rightarrow> 'd \<Rightarrow> string \<Rightarrow> string" where
  "append_date fo bg d str =
     str @ appendU16 fo (date_year bg d) @ ''-'' @ appendU16 fo (date_month bg d) @ ''-''
       @ appendU16 fo (date_day bg d)"

definition executeQuery_dates ::
  "'c libpq \<Rightarrow> folly \<Rightarrow> 'd boost_gregorian \<Rightarrow> 'd \<Rightarrow> 'd \<Rightarrow> u64 list \<Rightarrow> u64 \<Rightarrow> 'c iter \<Rightarrow> 'c iter" where
  "executeQuery_dates pq fo bg dateFrom dateTo stations fetchSize it =
     (let q = declare_prefix fo Metamorphosis_Schedule_Day (mThreadId it)
              @ '' BINARY CURSOR for select thrift from catapult.schedule_day where(day AT TIME ZONE ''
              @ quot @ ''UTC'' @ quot @ ''  >='' @ quot;
          q = append_date fo bg dateFrom q;
          q = q @ quot @ '' and day  AT TIME ZONE '' @ quot @ ''UTC'' @ quot @ ''<='' @ quot;
          q = append_date fo bg dateTo q;
          q = q @ quot @ '' ) and station in ('';
          q = generateLongIdList fo stations q;
          q = q @ '' ) order by station,day '';
          it = it\<lparr>mQueryCommand := q\<rparr>
      in executeQuery pq fo (mQueryCommand it) Metamorphosis_Schedule_Day fetchSize it)"

text \<open>
  The client's loop \<open>while((data=iter->next())!=nullptr)\<close>, with fuel; running out is \<open>None\<close>.
\<close>

fun drain :: "'c libpq \<Rightarrow> folly \<Rightarrow> nat \<Rightarrow> 'c iter \<Rightarrow> (data_object list \<times> 'c iter) option" where
  "drain pq fo 0 it = None"
| "drain pq fo (Suc fuel) it =
     (case iter_next pq fo it of
        (None, it') \<Rightarrow> Some ([], it')
      | (Some d, it') \<Rightarrow> map_option (\<lambda>(ds, i). (d # ds, i)) (drain pq fo fuel it'))"

subsection \<open>What the code relies on of PostgreSQL\<close>

text \<open>
  The session of a connection: idle, or in a transaction block with the open cursors and the rows that each still has to
  deliver. \<open>documented pq session answer name batch n\<close> is what the code relies on, for the one cursor \<open>name\<close> it uses: \<open>BEGIN\<close> opens a
  block when there is none; \<open>DECLARE\<close> for a query that the server accepts (\<open>answer select = Some rows\<close>) opens a cursor over its rows inside a block; \<open>FETCH\<close> (with the count printed as
  \<open>batch\<close>) delivers the next \<open>n\<close> rows of an open cursor; \<open>CLOSE\<close> closes an open cursor; \<open>END\<close> ends a block. Nothing is said of a
  query that is not accepted, or of a command in any other state: outside a block, on a cursor that is not open, of \<open>BEGIN\<close> inside a block.
\<close>

datatype pg_session = Pg_idle | Pg_block "string \<rightharpoonup> string option list"

definition pg_ok :: "'c libpq \<Rightarrow> ('c \<Rightarrow> pg_session) \<Rightarrow> 'c \<Rightarrow> string \<Rightarrow> pg_session \<Rightarrow> bool" where
  "pg_ok pq session c cmd s' \<longleftrightarrow>
     (\<exists>r c'. pq_exec pq c cmd = (Some r, c') \<and> res_status r = PGRES_COMMAND_OK \<and> session c' = s')"

definition documented ::
  "'c libpq \<Rightarrow> ('c \<Rightarrow> pg_session) \<Rightarrow> (string \<rightharpoonup> string option list) \<Rightarrow> string \<Rightarrow> string \<Rightarrow> nat \<Rightarrow> bool" where
  "documented pq session answer name batch n \<longleftrightarrow>
     (\<forall>c. session c = Pg_idle \<longrightarrow> pg_ok pq session c ''BEGIN'' (Pg_block Map.empty))
   \<and> (\<forall>c cs select rows. session c = Pg_block cs \<and> cs name = None \<and> answer select = Some rows \<longrightarrow>
        pg_ok pq session c (''DECLARE '' @ name @ '' BINARY CURSOR for '' @ select) (Pg_block (cs(name \<mapsto> rows))))
   \<and> (\<forall>c cs rows. session c = Pg_block cs \<and> cs name = Some rows \<longrightarrow>
        (\<exists>c'. pq_exec pq c (''FETCH '' @ batch @ '' in '' @ name)
            = (Some \<lparr>res_status = PGRES_TUPLES_OK, res_rows = take n rows\<rparr>, c')
          \<and> session c' = Pg_block (cs(name \<mapsto> drop n rows))))
   \<and> (\<forall>c cs rows. session c = Pg_block cs \<and> cs name = Some rows \<longrightarrow>
        pg_ok pq session c (''CLOSE '' @ name) (Pg_block (cs(name := None))))
   \<and> (\<forall>c. session c = Pg_block Map.empty \<longrightarrow> pg_ok pq session c ''END'' Pg_idle)"

definition cursor_name :: "folly \<Rightarrow> Topic \<Rightarrow> string \<Rightarrow> string" where
  "cursor_name fo topic threadId = ''cursor_'' @ appendTopic fo topic @ ''_'' @ threadId"

lemma documentedD:
  assumes "documented pq session answer name batch n"
  shows "session c = Pg_idle \<Longrightarrow> pg_ok pq session c ''BEGIN'' (Pg_block Map.empty)"
    "session c = Pg_block Map.empty \<Longrightarrow> answer select = Some rows \<Longrightarrow>
      pg_ok pq session c (''DECLARE '' @ name @ '' BINARY CURSOR for '' @ select) (Pg_block [name \<mapsto> rows])"
    "session c = Pg_block [name \<mapsto> rows] \<Longrightarrow>
      \<exists>c'. pq_exec pq c (''FETCH '' @ batch @ '' in '' @ name) = (Some \<lparr>res_status = PGRES_TUPLES_OK, res_rows = take n rows\<rparr>, c')
        \<and> session c' = Pg_block [name \<mapsto> drop n rows]"
    "session c = Pg_block [name \<mapsto> rows] \<Longrightarrow> pg_ok pq session c (''CLOSE '' @ name) (Pg_block Map.empty)"
    "session c = Pg_block Map.empty \<Longrightarrow> pg_ok pq session c ''END'' Pg_idle"
proof -
  note d0 = assms [unfolded documented_def]
  note d = d0 [THEN conjunct1] d0 [THEN conjunct2, THEN conjunct1] d0 [THEN conjunct2, THEN conjunct2, THEN conjunct1]
    d0 [THEN conjunct2, THEN conjunct2, THEN conjunct2, THEN conjunct1] d0 [THEN conjunct2, THEN conjunct2, THEN conjunct2, THEN conjunct2]
  show "pg_ok pq session c ''BEGIN'' (Pg_block Map.empty)" if "session c = Pg_idle" using d(1) that by blast
  show "pg_ok pq session c (''DECLARE '' @ name @ '' BINARY CURSOR for '' @ select) (Pg_block [name \<mapsto> rows])"
    if "session c = Pg_block Map.empty" "answer select = Some rows" using d(2) [rule_format, of c Map.empty select rows] that by blast
  show "\<exists>c'. pq_exec pq c (''FETCH '' @ batch @ '' in '' @ name) = (Some \<lparr>res_status = PGRES_TUPLES_OK, res_rows = take n rows\<rparr>, c')
        \<and> session c' = Pg_block [name \<mapsto> drop n rows]" if "session c = Pg_block [name \<mapsto> rows]"
    using d(3) [rule_format, of c "[name \<mapsto> rows]" rows] that by simp
  show "pg_ok pq session c (''CLOSE '' @ name) (Pg_block Map.empty)" if "session c = Pg_block [name \<mapsto> rows]"
    using d(4) [rule_format, of c "[name \<mapsto> rows]" rows] that by simp
  show "pg_ok pq session c ''END'' Pg_idle" if "session c = Pg_block Map.empty" using d(5) that by blast
qed

text \<open>The results that are neither cleared nor reachable any more: all live ones but the stored one.\<close>

definition pq_leaked :: "'c iter \<Rightarrow> int" where
  "pq_leaked it = pq_live it - (case mResult it of None \<Rightarrow> 0 | Some _ \<Rightarrow> 1)"

subsection \<open>Lemmas\<close>

lemma PQclear_simps [simp]:
  "PQclear None it = it"
  "PQclear (Some r) it = it\<lparr>pq_live := pq_live it - 1\<rparr>"
  by (simp_all add: PQclear_def)

lemma PQclear_fields [simp]:
  "mError (PQclear r it) = mError it" "mFetchCommand (PQclear r it) = mFetchCommand it"
  "mCloseCommand (PQclear r it) = mCloseCommand it" "mResult (PQclear r it) = mResult it"
  "mState (PQclear r it) = mState it" "mConnection (PQclear r it) = mConnection it"
  "mResultOffset (PQclear r it) = mResultOffset it" "mWasError (PQclear r it) = mWasError it"
  "mThreadId (PQclear r it) = mThreadId it"
  by (cases r; simp)+

lemma setError_fields [simp]:
  "mFetchCommand (setError it) = mFetchCommand it" "mCloseCommand (setError it) = mCloseCommand it"
  "mResult (setError it) = mResult it" "mState (setError it) = mState it"
  "mConnection (setError it) = mConnection it" "mResultOffset (setError it) = mResultOffset it"
  "mWasError (setError it) = True" "pq_live (setError it) = pq_live it"
  "mThreadId (setError it) = mThreadId it" "mError (setError it) = mError it"
  by (simp_all add: setError_def)

lemma PQexec_Some:
  "mConnection it = Some c \<Longrightarrow> pq_exec pq c cmd = (Some r, c') \<Longrightarrow>
     PQexec pq cmd it = (Some r, it\<lparr>mConnection := Some c', pq_live := pq_live it + 1\<rparr>)"
  by (simp add: PQexec_def)

lemma exec_close_ok:
  assumes "pg_ok pq session c cmd s'" "mConnection it = Some c"
  shows "\<exists>c'. exec_close pq cmd it = it\<lparr>mConnection := Some c'\<rparr> \<and> session c' = s'"
proof -
  from assms(1) obtain r c' where e: "pq_exec pq c cmd = (Some r, c')" "res_status r = PGRES_COMMAND_OK" "session c' = s'"
    unfolding pg_ok_def by blast
  then show ?thesis
    by (auto simp: exec_close_def PQexec_Some [OF assms(2) e(1)] PQresultStatus_def)
qed

lemma closeAndReset_ok:
  assumes doc: "documented pq session answer name batch n"
    and it: "mCloseCommand it = ''CLOSE '' @ name" "mConnection it = Some c" "mState it = Open"
    and c: "session c = Pg_block [name \<mapsto> rest]"
  shows "\<exists>c'. closeAndReset pq it =
    (PQclear (mResult it) it)\<lparr>mResult := None, mConnection := Some c', mState := Ready\<rparr> \<and> session c' = Pg_idle"
proof -
  let ?it = "(PQclear (mResult it) it)\<lparr>mResult := None\<rparr>"
  have e: "(if mResult it \<noteq> None then ?it else it) = ?it"
    by (cases "mResult it") simp_all
  have i: "mConnection ?it = Some c" "mCloseCommand ?it = mCloseCommand it"
    using it(2) by simp_all
  obtain c1 where c1: "exec_close pq (mCloseCommand it) ?it = ?it\<lparr>mConnection := Some c1\<rparr>" "session c1 = Pg_block Map.empty"
    using exec_close_ok [OF documentedD(4) [OF doc c] i(1)] it(1) by auto
  obtain c2 where c2: "exec_close pq ''END'' (?it\<lparr>mConnection := Some c1\<rparr>)
      = ?it\<lparr>mConnection := Some c1\<rparr>\<lparr>mConnection := Some c2\<rparr>" "session c2 = Pg_idle"
    using exec_close_ok [OF documentedD(5) [OF doc c1(2)], of "?it\<lparr>mConnection := Some c1\<rparr>"] by auto
  have "closeAndReset pq it
      = (exec_close pq ''END'' (exec_close pq (mCloseCommand it) ?it))\<lparr>mState := Ready\<rparr>"
    using it(2,3) unfolding closeAndReset_def Let_def e by simp
  then show ?thesis
    using c1(1) c2 by auto
qed

text \<open>
  The state between two calls of \<open>next\<close> while a cursor is served: \<open>rows\<close> is what is still to be
  handed out, the rest of the batch followed by what the cursor still holds.
\<close>

definition serving :: "('c \<Rightarrow> pg_session) \<Rightarrow> string \<Rightarrow> string \<Rightarrow> int \<Rightarrow> string option list \<Rightarrow> 'c iter \<Rightarrow> bool" where
  "serving session name batch b rows it \<longleftrightarrow>
     mFetchCommand it = ''FETCH '' @ batch @ '' in '' @ name \<and> mCloseCommand it = ''CLOSE '' @ name \<and> mState it = Open \<and>
     (\<exists>c rest. mConnection it = Some c \<and> session c = Pg_block [name \<mapsto> rest] \<and>
       (case mResult it of
          None \<Rightarrow> rows = rest \<and> pq_live it = b
        | Some r \<Rightarrow> res_status r = PGRES_TUPLES_OK \<and> mResultOffset it \<le> length (res_rows r)
            \<and> rows = drop (mResultOffset it) (res_rows r) @ rest \<and> res_rows r \<noteq> []
            \<and> pq_live it = b + 1))"

lemma fetch_batch_fresh:
  assumes doc: "documented pq session answer name batch n" and sv: "serving session name batch b rows it"
    and used: "case mResult it of None \<Rightarrow> True | Some r \<Rightarrow> mResultOffset it = length (res_rows r)"
  shows "\<exists>c'. fetch_batch pq it = it\<lparr>mResultOffset := 0, mConnection := Some c',
      mResult := Some \<lparr>res_status = PGRES_TUPLES_OK, res_rows = take n rows\<rparr>, pq_live := b + 1\<rparr>
    \<and> session c' = Pg_block [name \<mapsto> drop n rows]"
proof -
  from sv obtain c rest where c: "mConnection it = Some c" "session c = Pg_block [name \<mapsto> rest]"
    and f: "mFetchCommand it = ''FETCH '' @ batch @ '' in '' @ name"
    and r: "case mResult it of None \<Rightarrow> rows = rest \<and> pq_live it = b
      | Some r \<Rightarrow> mResultOffset it \<le> length (res_rows r)
         \<and> rows = drop (mResultOffset it) (res_rows r) @ rest \<and> pq_live it = b + 1"
    unfolding serving_def by (auto split: option.splits)
  then have rows: "rows = rest"
    using used by (auto split: option.splits)
  obtain c' where e: "pq_exec pq c (mFetchCommand it)
      = (Some \<lparr>res_status = PGRES_TUPLES_OK, res_rows = take n rows\<rparr>, c')" "session c' = Pg_block [name \<mapsto> drop n rows]"
    using documentedD(3) [OF doc c(2)] unfolding f rows by blast
  let ?it = "(PQclear (mResult it) it)\<lparr>mResultOffset := 0\<rparr>"
  have live: "pq_live ?it = b"
    using r by (cases "mResult it") simp_all
  have "fetch_batch pq it = (case PQexec pq (mFetchCommand it) ?it of (x, i) \<Rightarrow> i\<lparr>mResult := x\<rparr>)"
    using used by (cases "mResult it") (simp_all add: fetch_batch_def PQntuples_def Let_def)
  also have "\<dots> = it\<lparr>mResultOffset := 0, mConnection := Some c',
      mResult := Some \<lparr>res_status = PGRES_TUPLES_OK, res_rows = take n rows\<rparr>, pq_live := b + 1\<rparr>"
    using PQexec_Some [of ?it c pq "mFetchCommand it"] c e(1) live
    by (cases "mResult it") simp_all
  finally show ?thesis
    using e(2) by blast
qed

lemma fetch_batch_used:
  "mResult it = Some r \<Longrightarrow> mResultOffset it \<noteq> length (res_rows r) \<Longrightarrow> fetch_batch pq it = it"
  by (simp add: fetch_batch_def PQntuples_def)

text \<open>The iterator after the last row: closed, and the session of its connection idle.\<close>

definition closed :: "('c \<Rightarrow> pg_session) \<Rightarrow> int \<Rightarrow> 'c iter \<Rightarrow> bool" where
  "closed session b it \<longleftrightarrow> mState it = Ready \<and> mResult it = None \<and> pq_live it = b
     \<and> (\<exists>c. mConnection it = Some c \<and> session c = Pg_idle)"

lemma next_serving_Nil:
  assumes doc: "documented pq session answer name batch n" and sv: "serving session name batch b [] it"
  shows "\<exists>it'. iter_next pq fo it = (None, it') \<and> closed session b it' \<and> mWasError it' = mWasError it"
proof -
  have used: "case mResult it of None \<Rightarrow> True | Some r \<Rightarrow> mResultOffset it = length (res_rows r)"
    using sv by (auto simp: serving_def split: option.splits)
  obtain c' where f: "fetch_batch pq it = it\<lparr>mResultOffset := 0, mConnection := Some c',
      mResult := Some \<lparr>res_status = PGRES_TUPLES_OK, res_rows = []\<rparr>, pq_live := b + 1\<rparr>"
    and c': "session c' = Pg_block [name \<mapsto> []]"
    using fetch_batch_fresh [OF doc sv used] by auto
  let ?it = "fetch_batch pq it"
  have "mCloseCommand ?it = ''CLOSE '' @ name" "mState ?it = Open" "mConnection ?it = Some c'"
    using sv by (simp_all add: serving_def f)
  then obtain c2 where "closeAndReset pq ?it
      = (PQclear (mResult ?it) ?it)\<lparr>mResult := None, mConnection := Some c2, mState := Ready\<rparr>" "session c2 = Pg_idle"
    using closeAndReset_ok [OF doc _ _ _ c', of ?it] by auto
  then show ?thesis
    by (simp add: iter_next_def f closed_def)
qed

lemma next_serving_Cons:
  assumes doc: "documented pq session answer name batch n" "0 < n" and sv: "serving session name batch b (v # rows) it"
  shows "\<exists>it'. iter_next pq fo it = (Some (read_row v), it') \<and> serving session name batch b rows it'
    \<and> mWasError it' = mWasError it"
proof (cases "case mResult it of None \<Rightarrow> True | Some r \<Rightarrow> mResultOffset it = length (res_rows r)")
  case True
  obtain c' where f: "fetch_batch pq it = it\<lparr>mResultOffset := 0, mConnection := Some c',
      mResult := Some \<lparr>res_status = PGRES_TUPLES_OK, res_rows = take n (v # rows)\<rparr>, pq_live := b + 1\<rparr>"
    and c': "session c' = Pg_block [name \<mapsto> drop n (v # rows)]"
    using fetch_batch_fresh [OF doc(1) sv True] by auto
  obtain m where n: "n = Suc m"
    using doc(2) by (cases n) auto
  show ?thesis
    using sv c' by (auto simp: iter_next_def f n serving_def)
next
  case False
  then obtain r where r: "mResult it = Some r" "mResultOffset it \<noteq> length (res_rows r)"
    by (auto split: option.splits)
  from sv r obtain c rest where c: "mConnection it = Some c" "res_status r = PGRES_TUPLES_OK"
      "v # rows = drop (mResultOffset it) (res_rows r) @ rest" "mResultOffset it < length (res_rows r)"
      "session c = Pg_block [name \<mapsto> rest]"
    unfolding serving_def by auto
  have d: "drop (mResultOffset it) (res_rows r)
      = res_rows r ! mResultOffset it # drop (Suc (mResultOffset it)) (res_rows r)"
    using c(4) by (simp add: Cons_nth_drop_Suc)
  have v: "v = res_rows r ! mResultOffset it" "rows = drop (Suc (mResultOffset it)) (res_rows r) @ rest"
    using c(3) unfolding d by simp_all
  have "res_rows r \<noteq> []"
    using c(4) by auto
  moreover have "serving session name batch b rows (it\<lparr>mResultOffset := Suc (mResultOffset it)\<rparr>)"
    using sv r c v(2) by (auto simp: serving_def)
  ultimately show ?thesis
    using r c(2) v(1) by (auto simp: iter_next_def fetch_batch_used)
qed

lemma drain_serving:
  assumes doc: "documented pq session answer name batch n" "0 < n"
  shows "serving session name batch b rows it \<Longrightarrow> length rows < fuel \<Longrightarrow>
     \<exists>it'. drain pq fo fuel it = Some (map read_row rows, it') \<and> closed session b it' \<and> mWasError it' = mWasError it"
proof (induction rows arbitrary: it fuel)
  case Nil
  then obtain k where "fuel = Suc k" by (cases fuel) auto
  then show ?case
    using next_serving_Nil [OF doc(1) Nil.prems(1), of fo] by auto
next
  case (Cons v rows)
  then obtain k where k: "fuel = Suc k" "length rows < k" by (cases fuel) auto
  obtain it' where n: "iter_next pq fo it = (Some (read_row v), it')" "serving session name batch b rows it'"
      "mWasError it' = mWasError it"
    using next_serving_Cons [OF doc Cons.prems(1), of fo] by auto
  show ?case
    using Cons.IH [OF n(2) k(2)] n(1,3) k(1) by auto
qed

lemma cursor_commands:
  "fetch_command fo topic fs tid = ''FETCH '' @ appendU64 fo fs @ '' in '' @ cursor_name fo topic tid"
  "close_command fo topic tid = ''CLOSE '' @ cursor_name fo topic tid"
  "declare_prefix fo topic tid = ''DECLARE '' @ cursor_name fo topic tid"
  by (simp_all add: fetch_command_def close_command_def declare_prefix_def cursor_name_def)

text \<open>A query on an idle session opens the cursor.\<close>

lemma executeQuery_serving:
  assumes doc: "documented pq session answer (cursor_name fo topic (mThreadId it)) (appendU64 fo fs) n"
    and c: "mConnection it = Some c" "session c = Pg_idle" and ans: "answer select = Some rows"
  shows "let it' = executeQuery pq fo (declare_prefix fo topic (mThreadId it) @ '' BINARY CURSOR for '' @ select) topic fs it
    in serving session (cursor_name fo topic (mThreadId it)) (appendU64 fo fs) (pq_live it + 1) rows it'
      \<and> mWasError it' = mWasError it"
proof -
  let ?name = "cursor_name fo topic (mThreadId it)"
  let ?query = "declare_prefix fo topic (mThreadId it) @ '' BINARY CURSOR for '' @ select"
  let ?it = "it\<lparr>mResultOffset := 0, mResult := None\<rparr>"
  obtain r c1 where b: "pq_exec pq c ''BEGIN'' = (Some r, c1)" "res_status r = PGRES_COMMAND_OK" "session c1 = Pg_block Map.empty"
    using documentedD(1) [OF doc c(2)] unfolding pg_ok_def by blast
  have "?query = ''DECLARE '' @ ?name @ '' BINARY CURSOR for '' @ select" by (simp add: cursor_commands)
  then obtain r2 c2 where q: "pq_exec pq c1 ?query = (Some r2, c2)" "res_status r2 = PGRES_COMMAND_OK"
    "session c2 = Pg_block [?name \<mapsto> rows]"
    using documentedD(2) [OF doc b(3) ans] unfolding pg_ok_def by auto
  have e: "PQexec pq ''BEGIN'' ?it = (Some r, ?it\<lparr>mConnection := Some c1, pq_live := pq_live it + 1\<rparr>)"
    using PQexec_Some [OF _ b(1), of ?it] c(1) by simp
  let ?it1 = "?it\<lparr>mConnection := Some c1, mState := Open,
      mFetchCommand := fetch_command fo topic fs (mThreadId it),
      mCloseCommand := close_command fo topic (mThreadId it)\<rparr>"
  have e2: "PQexec pq ?query ?it1 = (Some r2, ?it1\<lparr>mConnection := Some c2, pq_live := pq_live it + 1\<rparr>)"
    using PQexec_Some [OF _ q(1), of ?it1] by simp
  have "executeQuery pq fo ?query topic fs it = snd (PQexec pq ?query ?it1)"
    using e2 by (simp add: executeQuery_def Let_def e PQresultStatus_def b(2) q(2))
  then show ?thesis
    unfolding e2 using q(3) by (simp add: serving_def cursor_commands)
qed

lemma query_drains:
  assumes doc: "documented pq session answer (cursor_name fo topic (mThreadId it)) (appendU64 fo fs) n" "0 < n"
    and c: "mConnection it = Some c" "session c = Pg_idle" and ans: "answer select = Some rows"
  shows "\<exists>it'. drain pq fo (Suc (length rows))
      (executeQuery pq fo (declare_prefix fo topic (mThreadId it) @ '' BINARY CURSOR for '' @ select) topic fs it)
      = Some (map read_row rows, it') \<and> closed session (pq_live it + 1) it' \<and> mWasError it' = mWasError it"
proof -
  let ?q = "executeQuery pq fo (declare_prefix fo topic (mThreadId it) @ '' BINARY CURSOR for '' @ select) topic fs it"
  have s: "serving session (cursor_name fo topic (mThreadId it)) (appendU64 fo fs) (pq_live it + 1) rows ?q"
    "mWasError ?q = mWasError it"
    using executeQuery_serving [OF doc(1) c ans] by (simp_all add: Let_def)
  show ?thesis using drain_serving [OF doc s(1), of "Suc (length rows)" fo] s(2) by auto
qed

subsection \<open>The identifier lists\<close>

fun intercalate :: "string \<Rightarrow> string list \<Rightarrow> string" where
  "intercalate sep [] = []"
| "intercalate sep [x] = x"
| "intercalate sep (x # xs) = x @ sep @ intercalate sep xs"

lemma intercalate_Cons: "xs \<noteq> [] \<Longrightarrow> intercalate sep (x # xs) = x @ sep @ intercalate sep xs"
  by (cases xs) simp_all

lemma stringIdList_from_eq:
  "pos + left = length ids \<Longrightarrow> stringIdList_from fo ids left pos
     = intercalate '','' (map (\<lambda>i. quot @ appendU64 fo i @ quot) (drop pos ids))"
proof (induction left arbitrary: pos)
  case (Suc left)
  then have d: "drop pos ids = ids ! pos # drop (Suc pos) ids"
    by (simp add: Cons_nth_drop_Suc)
  show ?case
  proof (cases left)
    case 0
    with Suc.prems have "drop (Suc pos) ids = []" "length ids = Suc pos" by simp_all
    then show ?thesis by (simp add: d 0)
  next
    case (Suc k)
    with Suc.prems have "drop (Suc pos) ids \<noteq> []" "pos \<noteq> length ids - 1" by auto
    then show ?thesis
      using Suc.IH [of "Suc pos"] Suc.prems by (simp add: d intercalate_Cons)
  qed
qed simp

lemma longIdList_from_eq:
  "pos + left = length ids \<Longrightarrow> longIdList_from fo ids left pos
     = intercalate '','' (map (appendU64 fo) (drop pos ids))"
proof (induction left arbitrary: pos)
  case (Suc left)
  then have d: "drop pos ids = ids ! pos # drop (Suc pos) ids"
    by (simp add: Cons_nth_drop_Suc)
  show ?case
  proof (cases left)
    case 0
    with Suc.prems have "drop (Suc pos) ids = []" "length ids = Suc pos" by simp_all
    then show ?thesis by (simp add: d 0)
  next
    case (Suc k)
    with Suc.prems have "drop (Suc pos) ids \<noteq> []" "pos \<noteq> length ids - 1" by auto
    then show ?thesis
      using Suc.IH [of "Suc pos"] Suc.prems by (simp add: d intercalate_Cons)
  qed
qed simp

subsection \<open>Error paths\<close>

lemma PQexec_fields [simp]:
  "mState (snd (PQexec pq cmd it)) = mState it" "mResult (snd (PQexec pq cmd it)) = mResult it"
  "mWasError (snd (PQexec pq cmd it)) = mWasError it"
  "pq_live (snd (PQexec pq cmd it))
     = pq_live it + (case fst (PQexec pq cmd it) of None \<Rightarrow> 0 | Some _ \<Rightarrow> 1)"
  by (simp_all add: PQexec_def split: option.splits prod.splits)

lemma pq_live_PQclear: "pq_live (PQclear r it) = pq_live it - (case r of None \<Rightarrow> 0 | Some _ \<Rightarrow> 1)"
  by (cases r) simp_all

lemma exec_close_fields [simp]:
  "mState (exec_close pq cmd it) = mState it" "mResult (exec_close pq cmd it) = mResult it"
  "mWasError it \<Longrightarrow> mWasError (exec_close pq cmd it)"
  "pq_live (exec_close pq cmd it) = pq_live it"
  by (simp_all add: exec_close_def case_prod_beta pq_live_PQclear)

lemma closeAndReset_fields [simp]:
  "mState (closeAndReset pq it) = Ready"
  "mWasError it \<Longrightarrow> mWasError (closeAndReset pq it)"
  "mResult it = None \<Longrightarrow> pq_live (closeAndReset pq it) = pq_live it"
  by (simp_all add: closeAndReset_def Let_def)

lemma PQexec_connection: "mConnection i = mConnection j \<Longrightarrow> fst (PQexec pq cmd i) = fst (PQexec pq cmd j)"
  by (simp add: PQexec_def split: option.splits prod.splits)

lemma closeAndReset_result: "mState it = Open \<Longrightarrow> mResult (closeAndReset pq it) = None"
  by (simp add: closeAndReset_def Let_def)

text \<open>
  A small server for the witnesses, with its sessions: \<open>BEGIN\<close> only when idle, \<open>END\<close> only in a block, \<open>DECLARE\<close> in a block for a
  cursor that is not open (every query has the same three rows), \<open>FETCH\<close> of two rows and \<open>CLOSE\<close> for an open cursor; every other command is refused.
\<close>

definition sample_rows :: "string option list" where
  "sample_rows = [Some ''a'', None, Some ''ccc'']"

definition word_at :: "nat \<Rightarrow> string \<Rightarrow> string" where
  "word_at k cmd = takeWhile (\<lambda>x. x \<noteq> CHR '' '') (drop k cmd)"

definition sample_exec :: "pg_session \<Rightarrow> string \<Rightarrow> pgresult option \<times> pg_session" where
  "sample_exec s cmd =
     (let done = Some \<lparr>res_status = PGRES_COMMAND_OK, res_rows = []\<rparr>;
          refused = (Some \<lparr>res_status = PGRES_OTHER, res_rows = []\<rparr>, s)
      in case s of
           Pg_idle \<Rightarrow> if cmd = ''BEGIN'' then (done, Pg_block Map.empty) else refused
         | Pg_block cs \<Rightarrow>
             if cmd = ''END'' then (done, Pg_idle)
             else if take 8 cmd = ''DECLARE '' \<and> cs (word_at 8 cmd) = None
               then (done, Pg_block (cs(word_at 8 cmd \<mapsto> sample_rows)))
             else if take 11 cmd = ''FETCH 2 in '' \<and> cs (word_at 11 cmd) \<noteq> None
               then (Some \<lparr>res_status = PGRES_TUPLES_OK, res_rows = take 2 (the (cs (word_at 11 cmd)))\<rparr>,
                     Pg_block (cs(word_at 11 cmd \<mapsto> drop 2 (the (cs (word_at 11 cmd))))))
             else if take 6 cmd = ''CLOSE '' \<and> cs (word_at 6 cmd) \<noteq> None
               then (done, Pg_block (cs(word_at 6 cmd := None)))
             else refused)"

definition sample_pq :: "pg_session libpq" where
  "sample_pq = \<lparr>pq_exec = sample_exec, pq_connectdb = (\<lambda>_. Some Pg_idle), pq_status_ok = (\<lambda>_. True), pq_errorMessage = (\<lambda>_. [])\<rparr>"

definition sample_folly :: folly where
  "sample_folly = \<lparr>appendTopic = (\<lambda>_. ''0''), appendU64 = (\<lambda>_. ''2''), appendU16 = (\<lambda>_. ''7''),
     sformat = (\<lambda>f _. f)\<rparr>"

abbreviation sample_iter :: "pg_session iter" where
  "sample_iter \<equiv> DatastoreIterator_new sample_pq sample_folly ''t1'' ''uri''"

lemma sample_iter_fields: "mConnection sample_iter = Some Pg_idle" "isReady sample_iter" "mThreadId sample_iter = ''t1''" "mWasError sample_iter = False"
  "pq_live sample_iter = 0" "mResult sample_iter = None"
  by (simp_all add: DatastoreIterator_new_def createConnection_def iter_isValid_def iter_isConnected_def
      destroyConnection_def resetError_def setError_def sample_pq_def isReady_def)

lemma sample_documented:
  "documented sample_pq id (\<lambda>_. Some sample_rows) (cursor_name sample_folly topic ''t1'') (appendU64 sample_folly fs) 2"
proof -
  let ?name = "cursor_name sample_folly topic ''t1''"
  have name: "?name = ''cursor_0_t1''" by (simp add: cursor_name_def sample_folly_def)
  have w: "word_at 8 (''DECLARE '' @ ?name @ '' BINARY CURSOR for '' @ select) = ?name"
    "word_at 11 (''FETCH 2 in '' @ ?name) = ?name" "word_at 6 (''CLOSE '' @ ?name) = ?name" for select
    by (simp_all add: word_at_def name)
  show ?thesis
    unfolding documented_def
  proof (intro conjI allI impI, goal_cases)
    case (1 c)
    then show ?case by (simp add: pg_ok_def sample_pq_def sample_exec_def)
  next
    case (2 c cs select rows)
    then show ?case using w(1) [of select] by (simp add: pg_ok_def sample_pq_def sample_exec_def Let_def)
  next
    case (3 c cs rows)
    then show ?case using w(2) by (simp add: sample_pq_def sample_exec_def Let_def sample_folly_def)
  next
    case (4 c cs rows)
    then show ?case using w(3) by (simp add: pg_ok_def sample_pq_def sample_exec_def Let_def)
  next
    case (5 c)
    then show ?case by (simp add: pg_ok_def sample_pq_def sample_exec_def Let_def)
  qed
qed

text \<open>A connection that refuses every command: with a null result, or with one that has to be cleared.\<close>

definition refusing_pq :: "unit libpq" where
  "refusing_pq = \<lparr>pq_exec = (\<lambda>c cmd. (None, c)), pq_connectdb = (\<lambda>_. Some ()),
     pq_status_ok = (\<lambda>_. True), pq_errorMessage = (\<lambda>_. ''refused'')\<rparr>"

definition failing_pq :: "unit libpq" where
  "failing_pq = refusing_pq\<lparr>pq_exec := (\<lambda>c cmd. (Some \<lparr>res_status = PGRES_OTHER, res_rows = []\<rparr>, c))\<rparr>"

subsection \<open>Properties\<close>

text \<open>
  C10: a query delivers the whole result and cleans up behind it. On a connection whose session is idle and that behaves as PostgreSQL
  documents (\<open>documented\<close>), and for a query that the server accepts, the loop over \<open>next()\<close> ends, returns every row of the query once and in order, and leaves the cursor closed
  and the transaction block ended: the session is idle again and the iterator ready for the next query, with its error flag as it was. One
  \<open>PGresult\<close>, that of the successful \<open>DECLARE\<close>, is never cleared, and a result that the iterator still stored before the query is lost too.
\<close>

theorem query_drains_cursor:
  assumes "documented pq session answer (cursor_name fo topic (mThreadId it)) (appendU64 fo fs) n" "0 < n"
    and "mConnection it = Some c" "session c = Pg_idle" "answer select = Some rows"
  shows "\<exists>it' c'. drain pq fo (Suc (length rows))
      (executeQuery pq fo (declare_prefix fo topic (mThreadId it) @ '' BINARY CURSOR for '' @ select) topic fs it)
      = Some (map read_row rows, it')
    \<and> isReady it' \<and> hasError it' = hasError it \<and> mConnection it' = Some c' \<and> session c' = Pg_idle
    \<and> pq_leaked it' = pq_leaked it + 1 + (if mResult it = None then 0 else 1)"
proof -
  obtain it' where d: "drain pq fo (Suc (length rows))
      (executeQuery pq fo (declare_prefix fo topic (mThreadId it) @ '' BINARY CURSOR for '' @ select) topic fs it)
      = Some (map read_row rows, it')" "closed session (pq_live it + 1) it'" "mWasError it' = mWasError it"
    using query_drains [OF assms] by blast
  then show ?thesis
    by (auto simp: closed_def isReady_def hasError_def pq_leaked_def split: option.splits)
qed

theorem query_drains_cursor_witness:
  "\<exists>it'. drain sample_pq sample_folly 4
      (executeQuery sample_pq sample_folly (declare_prefix sample_folly Metamorphosis_Station ''t1'' @ '' BINARY CURSOR for '' @ ''select x'')
         Metamorphosis_Station 2 sample_iter)
      = Some (map read_row sample_rows, it')
    \<and> isReady it' \<and> mConnection it' = Some Pg_idle \<and> pq_leaked it' = 1"
proof -
  have doc: "documented sample_pq id (\<lambda>_. Some sample_rows) (cursor_name sample_folly Metamorphosis_Station (mThreadId sample_iter)) (appendU64 sample_folly 2) 2"
    using sample_documented by (simp add: sample_iter_fields)
  have two: "0 < (2 :: nat)" by simp
  have s: "id Pg_idle = Pg_idle" by simp
  have "length sample_rows = 3" by (simp add: sample_rows_def)
  moreover have "pq_leaked sample_iter = 0" by (simp add: pq_leaked_def sample_iter_fields)
  ultimately show ?thesis
    using query_drains_cursor [OF doc two sample_iter_fields(1) s, where select = "''select x''" and rows = sample_rows]
    by (auto simp: eval_nat_numeral sample_iter_fields)
qed

text \<open>
  C36: errors of a query. When \<open>BEGIN\<close> is refused, or the \<open>DECLARE\<close> after it, the iterator is ready with its error flag set, and
  every result obtained by the call was cleared. But a result that the iterator still stored before the call (a failed
  fetch of a ready iterator leaves one) is overwritten without being cleared, and so leaked: exactly then the number of lost results grows by one.
\<close>

theorem executeQuery_error:
  assumes "mState it = Ready"
    and "PQresultStatus (fst (PQexec pq ''BEGIN'' (it\<lparr>mResultOffset := 0, mResult := None\<rparr>))) \<noteq> PGRES_COMMAND_OK
       \<or> PQresultStatus (fst (PQexec pq query (snd (PQexec pq ''BEGIN'' (it\<lparr>mResultOffset := 0, mResult := None\<rparr>))))) \<noteq> PGRES_COMMAND_OK"
  shows "hasError (executeQuery pq fo query topic fs it) \<and> isReady (executeQuery pq fo query topic fs it)
    \<and> mResult (executeQuery pq fo query topic fs it) = None
    \<and> pq_leaked (executeQuery pq fo query topic fs it) = pq_leaked it + (if mResult it = None then 0 else 1)"
proof -
  let ?it = "it\<lparr>mResultOffset := 0, mResult := None\<rparr>"
  let ?e = "executeQuery pq fo query topic fs it"
  obtain r1 i1 where b: "PQexec pq ''BEGIN'' ?it = (r1, i1)" by (cases "PQexec pq ''BEGIN'' ?it")
  have i1: "mState i1 = Ready" "mResult i1 = None" "pq_live (PQclear r1 i1) = pq_live it"
    using PQexec_fields [of pq "''BEGIN''" ?it, unfolded b] assms(1) by (simp_all add: pq_live_PQclear)
  have "hasError ?e \<and> isReady ?e \<and> mResult ?e = None \<and> pq_live ?e = pq_live it"
  proof (cases "PQresultStatus r1 = PGRES_COMMAND_OK")
    case False
    then show ?thesis
      using i1 by (simp add: executeQuery_def Let_def b hasError_def isReady_def pq_live_PQclear)
  next
    case True
    let ?i2 = "(PQclear r1 i1)\<lparr>mState := Open, mFetchCommand := fetch_command fo topic fs (mThreadId i1),
        mCloseCommand := close_command fo topic (mThreadId i1)\<rparr>"
    obtain r2 i3 where q: "PQexec pq query ?i2 = (r2, i3)" by (cases "PQexec pq query ?i2")
    have "fst (PQexec pq query i1) = r2" using PQexec_connection [of i1 ?i2 pq query] q by simp
    then have bad: "PQresultStatus r2 \<noteq> PGRES_COMMAND_OK"
      using assms(2) True b by simp
    have i3: "mResult i3 = None" "mState i3 = Open" "pq_live (PQclear r2 i3) = pq_live it"
      using PQexec_fields [of pq query ?i2, unfolded q] i1 by (simp_all add: pq_live_PQclear)
    then show ?thesis
      using True bad by (simp add: executeQuery_def Let_def b q hasError_def isReady_def pq_live_PQclear closeAndReset_result)
  qed
  then show ?thesis by (simp add: pq_leaked_def split: option.splits)
qed

text \<open>A refused query, a failed fetch of the iterator that was lent all the same, and another query: one result is lost.\<close>

theorem executeQuery_error_witness:
  "let it = snd (iter_next failing_pq sample_folly (executeQuery failing_pq sample_folly ''q'' Metamorphosis_Team 2
       (DatastoreIterator_new failing_pq sample_folly ''t'' ''u'')))
   in isReady it \<and> pq_leaked it = 0 \<and> hasError (executeQuery failing_pq sample_folly ''q'' Metamorphosis_Team 2 it)
     \<and> pq_leaked (executeQuery failing_pq sample_folly ''q'' Metamorphosis_Team 2 it) = 1"
proof -
  let ?it = "snd (iter_next failing_pq sample_folly (executeQuery failing_pq sample_folly ''q'' Metamorphosis_Team 2
       (DatastoreIterator_new failing_pq sample_folly ''t'' ''u'')))"
  have it: "mState ?it = Ready" "pq_leaked ?it = 0" "mResult ?it \<noteq> None" "mConnection ?it = Some ()"
    by (simp_all add: iter_next_def fetch_batch_def executeQuery_def closeAndReset_def PQexec_def PQresultStatus_def PQntuples_def
        DatastoreIterator_new_def createConnection_def iter_isValid_def iter_isConnected_def Let_def pq_leaked_def
        destroyConnection_def resetError_def setError_def failing_pq_def refusing_pq_def)
  have "PQresultStatus (fst (PQexec failing_pq ''BEGIN'' (?it\<lparr>mResultOffset := 0, mResult := None\<rparr>))) \<noteq> PGRES_COMMAND_OK"
    using it(4) by (simp add: PQexec_def failing_pq_def refusing_pq_def PQresultStatus_def)
  from executeQuery_error [OF it(1) disjI1 [OF this], where fo = sample_folly and query = "''q''" and topic = Metamorphosis_Team and fs = 2] it
  show ?thesis by (simp add: Let_def isReady_def)
qed

text \<open>
  A failed fetch ends the iteration: \<open>next()\<close> returns null, sets the error flag and the iterator is
  ready again.
\<close>

theorem next_fetch_error:
  assumes "PQresultStatus (mResult (fetch_batch pq it)) \<noteq> PGRES_TUPLES_OK"
  shows "fst (iter_next pq fo it) = None \<and> hasError (snd (iter_next pq fo it))
    \<and> isReady (snd (iter_next pq fo it))"
  using assms
  by (auto simp: iter_next_def Let_def PQresultStatus_def hasError_def isReady_def split: option.splits)

theorem next_fetch_error_witness:
  "fst (iter_next refusing_pq sample_folly (DatastoreIterator_new refusing_pq sample_folly ''t'' ''u'')) = None"
  using next_fetch_error [of refusing_pq "DatastoreIterator_new refusing_pq sample_folly ''t'' ''u''" sample_folly]
  by (simp add: fetch_batch_def DatastoreIterator_new_def createConnection_def iter_isValid_def
      iter_isConnected_def destroyConnection_def resetError_def PQexec_def refusing_pq_def PQresultStatus_def)

text \<open>
  The identifier lists of the queries: the decimal identifiers, quoted for the general table and
  plain for the schedule table, separated by single commas with none at the end.
\<close>

theorem idLists_comma_separated:
  "generateStringIdList fo ids str
     = str @ intercalate '','' (map (\<lambda>i. quot @ appendU64 fo i @ quot) ids)
   \<and> generateLongIdList fo ids str = str @ intercalate '','' (map (appendU64 fo) ids)"
  by (simp add: generateStringIdList_def generateLongIdList_def stringIdList_from_eq
      longIdList_from_eq)

end
