(* ===== verification/Datastore.thy ===== *)
theory Datastore
  imports DatastoreIterator
begin

text \<open>
  \<open>source/datastore/Datastore.h\<close> / \<open>.cpp\<close>: the driver that owns one \<open>DatastoreIterator\<close> and lends it out
  through an \<open>intrusive_ptr\<close>, one query at a time. \<open>iterRefs\<close> is the iterator's
  reference count (its \<open>IntrusiveTracked\<close> part, whose creator is the datastore), so the last
  pointer to go calls \<open>Datastore::release\<close>. The pointer to the iterator is \<open>None\<close> when null;
  dereferencing it then, or before it was set, is the error \<open>Bad_deref\<close>.
\<close>

datatype ds_error = Bad_deref

record 'c datastore =
  mFetchSize :: u64
  ds_mConnectionInfo :: string
  mDataIter :: "'c iter option"
  iterRefs :: u64

text \<open>
  The constructor as written: the line that allocates the iterator is commented out, so
  \<open>mDataIter->setCreator(this)\<close> dereferences an indeterminate pointer.
\<close>

definition Datastore_new :: "'config \<Rightarrow> u64 \<Rightarrow> ds_error + 'c datastore" where
  "Datastore_new config fetchSize = Inl Bad_deref"

definition connectionInfo :: "'c datastore \<Rightarrow> string" where
  "connectionInfo ds = ds_mConnectionInfo ds"

definition fetchSize :: "'c datastore \<Rightarrow> u64" where
  "fetchSize ds = mFetchSize ds"

definition setFetchSize :: "u64 \<Rightarrow> 'c datastore \<Rightarrow> 'c datastore" where
  "setFetchSize val ds =
     (let ds = ds\<lparr>mFetchSize := val\<rparr>
      in if mFetchSize ds < 1 then ds\<lparr>mFetchSize := 1\<rparr> else ds)"

definition ds_isValid :: "'c datastore \<Rightarrow> bool" where
  "ds_isValid ds = (case mDataIter ds of None \<Rightarrow> False | Some it \<Rightarrow> iter_isValid it)"

definition ds_isConnected :: "'c libpq \<Rightarrow> 'c datastore \<Rightarrow> bool" where
  "ds_isConnected pq ds = (case mDataIter ds of None \<Rightarrow> False | Some it \<Rightarrow> iter_isConnected pq it)"

text \<open>
  The shape shared by the three overloads of \<open>data()\<close>: \<open>Inr (False, ds)\<close> is the null pointer,
  \<open>Inr (True, ds)\<close> a pointer to the iterator, which it counts.
\<close>

definition start_query ::
  "('c iter \<Rightarrow> 'c iter) \<Rightarrow> 'c datastore \<Rightarrow> ds_error + bool \<times> 'c datastore" where
  "start_query run ds =
     (case mDataIter ds of
        None \<Rightarrow> Inl Bad_deref
      | Some it \<Rightarrow>
          if \<not> isReady it then Inr (False, ds)
          else Inr (True, ds\<lparr>mDataIter := Some (run it), iterRefs := iterRefs ds + 1\<rparr>))"

definition data_ids ::
  "'c libpq \<Rightarrow> folly \<Rightarrow> u64 list \<Rightarrow> Topic \<Rightarrow> 'c datastore \<Rightarrow> ds_error + bool \<times> 'c datastore" where
  "data_ids pq fo ids topic ds = start_query (executeQuery_ids pq fo ids topic (mFetchSize ds)) ds"

definition data_strings ::
  "'c libpq \<Rightarrow> folly \<Rightarrow> string \<Rightarrow> string \<Rightarrow> u64 list \<Rightarrow> 'c datastore \<Rightarrow> ds_error + bool \<times> 'c datastore" where
  "data_strings pq fo dateFrom dateTo stations ds =
     start_query (executeQuery_strings pq fo dateFrom dateTo stations (mFetchSize ds)) ds"

definition data_dates ::
  "'c libpq \<Rightarrow> folly \<Rightarrow> 'd boost_gregorian \<Rightarrow> 'd \<Rightarrow> 'd \<Rightarrow> u64 list \<Rightarrow> 'c datastore
     \<Rightarrow> ds_error + bool \<times> 'c datastore" where
  "data_dates pq fo bg dateFrom dateTo stations ds =
     start_query (executeQuery_dates pq fo bg dateFrom dateTo stations (mFetchSize ds)) ds"

text \<open>
  \<open>release(object)\<close>: the argument is null, the datastore's own iterator (\<open>Some True\<close>) or another
  object (\<open>Some False\<close>).
\<close>

definition release :: "'c libpq \<Rightarrow> bool option \<Rightarrow> 'c datastore \<Rightarrow> 'c datastore" where
  "release pq obj ds =
     (case obj of
        None \<Rightarrow> ds
      | Some isIter \<Rightarrow>
          if isIter then ds\<lparr>mDataIter := map_option (closeAndReset pq) (mDataIter ds)\<rparr> else ds)"

text \<open>\<open>~intrusive_ptr\<close> of a pointer to the iterator: the count drops, the last one releases.\<close>

definition drop_pointer :: "'c libpq \<Rightarrow> 'c datastore \<Rightarrow> 'c datastore" where
  "drop_pointer pq ds =
     (let ds = ds\<lparr>iterRefs := iterRefs ds - 1\<rparr>
      in if iterRefs ds = 0 then release pq (Some True) ds else ds)"

definition Datastore_delete :: "'c libpq \<Rightarrow> 'c datastore \<Rightarrow> ds_error + 'c datastore" where
  "Datastore_delete pq ds =
     (case mDataIter ds of
        None \<Rightarrow> Inl Bad_deref
      | Some it \<Rightarrow>
          Inr (if iterRefs ds = 0 then ds\<lparr>mDataIter := Some (DatastoreIterator_delete pq it)\<rparr> else ds))"

subsection \<open>Lemmas\<close>

lemma start_query_ready:
  "mDataIter ds = Some it \<Longrightarrow> isReady it \<Longrightarrow>
     start_query run ds = Inr (True, ds\<lparr>mDataIter := Some (run it), iterRefs := iterRefs ds + 1\<rparr>)"
  by (simp add: start_query_def)

lemma isReady_closeAndReset [simp]: "isReady (closeAndReset pq it)"
  by (simp add: isReady_def)

lemma drop_last:
  "mDataIter ds = Some it \<Longrightarrow> iterRefs ds = 1 \<Longrightarrow>
     drop_pointer pq ds = ds\<lparr>iterRefs := 0, mDataIter := Some (closeAndReset pq it)\<rparr>"
  by (simp add: drop_pointer_def release_def)

lemmas data_defs = data_ids_def data_strings_def data_dates_def start_query_def

subsection \<open>Properties\<close>

text \<open>
  C32: one cursor at a time. While the cursor of the iterator is open every overload of \<open>data()\<close> returns the null
  pointer and leaves the datastore as it is; when the last pointer to the iterator goes, at whatever point of the
  iteration, the datastore accepts queries again. But what counts is the cursor, not the pointers: a ready iterator (a drained one, for
  example) is lent again although other pointers to it are held, and they all share it.
\<close>

theorem one_query_at_a_time:
  assumes "mDataIter ds = Some it" "mState it = Open"
  shows "data_ids pq fo ids topic ds = Inr (False, ds)
    \<and> data_strings pq fo f t ids ds = Inr (False, ds)
    \<and> data_dates pq fo bg df dt ids ds = Inr (False, ds)
    \<and> (iterRefs ds = 1 \<longrightarrow> (\<exists>ds'. data_ids pq fo ids topic (drop_pointer pq ds) = Inr (True, ds')
        \<and> iterRefs ds' = 1))
    \<and> (\<forall>i. mState i = Ready \<longrightarrow> (\<exists>ds'. data_ids pq fo ids topic (ds\<lparr>mDataIter := Some i\<rparr>) = Inr (True, ds')
        \<and> iterRefs ds' = iterRefs ds + 1))"
  using assms by (auto simp: data_defs isReady_def drop_last)

text \<open>A datastore in the middle of an iteration: a query was started and one row was read.\<close>

definition iterating :: "pg_session datastore" where
  "iterating = \<lparr>mFetchSize = 2, ds_mConnectionInfo = [],
     mDataIter = Some (snd (iter_next sample_pq sample_folly (executeQuery sample_pq sample_folly
       (declare_prefix sample_folly Metamorphosis_Team ''t1'' @ '' BINARY CURSOR for select 1'') Metamorphosis_Team 2 sample_iter))),
     iterRefs = 1\<rparr>"

lemma iterating_open: "\<exists>it. mDataIter iterating = Some it \<and> mState it = Open"
proof -
  let ?q = "executeQuery sample_pq sample_folly (declare_prefix sample_folly Metamorphosis_Team ''t1'' @ '' BINARY CURSOR for '' @ ''select 1'')
      Metamorphosis_Team 2 sample_iter"
  have doc: "documented sample_pq id (\<lambda>_. Some sample_rows) (cursor_name sample_folly Metamorphosis_Team (mThreadId sample_iter)) (appendU64 sample_folly 2) 2"
    using sample_documented by (simp add: sample_iter_fields)
  have "serving id (cursor_name sample_folly Metamorphosis_Team ''t1'') (appendU64 sample_folly 2) 1 (Some ''a'' # [None, Some ''ccc'']) ?q"
    using executeQuery_serving [OF doc sample_iter_fields(1), where select = "''select 1''"] by (simp add: sample_iter_fields sample_rows_def Let_def)
  from next_serving_Cons [OF sample_documented _ this, of sample_folly]
  show ?thesis by (auto simp: iterating_def serving_def)
qed

theorem one_query_at_a_time_witness:
  "data_ids sample_pq sample_folly [1] Metamorphosis_Team iterating = Inr (False, iterating)
    \<and> (\<exists>ds'. data_ids sample_pq sample_folly [1] Metamorphosis_Team (drop_pointer sample_pq iterating) = Inr (True, ds'))"
proof -
  obtain it where it: "mDataIter iterating = Some it" "mState it = Open" using iterating_open by blast
  have "iterRefs iterating = 1" by (simp add: iterating_def)
  then show ?thesis
    using one_query_at_a_time [OF it, where pq = sample_pq and fo = sample_folly and ids = "[1]" and topic = Metamorphosis_Team and bg = sample_gregorian]
    by blast
qed

text \<open>
  The fetch size is never 0: \<open>setFetchSize\<close> stores its argument, or 1 for 0, so each batch
  asks the cursor for at least one row.
\<close>

theorem setFetchSize_positive:
  "fetchSize (setFetchSize val ds) = (if val = 0 then 1 else val)
   \<and> 0 < unat (fetchSize (setFetchSize val ds))"
proof -
  have "val < 1 \<longleftrightarrow> val = 0"
    by (simp add: word_less_nat_alt unat_eq_0)
  then show ?thesis
    by (simp add: setFetchSize_def fetchSize_def Let_def unat_gt_0)
qed

end
