(* ===== verification/ThriftConverter.thy ===== *)
theory ThriftConverter
  imports Topics
begin

text \<open>
  \<open>source/datastore/ThriftConverter.h\<close> / \<open>.cpp\<close>: from a topic and the bytes of a row to a Thrift
  object. The Thrift runtime and the generated classes are not part of the repository: \<open>thrift_model\<close>
  is the record of the default constructor of each class and of its \<open>read\<close> from a buffer, which
  returns the object or the exception it throws. A null \<open>data\<close> pointer is \<open>None\<close>.
\<close>

datatype thrift_class =
  StationData |
  LineupData |
  ImageData |
  PersonData |
  ProgramTMSId |
  AffiliationData |
  MarketData |
  ScheduleDayData |
  ProviderData |
  HeadendData |
  RatingBodyData |
  RatingValueData |
  AnimationData |
  AwardTypeData |
  AwardBodyData |
  GenreData |
  ProductionCompanyData |
  AdvisoryData |
  HolidayData |
  PlayoffData |
  TeamData |
  VenueData |
  WarningData |
  ConferenceData |
  UniversityData

record 'o thrift_model =
  thrift_new :: "thrift_class \<Rightarrow> 'o"
  thrift_read :: "thrift_class \<Rightarrow> string \<Rightarrow> cxx_exn + 'o"

text \<open>
  The buffer is reset to the data with the size cast to \<open>uint32_t\<close>. Only \<open>TTransportException\<close> is
  caught: then the object is deleted and the result is null.
\<close>

definition createAndPopulate ::
  "'o thrift_model \<Rightarrow> thrift_class \<Rightarrow> string option \<Rightarrow> u64 \<Rightarrow> cxx_exn + 'o option" where
  "createAndPopulate tm T data sizeInBytes =
     (case data of
        None \<Rightarrow> Inr (Some (thrift_new tm T))
      | Some bytes \<Rightarrow>
          (case thrift_read tm T (take (unat (ucast sizeInBytes :: u32)) bytes) of
             Inr obj \<Rightarrow> Inr (Some obj)
           | Inl Transport_exn \<Rightarrow> Inr None
           | Inl e \<Rightarrow> Inl e))"

fun createPopulated ::
  "'o thrift_model \<Rightarrow> Topic \<Rightarrow> string option \<Rightarrow> u64 \<Rightarrow> cxx_exn + 'o option" where
  "createPopulated tm Metamorphosis_Station data sizeInBytes = createAndPopulate tm StationData data sizeInBytes"
| "createPopulated tm Metamorphosis_Linuep data sizeInBytes = Inr (Some (thrift_new tm LineupData))"
| "createPopulated tm Metamorphosis_Image data sizeInBytes = Inr (Some (thrift_new tm ImageData))"
| "createPopulated tm Metamorphosis_Person data sizeInBytes = Inr (Some (thrift_new tm PersonData))"
| "createPopulated tm Metamorphosis_Program_TmsId data sizeInBytes = Inr (Some (thrift_new tm ProgramTMSId))"
| "createPopulated tm Metamorphosis_Affiliation data sizeInBytes = Inr (Some (thrift_new tm AffiliationData))"
| "createPopulated tm Metamorphosis_Market data sizeInBytes = Inr (Some (thrift_new tm MarketData))"
| "createPopulated tm Metamorphosis_Schedule_Day data sizeInBytes = createAndPopulate tm ScheduleDayData data sizeInBytes"
| "createPopulated tm Metamorphosis_Provider data sizeInBytes = Inr (Some (thrift_new tm ProviderData))"
| "createPopulated tm Metamorphosis_Headend data sizeInBytes = Inr (Some (thrift_new tm HeadendData))"
| "createPopulated tm Metamorphosis_Rating_Body data sizeInBytes = Inr (Some (thrift_new tm RatingBodyData))"
| "createPopulated tm Metamorphosis_Rating_Value data sizeInBytes = Inr (Some (thrift_new tm RatingValueData))"
| "createPopulated tm Metamorphosis_Animation data sizeInBytes = Inr (Some (thrift_new tm AnimationData))"
| "createPopulated tm Metamorphosis_Award_Type data sizeInBytes = Inr (Some (thrift_new tm AwardTypeData))"
| "createPopulated tm Metamorphosis_Award_Body data sizeInBytes = Inr (Some (thrift_new tm AwardBodyData))"
| "createPopulated tm Metamorphosis_Genre data sizeInBytes = Inr (Some (thrift_new tm GenreData))"
| "createPopulated tm Metamorphosis_Production_Company data sizeInBytes = Inr (Some (thrift_new tm ProductionCompanyData))"
| "createPopulated tm Metamorphosis_Advisory data sizeInBytes = Inr (Some (thrift_new tm AdvisoryData))"
| "createPopulated tm Metamorphosis_Holiday data sizeInBytes = Inr (Some (thrift_new tm HolidayData))"
| "createPopulated tm Metamorphosis_Playoff data sizeInBytes = Inr (Some (thrift_new tm PlayoffData))"
| "createPopulated tm Metamorphosis_Team data sizeInBytes = Inr (Some (thrift_new tm TeamData))"
| "createPopulated tm Metamorphosis_Venue data sizeInBytes = Inr (Some (thrift_new tm VenueData))"
| "createPopulated tm Metamorphosis_Warning data sizeInBytes = Inr (Some (thrift_new tm WarningData))"
| "createPopulated tm Metamorphosis_Conference data sizeInBytes = Inr (Some (thrift_new tm ConferenceData))"
| "createPopulated tm Metamorphosis_University data sizeInBytes = Inr (Some (thrift_new tm UniversityData))"

text \<open>The class each topic is stored as.\<close>

fun topic_class :: "Topic \<Rightarrow> thrift_class" where
  "topic_class Metamorphosis_Station = StationData"
| "topic_class Metamorphosis_Linuep = LineupData"
| "topic_class Metamorphosis_Image = ImageData"
| "topic_class Metamorphosis_Person = PersonData"
| "topic_class Metamorphosis_Program_TmsId = ProgramTMSId"
| "topic_class Metamorphosis_Affiliation = AffiliationData"
| "topic_class Metamorphosis_Market = MarketData"
| "topic_class Metamorphosis_Schedule_Day = ScheduleDayData"
| "topic_class Metamorphosis_Provider = ProviderData"
| "topic_class Metamorphosis_Headend = HeadendData"
| "topic_class Metamorphosis_Rating_Body = RatingBodyData"
| "topic_class Metamorphosis_Rating_Value = RatingValueData"
| "topic_class Metamorphosis_Animation = AnimationData"
| "topic_class Metamorphosis_Award_Type = AwardTypeData"
| "topic_class Metamorphosis_Award_Body = AwardBodyData"
| "topic_class Metamorphosis_Genre = GenreData"
| "topic_class Metamorphosis_Production_Company = ProductionCompanyData"
| "topic_class Metamorphosis_Advisory = AdvisoryData"
| "topic_class Metamorphosis_Holiday = HolidayData"
| "topic_class Metamorphosis_Playoff = PlayoffData"
| "topic_class Metamorphosis_Team = TeamData"
| "topic_class Metamorphosis_Venue = VenueData"
| "topic_class Metamorphosis_Warning = WarningData"
| "topic_class Metamorphosis_Conference = ConferenceData"
| "topic_class Metamorphosis_University = UniversityData"

subsection \<open>Properties\<close>

text \<open>
  The conversion, topic by topic. Station and schedule-day rows are read from the bytes, up
  to the size modulo \<open>2^32\<close>: a transport error gives null, any other error escapes, a null row gives
  the default object. For the other 23 topics the bytes are ignored and the result is the default
  object of the topic's class. So the result is null only for a transport error on the two populated
  topics.
\<close>

theorem createPopulated_spec:
  "createPopulated tm topic data n =
     (if topic \<in> {Metamorphosis_Station, Metamorphosis_Schedule_Day} \<and> data \<noteq> None
      then case thrift_read tm (topic_class topic) (take (unat n mod 2 ^ 32) (the data)) of
             Inr obj \<Rightarrow> Inr (Some obj)
           | Inl e \<Rightarrow> if e = Transport_exn then Inr None else Inl e
      else Inr (Some (thrift_new tm (topic_class topic))))"
proof -
  have n: "unat (ucast n :: u32) = unat n mod 2 ^ 32"
    by (simp add: unsigned_ucast_eq take_bit_eq_mod)
  show ?thesis
    by (cases topic)
      (auto simp: createAndPopulate_def n split: option.splits sum.splits cxx_exn.splits)
qed

end
