(* ===== verification/ConnectionInfo.thy ===== *)
theory ConnectionInfo
  imports Prelude
begin

text \<open>
  \<open>source/datastore/DatastoreConnectionInfo.h\<close> / \<open>.cpp\<close>: the database URIs of the JSON
  configuration and the round robin over them. \<open>folly::dynamic\<close> is the record of the accessors
  the constructor calls: \<open>operator[]\<close> (null for a key that is absent), the test
  against \<open>nullptr\<close>, iteration, \<open>asString\<close> and \<open>asInt\<close>, each of which may throw.
\<close>

record 'd folly_dynamic =
  dyn_at :: "'d \<Rightarrow> string \<Rightarrow> cxx_exn + 'd"
  dyn_is_null :: "'d \<Rightarrow> bool"
  dyn_items :: "'d \<Rightarrow> cxx_exn + 'd list"
  dyn_asString :: "'d \<Rightarrow> cxx_exn + string"
  dyn_asInt :: "'d \<Rightarrow> cxx_exn + int"

record connection_info =
  mDefaultFetchSize :: u64
  mConnectionStrings :: "string list"
  mLastUri :: u64
  mEmpty :: string

fun push_uris :: "'d folly_dynamic \<Rightarrow> 'd list \<Rightarrow> connection_info \<Rightarrow> cxx_exn + connection_info" where
  "push_uris fd [] ci = Inr ci"
| "push_uris fd (val # vals) ci =
     bindE (dyn_at fd val ''uri'') (\<lambda>u.
     bindE (dyn_asString fd u) (\<lambda>s.
       push_uris fd vals (ci\<lparr>mConnectionStrings := mConnectionStrings ci @ [s]\<rparr>)))"

definition DatastoreConnectionInfo :: "'d folly_dynamic \<Rightarrow> 'd \<Rightarrow> cxx_exn + connection_info" where
  "DatastoreConnectionInfo fd config =
     (let ci = \<lparr>mDefaultFetchSize = 500, mConnectionStrings = [], mLastUri = 0, mEmpty = []\<rparr>
      in bindE (dyn_at fd config ''database'') (\<lambda>db.
         bindE
           (if \<not> dyn_is_null fd db then
              bindE (dyn_at fd db ''connections'') (\<lambda>conns.
              bindE (if \<not> dyn_is_null fd conns
                     then bindE (dyn_items fd conns) (\<lambda>vals. push_uris fd vals ci)
                     else Inr ci) (\<lambda>ci.
              bindE (dyn_at fd db ''fetchSize'') (\<lambda>fs.
                if \<not> dyn_is_null fd fs
                then bindE (dyn_asInt fd fs) (\<lambda>n. Inr (ci\<lparr>mDefaultFetchSize := word_of_int n\<rparr>))
                else Inr ci)))
            else Inr ci)
           (\<lambda>ci. Inr (ci\<lparr>mLastUri := 0\<rparr>))))"

definition getNextUri :: "connection_info \<Rightarrow> string \<times> connection_info" where
  "getNextUri ci =
     (if mConnectionStrings ci \<noteq> [] then
        let ci = ci\<lparr>mLastUri := mLastUri ci + 1\<rparr>;
            ci = (if unat (mLastUri ci) = length (mConnectionStrings ci) then ci\<lparr>mLastUri := 0\<rparr> else ci)
        in (mConnectionStrings ci ! unat (mLastUri ci), ci)
      else (mEmpty ci, ci))"

definition getDefaultFetchSize :: "connection_info \<Rightarrow> u64" where
  "getDefaultFetchSize ci = mDefaultFetchSize ci"

definition info_size :: "connection_info \<Rightarrow> nat" where
  "info_size ci = length (mConnectionStrings ci)"

text \<open>A client that asks \<open>k\<close> times.\<close>

fun getNextUris :: "nat \<Rightarrow> connection_info \<Rightarrow> string list \<times> connection_info" where
  "getNextUris 0 ci = ([], ci)"
| "getNextUris (Suc k) ci =
     (case getNextUri ci of (u, ci') \<Rightarrow> case getNextUris k ci' of (us, ci'') \<Rightarrow> (u # us, ci''))"

definition info_wf :: "connection_info \<Rightarrow> bool" where
  "info_wf ci \<longleftrightarrow> length (mConnectionStrings ci) < 2 ^ 64
     \<and> (mConnectionStrings ci \<noteq> [] \<longrightarrow> unat (mLastUri ci) < length (mConnectionStrings ci))"

lemma push_uris_fields:
  "push_uris fd vals ci = Inr ci' \<Longrightarrow> mDefaultFetchSize ci' = mDefaultFetchSize ci
     \<and> length (mConnectionStrings ci') = length (mConnectionStrings ci) + length vals"
  by (induction fd vals ci rule: push_uris.induct) (auto simp: bindE_eq_Inr)

lemma constructed_at_zero: "DatastoreConnectionInfo fd config = Inr ci \<Longrightarrow> mLastUri ci = 0"
  by (auto simp: DatastoreConnectionInfo_def Let_def bindE_eq_Inr)

lemma getNextUri_step:
  assumes "info_wf ci" "mConnectionStrings ci \<noteq> []"
  defines "n \<equiv> length (mConnectionStrings ci)"
  shows "\<exists>w. getNextUri ci = (mConnectionStrings ci ! ((unat (mLastUri ci) + 1) mod n), ci\<lparr>mLastUri := w\<rparr>)
    \<and> unat w = (unat (mLastUri ci) + 1) mod n"
proof -
  have b: "unat (mLastUri ci) < n" "n < 2 ^ 64"
    using assms by (simp_all add: info_wf_def)
  then have u: "unat (mLastUri ci + 1) = unat (mLastUri ci) + 1"
    by (simp add: unat_word_ariths)
  show ?thesis
  proof (cases "unat (mLastUri ci) + 1 = n")
    case True
    then show ?thesis
      using assms(2) u by (intro exI [of _ 0]) (simp add: getNextUri_def n_def)
  next
    case False
    with b have "unat (mLastUri ci) + 1 < n" by simp
    then show ?thesis
      using assms(2) u False by (intro exI [of _ "mLastUri ci + 1"]) (simp add: getNextUri_def n_def)
  qed
qed

lemma getNextUris_eq:
  "info_wf ci \<Longrightarrow> mConnectionStrings ci \<noteq> [] \<Longrightarrow>
     fst (getNextUris k ci) = map (\<lambda>j. mConnectionStrings ci
        ! ((unat (mLastUri ci) + 1 + j) mod length (mConnectionStrings ci))) [0..<k]"
proof (induction k arbitrary: ci)
  case (Suc k)
  let ?n = "length (mConnectionStrings ci)"
  obtain w where w: "getNextUri ci = (mConnectionStrings ci ! ((unat (mLastUri ci) + 1) mod ?n), ci\<lparr>mLastUri := w\<rparr>)"
      "unat w = (unat (mLastUri ci) + 1) mod ?n"
    using getNextUri_step [OF Suc.prems] by blast
  have "info_wf (ci\<lparr>mLastUri := w\<rparr>)"
    using Suc.prems w(2) by (simp add: info_wf_def)
  from Suc.IH [OF this] Suc.prems(2)
  have "fst (getNextUris k (ci\<lparr>mLastUri := w\<rparr>)) = map (\<lambda>j. mConnectionStrings ci
      ! (((unat (mLastUri ci) + 1) mod ?n + 1 + j) mod ?n)) [0..<k]"
    by (simp add: w(2))
  also have "\<dots> = map (\<lambda>j. mConnectionStrings ci ! ((unat (mLastUri ci) + 1 + j) mod ?n)) [1..<Suc k]"
  proof (rule nth_equalityI)
    fix i
    assume "i < length (map (\<lambda>j. mConnectionStrings ci ! (((unat (mLastUri ci) + 1) mod ?n + 1 + j) mod ?n)) [0..<k])"
    moreover have "((unat (mLastUri ci) + 1) mod ?n + 1 + i) mod ?n = (unat (mLastUri ci) + 1 + (1 + i)) mod ?n"
      using mod_add_left_eq [of "unat (mLastUri ci) + 1" ?n "1 + i"] by (simp add: ac_simps)
    ultimately show "map (\<lambda>j. mConnectionStrings ci ! (((unat (mLastUri ci) + 1) mod ?n + 1 + j) mod ?n)) [0..<k] ! i
        = map (\<lambda>j. mConnectionStrings ci ! ((unat (mLastUri ci) + 1 + j) mod ?n)) [1..<Suc k] ! i"
      by (simp del: upt_Suc)
  qed simp
  finally show ?case
    by (simp add: w(1) case_prod_beta upt_conv_Cons del: upt_Suc)
qed simp

subsection \<open>Properties\<close>

text \<open>
  C33: round robin. After construction, the \<open>k\<close>-th call of \<open>getNextUri\<close> returns URI number \<open>k\<close>
  modulo the number of URIs (so the rotation starts at the second URI of the configuration), and any run of as many calls as
  there are URIs returns each URI of the configuration once.
\<close>

theorem getNextUri_round_robin:
  assumes "DatastoreConnectionInfo fd config = Inr ci" "mConnectionStrings ci \<noteq> []"
    "info_size ci < 2 ^ 64"
  shows "fst (getNextUris k ci) = map (\<lambda>j. mConnectionStrings ci ! (Suc j mod info_size ci)) [0..<k]
    \<and> fst (getNextUris (info_size ci) ci) = rotate1 (mConnectionStrings ci)"
proof -
  have "info_wf ci"
    using assms by (simp add: info_wf_def info_size_def constructed_at_zero)
  note eq = getNextUris_eq [OF this assms(2)]
  have 1: "fst (getNextUris m ci) = map (\<lambda>j. mConnectionStrings ci ! (Suc j mod info_size ci)) [0..<m]" for m
    using eq [of m] assms(1) by (simp add: constructed_at_zero info_size_def)
  have "fst (getNextUris (info_size ci) ci) = rotate1 (mConnectionStrings ci)"
    unfolding 1 by (rule nth_equalityI) (simp_all add: info_size_def nth_rotate1)
  with 1 show ?thesis by blast
qed

text \<open>A configuration with two URIs: the node numbers stand for the nodes of the JSON document.\<close>

definition sample_dynamic :: "nat folly_dynamic" where
  "sample_dynamic = \<lparr>dyn_at = (\<lambda>n k. Inr (if k = ''database'' then 1 else if k = ''connections'' then 2
       else if k = ''fetchSize'' then 0 else n)),
     dyn_is_null = (\<lambda>n. n = 0), dyn_items = (\<lambda>_. Inr [3, 4]),
     dyn_asString = (\<lambda>n. Inr (if n = 3 then ''a'' else ''b'')), dyn_asInt = (\<lambda>_. Inr 7)\<rparr>"

theorem getNextUri_round_robin_witness:
  "\<exists>ci. DatastoreConnectionInfo sample_dynamic 9 = Inr ci \<and> fst (getNextUris 2 ci) = [''b'', ''a'']"
proof -
  let ?ci = "\<lparr>mDefaultFetchSize = 500, mConnectionStrings = [''a'', ''b''], mLastUri = 0, mEmpty = []\<rparr>"
  have c: "DatastoreConnectionInfo sample_dynamic 9 = Inr ?ci"
    by (simp add: DatastoreConnectionInfo_def sample_dynamic_def)
  have "fst (getNextUris (info_size ?ci) ?ci) = [''b'', ''a'']"
    using getNextUri_round_robin [OF c, of 2] by (simp add: info_size_def)
  then show ?thesis
    using c by (simp add: info_size_def eval_nat_numeral)
qed

end
