(* ===== verification/DataDump.thy ===== *)
theory DataDump
  imports Datastore ThriftConverter ConnectionInfo
begin

text \<open>
  \<open>source/tools/dataDump/dataDump.cpp\<close>: the three query drivers of the dump tool. Each sets the fetch
  size to 2, runs a query and loops over \<open>next()\<close>, converting every row. The loop takes
  fuel (\<open>Fuel_out\<close> when it runs out); the result is the number of rows counted together with the
  datastore after the smart pointer went out of scope. \<open>testQuery\<close> logs fields of the
  converted object without a null test (\<open>Null_object\<close>); the other two do not look at the object.
\<close>

datatype dump_error = Ds_error ds_error | Conversion cxx_exn | Null_object | Fuel_out

text \<open>
  The loop \<open>while((data=iter->next())!=nullptr)\<close> with the body \<open>body\<close> (what it does with the row)
  and the counter.
\<close>

fun row_loop ::
  "'c libpq \<Rightarrow> folly \<Rightarrow> (data_object \<Rightarrow> dump_error + unit) \<Rightarrow> nat \<Rightarrow> nat \<Rightarrow> 'c iter \<Rightarrow> dump_error + nat \<times> 'c iter" where
  "row_loop pq fo body 0 count it = Inl Fuel_out"
| "row_loop pq fo body (Suc fuel) count it =
     (case iter_next pq fo it of
        (None, it') \<Rightarrow> Inr (count, it')
      | (Some d, it') \<Rightarrow> bindE (body d) (\<lambda>_. row_loop pq fo body fuel (count + 1) it'))"

text \<open>Convert a row as the given topic and drop the object.\<close>

definition convert_row :: "'o thrift_model \<Rightarrow> Topic \<Rightarrow> data_object \<Rightarrow> dump_error + 'o option" where
  "convert_row tm topic d =
     (case createPopulated tm topic (thriftObject d) (of_nat (sizeInBytes d)) of
        Inl e \<Rightarrow> Inl (Conversion e)
      | Inr obj \<Rightarrow> Inr obj)"

definition schedule_body :: "'o thrift_model \<Rightarrow> data_object \<Rightarrow> dump_error + unit" where
  "schedule_body tm d = bindE (convert_row tm Metamorphosis_Schedule_Day d) (\<lambda>_. Inr ())"

definition query_body :: "'o thrift_model \<Rightarrow> Topic \<Rightarrow> data_object \<Rightarrow> dump_error + unit" where
  "query_body tm topic d =
     (if topic = Metamorphosis_Station \<or> topic = Metamorphosis_Schedule_Day
      then bindE (convert_row tm topic d) (\<lambda>sData. if sData = None then Inl Null_object else Inr ())
      else Inr ())"

text \<open>
  After a query was started: nothing to do for a null pointer; otherwise the loop, and the smart
  pointer is destroyed at the end of the function.
\<close>

definition run_query ::
  "'c libpq \<Rightarrow> folly \<Rightarrow> nat \<Rightarrow> (data_object \<Rightarrow> dump_error + unit) \<Rightarrow> ds_error + bool \<times> 'c datastore
     \<Rightarrow> dump_error + nat \<times> 'c datastore" where
  "run_query pq fo fuel body started =
     (case started of
        Inl e \<Rightarrow> Inl (Ds_error e)
      | Inr (False, ds) \<Rightarrow> Inr (0, ds)
      | Inr (True, ds) \<Rightarrow>
          (case mDataIter ds of
             None \<Rightarrow> Inl (Ds_error Bad_deref)
           | Some it \<Rightarrow> bindE (row_loop pq fo body fuel 0 it)
               (\<lambda>(count, it'). Inr (count, drop_pointer pq (ds\<lparr>mDataIter := Some it'\<rparr>)))))"

definition testScheduleQuery2 ::
  "'c libpq \<Rightarrow> folly \<Rightarrow> 'o thrift_model \<Rightarrow> 'd boost_gregorian \<Rightarrow> nat \<Rightarrow> 'c datastore \<Rightarrow> u64 list \<Rightarrow> 'd \<Rightarrow> 'd
     \<Rightarrow> dump_error + nat \<times> 'c datastore" where
  "testScheduleQuery2 pq fo tm bg fuel store arr dateFrom dateTo =
     (let store = setFetchSize 2 store
      in run_query pq fo fuel (schedule_body tm) (data_dates pq fo bg dateFrom dateTo arr store))"

definition testScheduleQuery ::
  "'c libpq \<Rightarrow> folly \<Rightarrow> 'o thrift_model \<Rightarrow> nat \<Rightarrow> 'c datastore \<Rightarrow> u64 list \<Rightarrow> string \<Rightarrow> string
     \<Rightarrow> dump_error + nat \<times> 'c datastore" where
  "testScheduleQuery pq fo tm fuel store arr dateFrom dateTo =
     (let store = setFetchSize 2 store
      in run_query pq fo fuel (schedule_body tm) (data_strings pq fo dateFrom dateTo arr store))"

definition testQuery ::
  "'c libpq \<Rightarrow> folly \<Rightarrow> 'o thrift_model \<Rightarrow> nat \<Rightarrow> 'c datastore \<Rightarrow> u64 list \<Rightarrow> Topic
     \<Rightarrow> dump_error + nat \<times> 'c datastore" where
  "testQuery pq fo tm fuel store arr topic =
     (let store = setFetchSize 2 store
      in run_query pq fo fuel (query_body tm topic) (data_ids pq fo arr topic store))"

subsection \<open>Lemmas\<close>

lemma row_loop_drain:
  assumes "\<forall>d \<in> set ds. body d = Inr ()"
  shows "drain pq fo fuel it = Some (ds, it') \<Longrightarrow> row_loop pq fo body fuel count it = Inr (count + length ds, it')"
  using assms
proof (induction fuel arbitrary: count it ds)
  case (Suc fuel)
  show ?case
  proof (cases "iter_next pq fo it")
    case (Pair r i)
    then show ?thesis
      using Suc by (cases r) auto
  qed
qed simp

lemma setFetchSize_2: "setFetchSize 2 ds = ds\<lparr>mFetchSize := 2\<rparr>"
  by (simp add: setFetchSize_def Let_def)

text \<open>The query for a list of identifiers is a \<open>DECLARE\<close> of the cursor for this \<open>select\<close>.\<close>

definition ids_select :: "folly \<Rightarrow> u64 list \<Rightarrow> Topic \<Rightarrow> string" where
  "ids_select fo ids topic =
     (if topic \<noteq> Metamorphosis_Schedule_Day
      then generateStringIdList fo ids ''select thrift from catapult.general where id in ('' @ '' ) and topic='' @ quot @ toChar topic @ quot
      else generateLongIdList fo ids ''select thrift from catapult.schedule_day where schedule_day_id in ('' @ '' ) '')"

lemma ids_query_select: "ids_query fo ids topic tid = declare_prefix fo topic tid @ '' BINARY CURSOR for '' @ ids_select fo ids topic"
  by (simp add: ids_query_def ids_select_def generateStringIdList_def generateLongIdList_def)

lemma run_query_counts:
  assumes "mDataIter ds = Some it" "isReady it" "iterRefs ds = 0"
    and "drain pq fo fuel (run it) = Some (map read_row rows, it')" "closed session b it'"
    and "\<forall>v \<in> set rows. body (read_row v) = Inr ()"
  shows "\<exists>ds'. run_query pq fo fuel body (start_query run ds) = Inr (length rows, ds')
    \<and> iterRefs ds' = 0 \<and> (\<exists>i. mDataIter ds' = Some i \<and> closed session b i)"
proof -
  have "row_loop pq fo body fuel 0 (run it) = Inr (length rows, it')"
    using row_loop_drain [OF _ assms(4), of body 0] assms(6) by simp
  moreover have "closeAndReset pq it' = it'" using assms(5) by (simp add: closed_def closeAndReset_def)
  ultimately show ?thesis
    using assms(1-3,5) by (simp add: run_query_def start_query_ready drop_last)
qed

subsection \<open>Properties\<close>

text \<open>
  C28: the dump of a topic. On a datastore with a connected, idle iterator whose session is idle, if PostgreSQL behaves as documented and accepts the query, and
  every row of the result converts to an object (the code dereferences a null pointer otherwise), \<open>testQuery\<close> ends after as many rows as the
  \<open>select\<close> for the identifiers has, and leaves everything idle: no pointer to the iterator is left, it is ready again, its cursor is closed
  and the session of its connection idle. (The number of rows is a local variable of the code; the model returns it.)
\<close>

theorem testQuery_counts_rows:
  assumes "mDataIter ds = Some it" "isReady it" "iterRefs ds = 0" "mConnection it = Some c" "session c = Pg_idle"
    and "documented pq session answer (cursor_name fo topic (mThreadId it)) (appendU64 fo 2) 2"
    and "answer (ids_select fo ids topic) = Some rows" "\<forall>v \<in> set rows. query_body tm topic (read_row v) = Inr ()"
  shows "\<exists>ds' i c'. testQuery pq fo tm (Suc (length rows)) ds ids topic
      = Inr (length rows, ds')
    \<and> iterRefs ds' = 0 \<and> mDataIter ds' = Some i \<and> isReady i \<and> mConnection i = Some c' \<and> session c' = Pg_idle"
proof -
  let ?it = "it\<lparr>mQueryCommand := ids_query fo ids topic (mThreadId it)\<rparr>"
  have doc: "documented pq session answer (cursor_name fo topic (mThreadId ?it)) (appendU64 fo 2) 2" using assms(6) by simp
  obtain it' where it': "drain pq fo (Suc (length rows)) (executeQuery_ids pq fo ids topic 2 it)
      = Some (map read_row rows, it')" "closed session (pq_live it + 1) it'"
    using query_drains [OF doc, where c = c and select = "ids_select fo ids topic" and rows = rows] assms(4,5,7)
    by (auto simp: executeQuery_ids_def Let_def ids_query_select)
  show ?thesis
    using run_query_counts [where run = "executeQuery_ids pq fo ids topic 2" and it = it
        and ds = "ds\<lparr>mFetchSize := 2\<rparr>", OF _ assms(2) _ it' assms(8)] assms(1,3)
    by (auto simp: testQuery_def setFetchSize_2 data_ids_def closed_def isReady_def)
qed

definition sample_thrift :: "nat thrift_model" where
  "sample_thrift = \<lparr>thrift_new = (\<lambda>_. 0), thrift_read = (\<lambda>_ b. Inr (length b))\<rparr>"

theorem testQuery_counts_rows_witness:
  "\<exists>ds' i. testQuery sample_pq sample_folly sample_thrift 4
      \<lparr>mFetchSize = 7, ds_mConnectionInfo = [], mDataIter = Some sample_iter, iterRefs = 0\<rparr> [5, 6] Metamorphosis_Station
    = Inr (3, ds') \<and> mDataIter ds' = Some i \<and> mConnection i = Some Pg_idle"
proof -
  let ?ds = "\<lparr>mFetchSize = 7, ds_mConnectionInfo = [], mDataIter = Some sample_iter, iterRefs = 0\<rparr>"
  have doc: "documented sample_pq id (\<lambda>_. Some sample_rows) (cursor_name sample_folly Metamorphosis_Station (mThreadId sample_iter)) (appendU64 sample_folly 2) 2"
    using sample_documented by (simp add: sample_iter_fields)
  have conv: "\<forall>v \<in> set sample_rows. query_body sample_thrift Metamorphosis_Station (read_row v) = Inr ()"
    by (simp add: sample_rows_def query_body_def convert_row_def read_row_def DataObject_new_def
        createAndPopulate_def sample_thrift_def)
  have ds: "mDataIter ?ds = Some sample_iter" "iterRefs ?ds = 0" "id Pg_idle = Pg_idle" by simp_all
  have "length sample_rows = 3" by (simp add: sample_rows_def)
  then show ?thesis
    using testQuery_counts_rows [OF ds(1) sample_iter_fields(2) ds(2) sample_iter_fields(1) ds(3) doc _ conv, where ids = "[5, 6]"]
    by (auto simp: eval_nat_numeral)
qed

text \<open>
  A row that Thrift cannot read crashes the dump: if the first row of a station or schedule-day
  result is cut short (\<open>TTransportException\<close>), the conversion gives null and \<open>testQuery\<close> dereferences it.
\<close>

theorem testQuery_null_object:
  assumes "topic = Metamorphosis_Station \<or> topic = Metamorphosis_Schedule_Day"
    and "fst (iter_next pq fo it) = Some d" "thriftObject d = Some bytes"
    and "thrift_read tm (topic_class topic) (take (unat (of_nat (sizeInBytes d) :: u64) mod 2 ^ 32) bytes)
      = Inl Transport_exn"
  shows "row_loop pq fo (query_body tm topic) (Suc fuel) count it = Inl Null_object"
proof -
  have "createPopulated tm topic (thriftObject d) (of_nat (sizeInBytes d)) = Inr None"
    using assms(1,3,4)
    by (elim disjE; simp add: createAndPopulate_def unsigned_ucast_eq take_bit_eq_mod)
  then have "query_body tm topic d = Inl Null_object"
    using assms(1) by (auto simp: query_body_def convert_row_def)
  then show ?thesis
    using assms(2) by (simp add: case_prod_beta split: option.splits)
qed

theorem testQuery_null_object_witness:
  "row_loop sample_pq sample_folly (query_body \<lparr>thrift_new = (\<lambda>_. 0 :: nat), thrift_read = (\<lambda>_ _. Inl Transport_exn)\<rparr>
       Metamorphosis_Station) 1 0
     (executeQuery sample_pq sample_folly (declare_prefix sample_folly Metamorphosis_Station ''t1'' @ '' BINARY CURSOR for '' @ ''select x'')
        Metamorphosis_Station 2 sample_iter) = Inl Null_object"
proof -
  let ?tm = "\<lparr>thrift_new = (\<lambda>_. 0 :: nat), thrift_read = (\<lambda>_ _. Inl Transport_exn)\<rparr>"
  let ?it = "executeQuery sample_pq sample_folly (declare_prefix sample_folly Metamorphosis_Station ''t1'' @ '' BINARY CURSOR for '' @ ''select x'')
      Metamorphosis_Station 2 sample_iter"
  have doc: "documented sample_pq id (\<lambda>_. Some sample_rows) (cursor_name sample_folly Metamorphosis_Station (mThreadId sample_iter)) (appendU64 sample_folly 2) 2"
    using sample_documented by (simp add: sample_iter_fields)
  have "serving id (cursor_name sample_folly Metamorphosis_Station ''t1'') (appendU64 sample_folly 2) 1 (Some ''a'' # [None, Some ''ccc'']) ?it"
    using executeQuery_serving [OF doc sample_iter_fields(1), where select = "''select x''"] by (simp add: sample_iter_fields sample_rows_def Let_def)
  from next_serving_Cons [OF sample_documented _ this, of sample_folly]
  have n: "fst (iter_next sample_pq sample_folly ?it) = Some (read_row (Some ''a''))" by auto
  show ?thesis
    using testQuery_null_object [OF _ n, of Metamorphosis_Station "''a''" ?tm 0 0]
    by (simp add: read_row_def)
qed

end
