(* ===== verification/DataDumpMain.thy ===== *)
theory DataDumpMain
  imports DataDump ScheduleDay
begin

text \<open>
  \<open>main\<close> of \<open>source/tools/dataDump/dataDump.cpp\<close>: it parses a configuration, asks it for URIs, and runs two queries by identifiers and one
  by dates on a datastore. \<open>config\<close> is what \<open>folly::parseJson\<close> makes of the file. The result is what is logged of the
  connection, and the counts of the queries (\<open>None\<close>: the second one was skipped because there was no connection). The values that are
  computed and not used (a list of numbers as text, a schedule day) and the measured time are left out.
\<close>

definition ids :: "u64 list" where
  "ids = [96541, 96446, 95856, 95643, 93825, 92394, 92160, 92022, 92020, 92008]"

definition ids2 :: "'d boost_gregorian \<Rightarrow> u64 list" where
  "ids2 bg = [create_string bg 10003 ''2016-05-08'', create_string bg 10003 ''2016-05-09'', create_string bg 10003 ''2016-05-10'']"

definition ids4 :: "u64 list" where
  "ids4 =
    [19556, 10121, 16300, 17693, 19635, 76990, 76965, 66268, 88533, 61474, 10153, 15451, 85932, 95643, 78789, 47499,
     11481, 65717, 20709, 34949, 83098, 59845, 56278, 82572, 21623, 48639, 10269, 10760, 59155, 20675, 73812, 79632,
     16496, 11461, 87122, 24125, 70975, 71662, 58698, 69073, 72468, 65342, 90134, 59368, 66284, 15717, 38961, 17683,
     71115, 58333, 73965, 16320, 12009, 50500, 73467, 76126, 59952, 75479, 92008, 10991, 89535, 60121, 77107, 88801,
     71209, 55241, 19631, 60150, 17457, 66347, 68140, 74484, 10145, 17956, 34916, 19520, 64591, 62125, 65791, 76367,
     90136, 18086, 72014, 33725, 14791, 83173, 71205, 70337, 11118, 59366, 16879, 23392, 26772, 64490, 11779, 66379,
     72729, 44642, 21544, 11299, 26827, 24569, 91109, 24521, 21617, 58625, 61628, 20655, 70993, 16584, 71040, 88770,
     37771, 48859, 45399, 71214, 71799, 49582, 11163, 32281, 74281, 11653, 97891, 74290, 34941, 34933, 78584, 74278,
     73264, 67331, 29058, 34290, 15085, 14776, 24935, 25270, 59839]"

text \<open>The queries on a datastore, up to its deletion.\<close>

definition dump_queries ::
  "'c libpq \<Rightarrow> folly \<Rightarrow> 'o thrift_model \<Rightarrow> 'd boost_gregorian \<Rightarrow> nat \<Rightarrow> 'c datastore \<Rightarrow> dump_error + nat \<times> nat option \<times> nat" where
  "dump_queries pq fo tm bg fuel store =
     bindE (testQuery pq fo tm fuel store ids Metamorphosis_Station) (\<lambda>(n1, store).
     bindE (if ds_isConnected pq store
            then bindE (testQuery pq fo tm fuel store (ids2 bg) Metamorphosis_Schedule_Day) (\<lambda>(n, store). Inr (Some n, store))
            else Inr (None, store)) (\<lambda>(n2, store).
     bindE (testScheduleQuery pq fo tm fuel store ids4 ''2015-01-08'' ''2019-05-12'') (\<lambda>(n3, store).
       (case Datastore_delete pq store of
          Inl e \<Rightarrow> Inl (Ds_error e)
        | Inr _ \<Rightarrow> Inr (n1, n2, n3)))))"

definition dataDump_main ::
  "'c libpq \<Rightarrow> folly \<Rightarrow> 'o thrift_model \<Rightarrow> 'd boost_gregorian \<Rightarrow> 'y folly_dynamic \<Rightarrow> nat \<Rightarrow> cxx_exn + 'y
     \<Rightarrow> dump_error + string list \<times> u64 \<times> nat \<times> nat option \<times> nat" where
  "dataDump_main pq fo tm bg fd fuel config =
     (case config of
        Inl e \<Rightarrow> Inl (Conversion e)
      | Inr parsed \<Rightarrow>
          (case DatastoreConnectionInfo fd parsed of
             Inl e \<Rightarrow> Inl (Conversion e)
           | Inr info \<Rightarrow>
               (let (uris, info) = getNextUris 5 info
                in case Datastore_new parsed 500 of
                     Inl e \<Rightarrow> Inl (Ds_error e)
                   | Inr store \<Rightarrow>
                       bindE (dump_queries pq fo tm bg fuel store)
                         (\<lambda>counts. Inr (uris, getDefaultFetchSize info, counts)))))"

subsection \<open>Properties\<close>

text \<open>
  The dump tool never runs a query. The constructor of the datastore uses the pointer to its iterator, which it never sets: for
  every configuration \<open>main\<close> ends in the exception of the configuration or in the use of that pointer, and
  no log line with a count is reached.
\<close>

theorem dataDump_main_fails:
  "dataDump_main pq fo tm bg fd fuel config
    = (case bindE config (DatastoreConnectionInfo fd) of Inl e \<Rightarrow> Inl (Conversion e) | Inr _ \<Rightarrow> Inl (Ds_error Bad_deref))"
  by (auto simp: dataDump_main_def Datastore_new_def split: sum.splits prod.splits)

end
