(* ===== verification/QueueUtils.thy ===== *)
theory QueueUtils
  imports Prelude
begin

text \<open>
  \<open>source/utils/concurrentqueue.h\<close>, namespace \<open>details\<close> and the default traits: the constants of the
  only instance of the queue in the repository (\<open>ConcurrentQueueDefaultTraits\<close>) and the helper functions on indices
  and thread identifiers. \<open>size_t\<close>, \<open>index_t\<close> and thread identifiers are 64-bit words.
\<close>

datatype alloc_mode = Can_alloc | Cannot_alloc

definition BLOCK_SIZE :: u64 where
  "BLOCK_SIZE = 32"

definition IMPLICIT_INITIAL_INDEX_SIZE :: u64 where
  "IMPLICIT_INITIAL_INDEX_SIZE = 32"

definition INITIAL_IMPLICIT_PRODUCER_HASH_SIZE :: u64 where
  "INITIAL_IMPLICIT_PRODUCER_HASH_SIZE = 32"

definition const_numeric_max :: u64 where
  "const_numeric_max = - 1"

text \<open>The limit of a sub-queue, rounded up to blocks (the traits leave it at the largest value).\<close>

definition MAX_SUBQUEUE_SIZE :: u64 where
  "MAX_SUBQUEUE_SIZE =
     (let limit = const_numeric_max
      in if const_numeric_max - limit < BLOCK_SIZE then const_numeric_max
         else (limit + (BLOCK_SIZE - 1)) div BLOCK_SIZE * BLOCK_SIZE)"

definition hash_64 :: "u64 \<Rightarrow> u64" where
  "hash_64 h =
     (let h = h XOR drop_bit 33 h;
          h = h * 0xff51afd7ed558ccd;
          h = h XOR drop_bit 33 h;
          h = h * 0xc4ceb9fe1a85ec53
      in h XOR drop_bit 33 h)"

definition hash_thread_id :: "u64 \<Rightarrow> u64" where
  "hash_thread_id tid = hash_64 tid"

definition circular_less_than :: "u64 \<Rightarrow> u64 \<Rightarrow> bool" where
  "circular_less_than a b \<longleftrightarrow> a - b > push_bit 63 1"

definition ceil_to_pow_2 :: "u64 \<Rightarrow> u64" where
  "ceil_to_pow_2 x =
     (let x = x - 1;
          x = x OR drop_bit 1 x;
          x = x OR drop_bit 2 x;
          x = x OR drop_bit 4 x;
          x = fold (\<lambda>i x. x OR drop_bit (i * 8) x) [1, 2, 4] x
      in x + 1)"

definition swap_relaxed :: "'a \<Rightarrow> 'a \<Rightarrow> 'a \<times> 'a" where
  "swap_relaxed left right = (let temp = left; left = right; right = temp in (left, right))"

subsection \<open>Lemmas\<close>

lemma MAX_SUBQUEUE_SIZE_eq [simp]: "MAX_SUBQUEUE_SIZE = const_numeric_max"
  by (simp add: MAX_SUBQUEUE_SIZE_def BLOCK_SIZE_def)

lemma xorshift_inject:
  fixes x y :: u64
  assumes "x XOR drop_bit 33 x = y XOR drop_bit 33 y"
  shows "x = y"
proof -
  have b: "(bit x n \<noteq> bit x (n + 33)) = (bit y n \<noteq> bit y (n + 33))" for n
    using arg_cong [OF assms, of "\<lambda>w. bit w n"] by (simp add: bit_xor_iff bit_drop_bit_eq add.commute)
  have hi: "bit x n = bit y n" if "31 \<le> n" for n
    using b [of n] that bit_imp_le_length [of x "n + 33"] bit_imp_le_length [of y "n + 33"] by auto
  have "bit x n = bit y n" for n
    using b [of n] hi [of "n + 33"] by auto
  then show ?thesis by (intro bit_eqI) blast
qed

lemma mult_unit_inject:
  fixes c d x y :: u64
  assumes "c * d = 1" "x * c = y * c"
  shows "x = y"
proof -
  have "x * c * d = y * c * d" using assms(2) by simp
  then show ?thesis by (simp add: mult.assoc assms(1))
qed

text \<open>Indices that are less than \<open>2 ^ 63\<close> apart compare like the numbers they stand for.\<close>

lemma unat_push63: "unat (push_bit 63 1 :: u64) = 2 ^ 63"
  by simp

lemma unat_diff_of_nat:
  assumes "b \<le> a" "a - b < 2 ^ 64"
  shows "unat (of_nat a - of_nat b :: u64) = a - b"
proof -
  have "(of_nat a - of_nat b :: u64) = of_nat (a - b)" using assms(1) by (simp add: of_nat_diff)
  then show ?thesis using assms(2) by (simp add: unat_of_nat)
qed

lemma circular_less_than_of_nat:
  assumes "a < b" "b - a < 2 ^ 63"
  shows "circular_less_than (of_nat a) (of_nat b)" "\<not> circular_less_than (of_nat b) (of_nat a)"
proof -
  have "(of_nat b :: u64) + of_nat (2 ^ 64 - (b - a)) = of_nat (2 ^ 64 + a)"
    using assms by (simp flip: of_nat_add)
  also have "\<dots> = of_nat a" by simp
  finally have e: "(of_nat a - of_nat b :: u64) = of_nat (2 ^ 64 - (b - a))" by (simp add: algebra_simps)
  have "unat (of_nat a - of_nat b :: u64) = 2 ^ 64 - (b - a)"
    unfolding e unat_of_nat using assms by simp
  then show "circular_less_than (of_nat a) (of_nat b)"
    unfolding circular_less_than_def word_less_nat_alt unat_push63 using assms by simp
  show "\<not> circular_less_than (of_nat b) (of_nat a)"
    unfolding circular_less_than_def word_less_nat_alt unat_push63
    using unat_diff_of_nat [of a b] assms by simp
qed

lemma circular_less_than_irrefl [simp]: "\<not> circular_less_than a a"
  by (simp add: circular_less_than_def)

lemma circular_less_than_iff:
  assumes "a \<le> b" "b - a < 2 ^ 63"
  shows "circular_less_than (of_nat a) (of_nat b) \<longleftrightarrow> a < b"
  using circular_less_than_of_nat [of a b] assms by (cases "a = b") auto

subsection \<open>Properties\<close>

text \<open>
  The comparison of wrapping indices is the order of the positions they count, as long as the two
  positions are less than \<open>2 ^ 63\<close> apart, on both sides of a wrap-around of the 64-bit counters.
\<close>

theorem circular_less_than_spec:
  assumes "a \<le> b + 2 ^ 63 - 1" "b \<le> a + 2 ^ 63 - 1"
  shows "circular_less_than (of_nat a) (of_nat b) \<longleftrightarrow> a < b"
proof (cases "a \<le> b")
  case True
  then show ?thesis using circular_less_than_iff [of a b] assms(2) by simp
next
  case False
  then show ?thesis using circular_less_than_of_nat(2) [of b a] assms(1) by simp
qed

theorem circular_less_than_spec_witness:
  "circular_less_than (of_nat (2 ^ 64 - 1)) (of_nat (2 ^ 64 + 5)) \<and> of_nat (2 ^ 64 + 5) = (5 :: u64)"
  using circular_less_than_spec [of "2 ^ 64 - 1" "2 ^ 64 + 5"] by simp

text \<open>
  The hash of thread identifiers is injective: it loses nothing, so that two threads collide only after the
  hash is cut to the table size.
\<close>

theorem hash_thread_id_injective: "hash_thread_id a = hash_thread_id b \<longleftrightarrow> a = b"
proof
  assume "hash_thread_id a = hash_thread_id b"
  then have 1: "(let h = a XOR drop_bit 33 a; h = h * 0xff51afd7ed558ccd; h = h XOR drop_bit 33 h in h * 0xc4ceb9fe1a85ec53)
      = (let h = b XOR drop_bit 33 b; h = h * 0xff51afd7ed558ccd; h = h XOR drop_bit 33 h in h * 0xc4ceb9fe1a85ec53)"
    unfolding hash_thread_id_def hash_64_def Let_def by (rule xorshift_inject)
  have 2: "(let h = a XOR drop_bit 33 a; h = h * 0xff51afd7ed558ccd in h XOR drop_bit 33 h)
      = (let h = b XOR drop_bit 33 b; h = h * 0xff51afd7ed558ccd in h XOR drop_bit 33 h)"
    using 1 unfolding Let_def by (rule mult_unit_inject [of "0xc4ceb9fe1a85ec53" "0x9cb4b2f8129337db", rotated]) simp
  have 3: "(a XOR drop_bit 33 a) * 0xff51afd7ed558ccd = (b XOR drop_bit 33 b) * 0xff51afd7ed558ccd"
    using 2 unfolding Let_def by (rule xorshift_inject)
  have "a XOR drop_bit 33 a = b XOR drop_bit 33 b"
    using 3 by (rule mult_unit_inject [of "0xff51afd7ed558ccd" "0x4f74430c22a54005", rotated]) simp
  then show "a = b" by (rule xorshift_inject)
qed simp

end
