(* ===== verification/BlockPool.thy ===== *)
theory BlockPool
  imports QueueUtils
begin

text \<open>
  \<open>source/utils/concurrentqueue.h\<close>: \<open>Block\<close>, the blocks of the queue and how they record which of their slots were
  dequeued; \<open>FreeList\<close>, the list of blocks that nobody uses; and the block pool of the queue (the
  array allocated up front, the free list, and the heap).

  Blocks live in a list, a \<open>Block*\<close> is an index into it and \<open>None\<close> the null pointer. The array allocated
  by the constructor of the queue is the first \<open>initialBlockPoolSize\<close> blocks. An element slot without
  an object is \<open>None\<close>. One operation runs at a time: a compare-and-swap on a value that was just loaded succeeds.
  A failed \<open>assert\<close>, a null pointer, and a loop that no other thread can end are errors of the model.
\<close>

datatype cq_error = Cq_assertion_failed | Cq_null_pointer | Cq_bad_slot | Cq_diverges

datatype InnerQueueContext = implicit_context | explicit_context

record 'a cblock =
  elements :: "'a option list"
  block_next :: "nat option"
  elementsCompletelyDequeued :: u64
  emptyFlags :: "bool list"
  freeListRefs :: u32
  freeListNext :: "nat option"
  dynamicallyAllocated :: bool

subsection \<open>Block\<close>

definition EXPLICIT_BLOCK_EMPTY_COUNTER_THRESHOLD :: u64 where
  "EXPLICIT_BLOCK_EMPTY_COUNTER_THRESHOLD = 32"

definition CBlock_new :: "'a cblock" where
  "CBlock_new =
     \<lparr>elements = replicate (unat BLOCK_SIZE) None, block_next = None, elementsCompletelyDequeued = 0,
      emptyFlags = replicate (unat BLOCK_SIZE) False, freeListRefs = 0, freeListNext = None,
      dynamicallyAllocated = True\<rparr>"

definition uses_flags :: "InnerQueueContext \<Rightarrow> bool" where
  "uses_flags ctx \<longleftrightarrow> ctx = explicit_context \<and> BLOCK_SIZE \<le> EXPLICIT_BLOCK_EMPTY_COUNTER_THRESHOLD"

text \<open>\<open>operator[]\<close>: the slot of an index.\<close>

definition slot :: "u64 \<Rightarrow> nat" where
  "slot idx = unat (idx AND (BLOCK_SIZE - 1))"

definition is_empty :: "InnerQueueContext \<Rightarrow> 'a cblock \<Rightarrow> cq_error + bool" where
  "is_empty ctx b =
     (if uses_flags ctx then Inr (\<forall>i \<in> set [0..<unat BLOCK_SIZE]. emptyFlags b ! i)
      else if elementsCompletelyDequeued b = BLOCK_SIZE then Inr True
      else if elementsCompletelyDequeued b \<le> BLOCK_SIZE then Inr False
      else Inl Cq_assertion_failed)"

definition set_empty :: "InnerQueueContext \<Rightarrow> u64 \<Rightarrow> 'a cblock \<Rightarrow> cq_error + bool \<times> 'a cblock" where
  "set_empty ctx i b =
     (if uses_flags ctx then
        let f = unat BLOCK_SIZE - 1 - slot i
        in if emptyFlags b ! f then Inl Cq_assertion_failed
           else Inr (False, b\<lparr>emptyFlags := (emptyFlags b)[f := True]\<rparr>)
      else
        let prevVal = elementsCompletelyDequeued b
        in if prevVal < BLOCK_SIZE
           then Inr (prevVal = BLOCK_SIZE - 1, b\<lparr>elementsCompletelyDequeued := prevVal + 1\<rparr>)
           else Inl Cq_assertion_failed)"

fun set_flags :: "nat \<Rightarrow> nat \<Rightarrow> 'a cblock \<Rightarrow> cq_error + 'a cblock" where
  "set_flags i 0 b = Inr b"
| "set_flags i (Suc n) b =
     (if emptyFlags b ! i then Inl Cq_assertion_failed
      else set_flags (i + 1) n (b\<lparr>emptyFlags := (emptyFlags b)[i := True]\<rparr>))"

definition set_many_empty :: "InnerQueueContext \<Rightarrow> u64 \<Rightarrow> nat \<Rightarrow> 'a cblock \<Rightarrow> cq_error + bool \<times> 'a cblock" where
  "set_many_empty ctx i count b =
     (if uses_flags ctx then
        let i = unat BLOCK_SIZE - 1 - slot i + 1 - count
        in bindE (set_flags i count b) (\<lambda>b. Inr (False, b))
      else
        let prevVal = elementsCompletelyDequeued b
        in if prevVal + of_nat count \<le> BLOCK_SIZE
           then Inr (prevVal + of_nat count = BLOCK_SIZE, b\<lparr>elementsCompletelyDequeued := prevVal + of_nat count\<rparr>)
           else Inl Cq_assertion_failed)"

definition set_all_empty :: "InnerQueueContext \<Rightarrow> 'a cblock \<Rightarrow> 'a cblock" where
  "set_all_empty ctx b =
     (if uses_flags ctx then b\<lparr>emptyFlags := replicate (unat BLOCK_SIZE) True\<rparr>
      else b\<lparr>elementsCompletelyDequeued := BLOCK_SIZE\<rparr>)"

definition reset_empty :: "InnerQueueContext \<Rightarrow> 'a cblock \<Rightarrow> 'a cblock" where
  "reset_empty ctx b =
     (if uses_flags ctx then b\<lparr>emptyFlags := replicate (unat BLOCK_SIZE) False\<rparr>
      else b\<lparr>elementsCompletelyDequeued := 0\<rparr>)"

subsection \<open>FreeList\<close>

record 'a pool =
  cblocks :: "'a cblock list"
  freeListHead :: "nat option"
  initialBlockPoolIndex :: u64
  initialBlockPoolSize :: u64

definition REFS_MASK :: u32 where
  "REFS_MASK = 0x7FFFFFFF"

definition SHOULD_BE_ON_FREELIST :: u32 where
  "SHOULD_BE_ON_FREELIST = 0x80000000"

abbreviation upd_cblock :: "nat \<Rightarrow> ('a cblock \<Rightarrow> 'a cblock) \<Rightarrow> 'a pool \<Rightarrow> 'a pool" where
  "upd_cblock n f P \<equiv> P\<lparr>cblocks := (cblocks P)[n := f (cblocks P ! n)]\<rparr>"

definition add_knowing_refcount_is_zero :: "nat \<Rightarrow> 'a pool \<Rightarrow> 'a pool" where
  "add_knowing_refcount_is_zero node P =
     (let head = freeListHead P;
          P = upd_cblock node (\<lambda>b. b\<lparr>freeListNext := head, freeListRefs := 1\<rparr>) P
      in P\<lparr>freeListHead := Some node\<rparr>)"

definition free_list_add :: "nat \<Rightarrow> 'a pool \<Rightarrow> 'a pool" where
  "free_list_add node P =
     (let refs = freeListRefs (cblocks P ! node);
          P = upd_cblock node (\<lambda>b. b\<lparr>freeListRefs := refs + SHOULD_BE_ON_FREELIST\<rparr>) P
      in if refs = 0 then add_knowing_refcount_is_zero node P else P)"

definition free_list_try_get :: "'a pool \<Rightarrow> cq_error + nat option \<times> 'a pool" where
  "free_list_try_get P =
     (case freeListHead P of
        None \<Rightarrow> Inr (None, P)
      | Some head \<Rightarrow>
          let refs = freeListRefs (cblocks P ! head)
          in if refs AND REFS_MASK = 0 then Inl Cq_diverges
             else
               let P = upd_cblock head (\<lambda>b. b\<lparr>freeListRefs := refs + 1\<rparr>) P;
                   next_node = freeListNext (cblocks P ! head);
                   P = P\<lparr>freeListHead := next_node\<rparr>
               in if freeListRefs (cblocks P ! head) AND SHOULD_BE_ON_FREELIST \<noteq> 0 then Inl Cq_assertion_failed
                  else Inr (Some head, upd_cblock head (\<lambda>b. b\<lparr>freeListRefs := freeListRefs b - 2\<rparr>) P))"

subsection \<open>The block pool\<close>

definition pool_init :: "'a pool" where
  "pool_init = \<lparr>cblocks = [], freeListHead = None, initialBlockPoolIndex = 0, initialBlockPoolSize = 0\<rparr>"

definition populate_initial_block_list :: "bool \<Rightarrow> u64 \<Rightarrow> 'a pool \<Rightarrow> 'a pool" where
  "populate_initial_block_list malloc_ok blockCount P =
     (if blockCount = 0 then P\<lparr>initialBlockPoolSize := 0\<rparr>
      else if \<not> malloc_ok then P\<lparr>initialBlockPoolSize := 0\<rparr>
      else P\<lparr>initialBlockPoolSize := blockCount,
             cblocks := replicate (unat blockCount) (CBlock_new\<lparr>dynamicallyAllocated := False\<rparr>)\<rparr>)"

definition try_get_block_from_initial_pool :: "'a pool \<Rightarrow> nat option \<times> 'a pool" where
  "try_get_block_from_initial_pool P =
     (if initialBlockPoolIndex P \<ge> initialBlockPoolSize P then (None, P)
      else
        let index = initialBlockPoolIndex P;
            P = P\<lparr>initialBlockPoolIndex := index + 1\<rparr>
        in (if index < initialBlockPoolSize P then Some (unat index) else None, P))"

definition add_block_to_free_list :: "nat \<Rightarrow> 'a pool \<Rightarrow> 'a pool" where
  "add_block_to_free_list block P = free_list_add block P"

definition try_get_block_from_free_list :: "'a pool \<Rightarrow> cq_error + nat option \<times> 'a pool" where
  "try_get_block_from_free_list P = free_list_try_get P"

text \<open>\<open>create<Block>()\<close>\<close>

definition create_block :: "bool \<Rightarrow> 'a pool \<Rightarrow> nat option \<times> 'a pool" where
  "create_block malloc_ok P =
     (if malloc_ok then (Some (length (cblocks P)), P\<lparr>cblocks := cblocks P @ [CBlock_new]\<rparr>) else (None, P))"

definition requisition_block :: "alloc_mode \<Rightarrow> bool \<Rightarrow> 'a pool \<Rightarrow> cq_error + nat option \<times> 'a pool" where
  "requisition_block canAlloc malloc_ok P =
     (case try_get_block_from_initial_pool P of
        (Some block, P) \<Rightarrow> Inr (Some block, P)
      | (None, P) \<Rightarrow>
          bindE (try_get_block_from_free_list P)
            (\<lambda>(r, P). case r of
               Some block \<Rightarrow> Inr (Some block, P)
             | None \<Rightarrow> if canAlloc = Can_alloc then Inr (create_block malloc_ok P) else Inr (None, P)))"

subsection \<open>The pool as a set of free blocks\<close>

text \<open>\<open>free_chain P h fs\<close>: following \<open>freeListNext\<close> from \<open>h\<close> visits the nodes \<open>fs\<close> and ends.\<close>

fun free_chain :: "'a cblock list \<Rightarrow> nat option \<Rightarrow> nat list \<Rightarrow> bool" where
  "free_chain bs h [] = (h = None)"
| "free_chain bs h (n # fs) = (h = Some n \<and> free_chain bs (freeListNext (bs ! n)) fs)"

definition unused :: "'a pool \<Rightarrow> nat set" where
  "unused P = {unat (initialBlockPoolIndex P)..<unat (initialBlockPoolSize P)}"

definition raw_block :: "'a cblock \<Rightarrow> bool" where
  "raw_block b \<longleftrightarrow> elements b = replicate (unat BLOCK_SIZE) None"

definition block_wf :: "'a cblock \<Rightarrow> bool" where
  "block_wf b \<longleftrightarrow> length (elements b) = unat BLOCK_SIZE \<and> length (emptyFlags b) = unat BLOCK_SIZE"

text \<open>The blocks of the initial array come first, every other block was allocated alone.\<close>

definition alloc_ok :: "'a pool \<Rightarrow> bool" where
  "alloc_ok P \<longleftrightarrow> unat (initialBlockPoolSize P) \<le> length (cblocks P)
     \<and> (\<forall>n < length (cblocks P). dynamicallyAllocated (cblocks P ! n) \<longleftrightarrow> unat (initialBlockPoolSize P) \<le> n)"

lemma alloc_ok_cong:
  assumes "alloc_ok P" "initialBlockPoolSize P' = initialBlockPoolSize P" "length (cblocks P') = length (cblocks P)"
    "\<And>n. n < length (cblocks P) \<Longrightarrow> dynamicallyAllocated (cblocks P' ! n) = dynamicallyAllocated (cblocks P ! n)"
  shows "alloc_ok P'"
  using assms by (simp add: alloc_ok_def)

lemma alloc_ok_upd:
  "alloc_ok P \<Longrightarrow> dynamicallyAllocated b = dynamicallyAllocated (cblocks P ! n) \<Longrightarrow> alloc_ok (P\<lparr>cblocks := (cblocks P)[n := b]\<rparr>)"
  by (cases "n < length (cblocks P)") (auto simp: alloc_ok_def nth_list_update list_update_beyond)

lemma alloc_ok_other [simp]:
  "alloc_ok (freeListHead_update f P) = alloc_ok P" "alloc_ok (initialBlockPoolIndex_update g P) = alloc_ok P"
  by (simp_all add: alloc_ok_def)

text \<open>
  \<open>pool_rep P F\<close>: the blocks \<open>F\<close> are free (in the initial array and not yet handed out, or on the free
  list); every free block is raw memory; only the blocks on the free list are referenced by it.
\<close>

definition pool_rep :: "'a pool \<Rightarrow> nat set \<Rightarrow> bool" where
  "pool_rep P F \<longleftrightarrow> (\<exists>fs. free_chain (cblocks P) (freeListHead P) fs \<and> distinct fs
     \<and> F = set fs \<union> unused P \<and> set fs \<inter> unused P = {} \<and> F \<subseteq> {..<length (cblocks P)}
     \<and> (\<forall>n < length (cblocks P). freeListRefs (cblocks P ! n) = (if n \<in> set fs then 1 else 0))
     \<and> (\<forall>n \<in> F. raw_block (cblocks P ! n))
     \<and> (\<forall>b \<in> set (cblocks P). block_wf b) \<and> alloc_ok P)"

lemma BLOCK_SIZE_nat [simp]: "unat BLOCK_SIZE = 32"
  by (simp add: BLOCK_SIZE_def)

lemma CBlock_new_wf [simp]: "block_wf CBlock_new" "raw_block CBlock_new" "freeListRefs CBlock_new = 0"
  "block_wf (CBlock_new\<lparr>dynamicallyAllocated := x\<rparr>)" "raw_block (CBlock_new\<lparr>dynamicallyAllocated := x\<rparr>)"
  "freeListRefs (CBlock_new\<lparr>dynamicallyAllocated := x\<rparr>) = 0"
  by (simp_all add: block_wf_def raw_block_def CBlock_new_def)

lemma free_chain_cong:
  assumes "\<And>n. n \<in> set fs \<Longrightarrow> freeListNext (bs' ! n) = freeListNext (bs ! n)"
  shows "free_chain bs' h fs = free_chain bs h fs"
  using assms by (induction fs arbitrary: h) auto

lemma pool_repE:
  assumes "pool_rep P F"
  obtains fs where "free_chain (cblocks P) (freeListHead P) fs" "distinct fs" "F = set fs \<union> unused P"
    "set fs \<inter> unused P = {}" "F \<subseteq> {..<length (cblocks P)}"
    "\<And>n. n < length (cblocks P) \<Longrightarrow> freeListRefs (cblocks P ! n) = (if n \<in> set fs then 1 else 0)"
    "\<And>n. n \<in> F \<Longrightarrow> raw_block (cblocks P ! n)" "\<And>b. b \<in> set (cblocks P) \<Longrightarrow> block_wf b" "alloc_ok P"
  using assms unfolding pool_rep_def by blast

lemma pool_repI:
  assumes "free_chain (cblocks P) (freeListHead P) fs" "distinct fs" "F = set fs \<union> unused P"
    "set fs \<inter> unused P = {}" "F \<subseteq> {..<length (cblocks P)}"
    "\<And>n. n < length (cblocks P) \<Longrightarrow> freeListRefs (cblocks P ! n) = (if n \<in> set fs then 1 else 0)"
    "\<And>n. n \<in> F \<Longrightarrow> raw_block (cblocks P ! n)" "\<And>b. b \<in> set (cblocks P) \<Longrightarrow> block_wf b" "alloc_ok P"
  shows "pool_rep P F"
  unfolding pool_rep_def using assms by blast

lemma pool_rep_wf: "pool_rep P F \<Longrightarrow> n < length (cblocks P) \<Longrightarrow> block_wf (cblocks P ! n)"
  by (erule pool_repE) (meson nth_mem)

lemma set_upd_cases: "b \<in> set (xs[i := y]) \<Longrightarrow> b = y \<or> b \<in> set xs"
  by (meson insert_iff set_update_subset_insert subsetD)

text \<open>
  A block in use may be written freely: the pool only cares for its reference count.
\<close>

lemma pool_rep_write [inv_intros]:
  assumes rep: "pool_rep P F" and n: "n \<notin> F" and f: "freeListRefs (f (cblocks P ! n)) = freeListRefs (cblocks P ! n)"
    and w: "block_wf (f (cblocks P ! n))" and d: "dynamicallyAllocated (f (cblocks P ! n)) = dynamicallyAllocated (cblocks P ! n)"
  shows "pool_rep (upd_cblock n f P) F"
proof (rule pool_repE [OF rep])
  fix fs assume a: "free_chain (cblocks P) (freeListHead P) fs" "distinct fs" "F = set fs \<union> unused P"
    "set fs \<inter> unused P = {}" "F \<subseteq> {..<length (cblocks P)}"
    "\<And>n. n < length (cblocks P) \<Longrightarrow> freeListRefs (cblocks P ! n) = (if n \<in> set fs then 1 else 0)"
    "\<And>n. n \<in> F \<Longrightarrow> raw_block (cblocks P ! n)" "\<And>b. b \<in> set (cblocks P) \<Longrightarrow> block_wf b" "alloc_ok P"
  have neq: "m \<noteq> n" if "m \<in> F" for m using that n by auto
  show ?thesis
  proof (rule pool_repI)
    show "free_chain (cblocks (upd_cblock n f P)) (freeListHead (upd_cblock n f P)) fs"
    proof -
      have "free_chain ((cblocks P)[n := f (cblocks P ! n)]) (freeListHead P) fs = free_chain (cblocks P) (freeListHead P) fs"
        using a(3) n by (intro free_chain_cong) (metis UnI1 nth_list_update_neq)
      then show ?thesis using a(1) by simp
    qed
    show "freeListRefs (cblocks (upd_cblock n f P) ! m) = (if m \<in> set fs then 1 else 0)"
      if "m < length (cblocks (upd_cblock n f P))" for m
      using that a(6) [of m] f by (cases "m = n") auto
    show "raw_block (cblocks (upd_cblock n f P) ! m)" if "m \<in> F" for m
      using a(7) [OF that] neq [OF that] by simp
    show "block_wf b" if "b \<in> set (cblocks (upd_cblock n f P))" for b
      using set_upd_cases [of b "cblocks P" n] that a(8) w by auto
    show "alloc_ok (upd_cblock n f P)" using a(9) d by (rule alloc_ok_upd)
  qed (use a in \<open>auto simp: unused_def\<close>)
qed

lemma pool_rep_add:
  assumes rep: "pool_rep P F" and n: "n \<notin> F" "n < length (cblocks P)" and raw: "raw_block (cblocks P ! n)"
  shows "pool_rep (add_block_to_free_list n P) (insert n F)"
    "length (cblocks (add_block_to_free_list n P)) = length (cblocks P)"
    "\<And>m. m \<noteq> n \<Longrightarrow> cblocks (add_block_to_free_list n P) ! m = cblocks P ! m"
proof -
  obtain fs where a: "free_chain (cblocks P) (freeListHead P) fs" "distinct fs" "F = set fs \<union> unused P"
    "set fs \<inter> unused P = {}" "F \<subseteq> {..<length (cblocks P)}"
    "\<And>n. n < length (cblocks P) \<Longrightarrow> freeListRefs (cblocks P ! n) = (if n \<in> set fs then 1 else 0)"
    "\<And>n. n \<in> F \<Longrightarrow> raw_block (cblocks P ! n)" "\<And>b. b \<in> set (cblocks P) \<Longrightarrow> block_wf b" "alloc_ok P"
    using pool_repE [OF rep] by metis
  have z: "freeListRefs (cblocks P ! n) = 0" using a(3,6) n by simp
  let ?b = "(cblocks P ! n)\<lparr>freeListNext := freeListHead P, freeListRefs := 1\<rparr>"
  have e: "add_block_to_free_list n P = P\<lparr>cblocks := (cblocks P)[n := ?b], freeListHead := Some n\<rparr>"
    using z n(2) by (simp add: add_block_to_free_list_def free_list_add_def add_knowing_refcount_is_zero_def Let_def)
  have nfs: "n \<notin> set fs" "n \<notin> unused P" using n(1) a(3) by auto
  show "pool_rep (add_block_to_free_list n P) (insert n F)"
    unfolding e
  proof (rule pool_repI [where fs = "n # fs"])
    have "free_chain ((cblocks P)[n := ?b]) (freeListHead P) fs = free_chain (cblocks P) (freeListHead P) fs"
      using nfs by (intro free_chain_cong) (metis nth_list_update_neq)
    then show "free_chain (cblocks (P\<lparr>cblocks := (cblocks P)[n := ?b], freeListHead := Some n\<rparr>))
        (freeListHead (P\<lparr>cblocks := (cblocks P)[n := ?b], freeListHead := Some n\<rparr>)) (n # fs)"
      using a(1) n(2) by simp
    show "freeListRefs (cblocks (P\<lparr>cblocks := (cblocks P)[n := ?b], freeListHead := Some n\<rparr>) ! m)
        = (if m \<in> set (n # fs) then 1 else 0)"
      if "m < length (cblocks (P\<lparr>cblocks := (cblocks P)[n := ?b], freeListHead := Some n\<rparr>))" for m
      using that a(6) [of m] by (cases "m = n") auto
    show "raw_block (cblocks (P\<lparr>cblocks := (cblocks P)[n := ?b], freeListHead := Some n\<rparr>) ! m)" if "m \<in> insert n F" for m
      using that a(7) raw n by (cases "m = n") (auto simp: raw_block_def)
    show "block_wf b" if "b \<in> set (cblocks (P\<lparr>cblocks := (cblocks P)[n := ?b], freeListHead := Some n\<rparr>))" for b
      using set_upd_cases [of b "cblocks P" n ?b] that a(8) pool_rep_wf [OF rep n(2)] by (auto simp: block_wf_def)
    show "alloc_ok (P\<lparr>cblocks := (cblocks P)[n := ?b], freeListHead := Some n\<rparr>)"
      using alloc_ok_upd [OF a(9), of ?b n] by (simp add: alloc_ok_def)
  qed (use a nfs n in \<open>auto simp: unused_def\<close>)
  show "length (cblocks (add_block_to_free_list n P)) = length (cblocks P)"
    "\<And>m. m \<noteq> n \<Longrightarrow> cblocks (add_block_to_free_list n P) ! m = cblocks P ! m"
    unfolding e by simp_all
qed


text \<open>Taking a block out of the pool.\<close>

lemma pool_rep_initial:
  assumes rep: "pool_rep P F" and lt: "initialBlockPoolIndex P < initialBlockPoolSize P"
  shows "\<exists>n \<in> F. try_get_block_from_initial_pool P = (Some n, P\<lparr>initialBlockPoolIndex := initialBlockPoolIndex P + 1\<rparr>)
    \<and> pool_rep (P\<lparr>initialBlockPoolIndex := initialBlockPoolIndex P + 1\<rparr>) (F - {n})"
proof -
  obtain fs where a: "free_chain (cblocks P) (freeListHead P) fs" "distinct fs" "F = set fs \<union> unused P"
    "set fs \<inter> unused P = {}" "F \<subseteq> {..<length (cblocks P)}"
    "\<And>n. n < length (cblocks P) \<Longrightarrow> freeListRefs (cblocks P ! n) = (if n \<in> set fs then 1 else 0)"
    "\<And>n. n \<in> F \<Longrightarrow> raw_block (cblocks P ! n)" "\<And>b. b \<in> set (cblocks P) \<Longrightarrow> block_wf b" "alloc_ok P"
    using pool_repE [OF rep] by metis
  let ?n = "unat (initialBlockPoolIndex P)"
  have l: "?n < unat (initialBlockPoolSize P)" using lt by (simp add: word_less_nat_alt)
  have s: "unat (initialBlockPoolIndex P + 1) = ?n + 1"
    using l unat_less_2_64 [of "initialBlockPoolSize P"] by (simp add: unat_word_ariths)
  have u: "unused (P\<lparr>initialBlockPoolIndex := initialBlockPoolIndex P + 1\<rparr>) = unused P - {?n}"
    by (auto simp: unused_def s)
  have nU: "?n \<in> unused P" using l by (simp add: unused_def)
  have "pool_rep (P\<lparr>initialBlockPoolIndex := initialBlockPoolIndex P + 1\<rparr>) (F - {?n})"
  proof (rule pool_repI [where fs = fs])
    show "F - {?n} = set fs \<union> unused (P\<lparr>initialBlockPoolIndex := initialBlockPoolIndex P + 1\<rparr>)"
      unfolding u using a(3,4) nU by auto
    show "set fs \<inter> unused (P\<lparr>initialBlockPoolIndex := initialBlockPoolIndex P + 1\<rparr>) = {}"
      unfolding u using a(4) by auto
  qed (use a in auto)
  moreover have "?n \<in> F" using nU a(3) by simp
  ultimately show ?thesis
    using lt by (intro bexI [of _ ?n]) (simp_all add: try_get_block_from_initial_pool_def Let_def leD)
qed

lemma refs_one: "(1 :: u32) AND REFS_MASK \<noteq> 0" "(1 + 1 :: u32) AND SHOULD_BE_ON_FREELIST = 0"
  by (simp_all add: REFS_MASK_def SHOULD_BE_ON_FREELIST_def)

lemma pool_rep_try_get:
  assumes rep: "pool_rep P F"
  shows "\<exists>r P'. try_get_block_from_free_list P = Inr (r, P') \<and> length (cblocks P') = length (cblocks P)
    \<and> initialBlockPoolIndex P' = initialBlockPoolIndex P \<and> initialBlockPoolSize P' = initialBlockPoolSize P
    \<and> (case r of None \<Rightarrow> P' = P \<and> F = unused P
        | Some n \<Rightarrow> n \<in> F \<and> pool_rep P' (F - {n}) \<and> (\<forall>m. m \<noteq> n \<longrightarrow> cblocks P' ! m = cblocks P ! m)
            \<and> raw_block (cblocks P' ! n))"
proof -
  obtain fs where a: "free_chain (cblocks P) (freeListHead P) fs" "distinct fs" "F = set fs \<union> unused P"
    "set fs \<inter> unused P = {}" "F \<subseteq> {..<length (cblocks P)}"
    "\<And>n. n < length (cblocks P) \<Longrightarrow> freeListRefs (cblocks P ! n) = (if n \<in> set fs then 1 else 0)"
    "\<And>n. n \<in> F \<Longrightarrow> raw_block (cblocks P ! n)" "\<And>b. b \<in> set (cblocks P) \<Longrightarrow> block_wf b" "alloc_ok P"
    using pool_repE [OF rep] by metis
  show ?thesis
  proof (cases fs)
    case Nil
    then show ?thesis
      using a(1,3) by (simp add: try_get_block_from_free_list_def free_list_try_get_def)
  next
    case (Cons n gs)
    have h: "freeListHead P = Some n" and c: "free_chain (cblocks P) (freeListNext (cblocks P ! n)) gs"
      using a(1) Cons by auto
    have n: "n < length (cblocks P)" "n \<in> F" using a(3,5) Cons by auto
    have r: "freeListRefs (cblocks P ! n) = 1" using a(6) [OF n(1)] Cons by simp
    let ?b = "(cblocks P ! n)\<lparr>freeListRefs := 0\<rparr>"
    let ?P = "P\<lparr>cblocks := (cblocks P)[n := ?b], freeListHead := freeListNext (cblocks P ! n)\<rparr>"
    have e: "try_get_block_from_free_list P = Inr (Some n, ?P)"
      using h r n(1) refs_one
      by (simp add: try_get_block_from_free_list_def free_list_try_get_def Let_def)
    have raw: "raw_block ?b" using a(7) [OF n(2)] by (simp add: raw_block_def)
    have "pool_rep ?P (F - {n})"
    proof (rule pool_repI [where fs = gs])
      have "free_chain ((cblocks P)[n := ?b]) (freeListNext (cblocks P ! n)) gs
          = free_chain (cblocks P) (freeListNext (cblocks P ! n)) gs"
        using a(2) Cons by (intro free_chain_cong) (metis distinct.simps(2) nth_list_update_neq)
      then show "free_chain (cblocks ?P) (freeListHead ?P) gs" using c by simp
      show "F - {n} = set gs \<union> unused ?P" using a(2-4) Cons by (auto simp: unused_def)
      show "freeListRefs (cblocks ?P ! m) = (if m \<in> set gs then 1 else 0)" if "m < length (cblocks ?P)" for m
        using that a(2) a(6) [of m] Cons by (cases "m = n") auto
      show "raw_block (cblocks ?P ! m)" if "m \<in> F - {n}" for m using that a(7) [of m] by simp
      show "block_wf b" if "b \<in> set (cblocks ?P)" for b
        using set_upd_cases [of b "cblocks P" n ?b] that a(8) pool_rep_wf [OF rep n(1)] by (auto simp: block_wf_def)
      show "alloc_ok ?P" using alloc_ok_upd [OF a(9), of ?b n] by (simp add: alloc_ok_def)
    qed (use a Cons in \<open>auto simp: unused_def\<close>)
    then show ?thesis using e n raw by simp
  qed
qed

lemma pool_rep_create:
  assumes "pool_rep P F"
  shows "pool_rep (P\<lparr>cblocks := cblocks P @ [CBlock_new]\<rparr>) F"
proof (rule pool_repE [OF assms])
  fix fs assume a: "free_chain (cblocks P) (freeListHead P) fs" "distinct fs" "F = set fs \<union> unused P"
    "set fs \<inter> unused P = {}" "F \<subseteq> {..<length (cblocks P)}"
    "\<And>n. n < length (cblocks P) \<Longrightarrow> freeListRefs (cblocks P ! n) = (if n \<in> set fs then 1 else 0)"
    "\<And>n. n \<in> F \<Longrightarrow> raw_block (cblocks P ! n)" "\<And>b. b \<in> set (cblocks P) \<Longrightarrow> block_wf b" "alloc_ok P"
  have b: "m < length (cblocks P)" if "m \<in> F" for m using that a(5) by auto
  show ?thesis
  proof (rule pool_repI [where fs = fs])
    have "free_chain (cblocks P @ [CBlock_new]) (freeListHead P) fs = free_chain (cblocks P) (freeListHead P) fs"
      using b a(3) by (intro free_chain_cong) (auto simp: nth_append)
    then show "free_chain (cblocks (P\<lparr>cblocks := cblocks P @ [CBlock_new]\<rparr>))
        (freeListHead (P\<lparr>cblocks := cblocks P @ [CBlock_new]\<rparr>)) fs" using a(1) by simp
    show "freeListRefs (cblocks (P\<lparr>cblocks := cblocks P @ [CBlock_new]\<rparr>) ! m) = (if m \<in> set fs then 1 else 0)"
      if "m < length (cblocks (P\<lparr>cblocks := cblocks P @ [CBlock_new]\<rparr>))" for m
      using that a(6) [of m] b [of m] a(3) by (auto simp: nth_append less_Suc_eq)
    show "raw_block (cblocks (P\<lparr>cblocks := cblocks P @ [CBlock_new]\<rparr>) ! m)" if "m \<in> F" for m
      using a(7) [OF that] b [OF that] by (simp add: nth_append)
    show "alloc_ok (P\<lparr>cblocks := cblocks P @ [CBlock_new]\<rparr>)"
      using a(9) by (auto simp: alloc_ok_def nth_append less_Suc_eq CBlock_new_def)
  qed (use a b in \<open>auto simp: unused_def less_Suc_eq\<close>)
qed

text \<open>
  A requisition gives a free block, or a new one when none is free; it fails only when there is
  no free block and none may be, or can be, allocated.
\<close>

lemma requisition_rep:
  assumes rep: "pool_rep P F"
  shows "\<exists>r P'. requisition_block ca ok P = Inr (r, P')
    \<and> (case r of
         None \<Rightarrow> P' = P \<and> F = {} \<and> (ca = Cannot_alloc \<or> \<not> ok)
       | Some n \<Rightarrow> pool_rep P' (F - {n}) \<and> n < length (cblocks P') \<and> raw_block (cblocks P' ! n)
           \<and> length (cblocks P) \<le> length (cblocks P')
           \<and> (\<forall>m < length (cblocks P). m \<noteq> n \<longrightarrow> cblocks P' ! m = cblocks P ! m)
           \<and> (n \<in> F \<and> length (cblocks P') = length (cblocks P)
             \<or> F = {} \<and> n = length (cblocks P) \<and> length (cblocks P') = Suc n \<and> ca = Can_alloc \<and> ok))"
proof (cases "initialBlockPoolIndex P < initialBlockPoolSize P")
  case True
  let ?P = "P\<lparr>initialBlockPoolIndex := initialBlockPoolIndex P + 1\<rparr>"
  obtain n where n: "n \<in> F" "try_get_block_from_initial_pool P = (Some n, ?P)" "pool_rep ?P (F - {n})"
    using pool_rep_initial [OF rep True] by blast
  have "n < length (cblocks P)" "raw_block (cblocks P ! n)" using rep n(1) by (auto elim!: pool_repE)
  then show ?thesis using n by (simp add: requisition_block_def)
next
  case False
  have i: "try_get_block_from_initial_pool P = (None, P)"
    using False by (simp add: try_get_block_from_initial_pool_def not_less)
  have u: "unused P = {}" using False by (auto simp: unused_def word_less_nat_alt)
  obtain r P' where g: "try_get_block_from_free_list P = Inr (r, P')" "length (cblocks P') = length (cblocks P)"
    "case r of None \<Rightarrow> P' = P \<and> F = unused P
        | Some n \<Rightarrow> n \<in> F \<and> pool_rep P' (F - {n}) \<and> (\<forall>m. m \<noteq> n \<longrightarrow> cblocks P' ! m = cblocks P ! m)
            \<and> raw_block (cblocks P' ! n)"
    using pool_rep_try_get [OF rep] by blast
  show ?thesis
  proof (cases r)
    case (Some n)
    have "n < length (cblocks P)" using rep g(3) Some by (auto elim!: pool_repE)
    then show ?thesis using i g Some by (simp add: requisition_block_def)
  next
    case None
    then have "P' = P" "F = {}" using g(3) u by auto
    then show ?thesis
      using i g None rep pool_rep_create [OF rep]
      by (cases ca) (simp_all add: requisition_block_def create_block_def nth_append)
  qed
qed

subsection \<open>The pool as an interface\<close>

text \<open>
  What the producers rely on: a block that is handed out was free and is clean, and stays out of the
  pool until it is given back.
\<close>

datatype 'm pool_op = Take 'm | Give nat

text \<open>
  A client that takes blocks and gives back blocks it holds (by position in its list).
\<close>

fun pool_run ::
  "('m \<Rightarrow> 'p \<Rightarrow> 'e + nat option \<times> 'p) \<Rightarrow> (nat \<Rightarrow> 'p \<Rightarrow> 'p) \<Rightarrow> 'm pool_op list \<Rightarrow> 'p \<Rightarrow> nat list \<Rightarrow> 'e + 'p \<times> nat list" where
  "pool_run get put [] p owned = Inr (p, owned)"
| "pool_run get put (Take m # ops) p owned =
     bindE (get m p) (\<lambda>(r, p). pool_run get put ops p (case r of None \<Rightarrow> owned | Some n \<Rightarrow> n # owned))"
| "pool_run get put (Give i # ops) p owned =
     (if i < length owned
      then pool_run get put ops (put (owned ! i) p) (take i owned @ drop (Suc i) owned)
      else pool_run get put ops p owned)"

locale block_source =
  fixes rep :: "'p \<Rightarrow> nat set \<Rightarrow> bool"
    and total :: "'p \<Rightarrow> nat"
    and clean :: "'p \<Rightarrow> nat \<Rightarrow> bool"
    and get :: "'m \<Rightarrow> 'p \<Rightarrow> 'e + nat option \<times> 'p"
    and put :: "nat \<Rightarrow> 'p \<Rightarrow> 'p"
  assumes free_bound: "rep p F \<Longrightarrow> F \<subseteq> {..<total p}"
    and get_law: "rep p F \<Longrightarrow> \<exists>r p'. get m p = Inr (r, p')
      \<and> (case r of
           None \<Rightarrow> p' = p \<and> F = {}
         | Some n \<Rightarrow> rep p' (F - {n}) \<and> (n \<in> F \<or> n = total p) \<and> n < total p' \<and> total p \<le> total p' \<and> clean p' n
             \<and> (\<forall>k < total p. clean p k \<longrightarrow> clean p' k))"
    and put_law: "rep p F \<Longrightarrow> n < total p \<Longrightarrow> n \<notin> F \<Longrightarrow> clean p n \<Longrightarrow>
      rep (put n p) (insert n F) \<and> total (put n p) = total p \<and> (\<forall>k < total p. clean p k \<longrightarrow> clean (put n p) k)"
begin

lemma pool_run_exclusive:
  assumes "rep p F" "distinct owned" "set owned \<inter> F = {}" "\<forall>n \<in> set owned. n < total p \<and> clean p n"
  shows "\<exists>p' owned' F'. pool_run get put ops p owned = Inr (p', owned') \<and> rep p' F' \<and> distinct owned' \<and> set owned' \<inter> F' = {}"
  using assms
proof (induction ops arbitrary: p owned F)
  case (Cons op ops)
  show ?case
  proof (cases op)
    case (Take m)
    obtain r p1 where g: "get m p = Inr (r, p1)" "case r of
           None \<Rightarrow> p1 = p \<and> F = {}
         | Some n \<Rightarrow> rep p1 (F - {n}) \<and> (n \<in> F \<or> n = total p) \<and> n < total p1 \<and> total p \<le> total p1 \<and> clean p1 n
             \<and> (\<forall>k < total p. clean p k \<longrightarrow> clean p1 k)"
      using get_law [OF Cons.prems(1)] by blast
    show ?thesis
    proof (cases r)
      case None
      then show ?thesis using g Take Cons.IH [OF Cons.prems] by simp
    next
      case (Some n)
      have "n \<notin> set owned" using g(2) Some Cons.prems(3,4) by auto
      then have "\<exists>p' owned' F'. pool_run get put ops p1 (n # owned) = Inr (p', owned') \<and> rep p' F' \<and> distinct owned'
          \<and> set owned' \<inter> F' = {}"
        using g(2) Some Cons.prems by (intro Cons.IH [of p1 "F - {n}"]) auto
      then show ?thesis using g(1) Some Take by simp
    qed
  next
    case (Give i)
    show ?thesis
    proof (cases "i < length owned")
      case True
      let ?n = "owned ! i" and ?rest = "take i owned @ drop (Suc i) owned"
      have o: "owned = take i owned @ ?n # drop (Suc i) owned" using True by (rule id_take_nth_drop)
      have d: "distinct ?rest" "?n \<notin> set ?rest" "set ?rest \<subseteq> set owned" "?n \<in> set owned"
      proof -
        have "distinct (take i owned @ ?n # drop (Suc i) owned)" using o Cons.prems(2) by metis
        then show "distinct ?rest" "?n \<notin> set ?rest" by auto
        show "set ?rest \<subseteq> set owned" by (auto dest: in_set_takeD in_set_dropD)
        show "?n \<in> set owned" using True by simp
      qed
      have p: "rep (put ?n p) (insert ?n F)" "total (put ?n p) = total p" "\<forall>k < total p. clean p k \<longrightarrow> clean (put ?n p) k"
        using put_law [OF Cons.prems(1), of ?n] Cons.prems(3,4) d(4) by auto
      have "\<exists>p' owned' F'. pool_run get put ops (put ?n p) ?rest = Inr (p', owned') \<and> rep p' F' \<and> distinct owned'
          \<and> set owned' \<inter> F' = {}"
        using d p Cons.prems(3,4) by (intro Cons.IH [OF p(1)]) auto
      then show ?thesis using Give True by simp
    next
      case False
      then show ?thesis using Give Cons.IH [OF Cons.prems] by simp
    qed
  qed
qed auto

end

interpretation queue_pool: block_source pool_rep "\<lambda>P. length (cblocks P)" "\<lambda>P n. raw_block (cblocks P ! n)"
  "\<lambda>(ca, ok). requisition_block ca ok" add_block_to_free_list
proof
  show "F \<subseteq> {..<length (cblocks P)}" if "pool_rep P F" for P :: "'a pool" and F
    using that by (auto elim!: pool_repE)
  show "\<exists>r P'. (case m of (ca, ok) \<Rightarrow> requisition_block ca ok) P = Inr (r, P')
      \<and> (case r of
           None \<Rightarrow> P' = P \<and> F = {}
         | Some n \<Rightarrow> pool_rep P' (F - {n}) \<and> (n \<in> F \<or> n = length (cblocks P)) \<and> n < length (cblocks P')
             \<and> length (cblocks P) \<le> length (cblocks P') \<and> raw_block (cblocks P' ! n)
             \<and> (\<forall>k < length (cblocks P). raw_block (cblocks P ! k) \<longrightarrow> raw_block (cblocks P' ! k)))"
    if rep: "pool_rep P F" for P :: "'a pool" and F m
  proof -
    obtain ca ok where m: "m = (ca, ok)" by (cases m)
    obtain r P' where r: "requisition_block ca ok P = Inr (r, P')" "case r of
         None \<Rightarrow> P' = P \<and> F = {} \<and> (ca = Cannot_alloc \<or> \<not> ok)
       | Some n \<Rightarrow> pool_rep P' (F - {n}) \<and> n < length (cblocks P') \<and> raw_block (cblocks P' ! n)
           \<and> length (cblocks P) \<le> length (cblocks P')
           \<and> (\<forall>m < length (cblocks P). m \<noteq> n \<longrightarrow> cblocks P' ! m = cblocks P ! m)
           \<and> (n \<in> F \<and> length (cblocks P') = length (cblocks P)
             \<or> F = {} \<and> n = length (cblocks P) \<and> length (cblocks P') = Suc n \<and> ca = Can_alloc \<and> ok)"
      using requisition_rep [OF rep, of ca ok] by blast
    have "case r of
           None \<Rightarrow> P' = P \<and> F = {}
         | Some n \<Rightarrow> pool_rep P' (F - {n}) \<and> (n \<in> F \<or> n = length (cblocks P)) \<and> n < length (cblocks P')
             \<and> length (cblocks P) \<le> length (cblocks P') \<and> raw_block (cblocks P' ! n)
             \<and> (\<forall>k < length (cblocks P). raw_block (cblocks P ! k) \<longrightarrow> raw_block (cblocks P' ! k))"
      using r(2) by (cases r) (simp_all, metis)
    then show ?thesis using r(1) m by auto
  qed
  show "pool_rep (add_block_to_free_list n P) (insert n F)
      \<and> length (cblocks (add_block_to_free_list n P)) = length (cblocks P)
      \<and> (\<forall>k < length (cblocks P). raw_block (cblocks P ! k) \<longrightarrow> raw_block (cblocks (add_block_to_free_list n P) ! k))"
    if "pool_rep P F" "n < length (cblocks P)" "n \<notin> F" "raw_block (cblocks P ! n)" for P :: "'a pool" and F n
  proof -
    note add = pool_rep_add [OF that(1,3,2,4)]
    have "pool_rep (add_block_to_free_list n P) (insert n F)" by (rule add(1))
    then have "raw_block (cblocks (add_block_to_free_list n P) ! n)" by (auto elim!: pool_repE)
    then show ?thesis using add by metis
  qed
qed

lemma populate_blocks:
  fixes ok n
  defines "P \<equiv> populate_initial_block_list ok n (pool_init :: 'a pool)"
  shows "pool_rep P {..<length (cblocks P)}"
proof (cases "n = 0 \<or> \<not> ok")
  case True
  then have "P = pool_init" by (auto simp: P_def populate_initial_block_list_def pool_init_def)
  then show ?thesis by (intro pool_repI [where fs = "[]"]) (auto simp: pool_init_def unused_def alloc_ok_def)
next
  case False
  then have "P = pool_init\<lparr>initialBlockPoolSize := n, cblocks := replicate (unat n) (CBlock_new\<lparr>dynamicallyAllocated := False\<rparr>)\<rparr>"
    by (simp add: P_def populate_initial_block_list_def)
  then show ?thesis by (intro pool_repI [where fs = "[]"]) (auto simp: pool_init_def unused_def alloc_ok_def)
qed

lemma populate_rep: "\<exists>F. pool_rep (populate_initial_block_list ok n (pool_init :: 'a pool)) F"
  using populate_blocks by blast

subsection \<open>Emptiness of a block\<close>

fun set_empty_list :: "InnerQueueContext \<Rightarrow> u64 list \<Rightarrow> 'a cblock \<Rightarrow> cq_error + bool list \<times> 'a cblock" where
  "set_empty_list ctx [] b = Inr ([], b)"
| "set_empty_list ctx (i # idxs) b =
     bindE (set_empty ctx i b) (\<lambda>(r, b). bindE (set_empty_list ctx idxs b) (\<lambda>(rs, b). Inr (r # rs, b)))"

lemma slot_less: "slot i < 32"
proof -
  have m: "unat (BLOCK_SIZE - 1) + 1 = 2 ^ 5" by (simp add: BLOCK_SIZE_def)
  show ?thesis unfolding slot_def unat_and_pow2 [OF m] by simp
qed

lemma uses_flags_iff [simp]: "uses_flags ctx \<longleftrightarrow> ctx = explicit_context"
  by (simp add: uses_flags_def BLOCK_SIZE_def EXPLICIT_BLOCK_EMPTY_COUNTER_THRESHOLD_def)

lemma set_empty_list_implicit:
  "unat (elementsCompletelyDequeued b) + length idxs \<le> 32 \<Longrightarrow>
    \<exists>b'. set_empty_list implicit_context idxs b
        = Inr (map (\<lambda>k. unat (elementsCompletelyDequeued b) + k = 31) [0..<length idxs], b')
      \<and> unat (elementsCompletelyDequeued b') = unat (elementsCompletelyDequeued b) + length idxs"
proof (induction idxs arbitrary: b)
  case (Cons i idxs)
  let ?c = "elementsCompletelyDequeued b"
  let ?b = "b\<lparr>elementsCompletelyDequeued := ?c + 1\<rparr>"
  have c: "unat (?c + 1) = unat ?c + 1" using Cons.prems by (simp add: unat_word_ariths)
  have e: "set_empty implicit_context i b = Inr (unat ?c = 31, ?b)"
    using Cons.prems by (simp add: set_empty_def Let_def word_less_nat_alt word_unat_eq_iff BLOCK_SIZE_def)
  obtain b' where b': "set_empty_list implicit_context idxs ?b
        = Inr (map (\<lambda>k. unat (elementsCompletelyDequeued ?b) + k = 31) [0..<length idxs], b')"
      "unat (elementsCompletelyDequeued b') = unat (elementsCompletelyDequeued ?b) + length idxs"
    using Cons.IH [of ?b] Cons.prems c by auto
  have m: "map (\<lambda>k. unat ?c + k = 31) [0..<length (i # idxs)]
      = (unat ?c = 31) # map (\<lambda>k. unat ?c + 1 + k = 31) [0..<length idxs]"
    by (simp add: upt_conv_Cons map_Suc_upt [symmetric] comp_def del: upt_Suc)
  show ?case
    unfolding m using b' e c by simp
qed simp

lemma set_empty_list_explicit:
  assumes "length (emptyFlags b) = 32" "distinct (map slot idxs)" "\<forall>i \<in> set idxs. \<not> emptyFlags b ! (31 - slot i)"
  shows "\<exists>b'. set_empty_list explicit_context idxs b = Inr (replicate (length idxs) False, b')
    \<and> length (emptyFlags b') = 32
    \<and> (\<forall>f < 32. emptyFlags b' ! f = (emptyFlags b ! f \<or> (\<exists>i \<in> set idxs. f = 31 - slot i)))"
  using assms
proof (induction idxs arbitrary: b)
  case (Cons i idxs)
  let ?f = "31 - slot i"
  let ?b = "b\<lparr>emptyFlags := (emptyFlags b)[?f := True]\<rparr>"
  have e: "set_empty explicit_context i b = Inr (False, ?b)"
    using Cons.prems(3) by (simp add: set_empty_def Let_def)
  have ne: "31 - slot j \<noteq> ?f" if "j \<in> set idxs" for j
    using Cons.prems(2) that slot_less [of i] slot_less [of j] by (auto simp: image_iff)
  have "\<forall>j \<in> set idxs. \<not> emptyFlags ?b ! (31 - slot j)"
    using Cons.prems(3) ne by (metis cblock.select_convs(4) cblock.update_convs(4) list.set_intros(2) nth_list_update_neq cblock.surjective)
  then obtain b' where b': "set_empty_list explicit_context idxs ?b = Inr (replicate (length idxs) False, b')"
    "length (emptyFlags b') = 32"
    "\<forall>f < 32. emptyFlags b' ! f = (emptyFlags ?b ! f \<or> (\<exists>i \<in> set idxs. f = 31 - slot i))"
    using Cons.IH [of ?b] Cons.prems(1,2) by auto
  show ?case
    using b' e Cons.prems(1) by (auto simp: nth_list_update)
qed simp

lemma card_slots_full:
  assumes "distinct (map slot idxs)"
  shows "(\<forall>f < 32. \<exists>i \<in> set idxs. f = 31 - slot i) \<longleftrightarrow> length idxs = 32"
proof -
  let ?S = "slot ` set idxs"
  have sub: "?S \<subseteq> {..<32}" using slot_less by auto
  have c: "card ?S = length idxs" using distinct_card [OF assms] by simp
  have "(\<forall>f < 32. \<exists>i \<in> set idxs. f = 31 - slot i) \<longleftrightarrow> ?S = {..<32}"
  proof
    assume a: "\<forall>f < 32. \<exists>i \<in> set idxs. f = 31 - slot i"
    have "s \<in> ?S" if "s < 32" for s
    proof -
      have "31 - s < 32" by simp
      then obtain i where i: "i \<in> set idxs" "31 - s = 31 - slot i" using a by blast
      then have "s = slot i" using slot_less [of i] that by linarith
      then show ?thesis using i(1) by blast
    qed
    then show "?S = {..<32}" using sub by auto
  next
    assume a: "?S = {..<32}"
    show "\<forall>f < 32. \<exists>i \<in> set idxs. f = 31 - slot i"
    proof (intro allI impI)
      fix f :: nat assume "f < 32"
      then have "31 - f \<in> ?S" using a by auto
      then obtain i where "i \<in> set idxs" "31 - f = slot i" by auto
      then show "\<exists>i \<in> set idxs. f = 31 - slot i" using \<open>f < 32\<close> by (intro bexI [of _ i]) auto
    qed
  qed
  also have "\<dots> \<longleftrightarrow> card ?S = 32"
    using card_subset_eq [OF finite_lessThan sub] by auto
  finally show ?thesis using c by simp
qed

subsection \<open>Properties\<close>

text \<open>
  C20: no block is handed out twice. Whatever sequence of requisitions (allocating or not, with the heap failing or
  not) and returns a client makes on a pool of any initial size, the blocks it holds are pairwise different,
  and no requisition hits a failed assertion or an endless loop.
\<close>

theorem pool_exclusive:
  "\<exists>P owned. pool_run (\<lambda>(ca, ok). requisition_block ca ok) add_block_to_free_list ops
      (populate_initial_block_list malloc_ok n pool_init) [] = Inr (P, owned) \<and> distinct owned"
  using populate_rep [of malloc_ok n] queue_pool.pool_run_exclusive [where owned = "[]" and ops = ops] by force

text \<open>
  C37: a block knows when it is empty. From a reset block, marking slots as dequeued, each at most once and in any order, never
  fails an assertion; the block counts as empty exactly when all 32 slots are marked, in both
  contexts; and in the implicit ctx the call that marks the last slot, and no other, says so.
\<close>

theorem block_empty_exactly_when_all_set:
  assumes "block_wf b" "distinct (map slot idxs)"
  shows "\<exists>rs b'. set_empty_list ctx idxs (reset_empty ctx b) = Inr (rs, b')
    \<and> is_empty ctx b' = Inr (length idxs = 32)
    \<and> (ctx = implicit_context \<longrightarrow> rs = map (\<lambda>k. k = 31) [0..<length idxs])"
proof (cases ctx)
  case implicit_context
  have "length idxs \<le> 32"
    using card_mono [of "{..<32}" "slot ` set idxs"] slot_less distinct_card [OF assms(2)] by auto
  then obtain b' where b': "set_empty_list implicit_context idxs (reset_empty implicit_context b)
      = Inr (map (\<lambda>k. k = 31) [0..<length idxs], b')" "unat (elementsCompletelyDequeued b') = length idxs"
    using set_empty_list_implicit [of "reset_empty implicit_context b" idxs] by (auto simp: reset_empty_def)
  have "is_empty implicit_context b' = Inr (length idxs = 32)"
    using b'(2) \<open>length idxs \<le> 32\<close> by (simp add: is_empty_def word_unat_eq_iff word_le_nat_alt)
  then show ?thesis using b'(1) implicit_context by auto
next
  case explicit_context
  obtain b' where b': "set_empty_list explicit_context idxs (reset_empty explicit_context b)
      = Inr (replicate (length idxs) False, b')"
    "\<forall>f < 32. emptyFlags b' ! f = (\<exists>i \<in> set idxs. f = 31 - slot i)"
    using set_empty_list_explicit [of "reset_empty explicit_context b" idxs] assms(2) slot_less
    by (auto simp: reset_empty_def)
  have "is_empty explicit_context b' = Inr (length idxs = 32)"
    using b'(2) card_slots_full [OF assms(2)] by (auto simp: is_empty_def)
  then show ?thesis using b'(1) explicit_context by auto
qed

theorem block_empty_exactly_when_all_set_witness:
  "\<exists>rs b'. set_empty_list explicit_context [0, 5] (reset_empty explicit_context (CBlock_new :: nat cblock)) = Inr (rs, b')
    \<and> is_empty explicit_context b' = Inr False"
  using block_empty_exactly_when_all_set [of "CBlock_new :: nat cblock" "[0, 5]" explicit_context]
  by (simp add: slot_def BLOCK_SIZE_def del: set_empty_list.simps)

end
