(* ===== verification/Fifo.thy ===== *)
theory Fifo
  imports Prelude
begin

text \<open>
  The contract that the queues of the repository promise to their users when they are driven by
  one operation at a time: a list, at whose end \<open>enqueue\<close> adds and from whose front
  \<open>dequeue\<close> takes. The \<open>bool\<close> of an enqueue tells whether it was accepted (it may be refused when memory
  runs out or may not be allocated; the first argument of \<open>enq\<close> is that environment). The operations of the
  models can also end in an error (a failed assertion, a read of an uninitialised slot): the
  contract excludes it.
\<close>

datatype ('m, 'a) queue_op = Enq 'm 'a | Deq

datatype 'a queue_event = Accepted 'a | Refused 'a | Got 'a | Empty

text \<open>Running a sequence of operations, and recording what each did.\<close>

fun run_ops ::
  "('m \<Rightarrow> 'a \<Rightarrow> 'q \<Rightarrow> 'e + bool \<times> 'q) \<Rightarrow> ('q \<Rightarrow> 'e + 'a option \<times> 'q) \<Rightarrow> ('m, 'a) queue_op list \<Rightarrow> 'q
     \<Rightarrow> 'e + 'a queue_event list \<times> 'q" where
  "run_ops enq deq [] q = Inr ([], q)"
| "run_ops enq deq (Enq m x # ops) q =
     bindE (enq m x q) (\<lambda>(b, q). bindE (run_ops enq deq ops q)
       (\<lambda>(evs, q). Inr ((if b then Accepted x else Refused x) # evs, q)))"
| "run_ops enq deq (Deq # ops) q =
     bindE (deq q) (\<lambda>(r, q). bindE (run_ops enq deq ops q)
       (\<lambda>(evs, q). Inr ((case r of None \<Rightarrow> Empty | Some x \<Rightarrow> Got x) # evs, q)))"

fun accepted :: "'a queue_event list \<Rightarrow> 'a list" where
  "accepted [] = []"
| "accepted (Accepted x # evs) = x # accepted evs"
| "accepted (_ # evs) = accepted evs"

fun got :: "'a queue_event list \<Rightarrow> 'a list" where
  "got [] = []"
| "got (Got x # evs) = x # got evs"
| "got (_ # evs) = got evs"

locale fifo =
  fixes inv :: "'q \<Rightarrow> bool"
    and contents :: "'q \<Rightarrow> 'a list"
    and enq :: "'m \<Rightarrow> 'a \<Rightarrow> 'q \<Rightarrow> 'e + bool \<times> 'q"
    and deq :: "'q \<Rightarrow> 'e + 'a option \<times> 'q"
  assumes enq_law: "inv q \<Longrightarrow>
      \<exists>b q'. enq m x q = Inr (b, q') \<and> inv q' \<and> contents q' = (if b then contents q @ [x] else contents q)"
    and deq_law: "inv q \<Longrightarrow>
      \<exists>q'. deq q = Inr (case contents q of [] \<Rightarrow> None | x # _ \<Rightarrow> Some x, q') \<and> inv q' \<and> contents q' = tl (contents q)"
begin

text \<open>
  Any sequence of operations runs without error, what comes out is a prefix of what was in the
  queue followed by what was accepted, in that order, and the rest is still in the queue.
\<close>

lemma run_ops_fifo:
  "inv q \<Longrightarrow> \<exists>evs q'. run_ops enq deq ops q = Inr (evs, q') \<and> inv q'
     \<and> contents q @ accepted evs = got evs @ contents q' \<and> length evs = length ops"
proof (induction ops arbitrary: q)
  case (Cons op ops)
  show ?case
  proof (cases op)
    case (Enq m x)
    obtain b q1 where q1: "enq m x q = Inr (b, q1)" "inv q1"
      "contents q1 = (if b then contents q @ [x] else contents q)"
      using enq_law [OF Cons.prems] by blast
    show ?thesis
      using Cons.IH [OF q1(2)] q1(1,3) Enq by (cases b) auto
  next
    case Deq
    obtain q1 where q1: "deq q = Inr (case contents q of [] \<Rightarrow> None | x # _ \<Rightarrow> Some x, q1)" "inv q1"
      "contents q1 = tl (contents q)"
      using deq_law [OF Cons.prems] by blast
    show ?thesis
      using Cons.IH [OF q1(2)] q1(1,3) Deq by (cases "contents q") auto
  qed
qed simp

text \<open>Every dequeue on a queue that holds an element gives one.\<close>

lemma deq_nonempty: "inv q \<Longrightarrow> contents q \<noteq> [] \<Longrightarrow> \<exists>q'. deq q = Inr (Some (hd (contents q)), q')"
  using deq_law [of q] by (cases "contents q") auto

lemma deq_empty: "inv q \<Longrightarrow> contents q = [] \<Longrightarrow> \<exists>q'. deq q = Inr (None, q') \<and> contents q' = []"
  using deq_law [of q] by auto

end

end
