(* ===== verification/ImplicitProducer.thy ===== *)
theory ImplicitProducer
  imports BlockPool Fifo
begin

text \<open>
  \<open>source/utils/concurrentqueue.h\<close>: \<open>ProducerBase\<close> and \<open>ImplicitProducer\<close>, the sub-queue of one producing thread: an
  unbounded sequence of positions, cut into blocks that are found through a block index (a growing
  ring of entries from the first position of a block to the block).

  Positions are 64-bit words that wrap around. An entry pointer is a position in \<open>entries\<close>; a
  fresh entry has the invalid key 1. The index that is current when a new one is made stays allocated
  in the code until the producer is destroyed; nothing reads it in a sequential run, so only the current one
  is kept. The elements are of a type whose constructors do not throw. One operation runs at a time.
\<close>

datatype index_entry = Entry (entry_key: u64) (entry_value: "nat option")

record block_index =
  capacity :: u64
  bi_tail :: u64
  bi_index :: "nat list"

record producer =
  tailIndex :: u64
  headIndex :: u64
  dequeueOptimisticCount :: u64
  dequeueOvercommit :: u64
  tailBlock :: "nat option"
  nextBlockIndexCapacity :: u64
  entries :: "index_entry list"
  blockIndex :: "block_index option"

definition INVALID_BLOCK_BASE :: u64 where
  "INVALID_BLOCK_BASE = 1"

subsection \<open>The block index\<close>

text \<open>
  The loop that copies the entry pointers of the previous index, from the one after its tail around to its tail.
\<close>

fun copy_index :: "block_index \<Rightarrow> nat \<Rightarrow> u64 \<Rightarrow> nat list \<Rightarrow> cq_error + nat list" where
  "copy_index prev 0 prevPos idx = Inl Cq_diverges"
| "copy_index prev (Suc fuel) prevPos idx =
     (let prevPos = (prevPos + 1) AND (capacity prev - 1);
          idx = idx @ [bi_index prev ! unat prevPos]
      in if prevPos \<noteq> bi_tail prev then copy_index prev fuel prevPos idx else Inr idx)"

definition new_block_index :: "bool \<Rightarrow> producer \<Rightarrow> cq_error + bool \<times> producer" where
  "new_block_index malloc_ok p =
     (let prevCapacity = (case blockIndex p of None \<Rightarrow> 0 | Some prev \<Rightarrow> capacity prev);
          entryCount = (case blockIndex p of None \<Rightarrow> nextBlockIndexCapacity p | Some prev \<Rightarrow> prevCapacity)
      in if \<not> malloc_ok then Inr (False, p)
         else
           bindE (case blockIndex p of
                    None \<Rightarrow> Inr []
                  | Some prev \<Rightarrow> bindE (copy_index prev (unat prevCapacity) (bi_tail prev) [])
                      (\<lambda>idx. if length idx = unat prevCapacity then Inr idx else Inl Cq_assertion_failed))
             (\<lambda>idx.
                let n = length (entries p);
                    header = \<lparr>capacity = nextBlockIndexCapacity p,
                              bi_tail = (prevCapacity - 1) AND (nextBlockIndexCapacity p - 1),
                              bi_index = idx @ [n..<n + unat entryCount]\<rparr>
                in Inr (True, p\<lparr>entries := entries p @ replicate (unat entryCount) (Entry INVALID_BLOCK_BASE None),
                                 blockIndex := Some header,
                                 nextBlockIndexCapacity := push_bit 1 (nextBlockIndexCapacity p)\<rparr>)))"

text \<open>
  \<open>insert_block_index_entry\<close>: the entry that now has the key \<open>blockStartIndex\<close>, or \<open>None\<close> if there is no room.
\<close>

definition insert_block_index_entry ::
  "alloc_mode \<Rightarrow> bool \<Rightarrow> u64 \<Rightarrow> producer \<Rightarrow> cq_error + nat option \<times> producer" where
  "insert_block_index_entry allocMode malloc_ok blockStartIndex p =
     (case blockIndex p of
        None \<Rightarrow> Inl Cq_null_pointer
      | Some localBlockIndex \<Rightarrow>
          let newTail = (bi_tail localBlockIndex + 1) AND (capacity localBlockIndex - 1);
              idxEntry = bi_index localBlockIndex ! unat newTail;
              e = entries p ! idxEntry
          in if entry_key e = INVALID_BLOCK_BASE \<or> entry_value e = None
             then Inr (Some idxEntry,
                       p\<lparr>entries := (entries p)[idxEntry := Entry blockStartIndex (entry_value e)],
                         blockIndex := Some (localBlockIndex\<lparr>bi_tail := newTail\<rparr>)\<rparr>)
             else if allocMode = Cannot_alloc then Inr (None, p)
             else
               bindE (new_block_index malloc_ok p)
                 (\<lambda>(ok, p).
                    if \<not> ok then Inr (None, p)
                    else (case blockIndex p of
                       None \<Rightarrow> Inl Cq_null_pointer
                     | Some localBlockIndex \<Rightarrow>
                         let newTail = (bi_tail localBlockIndex + 1) AND (capacity localBlockIndex - 1);
                             idxEntry = bi_index localBlockIndex ! unat newTail;
                             e = entries p ! idxEntry
                         in if entry_key e \<noteq> INVALID_BLOCK_BASE then Inl Cq_assertion_failed
                            else Inr (Some idxEntry,
                                      p\<lparr>entries := (entries p)[idxEntry := Entry blockStartIndex (entry_value e)],
                                        blockIndex := Some (localBlockIndex\<lparr>bi_tail := newTail\<rparr>)\<rparr>))))"

definition rewind_block_index_tail :: "producer \<Rightarrow> cq_error + producer" where
  "rewind_block_index_tail p =
     (case blockIndex p of
        None \<Rightarrow> Inl Cq_null_pointer
      | Some localBlockIndex \<Rightarrow>
          Inr (p\<lparr>blockIndex := Some (localBlockIndex\<lparr>bi_tail := (bi_tail localBlockIndex - 1)
                   AND (capacity localBlockIndex - 1)\<rparr>)\<rparr>))"

definition store_entry_value :: "nat \<Rightarrow> nat option \<Rightarrow> producer \<Rightarrow> producer" where
  "store_entry_value idxEntry v p =
     p\<lparr>entries := (entries p)[idxEntry := Entry (entry_key (entries p ! idxEntry)) v]\<rparr>"

text \<open>
  The division in the code is by \<open>BLOCK_SIZE\<close>, a \<open>size_t\<close>, so it is the unsigned division whatever the sign
  of the difference.
\<close>

definition get_block_index_index_for_index :: "u64 \<Rightarrow> producer \<Rightarrow> cq_error + nat" where
  "get_block_index_index_for_index index p =
     (case blockIndex p of
        None \<Rightarrow> Inl Cq_null_pointer
      | Some localBlockIndex \<Rightarrow>
          let index = index AND NOT (BLOCK_SIZE - 1);
              tail = bi_tail localBlockIndex;
              tailBase = entry_key (entries p ! (bi_index localBlockIndex ! unat tail))
          in if tailBase = INVALID_BLOCK_BASE then Inl Cq_assertion_failed
             else
               let offset = (index - tailBase) div BLOCK_SIZE;
                   idx = unat ((tail + offset) AND (capacity localBlockIndex - 1));
                   e = entries p ! (bi_index localBlockIndex ! idx)
               in if entry_key e = index \<and> entry_value e \<noteq> None then Inr idx else Inl Cq_assertion_failed)"

definition get_block_index_entry_for_index :: "u64 \<Rightarrow> producer \<Rightarrow> cq_error + nat" where
  "get_block_index_entry_for_index index p =
     bindE (get_block_index_index_for_index index p)
       (\<lambda>idx. case blockIndex p of None \<Rightarrow> Inl Cq_null_pointer | Some localBlockIndex \<Rightarrow> Inr (bi_index localBlockIndex ! idx))"

subsection \<open>Construction\<close>

definition ProducerBase_new :: producer where
  "ProducerBase_new =
     \<lparr>tailIndex = 0, headIndex = 0, dequeueOptimisticCount = 0, dequeueOvercommit = 0, tailBlock = None,
      nextBlockIndexCapacity = IMPLICIT_INITIAL_INDEX_SIZE, entries = [], blockIndex = None\<rparr>"

text \<open>The constructor ignores whether \<open>new_block_index\<close> succeeded.\<close>

definition ImplicitProducer_new :: "bool \<Rightarrow> cq_error + producer" where
  "ImplicitProducer_new malloc_ok = bindE (new_block_index malloc_ok ProducerBase_new) (\<lambda>(_, p). Inr p)"

subsection \<open>Enqueue and dequeue\<close>

text \<open>Construct the element in the tail block and publish the new tail.\<close>

definition put_element :: "u64 \<Rightarrow> 'a \<Rightarrow> producer \<Rightarrow> 'a pool \<Rightarrow> cq_error + producer \<times> 'a pool" where
  "put_element currentTailIndex element p P =
     (case tailBlock p of
        None \<Rightarrow> Inl Cq_null_pointer
      | Some b \<Rightarrow>
          Inr (p\<lparr>tailIndex := 1 + currentTailIndex\<rparr>,
               upd_cblock b (\<lambda>blk. blk\<lparr>elements := (elements blk)[slot currentTailIndex := Some element]\<rparr>) P))"

definition is_full :: "u64 \<Rightarrow> u64 \<Rightarrow> bool" where
  "is_full head currentTailIndex \<longleftrightarrow>
     \<not> circular_less_than head (currentTailIndex + BLOCK_SIZE)
     \<or> MAX_SUBQUEUE_SIZE \<noteq> const_numeric_max
       \<and> (MAX_SUBQUEUE_SIZE = 0 \<or> MAX_SUBQUEUE_SIZE - BLOCK_SIZE < currentTailIndex - head)"

text \<open>
  \<open>enqueue\<close>; \<open>index_ok\<close> and \<open>block_ok\<close> say whether \<open>malloc\<close> would succeed for a new block index and for a new block.
\<close>

definition implicit_enqueue ::
  "alloc_mode \<times> bool \<times> bool \<Rightarrow> 'a \<Rightarrow> producer \<Rightarrow> 'a pool \<Rightarrow> cq_error + bool \<times> producer \<times> 'a pool" where
  "implicit_enqueue m element p P =
     (let (allocMode, index_ok, block_ok) = m;
          currentTailIndex = tailIndex p
      in if currentTailIndex AND (BLOCK_SIZE - 1) \<noteq> 0
         then bindE (put_element currentTailIndex element p P) (\<lambda>(p, P). Inr (True, p, P))
         else
           let head = headIndex p
           in if circular_less_than currentTailIndex head then Inl Cq_assertion_failed
              else if is_full head currentTailIndex then Inr (False, p, P)
              else
                bindE (insert_block_index_entry allocMode index_ok currentTailIndex p)
                  (\<lambda>(r, p). case r of
                     None \<Rightarrow> Inr (False, p, P)
                   | Some idxEntry \<Rightarrow>
                       bindE (requisition_block allocMode block_ok P)
                         (\<lambda>(r, P). case r of
                            None \<Rightarrow>
                              bindE (rewind_block_index_tail p)
                                (\<lambda>p. Inr (False, store_entry_value idxEntry None p, P))
                          | Some newBlock \<Rightarrow>
                              let P = upd_cblock newBlock (reset_empty implicit_context) P;
                                  p = (store_entry_value idxEntry (Some newBlock) p)\<lparr>tailBlock := Some newBlock\<rparr>
                              in bindE (put_element currentTailIndex element p P) (\<lambda>(p, P). Inr (True, p, P)))))"

definition implicit_dequeue :: "producer \<Rightarrow> 'a pool \<Rightarrow> cq_error + 'a option \<times> producer \<times> 'a pool" where
  "implicit_dequeue p P =
     (let tail = tailIndex p;
          overcommit = dequeueOvercommit p
      in if \<not> circular_less_than (dequeueOptimisticCount p - overcommit) tail then Inr (None, p, P)
         else
           let myDequeueCount = dequeueOptimisticCount p;
               p = p\<lparr>dequeueOptimisticCount := myDequeueCount + 1\<rparr>
           in if \<not> overcommit \<le> myDequeueCount then Inl Cq_assertion_failed
              else if circular_less_than (myDequeueCount - overcommit) (tailIndex p) then
                let index = headIndex p;
                    p = p\<lparr>headIndex := index + 1\<rparr>
                in bindE (get_block_index_entry_for_index index p)
                     (\<lambda>entry. case entry_value (entries p ! entry) of
                        None \<Rightarrow> Inl Cq_null_pointer
                      | Some block \<Rightarrow>
                          (case elements (cblocks P ! block) ! slot index of
                             None \<Rightarrow> Inl Cq_bad_slot
                           | Some el \<Rightarrow>
                               let P = upd_cblock block (\<lambda>b. b\<lparr>elements := (elements b)[slot index := None]\<rparr>) P
                               in bindE (set_empty implicit_context index (cblocks P ! block))
                                    (\<lambda>(now_empty, b).
                                       let P = upd_cblock block (\<lambda>_. b) P
                                       in if now_empty
                                          then Inr (Some el, store_entry_value entry None p, add_block_to_free_list block P)
                                          else Inr (Some el, p, P))))
              else Inr (None, p\<lparr>dequeueOvercommit := overcommit + 1\<rparr>, P))"

definition producer_size_approx :: "producer \<Rightarrow> u64" where
  "producer_size_approx p =
     (let tail = tailIndex p; head = headIndex p in if circular_less_than head tail then tail - head else 0)"

subsection \<open>The block index as a map\<close>

text \<open>Position \<open>j\<close> steps before the tail \<open>t\<close> of a ring of \<open>n\<close> entries.\<close>

definition ring_back :: "nat \<Rightarrow> nat \<Rightarrow> nat \<Rightarrow> nat" where
  "ring_back n t j = (t + n - j) mod n"

lemma ring_back_less: "0 < n \<Longrightarrow> ring_back n t j < n"
  by (simp add: ring_back_def)

lemma ring_back_0: "t < n \<Longrightarrow> ring_back n t 0 = t"
  by (simp add: ring_back_def)

lemma ring_back_inj:
  assumes "i < n" "j < n" "t < n"
  shows "ring_back n t i = ring_back n t j \<longleftrightarrow> i = j"
proof -
  have "ring_back n t i = (if i \<le> t then t - i else t + n - i)" if "i < n" for i
    using that assms(3) by (auto simp: ring_back_def mod_if)
  then show ?thesis using assms by (auto split: if_splits)
qed

lemma ring_back_Suc:
  assumes "Suc j < n" "t < n"
  shows "ring_back n ((t + 1) mod n) (Suc j) = ring_back n t j"
  using assms by (cases "t + 1 = n") (auto simp: ring_back_def mod_if)

lemma ring_back_last: "t < n \<Longrightarrow> ring_back n t (n - 1) = (t + 1) mod n"
  by (simp add: ring_back_def)

text \<open>
  \<open>index_rep c p K N blk\<close>: the index has \<open>2 ^ c\<close> entries; \<open>N\<close> blocks were entered so far and those from number
  \<open>K\<close> on are live: block \<open>k\<close> is found \<open>N - 1 - k\<close> entries before the tail, under the position of its first
  element, and is \<open>blk k\<close>; every other entry can be overwritten.
\<close>

definition entry_free :: "index_entry \<Rightarrow> bool" where
  "entry_free e \<longleftrightarrow> entry_key e = INVALID_BLOCK_BASE \<or> entry_value e = None"

definition index_at :: "producer \<Rightarrow> block_index \<Rightarrow> nat \<Rightarrow> nat \<Rightarrow> index_entry" where
  "index_at p h n j = entries p ! (bi_index h ! ring_back n (unat (bi_tail h)) j)"

definition index_rep :: "nat \<Rightarrow> producer \<Rightarrow> nat \<Rightarrow> nat \<Rightarrow> (nat \<Rightarrow> nat) \<Rightarrow> bool" where
  "index_rep c p K N blk \<longleftrightarrow> 1 \<le> c \<and> c \<le> 59 \<and> (\<exists>h. blockIndex p = Some h
     \<and> unat (capacity h) = 2 ^ c \<and> unat (nextBlockIndexCapacity p) = 2 ^ Suc c
     \<and> length (bi_index h) = 2 ^ c \<and> distinct (bi_index h) \<and> set (bi_index h) \<subseteq> {..<length (entries p)}
     \<and> unat (bi_tail h) < 2 ^ c \<and> K \<le> N \<and> N - K \<le> 2 ^ c
     \<and> (\<forall>k. K \<le> k \<and> k < N \<longrightarrow> index_at p h (2 ^ c) (N - 1 - k) = Entry (of_nat (32 * k)) (Some (blk k)))
     \<and> (\<forall>j. N - K \<le> j \<and> j < 2 ^ c \<longrightarrow> entry_free (index_at p h (2 ^ c) j)))"

lemma index_repE:
  assumes "index_rep c p K N blk"
  obtains h where "1 \<le> c" "c \<le> 59" "blockIndex p = Some h" "unat (capacity h) = 2 ^ c"
    "unat (nextBlockIndexCapacity p) = 2 ^ Suc c"
    "length (bi_index h) = 2 ^ c" "distinct (bi_index h)" "set (bi_index h) \<subseteq> {..<length (entries p)}"
    "unat (bi_tail h) < 2 ^ c" "K \<le> N" "N - K \<le> 2 ^ c"
    "\<And>k. K \<le> k \<Longrightarrow> k < N \<Longrightarrow> index_at p h (2 ^ c) (N - 1 - k) = Entry (of_nat (32 * k)) (Some (blk k))"
    "\<And>j. N - K \<le> j \<Longrightarrow> j < 2 ^ c \<Longrightarrow> entry_free (index_at p h (2 ^ c) j)"
  using assms unfolding index_rep_def by blast

lemma index_repI:
  assumes "1 \<le> c" "c \<le> 59" "blockIndex p = Some h" "unat (capacity h) = 2 ^ c"
    "unat (nextBlockIndexCapacity p) = 2 ^ Suc c"
    "length (bi_index h) = 2 ^ c" "distinct (bi_index h)" "set (bi_index h) \<subseteq> {..<length (entries p)}"
    "unat (bi_tail h) < 2 ^ c" "K \<le> N" "N - K \<le> 2 ^ c"
    "\<And>k. K \<le> k \<Longrightarrow> k < N \<Longrightarrow> index_at p h (2 ^ c) (N - 1 - k) = Entry (of_nat (32 * k)) (Some (blk k))"
    "\<And>j. N - K \<le> j \<Longrightarrow> j < 2 ^ c \<Longrightarrow> entry_free (index_at p h (2 ^ c) j)"
  shows "index_rep c p K N blk"
  unfolding index_rep_def using assms by blast

lemma index_rep_cong:
  "index_rep c p K N blk \<Longrightarrow> blockIndex p' = blockIndex p \<Longrightarrow> entries p' = entries p
    \<Longrightarrow> nextBlockIndexCapacity p' = nextBlockIndexCapacity p \<Longrightarrow> index_rep c p' K N blk"
  unfolding index_rep_def index_at_def by auto

lemma mask_capacity: "unat (w :: u64) = 2 ^ c \<Longrightarrow> unat (w - 1) + 1 = 2 ^ c"
proof -
  assume w: "unat w = 2 ^ c"
  then have "w \<noteq> 0" by auto
  then show ?thesis using w by (simp add: unat_minus_one)
qed

text \<open>The key of a live entry is never the invalid one.\<close>

lemma key_valid: "(of_nat (32 * k) :: u64) \<noteq> INVALID_BLOCK_BASE"
proof
  assume "(of_nat (32 * k) :: u64) = INVALID_BLOCK_BASE"
  then have "bit (of_nat (32 * k) :: u64) 0" by (simp add: INVALID_BLOCK_BASE_def)
  then show False by (simp add: bit_0 del: of_nat_mult)
qed

lemma live_not_free: "\<not> entry_free (Entry (of_nat (32 * k)) (Some b))"
  using key_valid by (simp add: entry_free_def del: of_nat_mult)

text \<open>Writing one entry leaves the others alone, because the entry pointers of the ring are different.\<close>

lemma index_at_upd:
  assumes "distinct (bi_index h)" "length (bi_index h) = n" "set (bi_index h) \<subseteq> {..<length es}" "t < n" "i < n" "j < n"
  shows "es[bi_index h ! ring_back n t i := e] ! (bi_index h ! ring_back n t j) = (if i = j then e else es ! (bi_index h ! ring_back n t j))"
proof -
  have n: "0 < n" using assms(4) by simp
  have "bi_index h ! ring_back n t i = bi_index h ! ring_back n t j \<longleftrightarrow> i = j"
    using assms(1,2) ring_back_less [OF n] ring_back_inj [OF assms(5,6,4)] by (simp add: nth_eq_iff_index_eq)
  moreover have "bi_index h ! ring_back n t j < length es"
    using assms(2,3) ring_back_less [OF n, of t j] by (metis lessThan_iff nth_mem subsetD)
  ultimately show ?thesis by (auto simp: nth_list_update)
qed

text \<open>Entering block number \<open>N\<close> when the entry after the tail can be overwritten.\<close>

definition entered :: "nat \<Rightarrow> producer \<Rightarrow> block_index \<Rightarrow> nat \<times> producer" where
  "entered N p h =
     (let newTail = (bi_tail h + 1) AND (capacity h - 1);
          e = bi_index h ! unat newTail
      in (e, p\<lparr>entries := (entries p)[e := Entry (of_nat (32 * N)) (entry_value (entries p ! e))],
                blockIndex := Some (h\<lparr>bi_tail := newTail\<rparr>)\<rparr>))"

lemma entered_rep:
  assumes rep: "index_rep c p K N blk" and room: "N - K < 2 ^ c" and h: "blockIndex p = Some h"
    and e: "entered N p h = (e, p1)"
  shows "index_rep c (store_entry_value e (Some nb) p1) K (Suc N) (blk(N := nb))"
    "\<exists>p2. rewind_block_index_tail p1 = Inr p2 \<and> index_rep c (store_entry_value e None p2) K N blk
      \<and> store_entry_value e None p2 = p\<lparr>entries := entries (store_entry_value e None p2)\<rparr>"
proof -
  obtain h' where a: "1 \<le> c" "c \<le> 59" "blockIndex p = Some h'" "unat (capacity h') = 2 ^ c"
    "unat (nextBlockIndexCapacity p) = 2 ^ Suc c"
    "length (bi_index h') = 2 ^ c" "distinct (bi_index h')" "set (bi_index h') \<subseteq> {..<length (entries p)}"
    "unat (bi_tail h') < 2 ^ c" "K \<le> N" "N - K \<le> 2 ^ c"
    "\<And>k. K \<le> k \<Longrightarrow> k < N \<Longrightarrow> index_at p h' (2 ^ c) (N - 1 - k) = Entry (of_nat (32 * k)) (Some (blk k))"
    "\<And>j. N - K \<le> j \<Longrightarrow> j < 2 ^ c \<Longrightarrow> entry_free (index_at p h' (2 ^ c) j)"
    using index_repE [OF rep] by metis
  have hh: "h' = h" using a(3) h by simp
  note a = a [unfolded hh]
  let ?n = "2 ^ c :: nat" and ?t = "unat (bi_tail h)"
  let ?nt = "(bi_tail h + 1) AND (capacity h - 1)"
  have m: "unat (capacity h - 1) + 1 = 2 ^ c" by (rule mask_capacity [OF a(4)])
  have nt: "unat ?nt = (?t + 1) mod ?n" by (rule unat_incr_and_pow2 [OF m])
  have last: "unat ?nt = ring_back ?n ?t (?n - 1)" using nt ring_back_last [OF a(9)] by simp
  have e_eq: "e = bi_index h ! ring_back ?n ?t (?n - 1)" using e last by (simp add: entered_def Let_def)
  have p1: "p1 = p\<lparr>entries := (entries p)[e := Entry (of_nat (32 * N)) (entry_value (entries p ! e))],
      blockIndex := Some (h\<lparr>bi_tail := ?nt\<rparr>)\<rparr>"
    using e by (auto simp: entered_def Let_def)
  have n0: "0 < ?n" by simp
  have el: "e < length (entries p)"
    unfolding e_eq using a(6,8) ring_back_less [OF n0, of ?t "?n - 1"] by (metis lessThan_iff nth_mem subsetD)
  have upd: "(entries p)[e := x] ! (bi_index h ! ring_back ?n ?t j) = (if j = ?n - 1 then x else entries p ! (bi_index h ! ring_back ?n ?t j))"
    if "j < ?n" for j x
    unfolding e_eq using index_at_upd [OF a(7,6,8,9), of "?n - 1" j x] that n0 by auto
  have nt_less: "unat ?nt < ?n" using nt by simp
  have shift: "ring_back ?n (unat ?nt) (Suc j) = ring_back ?n ?t j" if "Suc j < ?n" for j
    unfolding nt by (rule ring_back_Suc [OF that a(9)])
  have at0: "ring_back ?n (unat ?nt) 0 = ring_back ?n ?t (?n - 1)" using ring_back_0 [OF nt_less] last by simp
  show "index_rep c (store_entry_value e (Some nb) p1) K (Suc N) (blk(N := nb))"
  proof (rule index_repI [where h = "h\<lparr>bi_tail := ?nt\<rparr>"])
    let ?p = "store_entry_value e (Some nb) p1"
    have es: "entries ?p = (entries p)[e := Entry (of_nat (32 * N)) (Some nb)]"
      using el by (simp add: store_entry_value_def p1)
    have at: "index_at ?p (h\<lparr>bi_tail := ?nt\<rparr>) ?n 0 = Entry (of_nat (32 * N)) (Some nb)"
      using upd [of "?n - 1"] n0 by (simp add: index_at_def es at0)
    have at_Suc: "index_at ?p (h\<lparr>bi_tail := ?nt\<rparr>) ?n (Suc j) = index_at p h ?n j" if "Suc j < ?n" for j
    proof -
      have "j \<noteq> ?n - 1" "j < ?n" using that by auto
      then show ?thesis using upd [of j] by (simp add: index_at_def es shift [OF that])
    qed
    show "index_at ?p (h\<lparr>bi_tail := ?nt\<rparr>) ?n (Suc N - 1 - k) = Entry (of_nat (32 * k)) (Some ((blk(N := nb)) k))"
      if "K \<le> k" "k < Suc N" for k
    proof (cases "k = N")
      case True
      then show ?thesis using at by simp
    next
      case False
      then have k: "k < N" "Suc (N - 1 - k) = N - k" using that by auto
      have "N - k < ?n" using room that(1) k(1) by simp
      then show ?thesis using at_Suc [of "N - 1 - k"] a(12) [OF that(1) k(1)] k by simp
    qed
    show "entry_free (index_at ?p (h\<lparr>bi_tail := ?nt\<rparr>) ?n j)" if "Suc N - K \<le> j" "j < ?n" for j
    proof -
      have "j \<noteq> 0" using that(1) a(10) by simp
      then obtain i where i: "j = Suc i" using not0_implies_Suc by blast
      have "N - K \<le> i" "i < ?n" "Suc i < ?n" using that a(10) i by auto
      then show ?thesis using at_Suc [of i] a(13) [of i] i by simp
    qed
    show "set (bi_index (h\<lparr>bi_tail := ?nt\<rparr>)) \<subseteq> {..<length (entries ?p)}" using a(8) es by simp
  qed (use a nt_less room in \<open>simp_all add: p1 store_entry_value_def\<close>)
  have rewound: "(?nt - 1) AND (capacity h - 1) = bi_tail h"
  proof -
    have t1: "?t = ?t mod ?n" using a(9) by simp
    have m1: "?nt - 1 = (?nt + of_nat (2 ^ 64 - 1))" by simp
    have u: "unat ((?nt + of_nat (2 ^ 64 - 1)) AND (capacity h - 1)) = (unat ?nt + (2 ^ 64 - 1)) mod ?n"
      by (rule unat_add_and_pow2 [OF m])
    have dvd: "?n dvd 2 ^ 64" using a(2) by (intro le_imp_power_dvd) simp
    have "(unat ?nt + (2 ^ 64 - 1)) mod ?n = (?t + 1 + (2 ^ 64 - 1)) mod ?n"
      unfolding nt by (simp add: mod_add_left_eq)
    also have "\<dots> = (?t + 2 ^ 64) mod ?n" by (simp add: add.commute)
    also have "\<dots> = ?t mod ?n" using dvd by (metis add.right_neutral mod_add_right_eq dvd_imp_mod_0)
    also have "\<dots> = ?t" using t1 by simp
    finally show ?thesis unfolding m1 word_unat_eq_iff u .
  qed
  let ?p2 = "p\<lparr>entries := (entries p)[e := Entry (of_nat (32 * N)) (entry_value (entries p ! e))]\<rparr>"
  have rw: "rewind_block_index_tail p1 = Inr ?p2"
    using rewound h by (simp add: rewind_block_index_tail_def p1)
  have es2: "entries (store_entry_value e None ?p2) = (entries p)[e := Entry (of_nat (32 * N)) None]"
    using el by (simp add: store_entry_value_def)
  have at2: "index_at (store_entry_value e None ?p2) h ?n j = (if j = ?n - 1 then Entry (of_nat (32 * N)) None else index_at p h ?n j)"
    if "j < ?n" for j unfolding index_at_def es2 by (rule upd [OF that])
  have "index_rep c (store_entry_value e None ?p2) K N blk"
  proof (rule index_repI [where h = h])
    show "index_at (store_entry_value e None ?p2) h ?n (N - 1 - k) = Entry (of_nat (32 * k)) (Some (blk k))"
      if "K \<le> k" "k < N" for k
    proof -
      have "N - 1 - k < ?n" "N - 1 - k \<noteq> ?n - 1" using room that by auto
      then show ?thesis using at2 a(12) [OF that] by simp
    qed
    show "entry_free (index_at (store_entry_value e None ?p2) h ?n j)" if "N - K \<le> j" "j < ?n" for j
      using at2 [OF that(2)] a(13) [OF that] by (simp add: entry_free_def)
    show "set (bi_index h) \<subseteq> {..<length (entries (store_entry_value e None ?p2))}" using a(8) es2 by simp
  qed (use a in \<open>simp_all add: store_entry_value_def\<close>)
  moreover have "store_entry_value e None ?p2 = p\<lparr>entries := entries (store_entry_value e None ?p2)\<rparr>"
    by (simp add: store_entry_value_def)
  ultimately show "\<exists>p2. rewind_block_index_tail p1 = Inr p2 \<and> index_rep c (store_entry_value e None p2) K N blk
      \<and> store_entry_value e None p2 = p\<lparr>entries := entries (store_entry_value e None p2)\<rparr>"
    using rw by blast
qed

text \<open>Growing the index keeps every live entry at its distance from the tail.\<close>

lemma copy_index_ring:
  assumes m: "unat (capacity h - 1) + 1 = n" "n = 2 ^ c" and t: "unat (bi_tail h) < n"
    and pos: "unat pos = (unat (bi_tail h) + j) mod n" and j: "j < n"
  shows "copy_index h (n - j) pos idx = Inr (idx @ map (\<lambda>i. bi_index h ! ((unat (bi_tail h) + 1 + i) mod n)) [j..<n])"
  using pos j
proof (induction "n - j" arbitrary: j pos idx)
  case (Suc f)
  let ?t = "unat (bi_tail h)"
  let ?pos = "(pos + 1) AND (capacity h - 1)"
  have nj: "n - j = Suc f" "f = n - Suc j" using Suc.hyps(2) by auto
  have "unat ?pos = (unat pos + 1) mod n" using unat_incr_and_pow2 [OF m(1) [unfolded m(2)]] m(2) by simp
  then have u: "unat ?pos = (?t + 1 + j) mod n" using Suc.prems(1) by (simp add: mod_Suc_eq)
  show ?case
  proof (cases "Suc j = n")
    case True
    then have "(?t + 1 + j) mod n = ?t" using t by (metis Suc_eq_plus1 add.commute add_Suc_shift mod_add_self2 mod_less plus_1_eq_Suc)
    then have "?pos = bi_tail h" using u by (simp add: word_unat_eq_iff)
    moreover have "[j..<n] = [j]" using True by (simp add: upt_rec)
    ultimately show ?thesis using nj(1) u by (simp add: Let_def)
  next
    case False
    then have l: "Suc j < n" using Suc.prems(2) by simp
    have "(?t + 1 + j) mod n \<noteq> ?t" using t l by (cases "?t + 1 + j < n") (auto simp: mod_if)
    then have "unat ?pos \<noteq> ?t" using u by simp
    then have ne: "?pos \<noteq> bi_tail h" by auto
    have "copy_index h (n - Suc j) ?pos (idx @ [bi_index h ! ((?t + 1 + j) mod n)])
        = Inr ((idx @ [bi_index h ! ((?t + 1 + j) mod n)]) @ map (\<lambda>i. bi_index h ! ((?t + 1 + i) mod n)) [Suc j..<n])"
      using Suc.hyps(1) [of "Suc j" ?pos] u l nj(2) by simp
    then show ?thesis using nj ne u Suc.prems(2) by (simp add: Let_def upt_conv_Cons)
  qed
qed simp

lemma new_block_index_grow:
  assumes rep: "index_rep c p K N blk" and c: "c \<le> 58"
  shows "\<exists>p' h. new_block_index True p = Inr (True, p') \<and> index_rep (Suc c) p' K N blk \<and> blockIndex p' = Some h
    \<and> entry_key (entries p' ! (bi_index h ! ring_back (2 ^ Suc c) (unat (bi_tail h)) (2 ^ Suc c - 1))) = INVALID_BLOCK_BASE
    \<and> p' = p\<lparr>entries := entries p', blockIndex := blockIndex p', nextBlockIndexCapacity := nextBlockIndexCapacity p'\<rparr>"
proof -
  obtain h where a: "1 \<le> c" "c \<le> 59" "blockIndex p = Some h" "unat (capacity h) = 2 ^ c"
    "unat (nextBlockIndexCapacity p) = 2 ^ Suc c"
    "length (bi_index h) = 2 ^ c" "distinct (bi_index h)" "set (bi_index h) \<subseteq> {..<length (entries p)}"
    "unat (bi_tail h) < 2 ^ c" "K \<le> N" "N - K \<le> 2 ^ c"
    "\<And>k. K \<le> k \<Longrightarrow> k < N \<Longrightarrow> index_at p h (2 ^ c) (N - 1 - k) = Entry (of_nat (32 * k)) (Some (blk k))"
    "\<And>j. N - K \<le> j \<Longrightarrow> j < 2 ^ c \<Longrightarrow> entry_free (index_at p h (2 ^ c) j)"
    using index_repE [OF rep] by metis
  define n :: nat where "n = 2 ^ c"
  define t where "t = unat (bi_tail h)"
  define es where "es = entries p"
  have n0: "0 < n" by (simp add: n_def)
  note a = a [folded n_def t_def es_def]
  have m: "unat (capacity h - 1) + 1 = n" using mask_capacity a(4) by (simp add: n_def)
  define old where "old = map (\<lambda>i. bi_index h ! ((t + 1 + i) mod n)) [0..<n]"
  have copy: "copy_index h n (bi_tail h) [] = Inr old"
    using copy_index_ring [OF m n_def, of "bi_tail h" 0 "[]"] a(9) n0 by (simp add: t_def old_def)
  define ix where "ix = old @ [length es..<length es + n]"
  define es' where "es' = es @ replicate n (Entry INVALID_BLOCK_BASE None)"
  define h' where "h' = \<lparr>capacity = nextBlockIndexCapacity p,
    bi_tail = (capacity h - 1) AND (nextBlockIndexCapacity p - 1), bi_index = ix\<rparr>"
  define p' where "p' = p\<lparr>entries := es', blockIndex := Some h',
    nextBlockIndexCapacity := push_bit 1 (nextBlockIndexCapacity p)\<rparr>"
  have nb: "new_block_index True p = Inr (True, p')"
    using a(3,4) copy by (simp add: new_block_index_def Let_def p'_def h'_def es'_def ix_def es_def old_def)
  have n2: "2 ^ Suc c = 2 * n" by (simp add: n_def)
  have m2: "unat (nextBlockIndexCapacity p - 1) + 1 = 2 ^ Suc c" by (rule mask_capacity [OF a(5)])
  have tail: "unat (bi_tail h') = n - 1"
    using unat_and_pow2 [OF m2, of "capacity h - 1"] m n0 n2 by (simp add: h'_def)
  have cap: "unat (push_bit 1 (nextBlockIndexCapacity p)) = 2 ^ Suc (Suc c)"
  proof -
    have "(2::nat) ^ Suc (Suc c) < 2 ^ 64" using c by (intro power_strict_increasing) simp_all
    then have l: "2 * unat (nextBlockIndexCapacity p) < 2 ^ 64" using a(5) by simp
    then show ?thesis using a(5) by (simp add: push_bit_eq_mult unat_word_ariths)
  qed
  have old_at: "old ! (n - 1 - j) = bi_index h ! ring_back n t j" if "j < n" for j
  proof -
    have "t + 1 + (n - 1 - j) = t + n - j" using that by simp
    then show ?thesis using that by (simp add: old_def ring_back_def)
  qed
  have ix_old: "ix ! ring_back (2 * n) (n - 1) j = bi_index h ! ring_back n t j" if "j < n" for j
  proof -
    have "ring_back (2 * n) (n - 1) j = n - 1 - j" using that by (simp add: ring_back_def mod_if)
    then show ?thesis using old_at [OF that] that by (simp add: ix_def nth_append old_def)
  qed
  have ix_new: "\<exists>i < n. ix ! ring_back (2 * n) (n - 1) j = length es + i" if "n \<le> j" "j < 2 * n" for j
  proof -
    have "ring_back (2 * n) (n - 1) j = n + (2 * n - 1 - j)" using that by (simp add: ring_back_def mod_if)
    moreover have "2 * n - 1 - j < n" using that by linarith
    ultimately show ?thesis by (intro exI [of _ "2 * n - 1 - j"]) (simp add: ix_def nth_append old_def)
  qed
  have in_es: "bi_index h ! ring_back n t j < length es" for j
    using a(6,8) ring_back_less [OF n0, of t j] by (metis lessThan_iff nth_mem subsetD)
  have at_old: "index_at p' h' (2 * n) j = index_at p h n j" if "j < n" for j
    using ix_old [OF that] in_es [of j] tail by (simp add: index_at_def p'_def h'_def es'_def nth_append t_def es_def)
  have at_new: "index_at p' h' (2 * n) j = Entry INVALID_BLOCK_BASE None" if "n \<le> j" "j < 2 * n" for j
    using ix_new [OF that] tail by (auto simp: index_at_def p'_def h'_def es'_def nth_append)
  have dist: "distinct old" "set old \<subseteq> set (bi_index h)"
  proof -
    have "(t + 1 + i) mod n = (if t + 1 + i < n then t + 1 + i else t + 1 + i - n)" if "i < n" for i
      using that a(9) by (auto simp: mod_if)
    then have "inj_on (\<lambda>i. (t + 1 + i) mod n) {0..<n}" by (intro inj_onI) (auto split: if_splits)
    moreover have "bi_index h ! i = bi_index h ! j \<longleftrightarrow> i = j" if "i < n" "j < n" for i j
      using a(6,7) that by (simp add: nth_eq_iff_index_eq)
    ultimately have "inj_on (\<lambda>i. bi_index h ! ((t + 1 + i) mod n)) {0..<n}"
      using n0 unfolding inj_on_def by (metis mod_less_divisor)
    then show "distinct old" by (simp add: old_def distinct_map)
    show "set old \<subseteq> set (bi_index h)" using a(6) n0 by (auto simp: old_def)
  qed
  have "index_rep (Suc c) p' K N blk"
  proof (rule index_repI [where h = h'])
    show "index_at p' h' (2 ^ Suc c) (N - 1 - k) = Entry (of_nat (32 * k)) (Some (blk k))" if "K \<le> k" "k < N" for k
      using at_old [of "N - 1 - k"] a(11) a(12) [OF that] that unfolding n2 by simp
    show "entry_free (index_at p' h' (2 ^ Suc c) j)" if "N - K \<le> j" "j < 2 ^ Suc c" for j
      using at_old [of j] at_new [of j] a(13) [of j] that unfolding n2 by (cases "j < n") (auto simp: entry_free_def)
    show "distinct (bi_index h')" using dist a(8) by (fastforce simp: h'_def ix_def)
    show "set (bi_index h') \<subseteq> {..<length (entries p')}" using dist(2) a(8) by (fastforce simp: h'_def ix_def p'_def es'_def)
    show "unat (bi_tail h') < 2 ^ Suc c" using tail n0 n2 by simp
    show "N - K \<le> 2 ^ Suc c" using a(11) n2 by simp
    show "length (bi_index h') = 2 ^ Suc c" using n2 by (simp add: h'_def ix_def old_def)
    show "unat (nextBlockIndexCapacity p') = 2 ^ Suc (Suc c)" using cap by (simp add: p'_def)
    show "unat (capacity h') = 2 ^ Suc c" using a(5) by (simp add: h'_def)
  qed (use a(1,2,10) c in \<open>simp_all add: p'_def\<close>)
  moreover have "entry_key (entries p' ! (bi_index h' ! ring_back (2 ^ Suc c) (unat (bi_tail h')) (2 ^ Suc c - 1))) = INVALID_BLOCK_BASE"
    using at_new [of "2 * n - 1"] n0 unfolding n2 index_at_def by simp
  moreover have "blockIndex p' = Some h'"
    "p' = p\<lparr>entries := entries p', blockIndex := blockIndex p', nextBlockIndexCapacity := nextBlockIndexCapacity p'\<rparr>"
    by (simp_all add: p'_def)
  ultimately show ?thesis using nb by blast
qed

definition same_positions :: "producer \<Rightarrow> producer \<Rightarrow> bool" where
  "same_positions p p' \<longleftrightarrow> tailIndex p' = tailIndex p \<and> headIndex p' = headIndex p
     \<and> dequeueOptimisticCount p' = dequeueOptimisticCount p \<and> dequeueOvercommit p' = dequeueOvercommit p
     \<and> tailBlock p' = tailBlock p"

lemma same_positions_upd:
  "p' = p\<lparr>entries := x, blockIndex := y, nextBlockIndexCapacity := z\<rparr> \<Longrightarrow> same_positions p p'"
  "p' = p\<lparr>entries := x\<rparr> \<Longrightarrow> same_positions p p'"
  by (auto simp: same_positions_def)

lemma same_positions_trans: "same_positions p q \<Longrightarrow> same_positions q r \<Longrightarrow> same_positions p r"
  by (simp add: same_positions_def)

lemma entered_positions: "entered N p h = (e, p1) \<Longrightarrow> same_positions p p1"
  by (auto simp: entered_def Let_def same_positions_def)

text \<open>The entry after the tail can be overwritten exactly when there are fewer live blocks than entries.\<close>

lemma next_entry_free:
  assumes rep: "index_rep c p K N blk" and h: "blockIndex p = Some h"
  defines "e \<equiv> entries p ! (bi_index h ! unat ((bi_tail h + 1) AND (capacity h - 1)))"
  shows "(entry_key e = INVALID_BLOCK_BASE \<or> entry_value e = None) \<longleftrightarrow> N - K < 2 ^ c"
    "unat ((bi_tail h + 1) AND (capacity h - 1)) = ring_back (2 ^ c) (unat (bi_tail h)) (2 ^ c - 1)"
proof -
  obtain h' where a: "blockIndex p = Some h'" "unat (capacity h') = 2 ^ c" "unat (bi_tail h') < 2 ^ c" "K \<le> N" "N - K \<le> 2 ^ c"
    "\<And>k. K \<le> k \<Longrightarrow> k < N \<Longrightarrow> index_at p h' (2 ^ c) (N - 1 - k) = Entry (of_nat (32 * k)) (Some (blk k))"
    "\<And>j. N - K \<le> j \<Longrightarrow> j < 2 ^ c \<Longrightarrow> entry_free (index_at p h' (2 ^ c) j)"
    using index_repE [OF rep] by metis
  have hh: "h' = h" using a(1) h by simp
  note a = a [unfolded hh]
  have m: "unat (capacity h - 1) + 1 = 2 ^ c" by (rule mask_capacity [OF a(2)])
  show pos: "unat ((bi_tail h + 1) AND (capacity h - 1)) = ring_back (2 ^ c) (unat (bi_tail h)) (2 ^ c - 1)"
    using unat_incr_and_pow2 [OF m] ring_back_last [OF a(3)] by simp
  have e: "e = index_at p h (2 ^ c) (2 ^ c - 1)" by (simp add: e_def index_at_def pos)
  show "(entry_key e = INVALID_BLOCK_BASE \<or> entry_value e = None) \<longleftrightarrow> N - K < 2 ^ c"
  proof (cases "N - K < 2 ^ c")
    case True
    then show ?thesis using a(7) [of "2 ^ c - 1"] e by (simp add: entry_free_def)
  next
    case False
    have pos: "0 < (2::nat) ^ c" by simp
    have "N - 1 - K = 2 ^ c - 1" "K < N" using False a(4,5) pos by linarith+
    then have "e = Entry (of_nat (32 * K)) (Some (blk K))" using a(6) [of K] e by simp
    then show ?thesis using live_not_free [of K "blk K"] False unfolding entry_free_def by simp
  qed
qed

lemma insert_rep:
  assumes rep: "index_rep c p K N blk" and live: "N - K < 2 ^ 58"
  shows "\<exists>r p1. insert_block_index_entry am ok (of_nat (32 * N)) p = Inr (r, p1) \<and> same_positions p p1
    \<and> (case r of
         None \<Rightarrow> p1 = p \<and> (am = Cannot_alloc \<or> \<not> ok)
       | Some e \<Rightarrow> \<exists>c'. (\<forall>nb. index_rep c' (store_entry_value e (Some nb) p1) K (Suc N) (blk(N := nb)))
           \<and> (\<exists>p2. rewind_block_index_tail p1 = Inr p2 \<and> index_rep c' (store_entry_value e None p2) K N blk
                \<and> same_positions p (store_entry_value e None p2)))"
proof -
  obtain h where h: "blockIndex p = Some h" and NK: "N - K \<le> 2 ^ c" using index_repE [OF rep] by metis
  show ?thesis
  proof (cases "N - K < 2 ^ c")
    case True
    obtain e p1 where e: "entered N p h = (e, p1)" by (cases "entered N p h")
    have "insert_block_index_entry am ok (of_nat (32 * N)) p = Inr (Some e, p1)"
      using next_entry_free(1) [OF rep h] True e h
      by (auto simp: insert_block_index_entry_def entered_def Let_def simp del: of_nat_mult)
    then show ?thesis
      using entered_rep [OF rep True h e] entered_positions [OF e] same_positions_upd(2) by fastforce
  next
    case full: False
    have nf: "\<not> (entry_key (entries p ! (bi_index h ! unat ((bi_tail h + 1) AND (capacity h - 1)))) = INVALID_BLOCK_BASE
      \<or> entry_value (entries p ! (bi_index h ! unat ((bi_tail h + 1) AND (capacity h - 1)))) = None)"
      using next_entry_free(1) [OF rep h] full by simp
    show ?thesis
    proof (cases "am = Cannot_alloc \<or> \<not> ok")
      case True
      have "new_block_index False p = Inr (False, p)" by (simp add: new_block_index_def)
      then have "insert_block_index_entry am ok (of_nat (32 * N)) p = Inr (None, p)"
        using nf True h by (auto simp: insert_block_index_entry_def Let_def)
      then show ?thesis using True by (auto simp: same_positions_def)
    next
      case False
      then have am: "am = Can_alloc" "ok" using alloc_mode.exhaust by auto
      have "(2::nat) ^ c < 2 ^ 58" using full live by linarith
      then have "c < 58" by (rule power_less_imp_less_exp [rotated]) simp
      then obtain p0 h0 where g: "new_block_index True p = Inr (True, p0)" "index_rep (Suc c) p0 K N blk" "blockIndex p0 = Some h0"
        "entry_key (entries p0 ! (bi_index h0 ! ring_back (2 ^ Suc c) (unat (bi_tail h0)) (2 ^ Suc c - 1))) = INVALID_BLOCK_BASE"
        "p0 = p\<lparr>entries := entries p0, blockIndex := blockIndex p0, nextBlockIndexCapacity := nextBlockIndexCapacity p0\<rparr>"
        using new_block_index_grow [OF rep] by (meson less_imp_le)
      have room: "N - K < 2 ^ Suc c"
      proof -
        have "0 < (2::nat) ^ c" by simp
        then show ?thesis using NK by (simp only: power_Suc)
      qed
      obtain e p1 where e: "entered N p0 h0 = (e, p1)" by (cases "entered N p0 h0")
      have key: "entry_key (entries p0 ! (bi_index h0 ! unat ((bi_tail h0 + 1) AND (capacity h0 - 1)))) = INVALID_BLOCK_BASE"
        using g(4) unfolding next_entry_free(2) [OF g(2,3)] .
      have "insert_block_index_entry am ok (of_nat (32 * N)) p = Inr (Some e, p1)"
        using nf am h g(1,3) key e
        by (auto simp: insert_block_index_entry_def entered_def Let_def simp del: of_nat_mult)
      moreover have "same_positions p p0" using same_positions_upd(1) [OF g(5)] .
      moreover obtain p2 where p2: "rewind_block_index_tail p1 = Inr p2" "index_rep (Suc c) (store_entry_value e None p2) K N blk"
        "same_positions p0 (store_entry_value e None p2)"
        using entered_rep(2) [OF g(2) room g(3) e] same_positions_upd(2) by blast
      ultimately show ?thesis
        using entered_rep(1) [OF g(2) room g(3) e] same_positions_trans [OF _ entered_positions [OF e]]
          same_positions_trans [OF _ p2(3)] by auto
    qed
  qed
qed

subsection \<open>Looking a block up\<close>

lemma block_base: "(of_nat H :: u64) AND NOT (BLOCK_SIZE - 1) = of_nat (32 * (H div 32))"
proof -
  have "(32 :: nat) * (H div 32) = push_bit 5 (drop_bit 5 H)"
    by (simp add: push_bit_eq_mult drop_bit_eq_div)
  moreover have "BLOCK_SIZE - 1 = mask 5" by (simp add: BLOCK_SIZE_def mask_eq_exp_minus_1)
  moreover have "(of_nat H :: u64) AND NOT (mask 5) = of_nat (push_bit 5 (drop_bit 5 H))"
    by (rule bit_eqI) (auto simp: bit_and_iff bit_not_iff bit_mask_iff bit_of_nat_iff bit_push_bit_iff bit_drop_bit_eq)
  ultimately show ?thesis by simp
qed

lemma slot_of_nat: "slot (of_nat H) = H mod 32"
proof -
  have m: "unat (BLOCK_SIZE - 1) + 1 = 2 ^ 5" by (simp add: BLOCK_SIZE_def)
  have "unat (of_nat H :: u64) mod 32 = H mod 32" by (simp add: unat_of_nat mod_mod_cancel)
  then show ?thesis unfolding slot_def unat_and_pow2 [OF m] by simp
qed

text \<open>The unsigned division of a negative distance still reaches the right entry, because the size of the ring divides \<open>2 ^ 59\<close>.\<close>

lemma ring_offset:
  assumes m: "unat (cap - 1) + 1 = 2 ^ c" and c: "c \<le> 59" and d: "d < 2 ^ c" and k: "N = k + d"
  shows "unat (((t :: u64) + (of_nat (32 * k) - of_nat (32 * N)) div BLOCK_SIZE) AND (cap - 1)) = ring_back (2 ^ c) (unat t) d"
proof -
  let ?n = "2 ^ c :: nat"
  have dvd: "?n dvd 2 ^ 59" using c by (rule le_imp_power_dvd)
  have "d < 2 ^ 59" using d c by (meson less_le_trans one_le_numeral power_increasing)
  have "(of_nat (32 * k) - of_nat (32 * N) :: u64) = - of_nat (32 * d)" by (simp add: k)
  moreover have "unat (- of_nat (32 * d) :: u64) div 32 = (2 ^ 59 - d) mod 2 ^ 59"
  proof (cases "d = 0")
    case False
    have "32 * d < 2 ^ 64" using \<open>d < 2 ^ 59\<close> by simp
    then have "of_nat (32 * d) + of_nat (2 ^ 64 - 32 * d) = (of_nat (2 ^ 64) :: u64)"
      by (simp flip: of_nat_add del: of_nat_mult)
    also have "\<dots> = 0" by simp
    finally have "- of_nat (32 * d) = (of_nat (2 ^ 64 - 32 * d) :: u64)" by (rule minus_unique)
    then have "unat (- of_nat (32 * d) :: u64) = 2 ^ 64 - 32 * d"
      using False by (simp add: unat_of_nat del: of_nat_mult of_nat_diff)
    also have "\<dots> = 32 * (2 ^ 59 - d)" by (simp add: right_diff_distrib')
    finally show ?thesis using False by (simp del: of_nat_mult)
  qed simp
  ultimately have off: "unat ((of_nat (32 * k) - of_nat (32 * N)) div BLOCK_SIZE :: u64) = (2 ^ 59 - d) mod 2 ^ 59"
    by (simp only: unat_div BLOCK_SIZE_nat)
  define w where "w = (of_nat (32 * k) - of_nat (32 * N)) div (BLOCK_SIZE :: u64)"
  have "unat ((t + of_nat (unat w)) AND (cap - 1)) = (unat t + unat w) mod ?n" by (rule unat_add_and_pow2 [OF m])
  moreover have "(of_nat (unat w) :: u64) = w" by (simp add: of_nat_unat ucast_id)
  ultimately have "unat ((t + w) AND (cap - 1)) = (unat t + unat w) mod ?n" by simp
  also have "\<dots> = (unat t + (2 ^ 59 - d)) mod ?n"
    unfolding w_def off using mod_mod_cancel [OF dvd, of "2 ^ 59 - d"] by (intro mod_add_cong) simp_all
  also have "\<dots> = ring_back ?n (unat t) d"
  proof -
    obtain q where q: "(2::nat) ^ 59 = ?n * q" using dvd by (auto elim: dvdE)
    then have "q \<noteq> 0" by (metis mult_0_right power_not_zero zero_neq_numeral)
    then obtain r where r: "q = Suc r" using not0_implies_Suc by blast
    have "unat t + (2 ^ 59 - d) = (unat t + ?n - d) + ?n * r" using q r d by simp
    then show ?thesis by (simp add: ring_back_def)
  qed
  finally show ?thesis unfolding w_def .
qed

lemma lookup_index:
  assumes rep: "index_rep c p K N blk" and h: "blockIndex p = Some h" and K: "K \<le> k" "k < N" and H: "H div 32 = k"
  defines "i \<equiv> ring_back (2 ^ c) (unat (bi_tail h)) (N - 1 - k)"
  shows "get_block_index_index_for_index (of_nat H) p = Inr i"
    "entries p ! (bi_index h ! i) = Entry (of_nat (32 * k)) (Some (blk k))"
proof -
  obtain h' where a: "1 \<le> c" "c \<le> 59" "blockIndex p = Some h'" "unat (capacity h') = 2 ^ c"
    "unat (bi_tail h') < 2 ^ c" "N - K \<le> 2 ^ c"
    "\<And>k. K \<le> k \<Longrightarrow> k < N \<Longrightarrow> index_at p h' (2 ^ c) (N - 1 - k) = Entry (of_nat (32 * k)) (Some (blk k))"
    using index_repE [OF rep] by metis
  have "h' = h" using a(3) h by simp
  note a = a [unfolded this]
  define n :: nat where "n = 2 ^ c"
  define t where "t = unat (bi_tail h)"
  define d where "d = N - 1 - k"
  have d: "d < n" "N - 1 = k + d" using K a(6) by (auto simp: d_def n_def)
  have t: "t < n" using a(5) by (simp add: n_def t_def)
  show at: "entries p ! (bi_index h ! i) = Entry (of_nat (32 * k)) (Some (blk k))"
    using a(7) [of k] K by (simp add: i_def index_at_def)
  have base: "entries p ! (bi_index h ! t) = Entry (of_nat (32 * (N - 1))) (Some (blk (N - 1)))"
    using a(7) [of "N - 1"] K t ring_back_0 [OF t] by (simp add: index_at_def n_def t_def)
  have off: "unat (bi_tail h + (of_nat (32 * k) - of_nat (32 * (N - 1))) div BLOCK_SIZE AND capacity h - 1) = i"
    unfolding i_def using d by (intro ring_offset [OF mask_capacity [OF a(4)] a(2)]) (simp_all add: n_def d_def)
  have bb: "(of_nat H :: u64) AND NOT (BLOCK_SIZE - 1) = of_nat (32 * k)" using block_base [of H] H by simp
  show "get_block_index_index_for_index (of_nat H) p = Inr i"
    unfolding get_block_index_index_for_index_def Let_def h option.simps bb t_def [symmetric] base index_entry.sel off
    using at key_valid [of "N - 1"] by (simp del: of_nat_mult)
qed

lemma lookup_rep:
  assumes rep: "index_rep c p K N blk" and K: "K \<le> k" "k < N" and H: "H div 32 = k"
  shows "\<exists>e. get_block_index_entry_for_index (of_nat H) p = Inr e \<and> entry_value (entries p ! e) = Some (blk k)
    \<and> (k = K \<longrightarrow> index_rep c (store_entry_value e None p) (Suc K) N blk)"
proof -
  obtain h where a: "1 \<le> c" "c \<le> 59" "blockIndex p = Some h" "unat (capacity h) = 2 ^ c"
    "unat (nextBlockIndexCapacity p) = 2 ^ Suc c"
    "length (bi_index h) = 2 ^ c" "distinct (bi_index h)" "set (bi_index h) \<subseteq> {..<length (entries p)}"
    "unat (bi_tail h) < 2 ^ c" "K \<le> N" "N - K \<le> 2 ^ c"
    "\<And>k. K \<le> k \<Longrightarrow> k < N \<Longrightarrow> index_at p h (2 ^ c) (N - 1 - k) = Entry (of_nat (32 * k)) (Some (blk k))"
    "\<And>j. N - K \<le> j \<Longrightarrow> j < 2 ^ c \<Longrightarrow> entry_free (index_at p h (2 ^ c) j)"
    using index_repE [OF rep] by metis
  define n :: nat where "n = 2 ^ c"
  define t where "t = unat (bi_tail h)"
  define d where "d = N - 1 - k"
  define e where "e = bi_index h ! ring_back n t d"
  have d: "d < n" using K a(11) by (auto simp: d_def n_def)
  have t: "t < n" using a(9) by (simp add: n_def t_def)
  note look = lookup_index [OF rep a(3) K H]
  have at: "entries p ! e = Entry (of_nat (32 * k)) (Some (blk k))" using look(2) by (simp add: e_def n_def t_def d_def)
  have "get_block_index_entry_for_index (of_nat H) p = Inr e"
    using look(1) a(3) by (simp add: get_block_index_entry_for_index_def e_def n_def t_def d_def)
  moreover have "index_rep c (store_entry_value e None p) (Suc K) N blk" if kK: "k = K"
  proof (rule index_repI [where h = h])
    have upd: "index_at (store_entry_value e None p) h n j = (if d = j then Entry (of_nat (32 * K)) None else index_at p h n j)"
      if "j < n" for j
      using index_at_upd [OF a(7) a(6) [folded n_def] a(8) t d that, of "Entry (of_nat (32 * K)) None"] at kK
      by (simp add: index_at_def store_entry_value_def e_def t_def del: of_nat_mult)
    show "index_at (store_entry_value e None p) h (2 ^ c) (N - 1 - k) = Entry (of_nat (32 * k)) (Some (blk k))"
      if "Suc K \<le> k" "k < N" for k
    proof -
      have "N - 1 - k < n" "d \<noteq> N - 1 - k" using that K d kK by (auto simp: d_def)
      then show ?thesis using upd [of "N - 1 - k"] a(12) [of k] that by (simp add: n_def)
    qed
    show "entry_free (index_at (store_entry_value e None p) h (2 ^ c) j)" if "N - Suc K \<le> j" "j < 2 ^ c" for j
    proof (cases "d = j")
      case True
      then show ?thesis using upd [of j] that(2) by (simp add: n_def entry_free_def)
    next
      case False
      then have "N - K \<le> j" using that(1) K kK by (simp add: d_def)
      then show ?thesis using upd [of j] that(2) False a(13) by (simp add: n_def)
    qed
  qed (use a K kK in \<open>simp_all add: store_entry_value_def\<close>)
  ultimately show ?thesis using at by auto
qed

subsection \<open>The sub-queue as a list\<close>

text \<open>
  A producer whose head is at position \<open>H\<close> and that holds \<open>xs\<close>: block number \<open>k\<close> has the elements of the
  positions \<open>32 * k ..< 32 * k + 32\<close> that are in the queue, and counts those before the head.
\<close>

definition block_holds :: "'a cblock \<Rightarrow> nat \<Rightarrow> 'a list \<Rightarrow> nat \<Rightarrow> bool" where
  "block_holds b H xs k \<longleftrightarrow> length (elements b) = 32 \<and> elementsCompletelyDequeued b = of_nat (H - 32 * k)
     \<and> (\<forall>s < 32. elements b ! s = (if H \<le> 32 * k + s \<and> 32 * k + s < H + length xs then Some (xs ! (32 * k + s - H)) else None))"

definition prod_core ::
  "'a pool \<Rightarrow> producer \<Rightarrow> 'a list \<Rightarrow> nat set \<Rightarrow> nat \<Rightarrow> nat \<Rightarrow> nat \<Rightarrow> (nat \<Rightarrow> nat) \<Rightarrow> bool" where
  "prod_core P p xs L c H N blk \<longleftrightarrow>
     tailIndex p = of_nat (H + length xs) \<and> headIndex p = of_nat H \<and> dequeueOptimisticCount p = of_nat H
     \<and> dequeueOvercommit p = 0 \<and> 32 * N < H + 2 ^ 63 \<and> index_rep c p (H div 32) N blk
     \<and> inj_on blk {H div 32..<N} \<and> L = blk ` {H div 32..<N}
     \<and> (\<forall>k. H div 32 \<le> k \<and> k < N \<longrightarrow> blk k < length (cblocks P) \<and> block_holds (cblocks P ! blk k) H xs k)"

lemma prod_coreE:
  assumes "prod_core P p xs L c H N blk"
  obtains "tailIndex p = of_nat (H + length xs)" "headIndex p = of_nat H" "dequeueOptimisticCount p = of_nat H"
    "dequeueOvercommit p = 0" "32 * N < H + 2 ^ 63" "index_rep c p (H div 32) N blk"
    "inj_on blk {H div 32..<N}" "L = blk ` {H div 32..<N}"
    "\<And>k. H div 32 \<le> k \<Longrightarrow> k < N \<Longrightarrow> blk k < length (cblocks P)"
    "\<And>k. H div 32 \<le> k \<Longrightarrow> k < N \<Longrightarrow> block_holds (cblocks P ! blk k) H xs k"
  using assms unfolding prod_core_def by blast

lemma prod_coreI:
  assumes "tailIndex p = of_nat (H + length xs)" "headIndex p = of_nat H" "dequeueOptimisticCount p = of_nat H"
    "dequeueOvercommit p = 0" "32 * N < H + 2 ^ 63" "index_rep c p (H div 32) N blk"
    "inj_on blk {H div 32..<N}" "L = blk ` {H div 32..<N}"
    "\<And>k. H div 32 \<le> k \<Longrightarrow> k < N \<Longrightarrow> blk k < length (cblocks P)"
    "\<And>k. H div 32 \<le> k \<Longrightarrow> k < N \<Longrightarrow> block_holds (cblocks P ! blk k) H xs k"
  shows "prod_core P p xs L c H N blk"
  using assms unfolding prod_core_def by blast

text \<open>At rest, there is exactly one block for every started group of 32 positions.\<close>

definition prod_rep :: "'a pool \<Rightarrow> producer \<Rightarrow> 'a list \<Rightarrow> nat set \<Rightarrow> bool" where
  "prod_rep P p xs L \<longleftrightarrow> (\<exists>c H N blk. prod_core P p xs L c H N blk \<and> N = (H + length xs + 31) div 32
     \<and> (H div 32 < N \<longrightarrow> tailBlock p = Some (blk (N - 1))))"

text \<open>
  What an operation of one producer leaves alone: the blocks that are neither its own nor free.
\<close>

definition pool_frame :: "nat set \<Rightarrow> 'a pool \<Rightarrow> 'a pool \<Rightarrow> bool" where
  "pool_frame S P P' \<longleftrightarrow> length (cblocks P) \<le> length (cblocks P')
     \<and> (\<forall>n < length (cblocks P). n \<notin> S \<longrightarrow> cblocks P' ! n = cblocks P ! n)"

lemma pool_frame_refl [simp]: "pool_frame S P P"
  by (simp add: pool_frame_def)

lemma pool_frame_trans: "pool_frame S P Q \<Longrightarrow> pool_frame T Q R \<Longrightarrow> pool_frame (S \<union> T) P R"
  by (simp add: pool_frame_def)

lemma pool_frame_mono: "pool_frame S P Q \<Longrightarrow> S \<subseteq> T \<Longrightarrow> pool_frame T P Q"
  by (auto simp: pool_frame_def)

lemma pool_frame_upd: "n \<in> S \<Longrightarrow> pool_frame S P (upd_cblock n f P)"
  by (auto simp: pool_frame_def) (metis nth_list_update_neq)

lemma prod_core_frame:
  assumes core: "prod_core P p xs L c H N blk" and fr: "pool_frame S P P'" and dis: "L \<inter> S = {}"
  shows "prod_core P' p xs L c H N blk"
proof (rule prod_coreE [OF core], rule prod_coreI)
  assume a: "L = blk ` {H div 32..<N}"
    "\<And>k. H div 32 \<le> k \<Longrightarrow> k < N \<Longrightarrow> blk k < length (cblocks P)"
    "\<And>k. H div 32 \<le> k \<Longrightarrow> k < N \<Longrightarrow> block_holds (cblocks P ! blk k) H xs k"
  have s: "blk k < length (cblocks P) \<and> length (cblocks P) \<le> length (cblocks P') \<and> cblocks P' ! blk k = cblocks P ! blk k"
    if "H div 32 \<le> k" "k < N" for k
  proof -
    have "blk k \<in> L" using a(1) that by simp
    then have "blk k \<notin> S" using dis by blast
    then show ?thesis using a(2) [OF that] fr by (simp add: pool_frame_def)
  qed
  show "blk k < length (cblocks P')" if "H div 32 \<le> k" "k < N" for k using s [OF that] by simp
  show "block_holds (cblocks P' ! blk k) H xs k" if "H div 32 \<le> k" "k < N" for k using s [OF that] a(3) [OF that] by simp
qed

lemma prod_rep_frame: "prod_rep P p xs L \<Longrightarrow> pool_frame S P P' \<Longrightarrow> L \<inter> S = {} \<Longrightarrow> prod_rep P' p xs L"
  unfolding prod_rep_def using prod_core_frame by blast

lemma put_element_length: "put_element i x p P = Inr (p', P') \<Longrightarrow> length (cblocks P') = length (cblocks P)"
  by (auto simp: put_element_def split: option.splits)

text \<open>Writing the next element into the tail block.\<close>

lemma put_element_rep:
  assumes core: "prod_core P p xs L c H N blk" and N: "32 * (N - 1) \<le> H + length xs" "H + length xs < 32 * N"
    and tb: "tailBlock p = Some (blk (N - 1))" and rep: "pool_rep P F" and dis: "L \<inter> F = {}"
  shows "\<exists>p' P'. put_element (tailIndex p) x p P = Inr (p', P') \<and> prod_rep P' p' (xs @ [x]) L \<and> pool_rep P' F
    \<and> pool_frame L P P'"
proof -
  have a: "tailIndex p = of_nat (H + length xs)" "headIndex p = of_nat H" "dequeueOptimisticCount p = of_nat H"
    "dequeueOvercommit p = 0" "32 * N < H + 2 ^ 63" "index_rep c p (H div 32) N blk"
    "inj_on blk {H div 32..<N}" "L = blk ` {H div 32..<N}"
    "\<And>k. H div 32 \<le> k \<Longrightarrow> k < N \<Longrightarrow> blk k < length (cblocks P)"
    "\<And>k. H div 32 \<le> k \<Longrightarrow> k < N \<Longrightarrow> block_holds (cblocks P ! blk k) H xs k"
    using prod_coreE [OF core] by blast+
  define b where "b = blk (N - 1)"
  define T where "T = H + length xs"
  let ?f = "\<lambda>bk. bk\<lparr>elements := (elements bk)[T mod 32 := Some x]\<rparr>"
  let ?p = "p\<lparr>tailIndex := 1 + tailIndex p\<rparr>"
  let ?P = "upd_cblock b ?f P"
  have N1: "H div 32 \<le> N - 1" "N - 1 < N" using N by linarith+
  have bL: "b \<in> L" using a(8) N1 by (simp add: b_def)
  have bl: "b < length (cblocks P)" using a(9) [OF N1] by (simp add: b_def)
  have T: "T = 32 * (N - 1) + T mod 32" 
  proof -
    have "T div 32 = N - 1" using N by (intro div_nat_eqI) (simp_all add: T_def)
    then show ?thesis by (metis div_mult_mod_eq mult.commute)
  qed
  have put: "put_element (tailIndex p) x p P = Inr (?p, ?P)"
    using tb slot_of_nat [of T] by (simp add: put_element_def b_def a(1) T_def)
  have "prod_core ?P ?p (xs @ [x]) L c H N blk"
  proof (rule prod_coreI)
    show "index_rep c ?p (H div 32) N blk" using index_rep_cong [OF a(6)] by simp
    show "block_holds (cblocks ?P ! blk k) H (xs @ [x]) k" if k: "H div 32 \<le> k" "k < N" for k
    proof (cases "k = N - 1")
      case True
      note old = a(10) [OF k, unfolded block_holds_def]
      have "(elements (cblocks P ! b))[T mod 32 := Some x] ! s
          = (if H \<le> 32 * k + s \<and> 32 * k + s < H + length (xs @ [x]) then Some ((xs @ [x]) ! (32 * k + s - H)) else None)"
        if s: "s < 32" for s
      proof (cases "s = T mod 32")
        case True
        then have e: "32 * k + s = T" using T \<open>k = N - 1\<close> by simp
        have "T mod 32 < length (elements (cblocks P ! b))" using old True \<open>k = N - 1\<close> by (simp add: b_def)
        then show ?thesis unfolding e using True by (simp add: T_def)
      next
        case False
        then have "32 * k + s \<noteq> T" using T \<open>k = N - 1\<close> by linarith
        then show ?thesis using old s False \<open>k = N - 1\<close> by (auto simp: b_def T_def nth_append)
      qed
      then show ?thesis using old True bl by (simp add: block_holds_def b_def)
    next
      case False
      then have "blk k \<noteq> b" using a(7) k N1 by (auto simp: b_def inj_on_def)
      moreover have "(if H \<le> 32 * k + s \<and> 32 * k + s < H + length (xs @ [x]) then Some ((xs @ [x]) ! (32 * k + s - H)) else None)
          = (if H \<le> 32 * k + s \<and> 32 * k + s < H + length xs then Some (xs ! (32 * k + s - H)) else None)" if "s < 32" for s
      proof -
        have "32 * k + s < H + length xs" using T that False k(2) unfolding T_def by linarith
        then show ?thesis by (auto simp: nth_append)
      qed
      ultimately show ?thesis using a(10) [OF k] by (simp add: block_holds_def)
    qed
  qed (use a in \<open>simp_all add: T_def\<close>)
  moreover have "N = (H + length (xs @ [x]) + 31) div 32" using N by simp
  ultimately have "prod_rep ?P ?p (xs @ [x]) L" unfolding prod_rep_def using tb by auto
  moreover have "pool_rep ?P F"
    using pool_rep_wf [OF rep bl] bL dis by (intro pool_rep_write [OF rep]) (auto simp: block_wf_def)
  ultimately show ?thesis using put pool_frame_upd [OF bL] by blast
qed

text \<open>Attaching a fresh block for the next group of positions.\<close>

lemma attach_block_rep:
  assumes core: "prod_core P p xs L c H N blk" and T: "H + length xs \<le> 32 * N" "32 * Suc N < H + 2 ^ 63"
    and pos: "same_positions p p'" and idx: "index_rep c' p' (H div 32) (Suc N) (blk(N := nb))"
    and nb: "nb \<notin> L" "nb < length (cblocks P)" "raw_block (cblocks P ! nb)"
  shows "prod_core (upd_cblock nb (reset_empty implicit_context) P) (p'\<lparr>tailBlock := Some nb\<rparr>) xs (insert nb L) c' H (Suc N) (blk(N := nb))"
proof -
  have a: "tailIndex p = of_nat (H + length xs)" "headIndex p = of_nat H" "dequeueOptimisticCount p = of_nat H"
    "dequeueOvercommit p = 0" "32 * N < H + 2 ^ 63" "index_rep c p (H div 32) N blk"
    "inj_on blk {H div 32..<N}" "L = blk ` {H div 32..<N}"
    "\<And>k. H div 32 \<le> k \<Longrightarrow> k < N \<Longrightarrow> blk k < length (cblocks P)"
    "\<And>k. H div 32 \<le> k \<Longrightarrow> k < N \<Longrightarrow> block_holds (cblocks P ! blk k) H xs k"
    using prod_coreE [OF core] by blast+
  have KN: "H div 32 \<le> N" using T(1) by simp
  then have range: "{H div 32..<Suc N} = insert N {H div 32..<N}" by auto
  show ?thesis
  proof (rule prod_coreI)
    show "index_rep c' (p'\<lparr>tailBlock := Some nb\<rparr>) (H div 32) (Suc N) (blk(N := nb))"
      using index_rep_cong [OF idx] by simp
    have im: "(blk(N := nb)) ` {H div 32..<N} = L" unfolding a(8) by (rule image_cong) auto
    have "inj_on (blk(N := nb)) {H div 32..<N}" using a(7) by (simp add: inj_on_def)
    then show "inj_on (blk(N := nb)) {H div 32..<Suc N}"
      unfolding range inj_on_insert using im nb(1) by simp
    show "insert nb L = (blk(N := nb)) ` {H div 32..<Suc N}" unfolding range image_insert im by simp
    show "(blk(N := nb)) k < length (cblocks (upd_cblock nb (reset_empty implicit_context) P))"
      if "H div 32 \<le> k" "k < Suc N" for k using a(9) that nb(2) by auto
    show "block_holds (cblocks (upd_cblock nb (reset_empty implicit_context) P) ! (blk(N := nb)) k) H xs k"
      if k: "H div 32 \<le> k" "k < Suc N" for k
    proof (cases "k = N")
      case True
      then show ?thesis using nb(2,3) T(1) by (auto simp: block_holds_def reset_empty_def raw_block_def)
    next
      case False
      then have "k < N" "blk k \<noteq> nb" using k a(8) nb(1) by auto
      then show ?thesis using a(10) [OF k(1)] False by simp
    qed
  qed (use a pos T(2) in \<open>simp_all add: same_positions_def\<close>)
qed

lemma circular_less_than_bound:
  assumes "circular_less_than (of_nat a) (of_nat b)" "a \<le> b" "b - a < 2 ^ 64"
  shows "a < b \<and> b - a < 2 ^ 63"
proof -
  have ne: "a \<noteq> b" using assms(1) by auto
  have "\<not> circular_less_than (of_nat a) (of_nat b)" if g: "2 ^ 63 \<le> b - a"
  proof -
    have "of_nat b + of_nat (2 ^ 64 - (b - a)) = (of_nat (a + 2 ^ 64) :: u64)"
      unfolding of_nat_add [symmetric] using assms(2,3) by (intro arg_cong [of _ _ of_nat]) simp
    also have "\<dots> = of_nat a" by simp
    finally have "of_nat a - of_nat b = (of_nat (2 ^ 64 - (b - a)) :: u64)" by (simp add: eq_diff_eq [symmetric] add.commute)
    moreover have "unat (of_nat (2 ^ 64 - (b - a)) :: u64) = 2 ^ 64 - (b - a)"
      using ne assms(2) by (simp add: unat_of_nat)
    ultimately show ?thesis using g by (simp add: circular_less_than_def word_less_nat_alt del: of_nat_diff)
  qed
  then show ?thesis using assms ne by (meson not_less le_neq_implies_less)
qed

lemma blocks_for_positions:
  fixes T :: nat
  shows "T mod 32 \<noteq> 0 \<Longrightarrow> 32 * ((T + 31) div 32 - 1) \<le> T \<and> T < 32 * ((T + 31) div 32)"
    "T mod 32 = 0 \<Longrightarrow> 32 * ((T + 31) div 32) = T"
proof -
  define q r where "q = T div 32" and "r = T mod 32"
  have T: "T = 32 * q + r" "r < 32" by (simp_all add: q_def r_def)
  show "32 * ((T + 31) div 32 - 1) \<le> T \<and> T < 32 * ((T + 31) div 32)" if "T mod 32 \<noteq> 0"
  proof -
    have "0 < r" using that by (simp add: r_def)
    then have "(T + 31) div 32 = q + 1" using T by (intro div_nat_eqI) simp_all
    then show ?thesis using T by simp
  qed
  show "32 * ((T + 31) div 32) = T" if "T mod 32 = 0"
  proof -
    have r0: "r = 0" using that by (simp add: r_def)
    then have "(T + 31) div 32 = q" using T by (intro div_nat_eqI) simp_all
    then show ?thesis using T(1) r0 by simp
  qed
qed

lemma implicit_enqueue_rep:
  assumes prod: "prod_rep P p xs L" and rep: "pool_rep P F" and dis: "L \<inter> F = {}"
  shows "\<exists>b p' P' L' F'. implicit_enqueue (am, iok, bok) x p P = Inr (b, p', P')
    \<and> prod_rep P' p' (if b then xs @ [x] else xs) L' \<and> pool_rep P' F' \<and> L' \<inter> F' = {}
    \<and> pool_frame (L \<union> F) P P' \<and> L' \<union> F' = L \<union> F \<union> {length (cblocks P)..<length (cblocks P')}
    \<and> (\<not> b \<longrightarrow> am = Cannot_alloc \<or> \<not> iok \<or> \<not> bok \<or> 2 ^ 63 \<le> length xs + 32)"
proof -
  obtain c H N blk where core: "prod_core P p xs L c H N blk" and N: "N = (H + length xs + 31) div 32"
    and tb: "H div 32 < N \<longrightarrow> tailBlock p = Some (blk (N - 1))"
    using prod unfolding prod_rep_def by blast
  have a: "tailIndex p = of_nat (H + length xs)" "headIndex p = of_nat H" "32 * N < H + 2 ^ 63" "index_rep c p (H div 32) N blk"
    "L = blk ` {H div 32..<N}" "\<And>k. H div 32 \<le> k \<Longrightarrow> k < N \<Longrightarrow> blk k < length (cblocks P)"
    using prod_coreE [OF core] by blast+
  have slot: "(tailIndex p AND (BLOCK_SIZE - 1) \<noteq> 0) \<longleftrightarrow> (H + length xs) mod 32 \<noteq> 0"
    using slot_of_nat [of "H + length xs"] unfolding a(1) slot_def by (metis unat_eq_0)
  show ?thesis
  proof (cases "(H + length xs) mod 32 \<noteq> 0")
    case True
    have "32 * (N - 1) \<le> H + length xs" "H + length xs < 32 * N" using blocks_for_positions(1) [OF True] N by auto
    then obtain p' P' where "put_element (tailIndex p) x p P = Inr (p', P')" "prod_rep P' p' (xs @ [x]) L" "pool_rep P' F"
      "pool_frame L P P'"
      using put_element_rep [OF core _ _ _ rep dis, of x] tb by fastforce
    then show ?thesis
      using True slot dis by (intro exI [of _ True] exI [of _ p'] exI [of _ P'] exI [of _ L] exI [of _ F])
        (auto simp: implicit_enqueue_def Let_def put_element_length intro: pool_frame_mono)
  next
    case False
    then have T: "H + length xs = 32 * N" using blocks_for_positions(2) [of "H + length xs"] N by simp
    have nlt: "\<not> circular_less_than (tailIndex p) (headIndex p)"
    proof (cases "xs = []")
      case True
      then show ?thesis using a(1,2) by simp
    next
      case False
      then have "H < H + length xs" by simp
      moreover have "H + length xs - H < 2 ^ 63" using T a(3) by simp
      ultimately show ?thesis unfolding a(1,2) by (rule circular_less_than_of_nat(2))
    qed
    show ?thesis
    proof (cases "is_full (headIndex p) (tailIndex p)")
      case True
      have "2 ^ 63 \<le> length xs + 32"
      proof (rule ccontr)
        assume "\<not> 2 ^ 63 \<le> length xs + 32"
        then have "circular_less_than (of_nat H) (of_nat (H + length xs + 32))"
          by (intro circular_less_than_of_nat(1)) auto
        then show False using True a(1,2) by (simp add: is_full_def BLOCK_SIZE_def)
      qed
      then show ?thesis
        using True False slot nlt prod rep dis by (intro exI [of _ False] exI [of _ p] exI [of _ P] exI [of _ L] exI [of _ F])
          (auto simp: implicit_enqueue_def Let_def)
    next
      case nfull: False
      then have "circular_less_than (of_nat H) (of_nat (H + length xs + 32))"
        using a(1,2) by (simp add: is_full_def BLOCK_SIZE_def)
      then have "H + length xs + 32 - H < 2 ^ 63"
        using circular_less_than_bound [of H "H + length xs + 32"] T a(3) by fastforce
      then have bound: "32 * Suc N < H + 2 ^ 63" using T by simp
      have "H < 32 * (H div 32) + 32" by (metis add.commute dividend_less_times_div mult.commute zero_less_numeral)
      then have live: "N - H div 32 < 2 ^ 58" using bound by simp
      obtain r p1 where ins: "insert_block_index_entry am iok (of_nat (32 * N)) p = Inr (r, p1)" "same_positions p p1"
        "case r of
         None \<Rightarrow> p1 = p \<and> (am = Cannot_alloc \<or> \<not> iok)
       | Some e \<Rightarrow> \<exists>c'. (\<forall>nb. index_rep c' (store_entry_value e (Some nb) p1) (H div 32) (Suc N) (blk(N := nb)))
           \<and> (\<exists>p2. rewind_block_index_tail p1 = Inr p2 \<and> index_rep c' (store_entry_value e None p2) (H div 32) N blk
                \<and> same_positions p (store_entry_value e None p2))"
        using insert_rep [OF a(4) live] by blast
      define currentTail where "currentTail = tailIndex p"
      have eq: "implicit_enqueue (am, iok, bok) x p P =
        (case r of None \<Rightarrow> Inr (False, p1, P)
         | Some idxEntry \<Rightarrow>
                       bindE (requisition_block am bok P)
                         (\<lambda>(r, P). case r of
                            None \<Rightarrow>
                              bindE (rewind_block_index_tail p1)
                                (\<lambda>p. Inr (False, store_entry_value idxEntry None p, P))
                          | Some newBlock \<Rightarrow>
                              let P = upd_cblock newBlock (reset_empty implicit_context) P;
                                  p = (store_entry_value idxEntry (Some newBlock) p1)\<lparr>tailBlock := Some newBlock\<rparr>
                              in bindE (put_element currentTail x p P) (\<lambda>(p, P). Inr (True, p, P))))"
        unfolding implicit_enqueue_def Let_def prod.case currentTail_def
        using slot False nlt nfull ins(1,2) a(1) T by (simp del: of_nat_mult split del: option.split)
      show ?thesis
      proof (cases r)
        case None
        then show ?thesis
          using eq ins(3) prod rep dis by (intro exI [of _ False] exI [of _ p] exI [of _ P] exI [of _ L] exI [of _ F]) auto
      next
        case (Some e)
        then obtain c' p2 where e: "\<And>nb. index_rep c' (store_entry_value e (Some nb) p1) (H div 32) (Suc N) (blk(N := nb))"
          "rewind_block_index_tail p1 = Inr p2" "index_rep c' (store_entry_value e None p2) (H div 32) N blk"
          "same_positions p (store_entry_value e None p2)"
          using ins(3) by auto
        obtain r' P1 where req: "requisition_block am bok P = Inr (r', P1)" "case r' of
           None \<Rightarrow> P1 = P \<and> F = {} \<and> (am = Cannot_alloc \<or> \<not> bok)
         | Some n \<Rightarrow> pool_rep P1 (F - {n}) \<and> n < length (cblocks P1) \<and> raw_block (cblocks P1 ! n)
           \<and> length (cblocks P) \<le> length (cblocks P1)
           \<and> (\<forall>m < length (cblocks P). m \<noteq> n \<longrightarrow> cblocks P1 ! m = cblocks P ! m)
           \<and> (n \<in> F \<and> length (cblocks P1) = length (cblocks P)
             \<or> F = {} \<and> n = length (cblocks P) \<and> length (cblocks P1) = Suc n \<and> am = Can_alloc \<and> bok)"
          using requisition_rep [OF rep, of am bok] by blast
        show ?thesis
        proof (cases r')
          case None
          have "prod_core P (store_entry_value e None p2) xs L c' H N blk"
            using core e(3,4) unfolding prod_core_def same_positions_def by simp
          then have "prod_rep P (store_entry_value e None p2) xs L"
            unfolding prod_rep_def using N tb e(4) unfolding same_positions_def by fastforce
          then show ?thesis
            using eq req None Some e(2) rep dis
            by (intro exI [of _ False] exI [of _ "store_entry_value e None p2"] exI [of _ P] exI [of _ L] exI [of _ F]) auto
        next
          case r': (Some nb)
          then have n: "pool_rep P1 (F - {nb})" "nb < length (cblocks P1)" "raw_block (cblocks P1 ! nb)"
            "length (cblocks P) \<le> length (cblocks P1)" "\<And>m. m < length (cblocks P) \<Longrightarrow> m \<noteq> nb \<Longrightarrow> cblocks P1 ! m = cblocks P ! m"
            "nb \<in> F \<and> length (cblocks P1) = length (cblocks P) \<or> nb = length (cblocks P) \<and> length (cblocks P1) = Suc nb"
            using req(2) by auto
          have "\<forall>m \<in> L. m < length (cblocks P)" using a(5,6) by auto
          then have nbL: "nb \<notin> L" using n(6) dis by auto
          have fr1: "pool_frame {nb} P P1" using n(4,5) by (simp add: pool_frame_def)
          have core1: "prod_core P1 p xs L c H N blk" using nbL by (intro prod_core_frame [OF core fr1]) simp
          define P2 where "P2 = upd_cblock nb (reset_empty implicit_context) P1"
          define q where "q = (store_entry_value e (Some nb) p1)\<lparr>tailBlock := Some nb\<rparr>"
          have core2: "prod_core P2 q xs (insert nb L) c' H (Suc N) (blk(N := nb))"
            unfolding P2_def q_def using ins(2) e(1) [of nb] T bound nbL n(2,3)
            by (intro attach_block_rep [OF core1]) (simp_all add: same_positions_def store_entry_value_def)
          have rep2: "pool_rep P2 (F - {nb})"
            unfolding P2_def using pool_rep_wf [OF n(1,2)]
            by (intro pool_rep_write [OF n(1)]) (simp_all add: reset_empty_def block_wf_def)
          have dis2: "insert nb L \<inter> (F - {nb}) = {}" using dis by auto
          have tail: "tailIndex q = currentTail" using ins(2) by (simp add: q_def store_entry_value_def currentTail_def same_positions_def)
          obtain p' P' where put: "put_element (tailIndex q) x q P2 = Inr (p', P')" "prod_rep P' p' (xs @ [x]) (insert nb L)"
            "pool_rep P' (F - {nb})" "pool_frame (insert nb L) P2 P'"
            using put_element_rep [OF core2 _ _ _ rep2 dis2, of x] T by (auto simp: q_def)
          have "pool_frame {nb} P1 P2" unfolding P2_def by (rule pool_frame_upd) simp
          from pool_frame_trans [OF pool_frame_trans [OF fr1 this] put(4)]
          have fr: "pool_frame (insert nb L) P P'" by (rule pool_frame_mono) auto
          then have "pool_frame (L \<union> F) P P'" using n(6) unfolding pool_frame_def by auto
          moreover have "implicit_enqueue (am, iok, bok) x p P = Inr (True, p', P')"
            using eq Some r' req(1) put(1) unfolding tail by (simp add: P2_def q_def Let_def)
          moreover have "insert nb L \<union> (F - {nb}) = L \<union> F \<union> {length (cblocks P)..<length (cblocks P')}"
            using n(6) put_element_length [OF put(1)] by (auto simp: P2_def)
          ultimately show ?thesis
            using put(2,3) dis2 by (intro exI [of _ True] exI [of _ p'] exI [of _ P'] exI [of _ "insert nb L"] exI [of _ "F - {nb}"]) simp
        qed
      qed
    qed
  qed
qed

text \<open>Taking the first element out of its block; \<open>take_block_rep\<close> is the effect on the block.\<close>

lemma take_block_rep:
  assumes b: "block_holds b H (x # xs) k" and k: "k = H div 32"
  defines "b' \<equiv> b\<lparr>elements := (elements b)[H mod 32 := None], elementsCompletelyDequeued := elementsCompletelyDequeued b + 1\<rparr>"
  shows "elements b ! (H mod 32) = Some x"
    "set_empty implicit_context (of_nat H) (b\<lparr>elements := (elements b)[H mod 32 := None]\<rparr>) = Inr (H mod 32 = 31, b')"
    "block_holds b' (Suc H) xs k" "H mod 32 = 31 \<Longrightarrow> raw_block b'"
proof -
  have H: "H = 32 * k + H mod 32" "H mod 32 < 32" using k by simp_all
  define s where "s = H mod 32"
  have H: "H = 32 * k + s" "s < 32" using H by (simp_all add: s_def)
  have o: "length (elements b) = 32" "elementsCompletelyDequeued b = of_nat s"
    "\<And>i. i < 32 \<Longrightarrow> elements b ! i = (if s \<le> i \<and> i < s + Suc (length xs) then Some ((x # xs) ! (i - s)) else None)"
    using b H by (auto simp: block_holds_def)
  show "elements b ! (H mod 32) = Some x" using o(3) [of s] H(2) by (simp add: s_def)
  have u: "unat (of_nat s :: u64) = s" using H(2) by (simp add: unat_of_nat)
  show "set_empty implicit_context (of_nat H) (b\<lparr>elements := (elements b)[H mod 32 := None]\<rparr>) = Inr (H mod 32 = 31, b')"
    using o(2) u H(2) by (simp add: set_empty_def Let_def b'_def word_less_nat_alt word_unat_eq_iff BLOCK_SIZE_def s_def)
  have el: "elements b' ! i = (if s < i \<and> i < s + Suc (length xs) then Some (xs ! (i - Suc s)) else None)" if "i < 32" for i
  proof (cases "i = s")
    case True
    then show ?thesis using o(1) H(2) by (simp add: b'_def s_def)
  next
    case False
    then show ?thesis using o(3) [OF that] by (auto simp: b'_def s_def nth_Cons')
  qed
  then show "block_holds b' (Suc H) xs k"
    using o(1,2) H by (auto simp: block_holds_def b'_def)
  show "raw_block b'" if "H mod 32 = 31"
  proof -
    have "s = 31" using that by (simp add: s_def)
    then have "elements b' ! i = None" if "i < 32" for i using el [OF that] that by simp
    moreover have "length (elements b') = 32" using o(1) by (simp add: b'_def)
    ultimately show ?thesis by (simp add: raw_block_def list_eq_iff_nth_eq)
  qed
qed

lemma block_holds_later:
  assumes "block_holds b H (x # xs) k" "H div 32 < k"
  shows "block_holds b (Suc H) xs k"
proof -
  have "Suc H \<le> 32 * k" using assms(2) by (metis Suc_leI dividend_less_times_div less_le_trans mult_le_mono2 not_less_eq_eq zero_less_numeral mult_Suc_right add.commute)
  then show ?thesis using assms(1) by (auto simp: block_holds_def Suc_diff_le nth_Cons')
qed

lemma implicit_dequeue_rep:
  assumes prod: "prod_rep P p xs L" and rep: "pool_rep P F" and dis: "L \<inter> F = {}"
  shows "\<exists>p' P' L' F'. implicit_dequeue p P = Inr (case xs of [] \<Rightarrow> None | x # _ \<Rightarrow> Some x, p', P')
    \<and> prod_rep P' p' (tl xs) L' \<and> pool_rep P' F' \<and> L' \<inter> F' = {}
    \<and> pool_frame (L \<union> F) P P' \<and> L' \<union> F' = L \<union> F \<and> length (cblocks P') = length (cblocks P)"
proof -
  obtain c H N blk where core: "prod_core P p xs L c H N blk" and N: "N = (H + length xs + 31) div 32"
    and tb: "H div 32 < N \<longrightarrow> tailBlock p = Some (blk (N - 1))"
    using prod unfolding prod_rep_def by blast
  have a: "tailIndex p = of_nat (H + length xs)" "headIndex p = of_nat H" "dequeueOptimisticCount p = of_nat H"
    "dequeueOvercommit p = 0" "32 * N < H + 2 ^ 63" "index_rep c p (H div 32) N blk"
    "inj_on blk {H div 32..<N}" "L = blk ` {H div 32..<N}"
    "\<And>k. H div 32 \<le> k \<Longrightarrow> k < N \<Longrightarrow> blk k < length (cblocks P)"
    "\<And>k. H div 32 \<le> k \<Longrightarrow> k < N \<Longrightarrow> block_holds (cblocks P ! blk k) H xs k"
    using prod_coreE [OF core] by blast+
  show ?thesis
  proof (cases xs)
    case Nil
    then have "implicit_dequeue p P = Inr (None, p, P)" using a(1,3,4) by (simp add: implicit_dequeue_def)
    then show ?thesis using Nil prod rep dis by auto
  next
    case (Cons x ys)
    define K where "K = H div 32"
    note a = a [folded K_def]
    define n where "n = blk K"
    define b' where "b' = (cblocks P ! n)\<lparr>elements := (elements (cblocks P ! n))[H mod 32 := None],
      elementsCompletelyDequeued := elementsCompletelyDequeued (cblocks P ! n) + 1\<rparr>"
    have KN: "K < N"
    proof -
      have "H < H + length xs" using Cons by simp
      also have "\<dots> \<le> 32 * N" using N blocks_for_positions [of "H + length xs"] by (cases "(H + length xs) mod 32 = 0") auto
      finally show ?thesis by (simp add: K_def less_mult_imp_div_less mult.commute)
    qed
    have tN: "H + length xs \<le> H + 2 ^ 63 - 1"
      using N a(5) blocks_for_positions [of "H + length xs"] by (cases "(H + length xs) mod 32 = 0") auto
    have lt: "circular_less_than (of_nat H) (of_nat (H + length xs))"
      using tN Cons by (intro circular_less_than_of_nat) auto
    have nl: "n < length (cblocks P)" and nL: "n \<in> L" using a(8,9) KN by (auto simp: n_def)
    then have nF: "n \<notin> F" using dis by blast
    have bh: "block_holds (cblocks P ! n) H (x # ys) K" using a(10) [of K] KN Cons by (simp add: n_def)
    note tk = take_block_rep [OF bh K_def, folded b'_def]
    define p1 where "p1 = p\<lparr>dequeueOptimisticCount := of_nat H + 1, headIndex := of_nat H + 1\<rparr>"
    have ir: "index_rep c p1 K N blk" using index_rep_cong [OF a(6)] by (simp add: p1_def)
    obtain e where e: "get_block_index_entry_for_index (of_nat H) p1 = Inr e" "entry_value (entries p1 ! e) = Some n"
      "index_rep c (store_entry_value e None p1) (Suc K) N blk"
      using lookup_rep [OF ir order.refl KN K_def [symmetric]] unfolding n_def by blast
    define P1 where "P1 = P\<lparr>cblocks := (cblocks P)[n := b']\<rparr>"
    have P1_upd: "P1 = upd_cblock n (\<lambda>_. b') P" by (simp add: P1_def)
    have len1: "length (cblocks P1) = length (cblocks P)" by (simp add: P1_def)
    have fr1: "pool_frame {n} P P1" unfolding P1_upd by (rule pool_frame_upd) simp
    have rep1: "pool_rep P1 F"
      unfolding P1_upd using pool_rep_wf [OF rep nl] by (intro pool_rep_write [OF rep nF]) (simp_all add: b'_def block_wf_def)
    have deq: "implicit_dequeue p P = (if H mod 32 = 31
        then Inr (Some x, store_entry_value e None p1, add_block_to_free_list n P1) else Inr (Some x, p1, P1))"
      using a(1-4) lt e tk(1,2) nl slot_of_nat [of H]
      by (simp add: implicit_dequeue_def Let_def p1_def P1_def del: of_nat_add)
    have SK: "Suc H div 32 = (if H mod 32 = 31 then Suc K else K)" by (simp add: K_def div_Suc mod_Suc)
    have holds: "block_holds (cblocks P1 ! blk k) (Suc H) ys k" if "K \<le> k" "k < N" for k
    proof (cases "k = K")
      case True
      then show ?thesis using tk(3) nl by (simp add: P1_def n_def)
    next
      case False
      then have "blk k \<noteq> n" using a(7) that KN by (auto simp: n_def inj_on_def)
      then show ?thesis using a(10) [OF that] False that(1) block_holds_later [of _ H x ys k] Cons by (simp add: P1_def K_def)
    qed
    have len: "Suc H + length ys = H + length xs" using Cons by simp
    have restI: "prod_rep Q q ys (blk ` {Suc H div 32..<N})"
      if "index_rep c q (Suc H div 32) N blk" "tailIndex q = tailIndex p" "headIndex q = of_nat (Suc H)"
        "dequeueOptimisticCount q = of_nat (Suc H)" "dequeueOvercommit q = 0" "tailBlock q = tailBlock p"
        "\<And>k. Suc H div 32 \<le> k \<Longrightarrow> k < N \<Longrightarrow> cblocks Q ! blk k = cblocks P1 ! blk k" "length (cblocks Q) = length (cblocks P1)" for q Q
    proof -
      note same = that(7)
      have K': "K \<le> Suc H div 32" unfolding SK by simp
      have "prod_core Q q ys (blk ` {Suc H div 32..<N}) c (Suc H) N blk"
      proof (rule prod_coreI)
        show "blk k < length (cblocks Q)" if "Suc H div 32 \<le> k" "k < N" for k
          using a(9) [of k] that K' \<open>length (cblocks Q) = _\<close> by (simp add: P1_def)
        show "block_holds (cblocks Q ! blk k) (Suc H) ys k" if k: "Suc H div 32 \<le> k" "k < N" for k
          using holds [of k] k K' same [OF k] by simp
        show "inj_on blk {Suc H div 32..<N}" using a(7) K' by (auto intro: inj_on_subset)
        show "tailIndex q = of_nat (Suc H + length ys)" unfolding len that(2) a(1) ..
      qed (use that a(5) in simp_all)
      moreover have "N = (Suc H + length ys + 31) div 32" unfolding len by (rule N)
      moreover have "Suc H div 32 < N \<longrightarrow> tailBlock q = Some (blk (N - 1))" unfolding that(6) using tb K' by (simp add: K_def)
      ultimately show ?thesis unfolding prod_rep_def by blast
    qed
    show ?thesis
    proof (cases "H mod 32 = 31")
      case False
      have "prod_rep P1 p1 ys L"
        using restI [of p1 P1] index_rep_cong [OF a(6), of p1] a(2-4,8) SK False by (simp add: p1_def)
      moreover have "pool_frame (L \<union> F) P P1" using pool_frame_mono [OF fr1] nL by simp
      ultimately show ?thesis using deq False rep1 dis Cons len1 by (intro exI [of _ p1] exI [of _ P1] exI [of _ L] exI [of _ F]) simp
    next
      case True
      define P2 where "P2 = add_block_to_free_list n P1"
      define L' where "L' = blk ` {Suc K..<N}"
      have raw: "raw_block (cblocks P1 ! n)" "n < length (cblocks P1)" using tk(4) [OF True] nl by (simp_all add: P1_def)
      note add = pool_rep_add [OF rep1 nF raw(2,1), folded P2_def]
      have L: "L = insert n L'" "n \<notin> L'"
      proof -
        have "{K..<N} = insert K {Suc K..<N}" using KN by auto
        then show "L = insert n L'" unfolding a(8) L'_def n_def by simp
        show "n \<notin> L'"
        proof
          assume "n \<in> L'"
          then obtain k where k: "Suc K \<le> k" "k < N" "blk K = blk k" by (auto simp: L'_def n_def)
          then show False using inj_onD [OF a(7) k(3)] KN by simp
        qed
      qed
      have "cblocks P2 ! blk k = cblocks P1 ! blk k" if "Suc K \<le> k" "k < N" for k
        using add(3) [of "blk k"] L(2) that by (force simp: L'_def)
      then have "prod_rep P2 (store_entry_value e None p1) ys L'"
        using restI [of "store_entry_value e None p1" P2] e(3) a(2-4) SK True add(2)
        by (simp add: p1_def store_entry_value_def L'_def)
      moreover have "pool_frame (L \<union> F) P P2"
      proof -
        have "pool_frame {n} P1 P2" using add(2,3) by (simp add: pool_frame_def)
        from pool_frame_trans [OF fr1 this] show ?thesis using nL by (auto elim: pool_frame_mono)
      qed
      moreover have "L' \<inter> insert n F = {}" "L' \<union> insert n F = L \<union> F" using L dis by auto
      ultimately show ?thesis
        using deq True add(1,2) Cons len1
        by (intro exI [of _ "store_entry_value e None p1"] exI [of _ P2] exI [of _ L'] exI [of _ "insert n F"]) (simp add: P2_def)
    qed
  qed
qed

lemma ImplicitProducer_new_rep:
  "\<exists>p. ImplicitProducer_new True = Inr p \<and> prod_rep P p [] {}"
proof -
  let ?h = "\<lparr>capacity = 32, bi_tail = (0 - 1) AND (32 - 1), bi_index = [0..<32]\<rparr> :: block_index"
  let ?p = "ProducerBase_new\<lparr>entries := replicate 32 (Entry INVALID_BLOCK_BASE None), blockIndex := Some ?h,
    nextBlockIndexCapacity := push_bit 1 32\<rparr>"
  have e: "ImplicitProducer_new True = Inr ?p"
    by (simp add: ImplicitProducer_new_def new_block_index_def ProducerBase_new_def IMPLICIT_INITIAL_INDEX_SIZE_def Let_def)
  have m: "unat ((32 :: u64) - 1) + 1 = 2 ^ 5" by simp
  have t: "unat (bi_tail ?h) < 32" using unat_and_pow2 [OF m, of "0 - 1"] by (simp del: One_nat_def)
  have "index_rep 5 ?p 0 0 blk" for blk
  proof (rule index_repI [where h = ?h])
    show "entry_free (index_at ?p ?h (2 ^ 5) j)" if "0 - 0 \<le> j" "j < 2 ^ 5" for j
      using ring_back_less [of 32 "unat (bi_tail ?h)" j] by (simp add: index_at_def entry_free_def)
  qed (use t in \<open>auto\<close>)
  then have "prod_core P ?p [] {} 5 0 0 blk" for blk
    by (intro prod_coreI) (simp_all add: ProducerBase_new_def)
  then have "prod_rep P ?p [] {}"
    unfolding prod_rep_def by (intro exI [of _ 5] exI [of _ 0] exI [of _ "\<lambda>_. 0"]) simp
  then show ?thesis using e by blast
qed

text \<open>The elements of a sub-queue, read through the block index.\<close>

definition element_at :: "producer \<Rightarrow> 'a pool \<Rightarrow> u64 \<Rightarrow> 'a option" where
  "element_at p P i =
     (case get_block_index_entry_for_index i p of
        Inl _ \<Rightarrow> None
      | Inr e \<Rightarrow> (case entry_value (entries p ! e) of
            None \<Rightarrow> None
          | Some b \<Rightarrow> elements (cblocks P ! b) ! slot i))"

definition producer_list :: "producer \<Rightarrow> 'a pool \<Rightarrow> 'a list" where
  "producer_list p P = map (\<lambda>i. the (element_at p P (headIndex p + of_nat i))) [0..<unat (tailIndex p - headIndex p)]"

lemma positions_le_blocks: "(T :: nat) \<le> 32 * ((T + 31) div 32)"
  using blocks_for_positions [of T] by (cases "T mod 32 = 0") auto

lemma producer_list_rep:
  assumes "prod_rep P p xs L"
  shows "producer_list p P = xs" "producer_size_approx p = of_nat (length xs)" "length xs < 2 ^ 63"
proof -
  obtain c H N blk where core: "prod_core P p xs L c H N blk" and N: "N = (H + length xs + 31) div 32"
    using assms unfolding prod_rep_def by blast
  have a: "tailIndex p = of_nat (H + length xs)" "headIndex p = of_nat H"
    "32 * N < H + 2 ^ 63" "index_rep c p (H div 32) N blk"
    "\<And>k. H div 32 \<le> k \<Longrightarrow> k < N \<Longrightarrow> block_holds (cblocks P ! blk k) H xs k"
    using prod_coreE [OF core] by blast+
  have TN: "H + length xs \<le> 32 * N" unfolding N by (rule positions_le_blocks)
  show l: "length xs < 2 ^ 63" using TN a(3) by simp
  have len: "unat (tailIndex p - headIndex p) = length xs"
    unfolding a(1,2) using unat_diff_of_nat [of H "H + length xs"] l by simp
  have "element_at p P (headIndex p + of_nat i) = Some (xs ! i)" if i: "i < length xs" for i
  proof -
    define k where "k = (H + i) div 32"
    have k: "H div 32 \<le> k" "k < N"
      using TN i by (simp_all add: k_def div_le_mono less_mult_imp_div_less)
    obtain e where e: "get_block_index_entry_for_index (of_nat (H + i)) p = Inr e" "entry_value (entries p ! e) = Some (blk k)"
      using lookup_rep [OF a(4) k k_def [symmetric]] by blast
    have s: "slot (of_nat (H + i)) = (H + i) mod 32" by (rule slot_of_nat)
    have p: "32 * k + (H + i) mod 32 = H + i" by (simp add: k_def)
    have "elements (cblocks P ! blk k) ! ((H + i) mod 32) = Some (xs ! i)"
      using a(5) [OF k] p i by (simp add: block_holds_def)
    then show ?thesis using e s a(2) by (simp add: element_at_def)
  qed
  then have "map (\<lambda>i. the (element_at p P (headIndex p + of_nat i))) [0..<length xs] = map (\<lambda>i. xs ! i) [0..<length xs]"
    by (intro map_cong) simp_all
  then show "producer_list p P = xs" unfolding producer_list_def len map_nth .
  show "producer_size_approx p = of_nat (length xs)"
  proof (cases "xs = []")
    case False
    then have "circular_less_than (of_nat H) (of_nat (H + length xs))" using l by (intro circular_less_than_of_nat) auto
    then show ?thesis unfolding producer_size_approx_def a(1,2) by simp
  qed (use a(1,2) in \<open>simp add: producer_size_approx_def\<close>)
qed

definition prod_inv :: "producer \<times> 'a pool \<Rightarrow> bool" where
  "prod_inv q \<longleftrightarrow> (\<exists>xs L F. prod_rep (snd q) (fst q) xs L \<and> pool_rep (snd q) F \<and> L \<inter> F = {})"

interpretation implicit: fifo prod_inv "\<lambda>(p, P). producer_list p P"
  "\<lambda>m x (p, P). implicit_enqueue m x p P" "\<lambda>(p, P). implicit_dequeue p P"
proof
  fix q :: "producer \<times> 'a pool" and m :: "alloc_mode \<times> bool \<times> bool" and x
  assume "prod_inv q"
  then obtain p P xs L F where q: "q = (p, P)" "prod_rep P p xs L" "pool_rep P F" "L \<inter> F = {}"
    unfolding prod_inv_def by (cases q) auto
  obtain am iok bok where m: "m = (am, iok, bok)" by (cases m)
  obtain b p' P' L' F' where e: "implicit_enqueue m x p P = Inr (b, p', P')" "prod_rep P' p' (if b then xs @ [x] else xs) L'"
    "pool_rep P' F'" "L' \<inter> F' = {}"
    using implicit_enqueue_rep [OF q(2-4), of am iok bok x] unfolding m by blast
  then show "\<exists>b q'. (case q of (p, P) \<Rightarrow> implicit_enqueue m x p P) = Inr (b, q') \<and> prod_inv q'
      \<and> (case q' of (p, P) \<Rightarrow> producer_list p P)
        = (if b then (case q of (p, P) \<Rightarrow> producer_list p P) @ [x] else (case q of (p, P) \<Rightarrow> producer_list p P))"
    using producer_list_rep(1) [OF e(2)] producer_list_rep(1) [OF q(2)] q(1)
    by (intro exI [of _ b] exI [of _ "(p', P')"]) (auto simp: prod_inv_def)
next
  fix q :: "producer \<times> 'a pool"
  assume "prod_inv q"
  then obtain p P xs L F where q: "q = (p, P)" "prod_rep P p xs L" "pool_rep P F" "L \<inter> F = {}"
    unfolding prod_inv_def by (cases q) auto
  obtain p' P' L' F' where e: "implicit_dequeue p P = Inr (case xs of [] \<Rightarrow> None | x # _ \<Rightarrow> Some x, p', P')"
    "prod_rep P' p' (tl xs) L'" "pool_rep P' F'" "L' \<inter> F' = {}"
    using implicit_dequeue_rep [OF q(2-4)] by blast
  then show "\<exists>q'. (case q of (p, P) \<Rightarrow> implicit_dequeue p P)
      = Inr (case (case q of (p, P) \<Rightarrow> producer_list p P) of [] \<Rightarrow> None | x # _ \<Rightarrow> Some x, q') \<and> prod_inv q'
      \<and> (case q' of (p, P) \<Rightarrow> producer_list p P) = tl (case q of (p, P) \<Rightarrow> producer_list p P)"
    using producer_list_rep(1) [OF e(2)] producer_list_rep(1) [OF q(2)] q(1)
    by (intro exI [of _ "(p', P')"]) (auto simp: prod_inv_def)
qed

subsection \<open>Properties\<close>

text \<open>
  C11: a sub-queue is a FIFO queue across block boundaries, growth of the block index and reuse of blocks. From construction
  on, over a block pool of any initial size, every sequence of enqueues (allocating or not, with
  the heap failing at any call) and dequeues runs without a failed assertion, a null pointer or a read of a slot without
  an object; what comes out is what was accepted, in order, and \<open>size_approx\<close> is the number of elements that remain.
\<close>

theorem implicit_producer_fifo:
  "\<exists>p evs p' P' rest. ImplicitProducer_new True = Inr p
    \<and> run_ops (\<lambda>m x (p, P). implicit_enqueue m x p P) (\<lambda>(p, P). implicit_dequeue p P) ops
        (p, populate_initial_block_list malloc_ok n pool_init) = Inr (evs, p', P')
    \<and> accepted evs = got evs @ rest \<and> producer_size_approx p' = of_nat (length rest) \<and> length rest < 2 ^ 63"
proof -
  obtain F where F: "pool_rep (populate_initial_block_list malloc_ok n (pool_init :: 'a pool)) F" (is "pool_rep ?P F")
    using populate_rep by blast
  obtain p where p: "ImplicitProducer_new True = Inr p" "prod_rep ?P p [] {}" using ImplicitProducer_new_rep by blast
  have inv: "prod_inv (p, ?P)" using p F unfolding prod_inv_def by auto
  obtain evs q' where r: "run_ops (\<lambda>m x (p, P). implicit_enqueue m x p P) (\<lambda>(p, P). implicit_dequeue p P) ops (p, ?P) = Inr (evs, q')"
    "prod_inv q'" "producer_list p ?P @ accepted evs = got evs @ (case q' of (p, P) \<Rightarrow> producer_list p P)"
    using implicit.run_ops_fifo [OF inv, of ops] by auto
  obtain p' P' xs L where q': "q' = (p', P')" "prod_rep P' p' xs L" using r(2) unfolding prod_inv_def by (cases q') auto
  then show ?thesis
    using p r producer_list_rep [OF q'(2)] producer_list_rep(1) [OF p(2)] by auto
qed

text \<open>
  An enqueue that may allocate succeeds. In any state that such a sequence of operations
  reaches, an allocating enqueue is accepted as long as the heap gives memory and the sub-queue
  holds fewer than \<open>2 ^ 63 - 32\<close> elements.
\<close>

theorem implicit_enqueue_accepts:
  assumes "ImplicitProducer_new True = Inr p"
    and "run_ops (\<lambda>m x (p, P). implicit_enqueue m x p P) (\<lambda>(p, P). implicit_dequeue p P) ops
        (p, populate_initial_block_list malloc_ok n pool_init) = Inr (evs, p', P')"
    and "length (accepted evs) < 2 ^ 63 - 32"
  shows "\<exists>q Q. implicit_enqueue (Can_alloc, True, True) x p' P' = Inr (True, q, Q)"
proof -
  obtain F where F: "pool_rep (populate_initial_block_list malloc_ok n (pool_init :: 'a pool)) F" (is "pool_rep ?P F")
    using populate_rep by blast
  have p: "prod_rep ?P p [] {}" using ImplicitProducer_new_rep [of ?P] assms(1) by auto
  then have inv: "prod_inv (p, ?P)" using F unfolding prod_inv_def by auto
  have r: "prod_inv (p', P')" "accepted evs = got evs @ producer_list p' P'"
    using implicit.run_ops_fifo [OF inv, of ops] assms(2) producer_list_rep(1) [OF p] by auto
  then obtain xs L F' where x: "prod_rep P' p' xs L" "pool_rep P' F'" "L \<inter> F' = {}" unfolding prod_inv_def by auto
  have "length xs < 2 ^ 63 - 32" using r(2) assms(3) producer_list_rep(1) [OF x(1)] by simp
  then show ?thesis using implicit_enqueue_rep [OF x, of Can_alloc True True x] by auto
qed

lemma length_accepted: "length (accepted evs) \<le> length evs"
  by (induction evs rule: accepted.induct) auto

theorem implicit_enqueue_accepts_witness:
  "\<exists>p evs p' P' q Q. ImplicitProducer_new True = Inr p
    \<and> run_ops (\<lambda>m x (p, P). implicit_enqueue m x p P) (\<lambda>(p, P). implicit_dequeue p P)
        [Enq (Cannot_alloc, False, False) 7, Deq, Deq] (p, populate_initial_block_list True 2 pool_init) = Inr (evs, p', P')
    \<and> implicit_enqueue (Can_alloc, True, True) (9 :: nat) p' P' = Inr (True, q, Q)"
proof -
  obtain F where F: "pool_rep (populate_initial_block_list True 2 (pool_init :: nat pool)) F" (is "pool_rep ?P F")
    using populate_rep by blast
  obtain p where p: "ImplicitProducer_new True = Inr p" "prod_rep ?P p [] {}" using ImplicitProducer_new_rep by blast
  have "prod_inv (p, ?P)" using p F unfolding prod_inv_def by auto
  then obtain evs p' P' where r: "run_ops (\<lambda>m x (p, P). implicit_enqueue m x p P) (\<lambda>(p, P). implicit_dequeue p P)
        [Enq (Cannot_alloc, False, False) 7, Deq, Deq] (p, ?P) = Inr (evs, p', P')" "length evs = 3"
    using implicit.run_ops_fifo [of "(p, ?P)" "[Enq (Cannot_alloc, False, False) 7, Deq, Deq]"]
    by (auto simp del: run_ops.simps)
  have "length (accepted evs) < 2 ^ 63 - 32" using length_accepted [of evs] r(2) by simp
  then show ?thesis using implicit_enqueue_accepts [OF p(1) r(1)] p(1) r(1) by blast
qed

text \<open>
  A failed allocation in the constructor is found only later. When \<open>malloc\<close> gives no memory for the
  first block index, the constructor returns a producer all the same, and its first enqueue
  follows a null pointer, whatever the allocation mode.
\<close>

theorem implicit_producer_null_index:
  "\<exists>p. ImplicitProducer_new False = Inr p \<and> implicit_enqueue m x p P = Inl Cq_null_pointer"
proof -
  have "ImplicitProducer_new False = Inr ProducerBase_new"
    by (simp add: ImplicitProducer_new_def new_block_index_def Let_def)
  moreover have "implicit_enqueue m x ProducerBase_new P = Inl Cq_null_pointer"
  proof -
    have "circular_less_than 0 32" using circular_less_than_of_nat(1) [of 0 32] by simp
    then show ?thesis
      by (cases m) (simp add: implicit_enqueue_def ProducerBase_new_def insert_block_index_entry_def is_full_def BLOCK_SIZE_def)
  qed
  ultimately show ?thesis by blast
qed

end
