(* ===== verification/ProducerHash.thy ===== *)
theory ProducerHash
  imports BlockPool
begin

text \<open>
  \<open>source/utils/concurrentqueue.h\<close>, the implicit producer hash: which sub-queue belongs to which thread. It is a
  chain of open-addressing tables with linear probing, the newest first; an older table stays
  in the chain, and an entry found there is copied to the newest one.

  A key is the thread identifier (the address of a thread-local variable, never 0, the invalid identifier), a value
  is the position of the producer in the list of producers of the queue. One operation runs at a time. A probe looks at
  every slot once before it can repeat, so as many steps as the table has slots are enough: a loop that does not end
  by then never ends.
\<close>

datatype kvp = KVP (kvp_key: u64) (kvp_value: "nat option")

record hash_table =
  ht_capacity :: u64
  ht_entries :: "kvp list"

record producer_hash =
  implicitProducerHash :: "hash_table list"
  implicitProducerHashCount :: u64
  implicitProducerHashResizeInProgress :: bool

definition invalid_thread_id :: u64 where
  "invalid_thread_id = 0"

definition new_hash_table :: "u64 \<Rightarrow> hash_table" where
  "new_hash_table newCapacity =
     \<lparr>ht_capacity = newCapacity, ht_entries = replicate (unat newCapacity) (KVP invalid_thread_id None)\<rparr>"

definition populate_initial_implicit_producer_hash :: producer_hash where
  "populate_initial_implicit_producer_hash =
     \<lparr>implicitProducerHash = [new_hash_table INITIAL_IMPLICIT_PRODUCER_HASH_SIZE], implicitProducerHashCount = 0,
      implicitProducerHashResizeInProgress = False\<rparr>"

subsection \<open>Probing\<close>

text \<open>Look for an identifier: the slot it is in, or \<open>None\<close> when an empty slot ends the search.\<close>

fun probe :: "hash_table \<Rightarrow> u64 \<Rightarrow> nat \<Rightarrow> u64 \<Rightarrow> cq_error + nat option" where
  "probe h tid 0 index = Inl Cq_diverges"
| "probe h tid (Suc fuel) index =
     (let index = index AND (ht_capacity h - 1);
          probedKey = kvp_key (ht_entries h ! unat index)
      in if probedKey = tid then Inr (Some (unat index))
         else if probedKey = invalid_thread_id then Inr None
         else probe h tid fuel (index + 1))"

text \<open>Look for an empty slot.\<close>

fun probe_free :: "hash_table \<Rightarrow> nat \<Rightarrow> u64 \<Rightarrow> cq_error + nat" where
  "probe_free h 0 index = Inl Cq_diverges"
| "probe_free h (Suc fuel) index =
     (let index = index AND (ht_capacity h - 1);
          probedKey = kvp_key (ht_entries h ! unat index)
      in if probedKey = invalid_thread_id then Inr (unat index)
         else probe_free h fuel (index + 1))"

definition claim_slot :: "u64 \<Rightarrow> nat option \<Rightarrow> hash_table \<Rightarrow> cq_error + hash_table" where
  "claim_slot tid v h =
     bindE (probe_free h (unat (ht_capacity h)) (hash_thread_id tid))
       (\<lambda>i. Inr (h\<lparr>ht_entries := (ht_entries h)[i := KVP tid v]\<rparr>))"

text \<open>Search the chain: the number of the table and the value found there.\<close>

fun search_tables :: "nat \<Rightarrow> u64 \<Rightarrow> hash_table list \<Rightarrow> cq_error + (nat \<times> nat option) option" where
  "search_tables k tid [] = Inr None"
| "search_tables k tid (h # hs) =
     bindE (probe h tid (unat (ht_capacity h)) (hash_thread_id tid))
       (\<lambda>r. case r of
          Some i \<Rightarrow> Inr (Some (k, kvp_value (ht_entries h ! i)))
        | None \<Rightarrow> search_tables (k + 1) tid hs)"

text \<open>Put an entry into the newest table.\<close>

definition main_claim :: "u64 \<Rightarrow> nat option \<Rightarrow> producer_hash \<Rightarrow> cq_error + producer_hash" where
  "main_claim tid v H =
     (case implicitProducerHash H of
        [] \<Rightarrow> Inl Cq_null_pointer
      | mainHash # prev \<Rightarrow>
          bindE (claim_slot tid v mainHash) (\<lambda>h. Inr (H\<lparr>implicitProducerHash := h # prev\<rparr>)))"

text \<open>The search of \<open>get_or_add_implicit_producer\<close>, with the copy of an entry of an older table.\<close>

definition find_implicit_producer :: "u64 \<Rightarrow> producer_hash \<Rightarrow> cq_error + nat option option \<times> producer_hash" where
  "find_implicit_producer tid H =
     bindE (search_tables 0 tid (implicitProducerHash H))
       (\<lambda>r. case r of
          None \<Rightarrow> Inr (None, H)
        | Some (k, v) \<Rightarrow>
            if k \<noteq> 0 then bindE (main_claim tid v H) (\<lambda>H. Inr (Some v, H)) else Inr (Some v, H))"

subsection \<open>Growth\<close>

text \<open>
  \<open>malloc\<close> may refuse any request and refuses every request above \<open>PTRDIFF_MAX\<close>. The header of a table takes 24 bytes
  and an entry 16, aligned to 8.
\<close>

definition malloc_gives :: "bool \<Rightarrow> u64 \<Rightarrow> bool" where
  "malloc_gives malloc_ok bytes \<longleftrightarrow> malloc_ok \<and> unat bytes < 2 ^ 63"

fun double_until :: "nat \<Rightarrow> u64 \<Rightarrow> u64 \<Rightarrow> cq_error + u64" where
  "double_until 0 newCount newCapacity = Inl Cq_diverges"
| "double_until (Suc fuel) newCount newCapacity =
     (if newCount \<ge> drop_bit 1 newCapacity then double_until fuel newCount (push_bit 1 newCapacity) else Inr newCapacity)"

text \<open>
  The resize of \<open>get_or_add_implicit_producer\<close>; the result tells whether a table was there or could be made. A capacity of
  0 is reached after at most 64 doublings and never left.
\<close>

definition resize_hash :: "bool \<Rightarrow> u64 \<Rightarrow> producer_hash \<Rightarrow> cq_error + bool \<times> producer_hash" where
  "resize_hash malloc_ok newCount H =
     (case implicitProducerHash H of
        [] \<Rightarrow> Inl Cq_null_pointer
      | mainHash # prev \<Rightarrow>
          if newCount \<ge> drop_bit 1 (ht_capacity mainHash) \<and> \<not> implicitProducerHashResizeInProgress H then
            bindE (double_until 65 newCount (push_bit 1 (ht_capacity mainHash)))
              (\<lambda>newCapacity.
                 if \<not> malloc_gives malloc_ok (24 + 8 - 1 + 16 * newCapacity)
                 then Inr (False, H\<lparr>implicitProducerHashCount := implicitProducerHashCount H - 1,
                                    implicitProducerHashResizeInProgress := False\<rparr>)
                 else Inr (True, H\<lparr>implicitProducerHash := new_hash_table newCapacity # mainHash # prev,
                                   implicitProducerHashResizeInProgress := False\<rparr>))
          else Inr (True, H))"

subsection \<open>A table as a set of entries\<close>

definition key_at :: "hash_table \<Rightarrow> nat \<Rightarrow> u64" where
  "key_at h i = kvp_key (ht_entries h ! (i mod length (ht_entries h)))"

definition home :: "hash_table \<Rightarrow> u64 \<Rightarrow> nat" where
  "home h tid = unat (hash_thread_id tid) mod length (ht_entries h)"

definition table_keys :: "hash_table \<Rightarrow> u64 set" where
  "table_keys h = kvp_key ` set (ht_entries h) - {invalid_thread_id}"

text \<open>
  A table has \<open>2 ^ c\<close> slots, no key twice, and no empty slot between the place a key hashes to and the place it is in.
\<close>

definition table_ok :: "nat \<Rightarrow> hash_table \<Rightarrow> bool" where
  "table_ok c h \<longleftrightarrow> c \<le> 58 \<and> unat (ht_capacity h) = 2 ^ c \<and> length (ht_entries h) = 2 ^ c
     \<and> (\<forall>i < 2 ^ c. \<forall>j < 2 ^ c. key_at h i \<noteq> invalid_thread_id \<longrightarrow> key_at h i = key_at h j \<longrightarrow> i = j)
     \<and> (\<forall>i < 2 ^ c. key_at h i \<noteq> invalid_thread_id \<longrightarrow>
          (\<exists>d < 2 ^ c. i = (home h (key_at h i) + d) mod 2 ^ c
             \<and> (\<forall>e < d. key_at h (home h (key_at h i) + e) \<noteq> invalid_thread_id)))"

lemma table_okD:
  assumes "table_ok c h"
  shows "c \<le> 58" "unat (ht_capacity h) = 2 ^ c" "length (ht_entries h) = 2 ^ c" "unat (ht_capacity h - 1) + 1 = 2 ^ c"
    "\<And>i j. i < 2 ^ c \<Longrightarrow> j < 2 ^ c \<Longrightarrow> key_at h i \<noteq> invalid_thread_id \<Longrightarrow> key_at h i = key_at h j \<Longrightarrow> i = j"
    "\<And>i. i < 2 ^ c \<Longrightarrow> key_at h i \<noteq> invalid_thread_id \<Longrightarrow>
       \<exists>d < 2 ^ c. i = (home h (key_at h i) + d) mod 2 ^ c
         \<and> (\<forall>e < d. key_at h (home h (key_at h i) + e) \<noteq> invalid_thread_id)"
proof -
  show "unat (ht_capacity h - 1) + 1 = 2 ^ c"
  proof -
    have u: "unat (ht_capacity h) = 2 ^ c" using assms by (simp add: table_ok_def)
    then have "ht_capacity h \<noteq> 0" by auto
    then show ?thesis using u by (simp add: unat_minus_one)
  qed
qed (use assms in \<open>auto simp: table_ok_def\<close>)

lemma table_keys_iff:
  assumes "table_ok c h"
  shows "k \<in> table_keys h \<longleftrightarrow> k \<noteq> invalid_thread_id \<and> (\<exists>i < 2 ^ c. key_at h i = k)"
proof -
  have "k \<in> kvp_key ` set (ht_entries h) \<longleftrightarrow> (\<exists>i < 2 ^ c. key_at h i = k)"
    using table_okD(3) [OF assms] by (force simp: in_set_conv_nth key_at_def)
  then show ?thesis by (simp add: table_keys_def conj_commute)
qed

lemma free_slot:
  assumes ok: "table_ok c h" and few: "card (table_keys h) < 2 ^ c"
  shows "\<exists>i < 2 ^ c. key_at h i = invalid_thread_id"
proof (rule ccontr)
  assume "\<not> ?thesis"
  then have nz: "key_at h i \<noteq> invalid_thread_id" if "i < 2 ^ c" for i using that by auto
  have "inj_on (key_at h) {..<2 ^ c}" using table_okD(5) [OF ok] nz by (auto simp: inj_on_def)
  then have "card (key_at h ` {..<2 ^ c}) = 2 ^ c" by (simp add: card_image)
  moreover have "key_at h ` {..<2 ^ c} \<subseteq> table_keys h" using nz table_keys_iff [OF ok] by auto
  moreover have "finite (table_keys h)" by (simp add: table_keys_def)
  ultimately show False using few card_mono by (metis not_le)
qed

text \<open>
  Both probes walk from the home slot to the first slot with a wanted key; \<open>D\<close> is the distance.
\<close>

lemma probe_index:
  assumes ok: "table_ok c h" and idx: "unat index mod 2 ^ c = i mod 2 ^ c"
  shows "unat (index AND (ht_capacity h - 1)) = i mod 2 ^ c"
    "kvp_key (ht_entries h ! (i mod 2 ^ c)) = key_at h i"
    "unat ((index AND (ht_capacity h - 1)) + 1) mod 2 ^ c = Suc i mod 2 ^ c"
proof -
  note m = table_okD(4) [OF ok]
  show u: "unat (index AND (ht_capacity h - 1)) = i mod 2 ^ c" using unat_and_pow2 [OF m, of index] idx by simp
  show "kvp_key (ht_entries h ! (i mod 2 ^ c)) = key_at h i" using table_okD(3) [OF ok] by (simp add: key_at_def)
  let ?w = "index AND (ht_capacity h - 1)"
  have "unat ?w < 2 ^ c" using u by simp
  also have "(2::nat) ^ c \<le> 2 ^ 58" using table_okD(1) [OF ok] by (intro power_increasing) simp_all
  finally have "unat (?w + 1) = unat ?w + 1" by (simp add: unat_word_ariths)
  then show "unat (?w + 1) mod 2 ^ c = Suc i mod 2 ^ c" using u by (simp add: mod_Suc_eq)
qed

lemma probe_walk:
  assumes ok: "table_ok c h" and D: "d \<le> D" "D < 2 ^ c" "key_at h (s + D) = tid \<or> key_at h (s + D) = invalid_thread_id"
    and before: "\<And>e. d \<le> e \<Longrightarrow> e < D \<Longrightarrow> key_at h (s + e) \<noteq> tid \<and> key_at h (s + e) \<noteq> invalid_thread_id"
    and idx: "unat index mod 2 ^ c = (s + d) mod 2 ^ c" and fuel: "D - d < fuel"
  shows "probe h tid fuel index = Inr (if key_at h (s + D) = tid then Some ((s + D) mod 2 ^ c) else None)"
  using D(1) before idx fuel
proof (induction fuel arbitrary: d index)
  case (Suc fuel)
  note p = probe_index [OF ok Suc.prems(3)]
  show ?case
  proof (cases "d = D")
    case True
    then show ?thesis using p D(3) by (auto simp: Let_def)
  next
    case False
    have step: "probe h tid (Suc fuel) index = probe h tid fuel ((index AND (ht_capacity h - 1)) + 1)"
      using p(1,2) Suc.prems(1) Suc.prems(2) [of d] False by (simp add: Let_def)
    show ?thesis
      unfolding step using Suc.prems(1,4) False p(3) by (intro Suc.IH [of "Suc d"] Suc.prems(2)) auto
  qed
qed simp

lemma probe_free_walk:
  assumes ok: "table_ok c h" and D: "d \<le> D" "D < 2 ^ c" "key_at h (s + D) = invalid_thread_id"
    and before: "\<And>e. d \<le> e \<Longrightarrow> e < D \<Longrightarrow> key_at h (s + e) \<noteq> invalid_thread_id"
    and idx: "unat index mod 2 ^ c = (s + d) mod 2 ^ c" and fuel: "D - d < fuel"
  shows "probe_free h fuel index = Inr ((s + D) mod 2 ^ c)"
  using D(1) before idx fuel
proof (induction fuel arbitrary: d index)
  case (Suc fuel)
  note p = probe_index [OF ok Suc.prems(3)]
  show ?case
  proof (cases "d = D")
    case True
    then show ?thesis using p D(3) by (auto simp: Let_def)
  next
    case False
    have step: "probe_free h (Suc fuel) index = probe_free h fuel ((index AND (ht_capacity h - 1)) + 1)"
      using p(1,2) Suc.prems(1) Suc.prems(2) [of d] False by (simp add: Let_def)
    show ?thesis
      unfolding step using Suc.prems(1,4) False p(3) by (intro Suc.IH [of "Suc d"] Suc.prems(2)) auto
  qed
qed simp

text \<open>From any start, some slot is met that satisfies what one slot of the table satisfies.\<close>

lemma first_slot:
  assumes "i < (n :: nat)" "Q i" and cong: "\<And>j. Q (j mod n) = Q j"
  shows "\<exists>D < n. Q (s + D) \<and> (\<forall>e < D. \<not> Q (s + e))"
proof -
  have "\<exists>d < n. Q (s + d)"
  proof -
    define d where "d = (i + (n - s mod n)) mod n"
    have "d < n" using assms(1) by (simp add: d_def)
    moreover have "(s + d) mod n = i"
    proof -
      have "s mod n < n" using assms(1) by simp
      have "(s + d) mod n = (s mod n + (i + (n - s mod n))) mod n" by (simp add: d_def mod_simps)
      also have "s mod n + (i + (n - s mod n)) = i + n" using \<open>s mod n < n\<close> by simp
      also have "(i + n) mod n = i" using assms(1) by simp
      finally show ?thesis .
    qed
    ultimately show ?thesis using assms(2) cong [of "s + d"] by auto
  qed
  then obtain d where d: "d < n" "Q (s + d)" by blast
  define D where "D = (LEAST d. Q (s + d))"
  have "Q (s + D)" "D \<le> d" unfolding D_def using d(2) by (auto intro: LeastI Least_le)
  moreover have "\<not> Q (s + e)" if "e < D" for e using not_less_Least that unfolding D_def by blast
  ultimately show ?thesis using d(1) by (meson le_less_trans)
qed

lemma key_at_mod: "key_at h (i mod length (ht_entries h)) = key_at h i"
  by (simp add: key_at_def)

lemma probe_table:
  assumes ok: "table_ok c h" and few: "card (table_keys h) < 2 ^ c" and tid: "tid \<noteq> invalid_thread_id"
  shows "tid \<notin> table_keys h \<Longrightarrow> probe h tid (unat (ht_capacity h)) (hash_thread_id tid) = Inr None"
    "tid \<in> table_keys h \<Longrightarrow> \<exists>i < 2 ^ c. probe h tid (unat (ht_capacity h)) (hash_thread_id tid) = Inr (Some i) \<and> key_at h i = tid"
proof -
  let ?s = "home h tid"
  note t = table_okD [OF ok]
  obtain i0 where i0: "i0 < 2 ^ c" "key_at h i0 = invalid_thread_id" using free_slot [OF ok few] by blast
  let ?Q = "\<lambda>i. key_at h i = tid \<or> key_at h i = invalid_thread_id"
  have keym: "key_at h (j mod 2 ^ c) = key_at h j" for j using key_at_mod [of h j] unfolding t(3) .
  have "?Q (j mod 2 ^ c) = ?Q j" for j unfolding keym ..
  from first_slot [where Q = ?Q and s = ?s, OF i0(1) disjI2 [OF i0(2)] this]
  obtain D where "D < 2 ^ c \<and> ?Q (?s + D) \<and> (\<forall>e < D. \<not> ?Q (?s + e))" ..
  then have D: "D < 2 ^ c" "?Q (?s + D)" "\<And>e. e < D \<Longrightarrow> \<not> ?Q (?s + e)" by simp_all
  have idx: "unat (hash_thread_id tid) mod 2 ^ c = (?s + 0) mod 2 ^ c" using t(3) by (simp add: home_def)
  have walk: "probe h tid (unat (ht_capacity h)) (hash_thread_id tid)
      = Inr (if key_at h (?s + D) = tid then Some ((?s + D) mod 2 ^ c) else None)"
    using D t(2) by (intro probe_walk [OF ok, where d = 0]) (use idx in auto)
  have keyD: "key_at h ((?s + D) mod 2 ^ c) = key_at h (?s + D)" by (rule keym)
  have less: "(?s + D) mod 2 ^ c < 2 ^ c" by simp
  show "probe h tid (unat (ht_capacity h)) (hash_thread_id tid) = Inr None" if "tid \<notin> table_keys h"
  proof -
    have "key_at h (?s + D) \<noteq> tid" using that table_keys_iff [OF ok, of tid] tid keyD less by metis
    then show ?thesis using walk by simp
  qed
  show "\<exists>i < 2 ^ c. probe h tid (unat (ht_capacity h)) (hash_thread_id tid) = Inr (Some i) \<and> key_at h i = tid"
    if mem: "tid \<in> table_keys h"
  proof -
    obtain i where i: "i < 2 ^ c" "key_at h i = tid" using mem table_keys_iff [OF ok, of tid] by auto
    obtain d where d: "d < 2 ^ c" "i = (?s + d) mod 2 ^ c" "\<forall>e < d. key_at h (?s + e) \<noteq> invalid_thread_id"
      using t(6) [OF i(1)] i(2) tid by auto
    have "key_at h (?s + d) = tid" using i(2) unfolding d(2) keym .
    then have "D \<le> d" using D(3) by (meson not_le)
    then have "key_at h (?s + D) = tid" using D(2) d(3) \<open>key_at h (?s + d) = tid\<close> by (cases "D = d") auto
    then show ?thesis using walk keyD less by auto
  qed
qed

lemma claim_slot_table:
  assumes ok: "table_ok c h" and few: "card (table_keys h) < 2 ^ c" and tid: "tid \<noteq> invalid_thread_id" "tid \<notin> table_keys h"
  shows "\<exists>i h'. claim_slot tid v h = Inr h' \<and> i < length (ht_entries h) \<and> kvp_key (ht_entries h ! i) = invalid_thread_id
    \<and> h' = h\<lparr>ht_entries := (ht_entries h)[i := KVP tid v]\<rparr> \<and> table_ok c h' \<and> table_keys h' = insert tid (table_keys h)"
proof -
  let ?s = "home h tid" and ?n = "2 ^ c :: nat"
  note t = table_okD [OF ok]
  obtain i0 where i0: "i0 < ?n" "key_at h i0 = invalid_thread_id" using free_slot [OF ok few] by blast
  have keym: "key_at h (j mod ?n) = key_at h j" for j using key_at_mod [of h j] unfolding t(3) .
  have "(key_at h (j mod ?n) = invalid_thread_id) = (key_at h j = invalid_thread_id)" for j unfolding keym ..
  from first_slot [where Q = "\<lambda>i. key_at h i = invalid_thread_id" and s = ?s, OF i0 this]
  obtain D where "D < ?n \<and> key_at h (?s + D) = invalid_thread_id \<and> (\<forall>e < D. key_at h (?s + e) \<noteq> invalid_thread_id)" ..
  then have D: "D < ?n" "key_at h (?s + D) = invalid_thread_id" "\<And>e. e < D \<Longrightarrow> key_at h (?s + e) \<noteq> invalid_thread_id"
    by simp_all
  define i where "i = (?s + D) mod ?n"
  define h' where "h' = h\<lparr>ht_entries := (ht_entries h)[i := KVP tid v]\<rparr>"
  have i: "i < ?n" "i < length (ht_entries h)" "key_at h i = invalid_thread_id" using D(2) t(3) keym by (simp_all add: i_def)
  have idx: "unat (hash_thread_id tid) mod ?n = (?s + 0) mod ?n" using t(3) by (simp add: home_def)
  have "probe_free h (unat (ht_capacity h)) (hash_thread_id tid) = Inr i"
    unfolding i_def using D t(2) by (intro probe_free_walk [OF ok, where d = 0]) (use idx in auto)
  then have claim: "claim_slot tid v h = Inr h'" by (simp add: claim_slot_def h'_def)
  have len: "length (ht_entries h') = ?n" "home h' = home h" using t(3) by (simp_all add: h'_def home_def fun_eq_iff)
  have key: "key_at h' j = (if j mod ?n = i then tid else key_at h j)" for j
    using i(2) t(3) by (simp add: key_at_def h'_def nth_list_update)
  have "table_ok c h'"
    unfolding table_ok_def
  proof (intro conjI allI impI)
    fix j k assume a: "j < ?n" "k < ?n" "key_at h' j \<noteq> invalid_thread_id" "key_at h' j = key_at h' k"
    have "key_at h j \<noteq> tid" if "j < ?n" for j using tid table_keys_iff [OF ok, of tid] that by auto
    then show "j = k" using a t(5) [of j k] key [of j] key [of k] by (auto split: if_splits)
  next
    fix j assume a: "j < ?n" "key_at h' j \<noteq> invalid_thread_id"
    have mono: "key_at h' e \<noteq> invalid_thread_id" if "key_at h e \<noteq> invalid_thread_id" for e using that key [of e] tid(1) by simp
    show "\<exists>d < ?n. j = (home h' (key_at h' j) + d) mod ?n \<and> (\<forall>e < d. key_at h' (home h' (key_at h' j) + e) \<noteq> invalid_thread_id)"
    proof (cases "j = i")
      case True
      then have "key_at h' j = tid" using key [of j] i(1) by simp
      then show ?thesis using D mono True len(2) by (intro exI [of _ D]) (simp add: i_def)
    next
      case False
      then have "key_at h' j = key_at h j" using key [of j] a(1) by simp
      then show ?thesis using t(6) [OF a(1)] a(2) mono len(2) by auto
    qed
  qed (use t(1,2) len in \<open>simp_all add: h'_def\<close>)
  moreover have "table_keys h' = insert tid (table_keys h)"
  proof (rule set_eqI)
    fix k
    have "(\<exists>j < ?n. key_at h' j = k) \<longleftrightarrow> k = tid \<or> (\<exists>j < ?n. key_at h j = k)" if "k \<noteq> invalid_thread_id"
      using key i(1,3) that by (metis mod_less)
    then show "k \<in> table_keys h' \<longleftrightarrow> k \<in> insert tid (table_keys h)"
      using table_keys_iff [OF ok, of k] table_keys_iff [OF \<open>table_ok c h'\<close>, of k] tid(1) by auto
  qed
  moreover have "kvp_key (ht_entries h ! i) = invalid_thread_id" using i(2,3) by (simp add: key_at_def)
  ultimately show ?thesis using claim i(2) h'_def by blast
qed

subsection \<open>The hash as a map\<close>

definition table_maps :: "hash_table \<Rightarrow> (u64 \<rightharpoonup> nat) \<Rightarrow> bool" where
  "table_maps h M \<longleftrightarrow> (\<forall>e \<in> set (ht_entries h). kvp_key e \<noteq> invalid_thread_id \<longrightarrow>
     kvp_value e = M (kvp_key e) \<and> M (kvp_key e) \<noteq> None)"

definition hash_rep :: "producer_hash \<Rightarrow> (u64 \<rightharpoonup> nat) \<Rightarrow> bool" where
  "hash_rep H M \<longleftrightarrow> \<not> implicitProducerHashResizeInProgress H \<and> finite (dom M) \<and> invalid_thread_id \<notin> dom M
     \<and> implicitProducerHashCount H = of_nat (card (dom M))
     \<and> (\<exists>c h hs. implicitProducerHash H = h # hs \<and> table_ok c h \<and> 1 \<le> c \<and> 2 * card (dom M) < 2 ^ c
          \<and> (\<forall>h' \<in> set (h # hs). \<exists>c'. table_ok c' h' \<and> card (table_keys h') < 2 ^ c' \<and> table_maps h' M)
          \<and> dom M \<subseteq> (\<Union>h' \<in> set (h # hs). table_keys h'))"

lemma table_maps_keys: "table_maps h M \<Longrightarrow> table_keys h \<subseteq> dom M"
  by (auto simp: table_maps_def table_keys_def)

lemma table_maps_at:
  assumes "table_maps h M" "table_ok c h" "i < 2 ^ c" "key_at h i = tid" "tid \<noteq> invalid_thread_id"
  shows "kvp_value (ht_entries h ! i) = M tid" "M tid \<noteq> None"
proof -
  have l: "i < length (ht_entries h)" using assms(3) table_okD(3) [OF assms(2)] by simp
  then have "ht_entries h ! i \<in> set (ht_entries h)" "kvp_key (ht_entries h ! i) = tid" using assms(4) by (simp_all add: key_at_def)
  then show "kvp_value (ht_entries h ! i) = M tid" "M tid \<noteq> None" using assms(1,5) by (auto simp: table_maps_def)
qed

lemma search_tables_map:
  assumes "\<forall>h \<in> set hs. \<exists>c. table_ok c h \<and> card (table_keys h) < 2 ^ c \<and> table_maps h M" and tid: "tid \<noteq> invalid_thread_id"
  shows "\<exists>r. search_tables k tid hs = Inr r \<and>
    (case r of None \<Rightarrow> \<forall>h \<in> set hs. tid \<notin> table_keys h
     | Some (j, v) \<Rightarrow> k \<le> j \<and> v = M tid \<and> v \<noteq> None \<and> (j = k \<longleftrightarrow> (hs \<noteq> [] \<and> tid \<in> table_keys (hd hs))))"
  using assms(1)
proof (induction hs arbitrary: k)
  case (Cons h hs)
  then obtain c where c: "table_ok c h" "card (table_keys h) < 2 ^ c" "table_maps h M" by auto
  show ?case
  proof (cases "tid \<in> table_keys h")
    case True
    then obtain i where i: "i < 2 ^ c" "probe h tid (unat (ht_capacity h)) (hash_thread_id tid) = Inr (Some i)" "key_at h i = tid"
      using probe_table(2) [OF c(1,2) tid] by blast
    then show ?thesis using table_maps_at [OF c(3,1) i(1,3) tid] True by simp
  next
    case False
    then have p: "probe h tid (unat (ht_capacity h)) (hash_thread_id tid) = Inr None" by (rule probe_table(1) [OF c(1,2) tid])
    obtain r where r: "search_tables (k + 1) tid hs = Inr r" "case r of None \<Rightarrow> \<forall>h \<in> set hs. tid \<notin> table_keys h
     | Some (j, v) \<Rightarrow> k + 1 \<le> j \<and> v = M tid \<and> v \<noteq> None \<and> (j = k + 1 \<longleftrightarrow> (hs \<noteq> [] \<and> tid \<in> table_keys (hd hs)))"
      using Cons.IH [of "k + 1"] Cons.prems by auto
    then show ?thesis using p False by (auto split: option.splits)
  qed
qed simp

definition chain_ok :: "hash_table list \<Rightarrow> (u64 \<rightharpoonup> nat) \<Rightarrow> bool" where
  "chain_ok hs M \<longleftrightarrow> (\<forall>h \<in> set hs. \<exists>c. table_ok c h \<and> card (table_keys h) < 2 ^ c \<and> table_maps h M)"

lemma hash_repE:
  assumes "hash_rep H M"
  obtains c h hs where "\<not> implicitProducerHashResizeInProgress H" "finite (dom M)" "invalid_thread_id \<notin> dom M"
    "implicitProducerHashCount H = of_nat (card (dom M))" "implicitProducerHash H = h # hs" "table_ok c h" "1 \<le> c"
    "2 * card (dom M) < 2 ^ c" "chain_ok (h # hs) M" "dom M \<subseteq> (\<Union>h' \<in> set (h # hs). table_keys h')"
  using assms unfolding hash_rep_def chain_ok_def by blast

lemma hash_repI:
  assumes "\<not> implicitProducerHashResizeInProgress H" "finite (dom M)" "invalid_thread_id \<notin> dom M"
    "implicitProducerHashCount H = of_nat (card (dom M))" "implicitProducerHash H = h # hs" "table_ok c h" "1 \<le> c"
    "2 * card (dom M) < 2 ^ c" "chain_ok (h # hs) M" "dom M \<subseteq> (\<Union>h' \<in> set (h # hs). table_keys h')"
  shows "hash_rep H M"
  using assms unfolding hash_rep_def chain_ok_def by blast

lemma chain_ok_Cons:
  "chain_ok (h # hs) M \<longleftrightarrow> (\<exists>c. table_ok c h \<and> card (table_keys h) < 2 ^ c \<and> table_maps h M) \<and> chain_ok hs M"
  by (simp add: chain_ok_def)

lemma main_claim_chain:
  assumes ok: "chain_ok (h # hs) M" "table_ok c h" and H: "implicitProducerHash H = h # hs"
    and tid: "tid \<noteq> invalid_thread_id" "tid \<notin> table_keys h" "M tid = None \<or> M tid = Some v"
    and fin: "finite (dom M)" and few: "card (insert tid (dom M)) < 2 ^ c"
  shows "\<exists>h'. main_claim tid (Some v) H = Inr (H\<lparr>implicitProducerHash := h' # hs\<rparr>) \<and> table_ok c h'
    \<and> chain_ok (h' # hs) (M(tid \<mapsto> v)) \<and> table_keys h' = insert tid (table_keys h)"
proof -
  have maps: "table_maps h M" using ok(1) by (auto simp: chain_ok_def)
  have "card (table_keys h) \<le> card (insert tid (dom M))"
    using table_maps_keys [OF maps] fin by (intro card_mono) auto
  then have "card (table_keys h) < 2 ^ c" using few by simp
  then obtain i h' where i: "claim_slot tid (Some v) h = Inr h'" "i < length (ht_entries h)"
    "kvp_key (ht_entries h ! i) = invalid_thread_id" "h' = h\<lparr>ht_entries := (ht_entries h)[i := KVP tid (Some v)]\<rparr>"
    "table_ok c h'" "table_keys h' = insert tid (table_keys h)"
    using claim_slot_table [OF ok(2) _ tid(1,2)] by blast
  have upd: "table_maps g M \<Longrightarrow> table_maps g (M(tid \<mapsto> v))" for g
    using tid(3) unfolding table_maps_def by (metis fun_upd_apply option.distinct(1))
  have "table_maps h' (M(tid \<mapsto> v))"
    unfolding table_maps_def
  proof (intro ballI)
    fix e assume "e \<in> set (ht_entries h')"
    then have "e = KVP tid (Some v) \<or> e \<in> set (ht_entries h)" using set_upd_cases i(4) by fastforce
    then show "kvp_key e \<noteq> invalid_thread_id \<longrightarrow>
        kvp_value e = (M(tid \<mapsto> v)) (kvp_key e) \<and> (M(tid \<mapsto> v)) (kvp_key e) \<noteq> None"
      using upd [OF maps] unfolding table_maps_def by auto
  qed
  moreover have "card (table_keys h') < 2 ^ c"
    using few card_mono [of "insert tid (dom M)" "table_keys h'"] table_maps_keys [OF maps] fin unfolding i(6)
    by (meson finite_insert insert_mono le_less_trans)
  moreover have "chain_ok hs (M(tid \<mapsto> v))"
    using ok(1) upd unfolding chain_ok_Cons unfolding chain_ok_def by metis
  ultimately have "chain_ok (h' # hs) (M(tid \<mapsto> v))"
    using i(5) unfolding chain_ok_Cons by metis
  then show ?thesis using i H by (auto simp: main_claim_def)
qed

lemma find_rep:
  assumes rep: "hash_rep H M" and tid: "tid \<noteq> invalid_thread_id"
  shows "\<exists>H'. find_implicit_producer tid H = Inr (map_option Some (M tid), H') \<and> hash_rep H' M \<and> (M tid = None \<longrightarrow> H' = H)"
proof -
  obtain c h hs where a: "\<not> implicitProducerHashResizeInProgress H" "finite (dom M)" "invalid_thread_id \<notin> dom M"
    "implicitProducerHashCount H = of_nat (card (dom M))" "implicitProducerHash H = h # hs" "table_ok c h" "1 \<le> c"
    "2 * card (dom M) < 2 ^ c" "chain_ok (h # hs) M" "dom M \<subseteq> (\<Union>h' \<in> set (h # hs). table_keys h')"
    by (rule hash_repE [OF rep]) (rule that)
  from search_tables_map [OF a(9) [unfolded chain_ok_def] tid, of 0]
  obtain r where "search_tables 0 tid (h # hs) = Inr r \<and>
    (case r of None \<Rightarrow> \<forall>h' \<in> set (h # hs). tid \<notin> table_keys h'
     | Some (j, v) \<Rightarrow> 0 \<le> j \<and> v = M tid \<and> v \<noteq> None \<and> (j = 0 \<longleftrightarrow> (h # hs \<noteq> [] \<and> tid \<in> table_keys (hd (h # hs)))))" ..
  note r = conjunct1 [OF this] conjunct2 [OF this]
  show ?thesis
  proof (cases r)
    case None
    then have "tid \<notin> dom M" using r(2) a(10) by auto
    then show ?thesis using r(1) None a(5) rep by (auto simp: find_implicit_producer_def domIff)
  next
    case (Some jv)
    then obtain j v where j: "r = Some (j, Some v)" "M tid = Some v" "j = 0 \<longleftrightarrow> tid \<in> table_keys h"
      using r(2) by (cases jv) auto
    show ?thesis
    proof (cases "j = 0")
      case True
      then show ?thesis using j r(1) a(5) rep by (auto simp: find_implicit_producer_def simp del: search_tables.simps)
    next
      case False
      have ins: "insert tid (dom M) = dom M" using j(2) by auto
      have "card (insert tid (dom M)) < 2 ^ c" unfolding ins using a(8) by linarith
      then obtain h' where h': "main_claim tid (Some v) H = Inr (H\<lparr>implicitProducerHash := h' # hs\<rparr>)" "table_ok c h'"
        "chain_ok (h' # hs) (M(tid \<mapsto> v))" "table_keys h' = insert tid (table_keys h)"
        using main_claim_chain [OF a(9,6,5) tid, of v] False j(2,3) a(2) by blast
      have M: "M(tid \<mapsto> v) = M" using j(2) by auto
      have "hash_rep (H\<lparr>implicitProducerHash := h' # hs\<rparr>) M"
        using a h' unfolding M by (intro hash_repI [where h = h' and hs = hs and c = c]) auto
      moreover have "find_implicit_producer tid H = Inr (Some (Some v), H\<lparr>implicitProducerHash := h' # hs\<rparr>)"
        using r(1) j False h'(1) a(5) by (simp add: find_implicit_producer_def del: search_tables.simps)
      ultimately show ?thesis using j(2) by auto
    qed
  qed
qed

text \<open>After a successful resize there is room for one more entry than the hash counts.\<close>

definition hash_room :: "producer_hash \<Rightarrow> (u64 \<rightharpoonup> nat) \<Rightarrow> bool" where
  "hash_room H M \<longleftrightarrow> \<not> implicitProducerHashResizeInProgress H \<and> finite (dom M) \<and> invalid_thread_id \<notin> dom M
     \<and> implicitProducerHashCount H = of_nat (card (dom M)) + 1
     \<and> (\<exists>c h hs. implicitProducerHash H = h # hs \<and> table_ok c h \<and> 1 \<le> c \<and> 2 * Suc (card (dom M)) < 2 ^ c
          \<and> chain_ok (h # hs) M \<and> dom M \<subseteq> (\<Union>h' \<in> set (h # hs). table_keys h'))"

lemma new_table_ok:
  assumes "unat cap = 2 ^ c" "c \<le> 58"
  shows "table_ok c (new_hash_table cap)" "table_keys (new_hash_table cap) = {}" "table_maps (new_hash_table cap) M"
proof -
  have k: "key_at (new_hash_table cap) i = invalid_thread_id" for i
    using assms by (simp add: key_at_def new_hash_table_def)
  then show "table_ok c (new_hash_table cap)" using assms by (simp add: table_ok_def) (simp add: new_hash_table_def)
  show "table_keys (new_hash_table cap) = {}" "table_maps (new_hash_table cap) M"
    by (auto simp: table_keys_def table_maps_def new_hash_table_def)
qed

lemma half_capacity:
  assumes "table_ok c h" "1 \<le> c"
  shows "unat (drop_bit 1 (ht_capacity h)) = 2 ^ (c - 1)"
  using assms table_okD(2) [OF assms(1)] by (simp add: drop_bit_eq_div unat_div power_diff)

lemma resize_rep:
  assumes rep: "hash_rep H M"
  defines "newCount \<equiv> 1 + implicitProducerHashCount H"
  shows "\<exists>b H'. resize_hash ok newCount (H\<lparr>implicitProducerHashCount := newCount\<rparr>) = Inr (b, H')
    \<and> (if b then hash_room H' M else H' = H) \<and> (ok \<and> card (dom M) < 2 ^ 56 \<longrightarrow> b)"
proof -
  obtain c h hs where a: "\<not> implicitProducerHashResizeInProgress H" "finite (dom M)" "invalid_thread_id \<notin> dom M"
    "implicitProducerHashCount H = of_nat (card (dom M))" "implicitProducerHash H = h # hs" "table_ok c h" "1 \<le> c"
    "2 * card (dom M) < 2 ^ c" "chain_ok (h # hs) M" "dom M \<subseteq> (\<Union>h' \<in> set (h # hs). table_keys h')"
    by (rule hash_repE [OF rep]) (rule that)
  let ?n = "card (dom M)"
  note c58 = table_okD(1) [OF a(6)]
  have c2: "(2::nat) ^ c = 2 * 2 ^ (c - 1)" using a(7) by (simp flip: power_Suc)
  have n: "?n < 2 ^ (c - 1)" using a(8) c2 by linarith
  have p57: "(2::nat) ^ (c - 1) \<le> 2 ^ 57" using c58 by (intro power_increasing) simp_all
  have nc: "newCount = of_nat ?n + 1" "unat newCount = Suc ?n"
    using n p57 by (simp_all add: newCount_def a(4) unat_word_ariths unat_of_nat)
  show ?thesis
  proof (cases "Suc ?n < 2 ^ (c - 1)")
    case True
    then have "\<not> drop_bit 1 (ht_capacity h) \<le> newCount" using half_capacity [OF a(6,7)] nc(2) by (simp add: word_le_nat_alt)
    then have "resize_hash ok newCount (H\<lparr>implicitProducerHashCount := newCount\<rparr>) = Inr (True, H\<lparr>implicitProducerHashCount := newCount\<rparr>)"
      using a(5) by (simp add: resize_hash_def)
    moreover have "hash_room (H\<lparr>implicitProducerHashCount := newCount\<rparr>) M"
      using a True c2 nc(1) unfolding hash_room_def by auto
    ultimately show ?thesis by auto
  next
    case False
    then have full: "Suc ?n = 2 ^ (c - 1)" using n by simp
    then have le: "drop_bit 1 (ht_capacity h) \<le> newCount" using half_capacity [OF a(6,7)] nc(2) by (simp add: word_le_nat_alt)
    define cap where "cap = push_bit 1 (ht_capacity h)"
    have "(2::nat) ^ Suc c \<le> 2 ^ 59" using c58 by (intro power_increasing) simp_all
    then have cap: "unat cap = 2 ^ Suc c" using table_okD(2) [OF a(6)] by (simp add: cap_def push_bit_eq_mult unat_word_ariths)
    have "unat (drop_bit 1 cap) = 2 ^ c" using cap by (simp add: drop_bit_eq_div unat_div)
    then have dbl: "double_until 65 newCount cap = Inr cap"
    proof -
      have "\<not> drop_bit 1 cap \<le> newCount" using \<open>unat (drop_bit 1 cap) = 2 ^ c\<close> full nc(2) c2 by (simp add: word_le_nat_alt)
      then show ?thesis by (simp add: eval_nat_numeral)
    qed
    have bytes: "unat (24 + 8 - 1 + 16 * cap) < 2 ^ 63 \<longleftrightarrow> c \<le> 57"
    proof (cases "c = 58")
      case True
      then have "cap = of_nat (2 ^ 59)" using cap by (simp add: word_unat_eq_iff)
      then show ?thesis using True by simp
    next
      case False
      then have c57: "c \<le> 57" using c58 by simp
      then have "(2::nat) ^ Suc c \<le> 2 ^ 58" by (intro power_increasing) simp_all
      then have "unat (24 + 8 - 1 + 16 * cap) = 31 + 16 * 2 ^ Suc c"
        using cap by (simp add: unat_word_ariths)
      then show ?thesis using c57 \<open>2 ^ Suc c \<le> 2 ^ 58\<close> by simp
    qed
    have eq: "resize_hash ok newCount (H\<lparr>implicitProducerHashCount := newCount\<rparr>)
      = (if \<not> (ok \<and> c \<le> 57) then Inr (False, H\<lparr>implicitProducerHashCount := newCount - 1, implicitProducerHashResizeInProgress := False\<rparr>)
         else Inr (True, H\<lparr>implicitProducerHashCount := newCount, implicitProducerHash := new_hash_table cap # h # hs,
                   implicitProducerHashResizeInProgress := False\<rparr>))"
      using a(1,5) le dbl bytes unfolding cap_def by (simp add: resize_hash_def malloc_gives_def del: double_until.simps)
    show ?thesis
    proof (cases "ok \<and> c \<le> 57")
      case True
      let ?H = "H\<lparr>implicitProducerHashCount := newCount, implicitProducerHash := new_hash_table cap # h # hs,
                   implicitProducerHashResizeInProgress := False\<rparr>"
      note nt = new_table_ok [OF cap]
      have "chain_ok (new_hash_table cap # h # hs) M"
        unfolding chain_ok_Cons [of "new_hash_table cap"] using a(9) nt True by (auto intro!: exI [of _ "Suc c"])
      moreover have "2 * Suc ?n < 2 ^ Suc c" using full c2 by simp
      ultimately have "hash_room ?H M"
        using a nc(1) nt(1,2) True unfolding hash_room_def by (auto intro!: exI [of _ "Suc c"])
      then show ?thesis using eq True by auto
    next
      case False
      have "H\<lparr>implicitProducerHashCount := newCount - 1, implicitProducerHashResizeInProgress := False\<rparr> = H"
        using a(1) by (simp add: newCount_def)
      moreover have "\<not> (ok \<and> ?n < 2 ^ 56)"
      proof
        assume "ok \<and> ?n < 2 ^ 56"
        then have "c = 58" "?n < 2 ^ 56" using False c58 by auto
        then show False using full by simp
      qed
      ultimately show ?thesis using eq False by auto
    qed
  qed
qed

lemma hash_roomE:
  assumes "hash_room H M"
  obtains c h hs where "\<not> implicitProducerHashResizeInProgress H" "finite (dom M)" "invalid_thread_id \<notin> dom M"
    "implicitProducerHashCount H = of_nat (card (dom M)) + 1" "implicitProducerHash H = h # hs" "table_ok c h" "1 \<le> c"
    "2 * Suc (card (dom M)) < 2 ^ c" "chain_ok (h # hs) M" "dom M \<subseteq> (\<Union>h' \<in> set (h # hs). table_keys h')"
  using assms unfolding hash_room_def by blast

lemma room_claim:
  assumes room: "hash_room H M" and tid: "tid \<noteq> invalid_thread_id" "M tid = None"
  shows "\<exists>H'. main_claim tid (Some v) H = Inr H' \<and> hash_rep H' (M(tid \<mapsto> v))"
proof -
  obtain c h hs where a: "\<not> implicitProducerHashResizeInProgress H" "finite (dom M)" "invalid_thread_id \<notin> dom M"
    "implicitProducerHashCount H = of_nat (card (dom M)) + 1" "implicitProducerHash H = h # hs" "table_ok c h" "1 \<le> c"
    "2 * Suc (card (dom M)) < 2 ^ c" "chain_ok (h # hs) M" "dom M \<subseteq> (\<Union>h' \<in> set (h # hs). table_keys h')"
    by (rule hash_roomE [OF room]) (rule that)
  have new: "tid \<notin> dom M" using tid(2) by auto
  have card: "card (insert tid (dom M)) = Suc (card (dom M))" using new a(2) by simp
  have "table_keys h \<subseteq> dom M" using a(9) table_maps_keys by (auto simp: chain_ok_Cons)
  then have "tid \<notin> table_keys h" using new by auto
  moreover have "card (insert tid (dom M)) < 2 ^ c" unfolding card using a(8) by simp
  ultimately obtain h' where h': "main_claim tid (Some v) H = Inr (H\<lparr>implicitProducerHash := h' # hs\<rparr>)" "table_ok c h'"
    "chain_ok (h' # hs) (M(tid \<mapsto> v))" "table_keys h' = insert tid (table_keys h)"
    using main_claim_chain [OF a(9,6,5) tid(1), of v] tid(2) a(2) by blast
  have d: "dom (M(tid \<mapsto> v)) = insert tid (dom M)" by simp
  have "hash_rep (H\<lparr>implicitProducerHash := h' # hs\<rparr>) (M(tid \<mapsto> v))"
  proof (rule hash_repI [where h = h' and hs = hs and c = c])
    show "2 * card (dom (M(tid \<mapsto> v))) < 2 ^ c" unfolding d card by (rule a(8))
    show "implicitProducerHashCount (H\<lparr>implicitProducerHash := h' # hs\<rparr>) = of_nat (card (dom (M(tid \<mapsto> v))))"
      unfolding d card using a(4) by simp
    show "dom (M(tid \<mapsto> v)) \<subseteq> (\<Union>h \<in> set (h' # hs). table_keys h)" using a(10) h'(4) by auto
  qed (use a(1-3,7) h' tid(1) in auto)
  then show ?thesis using h'(1) by blast
qed

lemma room_undo:
  assumes room: "hash_room H M"
  shows "hash_rep (H\<lparr>implicitProducerHashCount := implicitProducerHashCount H - 1\<rparr>) M"
proof -
  obtain c h hs where a: "\<not> implicitProducerHashResizeInProgress H" "finite (dom M)" "invalid_thread_id \<notin> dom M"
    "implicitProducerHashCount H = of_nat (card (dom M)) + 1" "implicitProducerHash H = h # hs" "table_ok c h" "1 \<le> c"
    "2 * Suc (card (dom M)) < 2 ^ c" "chain_ok (h # hs) M" "dom M \<subseteq> (\<Union>h' \<in> set (h # hs). table_keys h')"
    by (rule hash_roomE [OF room]) (rule that)
  have "2 * card (dom M) < 2 ^ c" using a(8) by simp
  then show ?thesis using a by (intro hash_repI [where h = h and hs = hs and c = c]) auto
qed

lemma room_test:
  assumes room: "hash_room H M"
  obtains h hs where "implicitProducerHash H = h # hs"
    "implicitProducerHashCount H < drop_bit 1 (ht_capacity h) + drop_bit 2 (ht_capacity h)"
proof (rule hash_roomE [OF room])
  fix c h hs
  assume a: "implicitProducerHashCount H = of_nat (card (dom M)) + 1" "implicitProducerHash H = h # hs" "table_ok c h" "1 \<le> c"
    "2 * Suc (card (dom M)) < 2 ^ c"
  note c58 = table_okD(1) [OF a(3)]
  have c2: "(2::nat) ^ c = 2 * 2 ^ (c - 1)" using a(4) by (simp flip: power_Suc)
  have p57: "(2::nat) ^ (c - 1) \<le> 2 ^ 57" using c58 by (intro power_increasing) simp_all
  have n: "Suc (card (dom M)) < 2 ^ (c - 1)" using a(5) unfolding c2 by simp
  then have u: "unat (implicitProducerHashCount H) = Suc (card (dom M))"
    using p57 by (simp add: a(1) unat_word_ariths unat_of_nat)
  have q: "unat (drop_bit 2 (ht_capacity h)) \<le> 2 ^ (c - 1)"
  proof -
    have "unat (drop_bit 2 (ht_capacity h)) = 2 ^ c div 4" using table_okD(2) [OF a(3)] by (simp add: drop_bit_eq_div unat_div)
    then show ?thesis using c2 by linarith
  qed
  have "unat (drop_bit 1 (ht_capacity h) + drop_bit 2 (ht_capacity h)) = 2 ^ (c - 1) + unat (drop_bit 2 (ht_capacity h))"
    using half_capacity [OF a(3,4)] q p57 by (simp add: unat_word_ariths)
  then show ?thesis using that [OF a(2)] u n by (simp add: word_less_nat_alt)
qed

lemma initial_hash_rep: "hash_rep populate_initial_implicit_producer_hash Map.empty"
proof -
  have c: "unat INITIAL_IMPLICIT_PRODUCER_HASH_SIZE = 2 ^ 5" by (simp add: INITIAL_IMPLICIT_PRODUCER_HASH_SIZE_def)
  have c58: "(5::nat) \<le> 58" by simp
  note nt = new_table_ok [OF c c58]
  show ?thesis
    using nt by (intro hash_repI [where h = "new_hash_table INITIAL_IMPLICIT_PRODUCER_HASH_SIZE" and hs = "[]" and c = 5])
      (auto simp: populate_initial_implicit_producer_hash_def chain_ok_def intro!: exI [of _ 5])
qed

end
