(* ===== verification/Lanes.thy ===== *)
theory Lanes
  imports Fifo "HOL-Library.Multiset"
begin

text \<open>
  The contract of a queue with several producers, one operation at a time: one list (lane) for every thread. An enqueue
  adds at the end of the lane of the calling thread; a dequeue takes the front of a lane of its choice and finds nothing only
  when all lanes are empty. So the elements of one thread keep their order, and those of different
  threads may be interleaved in any way.
\<close>

text \<open>What was accepted from thread \<open>t\<close>, and what was taken out of its lane.\<close>

fun accepted_by :: "('m \<Rightarrow> 't) \<Rightarrow> 't \<Rightarrow> ('m, 'a) queue_op list \<Rightarrow> 'a queue_event list \<Rightarrow> 'a list" where
  "accepted_by th t (Enq m x # ops) (Accepted y # evs) = (if th m = t then y # accepted_by th t ops evs else accepted_by th t ops evs)"
| "accepted_by th t (_ # ops) (_ # evs) = accepted_by th t ops evs"
| "accepted_by th t _ _ = []"

definition picked :: "'t \<Rightarrow> 't list \<Rightarrow> 'a list \<Rightarrow> 'a list" where
  "picked t tags xs = map snd (filter (\<lambda>(u, x). u = t) (zip tags xs))"

lemma picked_simps [simp]:
  "picked t [] xs = []" "picked t (u # tags) (x # xs) = (if u = t then x # picked t tags xs else picked t tags xs)"
  by (simp_all add: picked_def)

locale lanes =
  fixes inv :: "'q \<Rightarrow> bool"
    and valid :: "'m \<Rightarrow> bool"
    and thread :: "'m \<Rightarrow> 't"
    and lane :: "'q \<Rightarrow> 't \<Rightarrow> 'a list"
    and enq :: "'m \<Rightarrow> 'a \<Rightarrow> 'q \<Rightarrow> 'e + bool \<times> 'q"
    and deq :: "'q \<Rightarrow> 'e + 'a option \<times> 'q"
  assumes enq_lane: "inv q \<Longrightarrow> valid m \<Longrightarrow>
      \<exists>b q'. enq m x q = Inr (b, q') \<and> inv q'
        \<and> lane q' = (if b then (lane q)(thread m := lane q (thread m) @ [x]) else lane q)"
    and deq_lane: "inv q \<Longrightarrow>
      \<exists>r q'. deq q = Inr (r, q') \<and> inv q'
        \<and> (case r of None \<Rightarrow> (\<forall>t. lane q t = []) \<and> lane q' = lane q
           | Some x \<Rightarrow> \<exists>t xs. lane q t = x # xs \<and> lane q' = (lane q)(t := xs))"
begin

lemma run_ops_lanes:
  assumes "inv q" "\<forall>m x. Enq m x \<in> set ops \<longrightarrow> valid m"
  shows "\<exists>evs q' tags. run_ops enq deq ops q = Inr (evs, q') \<and> inv q' \<and> length evs = length ops
    \<and> length tags = length (got evs)
    \<and> (\<forall>t. lane q t @ accepted_by thread t ops evs = picked t tags (got evs) @ lane q' t)"
  using assms
proof (induction ops arbitrary: q)
  case Nil
  show ?case by (intro exI [of _ "[]"] exI [of _ q]) (simp add: Nil)
next
  case (Cons op ops)
  have v: "\<forall>m x. Enq m x \<in> set ops \<longrightarrow> valid m" using Cons.prems(2) by simp
  show ?case
  proof (cases op)
    case (Enq m x)
    then have "valid m" using Cons.prems(2) by auto
    then obtain b q1 where q1: "enq m x q = Inr (b, q1)" "inv q1"
      "lane q1 = (if b then (lane q)(thread m := lane q (thread m) @ [x]) else lane q)"
      using enq_lane [OF Cons.prems(1)] by blast
    obtain evs q' tags where r: "run_ops enq deq ops q1 = Inr (evs, q')" "inv q'" "length evs = length ops"
      "length tags = length (got evs)"
      "\<And>t. lane q1 t @ accepted_by thread t ops evs = picked t tags (got evs) @ lane q' t"
      using Cons.IH [OF q1(2) v] by blast
    have "lane q t @ accepted_by thread t (op # ops) ((if b then Accepted x else Refused x) # evs)
        = picked t tags (got evs) @ lane q' t" for t
      using r(5) [of t] q1(3) Enq by (cases b; cases "thread m = t") auto
    then show ?thesis using q1(1) r(1-4) Enq
      by (intro exI [of _ "(if b then Accepted x else Refused x) # evs"] exI [of _ q'] exI [of _ tags]) simp
  next
    case Deq
    obtain r q1 where q1: "deq q = Inr (r, q1)" "inv q1" "case r of None \<Rightarrow> (\<forall>t. lane q t = []) \<and> lane q1 = lane q
           | Some x \<Rightarrow> \<exists>t xs. lane q t = x # xs \<and> lane q1 = (lane q)(t := xs)"
      using deq_lane [OF Cons.prems(1)] by blast
    obtain evs q' tags where s: "run_ops enq deq ops q1 = Inr (evs, q')" "inv q'" "length evs = length ops"
      "length tags = length (got evs)"
      "\<And>t. lane q1 t @ accepted_by thread t ops evs = picked t tags (got evs) @ lane q' t"
      using Cons.IH [OF q1(2) v] by blast
    show ?thesis
    proof (cases r)
      case None
      then show ?thesis using q1 s Deq by (intro exI [of _ "Empty # evs"] exI [of _ q'] exI [of _ tags]) simp
    next
      case (Some x)
      then obtain u xs where u: "lane q u = x # xs" "lane q1 = (lane q)(u := xs)" using q1(3) by auto
      have "lane q t @ accepted_by thread t (op # ops) (Got x # evs) = picked t (u # tags) (x # got evs) @ lane q' t" for t
        using s(5) [of t] u Deq by (cases "t = u") auto
      then show ?thesis using q1 s(1-4) Deq Some
        by (intro exI [of _ "Got x # evs"] exI [of _ q'] exI [of _ "u # tags"]) simp
    qed
  qed
qed

lemma deq_finds: "inv q \<Longrightarrow> lane q t \<noteq> [] \<Longrightarrow> \<exists>x q'. deq q = Inr (Some x, q')"
  using deq_lane [of q] by (auto split: option.splits)

end

text \<open>A FIFO queue is the special case of a single lane.\<close>

sublocale fifo \<subseteq> single: lanes inv "\<lambda>m. True" "\<lambda>m. ()" "\<lambda>q t. contents q" enq deq
proof
  show "\<exists>b q'. enq m x q = Inr (b, q') \<and> inv q'
      \<and> (\<lambda>t. contents q') = (if b then (\<lambda>t. contents q)(() := contents q @ [x]) else (\<lambda>t. contents q))" if "inv q" for q m x
    using enq_law [OF that, of m x] by (auto simp: fun_eq_iff)
  show "\<exists>r q'. deq q = Inr (r, q') \<and> inv q'
        \<and> (case r of None \<Rightarrow> (\<forall>t :: unit. contents q = []) \<and> (\<lambda>t :: unit. contents q') = (\<lambda>t. contents q)
           | Some x \<Rightarrow> \<exists>(t :: unit) xs. contents q = x # xs \<and> (\<lambda>t. contents q') = (\<lambda>t. contents q)(t := xs))" if "inv q" for q
    using deq_law [OF that] by (cases "contents q") (auto simp: fun_eq_iff)
qed

subsection \<open>Finitely many threads\<close>

text \<open>All elements of the queue, whatever their order.\<close>

definition lane_bag :: "('q \<Rightarrow> 't :: finite \<Rightarrow> 'a list) \<Rightarrow> 'q \<Rightarrow> 'a multiset" where
  "lane_bag lane q = (\<Sum>t \<in> UNIV. mset (lane q t))"

lemma lane_bag_upd: "lane q' = (lane q)(u := ys) \<Longrightarrow> lane_bag lane q' + mset (lane q u) = lane_bag lane q + mset ys"
proof -
  assume l: "lane q' = (lane q)(u := ys)"
  have "lane_bag lane q' = mset ys + (\<Sum>t \<in> UNIV - {u}. mset (lane q t))"
    unfolding lane_bag_def by (subst sum.remove [of UNIV u]) (auto simp: l intro!: sum.cong)
  moreover have "lane_bag lane q = mset (lane q u) + (\<Sum>t \<in> UNIV - {u}. mset (lane q t))"
    unfolding lane_bag_def by (subst sum.remove [of UNIV u]) auto
  ultimately show ?thesis by simp
qed

lemma lane_bag_empty: "lane_bag lane q = {#} \<longleftrightarrow> (\<forall>t. lane q t = [])"
proof
  show "\<forall>t. lane q t = []" if e: "lane_bag lane q = {#}"
  proof
    fix t
    have "lane_bag lane q = mset (lane q t) + (\<Sum>u \<in> UNIV - {t}. mset (lane q u))"
      unfolding lane_bag_def by (subst sum.remove [of UNIV t]) auto
    then show "lane q t = []" using e by simp
  qed
qed (simp add: lane_bag_def)

text \<open>The loop \<open>while (q.try_dequeue(x)) f(x);\<close>, with \<open>s\<close> the state that \<open>f\<close> changes.\<close>

partial_function (option) drain :: "('q \<Rightarrow> 'e + 'a option \<times> 'q) \<Rightarrow> ('a \<Rightarrow> 's \<Rightarrow> 's) \<Rightarrow> 'q \<Rightarrow> 's \<Rightarrow> ('e + 'q \<times> 's) option" where
  [code]: "drain deq f q s =
     (case deq q of
        Inl e \<Rightarrow> Some (Inl e)
      | Inr p \<Rightarrow> (case fst p of None \<Rightarrow> Some (Inr (snd p, s)) | Some x \<Rightarrow> drain deq f (snd p) (f x s)))"

locale finite_lanes = lanes inv valid thread lane enq deq
  for inv :: "'q \<Rightarrow> bool" and valid :: "'m \<Rightarrow> bool" and thread :: "'m \<Rightarrow> 't :: finite" and lane :: "'q \<Rightarrow> 't \<Rightarrow> 'a list"
    and enq :: "'m \<Rightarrow> 'a \<Rightarrow> 'q \<Rightarrow> 'e + bool \<times> 'q" and deq :: "'q \<Rightarrow> 'e + 'a option \<times> 'q"
begin

lemma enq_bag:
  assumes "inv q" "valid m"
  shows "\<exists>b q'. enq m x q = Inr (b, q') \<and> inv q' \<and> lane_bag lane q' = (if b then add_mset x (lane_bag lane q) else lane_bag lane q)"
proof -
  obtain b q' where q': "enq m x q = Inr (b, q')" "inv q'"
    "lane q' = (if b then (lane q)(thread m := lane q (thread m) @ [x]) else lane q)"
    using enq_lane [OF assms] by blast
  then have "lane_bag lane q' = (if b then add_mset x (lane_bag lane q) else lane_bag lane q)"
    using lane_bag_upd [of lane q' q "thread m" "lane q (thread m) @ [x]"] by (cases b) (simp_all add: lane_bag_def)
  then show ?thesis using q' by blast
qed

lemma deq_bag:
  assumes "inv q"
  shows "\<exists>r q'. deq q = Inr (r, q') \<and> inv q'
    \<and> (case r of None \<Rightarrow> lane_bag lane q = {#} \<and> lane_bag lane q' = {#} | Some x \<Rightarrow> lane_bag lane q = add_mset x (lane_bag lane q'))"
proof -
  obtain r q' where q': "deq q = Inr (r, q')" "inv q'" "case r of None \<Rightarrow> (\<forall>t. lane q t = []) \<and> lane q' = lane q
           | Some x \<Rightarrow> \<exists>t xs. lane q t = x # xs \<and> lane q' = (lane q)(t := xs)"
    using deq_lane [OF assms] by blast
  have "case r of None \<Rightarrow> lane_bag lane q = {#} \<and> lane_bag lane q' = {#} | Some x \<Rightarrow> lane_bag lane q = add_mset x (lane_bag lane q')"
    using q'(3) lane_bag_upd [of lane q' q] by (cases r) (fastforce simp: lane_bag_empty)+
  then show ?thesis using q'(1,2) by blast
qed

text \<open>The loop ends with an empty queue, and has handled every element once, those of one thread in their order.\<close>

lemma drain_lanes:
  assumes "inv q"
  shows "\<exists>q' xs tags. drain deq f q s = Some (Inr (q', fold f xs s)) \<and> inv q' \<and> (\<forall>t. lane q' t = [])
    \<and> mset xs = lane_bag lane q \<and> length tags = length xs \<and> (\<forall>t. lane q t = picked t tags xs)"
  using assms
proof (induction "size (lane_bag lane q)" arbitrary: q s rule: less_induct)
  case less
  obtain r q1 where q1: "deq q = Inr (r, q1)" "inv q1" "case r of None \<Rightarrow> (\<forall>t. lane q t = []) \<and> lane q1 = lane q
           | Some x \<Rightarrow> \<exists>t xs. lane q t = x # xs \<and> lane q1 = (lane q)(t := xs)"
    using deq_lane [OF less.prems] by blast
  show ?case
  proof (cases r)
    case None
    then have "drain deq f q s = Some (Inr (q1, s))" using q1 by (subst drain.simps) simp
    then show ?thesis
      using None q1 by (intro exI [of _ q1] exI [of _ "[]"] exI [of _ "[]"]) (auto simp: lane_bag_empty [symmetric] lane_bag_def)
  next
    case (Some x)
    then obtain u ys where u: "lane q u = x # ys" "lane q1 = (lane q)(u := ys)" using q1(3) by auto
    have bag: "lane_bag lane q = add_mset x (lane_bag lane q1)" using lane_bag_upd [OF u(2)] u(1) by simp
    have "size (lane_bag lane q1) < size (lane_bag lane q)" unfolding bag by simp
    from less.hyps [OF this q1(2), of "f x s"]
    obtain q' xs tags where r: "drain deq f q1 (f x s) = Some (Inr (q', fold f xs (f x s)))" "inv q'" "\<forall>t. lane q' t = []"
      "mset xs = lane_bag lane q1" "length tags = length xs" "\<forall>t. lane q1 t = picked t tags xs"
      by (elim exE conjE) (rule that; assumption)
    have "drain deq f q s = Some (Inr (q', fold f (x # xs) s))" using r(1) q1(1) Some by (subst drain.simps) simp
    moreover have "lane q t = picked t (u # tags) (x # xs)" for t using r(6) u by (cases "t = u") (simp, metis, simp, metis fun_upd_other)
    ultimately show ?thesis using r bag by (intro exI [of _ q'] exI [of _ "x # xs"] exI [of _ "u # tags"]) simp
  qed
qed

end

end
