(* ===== verification/ConcurrentQueue.thy ===== *)
theory ConcurrentQueue
  imports ImplicitProducer ProducerHash Lanes
begin

text \<open>
  \<open>source/utils/concurrentqueue.h\<close>: \<open>ConcurrentQueue\<close>, many producers over one block pool. Every thread that
  enqueues has a sub-queue of its own, found through the implicit producer hash; the sub-queues form a linked list
  that the dequeuing operations walk.

  A producer is a node of the list \<open>producers\<close>, a pointer to it its position; the links are the \<open>next\<close>
  pointers of the code. The repository uses no tokens, so no explicit producers are made. One operation runs at a time. The
  walk over the list of producers takes as many steps as there are producers; a longer one would never end.
\<close>

record prod_node =
  node_prod :: producer
  next_prod :: "nat option"
  inactive :: bool
  isExplicit :: bool

record 'a cqueue =
  producers :: "prod_node list"
  producerListTail :: "nat option"
  producerCount :: u32
  blockPool :: "'a pool"
  producerHash :: producer_hash

subsection \<open>Construction\<close>

definition initial_block_count :: "u64 \<Rightarrow> u64" where
  "initial_block_count capac = capac div BLOCK_SIZE + (if capac AND (BLOCK_SIZE - 1) = 0 then 0 else 1)"

definition cqueue_of_blocks :: "bool \<Rightarrow> u64 \<Rightarrow> 'a cqueue" where
  "cqueue_of_blocks malloc_ok blocks =
     \<lparr>producers = [], producerListTail = None, producerCount = 0,
      blockPool = populate_initial_block_list malloc_ok blocks pool_init,
      producerHash = populate_initial_implicit_producer_hash\<rparr>"

definition ConcurrentQueue_new :: "bool \<Rightarrow> u64 \<Rightarrow> 'a cqueue" where
  "ConcurrentQueue_new malloc_ok capac = cqueue_of_blocks malloc_ok (initial_block_count capac)"

text \<open>The second constructor, for a number of producers of each kind.\<close>

definition initial_block_count3 :: "u64 \<Rightarrow> u64 \<Rightarrow> u64 \<Rightarrow> u64" where
  "initial_block_count3 minCapacity maxExplicitProducers maxImplicitProducers =
     (((minCapacity + BLOCK_SIZE - 1) div BLOCK_SIZE - 1) * (maxExplicitProducers + 1)
       + 2 * (maxExplicitProducers + maxImplicitProducers)) * BLOCK_SIZE"

definition ConcurrentQueue_new3 :: "bool \<Rightarrow> u64 \<Rightarrow> u64 \<Rightarrow> u64 \<Rightarrow> 'a cqueue" where
  "ConcurrentQueue_new3 malloc_ok minCapacity maxExplicitProducers maxImplicitProducers =
     cqueue_of_blocks malloc_ok (initial_block_count3 minCapacity maxExplicitProducers maxImplicitProducers)"

subsection \<open>Producers\<close>

definition add_producer :: "prod_node option \<Rightarrow> 'a cqueue \<Rightarrow> nat option \<times> 'a cqueue" where
  "add_producer producer q =
     (case producer of
        None \<Rightarrow> (None, q)
      | Some node \<Rightarrow>
          let ptr = length (producers q);
              prevTail = producerListTail q
          in (Some ptr, q\<lparr>producerCount := producerCount q + 1,
                          producers := producers q @ [node\<lparr>next_prod := prevTail\<rparr>],
                          producerListTail := Some ptr\<rparr>))"

text \<open>\<open>create<ImplicitProducer>(this)\<close>: memory for the producer, then its constructor.\<close>

definition create_implicit_producer :: "bool \<Rightarrow> bool \<Rightarrow> cq_error + prod_node option" where
  "create_implicit_producer prod_ok index_ok =
     (if prod_ok
      then bindE (ImplicitProducer_new index_ok)
             (\<lambda>p. Inr (Some \<lparr>node_prod = p, next_prod = None, inactive = False, isExplicit = False\<rparr>))
      else Inr None)"

fun find_inactive :: "prod_node list \<Rightarrow> nat \<Rightarrow> nat option \<Rightarrow> cq_error + nat option" where
  "find_inactive ps fuel None = Inr None"
| "find_inactive ps 0 (Some ptr) = Inl Cq_diverges"
| "find_inactive ps (Suc fuel) (Some ptr) =
     (if inactive (ps ! ptr) \<and> \<not> isExplicit (ps ! ptr) then Inr (Some ptr)
      else find_inactive ps fuel (next_prod (ps ! ptr)))"

text \<open>The first component of the result is \<open>recycled\<close>.\<close>

definition recycle_or_create_producer :: "bool \<Rightarrow> bool \<Rightarrow> 'a cqueue \<Rightarrow> cq_error + bool \<times> nat option \<times> 'a cqueue" where
  "recycle_or_create_producer prod_ok index_ok q =
     bindE (find_inactive (producers q) (length (producers q)) (producerListTail q))
       (\<lambda>r. case r of
          Some ptr \<Rightarrow>
            Inr (True, Some ptr, q\<lparr>producers := (producers q)[ptr := (producers q ! ptr)\<lparr>inactive := False\<rparr>]\<rparr>)
        | None \<Rightarrow>
            bindE (create_implicit_producer prod_ok index_ok) (\<lambda>node. Inr (False, add_producer node q)))"

text \<open>
  \<open>get_or_add_implicit_producer\<close>, called by the thread \<open>tid\<close>; \<open>hash_ok\<close>, \<open>prod_ok\<close> and \<open>pindex_ok\<close> say whether \<open>malloc\<close>
  succeeds for a new hash table, a new producer and its block index. When the last loop of the code would run again, nothing
  has changed since.
\<close>

definition get_or_add_implicit_producer ::
  "u64 \<Rightarrow> bool \<times> bool \<times> bool \<Rightarrow> 'a cqueue \<Rightarrow> cq_error + nat option \<times> 'a cqueue" where
  "get_or_add_implicit_producer tid env q =
     (let (hash_ok, prod_ok, pindex_ok) = env
      in bindE (find_implicit_producer tid (producerHash q))
           (\<lambda>(found, H).
              let q = q\<lparr>producerHash := H\<rparr>
              in case found of
                   Some v \<Rightarrow> Inr (v, q)
                 | None \<Rightarrow>
                     let newCount = 1 + implicitProducerHashCount H
                     in bindE (resize_hash hash_ok newCount (H\<lparr>implicitProducerHashCount := newCount\<rparr>))
                          (\<lambda>(ok, H).
                             let q = q\<lparr>producerHash := H\<rparr>
                             in if \<not> ok then Inr (None, q)
                                else case implicitProducerHash H of
                                  [] \<Rightarrow> Inl Cq_null_pointer
                                | mainHash # _ \<Rightarrow>
                                    if newCount < drop_bit 1 (ht_capacity mainHash) + drop_bit 2 (ht_capacity mainHash) then
                                      bindE (recycle_or_create_producer prod_ok pindex_ok q)
                                        (\<lambda>(recycled, producer, q).
                                           let uncount = (\<lambda>q. q\<lparr>producerHash := (producerHash q)
                                                 \<lparr>implicitProducerHashCount := implicitProducerHashCount (producerHash q) - 1\<rparr>\<rparr>)
                                           in if producer = None then Inr (None, uncount q)
                                              else
                                                let q = (if recycled then uncount q else q)
                                                in bindE (main_claim tid producer (producerHash q))
                                                     (\<lambda>H. Inr (producer, q\<lparr>producerHash := H\<rparr>)))
                                    else Inl Cq_diverges)))"

subsection \<open>Enqueue\<close>

abbreviation set_producer :: "nat \<Rightarrow> producer \<Rightarrow> 'a pool \<Rightarrow> 'a cqueue \<Rightarrow> 'a cqueue" where
  "set_producer ptr p P q \<equiv>
     q\<lparr>producers := (producers q)[ptr := (producers q ! ptr)\<lparr>node_prod := p\<rparr>], blockPool := P\<rparr>"

text \<open>The environment of an enqueue: the calling thread, and which of the allocations it may ask for succeed.\<close>

type_synonym cq_env = "u64 \<times> (bool \<times> bool \<times> bool) \<times> bool \<times> bool"

definition cq_inner_enqueue :: "alloc_mode \<Rightarrow> cq_env \<Rightarrow> 'a \<Rightarrow> 'a cqueue \<Rightarrow> cq_error + bool \<times> 'a cqueue" where
  "cq_inner_enqueue canAlloc env element q =
     (let (tid, penv, index_ok, block_ok) = env
      in bindE (get_or_add_implicit_producer tid penv q)
           (\<lambda>(producer, q). case producer of
              None \<Rightarrow> Inr (False, q)
            | Some ptr \<Rightarrow>
                bindE (implicit_enqueue (canAlloc, index_ok, block_ok) element (node_prod (producers q ! ptr)) (blockPool q))
                  (\<lambda>(b, p, P). Inr (b, set_producer ptr p P q))))"

definition cq_enqueue :: "cq_env \<Rightarrow> 'a \<Rightarrow> 'a cqueue \<Rightarrow> cq_error + bool \<times> 'a cqueue" where
  "cq_enqueue env item q =
     (if INITIAL_IMPLICIT_PRODUCER_HASH_SIZE = 0 then Inr (False, q) else cq_inner_enqueue Can_alloc env item q)"

definition cq_try_enqueue :: "cq_env \<Rightarrow> 'a \<Rightarrow> 'a cqueue \<Rightarrow> cq_error + bool \<times> 'a cqueue" where
  "cq_try_enqueue env item q =
     (if INITIAL_IMPLICIT_PRODUCER_HASH_SIZE = 0 then Inr (False, q) else cq_inner_enqueue Cannot_alloc env item q)"

subsection \<open>Dequeue\<close>

text \<open>\<open>ProducerBase::dequeue\<close> on the producer \<open>ptr\<close>.\<close>

definition producer_dequeue :: "nat \<Rightarrow> 'a cqueue \<Rightarrow> cq_error + 'a option \<times> 'a cqueue" where
  "producer_dequeue ptr q =
     bindE (implicit_dequeue (node_prod (producers q ! ptr)) (blockPool q))
       (\<lambda>(r, p, P). Inr (r, set_producer ptr p P q))"

text \<open>The heuristic choice: the largest of the first three producers that are not empty.\<close>

fun choose_producer ::
  "prod_node list \<Rightarrow> nat \<Rightarrow> nat option \<Rightarrow> nat \<Rightarrow> nat option \<Rightarrow> u64 \<Rightarrow> cq_error + nat \<times> nat option" where
  "choose_producer ps fuel None nonEmptyCount best bestSize = Inr (nonEmptyCount, best)"
| "choose_producer ps 0 (Some ptr) nonEmptyCount best bestSize = Inl Cq_diverges"
| "choose_producer ps (Suc fuel) (Some ptr) nonEmptyCount best bestSize =
     (if \<not> nonEmptyCount < 3 then Inr (nonEmptyCount, best)
      else
        let sz = producer_size_approx (node_prod (ps ! ptr))
        in if sz > 0 then
             choose_producer ps fuel (next_prod (ps ! ptr)) (nonEmptyCount + 1)
               (if sz > bestSize then Some ptr else best) (if sz > bestSize then sz else bestSize)
           else choose_producer ps fuel (next_prod (ps ! ptr)) nonEmptyCount best bestSize)"

text \<open>Try the producers in turn, except the one that was tried already.\<close>

fun dequeue_any :: "nat \<Rightarrow> nat option \<Rightarrow> nat option \<Rightarrow> 'a cqueue \<Rightarrow> cq_error + 'a option \<times> 'a cqueue" where
  "dequeue_any fuel except None q = Inr (None, q)"
| "dequeue_any 0 except (Some ptr) q = Inl Cq_diverges"
| "dequeue_any (Suc fuel) except (Some ptr) q =
     (if Some ptr = except then dequeue_any fuel except (next_prod (producers q ! ptr)) q
      else bindE (producer_dequeue ptr q)
             (\<lambda>(r, q). case r of
                Some x \<Rightarrow> Inr (Some x, q)
              | None \<Rightarrow> dequeue_any fuel except (next_prod (producers q ! ptr)) q))"

definition cq_try_dequeue :: "'a cqueue \<Rightarrow> cq_error + 'a option \<times> 'a cqueue" where
  "cq_try_dequeue q =
     bindE (choose_producer (producers q) (length (producers q)) (producerListTail q) 0 None 0)
       (\<lambda>(nonEmptyCount, best).
          if nonEmptyCount > 0 then
            (case best of
               None \<Rightarrow> Inl Cq_null_pointer
             | Some ptr \<Rightarrow>
                 bindE (producer_dequeue ptr q)
                   (\<lambda>(r, q). case r of
                      Some x \<Rightarrow> Inr (Some x, q)
                    | None \<Rightarrow> dequeue_any (length (producers q)) best (producerListTail q) q))
          else Inr (None, q))"

definition cq_try_dequeue_non_interleaved :: "'a cqueue \<Rightarrow> cq_error + 'a option \<times> 'a cqueue" where
  "cq_try_dequeue_non_interleaved q = dequeue_any (length (producers q)) None (producerListTail q) q"

fun sum_sizes :: "prod_node list \<Rightarrow> nat \<Rightarrow> nat option \<Rightarrow> u64 \<Rightarrow> cq_error + u64" where
  "sum_sizes ps fuel None acc = Inr acc"
| "sum_sizes ps 0 (Some ptr) acc = Inl Cq_diverges"
| "sum_sizes ps (Suc fuel) (Some ptr) acc =
     sum_sizes ps fuel (next_prod (ps ! ptr)) (acc + producer_size_approx (node_prod (ps ! ptr)))"

definition cq_size_approx :: "'a cqueue \<Rightarrow> cq_error + u64" where
  "cq_size_approx q = sum_sizes (producers q) (length (producers q)) (producerListTail q) 0"

subsection \<open>The queue as a family of lists\<close>

text \<open>
  Producer \<open>i\<close> holds \<open>xss ! i\<close> in the blocks \<open>Ls ! i\<close>; the blocks \<open>F\<close> are free; the hash represents the map \<open>M\<close> from threads
  to producers, a bijection. The links of the producer list go from every producer to the one made before it.
\<close>

definition nodes_ok :: "prod_node list \<Rightarrow> nat option \<Rightarrow> bool" where
  "nodes_ok ps tail \<longleftrightarrow> tail = (case length ps of 0 \<Rightarrow> None | Suc n \<Rightarrow> Some n)
     \<and> (\<forall>i < length ps. next_prod (ps ! i) = (case i of 0 \<Rightarrow> None | Suc j \<Rightarrow> Some j)
          \<and> \<not> inactive (ps ! i) \<and> \<not> isExplicit (ps ! i))"

definition lanes_rep :: "producer list \<Rightarrow> 'a pool \<Rightarrow> 'a list list \<Rightarrow> nat set list \<Rightarrow> nat set \<Rightarrow> bool" where
  "lanes_rep ps P xss Ls F \<longleftrightarrow> length xss = length ps \<and> length Ls = length ps \<and> pool_rep P F
     \<and> (\<forall>i < length ps. prod_rep P (ps ! i) (xss ! i) (Ls ! i) \<and> Ls ! i \<inter> F = {})
     \<and> (\<forall>i < length ps. \<forall>j < length ps. i \<noteq> j \<longrightarrow> Ls ! i \<inter> Ls ! j = {})
     \<and> \<Union> (set Ls) \<union> F = {..<length (cblocks P)}"

definition owners_ok :: "(u64 \<rightharpoonup> nat) \<Rightarrow> nat \<Rightarrow> bool" where
  "owners_ok M n \<longleftrightarrow> ran M = {..<n} \<and> inj_on M (dom M)"

definition cq_rep :: "'a cqueue \<Rightarrow> (u64 \<rightharpoonup> nat) \<Rightarrow> 'a list list \<Rightarrow> nat set list \<Rightarrow> nat set \<Rightarrow> bool" where
  "cq_rep q M xss Ls F \<longleftrightarrow> nodes_ok (producers q) (producerListTail q)
     \<and> lanes_rep (map node_prod (producers q)) (blockPool q) xss Ls F
     \<and> hash_rep (producerHash q) M \<and> owners_ok M (length (producers q))"

lemma prod_rep_blocks: "prod_rep P p xs L \<Longrightarrow> L \<subseteq> {..<length (cblocks P)}"
  unfolding prod_rep_def by (auto elim!: prod_coreE)

lemma lanes_repE:
  assumes "lanes_rep ps P xss Ls F"
  obtains "length xss = length ps" "length Ls = length ps" "pool_rep P F"
    "\<And>i. i < length ps \<Longrightarrow> prod_rep P (ps ! i) (xss ! i) (Ls ! i)" "\<And>i. i < length ps \<Longrightarrow> Ls ! i \<inter> F = {}"
    "\<And>i j. i < length ps \<Longrightarrow> j < length ps \<Longrightarrow> i \<noteq> j \<Longrightarrow> Ls ! i \<inter> Ls ! j = {}"
    "\<Union> (set Ls) \<union> F = {..<length (cblocks P)}"
  using assms unfolding lanes_rep_def by blast

lemma set_upd_union: "k < length Ls \<Longrightarrow> \<Union> (set (Ls[k := L])) \<union> Ls ! k = \<Union> (set Ls) \<union> L"
proof -
  assume k: "k < length Ls"
  have "set Ls = insert (Ls ! k) (set (take k Ls) \<union> set (drop (Suc k) Ls))"
    using k by (subst id_take_nth_drop [OF k]) auto
  moreover have "set (Ls[k := L]) = insert L (set (take k Ls) \<union> set (drop (Suc k) Ls))"
    using k by (simp add: upd_conv_take_nth_drop)
  ultimately show ?thesis by auto
qed

lemma cover_step:
  fixes m m' :: nat
  assumes "A \<union> X = B \<union> Y" "B \<union> F = {..<m}" "Y \<union> F' = X \<union> F \<union> {m..<m'}" "m \<le> m'" "Y \<subseteq> A" "X \<subseteq> B"
  shows "A \<union> F' = {..<m'}"
proof -
  have "A \<union> F' = (A \<union> X) \<union> F \<union> {m..<m'}" using assms(3,5) by blast
  also have "\<dots> = {..<m} \<union> {m..<m'} \<union> Y" unfolding assms(1) using assms(2) by blast
  also have "\<dots> = {..<m} \<union> {m..<m'}" using assms(2,3,6) by blast
  also have "\<dots> = {..<m'}" using assms(4) by (rule ivl_disj_un)
  finally show ?thesis .
qed

text \<open>
  An operation on one producer that keeps to its own blocks and the free ones keeps the whole family.
\<close>

lemma lanes_rep_step:
  assumes rep: "lanes_rep ps P xss Ls F" and k: "k < length ps"
    and step: "prod_rep P' p' ys L'" "pool_rep P' F'" "L' \<inter> F' = {}" "pool_frame (Ls ! k \<union> F) P P'"
      "L' \<union> F' = Ls ! k \<union> F \<union> {length (cblocks P)..<length (cblocks P')}"
  shows "lanes_rep (ps[k := p']) P' (xss[k := ys]) (Ls[k := L']) F'"
proof (rule lanes_repE [OF rep])
  assume a: "length xss = length ps" "length Ls = length ps" "pool_rep P F"
    "\<And>i. i < length ps \<Longrightarrow> prod_rep P (ps ! i) (xss ! i) (Ls ! i)" "\<And>i. i < length ps \<Longrightarrow> Ls ! i \<inter> F = {}"
    "\<And>i j. i < length ps \<Longrightarrow> j < length ps \<Longrightarrow> i \<noteq> j \<Longrightarrow> Ls ! i \<inter> Ls ! j = {}"
    "\<Union> (set Ls) \<union> F = {..<length (cblocks P)}"
  have sep: "Ls ! i \<inter> (L' \<union> F') = {}" if "i < length ps" "i \<noteq> k" for i
  proof -
    have "Ls ! i \<inter> (Ls ! k \<union> F) = {}" using a(5) [OF that(1)] a(6) [OF that(1) k that(2)] by auto
    moreover have "Ls ! i \<inter> {length (cblocks P)..} = {}" using prod_rep_blocks [OF a(4) [OF that(1)]] by auto
    moreover have "L' \<union> F' \<subseteq> Ls ! k \<union> F \<union> {length (cblocks P)..}" using step(5) by auto
    ultimately show ?thesis by blast
  qed
  have "\<Union> (set (Ls[k := L'])) \<union> F' = {..<length (cblocks P')}"
  proof (rule cover_step [OF set_upd_union a(7) step(5)])
    show "length (cblocks P) \<le> length (cblocks P')" using step(4) by (simp add: pool_frame_def)
    show "L' \<subseteq> \<Union> (set (Ls[k := L']))" using k a(2) by (simp add: Sup_upper set_update_memI)
  qed (use k a(2) in \<open>simp_all add: Sup_upper\<close>)
  note cover = this
  have other: "prod_rep P' (ps ! i) (xss ! i) (Ls ! i)" if "i < length ps" "i \<noteq> k" for i
    using a(5) [OF that(1)] a(6) [OF that(1) k that(2)] by (intro prod_rep_frame [OF a(4) [OF that(1)] step(4)]) auto
  show ?thesis
    unfolding lanes_rep_def
  proof (intro conjI allI impI)
    fix i assume "i < length (ps[k := p'])"
    then show "prod_rep P' (ps[k := p'] ! i) (xss[k := ys] ! i) (Ls[k := L'] ! i)" "Ls[k := L'] ! i \<inter> F' = {}"
      using step(1,3) other sep a(1,2) by (cases "i = k"; auto)+
  next
    fix i j assume ij: "i < length (ps[k := p'])" "j < length (ps[k := p'])" "i \<noteq> j"
    then show "Ls[k := L'] ! i \<inter> Ls[k := L'] ! j = {}"
      using sep [of i] sep [of j] a(2,6) by (cases "i = k"; cases "j = k") auto
  qed (use a(1,2) step(2) cover in simp_all)
qed

lemma lanes_rep_new:
  assumes "lanes_rep ps P xss Ls F" "prod_rep P p [] {}"
  shows "lanes_rep (ps @ [p]) P (xss @ [[]]) (Ls @ [{}]) F"
  using assms unfolding lanes_rep_def by (auto simp: nth_append less_Suc_eq)

lemma nodes_ok_at:
  assumes "nodes_ok ps tail" "i < length ps"
  shows "next_prod (ps ! i) = (case i of 0 \<Rightarrow> None | Suc j \<Rightarrow> Some j)" "\<not> inactive (ps ! i)" "\<not> isExplicit (ps ! i)"
  using assms by (simp_all add: nodes_ok_def)

lemma nodes_ok_tail:
  "nodes_ok ps tail \<Longrightarrow> length ps = 0 \<and> tail = None \<or> (\<exists>n. length ps = Suc n \<and> tail = Some n)"
  by (simp add: nodes_ok_def split: nat.splits)

lemma nodes_ok_append:
  assumes "nodes_ok ps tail" "\<not> inactive node" "\<not> isExplicit node"
  shows "nodes_ok (ps @ [node\<lparr>next_prod := tail\<rparr>]) (Some (length ps))"
  using assms unfolding nodes_ok_def by (auto simp: nth_append less_Suc_eq split: nat.splits)

lemma nodes_ok_upd:
  "nodes_ok ps tail \<Longrightarrow> nodes_ok (ps[k := (ps ! k)\<lparr>node_prod := p\<rparr>]) tail"
  unfolding nodes_ok_def by (cases "k < length ps") (auto simp: nth_list_update)

lemma find_inactive_none:
  assumes ok: "nodes_ok ps tail"
  shows "i < fuel \<Longrightarrow> i < length ps \<Longrightarrow> find_inactive ps fuel (Some i) = Inr None"
proof (induction fuel arbitrary: i)
  case (Suc fuel)
  then show ?case using nodes_ok_at [OF ok Suc.prems(2)] by (cases i) auto
qed simp

lemma recycle_or_create_new:
  assumes ok: "nodes_ok (producers q) (producerListTail q)"
  shows "recycle_or_create_producer prod_ok index_ok q
    = bindE (create_implicit_producer prod_ok index_ok) (\<lambda>node. Inr (False, add_producer node q))"
proof -
  have "find_inactive (producers q) (length (producers q)) (producerListTail q) = Inr None"
    using nodes_ok_tail [OF ok] find_inactive_none [OF ok] by (elim disjE exE conjE) (simp_all del: find_inactive.simps(3))
  then show ?thesis by (simp add: recycle_or_create_producer_def)
qed

lemma owners_card:
  assumes "owners_ok M n"
  shows "card (dom M) = n"
proof -
  have "M ` dom M = Some ` ran M" by (force simp: ran_def)
  then have "card (dom M) = card (Some ` ran M)" using assms card_image [of M "dom M"] by (simp add: owners_ok_def)
  also have "\<dots> = card (ran M)" by (rule card_image) simp
  finally show ?thesis using assms by (simp add: owners_ok_def)
qed

lemma owners_new:
  assumes "owners_ok M n" "M tid = None"
  shows "owners_ok (M(tid \<mapsto> n)) (Suc n)"
proof -
  have "ran (M(tid \<mapsto> n)) = insert n (ran M)" using assms(2) by (rule ran_map_upd)
  moreover have "M x \<noteq> Some n" for x using assms(1) unfolding owners_ok_def by (metis lessThan_iff less_irrefl ranI)
  ultimately show ?thesis
    using assms unfolding owners_ok_def by (auto simp: inj_on_def domIff lessThan_Suc)
qed

lemma get_or_add_rep:
  assumes rep: "cq_rep q M xss Ls F" and tid: "tid \<noteq> invalid_thread_id" and ix: "prod_ok \<longrightarrow> pindex_ok"
  shows "\<exists>r q'. get_or_add_implicit_producer tid (hash_ok, prod_ok, pindex_ok) q = Inr (r, q') \<and>
    (case r of
       None \<Rightarrow> cq_rep q' M xss Ls F \<and> (\<not> hash_ok \<or> \<not> prod_ok \<or> 2 ^ 56 \<le> length (producers q))
     | Some k \<Rightarrow> k < length (producers q') \<and>
         (M tid = Some k \<and> cq_rep q' M xss Ls F
          \<or> M tid = None \<and> k = length (producers q) \<and> cq_rep q' (M(tid \<mapsto> k)) (xss @ [[]]) (Ls @ [{}]) F))"
proof -
  have a: "nodes_ok (producers q) (producerListTail q)" "lanes_rep (map node_prod (producers q)) (blockPool q) xss Ls F"
    "hash_rep (producerHash q) M" "owners_ok M (length (producers q))"
    using rep by (simp_all add: cq_rep_def)
  from find_rep [OF a(3) tid] obtain H1 where
    "find_implicit_producer tid (producerHash q) = Inr (map_option Some (M tid), H1) \<and> hash_rep H1 M
      \<and> (M tid = None \<longrightarrow> H1 = producerHash q)" ..
  then have H1: "find_implicit_producer tid (producerHash q) = Inr (map_option Some (M tid), H1)" "hash_rep H1 M"
    "M tid = None \<longrightarrow> H1 = producerHash q" by simp_all
  show ?thesis
  proof (cases "M tid")
    case (Some k)
    then have "k < length (producers q)" using a(4) unfolding owners_ok_def by (auto simp: ran_def)
    then show ?thesis
      using H1(1,2) Some a by (intro exI [of _ "Some k"] exI [of _ "q\<lparr>producerHash := H1\<rparr>"])
        (simp add: get_or_add_implicit_producer_def cq_rep_def)
  next
    case None
    then have H: "find_implicit_producer tid (producerHash q) = Inr (None, producerHash q)" using H1 by simp
    define newCount where "newCount = 1 + implicitProducerHashCount (producerHash q)"
    obtain b H2 where H2: "resize_hash hash_ok newCount ((producerHash q)\<lparr>implicitProducerHashCount := newCount\<rparr>) = Inr (b, H2)"
      "if b then hash_room H2 M else H2 = producerHash q" "hash_ok \<and> card (dom M) < 2 ^ 56 \<longrightarrow> b"
      using resize_rep [OF a(3), of hash_ok, folded newCount_def] by blast
    show ?thesis
    proof (cases b)
      case False
      then show ?thesis
        using H H2 rep owners_card [OF a(4)] by (intro exI [of _ None] exI [of _ q])
          (auto simp: get_or_add_implicit_producer_def newCount_def cq_rep_def)
    next
      case True
      then have room: "hash_room H2 M" using H2(2) by simp
      obtain h hs where h: "implicitProducerHash H2 = h # hs"
        "implicitProducerHashCount H2 < drop_bit 1 (ht_capacity h) + drop_bit 2 (ht_capacity h)"
        by (rule room_test [OF room]) (rule that)
      have "implicitProducerHashCount H2 = newCount"
        using room a(3) unfolding hash_room_def hash_rep_def newCount_def by simp
      then have lt: "newCount < drop_bit 1 (ht_capacity h) + drop_bit 2 (ht_capacity h)" using h(2) by simp
      define q2 where "q2 = q\<lparr>producerHash := H2\<rparr>"
      have roc: "recycle_or_create_producer prod_ok pindex_ok q2
        = bindE (create_implicit_producer prod_ok pindex_ok) (\<lambda>node. Inr (False, add_producer node q2))"
        using a(1) by (intro recycle_or_create_new) (simp add: q2_def)
      show ?thesis
      proof (cases prod_ok)
        case False
        define q3 where "q3 = q2\<lparr>producerHash := H2\<lparr>implicitProducerHashCount := implicitProducerHashCount H2 - 1\<rparr>\<rparr>"
        have "get_or_add_implicit_producer tid (hash_ok, prod_ok, pindex_ok) q = Inr (None, q3)"
          using H H2(1) True h(1) lt roc False
          by (simp add: get_or_add_implicit_producer_def newCount_def [symmetric] q2_def [symmetric] q3_def
              create_implicit_producer_def add_producer_def) (simp add: q2_def)
        moreover have "cq_rep q3 M xss Ls F" using a room_undo [OF room] by (simp add: cq_rep_def q3_def q2_def)
        ultimately show ?thesis using False by (intro exI [of _ None] exI [of _ q3]) simp
      next
        case prod: True
        obtain p where p: "ImplicitProducer_new True = Inr p" "prod_rep (blockPool q) p [] {}"
          using ImplicitProducer_new_rep by blast
        define k where "k = length (producers q)"
        obtain H3 where H3: "main_claim tid (Some k) H2 = Inr H3" "hash_rep H3 (M(tid \<mapsto> k))"
          using room_claim [OF room tid None] by blast
        define node where "node = \<lparr>node_prod = p, next_prod = None, inactive = False, isExplicit = False\<rparr>"
        define q3 where "q3 = q2\<lparr>producerCount := producerCount q2 + 1,
          producers := producers q2 @ [node\<lparr>next_prod := producerListTail q2\<rparr>], producerListTail := Some k, producerHash := H3\<rparr>"
        have "get_or_add_implicit_producer tid (hash_ok, prod_ok, pindex_ok) q = Inr (Some k, q3)"
          using H H2(1) True h(1) lt roc prod ix p(1) H3(1)
          by (simp add: get_or_add_implicit_producer_def newCount_def [symmetric] q2_def [symmetric] q3_def
              create_implicit_producer_def add_producer_def Let_def node_def) (simp add: q2_def k_def)
        moreover have "cq_rep q3 (M(tid \<mapsto> k)) (xss @ [[]]) (Ls @ [{}]) F"
          using nodes_ok_append [OF a(1), of node] lanes_rep_new [OF a(2) p(2)] H3(2) owners_new [OF a(4) None]
          by (simp add: cq_rep_def q3_def q2_def node_def k_def)
        ultimately show ?thesis
          using None by (intro exI [of _ "Some k"] exI [of _ q3]) (simp add: k_def q3_def q2_def)
      qed
    qed
  qed
qed

text \<open>The lane of a thread, read through the hash and the block index.\<close>

definition cq_lane :: "'a cqueue \<Rightarrow> u64 \<Rightarrow> 'a list" where
  "cq_lane q t =
     (if t = invalid_thread_id then []
      else case find_implicit_producer t (producerHash q) of
        Inr (Some (Some i), _) \<Rightarrow> producer_list (node_prod (producers q ! i)) (blockPool q)
      | _ \<Rightarrow> [])"

definition lanes_of :: "(u64 \<rightharpoonup> nat) \<Rightarrow> 'a list list \<Rightarrow> u64 \<Rightarrow> 'a list" where
  "lanes_of M xss t = (case M t of None \<Rightarrow> [] | Some i \<Rightarrow> xss ! i)"

lemma cq_repD:
  assumes "cq_rep q M xss Ls F"
  shows "nodes_ok (producers q) (producerListTail q)" "hash_rep (producerHash q) M" "owners_ok M (length (producers q))"
    "length xss = length (producers q)" "length Ls = length (producers q)" "pool_rep (blockPool q) F"
    "\<And>i. i < length (producers q) \<Longrightarrow> prod_rep (blockPool q) (node_prod (producers q ! i)) (xss ! i) (Ls ! i)"
    "\<And>i. i < length (producers q) \<Longrightarrow> Ls ! i \<inter> F = {}"
    "lanes_rep (map node_prod (producers q)) (blockPool q) xss Ls F"
  using assms by (auto simp: cq_rep_def lanes_rep_def)

lemma cq_lane_rep:
  assumes rep: "cq_rep q M xss Ls F"
  shows "cq_lane q = lanes_of M xss"
proof
  fix t
  note a = cq_repD [OF rep]
  show "cq_lane q t = lanes_of M xss t"
  proof (cases "t = invalid_thread_id")
    case True
    then have "M t = None" using a(2) by (auto simp: hash_rep_def)
    then show ?thesis using True by (simp add: cq_lane_def lanes_of_def)
  next
    case False
    from find_rep [OF a(2) False] obtain H' where
      f: "find_implicit_producer t (producerHash q) = Inr (map_option Some (M t), H')" by blast
    show ?thesis
    proof (cases "M t")
      case None
      then show ?thesis using f False by (simp add: cq_lane_def lanes_of_def)
    next
      case (Some i)
      then have "i < length (producers q)" using a(3) unfolding owners_ok_def by (metis lessThan_iff ranI)
      then show ?thesis using f False Some producer_list_rep(1) [OF a(7)] by (simp add: cq_lane_def lanes_of_def)
    qed
  qed
qed

lemma lanes_of_upd:
  assumes "owners_ok M (length xss)" "M tid = Some k"
  shows "lanes_of M (xss[k := ys]) = (lanes_of M xss)(tid := ys)"
proof
  fix t
  have k: "k < length xss" using assms unfolding owners_ok_def by (metis lessThan_iff ranI)
  show "lanes_of M (xss[k := ys]) t = ((lanes_of M xss)(tid := ys)) t"
  proof (cases "t = tid")
    case True
    then show ?thesis using assms(2) k by (simp add: lanes_of_def)
  next
    case False
    then have "M t \<noteq> Some k" using assms unfolding owners_ok_def inj_on_def by (metis domI)
    then show ?thesis using False by (auto simp: lanes_of_def nth_list_update split: option.splits)
  qed
qed

lemma lanes_of_new:
  assumes "owners_ok M (length xss)" "M tid = None"
  shows "lanes_of (M(tid \<mapsto> length xss)) (xss @ [[]]) = lanes_of M xss"
proof
  fix t
  have "i < length xss" if "M t = Some i" for i using assms(1) that unfolding owners_ok_def by (metis lessThan_iff ranI)
  then show "lanes_of (M(tid \<mapsto> length xss)) (xss @ [[]]) t = lanes_of M xss t"
    using assms(2) by (auto simp: lanes_of_def nth_append split: option.splits)
qed

text \<open>An operation on producer \<open>k\<close> that keeps to its own and the free blocks.\<close>

lemma set_producer_rep:
  assumes rep: "cq_rep q M xss Ls F" and k: "k < length (producers q)"
    and step: "prod_rep P' p' ys L'" "pool_rep P' F'" "L' \<inter> F' = {}" "pool_frame (Ls ! k \<union> F) (blockPool q) P'"
      "L' \<union> F' = Ls ! k \<union> F \<union> {length (cblocks (blockPool q))..<length (cblocks P')}"
  shows "cq_rep (set_producer k p' P' q) M (xss[k := ys]) (Ls[k := L']) F'"
proof -
  note a = cq_repD [OF rep]
  have "lanes_rep ((map node_prod (producers q))[k := p']) P' (xss[k := ys]) (Ls[k := L']) F'"
    using lanes_rep_step [OF a(9) _ step] k by simp
  moreover have "(map node_prod (producers q))[k := p'] = map node_prod ((producers q)[k := (producers q ! k)\<lparr>node_prod := p'\<rparr>])"
    by (simp add: map_update)
  ultimately show ?thesis using a(1-3) nodes_ok_upd [OF a(1)] by (simp add: cq_rep_def)
qed

lemma producer_enqueue_rep:
  assumes rep: "cq_rep q M xss Ls F" and k: "k < length (producers q)"
  shows "\<exists>b p P Ls' F'. implicit_enqueue (am, iok, bok) x (node_prod (producers q ! k)) (blockPool q) = Inr (b, p, P)
    \<and> cq_rep (set_producer k p P q) M (if b then xss[k := xss ! k @ [x]] else xss) Ls' F'
    \<and> (\<not> b \<longrightarrow> am = Cannot_alloc \<or> \<not> iok \<or> \<not> bok \<or> 2 ^ 63 \<le> length (xss ! k) + 32)"
proof -
  note a = cq_repD [OF rep]
  obtain b p P L' F' where e: "implicit_enqueue (am, iok, bok) x (node_prod (producers q ! k)) (blockPool q) = Inr (b, p, P)"
    "prod_rep P p (if b then xss ! k @ [x] else xss ! k) L'" "pool_rep P F'" "L' \<inter> F' = {}"
    "pool_frame (Ls ! k \<union> F) (blockPool q) P" "L' \<union> F' = Ls ! k \<union> F \<union> {length (cblocks (blockPool q))..<length (cblocks P)}"
    "\<not> b \<longrightarrow> am = Cannot_alloc \<or> \<not> iok \<or> \<not> bok \<or> 2 ^ 63 \<le> length (xss ! k) + 32"
    using implicit_enqueue_rep [OF a(7) [OF k] a(6) a(8) [OF k], of am iok bok x] by metis
  have "cq_rep (set_producer k p P q) M (xss[k := if b then xss ! k @ [x] else xss ! k]) (Ls[k := L']) F'"
    by (rule set_producer_rep [OF rep k e(2-6)])
  then have "cq_rep (set_producer k p P q) M (if b then xss[k := xss ! k @ [x]] else xss) (Ls[k := L']) F'" by (cases b) simp_all
  then show ?thesis using e(1,7) by blast
qed

lemma producer_dequeue_rep:
  assumes rep: "cq_rep q M xss Ls F" and k: "k < length (producers q)"
  shows "\<exists>q' Ls' F'. producer_dequeue k q = Inr (case xss ! k of [] \<Rightarrow> None | x # _ \<Rightarrow> Some x, q')
    \<and> cq_rep q' M (xss[k := tl (xss ! k)]) Ls' F' \<and> length (producers q') = length (producers q)
    \<and> producerListTail q' = producerListTail q"
proof -
  note a = cq_repD [OF rep]
  obtain p P L' F' where e: "implicit_dequeue (node_prod (producers q ! k)) (blockPool q)
      = Inr (case xss ! k of [] \<Rightarrow> None | x # _ \<Rightarrow> Some x, p, P)"
    "prod_rep P p (tl (xss ! k)) L'" "pool_rep P F'" "L' \<inter> F' = {}"
    "pool_frame (Ls ! k \<union> F) (blockPool q) P" "L' \<union> F' = Ls ! k \<union> F" "length (cblocks P) = length (cblocks (blockPool q))"
    using implicit_dequeue_rep [OF a(7) [OF k] a(6) a(8) [OF k]] by metis
  have "cq_rep (set_producer k p P q) M (xss[k := tl (xss ! k)]) (Ls[k := L']) F'"
    using e(6,7) by (intro set_producer_rep [OF rep k e(2-5)]) auto
  then show ?thesis using e(1) by (auto simp: producer_dequeue_def)
qed

definition env_valid :: "cq_env \<Rightarrow> bool" where
  "env_valid env = (case env of (tid, (hash_ok, prod_ok, pindex_ok), index_ok, block_ok) \<Rightarrow>
     tid \<noteq> invalid_thread_id \<and> (prod_ok \<longrightarrow> pindex_ok))"

definition env_thread :: "cq_env \<Rightarrow> u64" where
  "env_thread env = fst env"

definition env_all_ok :: "cq_env \<Rightarrow> bool" where
  "env_all_ok env = (case env of (tid, (hash_ok, prod_ok, pindex_ok), index_ok, block_ok) \<Rightarrow>
     hash_ok \<and> prod_ok \<and> index_ok \<and> block_ok)"

text \<open>The sub-queue of a thread, found or made.\<close>

lemma owner_rep:
  assumes rep: "cq_rep q M xss Ls F" and tid: "tid \<noteq> invalid_thread_id" and ix: "pok \<longrightarrow> xok"
  shows "\<exists>r q1. get_or_add_implicit_producer tid (hok, pok, xok) q = Inr (r, q1) \<and>
    (case r of
       None \<Rightarrow> cq_rep q1 M xss Ls F \<and> (\<not> hok \<or> \<not> pok \<or> 2 ^ 56 \<le> length (producers q))
     | Some k \<Rightarrow> k < length (producers q1) \<and>
         (\<exists>M1 xss1 Ls1. cq_rep q1 M1 xss1 Ls1 F \<and> M1 tid = Some k \<and> lanes_of M1 xss1 = lanes_of M xss \<and> xss1 ! k = lanes_of M xss tid))"
proof -
  note a = cq_repD [OF rep]
  from get_or_add_rep [OF rep tid ix, of hok]
  obtain r q1 where g: "get_or_add_implicit_producer tid (hok, pok, xok) q = Inr (r, q1)" "case r of
       None \<Rightarrow> cq_rep q1 M xss Ls F \<and> (\<not> hok \<or> \<not> pok \<or> 2 ^ 56 \<le> length (producers q))
     | Some k \<Rightarrow> k < length (producers q1) \<and>
         (M tid = Some k \<and> cq_rep q1 M xss Ls F
          \<or> M tid = None \<and> k = length (producers q) \<and> cq_rep q1 (M(tid \<mapsto> k)) (xss @ [[]]) (Ls @ [{}]) F)"
    by blast
  show ?thesis
  proof (cases r)
    case None
    then show ?thesis using g by (intro exI [of _ r] exI [of _ q1]) simp
  next
    case (Some k)
    have "\<exists>M1 xss1 Ls1. cq_rep q1 M1 xss1 Ls1 F \<and> M1 tid = Some k \<and> lanes_of M1 xss1 = lanes_of M xss"
    proof (cases "M tid")
      case None
      then have "cq_rep q1 (M(tid \<mapsto> k)) (xss @ [[]]) (Ls @ [{}]) F" "k = length xss" using g(2) Some a(4) by auto
      then show ?thesis using lanes_of_new [of M xss tid] a(3,4) None
        by (intro exI [of _ "M(tid \<mapsto> k)"] exI [of _ "xss @ [[]]"] exI [of _ "Ls @ [{}]"]) simp
    next
      case M: (Some j)
      then show ?thesis using g(2) Some by (intro exI [of _ M] exI [of _ xss] exI [of _ Ls]) simp
    qed
    then obtain M1 xss1 Ls1 where r1: "cq_rep q1 M1 xss1 Ls1 F" "M1 tid = Some k" "lanes_of M1 xss1 = lanes_of M xss" by blast
    moreover have "xss1 ! k = lanes_of M xss tid" unfolding r1(3) [symmetric] using r1(2) by (simp add: lanes_of_def)
    moreover have "k < length (producers q1)" using g(2) Some by simp
    ultimately show ?thesis using g(1) Some by auto
  qed
qed

lemma cq_enqueue_rep:
  assumes rep: "cq_rep q M xss Ls F" and v: "env_valid env"
  shows "\<exists>b q' M' xss' Ls' F'. cq_inner_enqueue am env x q = Inr (b, q') \<and> cq_rep q' M' xss' Ls' F'
    \<and> lanes_of M' xss' = (if b then (lanes_of M xss)(env_thread env := lanes_of M xss (env_thread env) @ [x]) else lanes_of M xss)
    \<and> (\<not> b \<longrightarrow> am = Cannot_alloc \<or> \<not> env_all_ok env \<or> 2 ^ 56 \<le> length (producers q)
         \<or> 2 ^ 63 \<le> length (lanes_of M xss (env_thread env)) + 32)"
proof -
  obtain tid hok pok xok iok bok where env: "env = (tid, (hok, pok, xok), iok, bok)" by (cases env) auto
  have tid: "tid \<noteq> invalid_thread_id" "pok \<longrightarrow> xok" using v by (simp_all add: env env_valid_def)
  from owner_rep [OF rep tid, of hok]
  obtain r q1 where g: "get_or_add_implicit_producer tid (hok, pok, xok) q = Inr (r, q1)" "case r of
       None \<Rightarrow> cq_rep q1 M xss Ls F \<and> (\<not> hok \<or> \<not> pok \<or> 2 ^ 56 \<le> length (producers q))
     | Some k \<Rightarrow> k < length (producers q1) \<and>
         (\<exists>M1 xss1 Ls1. cq_rep q1 M1 xss1 Ls1 F \<and> M1 tid = Some k \<and> lanes_of M1 xss1 = lanes_of M xss \<and> xss1 ! k = lanes_of M xss tid)"
    by (elim exE conjE) (rule that; assumption)
  show ?thesis
  proof (cases r)
    case None
    then have "cq_inner_enqueue am env x q = Inr (False, q1)" using g(1) by (simp add: cq_inner_enqueue_def env)
    then show ?thesis using g(2) None
      by (intro exI [of _ False] exI [of _ q1] exI [of _ M] exI [of _ xss] exI [of _ Ls] exI [of _ F]) (auto simp: env env_all_ok_def)
  next
    case (Some k)
    then have k: "k < length (producers q1)" using g(2) by simp
    obtain M1 xss1 Ls1 where r1: "cq_rep q1 M1 xss1 Ls1 F" "M1 tid = Some k" "lanes_of M1 xss1 = lanes_of M xss" "xss1 ! k = lanes_of M xss tid"
      using g(2) Some by auto
    note a1 = cq_repD [OF r1(1)]
    obtain b p P Ls' F' where e: "implicit_enqueue (am, iok, bok) x (node_prod (producers q1 ! k)) (blockPool q1) = Inr (b, p, P)"
      "cq_rep (set_producer k p P q1) M1 (if b then xss1[k := xss1 ! k @ [x]] else xss1) Ls' F'"
      "\<not> b \<longrightarrow> am = Cannot_alloc \<or> \<not> iok \<or> \<not> bok \<or> 2 ^ 63 \<le> length (xss1 ! k) + 32"
      using producer_enqueue_rep [OF r1(1) k, of am iok bok x] by blast
    have "lanes_of M1 (if b then xss1[k := xss1 ! k @ [x]] else xss1)
        = (if b then (lanes_of M xss)(tid := lanes_of M xss tid @ [x]) else lanes_of M xss)"
      using lanes_of_upd [of M1 xss1 tid k] r1(2) a1(3,4) r1(3,4) by simp
    moreover have "cq_inner_enqueue am env x q = Inr (b, set_producer k p P q1)"
      using g(1) Some e(1) by (simp add: cq_inner_enqueue_def env)
    ultimately show ?thesis using e(2,3) r1(4) by (force simp: env env_thread_def env_all_ok_def)
  qed
qed

lemma size_positive:
  assumes "cq_rep q M xss Ls F" "i < length (producers q)"
  shows "producer_size_approx (node_prod (producers q ! i)) > 0 \<longleftrightarrow> xss ! i \<noteq> []"
proof -
  note p = producer_list_rep [OF cq_repD(7) [OF assms]]
  have "unat (of_nat (length (xss ! i)) :: u64) = length (xss ! i)" using p(3) by (simp add: unat_of_nat)
  then show ?thesis unfolding p(2) by (simp add: word_less_nat_alt)
qed

lemma choose_producer_mono: "choose_producer ps fuel ptr cnt best bs = Inr (cnt', best') \<Longrightarrow> cnt \<le> cnt'"
  by (induction ps fuel ptr cnt best bs rule: choose_producer.induct) (auto simp: Let_def split: if_splits)

lemma choose_producer_rep:
  assumes rep: "cq_rep q M xss Ls F"
  shows "i < fuel \<Longrightarrow> i < length (producers q) \<Longrightarrow>
    (cnt = 0 \<and> bs = 0) \<or> (cnt > 0 \<and> (\<exists>b < length (producers q). best = Some b \<and> xss ! b \<noteq> [])) \<Longrightarrow>
    \<exists>cnt' best'. choose_producer (producers q) fuel (Some i) cnt best bs = Inr (cnt', best')
      \<and> (cnt' = 0 \<longrightarrow> (\<forall>j \<le> i. xss ! j = []))
      \<and> (cnt' > 0 \<longrightarrow> (\<exists>b < length (producers q). best' = Some b \<and> xss ! b \<noteq> []))"
proof (induction fuel arbitrary: i cnt best bs)
  case (Suc fuel)
  note nx = nodes_ok_at(1) [OF cq_repD(1) [OF rep] Suc.prems(2)]
  let ?sz = "producer_size_approx (node_prod (producers q ! i))"
  note sz = size_positive [OF rep Suc.prems(2)]
  show ?case
  proof (cases "cnt < 3")
    case False
    then show ?thesis using Suc.prems(3) by simp
  next
    case True
    define cnt1 best1 bs1 where "cnt1 = (if ?sz > 0 then cnt + 1 else cnt)"
      and "best1 = (if ?sz > 0 \<and> ?sz > bs then Some i else best)" and "bs1 = (if ?sz > 0 \<and> ?sz > bs then ?sz else bs)"
    have step: "choose_producer (producers q) (Suc fuel) (Some i) cnt best bs
        = choose_producer (producers q) fuel (next_prod (producers q ! i)) cnt1 best1 bs1"
      using True by (simp add: Let_def cnt1_def best1_def bs1_def)
    have ok: "(cnt1 = 0 \<and> bs1 = 0) \<or> (cnt1 > 0 \<and> (\<exists>b < length (producers q). best1 = Some b \<and> xss ! b \<noteq> []))"
      using Suc.prems(2,3) sz by (auto simp: cnt1_def best1_def bs1_def)
    have z: "cnt1 = 0 \<Longrightarrow> xss ! i = []" using sz by (auto simp: cnt1_def split: if_splits)
    show ?thesis
    proof (cases i)
      case 0
      then show ?thesis unfolding step nx using ok z by auto
    next
      case (Suc j)
      obtain cnt' best' where r: "choose_producer (producers q) fuel (Some j) cnt1 best1 bs1 = Inr (cnt', best')"
        "cnt' = 0 \<longrightarrow> (\<forall>j' \<le> j. xss ! j' = [])" "cnt' > 0 \<longrightarrow> (\<exists>b < length (producers q). best' = Some b \<and> xss ! b \<noteq> [])"
        using Suc.IH [OF _ _ ok, of j] Suc Suc.prems(1,2) by auto
      have mono: "cnt' = 0 \<Longrightarrow> cnt1 = 0" using choose_producer_mono [OF r(1)] by simp
      show ?thesis unfolding step nx using r z mono Suc by (auto simp: le_Suc_eq)
    qed
  qed
qed simp

text \<open>What a dequeue may do to the family of lists.\<close>

definition takes_one :: "(cq_error + 'a option \<times> 'a cqueue) \<Rightarrow> (u64 \<rightharpoonup> nat) \<Rightarrow> 'a list list \<Rightarrow> bool" where
  "takes_one res M xss \<longleftrightarrow> (\<exists>r q' Ls' F' k xs. res = Inr (r, q') \<and>
     (case r of
        None \<Rightarrow> (\<forall>i < length xss. xss ! i = []) \<and> cq_rep q' M xss Ls' F'
      | Some x \<Rightarrow> k < length xss \<and> xss ! k = x # xs \<and> cq_rep q' M (xss[k := xs]) Ls' F'))"

lemma takes_one_None: "cq_rep q' M xss Ls' F' \<Longrightarrow> (\<And>i. i < length xss \<Longrightarrow> xss ! i = []) \<Longrightarrow> takes_one (Inr (None, q')) M xss"
  unfolding takes_one_def by auto

lemma takes_one_Some:
  "k < length xss \<Longrightarrow> xss ! k = x # xs \<Longrightarrow> cq_rep q' M (xss[k := xs]) Ls' F' \<Longrightarrow> takes_one (Inr (Some x, q')) M xss"
  unfolding takes_one_def by (intro exI [of _ "Some x"] exI [of _ q'] exI [of _ Ls'] exI [of _ F'] exI [of _ k] exI [of _ xs]) simp

lemma dequeue_any_rep:
  assumes "cq_rep q M xss Ls F" "i < fuel" "i < length (producers q)" "\<And>j. i < j \<Longrightarrow> j < length xss \<Longrightarrow> xss ! j = []"
  shows "takes_one (dequeue_any fuel None (Some i) q) M xss"
  using assms
proof (induction fuel arbitrary: i q Ls F)
  case (Suc fuel)
  note a = cq_repD [OF Suc.prems(1)]
  obtain q1 Ls1 F1 where d: "producer_dequeue i q = Inr (case xss ! i of [] \<Rightarrow> None | x # _ \<Rightarrow> Some x, q1)"
    "cq_rep q1 M (xss[i := tl (xss ! i)]) Ls1 F1" "length (producers q1) = length (producers q)"
    using producer_dequeue_rep [OF Suc.prems(1,3)] by blast
  show ?case
  proof (cases "xss ! i")
    case (Cons x xs)
    then have "dequeue_any (Suc fuel) None (Some i) q = Inr (Some x, q1)" using d(1) by simp
    then show ?thesis using d(2) Cons Suc.prems(3) a(4) by (simp add: takes_one_Some [where k = i and xs = xs])
  next
    case Nil
    then have upd: "xss[i := tl (xss ! i)] = xss" by (metis list.sel(2) list_update_id)
    note rep1 = d(2) [unfolded upd]
    have nx: "next_prod (producers q1 ! i) = (case i of 0 \<Rightarrow> None | Suc j \<Rightarrow> Some j)"
      using nodes_ok_at(1) [OF cq_repD(1) [OF rep1]] d(3) Suc.prems(3) by simp
    have step: "dequeue_any (Suc fuel) None (Some i) q = dequeue_any fuel None (next_prod (producers q1 ! i)) q1"
      using d(1) Nil by simp
    show ?thesis
    proof (cases i)
      case 0
      then have "xss ! j = []" if "j < length xss" for j using Suc.prems(4) [of j] Nil that by (cases j) auto
      then show ?thesis unfolding step nx using 0 takes_one_None [OF rep1] by simp
    next
      case (Suc j)
      have "xss ! l = []" if "j < l" "l < length xss" for l
        using Suc.prems(4) [of l] Nil that Suc by (cases "l = i") auto
      then show ?thesis unfolding step nx using Suc Suc.IH [OF rep1, of j] Suc.prems(2,3) d(3) by simp
    qed
  qed
qed simp

lemma try_dequeue_non_interleaved_rep:
  assumes rep: "cq_rep q M xss Ls F"
  shows "takes_one (cq_try_dequeue_non_interleaved q) M xss"
proof -
  note a = cq_repD [OF rep]
  from nodes_ok_tail [OF a(1)] show ?thesis
  proof (elim disjE exE conjE)
    assume "length (producers q) = 0" "producerListTail q = None"
    then show ?thesis using takes_one_None [OF rep] a(4) by (simp add: cq_try_dequeue_non_interleaved_def)
  next
    fix n assume n: "length (producers q) = Suc n" "producerListTail q = Some n"
    then show ?thesis unfolding cq_try_dequeue_non_interleaved_def n(2) using a(4) by (intro dequeue_any_rep [OF rep]) auto
  qed
qed

lemma cq_try_dequeue_rep:
  assumes rep: "cq_rep q M xss Ls F"
  shows "takes_one (cq_try_dequeue q) M xss"
proof -
  note a = cq_repD [OF rep]
  from nodes_ok_tail [OF a(1)] show ?thesis
  proof (elim disjE exE conjE)
    assume "length (producers q) = 0" "producerListTail q = None"
    then show ?thesis using takes_one_None [OF rep] a(4) by (simp add: cq_try_dequeue_def)
  next
    fix n assume n: "length (producers q) = Suc n" "producerListTail q = Some n"
    obtain cnt best where c: "choose_producer (producers q) (Suc n) (Some n) 0 None 0 = Inr (cnt, best)"
      "cnt = 0 \<longrightarrow> (\<forall>j \<le> n. xss ! j = [])" "cnt > 0 \<longrightarrow> (\<exists>b < length (producers q). best = Some b \<and> xss ! b \<noteq> [])"
      using choose_producer_rep [OF rep, of n "Suc n" 0 0 None] n(1) by auto
    show ?thesis
    proof (cases "cnt = 0")
      case True
      then have "cq_try_dequeue q = Inr (None, q)" using c(1) n by (simp add: cq_try_dequeue_def del: choose_producer.simps)
      then show ?thesis using takes_one_None [OF rep] c(2) True a(4) n(1) by simp
    next
      case False
      then obtain b where b: "b < length (producers q)" "best = Some b" "xss ! b \<noteq> []" using c(3) by auto
      obtain q1 Ls1 F1 where d: "producer_dequeue b q = Inr (case xss ! b of [] \<Rightarrow> None | x # _ \<Rightarrow> Some x, q1)"
        "cq_rep q1 M (xss[b := tl (xss ! b)]) Ls1 F1"
        using producer_dequeue_rep [OF rep b(1)] by blast
      obtain x xs where x: "xss ! b = x # xs" using b(3) by (cases "xss ! b") auto
      have "cq_try_dequeue q = Inr (Some x, q1)"
        using c(1) n False b(2) d(1) x by (simp add: cq_try_dequeue_def del: choose_producer.simps)
      then show ?thesis using takes_one_Some [of b xss x xs] d(2) x b(1) a(4) by simp
    qed
  qed
qed

lemma sum_sizes_rep:
  assumes rep: "cq_rep q M xss Ls F"
  shows "i < fuel \<Longrightarrow> i < length (producers q) \<Longrightarrow>
    sum_sizes (producers q) fuel (Some i) acc = Inr (acc + of_nat (\<Sum>j \<le> i. length (xss ! j)))"
proof (induction fuel arbitrary: i acc)
  case (Suc fuel)
  note nx = nodes_ok_at(1) [OF cq_repD(1) [OF rep] Suc.prems(2)]
  note sz = producer_list_rep(2) [OF cq_repD(7) [OF rep Suc.prems(2)]]
  show ?case
  proof (cases i)
    case 0
    then show ?thesis using nx sz by simp
  next
    case i: (Suc j)
    then show ?thesis using nx sz Suc.IH [of j] Suc.prems by (simp add: algebra_simps)
  qed
qed simp

lemma cq_size_approx_rep:
  assumes rep: "cq_rep q M xss Ls F"
  shows "cq_size_approx q = Inr (of_nat (sum_list (map length xss)))"
proof -
  note a = cq_repD [OF rep]
  from nodes_ok_tail [OF a(1)] show ?thesis
  proof (elim disjE exE conjE)
    assume "length (producers q) = 0" "producerListTail q = None"
    then show ?thesis using a(4) by (simp add: cq_size_approx_def)
  next
    fix n assume n: "length (producers q) = Suc n" "producerListTail q = Some n"
    have "sum_list (map length xss) = (\<Sum>j \<le> n. length (xss ! j))"
      using a(4) n(1) by (simp add: sum_list_sum_nth atLeast0LessThan lessThan_Suc_atMost)
    then show ?thesis unfolding cq_size_approx_def n using sum_sizes_rep [OF rep, of n "Suc n" 0] n(1) by simp
  qed
qed

subsection \<open>The contract\<close>

definition cq_inv :: "'a cqueue \<Rightarrow> bool" where
  "cq_inv q \<longleftrightarrow> (\<exists>M xss Ls F. cq_rep q M xss Ls F)"

lemma takes_one_lanes:
  assumes rep: "cq_rep q M xss Ls F" and t: "takes_one res M xss"
  shows "\<exists>r q'. res = Inr (r, q') \<and> cq_inv q'
    \<and> (case r of None \<Rightarrow> (\<forall>t. cq_lane q t = []) \<and> cq_lane q' = cq_lane q
       | Some x \<Rightarrow> \<exists>t xs. cq_lane q t = x # xs \<and> cq_lane q' = (cq_lane q)(t := xs))"
proof -
  note a = cq_repD [OF rep]
  have lane: "cq_lane q = lanes_of M xss" by (rule cq_lane_rep [OF rep])
  obtain r q' Ls' F' k xs where r: "res = Inr (r, q')" "case r of
        None \<Rightarrow> (\<forall>i < length xss. xss ! i = []) \<and> cq_rep q' M xss Ls' F'
      | Some x \<Rightarrow> k < length xss \<and> xss ! k = x # xs \<and> cq_rep q' M (xss[k := xs]) Ls' F'"
    using t unfolding takes_one_def by blast
  show ?thesis
  proof (cases r)
    case None
    have own: "M t = Some i \<Longrightarrow> i < length xss" for t i using a(3,4) unfolding owners_ok_def by (metis lessThan_iff ranI)
    have "lanes_of M xss t = []" for t using r(2) None own by (auto simp: lanes_of_def split: option.splits)
    then show ?thesis using r None lane cq_lane_rep by (fastforce simp: cq_inv_def)
  next
    case (Some x)
    have k: "k < length xss" "xss ! k = x # xs" "cq_rep q' M (xss[k := xs]) Ls' F'" using r(2) Some by simp_all
    have "k \<in> ran M" using a(3,4) k(1) unfolding owners_ok_def by simp
    then obtain t where t: "M t = Some k" by (auto simp: ran_def)
    have "cq_lane q' = (cq_lane q)(t := xs)"
      unfolding lane cq_lane_rep [OF k(3)] using a(3,4) t by (intro lanes_of_upd) simp_all
    moreover have "cq_lane q t = x # xs" unfolding lane using t k(2) by (simp add: lanes_of_def)
    ultimately show ?thesis using r(1) Some k(3) by (auto simp: cq_inv_def)
  qed
qed

lemma cq_enqueue_lanes:
  assumes "cq_inv q" "env_valid env"
  shows "\<exists>b q'. cq_inner_enqueue am env x q = Inr (b, q') \<and> cq_inv q'
    \<and> cq_lane q' = (if b then (cq_lane q)(env_thread env := cq_lane q (env_thread env) @ [x]) else cq_lane q)"
proof -
  obtain M xss Ls F where rep: "cq_rep q M xss Ls F" using assms(1) unfolding cq_inv_def by blast
  obtain b q' M' xss' Ls' F' where e: "cq_inner_enqueue am env x q = Inr (b, q')" "cq_rep q' M' xss' Ls' F'"
    "lanes_of M' xss' = (if b then (lanes_of M xss)(env_thread env := lanes_of M xss (env_thread env) @ [x]) else lanes_of M xss)"
    using cq_enqueue_rep [OF rep assms(2), of am x] by blast
  then show ?thesis using cq_lane_rep [OF rep] cq_lane_rep [OF e(2)] by (auto simp: cq_inv_def)
qed

lemma cq_dequeue_lanes:
  assumes "cq_inv q" "res = cq_try_dequeue q \<or> res = cq_try_dequeue_non_interleaved q"
  shows "\<exists>r q'. res = Inr (r, q') \<and> cq_inv q'
    \<and> (case r of None \<Rightarrow> (\<forall>t. cq_lane q t = []) \<and> cq_lane q' = cq_lane q
       | Some x \<Rightarrow> \<exists>t xs. cq_lane q t = x # xs \<and> cq_lane q' = (cq_lane q)(t := xs))"
proof -
  obtain M xss Ls F where rep: "cq_rep q M xss Ls F" using assms(1) unfolding cq_inv_def by blast
  have "takes_one res M xss" using assms(2) cq_try_dequeue_rep [OF rep] try_dequeue_non_interleaved_rep [OF rep] by auto
  then show ?thesis by (rule takes_one_lanes [OF rep])
qed

interpretation cq: lanes cq_inv "\<lambda>m. env_valid (snd m)" "\<lambda>m. env_thread (snd m)" cq_lane
  "\<lambda>m. cq_inner_enqueue (fst m) (snd m)" cq_try_dequeue
  by unfold_locales (erule (1) cq_enqueue_lanes, erule cq_dequeue_lanes, rule disjI1, rule refl)

interpretation cq_fixed: lanes cq_inv "\<lambda>m. env_valid (snd m)" "\<lambda>m. env_thread (snd m)" cq_lane
  "\<lambda>m. cq_inner_enqueue (fst m) (snd m)" cq_try_dequeue_non_interleaved
  by unfold_locales (erule (1) cq_enqueue_lanes, erule cq_dequeue_lanes, rule disjI2, rule refl)

lemma cqueue_new_rep:
  "cq_rep (cqueue_of_blocks ok blocks :: 'a cqueue) Map.empty [] [] {..<length (cblocks (blockPool (cqueue_of_blocks ok blocks :: 'a cqueue)))}"
  using populate_blocks [of ok blocks, where 'a = 'a] initial_hash_rep
  by (simp add: cq_rep_def cqueue_of_blocks_def nodes_ok_def lanes_rep_def owners_ok_def)

lemma cqueue_new_inv: "cq_inv (cqueue_of_blocks ok blocks :: 'a cqueue)"
  using cqueue_new_rep unfolding cq_inv_def by blast

lemma cqueue_new_lane: "cq_lane (cqueue_of_blocks ok blocks :: 'a cqueue) t = []"
  unfolding cq_lane_rep [OF cqueue_new_rep] by (simp add: lanes_of_def)

subsection \<open>Counting\<close>

lemma sum_picked:
  fixes tags :: "'t :: finite list"
  shows "length tags = length xs \<Longrightarrow> (\<Sum>t \<in> UNIV. length (picked t tags xs)) = length xs"
proof (induction tags xs rule: list_induct2)
  case (Cons u tags x xs)
  have "length (picked t (u # tags) (x # xs)) = (if t = u then 1 else 0) + length (picked t tags xs)" for t by simp
  then show ?case using Cons by (simp add: sum.distrib del: picked_simps)
qed simp

lemma sum_accepted_by:
  fixes th :: "'m \<Rightarrow> 't :: finite"
  shows "run_ops enq deq ops q = Inr (evs, q') \<Longrightarrow> (\<Sum>t \<in> UNIV. length (accepted_by th t ops evs)) = length (accepted evs)"
proof (induction ops arbitrary: q evs)
  case (Cons op ops)
  show ?case
  proof (cases op)
    case (Enq m x)
    then obtain b q1 evs1 where e: "enq m x q = Inr (b, q1)" "run_ops enq deq ops q1 = Inr (evs1, q')"
      "evs = (if b then Accepted x else Refused x) # evs1"
      using Cons.prems by (auto simp: bindE_eq_Inr)
    have "length (accepted_by th t (op # ops) evs) = (if b \<and> t = th m then 1 else 0) + length (accepted_by th t ops evs1)" for t
      using e(3) Enq by auto
    then show ?thesis using Cons.IH [OF e(2)] e(3) by (simp add: sum.distrib)
  next
    case Deq
    then obtain r q1 evs1 where e: "deq q = Inr (r, q1)" "run_ops enq deq ops q1 = Inr (evs1, q')"
      "evs = (case r of None \<Rightarrow> Empty | Some x \<Rightarrow> Got x) # evs1"
      using Cons.prems by (auto simp: bindE_eq_Inr)
    then show ?thesis using Cons.IH [OF e(2)] Deq by (cases r) simp_all
  qed
qed simp

lemma sum_lanes_of:
  assumes "owners_ok M (length xss)"
  shows "(\<Sum>t \<in> UNIV. length (lanes_of M xss t)) = sum_list (map length xss)"
proof -
  have "(\<Sum>t \<in> UNIV. length (lanes_of M xss t)) = (\<Sum>t \<in> dom M. length (lanes_of M xss t))"
    by (rule sum.mono_neutral_right) (auto simp: lanes_of_def split: option.splits)
  also have "\<dots> = (\<Sum>t \<in> dom M. length (xss ! the (M t)))" by (rule sum.cong) (auto simp: lanes_of_def)
  also have "\<dots> = (\<Sum>i < length xss. length (xss ! i))"
  proof (rule sum.reindex_bij_betw)
    have "inj_on (the \<circ> M) (dom M)" using assms unfolding owners_ok_def inj_on_def by (metis comp_apply domIff option.expand)
    moreover have "(the \<circ> M) ` dom M = ran M" by (force simp: ran_def)
    then have "(the \<circ> M) ` dom M = {..<length xss}" using assms by (simp add: owners_ok_def)
    ultimately show "bij_betw (\<lambda>t. the (M t)) (dom M) {..<length xss}" by (simp add: bij_betw_def comp_def)
  qed
  also have "\<dots> = sum_list (map length xss)" by (simp add: sum_list_sum_nth atLeast0LessThan)
  finally show ?thesis .
qed

lemma cq_run:
  assumes valid: "\<forall>m x. Enq m x \<in> set ops \<longrightarrow> env_valid (snd m)"
  shows "\<exists>evs q tags. run_ops (\<lambda>m. cq_inner_enqueue (fst m) (snd m)) cq_try_dequeue ops (cqueue_of_blocks ok blocks) = Inr (evs, q)
    \<and> cq_inv q \<and> length tags = length (got evs) \<and> length evs = length ops
    \<and> (\<forall>t. accepted_by (\<lambda>m. env_thread (snd m)) t ops evs = picked t tags (got evs) @ cq_lane q t)
    \<and> (\<Sum>t \<in> UNIV. length (cq_lane q t)) + length (got evs) = length (accepted evs)"
proof -
  from cq.run_ops_lanes [OF cqueue_new_inv valid, of ok blocks]
  obtain evs q tags where r: "run_ops (\<lambda>m. cq_inner_enqueue (fst m) (snd m)) cq_try_dequeue ops (cqueue_of_blocks ok blocks) = Inr (evs, q)"
    "cq_inv q" "length evs = length ops" "length tags = length (got evs)"
    "\<forall>t. cq_lane (cqueue_of_blocks ok blocks) t @ accepted_by (\<lambda>m. env_thread (snd m)) t ops evs = picked t tags (got evs) @ cq_lane q t"
    by (elim exE conjE) (rule that; assumption)
  note r5 = r(5) [unfolded cqueue_new_lane append_Nil, rule_format]
  have "length (accepted evs) = (\<Sum>t \<in> UNIV. length (picked t tags (got evs)) + length (cq_lane q t))"
    unfolding sum_accepted_by [OF r(1), where th = "\<lambda>m. env_thread (snd m)", symmetric] r5 by simp
  also have "\<dots> = length (got evs) + (\<Sum>t \<in> UNIV. length (cq_lane q t))"
    using sum_picked [OF r(4)] by (simp add: sum.distrib)
  finally have "(\<Sum>t \<in> UNIV. length (cq_lane q t)) + length (got evs) = length (accepted evs)" by simp
  then show ?thesis using r(1-4) r5 by (intro exI conjI allI)
qed

lemma cq_size_lanes:
  assumes "cq_inv q"
  shows "cq_size_approx q = Inr (of_nat (\<Sum>t \<in> UNIV. length (cq_lane q t)))"
proof -
  obtain M xss Ls F where rep: "cq_rep q M xss Ls F" using assms unfolding cq_inv_def by blast
  note a = cq_repD [OF rep]
  show ?thesis unfolding cq_size_approx_rep [OF rep] cq_lane_rep [OF rep] using sum_lanes_of [of M xss] a(3,4) by simp
qed

subsection \<open>A block index that cannot be allocated\<close>

text \<open>
  The block index of a new producer cannot be allocated: the constructor leaves a null pointer, and the enqueue that made the
  producer dereferences it. That happens only when the thread has no sub-queue yet; otherwise the allocation is not
  asked for.
\<close>

fun index_given :: "cq_env \<Rightarrow> cq_env" where
  "index_given (tid, (hash_ok, prod_ok, pindex_ok), mem) = (tid, (hash_ok, prod_ok, True), mem)"

lemma index_given_valid: "env_thread env \<noteq> invalid_thread_id \<Longrightarrow> env_valid (index_given env)"
  by (cases env rule: index_given.cases) (simp add: env_valid_def env_thread_def)

lemma env_thread_index_given [simp]: "env_thread (index_given env) = env_thread env"
  by (cases env rule: index_given.cases) (simp add: env_thread_def)

lemma ImplicitProducer_new_failure: "ImplicitProducer_new False = Inr ProducerBase_new"
  by (simp add: ImplicitProducer_new_def new_block_index_def Let_def)

lemma implicit_enqueue_no_index: "implicit_enqueue m x ProducerBase_new P = Inl Cq_null_pointer"
  by (cases m) (simp add: implicit_enqueue_def ProducerBase_new_def insert_block_index_entry_def slot_def is_full_def BLOCK_SIZE_def circular_less_than_def const_numeric_max_def Let_def)

lemma get_or_add_no_producer:
  "get_or_add_implicit_producer tid (hok, False, xok) (q :: 'a cqueue) = get_or_add_implicit_producer tid (hok, False, True) q"
proof -
  have "recycle_or_create_producer False xok = (recycle_or_create_producer False True :: 'a cqueue \<Rightarrow> _)"
    unfolding fun_eq_iff recycle_or_create_producer_def create_implicit_producer_def if_False by blast
  note eq = this
  show ?thesis unfolding get_or_add_implicit_producer_def Let_def prod.case eq by (rule refl)
qed

lemma get_or_add_index_failure:
  assumes rep: "cq_rep q M xss Ls F" and tid: "tid \<noteq> invalid_thread_id"
  shows "get_or_add_implicit_producer tid (hok, True, False) q = get_or_add_implicit_producer tid (hok, True, True) q
    \<or> (\<exists>k q3. get_or_add_implicit_producer tid (hok, True, False) q = Inr (Some k, q3) \<and> node_prod (producers q3 ! k) = ProducerBase_new)"
proof -
  have a: "nodes_ok (producers q) (producerListTail q)" "hash_rep (producerHash q) M" "owners_ok M (length (producers q))"
    using rep by (simp_all add: cq_rep_def)
  from find_rep [OF a(2) tid] obtain H1 where
    "find_implicit_producer tid (producerHash q) = Inr (map_option Some (M tid), H1) \<and> hash_rep H1 M
      \<and> (M tid = None \<longrightarrow> H1 = producerHash q)" ..
  then have H1: "find_implicit_producer tid (producerHash q) = Inr (map_option Some (M tid), H1)" "M tid = None \<longrightarrow> H1 = producerHash q"
    by simp_all
  show ?thesis
  proof (cases "M tid")
    case (Some k)
    then show ?thesis using H1(1) by (simp add: get_or_add_implicit_producer_def)
  next
    case None
    then have H: "find_implicit_producer tid (producerHash q) = Inr (None, producerHash q)" using H1 by simp
    define newCount where "newCount = 1 + implicitProducerHashCount (producerHash q)"
    obtain b H2 where H2: "resize_hash hok newCount ((producerHash q)\<lparr>implicitProducerHashCount := newCount\<rparr>) = Inr (b, H2)"
      "if b then hash_room H2 M else H2 = producerHash q"
      using resize_rep [OF a(2), of hok, folded newCount_def] by blast
    show ?thesis
    proof (cases b)
      case False
      then show ?thesis using H H2(1) by (simp add: get_or_add_implicit_producer_def newCount_def)
    next
      case True
      then have room: "hash_room H2 M" using H2(2) by simp
      obtain h hs where h: "implicitProducerHash H2 = h # hs"
        "implicitProducerHashCount H2 < drop_bit 1 (ht_capacity h) + drop_bit 2 (ht_capacity h)"
        by (rule room_test [OF room]) (rule that)
      have "implicitProducerHashCount H2 = newCount"
        using room a(2) unfolding hash_room_def hash_rep_def newCount_def by simp
      then have lt: "newCount < drop_bit 1 (ht_capacity h) + drop_bit 2 (ht_capacity h)" using h(2) by simp
      define q2 where "q2 = q\<lparr>producerHash := H2\<rparr>"
      have roc: "recycle_or_create_producer True False q2
        = bindE (create_implicit_producer True False) (\<lambda>node. Inr (False, add_producer node q2))"
        using a(1) by (intro recycle_or_create_new) (simp add: q2_def)
      define k where "k = length (producers q)"
      obtain H3 where H3: "main_claim tid (Some k) H2 = Inr H3" using room_claim [OF room tid None] by blast
      define node where "node = \<lparr>node_prod = ProducerBase_new, next_prod = None, inactive = False, isExplicit = False\<rparr>"
      define q3 where "q3 = q2\<lparr>producerCount := producerCount q2 + 1,
        producers := producers q2 @ [node\<lparr>next_prod := producerListTail q2\<rparr>], producerListTail := Some k, producerHash := H3\<rparr>"
      have "get_or_add_implicit_producer tid (hok, True, False) q = Inr (Some k, q3)"
        using H H2(1) True h(1) lt roc ImplicitProducer_new_failure H3
        by (simp add: get_or_add_implicit_producer_def newCount_def [symmetric] q2_def [symmetric] q3_def
            create_implicit_producer_def add_producer_def Let_def node_def) (simp add: q2_def k_def)
      moreover have "node_prod (producers q3 ! k) = ProducerBase_new" by (simp add: q3_def q2_def k_def node_def)
      ultimately show ?thesis by blast
    qed
  qed
qed

lemma cq_enqueue_index_failure:
  assumes "cq_inv q" "env_thread env \<noteq> invalid_thread_id"
  shows "cq_inner_enqueue am env x q = cq_inner_enqueue am (index_given env) x q
    \<or> \<not> env_valid env \<and> cq_inner_enqueue am env x q = Inl Cq_null_pointer"
proof -
  obtain M xss Ls F where rep: "cq_rep q M xss Ls F" using assms(1) unfolding cq_inv_def by blast
  obtain tid hok pok xok mem where env: "env = (tid, (hok, pok, xok), mem)" by (cases env rule: index_given.cases) auto
  have tid: "tid \<noteq> invalid_thread_id" using assms(2) by (simp add: env env_thread_def)
  show ?thesis
  proof (cases "pok \<and> \<not> xok")
    case True
    then have "\<not> env_valid env" by (simp add: env env_valid_def split: prod.split)
    moreover obtain iok bok where mem: "mem = (iok, bok)" by (cases mem)
    have p: "pok = True" "xok = False" using True by simp_all
    from get_or_add_index_failure [OF rep tid, of hok]
    have "cq_inner_enqueue am env x q = cq_inner_enqueue am (index_given env) x q \<or> cq_inner_enqueue am env x q = Inl Cq_null_pointer"
    proof (elim disjE exE conjE)
      fix k q3
      assume "get_or_add_implicit_producer tid (hok, True, False) q = Inr (Some k, q3)" "node_prod (producers q3 ! k) = ProducerBase_new"
      then show ?thesis using implicit_enqueue_no_index [of "(am, iok, bok)" x "blockPool q3"] by (simp add: env mem p cq_inner_enqueue_def)
    qed (simp add: env mem p cq_inner_enqueue_def)
    ultimately show ?thesis by blast
  next
    case False
    then show ?thesis using get_or_add_no_producer [of tid hok xok q] by (cases pok) (simp_all add: env cq_inner_enqueue_def)
  qed
qed

fun op_index_given :: "(alloc_mode \<times> cq_env, 'a) queue_op \<Rightarrow> (alloc_mode \<times> cq_env, 'a) queue_op" where
  "op_index_given (Enq (am, env) x) = Enq (am, index_given env) x"
| "op_index_given Deq = Deq"

lemma cq_run_index_failure:
  assumes "cq_inv q" "\<forall>m x. Enq m x \<in> set ops \<longrightarrow> env_thread (snd m) \<noteq> invalid_thread_id"
  shows "run_ops (\<lambda>m. cq_inner_enqueue (fst m) (snd m)) cq_try_dequeue ops q
      = run_ops (\<lambda>m. cq_inner_enqueue (fst m) (snd m)) cq_try_dequeue (map op_index_given ops) q
    \<or> run_ops (\<lambda>m. cq_inner_enqueue (fst m) (snd m)) cq_try_dequeue ops q = Inl Cq_null_pointer
      \<and> (\<exists>m x. Enq m x \<in> set ops \<and> \<not> env_valid (snd m))"
  using assms
proof (induction ops arbitrary: q)
  case (Cons op ops)
  have v: "\<forall>m x. Enq m x \<in> set ops \<longrightarrow> env_thread (snd m) \<noteq> invalid_thread_id"
    using Cons.prems(2) by (meson list.set_intros(2))
  show ?case
  proof (cases op)
    case (Enq m x)
    obtain am env where m: "m = (am, env)" by (cases m)
    have t: "env_thread env \<noteq> invalid_thread_id" using Cons.prems(2) [rule_format, of m x] Enq m by simp
    obtain b q1 where e: "cq_inner_enqueue am (index_given env) x q = Inr (b, q1)" "cq_inv q1"
      using cq_enqueue_lanes [OF Cons.prems(1) index_given_valid [OF t], of am x] by blast
    from cq_enqueue_index_failure [OF Cons.prems(1) t, of am x] show ?thesis
    proof (elim disjE conjE)
      assume c: "\<not> env_valid env" "cq_inner_enqueue am env x q = Inl Cq_null_pointer"
      have "\<exists>m x. Enq m x \<in> set (op # ops) \<and> \<not> env_valid (snd m)" using c(1) Enq m by (intro exI [of _ m] exI [of _ x]) simp
      then show ?thesis using c(2) Enq m by (intro disjI2 conjI) simp_all
    next
      assume same: "cq_inner_enqueue am env x q = cq_inner_enqueue am (index_given env) x q"
      from Cons.IH [OF e(2) v] show ?thesis
      proof (elim disjE conjE)
        assume c: "run_ops (\<lambda>m. cq_inner_enqueue (fst m) (snd m)) cq_try_dequeue ops q1 = Inl Cq_null_pointer"
          "\<exists>m x. Enq m x \<in> set ops \<and> \<not> env_valid (snd m)"
        have "\<exists>m x. Enq m x \<in> set (op # ops) \<and> \<not> env_valid (snd m)" using c(2) by (meson list.set_intros(2))
        then show ?thesis using c(1) same e(1) Enq m by (intro disjI2 conjI) simp_all
      qed (use same e(1) Enq m in simp)
    qed
  next
    case Deq
    obtain r q1 where "cq_try_dequeue q = Inr (r, q1)" "cq_inv q1" using cq.deq_lane [OF Cons.prems(1)] by blast
    then have d: "cq_try_dequeue q = Inr (r, q1)" "cq_inv q1" by simp_all
    from Cons.IH [OF d(2) v] show ?thesis
    proof (elim disjE conjE)
      assume c: "run_ops (\<lambda>m. cq_inner_enqueue (fst m) (snd m)) cq_try_dequeue ops q1 = Inl Cq_null_pointer"
        "\<exists>m x. Enq m x \<in> set ops \<and> \<not> env_valid (snd m)"
      have "\<exists>m x. Enq m x \<in> set (op # ops) \<and> \<not> env_valid (snd m)" using c(2) by (meson list.set_intros(2))
      then show ?thesis using c(1) d(1) Deq by (intro disjI2 conjI) simp_all
    qed (use d(1) Deq in simp)
  qed
qed simp

lemma accepted_by_index_given:
  "accepted_by (\<lambda>m. env_thread (snd m)) t (map op_index_given ops) evs = accepted_by (\<lambda>m. env_thread (snd m)) t ops evs"
proof (induction ops arbitrary: evs)
  case (Cons op ops)
  then show ?case
    by (cases evs; cases op rule: op_index_given.cases; cases "hd evs") auto
qed simp

lemma cq_run_lanes:
  assumes "\<forall>m x. Enq m x \<in> set ops \<longrightarrow> env_thread (snd m) \<noteq> invalid_thread_id"
  shows "(\<exists>evs q tags. run_ops (\<lambda>m. cq_inner_enqueue (fst m) (snd m)) cq_try_dequeue ops (cqueue_of_blocks ok blocks) = Inr (evs, q)
        \<and> cq_inv q \<and> length tags = length (got evs)
        \<and> (\<forall>t. accepted_by (\<lambda>m. env_thread (snd m)) t ops evs = picked t tags (got evs) @ cq_lane q t)
        \<and> (\<Sum>t \<in> UNIV. length (cq_lane q t)) + length (got evs) = length (accepted evs))
    \<or> run_ops (\<lambda>m. cq_inner_enqueue (fst m) (snd m)) cq_try_dequeue ops (cqueue_of_blocks ok blocks) = Inl Cq_null_pointer
      \<and> (\<exists>m x. Enq m x \<in> set ops \<and> \<not> env_valid (snd m))"
proof -
  have "\<forall>m x. Enq m x \<in> set (map op_index_given ops) \<longrightarrow> env_valid (snd m)"
  proof (intro allI impI)
    fix m x assume "Enq m x \<in> set (map op_index_given ops)"
    then obtain op where op: "op \<in> set ops" "op_index_given op = Enq m x" by (metis (no_types, lifting) imageE list.set_map)
    then obtain am env where e: "op = Enq (am, env) x" "m = (am, index_given env)"
      by (metis op_index_given.elims queue_op.inject queue_op.distinct(1))
    have "env_thread env \<noteq> invalid_thread_id" using assms [rule_format, of "(am, env)" x] op(1) e(1) by simp
    then show "env_valid (snd m)" using e(2) index_given_valid by simp
  qed
  from cq_run [OF this, of ok blocks] cq_run_index_failure [OF cqueue_new_inv assms, of ok blocks]
  show ?thesis unfolding accepted_by_index_given by (elim disjE exE conjE) (simp, blast+)
qed

subsection \<open>Properties\<close>

text \<open>
  C6: the concurrent queue is FIFO for every thread, loses nothing and invents nothing. From construction with any
  capacity, every sequence of dequeues and of enqueues by any threads (with a thread identifier that is not 0; allocating or not, with
  memory running out at any point) runs without a failed assertion, a read of a slot without an object or an endless loop. The
  elements dequeued can be assigned to threads so that, for every thread, what was accepted from it is
  what was dequeued from it, in order, followed by what is still in the queue. The one exception is a crash by a null pointer, and
  only when the sequence has an enqueue that gets the memory for a new producer but not for its block index.
\<close>

theorem concurrent_queue_lanes:
  assumes "\<forall>m x. Enq m x \<in> set ops \<longrightarrow> env_thread (snd m) \<noteq> invalid_thread_id"
  shows "(\<exists>evs q tags. run_ops (\<lambda>m. cq_inner_enqueue (fst m) (snd m)) cq_try_dequeue ops (ConcurrentQueue_new malloc_ok capac) = Inr (evs, q)
      \<and> length tags = length (got evs)
      \<and> (\<forall>t. accepted_by (\<lambda>m. env_thread (snd m)) t ops evs = picked t tags (got evs) @ cq_lane q t)
      \<and> cq_size_approx q = Inr (of_nat (length (accepted evs) - length (got evs))))
    \<or> run_ops (\<lambda>m. cq_inner_enqueue (fst m) (snd m)) cq_try_dequeue ops (ConcurrentQueue_new malloc_ok capac) = Inl Cq_null_pointer
      \<and> (\<exists>m x. Enq m x \<in> set ops \<and> \<not> env_valid (snd m))"
  using cq_run_lanes [OF assms, of malloc_ok "initial_block_count capac"] unfolding ConcurrentQueue_new_def
proof (rule disj_forward)
  let ?run = "run_ops (\<lambda>m. cq_inner_enqueue (fst m) (snd m)) cq_try_dequeue ops (cqueue_of_blocks malloc_ok (initial_block_count capac))"
  assume "\<exists>evs q tags. ?run = Inr (evs, q) \<and> cq_inv q \<and> length tags = length (got evs)
        \<and> (\<forall>t. accepted_by (\<lambda>m. env_thread (snd m)) t ops evs = picked t tags (got evs) @ cq_lane q t)
        \<and> (\<Sum>t \<in> UNIV. length (cq_lane q t)) + length (got evs) = length (accepted evs)"
  then obtain evs q tags where r: "?run = Inr (evs, q)" "cq_inv q" "length tags = length (got evs)"
    "\<forall>t. accepted_by (\<lambda>m. env_thread (snd m)) t ops evs = picked t tags (got evs) @ cq_lane q t"
    "(\<Sum>t \<in> UNIV. length (cq_lane q t)) + length (got evs) = length (accepted evs)"
    by (elim exE conjE) (rule that; assumption)
  have "length (accepted evs) - length (got evs) = (\<Sum>t \<in> UNIV. length (cq_lane q t))" using r(5) by linarith
  then have "cq_size_approx q = Inr (of_nat (length (accepted evs) - length (got evs)))" using cq_size_lanes [OF r(2)] by simp
  then show "\<exists>evs q tags. ?run = Inr (evs, q) \<and> length tags = length (got evs)
      \<and> (\<forall>t. accepted_by (\<lambda>m. env_thread (snd m)) t ops evs = picked t tags (got evs) @ cq_lane q t)
      \<and> cq_size_approx q = Inr (of_nat (length (accepted evs) - length (got evs)))"
    using r(1,3,4) by (intro exI conjI)
qed

theorem concurrent_queue_lanes_witness:
  "\<exists>evs q tags. run_ops (\<lambda>m. cq_inner_enqueue (fst m) (snd m)) cq_try_dequeue
      [Enq (Can_alloc, 64, (True, True, True), True, True) (1 :: nat), Enq (Cannot_alloc, 128, (True, True, True), True, False) 2, Deq]
      (ConcurrentQueue_new True 256) = Inr (evs, q)
    \<and> length (tags :: u64 list) = length (got evs)
    \<and> cq_size_approx q = Inr (of_nat (length (accepted evs) - length (got evs)))"
proof -
  let ?ops = "[Enq (Can_alloc, 64, (True, True, True), True, True) (1 :: nat),
      Enq (Cannot_alloc, 128, (True, True, True), True, False) 2, Deq]"
  have t: "\<forall>m x. Enq m x \<in> set ?ops \<longrightarrow> env_thread (snd m) \<noteq> invalid_thread_id"
    by (auto simp: env_thread_def invalid_thread_id_def)
  have n: "\<not> (\<exists>m x. Enq m x \<in> set ?ops \<and> \<not> env_valid (snd m))" by (auto simp: env_valid_def invalid_thread_id_def)
  show ?thesis
  proof (rule disjE [OF concurrent_queue_lanes [OF t, of True 256]], goal_cases)
    case 1
    then show ?case by (elim exE conjE) (intro exI conjI; assumption)
  next
    case 2
    then show ?case using n by blast
  qed
qed

text \<open>
  C25: the two ways to dequeue agree on when the queue is empty. In every state that enqueues and dequeues reach,
  \<open>try_dequeue\<close> (which picks the fullest of the first three sub-queues that hold something) and
  \<open>try_dequeue_non_interleaved\<close> (which tries them in turn) both end without error, and each finds an element
  exactly when something accepted has not been dequeued.
\<close>

theorem cq_dequeues_agree:
  assumes "\<forall>m x. Enq m x \<in> set ops \<longrightarrow> env_valid (snd m)"
    and "run_ops (\<lambda>m. cq_inner_enqueue (fst m) (snd m)) cq_try_dequeue ops (ConcurrentQueue_new malloc_ok capac) = Inr (evs, q)"
  shows "\<exists>r q1 r' q2. cq_try_dequeue q = Inr (r, q1) \<and> cq_try_dequeue_non_interleaved q = Inr (r', q2)
    \<and> (r = None \<longleftrightarrow> length (got evs) = length (accepted evs)) \<and> (r' = None \<longleftrightarrow> length (got evs) = length (accepted evs))"
proof -
  have q: "cq_inv q" "(\<Sum>t \<in> UNIV. length (cq_lane q t)) + length (got evs) = length (accepted evs)"
    using cq_run [OF assms(1), of malloc_ok "initial_block_count capac"] assms(2) unfolding ConcurrentQueue_new_def by auto
  have empty: "(\<forall>t. cq_lane q t = []) \<longleftrightarrow> length (got evs) = length (accepted evs)"
    using q(2) by auto
  have dec: "r = None \<longleftrightarrow> length (got evs) = length (accepted evs)"
    if res: "case r of None \<Rightarrow> (\<forall>t. cq_lane q t = []) \<and> cq_lane q' = cq_lane q
       | Some x \<Rightarrow> \<exists>t xs. cq_lane q t = x # xs \<and> cq_lane q' = (cq_lane q)(t := xs)" for r q'
  proof (cases r)
    case (Some x)
    then obtain t xs where "cq_lane q t = x # xs" using res by auto
    then have "\<not> (\<forall>t. cq_lane q t = [])" by (metis list.distinct(1))
    then show ?thesis using Some empty by simp
  qed (use res empty in simp)
  obtain r q1 where 1: "cq_try_dequeue q = Inr (r, q1)" "r = None \<longleftrightarrow> length (got evs) = length (accepted evs)"
    using cq.deq_lane [OF q(1)] dec by blast
  obtain r' q2 where 2: "cq_try_dequeue_non_interleaved q = Inr (r', q2)" "r' = None \<longleftrightarrow> length (got evs) = length (accepted evs)"
    using cq_fixed.deq_lane [OF q(1)] dec by blast
  show ?thesis using 1 2 by blast
qed

theorem cq_dequeues_agree_witness:
  "\<exists>r q1 r' q2. cq_try_dequeue (ConcurrentQueue_new True 64 :: nat cqueue) = Inr (r, q1)
    \<and> cq_try_dequeue_non_interleaved (ConcurrentQueue_new True 64 :: nat cqueue) = Inr (r', q2) \<and> r = None \<and> r' = None"
  using cq_dequeues_agree [of "[]" True 64 "[]" "ConcurrentQueue_new True 64 :: nat cqueue"] by auto

text \<open>
  C29: an allocating enqueue is accepted. In every such state, an enqueue that may allocate, by any thread, succeeds as long as
  memory is given, fewer than \<open>2 ^ 56\<close> threads have enqueued and fewer than \<open>2 ^ 63 - 32\<close> elements were accepted.
\<close>

theorem cq_enqueue_accepts:
  assumes "\<forall>m x. Enq m x \<in> set ops \<longrightarrow> env_valid (snd m)"
    and "run_ops (\<lambda>m. cq_inner_enqueue (fst m) (snd m)) cq_try_dequeue ops (ConcurrentQueue_new malloc_ok capac) = Inr (evs, q)"
    and "env_valid env" "env_all_ok env" "length (producers q) < 2 ^ 56" "length (accepted evs) < 2 ^ 63 - 32"
  shows "\<exists>q'. cq_enqueue env x q = Inr (True, q')"
proof -
  have q: "cq_inv q" "(\<Sum>t \<in> UNIV. length (cq_lane q t)) + length (got evs) = length (accepted evs)"
    using cq_run [OF assms(1), of malloc_ok "initial_block_count capac"] assms(2) unfolding ConcurrentQueue_new_def by auto
  then obtain M xss Ls F where rep: "cq_rep q M xss Ls F" unfolding cq_inv_def by blast
  have "length (cq_lane q (env_thread env)) \<le> (\<Sum>t \<in> UNIV. length (cq_lane q t))" by (rule member_le_sum) simp_all
  then have "length (lanes_of M xss (env_thread env)) < 2 ^ 63 - 32" using q(2) assms(6) cq_lane_rep [OF rep] by simp
  then show ?thesis
    using cq_enqueue_rep [OF rep assms(3), of Can_alloc x] assms(4,5)
    by (auto simp: cq_enqueue_def INITIAL_IMPLICIT_PRODUCER_HASH_SIZE_def)
qed

theorem cq_enqueue_accepts_witness:
  "\<exists>q'. cq_enqueue (4096, (True, True, True), True, True) (7 :: nat) (ConcurrentQueue_new False 0) = Inr (True, q')"
  using cq_enqueue_accepts [of "[]" False 0 "[]" "ConcurrentQueue_new False 0" "(4096, (True, True, True), True, True)" "7 :: nat"]
  by (simp add: env_valid_def env_all_ok_def invalid_thread_id_def ConcurrentQueue_new_def cqueue_of_blocks_def)

text \<open>
  The constructor allocates exactly the blocks that \<open>capacity\<close> elements need, for every 64-bit capacity; but the constructor
  that takes the numbers of producers multiplies its number of blocks by the block size: for one implicit
  producer and 32 elements it allocates 64 blocks, not 2.
\<close>

theorem initial_blocks_exact:
  "unat (initial_block_count capac) = (unat capac + 31) div 32 \<and> initial_block_count3 32 0 1 = 64"
proof -
  have m: "unat (BLOCK_SIZE - 1) + 1 = 2 ^ 5" by (simp add: BLOCK_SIZE_def)
  have z: "capac AND (BLOCK_SIZE - 1) = 0 \<longleftrightarrow> unat capac mod 32 = 0"
    using unat_and_pow2 [OF m, of capac] by (simp add: word_unat_eq_iff)
  define T where "T = unat capac"
  have T: "T < 2 ^ 64" unfolding T_def by (rule unat_less_2_64)
  have q: "unat (capac div BLOCK_SIZE) = T div 32" by (simp add: unat_div T_def)
  have "T div 32 < 2 ^ 59" using T by (simp add: less_mult_imp_div_less)
  then have c: "unat (initial_block_count capac) = T div 32 + (if T mod 32 = 0 then 0 else 1)"
    using q z by (simp add: initial_block_count_def unat_word_ariths T_def)
  obtain k r where "T = 32 * k + r" "r < 32" by (metis mod_less_divisor mult_div_mod_eq zero_less_numeral)
  then have "T div 32 + (if T mod 32 = 0 then 0 else 1) = (T + 31) div 32" by (cases "r = 0") simp_all
  then have "unat (initial_block_count capac) = (unat capac + 31) div 32" using c by (simp add: T_def)
  moreover have "initial_block_count3 32 0 1 = 64" by (simp add: initial_block_count3_def BLOCK_SIZE_def)
  ultimately show ?thesis ..
qed

end
