(* ===== verification/QueueBulk.thy ===== *)
theory QueueBulk
  imports ConcurrentQueue
begin

text \<open>
  \<open>source/utils/concurrentqueue.h\<close>: taking several elements at once, \<open>ImplicitProducer::dequeue_bulk\<close> and
  \<open>ConcurrentQueue::try_dequeue_bulk\<close>. The output iterator is the list of the elements written to it, in order.
\<close>

text \<open>
  The loop \<open>while (index != endIndex)\<close> over one block: every element is moved out and destroyed. It ends for every pair of
  words, after as many steps as their difference.
\<close>

function take_elements :: "u64 \<Rightarrow> u64 \<Rightarrow> 'a cblock \<Rightarrow> cq_error + 'a list \<times> 'a cblock" where
  "take_elements endIndex index b =
     (if index = endIndex then Inr ([], b)
      else case elements b ! slot index of
        None \<Rightarrow> Inl Cq_bad_slot
      | Some el \<Rightarrow>
          bindE (take_elements endIndex (index + 1) (b\<lparr>elements := (elements b)[slot index := None]\<rparr>))
            (\<lambda>(els, b). Inr (el # els, b)))"
  by pat_completeness auto

lemma unat_distance_step: "(i :: u64) \<noteq> e \<Longrightarrow> unat (e - (i + 1)) < unat (e - i)"
proof -
  assume "i \<noteq> e"
  then have "e - i \<noteq> 0" by simp
  then have "unat (e - i - 1) = unat (e - i) - 1" "0 < unat (e - i)" by (rule unat_minus_one, simp add: unat_gt_0)
  then show ?thesis by (simp add: diff_diff_add)
qed

termination take_elements
  by (relation "measure (\<lambda>(endIndex, index, b). unat (endIndex - index))") (simp_all add: unat_distance_step)

declare take_elements.simps [simp del]

text \<open>Where the run of elements in the block of \<open>index\<close> ends; \<open>stop\<close> is \<open>firstIndex + actualCount\<close>.\<close>

definition bulk_end :: "u64 \<Rightarrow> u64 \<Rightarrow> u64" where
  "bulk_end stop index =
     (let endIndex = (index AND NOT (BLOCK_SIZE - 1)) + BLOCK_SIZE
      in if circular_less_than stop endIndex then stop else endIndex)"

text \<open>The body of the loop over the blocks, without the step to the next entry of the block index.\<close>

definition bulk_block ::
  "block_index \<Rightarrow> u64 \<Rightarrow> nat \<Rightarrow> u64 \<Rightarrow> producer \<Rightarrow> 'a pool \<Rightarrow> cq_error + 'a list \<times> producer \<times> 'a pool" where
  "bulk_block localBlockIndex stop indexIndex index p P =
     (let blockStartIndex = index;
          endIndex = bulk_end stop index;
          entry = bi_index localBlockIndex ! indexIndex
      in case entry_value (entries p ! entry) of
           None \<Rightarrow> Inl Cq_null_pointer
         | Some block \<Rightarrow>
             bindE (take_elements endIndex index (cblocks P ! block))
               (\<lambda>(els, b).
                  bindE (set_many_empty implicit_context blockStartIndex (unat (endIndex - blockStartIndex)) b)
                    (\<lambda>(now_empty, b).
                       let P = upd_cblock block (\<lambda>_. b) P
                       in if now_empty
                          then Inr (els, store_entry_value entry None p, add_block_to_free_list block P)
                          else Inr (els, p, P))))"

fun bulk_blocks ::
  "nat \<Rightarrow> block_index \<Rightarrow> u64 \<Rightarrow> nat \<Rightarrow> u64 \<Rightarrow> producer \<Rightarrow> 'a pool \<Rightarrow> cq_error + 'a list \<times> producer \<times> 'a pool" where
  "bulk_blocks 0 localBlockIndex stop indexIndex index p P = Inl Cq_diverges"
| "bulk_blocks (Suc fuel) localBlockIndex stop indexIndex index p P =
     bindE (bulk_block localBlockIndex stop indexIndex index p P)
       (\<lambda>(els, p, P).
          let index = bulk_end stop index;
              indexIndex = unat ((of_nat indexIndex + 1) AND (capacity localBlockIndex - 1))
          in if index \<noteq> stop
             then bindE (bulk_blocks fuel localBlockIndex stop indexIndex index p P) (\<lambda>(els', p, P). Inr (els @ els', p, P))
             else Inr (els, p, P))"

text \<open>
  \<open>dequeue_bulk\<close>: the number it returns and the elements it wrote. The fuel of the loop is one more than the number of
  elements; every block but the last gives at least one.
\<close>

definition implicit_dequeue_bulk :: "u64 \<Rightarrow> producer \<Rightarrow> 'a pool \<Rightarrow> cq_error + (u64 \<times> 'a list) \<times> producer \<times> 'a pool" where
  "implicit_dequeue_bulk mx p P =
     (let tail = tailIndex p;
          overcommit = dequeueOvercommit p;
          desiredCount = tail - (dequeueOptimisticCount p - overcommit)
      in if \<not> circular_less_than 0 desiredCount then Inr ((0, []), p, P)
         else
           let desiredCount = (if desiredCount < mx then desiredCount else mx);
               myDequeueCount = dequeueOptimisticCount p;
               p = p\<lparr>dequeueOptimisticCount := myDequeueCount + desiredCount\<rparr>
           in if \<not> overcommit \<le> myDequeueCount then Inl Cq_assertion_failed
              else
                let tail = tailIndex p;
                    actualCount = tail - (myDequeueCount - overcommit)
                in if circular_less_than 0 actualCount then
                     let actualCount = (if desiredCount < actualCount then desiredCount else actualCount);
                         p = (if actualCount < desiredCount
                              then p\<lparr>dequeueOvercommit := dequeueOvercommit p + (desiredCount - actualCount)\<rparr> else p);
                         firstIndex = headIndex p;
                         p = p\<lparr>headIndex := firstIndex + actualCount\<rparr>
                     in bindE (get_block_index_index_for_index firstIndex p)
                          (\<lambda>indexIndex. case blockIndex p of
                             None \<Rightarrow> Inl Cq_null_pointer
                           | Some localBlockIndex \<Rightarrow>
                               bindE (bulk_blocks (Suc (unat actualCount)) localBlockIndex (firstIndex + actualCount) indexIndex firstIndex p P)
                                 (\<lambda>(els, p, P). Inr ((actualCount, els), p, P)))
                   else Inr ((0, []), p\<lparr>dequeueOvercommit := dequeueOvercommit p + desiredCount\<rparr>, P))"

text \<open>\<open>try_dequeue_bulk\<close>: the producers in turn, until there is enough.\<close>

definition producer_dequeue_bulk :: "u64 \<Rightarrow> nat \<Rightarrow> 'a cqueue \<Rightarrow> cq_error + (u64 \<times> 'a list) \<times> 'a cqueue" where
  "producer_dequeue_bulk mx ptr q =
     bindE (implicit_dequeue_bulk mx (node_prod (producers q ! ptr)) (blockPool q))
       (\<lambda>(r, p, P). Inr (r, set_producer ptr p P q))"

fun bulk_any :: "nat \<Rightarrow> u64 \<Rightarrow> u64 \<Rightarrow> nat option \<Rightarrow> 'a cqueue \<Rightarrow> cq_error + (u64 \<times> 'a list) \<times> 'a cqueue" where
  "bulk_any fuel mx cnt None q = Inr ((cnt, []), q)"
| "bulk_any 0 mx cnt (Some ptr) q = Inl Cq_diverges"
| "bulk_any (Suc fuel) mx cnt (Some ptr) q =
     bindE (producer_dequeue_bulk (mx - cnt) ptr q)
       (\<lambda>((n, els), q).
          let cnt = cnt + n
          in if cnt = mx then Inr ((cnt, els), q)
             else bindE (bulk_any fuel mx cnt (next_prod (producers q ! ptr)) q)
                    (\<lambda>((cnt, els'), q). Inr ((cnt, els @ els'), q)))"

definition cq_try_dequeue_bulk :: "u64 \<Rightarrow> 'a cqueue \<Rightarrow> cq_error + (u64 \<times> 'a list) \<times> 'a cqueue" where
  "cq_try_dequeue_bulk mx q = bulk_any (length (producers q)) mx 0 (producerListTail q) q"

subsection \<open>One block\<close>

text \<open>The slots of block number \<open>k\<close> when the sub-queue has the elements \<open>xs\<close> from position \<open>H\<close> on.\<close>

definition slots_hold :: "'a option list \<Rightarrow> nat \<Rightarrow> 'a list \<Rightarrow> nat \<Rightarrow> bool" where
  "slots_hold es H xs k \<longleftrightarrow> length es = 32
     \<and> (\<forall>s < 32. es ! s = (if H \<le> 32 * k + s \<and> 32 * k + s < H + length xs then Some (xs ! (32 * k + s - H)) else None))"

lemma block_holds_slots: "block_holds b H xs k \<longleftrightarrow> slots_hold (elements b) H xs k \<and> elementsCompletelyDequeued b = of_nat (H - 32 * k)"
  by (auto simp: block_holds_def slots_hold_def)

lemma slots_hold_first:
  assumes "slots_hold es H (x # xs) k" "k = H div 32"
  shows "es ! (H mod 32) = Some x" "slots_hold (es[H mod 32 := None]) (Suc H) xs k"
proof -
  have H: "32 * k + H mod 32 = H" using assms(2) by simp
  have o: "length es = 32" "\<And>s. s < 32 \<Longrightarrow> es ! s = (if H \<le> 32 * k + s \<and> 32 * k + s < H + length (x # xs) then Some ((x # xs) ! (32 * k + s - H)) else None)"
    using assms(1) by (auto simp: slots_hold_def)
  show "es ! (H mod 32) = Some x" using o(2) [of "H mod 32"] unfolding H by simp
  have "es[H mod 32 := None] ! s = (if Suc H \<le> 32 * k + s \<and> 32 * k + s < Suc H + length xs then Some (xs ! (32 * k + s - Suc H)) else None)"
    if s: "s < 32" for s
  proof (cases "s = H mod 32")
    case True
    then show ?thesis using H o(1) by simp
  next
    case False
    then have "32 * k + s \<noteq> H" using H by linarith
    then show ?thesis using o(2) [OF s] False by (auto simp: nth_Cons')
  qed
  then show "slots_hold (es[H mod 32 := None]) (Suc H) xs k" using o(1) by (simp add: slots_hold_def)
qed

lemma slots_hold_later:
  assumes "slots_hold es H xs k" "H + j \<le> 32 * k" "j \<le> length xs"
  shows "slots_hold es (H + j) (drop j xs) k"
  using assms by (auto simp: slots_hold_def)

lemma of_nat_word_neq: "0 < j \<Longrightarrow> j < 2 ^ 64 \<Longrightarrow> (of_nat H :: u64) \<noteq> of_nat (H + j)"
proof
  assume j: "0 < j" "j < 2 ^ 64" "(of_nat H :: u64) = of_nat (H + j)"
  then have "(of_nat j :: u64) = 0" by simp
  then have "unat (of_nat j :: u64) = 0" by simp
  then show False using j(1,2) by (simp add: unat_of_nat)
qed

lemma take_elements_rep:
  assumes "slots_hold (elements b) H xs k" "32 * k \<le> H" "H + j \<le> 32 * k + 32" "j \<le> length xs"
  shows "\<exists>es. take_elements (of_nat (H + j)) (of_nat H) b = Inr (take j xs, b\<lparr>elements := es\<rparr>) \<and> slots_hold es (H + j) (drop j xs) k"
  using assms
proof (induction j arbitrary: H xs b)
  case 0
  show ?case by (intro exI [of _ "elements b"]) (use 0 in \<open>simp add: take_elements.simps\<close>)
next
  case (Suc j)
  obtain x ys where xs: "xs = x # ys" using Suc.prems(4) by (cases xs) auto
  have k: "k = H div 32" using Suc.prems(2,3) by (intro div_nat_eqI [symmetric]) simp_all
  note first = slots_hold_first [OF Suc.prems(1) [unfolded xs] k]
  have neq: "(of_nat H :: u64) \<noteq> of_nat (H + Suc j)" using Suc.prems(2,3) by (intro of_nat_word_neq) auto
  let ?b = "b\<lparr>elements := (elements b)[H mod 32 := None]\<rparr>"
  obtain es where es: "take_elements (of_nat (Suc H + j)) (of_nat (Suc H)) ?b = Inr (take j ys, ?b\<lparr>elements := es\<rparr>)"
    "slots_hold es (Suc H + j) (drop j ys) k"
    using Suc.IH [of ?b "Suc H" ys] first(2) Suc.prems(2-4) xs by auto
  have "take_elements (of_nat (H + Suc j)) (of_nat H) b = Inr (x # take j ys, b\<lparr>elements := es\<rparr>)"
    by (subst take_elements.simps) (use neq first(1) es(1) slot_of_nat [of H] in \<open>simp add: add.commute [of 1]\<close>)
  then show ?case using es(2) xs by (intro exI [of _ es]) simp
qed

lemma bulk_end_rep:
  assumes "n < 2 ^ 63"
  shows "bulk_end (of_nat (H + n)) (of_nat H) = of_nat (H + min n (32 - H mod 32))"
proof -
  define e where "e = 32 * (H div 32) + 32"
  have e: "e = H + (32 - H mod 32)"
  proof -
    have "H = 32 * (H div 32) + H mod 32" "H mod 32 < 32" by simp_all
    then show ?thesis unfolding e_def by linarith
  qed
  have "(of_nat H AND NOT (BLOCK_SIZE - 1)) + BLOCK_SIZE = (of_nat e :: u64)"
    unfolding block_base by (simp add: e_def BLOCK_SIZE_def)
  then have b: "bulk_end (of_nat (H + n)) (of_nat H) = (if circular_less_than (of_nat (H + n)) (of_nat e) then of_nat (H + n) else (of_nat e :: u64))"
    by (simp add: bulk_end_def)
  consider "H + n < e" | "H + n = e" | "e < H + n" by linarith
  then show ?thesis
  proof cases
    case 1
    then have "circular_less_than (of_nat (H + n)) (of_nat e)" by (intro circular_less_than_of_nat(1)) (auto simp: e)
    then show ?thesis using b 1 e by simp
  next
    case 2
    then show ?thesis using b e by simp
  next
    case 3
    then have "\<not> circular_less_than (of_nat (H + n)) (of_nat e)" using assms by (intro circular_less_than_of_nat(2)) (auto simp: e)
    then show ?thesis using b 3 e by simp
  qed
qed

subsection \<open>The sub-queue while its elements are taken\<close>

text \<open>
  \<open>dequeue_bulk\<close> advances the head over all elements before it takes them out: in between, the sub-queue is the one whose head
  is at the position reached.
\<close>

definition at_head :: "nat \<Rightarrow> producer \<Rightarrow> producer" where
  "at_head H p = p\<lparr>headIndex := of_nat H, dequeueOptimisticCount := of_nat H\<rparr>"

definition prod_at ::
  "'a pool \<Rightarrow> producer \<Rightarrow> 'a list \<Rightarrow> nat set \<Rightarrow> nat \<Rightarrow> nat \<Rightarrow> nat \<Rightarrow> (nat \<Rightarrow> nat) \<Rightarrow> bool" where
  "prod_at P p xs L c H N blk \<longleftrightarrow> prod_core P (at_head H p) xs L c H N blk \<and> N = (H + length xs + 31) div 32
     \<and> (H div 32 < N \<longrightarrow> tailBlock p = Some (blk (N - 1)))"

lemma prod_atE:
  assumes "prod_at P p xs L c H N blk"
  obtains "tailIndex p = of_nat (H + length xs)" "dequeueOvercommit p = 0" "32 * N < H + 2 ^ 63" "index_rep c p (H div 32) N blk"
    "inj_on blk {H div 32..<N}" "L = blk ` {H div 32..<N}"
    "\<And>k. H div 32 \<le> k \<Longrightarrow> k < N \<Longrightarrow> blk k < length (cblocks P)"
    "\<And>k. H div 32 \<le> k \<Longrightarrow> k < N \<Longrightarrow> block_holds (cblocks P ! blk k) H xs k"
    "N = (H + length xs + 31) div 32" "H div 32 < N \<longrightarrow> tailBlock p = Some (blk (N - 1))"
proof
  note a = assms [unfolded prod_at_def]
  show "index_rep c p (H div 32) N blk"
    by (rule prod_coreE [OF conjunct1 [OF a]], erule index_rep_cong) (simp_all add: at_head_def)
qed (use assms in \<open>auto simp: prod_at_def at_head_def elim!: prod_coreE\<close>)

lemma prod_atI:
  assumes "tailIndex p = of_nat (H + length xs)" "dequeueOvercommit p = 0" "32 * N < H + 2 ^ 63" "index_rep c p (H div 32) N blk"
    "inj_on blk {H div 32..<N}" "L = blk ` {H div 32..<N}"
    "\<And>k. H div 32 \<le> k \<Longrightarrow> k < N \<Longrightarrow> blk k < length (cblocks P)"
    "\<And>k. H div 32 \<le> k \<Longrightarrow> k < N \<Longrightarrow> block_holds (cblocks P ! blk k) H xs k"
    "N = (H + length xs + 31) div 32" "H div 32 < N \<longrightarrow> tailBlock p = Some (blk (N - 1))"
  shows "prod_at P p xs L c H N blk"
  unfolding prod_at_def
proof (intro conjI)
  show "prod_core P (at_head H p) xs L c H N blk"
  proof (rule prod_coreI)
    show "index_rep c (at_head H p) (H div 32) N blk" using index_rep_cong [OF assms(4)] by (simp add: at_head_def)
  qed (use assms in \<open>simp_all add: at_head_def\<close>)
qed (use assms in blast)+

lemma prod_at_rep:
  "prod_at P p xs L c H N blk \<Longrightarrow> headIndex p = of_nat H \<Longrightarrow> dequeueOptimisticCount p = of_nat H \<Longrightarrow> prod_rep P p xs L"
  unfolding prod_at_def prod_rep_def at_head_def by (metis (no_types, lifting) producer.surjective producer.update_convs(2,3))

lemma prod_rep_at:
  assumes "prod_rep P p xs L"
  obtains c H N blk where "prod_at P p xs L c H N blk" "headIndex p = of_nat H" "dequeueOptimisticCount p = of_nat H"
proof -
  obtain c H N blk where a: "prod_core P p xs L c H N blk" "N = (H + length xs + 31) div 32"
     "H div 32 < N \<longrightarrow> tailBlock p = Some (blk (N - 1))"
    using assms unfolding prod_rep_def by blast
  then have h: "headIndex p = of_nat H" "dequeueOptimisticCount p = of_nat H" by (auto elim: prod_coreE)
  then have "at_head H p = p" by (simp add: at_head_def)
  then show ?thesis using that [of c H N blk] a h by (simp add: prod_at_def)
qed

lemma prod_at_live:
  assumes "prod_at P p xs L c H N blk" "xs \<noteq> []"
  shows "H div 32 < N"
proof (rule prod_atE [OF assms(1)])
  assume N: "N = (H + length xs + 31) div 32"
  have "0 < length xs" using assms(2) by simp
  then have "H < H + length xs" by simp
  also have "\<dots> \<le> 32 * N" unfolding N by (rule positions_le_blocks)
  finally show ?thesis by (simp add: less_mult_imp_div_less mult.commute)
qed

text \<open>Counting the elements of one block as taken.\<close>

lemma set_many_empty_rep:
  assumes "elementsCompletelyDequeued b = of_nat s" "s + j \<le> 32"
  shows "set_many_empty implicit_context i j b = Inr (s + j = 32, b\<lparr>elementsCompletelyDequeued := of_nat (s + j)\<rparr>)"
proof -
  have "unat (of_nat (s + j) :: u64) = s + j" using assms(2) by (simp add: unat_of_nat del: of_nat_add)
  then have "(of_nat (s + j) :: u64) \<le> BLOCK_SIZE" "(of_nat (s + j) :: u64) = BLOCK_SIZE \<longleftrightarrow> s + j = 32"
    using assms(2) by (simp_all add: word_le_nat_alt word_unat_eq_iff BLOCK_SIZE_def del: of_nat_add)
  then show ?thesis using assms(1) by (simp add: set_many_empty_def)
qed

lemma slots_hold_raw:
  assumes "slots_hold (elements b) (32 * k + 32) xs k"
  shows "raw_block b"
  using assms by (auto simp: slots_hold_def raw_block_def list_eq_iff_nth_eq)

definition same_ends :: "producer \<Rightarrow> producer \<Rightarrow> bool" where
  "same_ends p p' \<longleftrightarrow> same_positions p p' \<and> blockIndex p' = blockIndex p"

lemma bulk_block_rep:
  assumes at: "prod_at P p xs L c H N blk" and rep: "pool_rep P F" and dis: "L \<inter> F = {}" and h: "blockIndex p = Some h"
    and n: "n \<le> length xs" "xs \<noteq> []" and j: "j = min n (32 - H mod 32)"
  shows "\<exists>p' P' L' F'. bulk_block h (of_nat (H + n)) (ring_back (2 ^ c) (unat (bi_tail h)) (N - 1 - H div 32)) (of_nat H) p P
      = Inr (take j xs, p', P')
    \<and> prod_at P' p' (drop j xs) L' c (H + j) N blk \<and> pool_rep P' F' \<and> L' \<inter> F' = {} \<and> pool_frame (L \<union> F) P P'
    \<and> L' \<union> F' = L \<union> F \<and> length (cblocks P') = length (cblocks P) \<and> same_ends p p'"
proof -
  have a: "tailIndex p = of_nat (H + length xs)" "dequeueOvercommit p = 0" "32 * N < H + 2 ^ 63" "index_rep c p (H div 32) N blk"
    "inj_on blk {H div 32..<N}" "L = blk ` {H div 32..<N}"
    "\<And>k. H div 32 \<le> k \<Longrightarrow> k < N \<Longrightarrow> blk k < length (cblocks P)"
    "\<And>k. H div 32 \<le> k \<Longrightarrow> k < N \<Longrightarrow> block_holds (cblocks P ! blk k) H xs k"
    "N = (H + length xs + 31) div 32" "H div 32 < N \<longrightarrow> tailBlock p = Some (blk (N - 1))"
    using prod_atE [OF at] by blast+
  define K where "K = H div 32"
  note a = a [folded K_def]
  define s where "s = H mod 32"
  have H: "H = 32 * K + s" "s < 32" by (simp_all add: K_def s_def)
  have KN: "K < N" using prod_at_live [OF at n(2)] by (simp add: K_def)
  have TN: "H + length xs \<le> 32 * N" unfolding a(9) by (rule positions_le_blocks)
  have js: "s + j \<le> 32" "j \<le> length xs" "j \<le> n" using j H(2) n(1) by (auto simp: s_def)
  define b where "b = blk K"
  define B where "B = cblocks P ! b"
  have bl: "b < length (cblocks P)" "b \<in> L" using a(6,7) KN by (auto simp: b_def)
  then have bF: "b \<notin> F" using dis by blast
  have bh: "slots_hold (elements B) H xs K" "elementsCompletelyDequeued B = of_nat s"
    using a(8) [of K] KN by (simp_all add: b_def B_def block_holds_slots H(1))
  define e where "e = bi_index h ! ring_back (2 ^ c) (unat (bi_tail h)) (N - 1 - K)"
  note look = lookup_index [OF a(4) h order.refl KN, of H]
  have ev: "entry_value (entries p ! e) = Some b" using look(2) by (simp add: e_def K_def b_def)
  have ge: "get_block_index_entry_for_index (of_nat H) p = Inr e"
    using look(1) h by (simp add: get_block_index_entry_for_index_def e_def K_def)
  then have freed: "index_rep c (store_entry_value e None p) (Suc K) N blk"
    using lookup_rep [OF a(4) order.refl KN, of H] by (auto simp: K_def)
  obtain es where es: "take_elements (of_nat (H + j)) (of_nat H) B = Inr (take j xs, B\<lparr>elements := es\<rparr>)" "slots_hold es (H + j) (drop j xs) K"
    using take_elements_rep [OF bh(1), of j] H js by auto
  define B' where "B' = B\<lparr>elements := es, elementsCompletelyDequeued := of_nat (s + j)\<rparr>"
  have sme: "set_many_empty implicit_context (of_nat H) j (B\<lparr>elements := es\<rparr>) = Inr (s + j = 32, B')"
    using set_many_empty_rep [of "B\<lparr>elements := es\<rparr>" s j "of_nat H"] bh(2) js(1) by (simp add: B'_def)
  have bend: "bulk_end (of_nat (H + n)) (of_nat H) = of_nat (H + j)"
    unfolding j using TN a(3) n(1) by (intro bulk_end_rep) simp
  have cnt: "unat (of_nat (H + j) - of_nat H :: u64) = j" using js(1) by (simp add: unat_of_nat)
  define P1 where "P1 = upd_cblock b (\<lambda>_. B') P"
  have run: "bulk_block h (of_nat (H + n)) (ring_back (2 ^ c) (unat (bi_tail h)) (N - 1 - H div 32)) (of_nat H) p P
      = (if s + j = 32 then Inr (take j xs, store_entry_value e None p, add_block_to_free_list b P1) else Inr (take j xs, p, P1))"
    unfolding bulk_block_def Let_def bend cnt K_def [symmetric] e_def [symmetric]
    using ev es(1) sme by (simp add: B_def [symmetric] P1_def)
  have fr1: "pool_frame {b} P P1" unfolding P1_def by (rule pool_frame_upd) simp
  have len1: "length (cblocks P1) = length (cblocks P)" by (simp add: P1_def)
  have rep1: "pool_rep P1 F"
    unfolding P1_def using pool_rep_wf [OF rep bl(1)] es(2)
    by (intro pool_rep_write [OF rep bF]) (simp_all add: B'_def B_def block_wf_def slots_hold_def)
  have holds: "block_holds (cblocks P1 ! blk k) (H + j) (drop j xs) k" if k: "K \<le> k" "k < N" for k
  proof (cases "k = K")
    case True
    then show ?thesis using es(2) bl(1) H(1) by (simp add: P1_def b_def [symmetric] block_holds_slots B'_def)
  next
    case False
    then have "blk k \<noteq> b" using inj_onD [OF a(5), of k K] k KN by (auto simp: b_def)
    moreover have "H + j \<le> 32 * k" using False k(1) H(1) js(1) by simp
    ultimately show ?thesis
      using a(8) [OF k] slots_hold_later [of _ H xs k j] js(2) H(1) by (simp add: P1_def block_holds_slots)
  qed
  have rest: "prod_at Q q (drop j xs) (blk ` {(H + j) div 32..<N}) c (H + j) N blk"
    if q: "index_rep c q ((H + j) div 32) N blk" "same_ends p q" "length (cblocks Q) = length (cblocks P1)"
      "\<And>k. (H + j) div 32 \<le> k \<Longrightarrow> k < N \<Longrightarrow> cblocks Q ! blk k = cblocks P1 ! blk k" for q Q
  proof (rule prod_atI)
    have K': "K \<le> (H + j) div 32" by (simp add: K_def div_le_mono)
    show "blk k < length (cblocks Q)" "block_holds (cblocks Q ! blk k) (H + j) (drop j xs) k" if "(H + j) div 32 \<le> k" "k < N" for k
      using q(3) q(4) [OF that] len1 a(7) [of k] holds [of k] that K' by simp_all
    show "inj_on blk {(H + j) div 32..<N}" using a(5) K' by (auto intro: inj_on_subset)
    show "(H + j) div 32 < N \<longrightarrow> tailBlock q = Some (blk (N - 1))" using a(10) KN q(2) by (simp add: same_ends_def same_positions_def)
    show "32 * N < H + j + 2 ^ 63" using a(3) by simp
  qed (use q a(1,2,9) js(2) in \<open>simp_all add: same_ends_def same_positions_def\<close>)
  show ?thesis
  proof (cases "s + j = 32")
    case False
    then have K': "(H + j) div 32 = K" using H js(1) by (intro div_nat_eqI) simp_all
    have "prod_at P1 p (drop j xs) L c (H + j) N blk"
      using rest [of p P1] a(4,6) by (simp add: K' same_ends_def same_positions_def)
    then show ?thesis
      using run False rep1 dis pool_frame_mono [OF fr1] bl(2) len1
      by (intro exI [of _ p] exI [of _ P1] exI [of _ L] exI [of _ F]) (simp add: same_ends_def same_positions_def)
  next
    case True
    then have K': "(H + j) div 32 = Suc K" using H by (intro div_nat_eqI) simp_all
    define P2 where "P2 = add_block_to_free_list b P1"
    define L' where "L' = blk ` {Suc K..<N}"
    have "H + j = 32 * K + 32" using H(1) True by simp
    then have raw: "raw_block (cblocks P1 ! b)" "b < length (cblocks P1)"
      using slots_hold_raw [of B' K "drop j xs"] es(2) bl(1) by (simp_all add: P1_def B'_def)
    note add = pool_rep_add [OF rep1 bF raw(2,1), folded P2_def]
    have L: "L = insert b L'" "b \<notin> L'"
    proof -
      have "{K..<N} = insert K {Suc K..<N}" using KN by auto
      then show "L = insert b L'" unfolding a(6) L'_def b_def by simp
      show "b \<notin> L'" using inj_onD [OF a(5), of K] KN by (force simp: L'_def b_def)
    qed
    have keep: "cblocks P2 ! blk k = cblocks P1 ! blk k" if "Suc K \<le> k" "k < N" for k
      using add(3) [of "blk k"] L(2) that by (force simp: L'_def)
    have ends: "same_ends p (store_entry_value e None p)" by (simp add: same_ends_def same_positions_def store_entry_value_def)
    have "prod_at P2 (store_entry_value e None p) (drop j xs) L' c (H + j) N blk"
      using rest [of "store_entry_value e None p" P2] freed ends add(2) keep by (simp add: K' L'_def)
    moreover have "pool_frame (L \<union> F) P P2"
    proof -
      have "pool_frame {b} P1 P2" using add(2,3) by (simp add: pool_frame_def)
      from pool_frame_trans [OF fr1 this] show ?thesis using bl(2) by (auto elim: pool_frame_mono)
    qed
    moreover have "L' \<inter> insert b F = {}" "L' \<union> insert b F = L \<union> F" using L dis by auto
    ultimately show ?thesis
      using run True add(1,2) len1 ends
      by (intro exI [of _ "store_entry_value e None p"] exI [of _ P2] exI [of _ L'] exI [of _ "insert b F"]) (simp add: P2_def)
  qed
qed

lemma ring_back_next:
  assumes "0 < d" "d < n" "t < n"
  shows "(ring_back n t d + 1) mod n = ring_back n t (d - 1)"
proof -
  have "t + n - (d - 1) = t + n - d + 1" using assms by simp
  then show ?thesis by (simp add: ring_back_def mod_Suc_eq)
qed

lemma next_index:
  assumes idx: "index_rep c p K N blk" and h: "blockIndex p = Some h" and k: "K \<le> k" "Suc k < N"
  shows "unat ((of_nat (ring_back (2 ^ c) (unat (bi_tail h)) (N - 1 - k)) + 1) AND (capacity h - 1))
    = ring_back (2 ^ c) (unat (bi_tail h)) (N - 1 - Suc k)"
proof -
  have a: "c \<le> 59" "unat (capacity h) = 2 ^ c" "unat (bi_tail h) < 2 ^ c" "N - K \<le> 2 ^ c"
    using index_repE [OF idx] h by (metis option.inject)+
  define r where "r = ring_back (2 ^ c) (unat (bi_tail h)) (N - 1 - k)"
  have r: "r < 2 ^ c" unfolding r_def by (rule ring_back_less) simp
  also have "(2 :: nat) ^ c \<le> 2 ^ 59" using a(1) by (intro power_increasing) simp_all
  finally have u: "unat (of_nat r :: u64) = r" by (simp add: unat_of_nat)
  have "unat ((of_nat r + 1) AND (capacity h - 1)) = (r + 1) mod 2 ^ c"
    using unat_incr_and_pow2 [OF mask_capacity [OF a(2)], of "of_nat r"] u by simp
  also have "\<dots> = ring_back (2 ^ c) (unat (bi_tail h)) (N - 1 - k - 1)"
    unfolding r_def using k a(3,4) by (intro ring_back_next) simp_all
  finally show ?thesis by (simp add: r_def)
qed

lemma same_ends_trans: "same_ends p q \<Longrightarrow> same_ends q r \<Longrightarrow> same_ends p r"
  by (simp add: same_ends_def same_positions_def)

lemma bulk_blocks_rep:
  assumes "prod_at P p xs L c H N blk" "pool_rep P F" "L \<inter> F = {}" "blockIndex p = Some h" "n \<le> length xs" "xs \<noteq> []" "n < fuel"
  shows "\<exists>p' P' L' F'. bulk_blocks fuel h (of_nat (H + n)) (ring_back (2 ^ c) (unat (bi_tail h)) (N - 1 - H div 32)) (of_nat H) p P
      = Inr (take n xs, p', P')
    \<and> prod_at P' p' (drop n xs) L' c (H + n) N blk \<and> pool_rep P' F' \<and> L' \<inter> F' = {} \<and> pool_frame (L \<union> F) P P'
    \<and> L' \<union> F' = L \<union> F \<and> length (cblocks P') = length (cblocks P) \<and> same_ends p p'"
  using assms
proof (induction fuel arbitrary: P p xs L H F n)
  case (Suc fuel)
  define j where "j = min n (32 - H mod 32)"
  from bulk_block_rep [OF Suc.prems(1-6) j_def]
  obtain p1 P1 L1 F1 where one:
    "bulk_block h (of_nat (H + n)) (ring_back (2 ^ c) (unat (bi_tail h)) (N - 1 - H div 32)) (of_nat H) p P = Inr (take j xs, p1, P1)"
    "prod_at P1 p1 (drop j xs) L1 c (H + j) N blk" "pool_rep P1 F1" "L1 \<inter> F1 = {}" "pool_frame (L \<union> F) P P1"
    "L1 \<union> F1 = L \<union> F" "length (cblocks P1) = length (cblocks P)" "same_ends p p1"
    by (elim exE conjE) (rule that; assumption)
  have len: "n < 2 ^ 63"
  proof (rule prod_atE [OF Suc.prems(1)])
    assume N: "32 * N < H + 2 ^ 63" "N = (H + length xs + 31) div 32"
    have "H + length xs \<le> 32 * N" unfolding N(2) by (rule positions_le_blocks)
    then show ?thesis using N(1) Suc.prems(5) by simp
  qed
  have bend: "bulk_end (of_nat (H + n)) (of_nat H) = of_nat (H + j)" unfolding j_def by (rule bulk_end_rep [OF len])
  show ?case
  proof (cases "j = n")
    case True
    then show ?thesis using one bend by (intro exI [of _ p1] exI [of _ P1] exI [of _ L1] exI [of _ F1]) simp
  next
    case False
    then have j: "j = 32 - H mod 32" "j < n" by (auto simp: j_def)
    have "0 < j" using j(1) by simp
    have K: "(H + j) div 32 = Suc (H div 32)"
    proof -
      have "H + j = 32 * (H div 32) + 32" using j(1) mult_div_mod_eq [of 32 H] mod_less_divisor [of 32 H] by linarith
      then show ?thesis by simp
    qed
    have xs1: "n - j \<le> length (drop j xs)" "drop j xs \<noteq> []" "n - j < fuel" using Suc.prems(5,7) j(2) \<open>0 < j\<close> by auto
    have h1: "blockIndex p1 = Some h" using one(8) Suc.prems(4) by (simp add: same_ends_def)
    have neq: "(of_nat (H + j) :: u64) \<noteq> of_nat (H + n)"
      using of_nat_word_neq [of "n - j" "H + j"] j(2) len by simp
    have "index_rep c p (H div 32) N blk" using Suc.prems(1) by (rule prod_atE)
    then have ix: "unat ((of_nat (ring_back (2 ^ c) (unat (bi_tail h)) (N - 1 - H div 32)) + 1) AND (capacity h - 1))
        = ring_back (2 ^ c) (unat (bi_tail h)) (N - 1 - (H + j) div 32)"
      unfolding K using prod_at_live [OF one(2) xs1(2)] K by (intro next_index [OF _ Suc.prems(4) order.refl]) simp_all
    have stop: "H + j + (n - j) = H + n" using j(2) by simp
    from Suc.IH [OF one(2-4) h1 xs1, unfolded stop]
    obtain p2 P2 L2 F2 where two:
      "bulk_blocks fuel h (of_nat (H + n)) (ring_back (2 ^ c) (unat (bi_tail h)) (N - 1 - (H + j) div 32)) (of_nat (H + j)) p1 P1
         = Inr (take (n - j) (drop j xs), p2, P2)"
      "prod_at P2 p2 (drop (n - j) (drop j xs)) L2 c (H + n) N blk" "pool_rep P2 F2" "L2 \<inter> F2 = {}" "pool_frame (L1 \<union> F1) P1 P2"
      "L2 \<union> F2 = L1 \<union> F1" "length (cblocks P2) = length (cblocks P1)" "same_ends p1 p2"
      by (elim exE conjE) (rule that; assumption)
    have split: "take n xs = take j xs @ take (n - j) (drop j xs)" "drop (n - j) (drop j xs) = drop n xs"
      using j(2) by (simp_all add: take_add [symmetric])
    have "bulk_blocks (Suc fuel) h (of_nat (H + n)) (ring_back (2 ^ c) (unat (bi_tail h)) (N - 1 - H div 32)) (of_nat H) p P
        = Inr (take n xs, p2, P2)"
      using one(1) bend neq ix two(1) split(1) by (simp del: of_nat_add)
    then show ?thesis
      using two(2) [unfolded split(2)] two(3,4,6,7) one(6,7) pool_frame_trans [OF one(5) two(5)] same_ends_trans [OF one(8) two(8)]
      by (intro exI [of _ p2] exI [of _ P2] exI [of _ L2] exI [of _ F2]) simp
  qed
qed simp

lemma implicit_dequeue_bulk_rep:
  fixes mx :: u64
  assumes prod: "prod_rep P p xs L" and rep: "pool_rep P F" and dis: "L \<inter> F = {}"
  defines "n \<equiv> min (unat mx) (length xs)"
  shows "\<exists>p' P' L' F'. implicit_dequeue_bulk mx p P = Inr ((of_nat n, take n xs), p', P')
    \<and> prod_rep P' p' (drop n xs) L' \<and> pool_rep P' F' \<and> L' \<inter> F' = {}
    \<and> pool_frame (L \<union> F) P P' \<and> L' \<union> F' = L \<union> F \<and> length (cblocks P') = length (cblocks P)"
proof -
  obtain c H N blk where at: "prod_at P p xs L c H N blk" and pos: "headIndex p = of_nat H" "dequeueOptimisticCount p = of_nat H"
    by (rule prod_rep_at [OF prod])
  have a: "tailIndex p = of_nat (H + length xs)" "dequeueOvercommit p = 0" "index_rep c p (H div 32) N blk"
    using prod_atE [OF at] by blast+
  have len: "length xs < 2 ^ 63" by (rule producer_list_rep(3) [OF prod])
  have sz: "tailIndex p - of_nat H = of_nat (length xs)" "unat (of_nat (length xs) :: u64) = length xs"
    using a(1) len by (simp_all add: unat_of_nat)
  have lt: "circular_less_than 0 (of_nat (length xs) :: u64) \<longleftrightarrow> xs \<noteq> []"
    using circular_less_than_of_nat(1) [of 0 "length xs"] len by (cases "xs = []") auto
  show ?thesis
  proof (cases "xs = []")
    case True
    then show ?thesis
      using prod rep dis lt sz(1) pos a(2) by (intro exI [of _ p] exI [of _ P] exI [of _ L] exI [of _ F]) (simp add: implicit_dequeue_bulk_def n_def)
  next
    case False
    have desired: "(if (of_nat (length xs) :: u64) < mx then of_nat (length xs) else mx) = of_nat n"
      using sz(2) by (auto simp: n_def word_less_nat_alt min_def of_nat_unat ucast_id)
    have nn: "n \<le> length xs" "unat (of_nat n :: u64) = n" using len by (simp_all add: n_def unat_of_nat)
    have actual: "(if (of_nat n :: u64) < of_nat (length xs) then of_nat n else of_nat (length xs)) = (of_nat n :: u64)"
      using nn sz(2) by (auto simp: word_less_nat_alt)
    define q where "q = p\<lparr>dequeueOptimisticCount := of_nat H + of_nat n, headIndex := of_nat H + of_nat n\<rparr>"
    obtain h where h: "blockIndex q = Some h" by (rule index_repE [OF a(3)]) (simp add: q_def)
    have idx: "index_rep c q (H div 32) N blk" using index_rep_cong [OF a(3)] by (simp add: q_def)
    have q: "at_head H q = at_head H p" "tailBlock q = tailBlock p" by (simp_all add: q_def at_head_def)
    have atq: "prod_at P q xs L c H N blk" using at unfolding prod_at_def q .
    note look = lookup_index(1) [OF idx h order.refl prod_at_live [OF at False] refl]
    from bulk_blocks_rep [OF atq rep dis h nn(1) False lessI]
    obtain p' P' L' F' where r:
      "bulk_blocks (Suc n) h (of_nat (H + n)) (ring_back (2 ^ c) (unat (bi_tail h)) (N - 1 - H div 32)) (of_nat H) q P
         = Inr (take n xs, p', P')"
      "prod_at P' p' (drop n xs) L' c (H + n) N blk" "pool_rep P' F'" "L' \<inter> F' = {}" "pool_frame (L \<union> F) P P'"
      "L' \<union> F' = L \<union> F" "length (cblocks P') = length (cblocks P)" "same_ends q p'"
      by (elim exE conjE) (rule that; assumption)
    have "headIndex p' = of_nat (H + n)" "dequeueOptimisticCount p' = of_nat (H + n)"
      using r(8) by (simp_all add: same_ends_def same_positions_def q_def)
    then have "prod_rep P' p' (drop n xs) L'" by (rule prod_at_rep [OF r(2)])
    moreover have sel: "\<And>x. tailIndex (p\<lparr>dequeueOptimisticCount := x\<rparr>) = tailIndex p" by simp
    have "implicit_dequeue_bulk mx p P = Inr ((of_nat n, take n xs), p', P')"
      unfolding implicit_dequeue_bulk_def Let_def pos a(2) diff_zero sel sz(1) desired actual
      using lt False sz(1) desired actual look h r(1) nn(2) pos(1)
      by (simp add: q_def del: bulk_blocks.simps split del: if_split)
    ultimately show ?thesis using r(3-7) by blast
  qed
qed

subsection \<open>All producers\<close>

lemma producer_dequeue_bulk_rep:
  fixes mx :: u64
  assumes rep: "cq_rep q M xss Ls F" and k: "k < length (producers q)"
  defines "n \<equiv> min (unat mx) (length (xss ! k))"
  shows "\<exists>q' Ls' F'. producer_dequeue_bulk mx k q = Inr ((of_nat n, take n (xss ! k)), q')
    \<and> cq_rep q' M (xss[k := drop n (xss ! k)]) Ls' F' \<and> length (producers q') = length (producers q)"
proof -
  note a = cq_repD [OF rep]
  obtain p P L' F' where e: "implicit_dequeue_bulk mx (node_prod (producers q ! k)) (blockPool q) = Inr ((of_nat n, take n (xss ! k)), p, P)"
    "prod_rep P p (drop n (xss ! k)) L'" "pool_rep P F'" "L' \<inter> F' = {}"
    "pool_frame (Ls ! k \<union> F) (blockPool q) P" "L' \<union> F' = Ls ! k \<union> F" "length (cblocks P) = length (cblocks (blockPool q))"
    using implicit_dequeue_bulk_rep [OF a(7) [OF k] a(6) a(8) [OF k], of mx] unfolding n_def by metis
  have "cq_rep (set_producer k p P q) M (xss[k := drop n (xss ! k)]) (Ls[k := L']) F'"
    using e(6,7) by (intro set_producer_rep [OF rep k e(2-5)]) auto
  then show ?thesis using e(1) by (auto simp: producer_dequeue_bulk_def)
qed

text \<open>
  Walking from producer \<open>i\<close> down to the first one, with room for \<open>m\<close> more elements: what is taken, as pairs of the
  producer and its elements, and what is left.
\<close>

fun takes_bulk :: "nat \<Rightarrow> nat \<Rightarrow> 'a list list \<Rightarrow> (nat \<times> 'a) list \<times> 'a list list" where
  "takes_bulk m 0 xss = ([], xss)"
| "takes_bulk m (Suc i) xss =
     (let n = min m (length (xss ! i)); r = takes_bulk (m - n) i (xss[i := drop n (xss ! i)])
      in (map (Pair i) (take n (xss ! i)) @ fst r, snd r))"

lemma takes_bulk_length: "length (snd (takes_bulk m i xss)) = length xss"
  by (induction i arbitrary: m xss) (simp_all add: Let_def)

lemma takes_bulk_zero: "takes_bulk 0 i xss = ([], xss)"
  by (induction i arbitrary: xss) simp_all

lemma picked_from:
  "picked j (map fst (map (Pair i) zs @ ys)) (map snd (map (Pair i) zs @ ys)) = (if i = j then zs else []) @ picked j (map fst ys) (map snd ys)"
  by (induction zs) auto

lemma takes_bulk_picks:
  "i \<le> length xss \<Longrightarrow> j < length xss \<Longrightarrow>
    xss ! j = picked j (map fst (fst (takes_bulk m i xss))) (map snd (fst (takes_bulk m i xss))) @ snd (takes_bulk m i xss) ! j"
proof (induction i arbitrary: m xss)
  case (Suc i)
  define n where "n = min m (length (xss ! i))"
  define xss1 where "xss1 = xss[i := drop n (xss ! i)]"
  define T where "T = takes_bulk (m - n) i xss1"
  have T: "takes_bulk m (Suc i) xss = (map (Pair i) (take n (xss ! i)) @ fst T, snd T)"
    by (simp add: n_def xss1_def T_def Let_def)
  have IH: "xss1 ! j = picked j (map fst (fst T)) (map snd (fst T)) @ snd T ! j"
    using Suc.IH [of xss1 "m - n"] Suc.prems by (simp add: xss1_def T_def)
  have "xss ! j = (if i = j then take n (xss ! i) else []) @ xss1 ! j" using Suc.prems by (simp add: xss1_def)
  then show ?case unfolding T fst_conv snd_conv picked_from IH by simp
qed (simp add: picked_def)

lemma takes_bulk_count:
  "i \<le> length xss \<Longrightarrow> length (fst (takes_bulk m i xss)) = min m (\<Sum>j < i. length (xss ! j))"
proof (induction i arbitrary: m xss)
  case (Suc i)
  define n where "n = min m (length (xss ! i))"
  have "(\<Sum>j < i. length (xss[i := drop n (xss ! i)] ! j)) = (\<Sum>j < i. length (xss ! j))" by (intro sum.cong) auto
  then have "length (fst (takes_bulk (m - n) i (xss[i := drop n (xss ! i)]))) = min (m - n) (\<Sum>j < i. length (xss ! j))"
    using Suc.IH [of "xss[i := drop n (xss ! i)]" "m - n"] Suc.prems by simp
  then have "length (fst (takes_bulk m (Suc i) xss)) = n + min (m - n) (\<Sum>j < i. length (xss ! j))"
    unfolding n_def by (simp add: Let_def)
  also have "\<dots> = min m (\<Sum>j < Suc i. length (xss ! j))" by (simp add: n_def)
  finally show ?case .
qed simp

lemma bulk_any_rep:
  assumes "cq_rep q M xss Ls F" "i < fuel" "i < length (producers q)" "cnt \<le> mx"
  shows "\<exists>q' Ls' F'. bulk_any fuel mx cnt (Some i) q
      = Inr ((cnt + of_nat (length (fst (takes_bulk (unat (mx - cnt)) (Suc i) xss))), map snd (fst (takes_bulk (unat (mx - cnt)) (Suc i) xss))), q')
    \<and> cq_rep q' M (snd (takes_bulk (unat (mx - cnt)) (Suc i) xss)) Ls' F'"
  using assms
proof (induction fuel arbitrary: i q xss Ls F cnt)
  case (Suc fuel)
  define n where "n = min (unat (mx - cnt)) (length (xss ! i))"
  define xss1 where "xss1 = xss[i := drop n (xss ! i)]"
  obtain q1 Ls1 F1 where one: "producer_dequeue_bulk (mx - cnt) i q = Inr ((of_nat n, take n (xss ! i)), q1)"
    "cq_rep q1 M xss1 Ls1 F1" "length (producers q1) = length (producers q)"
    using producer_dequeue_bulk_rep [OF Suc.prems(1,3), of "mx - cnt"] unfolding n_def xss1_def by blast
  have nle: "n \<le> unat (mx - cnt)" by (simp add: n_def)
  then have n64: "n < 2 ^ 64" using unat_less_2_64 [of "mx - cnt"] by simp
  have un: "unat (of_nat n :: u64) = n" using n64 by (simp add: unat_of_nat)
  have left: "unat (mx - (cnt + of_nat n)) = unat (mx - cnt) - n"
  proof -
    have "of_nat n \<le> mx - cnt" using nle un by (simp add: word_le_nat_alt)
    then show ?thesis using un by (simp add: diff_diff_add [symmetric] unat_sub)
  qed
  have le: "cnt + of_nat n \<le> mx"
  proof -
    have "unat (mx - cnt) = unat mx - unat cnt" using Suc.prems(4) by (rule unat_sub)
    then have "unat cnt + n \<le> unat mx" using nle Suc.prems(4) by (simp add: word_le_nat_alt)
    then show ?thesis using un unat_less_2_64 [of mx] by (simp add: word_le_nat_alt unat_word_ariths)
  qed
  have tk: "takes_bulk (unat (mx - cnt)) (Suc i) xss = (map (Pair i) (take n (xss ! i)) @ fst (takes_bulk (unat (mx - (cnt + of_nat n))) i xss1),
      snd (takes_bulk (unat (mx - (cnt + of_nat n))) i xss1))"
    unfolding left by (simp add: n_def xss1_def Let_def)
  have lt: "length (take n (xss ! i)) = n" by (simp add: n_def)
  show ?case
  proof (cases "cnt + of_nat n = mx \<or> i = 0")
    case True
    then have "takes_bulk (unat (mx - (cnt + of_nat n))) i xss1 = ([], xss1)" using takes_bulk_zero by auto
    moreover have "bulk_any (Suc fuel) mx cnt (Some i) q = Inr ((cnt + of_nat n, take n (xss ! i)), q1)"
      using one(1) True nodes_ok_at(1) [OF cq_repD(1) [OF one(2)], of i] one(3) Suc.prems(3) by (auto simp: Let_def)
    ultimately show ?thesis unfolding tk using one(2) lt by (intro exI [of _ q1] exI [of _ Ls1] exI [of _ F1]) (simp add: o_def)
  next
    case False
    then obtain j where j: "i = Suc j" by (cases i) auto
    obtain q2 Ls2 F2 where two: "bulk_any fuel mx (cnt + of_nat n) (Some j) q1
      = Inr ((cnt + of_nat n + of_nat (length (fst (takes_bulk (unat (mx - (cnt + of_nat n))) i xss1))),
          map snd (fst (takes_bulk (unat (mx - (cnt + of_nat n))) i xss1))), q2)"
      "cq_rep q2 M (snd (takes_bulk (unat (mx - (cnt + of_nat n))) i xss1)) Ls2 F2"
      using Suc.IH [OF one(2) _ _ le, of j] Suc.prems(2,3) one(3) j by auto
    have "next_prod (producers q1 ! i) = Some j"
      using nodes_ok_at(1) [OF cq_repD(1) [OF one(2)], of i] one(3) Suc.prems(3) j by simp
    then have "bulk_any (Suc fuel) mx cnt (Some i) q = Inr ((cnt + of_nat n + of_nat (length (fst (takes_bulk (unat (mx - (cnt + of_nat n))) i xss1))),
          take n (xss ! i) @ map snd (fst (takes_bulk (unat (mx - (cnt + of_nat n))) i xss1))), q2)"
      using one(1) two(1) False by (simp add: Let_def)
    then show ?thesis unfolding tk using two(2) lt by (intro exI [of _ q2] exI [of _ Ls2] exI [of _ F2]) (simp add: o_def add.assoc)
  qed
qed simp

lemma takes_bulk_owner: "p \<in> set (fst (takes_bulk m i xss)) \<Longrightarrow> fst p < i"
  by (induction i arbitrary: m xss) (auto simp: Let_def less_Suc_eq)

lemma picked_map:
  "(\<And>k. k \<in> set ks \<Longrightarrow> g k = t \<longleftrightarrow> k = i) \<Longrightarrow> length ks = length xs \<Longrightarrow> picked t (map g ks) xs = picked i ks xs"
  by (induction ks xs rule: list_induct2') (auto simp: picked_def)

lemma picked_none: "(\<And>k. k \<in> set ks \<Longrightarrow> g k \<noteq> t) \<Longrightarrow> picked t (map g ks) xs = []"
  by (fastforce simp: picked_def filter_empty_conv dest: set_zip_leftD)

lemma lanes_of_picks:
  assumes own: "owners_ok M (length xss)" and T: "T = takes_bulk m (length xss) xss"
  shows "\<exists>tags. length tags = length (fst T) \<and> (\<forall>t. lanes_of M xss t = picked t tags (map snd (fst T)) @ lanes_of M (snd T) t)"
proof -
  have "\<forall>i < length xss. \<exists>t. M t = Some i" using own unfolding owners_ok_def by (auto simp: ran_def)
  then obtain g where g: "\<And>i. i < length xss \<Longrightarrow> M (g i) = Some i" by metis
  define ks where "ks = map fst (fst T)"
  have ks: "M (g k) = Some k" if "k \<in> set ks" for k
    using that takes_bulk_owner unfolding ks_def T by (intro g) auto
  have len: "length ks = length (map snd (fst T))" by (simp add: ks_def)
  have "lanes_of M xss t = picked t (map g ks) (map snd (fst T)) @ lanes_of M (snd T) t" for t
  proof (cases "M t")
    case None
    then have "g k \<noteq> t" if "k \<in> set ks" for k using ks [OF that] by auto
    then show ?thesis using None picked_none [of ks g t "map snd (fst T)"] by (simp add: lanes_of_def)
  next
    case (Some i)
    then have "i < length xss" using own unfolding owners_ok_def by (metis lessThan_iff ranI)
    then have "xss ! i = picked i ks (map snd (fst T)) @ snd T ! i" unfolding ks_def T by (intro takes_bulk_picks) simp_all
    moreover have "g k = t \<longleftrightarrow> k = i" if "k \<in> set ks" for k
      using ks [OF that] Some own unfolding owners_ok_def inj_on_def by (metis domI option.inject)
    then have "picked t (map g ks) (map snd (fst T)) = picked i ks (map snd (fst T))" using len by (intro picked_map) auto
    ultimately show ?thesis using Some by (simp add: lanes_of_def)
  qed
  then show ?thesis by (intro exI [of _ "map g ks"]) (simp add: ks_def)
qed

lemma cq_bulk_lanes:
  assumes "cq_inv q"
  shows "\<exists>xs q' tags. cq_try_dequeue_bulk mx q = Inr ((of_nat (length xs), xs), q') \<and> cq_inv q'
    \<and> length xs = min (unat mx) (\<Sum>t \<in> UNIV. length (cq_lane q t))
    \<and> length tags = length xs \<and> (\<forall>t. cq_lane q t = picked t tags xs @ cq_lane q' t)"
proof -
  obtain M xss Ls F where rep: "cq_rep q M xss Ls F" using assms unfolding cq_inv_def by blast
  note a = cq_repD [OF rep]
  define T where "T = takes_bulk (unat mx) (length xss) xss"
  have own: "owners_ok M (length xss)" using a(3,4) by simp
  obtain tags where tags: "length tags = length (fst T)" "\<forall>t. lanes_of M xss t = picked t tags (map snd (fst T)) @ lanes_of M (snd T) t"
    using lanes_of_picks [OF own T_def] by blast
  have total: "(\<Sum>j < length xss. length (xss ! j)) = (\<Sum>t \<in> UNIV. length (cq_lane q t))"
    unfolding cq_lane_rep [OF rep] sum_lanes_of [OF own] by (simp add: sum_list_sum_nth atLeast0LessThan)
  have cnt: "length (fst T) = min (unat mx) (\<Sum>t \<in> UNIV. length (cq_lane q t))"
    unfolding T_def total [symmetric] by (rule takes_bulk_count) simp
  have run: "\<exists>q' Ls' F'. cq_try_dequeue_bulk mx q = Inr ((of_nat (length (fst T)), map snd (fst T)), q') \<and> cq_rep q' M (snd T) Ls' F'"
    using nodes_ok_tail [OF a(1)]
  proof (elim disjE exE conjE)
    assume "length (producers q) = 0" "producerListTail q = None"
    then show ?thesis using rep a(4) by (auto simp: cq_try_dequeue_bulk_def T_def)
  next
    fix n assume n: "length (producers q) = Suc n" "producerListTail q = Some n"
    have "takes_bulk (unat (mx - 0)) (Suc n) xss = T" using a(4) n(1) by (simp add: T_def)
    then show ?thesis
      using bulk_any_rep [OF rep, of n "Suc n" 0 mx] n unfolding cq_try_dequeue_bulk_def n by simp
  qed
  obtain q' Ls' F' where q': "cq_try_dequeue_bulk mx q = Inr ((of_nat (length (fst T)), map snd (fst T)), q')" "cq_rep q' M (snd T) Ls' F'"
    using run by blast
  then have "cq_inv q'" unfolding cq_inv_def by blast
  then show ?thesis
    using q'(1) cnt tags cq_lane_rep [OF rep] cq_lane_rep [OF q'(2)]
    by (intro exI [of _ "map snd (fst T)"] exI [of _ q'] exI [of _ tags]) simp
qed

subsection \<open>Properties\<close>

text \<open>
  C13: taking several elements at once. In every state that enqueues and dequeues reach from construction,
  \<open>try_dequeue_bulk\<close> for at most \<open>max\<close> elements ends without error, returns the number of elements it wrote, and this is
  \<open>max\<close> or, if there are fewer, the number of elements that were accepted and not dequeued. The elements can be assigned to
  threads so that each thread loses its oldest ones, in order, whatever the borders of the blocks they lie in, and the
  size of the queue goes down by exactly their number.
\<close>

theorem try_dequeue_bulk_lanes:
  assumes "\<forall>m x. Enq m x \<in> set ops \<longrightarrow> env_valid (snd m)"
    and "run_ops (\<lambda>m. cq_inner_enqueue (fst m) (snd m)) cq_try_dequeue ops (ConcurrentQueue_new malloc_ok capac) = Inr (evs, q)"
  shows "\<exists>xs q' tags. cq_try_dequeue_bulk mx q = Inr ((of_nat (length xs), xs), q')
    \<and> length xs = min (unat mx) (length (accepted evs) - length (got evs))
    \<and> length tags = length xs \<and> (\<forall>t. cq_lane q t = picked t tags xs @ cq_lane q' t)
    \<and> cq_size_approx q' = Inr (of_nat (length (accepted evs) - length (got evs) - length xs))"
proof -
  have q: "cq_inv q" "(\<Sum>t \<in> UNIV. length (cq_lane q t)) + length (got evs) = length (accepted evs)"
    using cq_run [OF assms(1), of malloc_ok "initial_block_count capac"] assms(2) unfolding ConcurrentQueue_new_def by auto
  from cq_bulk_lanes [OF q(1), of mx]
  obtain xs q' tags where b: "cq_try_dequeue_bulk mx q = Inr ((of_nat (length xs), xs), q')" "cq_inv q'"
    "length xs = min (unat mx) (\<Sum>t \<in> UNIV. length (cq_lane q t))" "length tags = length xs"
    "\<forall>t. cq_lane q t = picked t tags xs @ cq_lane q' t"
    by (elim exE conjE) (rule that; assumption)
  have "(\<Sum>t \<in> UNIV. length (cq_lane q t)) = length xs + (\<Sum>t \<in> UNIV. length (cq_lane q' t))"
    unfolding b(5) [rule_format] using sum_picked [OF b(4)] by (simp add: sum.distrib)
  moreover have held: "length (accepted evs) - length (got evs) = (\<Sum>t \<in> UNIV. length (cq_lane q t))" using q(2) by linarith
  ultimately have "(\<Sum>t \<in> UNIV. length (cq_lane q' t)) = length (accepted evs) - length (got evs) - length xs" by linarith
  then have sz: "cq_size_approx q' = Inr (of_nat (length (accepted evs) - length (got evs) - length xs))"
    using cq_size_lanes [OF b(2)] by (simp only:)
  note len = b(3) [folded held]
  show ?thesis using b(1) len b(4,5) sz by (intro exI conjI)
qed

lemma sample_enqueue:
  fixes x :: "'a"
  defines "ops \<equiv> [Enq (Can_alloc, 64, (True, True, True), True, True) x]"
  shows "\<exists>q. run_ops (\<lambda>m. cq_inner_enqueue (fst m) (snd m)) cq_try_dequeue ops (ConcurrentQueue_new True 256) = Inr ([Accepted x], q)"
    "\<forall>m y. Enq m y \<in> set ops \<longrightarrow> env_valid (snd m)"
proof -
  let ?env = "(64, (True, True, True), True, True) :: cq_env"
  have v: "env_valid ?env" by (simp add: env_valid_def invalid_thread_id_def)
  let ?q = "ConcurrentQueue_new True 256 :: 'a cqueue"
  from cq_enqueue_rep [OF cqueue_new_rep v, of Can_alloc x True "initial_block_count 256", folded ConcurrentQueue_new_def]
  obtain b q' where b: "cq_inner_enqueue Can_alloc ?env x ?q = Inr (b, q')"
    "\<not> b \<longrightarrow> Can_alloc = Cannot_alloc \<or> \<not> env_all_ok ?env \<or> 2 ^ 56 \<le> length (producers ?q)
         \<or> 2 ^ 63 \<le> length (lanes_of Map.empty [] (env_thread ?env) :: 'a list) + 32"
    by (elim exE conjE) (rule that; assumption)
  have "env_all_ok ?env" "producers ?q = []" "lanes_of Map.empty [] (env_thread ?env) = ([] :: 'a list)"
    by (simp_all add: env_all_ok_def ConcurrentQueue_new_def cqueue_of_blocks_def lanes_of_def)
  then have "b" using b(2) by simp
  then have "\<exists>q'. cq_inner_enqueue Can_alloc ?env x ?q = Inr (True, q')" using b(1) by simp
  then show "\<exists>q. run_ops (\<lambda>m. cq_inner_enqueue (fst m) (snd m)) cq_try_dequeue ops (ConcurrentQueue_new True 256) = Inr ([Accepted x], q)"
    by (auto simp: ops_def)
  show "\<forall>m y. Enq m y \<in> set ops \<longrightarrow> env_valid (snd m)" using v by (simp add: ops_def)
qed

theorem try_dequeue_bulk_lanes_witness:
  "\<exists>q xs q'. run_ops (\<lambda>m. cq_inner_enqueue (fst m) (snd m)) cq_try_dequeue
      [Enq (Can_alloc, 64, (True, True, True), True, True) (7 :: nat)] (ConcurrentQueue_new True 256) = Inr ([Accepted 7], q)
    \<and> cq_try_dequeue_bulk 5 q = Inr ((1, xs), q') \<and> length xs = 1 \<and> cq_size_approx q' = Inr 0"
proof -
  obtain q where q: "run_ops (\<lambda>m. cq_inner_enqueue (fst m) (snd m)) cq_try_dequeue
      [Enq (Can_alloc, 64, (True, True, True), True, True) (7 :: nat)] (ConcurrentQueue_new True 256) = Inr ([Accepted 7], q)"
    using sample_enqueue(1) [of "7 :: nat"] by (elim exE) (rule that)
  from try_dequeue_bulk_lanes [OF sample_enqueue(2) q, of 5]
  obtain xs q' and tags :: "u64 list" where b: "cq_try_dequeue_bulk 5 q = Inr ((of_nat (length xs), xs), q')"
    "length xs = min (unat (5 :: u64)) (length (accepted [Accepted (7 :: nat)]) - length (got [Accepted (7 :: nat)]))"
    "cq_size_approx q' = Inr (of_nat (length (accepted [Accepted (7 :: nat)]) - length (got [Accepted (7 :: nat)]) - length xs))"
    by (elim exE conjE) (rule that; assumption)
  have l: "length xs = 1" using b(2) by simp
  have "cq_try_dequeue_bulk 5 q = Inr ((1, xs), q')" "cq_size_approx q' = Inr 0" using b(1,3) unfolding l by simp_all
  then show ?thesis using q l by (intro exI conjI)
qed

end
