(* ===== verification/QueueTeardown.thy ===== *)
theory QueueTeardown
  imports QueueBulk
begin

text \<open>
  \<open>source/utils/concurrentqueue.h\<close>: the destructors \<open>~ImplicitProducer\<close> and \<open>~ConcurrentQueue\<close>. The result is what they
  destroy: the elements, the producers and the blocks, in the order of the code. The block indexes and hash tables,
  chains that are freed from the newest to the oldest, hold nothing that has to be destroyed.
\<close>

text \<open>
  The loop over the positions that still hold elements; \<open>block\<close> is the block of the position before. It ends for
  every pair of positions.
\<close>

function destroy_positions :: "producer \<Rightarrow> u64 \<Rightarrow> u64 \<Rightarrow> nat option \<Rightarrow> 'a pool \<Rightarrow> cq_error + 'a list \<times> 'a pool" where
  "destroy_positions p tail index block P =
     (if index = tail then Inr ([], P)
      else
        bindE (if index AND (BLOCK_SIZE - 1) = 0 \<or> block = None then
                 let P = (case block of None \<Rightarrow> P | Some b \<Rightarrow> add_block_to_free_list b P)
                 in bindE (get_block_index_entry_for_index index p) (\<lambda>e. Inr (entry_value (entries p ! e), P))
               else Inr (block, P))
          (\<lambda>(block, P). case block of
             None \<Rightarrow> Inl Cq_null_pointer
           | Some b \<Rightarrow> (case elements (cblocks P ! b) ! slot index of
                 None \<Rightarrow> Inl Cq_bad_slot
               | Some el \<Rightarrow>
                   bindE (destroy_positions p tail (index + 1) block
                            (upd_cblock b (\<lambda>bk. bk\<lparr>elements := (elements bk)[slot index := None]\<rparr>) P))
                     (\<lambda>(els, P). Inr (el # els, P)))))"
  by pat_completeness auto

termination destroy_positions
  by (relation "measure (\<lambda>(p, tail, index, block, P). unat (tail - index))") (simp_all add: unat_distance_step)

declare destroy_positions.simps [simp del]

definition ImplicitProducer_delete :: "producer \<Rightarrow> 'a pool \<Rightarrow> cq_error + 'a list \<times> 'a pool" where
  "ImplicitProducer_delete p P =
     (let tail = tailIndex p;
          index = headIndex p
      in if \<not> (index = tail \<or> circular_less_than index tail) then Inl Cq_assertion_failed
         else
           let forceFreeLastBlock = (index \<noteq> tail)
           in bindE (destroy_positions p tail index None P)
                (\<lambda>(els, P).
                   Inr (els, (case tailBlock p of
                                None \<Rightarrow> P
                              | Some b \<Rightarrow> if forceFreeLastBlock \<or> tail AND (BLOCK_SIZE - 1) \<noteq> 0 then add_block_to_free_list b P else P))))"

text \<open>The loop of \<open>~ConcurrentQueue\<close> over the producers: the elements and the producers destroyed.\<close>

fun destroy_producers :: "prod_node list \<Rightarrow> nat \<Rightarrow> nat option \<Rightarrow> 'a pool \<Rightarrow> cq_error + ('a list \<times> nat list) \<times> 'a pool" where
  "destroy_producers ps fuel None P = Inr (([], []), P)"
| "destroy_producers ps 0 (Some ptr) P = Inl Cq_diverges"
| "destroy_producers ps (Suc fuel) (Some ptr) P =
     bindE (ImplicitProducer_delete (node_prod (ps ! ptr)) P)
       (\<lambda>(els, P).
          bindE (destroy_producers ps fuel (next_prod (ps ! ptr)) P)
            (\<lambda>((els', ptrs), P). Inr ((els @ els', ptr # ptrs), P)))"

text \<open>The loop over the free list, which deletes the blocks that were allocated one by one.\<close>

fun destroy_free_list :: "'a cblock list \<Rightarrow> nat \<Rightarrow> nat option \<Rightarrow> cq_error + nat list" where
  "destroy_free_list bs fuel None = Inr []"
| "destroy_free_list bs 0 (Some block) = Inl Cq_diverges"
| "destroy_free_list bs (Suc fuel) (Some block) =
     bindE (destroy_free_list bs fuel (freeListNext (bs ! block)))
       (\<lambda>ids. Inr (if dynamicallyAllocated (bs ! block) then block # ids else ids))"

definition ConcurrentQueue_delete :: "'a cqueue \<Rightarrow> cq_error + 'a list \<times> nat list \<times> nat list" where
  "ConcurrentQueue_delete q =
     bindE (destroy_producers (producers q) (length (producers q)) (producerListTail q) (blockPool q))
       (\<lambda>((els, ptrs), P).
          bindE (destroy_free_list (cblocks P) (length (cblocks P)) (freeListHead P))
            (\<lambda>ids. Inr (els, ptrs, ids @ rev [0..<unat (initialBlockPoolSize P)])))"

subsection \<open>One sub-queue\<close>

text \<open>
  While the elements are destroyed, \<open>xs\<close> are left from position \<open>H\<close> on, and the blocks from number \<open>k0\<close> on have not been given
  back; the current one is number \<open>k0\<close>.
\<close>

definition destroying ::
  "'a pool \<Rightarrow> (nat \<Rightarrow> nat) \<Rightarrow> nat \<Rightarrow> nat \<Rightarrow> nat set \<Rightarrow> nat \<Rightarrow> 'a list \<Rightarrow> bool" where
  "destroying P blk k0 N F H xs \<longleftrightarrow> pool_rep P F \<and> blk ` {k0..<N} \<inter> F = {}
     \<and> (\<forall>k. k0 \<le> k \<and> k < N \<longrightarrow> blk k < length (cblocks P) \<and> slots_hold (elements (cblocks P ! blk k)) H xs k)"

lemma slots_hold_empty: "slots_hold (elements b) H [] k \<Longrightarrow> raw_block b"
  by (auto simp: slots_hold_def raw_block_def list_eq_iff_nth_eq)

lemma destroying_at:
  assumes "destroying P blk k0 N F H xs" "k0 \<le> k" "k < N"
  shows "pool_rep P F" "blk k \<notin> F" "blk k < length (cblocks P)" "slots_hold (elements (cblocks P ! blk k)) H xs k"
proof -
  have "blk k \<in> blk ` {k0..<N}" using assms(2,3) by simp
  then show "blk k \<notin> F" using assms(1) unfolding destroying_def by blast
qed (use assms in \<open>auto simp: destroying_def\<close>)

lemma destroying_give:
  assumes d: "destroying P blk k0 N F H xs" and inj: "inj_on blk {k0..<N}" and k: "k0 < N" and raw: "raw_block (cblocks P ! blk k0)"
  defines "P' \<equiv> add_block_to_free_list (blk k0) P"
  shows "destroying P' blk (Suc k0) N (insert (blk k0) F) H xs" "length (cblocks P') = length (cblocks P)"
    "pool_frame {blk k0} P P'" "blk ` {Suc k0..<N} \<union> insert (blk k0) F = blk ` {k0..<N} \<union> F"
proof -
  note a = destroying_at [OF d order.refl k]
  note add = pool_rep_add [OF a(1-3) raw, folded P'_def]
  have range: "{k0..<N} = insert k0 {Suc k0..<N}" using k by auto
  have neq: "blk k \<noteq> blk k0" if "Suc k0 \<le> k" "k < N" for k using inj_onD [OF inj, of k k0] that k by auto
  show "destroying P' blk (Suc k0) N (insert (blk k0) F) H xs"
    unfolding destroying_def
  proof (intro conjI allI impI)
    show "blk ` {Suc k0..<N} \<inter> insert (blk k0) F = {}"
      using d neq unfolding destroying_def range by force
    show "blk k < length (cblocks P')" "slots_hold (elements (cblocks P' ! blk k)) H xs k" if "Suc k0 \<le> k \<and> k < N" for k
      using d neq [of k] that add(2,3) by (auto simp: destroying_def)
  qed (rule add(1))
  show "length (cblocks P') = length (cblocks P)" by (rule add(2))
  show "pool_frame {blk k0} P P'" using add(2,3) by (simp add: pool_frame_def)
  show "blk ` {Suc k0..<N} \<union> insert (blk k0) F = blk ` {k0..<N} \<union> F" unfolding range by auto
qed

lemma destroying_first:
  assumes d: "destroying P blk K N F H (x # xs)" and inj: "inj_on blk {K..<N}" and K: "K = H div 32" "K < N"
  defines "P' \<equiv> upd_cblock (blk K) (\<lambda>bk. bk\<lparr>elements := (elements bk)[H mod 32 := None]\<rparr>) P"
  shows "elements (cblocks P ! blk K) ! (H mod 32) = Some x" "destroying P' blk K N F (Suc H) xs"
    "length (cblocks P') = length (cblocks P)" "pool_frame {blk K} P P'"
proof -
  note a = destroying_at [OF d order.refl K(2)]
  note first = slots_hold_first [OF a(4) K(1)]
  show "elements (cblocks P ! blk K) ! (H mod 32) = Some x" by (rule first(1))
  show "length (cblocks P') = length (cblocks P)" by (simp add: P'_def)
  show "pool_frame {blk K} P P'" unfolding P'_def by (rule pool_frame_upd) simp
  show "destroying P' blk K N F (Suc H) xs"
    unfolding destroying_def
  proof (intro conjI allI impI)
    show "pool_rep P' F"
      unfolding P'_def using pool_rep_wf [OF a(1,3)] by (intro pool_rep_write [OF a(1,2)]) (simp_all add: block_wf_def)
    show "blk ` {K..<N} \<inter> F = {}" using d by (simp add: destroying_def)
    show "blk k < length (cblocks P')" if "K \<le> k \<and> k < N" for k using d that by (simp add: destroying_def P'_def)
    show "slots_hold (elements (cblocks P' ! blk k)) (Suc H) xs k" if k: "K \<le> k \<and> k < N" for k
    proof (cases "k = K")
      case True
      then show ?thesis using first(2) a(3) by (simp add: P'_def)
    next
      case False
      then have "blk k \<noteq> blk K" using inj_onD [OF inj, of k K] k K(2) by auto
      moreover have "H + 1 \<le> 32 * k" using False k K(1) by (simp add: dividend_less_times_div Suc_le_eq less_mult_imp_div_less) linarith
      ultimately show ?thesis
        using d k slots_hold_later [of "elements (cblocks P ! blk k)" H "x # xs" k 1] by (auto simp: destroying_def P'_def)
    qed
  qed
qed

lemma destroy_positions_rep:
  assumes idx: "index_rep c p K0 N blk" and inj: "inj_on blk {K0..<N}" and bound: "H + length xs < H + 2 ^ 63" "N = (H + length xs + 31) div 32"
    and d: "destroying P blk k0 N F H xs" and K0: "K0 \<le> k0"
    and cur: "block = None \<and> k0 = H div 32 \<or> block = Some (blk k0) \<and> k0 < N \<and> 32 * k0 < H \<and> H \<le> 32 * k0 + 32"
  shows "\<exists>P' F' k1. destroy_positions p (of_nat (H + length xs)) (of_nat H) block P = Inr (xs, P')
    \<and> destroying P' blk k1 N F' (H + length xs) [] \<and> k0 \<le> k1 \<and> (if xs = [] then k1 = k0 else k1 = N - 1)
    \<and> blk ` {k1..<N} \<union> F' = blk ` {k0..<N} \<union> F \<and> pool_frame (blk ` {k0..<N}) P P' \<and> length (cblocks P') = length (cblocks P)"
  using bound d K0 cur
proof (induction xs arbitrary: H P F k0 block)
  case Nil
  show ?case by (intro exI [of _ P] exI [of _ F] exI [of _ k0]) (use Nil in \<open>simp add: destroy_positions.simps\<close>)
next
  case (Cons x xs)
  define K where "K = H div 32"
  have TN: "H + length (x # xs) \<le> 32 * N" unfolding Cons.prems(2) by (rule positions_le_blocks)
  then have KN: "K < N" by (simp add: K_def less_mult_imp_div_less mult.commute)
  have neq: "(of_nat H :: u64) \<noteq> of_nat (H + length (x # xs))" using Cons.prems(1) by (intro of_nat_word_neq) auto
  have sl: "(of_nat H :: u64) AND (BLOCK_SIZE - 1) = 0 \<longleftrightarrow> H mod 32 = 0"
    using slot_of_nat [of H] unfolding slot_def by (metis unat_eq_0)
  have k0: "k0 \<le> K" using Cons.prems(5) by (auto simp: K_def)
  have inj0: "inj_on blk {k0..<N}" using inj Cons.prems(4) by (auto intro: inj_on_subset)
  have K: "K0 \<le> K" using Cons.prems(4) k0 by simp
  obtain e where e: "get_block_index_entry_for_index (of_nat H) p = Inr e" "entry_value (entries p ! e) = Some (blk K)"
    using lookup_rep [OF idx K KN K_def [symmetric]] by blast
  define head where "head = (if (of_nat H :: u64) AND (BLOCK_SIZE - 1) = 0 \<or> block = None then
                 let P = (case block of None \<Rightarrow> P | Some b \<Rightarrow> add_block_to_free_list b P)
                 in bindE (get_block_index_entry_for_index (of_nat H) p) (\<lambda>e. Inr (entry_value (entries p ! e), P))
               else Inr (block, P))"
  have "\<exists>P1 F1. head = Inr (Some (blk K), P1) \<and> destroying P1 blk K N F1 H (x # xs)
      \<and> blk ` {K..<N} \<union> F1 = blk ` {k0..<N} \<union> F \<and> pool_frame (blk ` {k0..<N}) P P1 \<and> length (cblocks P1) = length (cblocks P)"
  proof (cases "block = None")
    case True
    then show ?thesis using Cons.prems(3,5) e by (intro exI [of _ P] exI [of _ F]) (simp add: head_def K_def)
  next
    case False
    then have b: "block = Some (blk k0)" "k0 < N" "32 * k0 < H" "H \<le> 32 * k0 + 32" using Cons.prems(5) by auto
    show ?thesis
    proof (cases "H = 32 * k0 + 32")
      case False
      then have "K = k0" unfolding K_def using b(3,4) by (intro div_nat_eqI) simp_all
      moreover have "H mod 32 \<noteq> 0" using b(3,4) False by presburger
      ultimately show ?thesis using Cons.prems(3) b(1) sl by (intro exI [of _ P] exI [of _ F]) (simp add: head_def)
    next
      case True
      have K1: "K = Suc k0" unfolding K_def True by simp
      have "raw_block (cblocks P ! blk k0)"
        using destroying_at(4) [OF Cons.prems(3) order.refl b(2)] unfolding True by (rule slots_hold_raw)
      note give = destroying_give [OF Cons.prems(3) inj0 b(2) this]
      have "head = Inr (Some (blk K), add_block_to_free_list (blk k0) P)" using b(1) e sl True by (simp add: head_def)
      moreover have "pool_frame (blk ` {k0..<N}) P (add_block_to_free_list (blk k0) P)"
        using b(2) by (intro pool_frame_mono [OF give(3)]) simp
      ultimately show ?thesis using give(1,2,4) unfolding K1 by blast
    qed
  qed
  then obtain P1 F1 where one: "head = Inr (Some (blk K), P1)" "destroying P1 blk K N F1 H (x # xs)"
      "blk ` {K..<N} \<union> F1 = blk ` {k0..<N} \<union> F" "pool_frame (blk ` {k0..<N}) P P1" "length (cblocks P1) = length (cblocks P)"
    by blast
  have injK: "inj_on blk {K..<N}" using inj K by (auto intro: inj_on_subset)
  note first = destroying_first [OF one(2) injK K_def KN]
  define P2 where "P2 = upd_cblock (blk K) (\<lambda>bk. bk\<lparr>elements := (elements bk)[H mod 32 := None]\<rparr>) P1"
  note first = first [folded P2_def]
  have H: "32 * K < Suc H" "Suc H \<le> 32 * K + 32"
    using mult_div_mod_eq [of 32 H] mod_less_divisor [of 32 H] unfolding K_def by linarith+
  have len: "H + length (x # xs) = Suc H + length xs" by simp
  have "\<exists>P' F' k1. destroy_positions p (of_nat (Suc H + length xs)) (of_nat (Suc H)) (Some (blk K)) P2 = Inr (xs, P')
    \<and> destroying P' blk k1 N F' (Suc H + length xs) [] \<and> K \<le> k1 \<and> (if xs = [] then k1 = K else k1 = N - 1)
    \<and> blk ` {k1..<N} \<union> F' = blk ` {K..<N} \<union> F1 \<and> pool_frame (blk ` {K..<N}) P2 P' \<and> length (cblocks P') = length (cblocks P2)"
    using Cons.prems(1,2) first(2) K H KN unfolding len by (intro Cons.IH) simp_all
  then obtain P' F' k1 where r: "destroy_positions p (of_nat (Suc H + length xs)) (of_nat (Suc H)) (Some (blk K)) P2 = Inr (xs, P')"
    "destroying P' blk k1 N F' (Suc H + length xs) []" "K \<le> k1" "if xs = [] then k1 = K else k1 = N - 1"
    "blk ` {k1..<N} \<union> F' = blk ` {K..<N} \<union> F1" "pool_frame (blk ` {K..<N}) P2 P'" "length (cblocks P') = length (cblocks P2)"
    by (elim exE conjE) (rule that; assumption)
  have "k1 = N - 1"
  proof (cases "xs = []")
    case True
    then have "N = K + 1" using H Cons.prems(2) by simp
    then show ?thesis using r(4) True by simp
  qed (use r(4) in simp)
  moreover have "destroy_positions p (of_nat (H + length (x # xs))) (of_nat H) block P = Inr (x # xs, P')"
    by (subst destroy_positions.simps, fold head_def)
      (use neq one(1) first(1) r(1) slot_of_nat [of H] in \<open>simp add: P2_def len add.commute [of 1]\<close>)
  moreover have "pool_frame (blk ` {k0..<N}) P P'"
  proof -
    have "blk ` {K..<N} \<subseteq> blk ` {k0..<N}" "blk K \<in> blk ` {k0..<N}" using k0 KN by auto
    then show ?thesis
      using pool_frame_trans [OF one(4) pool_frame_trans [OF first(4) r(6)]] by (auto elim!: pool_frame_mono)
  qed
  ultimately show ?case
    using r(2,3,5,7) one(3,5) first(3) k0 unfolding len by (intro exI [of _ P'] exI [of _ F'] exI [of _ k1]) simp
qed

lemma ImplicitProducer_delete_rep:
  assumes prod: "prod_rep P p xs L" and rep: "pool_rep P F" and dis: "L \<inter> F = {}"
  shows "\<exists>P'. ImplicitProducer_delete p P = Inr (xs, P') \<and> pool_rep P' (L \<union> F) \<and> pool_frame L P P' \<and> length (cblocks P') = length (cblocks P)"
proof -
  obtain c H N blk where at: "prod_at P p xs L c H N blk" and pos: "headIndex p = of_nat H"
    by (rule prod_rep_at [OF prod])
  have a: "tailIndex p = of_nat (H + length xs)" "index_rep c p (H div 32) N blk" "inj_on blk {H div 32..<N}" "L = blk ` {H div 32..<N}"
    "N = (H + length xs + 31) div 32" "H div 32 < N \<longrightarrow> tailBlock p = Some (blk (N - 1))"
    using prod_atE [OF at] by blast+
  have len: "length xs < 2 ^ 63" by (rule producer_list_rep(3) [OF prod])
  have d: "destroying P blk (H div 32) N F H xs"
    using rep dis prod_atE [OF at] unfolding destroying_def a(4) block_holds_slots by (metis (no_types, lifting))
  have ends: "(of_nat H :: u64) = of_nat (H + length xs) \<longleftrightarrow> xs = []"
    using of_nat_word_neq [of "length xs" H] len by (cases "xs = []") auto
  have ok: "xs \<noteq> [] \<Longrightarrow> circular_less_than (of_nat H) (of_nat (H + length xs))"
    using len by (intro circular_less_than_of_nat(1)) auto
  obtain P1 F1 k1 where one: "destroy_positions p (of_nat (H + length xs)) (of_nat H) None P = Inr (xs, P1)"
    "destroying P1 blk k1 N F1 (H + length xs) []" "H div 32 \<le> k1" "if xs = [] then k1 = H div 32 else k1 = N - 1"
    "blk ` {k1..<N} \<union> F1 = L \<union> F" "pool_frame L P P1" "length (cblocks P1) = length (cblocks P)"
    using destroy_positions_rep [OF a(2,3) _ a(5) d, of None] len unfolding a(4) by auto
  have sl: "(of_nat (H + length xs) :: u64) AND (BLOCK_SIZE - 1) = 0 \<longleftrightarrow> (H + length xs) mod 32 = 0"
    using slot_of_nat [of "H + length xs"] unfolding slot_def by (metis unat_eq_0)
  have del: "ImplicitProducer_delete p P = Inr (xs, (case tailBlock p of
                                None \<Rightarrow> P1
                              | Some b \<Rightarrow> if xs \<noteq> [] \<or> (H + length xs) mod 32 \<noteq> 0 then add_block_to_free_list b P1 else P1))"
    unfolding ImplicitProducer_delete_def Let_def a(1) pos sl ends using one(1) ok by (cases "xs = []") simp_all
  show ?thesis
  proof (cases "xs \<noteq> [] \<or> (H + length xs) mod 32 \<noteq> 0")
    case True
    have KN: "H div 32 < N"
    proof (cases "xs = []")
      case False
      then show ?thesis by (rule prod_at_live [OF at])
    next
      case empty: True
      then have "H < 32 * N" using blocks_for_positions(1) [of H] True a(5) by simp
      then show ?thesis by (simp add: less_mult_imp_div_less mult.commute)
    qed
    have k1: "k1 = N - 1"
    proof (cases "xs = []")
      case empty: True
      then have "32 * (N - 1) \<le> H" using blocks_for_positions(1) [of H] True a(5) by simp
      then have "N - 1 \<le> H div 32" by (simp add: less_eq_div_iff_mult_less_eq mult.commute)
      then show ?thesis using one(4) empty KN by simp
    qed (use one(4) in simp)
    have k1N: "k1 < N" using k1 KN by simp
    have inj1: "inj_on blk {k1..<N}" using a(3) one(3) by (auto intro: inj_on_subset)
    note give = destroying_give [OF one(2) inj1 k1N slots_hold_empty [OF destroying_at(4) [OF one(2) order.refl k1N]]]
    have "ImplicitProducer_delete p P = Inr (xs, add_block_to_free_list (blk k1) P1)"
      using del True a(6) KN k1 by simp
    moreover have "pool_rep (add_block_to_free_list (blk k1) P1) (insert (blk k1) F1)" using give(1) by (simp add: destroying_def)
    moreover have "insert (blk k1) F1 = L \<union> F"
    proof -
      have "{Suc k1..<N} = {}" using k1 by simp
      then show ?thesis using give(4) one(5) by simp
    qed
    moreover have "blk k1 \<in> L" using one(3) k1N by (simp add: a(4))
    then have "pool_frame L P (add_block_to_free_list (blk k1) P1)"
      using pool_frame_trans [OF one(6) give(3)] by (auto elim!: pool_frame_mono)
    ultimately show ?thesis using give(2) one(7) by simp
  next
    case False
    then have "N = H div 32" "k1 = H div 32" using a(5) one(4) by auto
    then have "F1 = L \<union> F" using one(5) by simp
    moreover have "ImplicitProducer_delete p P = Inr (xs, P1)" using del False by (simp split: option.splits)
    ultimately show ?thesis using one(2,6,7) by (simp add: destroying_def)
  qed
qed

subsection \<open>The queue\<close>

lemma destroy_producers_rep:
  assumes ok: "nodes_ok ps tail"
  shows "i < fuel \<Longrightarrow> i < length ps \<Longrightarrow> pool_rep P F \<Longrightarrow>
    (\<And>j. j \<le> i \<Longrightarrow> prod_rep P (node_prod (ps ! j)) (xss ! j) (Ls ! j) \<and> Ls ! j \<inter> F = {}) \<Longrightarrow>
    (\<And>j k. j \<le> i \<Longrightarrow> k \<le> i \<Longrightarrow> j \<noteq> k \<Longrightarrow> Ls ! j \<inter> Ls ! k = {}) \<Longrightarrow>
    \<exists>P'. destroy_producers ps fuel (Some i) P = Inr ((concat (map (\<lambda>j. xss ! j) (rev [0..<Suc i])), rev [0..<Suc i]), P')
      \<and> pool_rep P' ((\<Union>j \<le> i. Ls ! j) \<union> F) \<and> length (cblocks P') = length (cblocks P)"
proof (induction i arbitrary: fuel P F)
  case 0
  then obtain fuel' where f: "fuel = Suc fuel'" by (cases fuel) auto
  obtain P' where "ImplicitProducer_delete (node_prod (ps ! 0)) P = Inr (xss ! 0, P')" "pool_rep P' (Ls ! 0 \<union> F)" "length (cblocks P') = length (cblocks P)"
    using ImplicitProducer_delete_rep [of P "node_prod (ps ! 0)" "xss ! 0" "Ls ! 0" F] 0(3,4) by blast
  then show ?case using nodes_ok_at(1) [OF ok, of 0] 0(2) f by simp
next
  case (Suc i)
  then obtain fuel' where f: "fuel = Suc fuel'" by (cases fuel) auto
  obtain P1 where one: "ImplicitProducer_delete (node_prod (ps ! Suc i)) P = Inr (xss ! Suc i, P1)" "pool_rep P1 (Ls ! Suc i \<union> F)"
    "pool_frame (Ls ! Suc i) P P1" "length (cblocks P1) = length (cblocks P)"
    using ImplicitProducer_delete_rep [of P "node_prod (ps ! Suc i)" "xss ! Suc i" "Ls ! Suc i" F] Suc.prems(3,4) by blast
  have dis: "Ls ! j \<inter> Ls ! Suc i = {}" if "j \<le> i" for j using Suc.prems(5) [of j "Suc i"] that by simp
  have rest: "prod_rep P1 (node_prod (ps ! j)) (xss ! j) (Ls ! j) \<and> Ls ! j \<inter> (Ls ! Suc i \<union> F) = {}" if "j \<le> i" for j
    using prod_rep_frame [OF _ one(3) dis [OF that]] Suc.prems(4) [of j] dis [OF that] that by auto
  obtain P2 where two: "destroy_producers ps fuel' (Some i) P1 = Inr ((concat (map (\<lambda>j. xss ! j) (rev [0..<Suc i])), rev [0..<Suc i]), P2)"
    "pool_rep P2 ((\<Union>j \<le> i. Ls ! j) \<union> (Ls ! Suc i \<union> F))" "length (cblocks P2) = length (cblocks P1)"
    using Suc.IH [OF _ _ one(2) rest, of fuel'] Suc.prems(1,2,5) f by auto
  have "(\<Union>j \<le> Suc i. Ls ! j) \<union> F = (\<Union>j \<le> i. Ls ! j) \<union> (Ls ! Suc i \<union> F)" by (auto simp: atMost_Suc)
  then show ?case
    using one(1,4) two nodes_ok_at(1) [OF ok, of "Suc i"] Suc.prems(2) f by (simp del: destroy_producers.simps add: destroy_producers.simps(3))
qed

lemma destroy_free_list_rep:
  "free_chain bs h fs \<Longrightarrow> length fs \<le> fuel \<Longrightarrow> destroy_free_list bs fuel h = Inr (filter (\<lambda>b. dynamicallyAllocated (bs ! b)) fs)"
proof (induction fs arbitrary: h fuel)
  case (Cons b fs)
  then show ?case by (cases fuel) auto
qed simp

text \<open>The blocks of the free list that were allocated one by one, and those of the initial array, are all blocks.\<close>

lemma all_blocks_released:
  assumes rep: "pool_rep P {..<length (cblocks P)}"
  shows "\<exists>ids. destroy_free_list (cblocks P) (length (cblocks P)) (freeListHead P) = Inr ids
    \<and> distinct (ids @ rev [0..<unat (initialBlockPoolSize P)]) \<and> set (ids @ rev [0..<unat (initialBlockPoolSize P)]) = {..<length (cblocks P)}"
proof -
  obtain fs where a: "free_chain (cblocks P) (freeListHead P) fs" "distinct fs" "{..<length (cblocks P)} = set fs \<union> unused P" "alloc_ok P"
    using pool_repE [OF rep] by metis
  define ids where "ids = filter (\<lambda>b. dynamicallyAllocated (cblocks P ! b)) fs"
  have sz: "unat (initialBlockPoolSize P) \<le> length (cblocks P)"
    and dyn: "\<And>n. n < length (cblocks P) \<Longrightarrow> dynamicallyAllocated (cblocks P ! n) \<longleftrightarrow> unat (initialBlockPoolSize P) \<le> n"
    using a(4) by (simp_all add: alloc_ok_def)
  have fs: "n < length (cblocks P)" if "n \<in> set fs" for n using a(3) that by auto
  have "length fs = card (set fs)" using a(2) by (simp add: distinct_card)
  also have "\<dots> \<le> card {..<length (cblocks P)}" by (rule card_mono) (use fs in auto)
  finally have "destroy_free_list (cblocks P) (length (cblocks P)) (freeListHead P) = Inr ids"
    unfolding ids_def by (intro destroy_free_list_rep [OF a(1)]) simp
  moreover have "distinct (ids @ rev [0..<unat (initialBlockPoolSize P)])"
    using a(2) dyn fs by (auto simp: ids_def)
  moreover have "n \<in> set ids" if "n < length (cblocks P)" "unat (initialBlockPoolSize P) \<le> n" for n
  proof -
    have "n \<notin> unused P" using that(2) by (simp add: unused_def)
    then have "n \<in> set fs" using a(3) that(1) by blast
    then show ?thesis using dyn that by (simp add: ids_def)
  qed
  then have "set (ids @ rev [0..<unat (initialBlockPoolSize P)]) = {..<length (cblocks P)}"
    using sz fs by (fastforce simp: ids_def)
  ultimately show ?thesis by blast
qed

lemma cq_delete_rep:
  assumes rep: "cq_rep q M xss Ls F"
  shows "\<exists>ids. ConcurrentQueue_delete q = Inr (concat (rev xss), rev [0..<length (producers q)], ids)
    \<and> distinct ids \<and> set ids = {..<length (cblocks (blockPool q))}"
proof -
  note a = cq_repD [OF rep]
  have cover: "\<Union> (set Ls) \<union> F = {..<length (cblocks (blockPool q))}" using a(9) by (rule lanes_repE)
  have dis: "\<And>i j. i < length (producers q) \<Longrightarrow> j < length (producers q) \<Longrightarrow> i \<noteq> j \<Longrightarrow> Ls ! i \<inter> Ls ! j = {}"
    using a(9) by (rule lanes_repE) simp
  have "\<exists>P. destroy_producers (producers q) (length (producers q)) (producerListTail q) (blockPool q)
      = Inr ((concat (rev xss), rev [0..<length (producers q)]), P) \<and> pool_rep P {..<length (cblocks P)}
      \<and> length (cblocks P) = length (cblocks (blockPool q))"
    using nodes_ok_tail [OF a(1)]
  proof (elim disjE exE conjE)
    assume "length (producers q) = 0" "producerListTail q = None"
    then show ?thesis using a(4-6) cover by simp
  next
    fix n assume n: "length (producers q) = Suc n" "producerListTail q = Some n"
    obtain P where P: "destroy_producers (producers q) (Suc n) (Some n) (blockPool q)
        = Inr ((concat (map (\<lambda>j. xss ! j) (rev [0..<Suc n])), rev [0..<Suc n]), P)"
      "pool_rep P ((\<Union>j \<le> n. Ls ! j) \<union> F)" "length (cblocks P) = length (cblocks (blockPool q))"
      using destroy_producers_rep [OF a(1), of n "Suc n" "blockPool q" F xss Ls] a(6-8) dis n(1) by auto
    have "(\<Union>j \<le> n. Ls ! j) = \<Union> (set Ls)" using a(5) n(1) by (auto simp: set_conv_nth less_Suc_eq_le)
    moreover have "map (\<lambda>j. xss ! j) (rev [0..<Suc n]) = rev xss" using a(4) n(1) by (metis map_nth rev_map)
    ultimately show ?thesis using P cover n by simp
  qed
  then obtain P where P: "destroy_producers (producers q) (length (producers q)) (producerListTail q) (blockPool q)
      = Inr ((concat (rev xss), rev [0..<length (producers q)]), P)" "pool_rep P {..<length (cblocks P)}"
      "length (cblocks P) = length (cblocks (blockPool q))"
    by blast
  from all_blocks_released [OF P(2)] obtain ids where
    "destroy_free_list (cblocks P) (length (cblocks P)) (freeListHead P) = Inr ids"
    "distinct (ids @ rev [0..<unat (initialBlockPoolSize P)])" "set (ids @ rev [0..<unat (initialBlockPoolSize P)]) = {..<length (cblocks P)}"
    by blast
  then show ?thesis using P(1,3) by (simp add: ConcurrentQueue_delete_def)
qed

text \<open>The elements that the destructor finds are those of the lanes, one thread after the other.\<close>

lemma lanes_concat:
  assumes own: "owners_ok M (length xss)"
  shows "\<exists>ts. distinct ts \<and> concat (rev xss) = concat (map (lanes_of M xss) ts) \<and> (\<forall>t. t \<notin> set ts \<longrightarrow> lanes_of M xss t = [])"
proof -
  have "\<forall>i < length xss. \<exists>t. M t = Some i" using own unfolding owners_ok_def by (auto simp: ran_def)
  then obtain g where g: "\<And>i. i < length xss \<Longrightarrow> M (g i) = Some i" by metis
  define ts where "ts = map g (rev [0..<length xss])"
  have "inj_on g {..<length xss}" using g by (metis inj_onI lessThan_iff option.inject)
  then have "distinct ts" by (simp add: ts_def distinct_map atLeast0LessThan)
  moreover have "map (lanes_of M xss) ts = rev xss"
  proof -
    have "map (lanes_of M xss) ts = map (\<lambda>i. xss ! i) (rev [0..<length xss])"
      unfolding ts_def map_map by (rule map_cong) (simp_all add: lanes_of_def g)
    then show ?thesis by (metis map_nth rev_map)
  qed
  moreover have "lanes_of M xss t = []" if "t \<notin> set ts" for t
  proof (cases "M t")
    case (Some i)
    then have "i < length xss" using own unfolding owners_ok_def by (metis lessThan_iff ranI)
    then have "g i = t" using g [of i] Some own unfolding owners_ok_def inj_on_def by (metis domI)
    then show ?thesis using that \<open>i < length xss\<close> by (auto simp: ts_def)
  qed (simp add: lanes_of_def)
  ultimately show ?thesis by metis
qed

lemma mset_picked:
  fixes tags :: "'t :: finite list"
  shows "length tags = length xs \<Longrightarrow> (\<Sum>t \<in> UNIV. mset (picked t tags xs)) = mset xs"
proof (induction tags xs rule: list_induct2)
  case (Cons u tags x xs)
  have "mset (picked t (u # tags) (x # xs)) = (if t = u then {#x#} else {#}) + mset (picked t tags xs)" for t by simp
  then show ?case using Cons by (simp add: sum.distrib del: picked_simps)
qed (simp add: picked_def)

lemma mset_accepted_by:
  fixes th :: "'m \<Rightarrow> 't :: finite"
  shows "run_ops enq deq ops q = Inr (evs, q') \<Longrightarrow> (\<Sum>t \<in> UNIV. mset (accepted_by th t ops evs)) = mset (accepted evs)"
proof (induction ops arbitrary: q evs)
  case (Cons op ops)
  show ?case
  proof (cases op)
    case (Enq m x)
    then obtain b q1 evs1 where e: "enq m x q = Inr (b, q1)" "run_ops enq deq ops q1 = Inr (evs1, q')"
      "evs = (if b then Accepted x else Refused x) # evs1"
      using Cons.prems by (auto simp: bindE_eq_Inr)
    have "mset (accepted_by th t (op # ops) evs) = (if b \<and> t = th m then {#x#} else {#}) + mset (accepted_by th t ops evs1)" for t
      using e(3) Enq by auto
    then show ?thesis using Cons.IH [OF e(2)] e(3) by (simp add: sum.distrib)
  next
    case Deq
    then obtain r q1 evs1 where e: "deq q = Inr (r, q1)" "run_ops enq deq ops q1 = Inr (evs1, q')"
      "evs = (case r of None \<Rightarrow> Empty | Some x \<Rightarrow> Got x) # evs1"
      using Cons.prems by (auto simp: bindE_eq_Inr)
    then show ?thesis using Cons.IH [OF e(2)] Deq by (cases r) simp_all
  qed
qed simp

lemma mset_concat_lanes:
  fixes f :: "'t :: finite \<Rightarrow> 'a list"
  assumes "distinct ts" "\<forall>t. t \<notin> set ts \<longrightarrow> f t = []"
  shows "mset (concat (map f ts)) = (\<Sum>t \<in> UNIV. mset (f t))"
proof -
  have "mset (concat (map f ts)) = (\<Sum>t \<in> set ts. mset (f t))"
    using assms(1) by (induction ts) simp_all
  also have "\<dots> = (\<Sum>t \<in> UNIV. mset (f t))" using assms(2) by (intro sum.mono_neutral_left) auto
  finally show ?thesis .
qed

subsection \<open>Properties\<close>

text \<open>
  C8: destruction releases everything exactly once. From construction with any capacity, after any sequence of enqueues
  by any threads and dequeues, the destructor ends without a failed assertion, a null pointer or a slot without an
  object. It destroys the elements still in the queue, one thread after the other and those of one thread in order, so that
  every accepted element was either dequeued or destroyed, once; it destroys every producer once; and every block,
  from the initial array or allocated later, wherever it is (in a sub-queue, on the free list, never used), is released once.
\<close>

theorem destructor_releases_all:
  assumes "\<forall>m x. Enq m x \<in> set ops \<longrightarrow> env_valid (snd m)"
    and "run_ops (\<lambda>m. cq_inner_enqueue (fst m) (snd m)) cq_try_dequeue ops (ConcurrentQueue_new malloc_ok capac) = Inr (evs, q)"
  shows "\<exists>els ptrs ids ts. ConcurrentQueue_delete q = Inr (els, ptrs, ids)
    \<and> mset (accepted evs) = mset (got evs) + mset els \<and> distinct ts \<and> els = concat (map (cq_lane q) ts)
    \<and> distinct ptrs \<and> set ptrs = {..<length (producers q)} \<and> distinct ids \<and> set ids = {..<length (cblocks (blockPool q))}"
proof -
  from cq_run [OF assms(1), of malloc_ok "initial_block_count capac", folded ConcurrentQueue_new_def]
  obtain tags where run: "cq_inv q" "length tags = length (got evs)"
    "\<forall>t. accepted_by (\<lambda>m. env_thread (snd m)) t ops evs = picked t tags (got evs) @ cq_lane q t"
    unfolding assms(2) by (elim exE conjE) simp
  then obtain M xss Ls F where rep: "cq_rep q M xss Ls F" unfolding cq_inv_def by blast
  have own: "owners_ok M (length xss)" using cq_repD(3,4) [OF rep] by simp
  obtain ids where del: "ConcurrentQueue_delete q = Inr (concat (rev xss), rev [0..<length (producers q)], ids)"
    "distinct ids" "set ids = {..<length (cblocks (blockPool q))}"
    using cq_delete_rep [OF rep] by blast
  obtain ts where ts: "distinct ts" "concat (rev xss) = concat (map (cq_lane q) ts)" "\<forall>t. t \<notin> set ts \<longrightarrow> cq_lane q t = []"
    using lanes_concat [OF own] unfolding cq_lane_rep [OF rep] by blast
  have "mset (accepted evs) = (\<Sum>t \<in> UNIV. mset (picked t tags (got evs)) + mset (cq_lane q t))"
    unfolding mset_accepted_by [OF assms(2), where th = "\<lambda>m. env_thread (snd m)", symmetric] run(3) [rule_format] by simp
  also have "\<dots> = mset (got evs) + mset (concat (rev xss))"
    unfolding ts(2) mset_concat_lanes [OF ts(1,3)] by (simp add: sum.distrib mset_picked [OF run(2)])
  finally show ?thesis using del ts(1,2) by (intro exI conjI) (assumption | simp add: atLeast0LessThan)+
qed

theorem destructor_releases_all_witness:
  "\<exists>q els ptrs ids. run_ops (\<lambda>m. cq_inner_enqueue (fst m) (snd m)) cq_try_dequeue
      [Enq (Can_alloc, 64, (True, True, True), True, True) (7 :: nat)] (ConcurrentQueue_new True 256) = Inr ([Accepted 7], q)
    \<and> ConcurrentQueue_delete q = Inr (els, ptrs, ids) \<and> mset els = {#7#} \<and> distinct ids"
proof -
  obtain q where q: "run_ops (\<lambda>m. cq_inner_enqueue (fst m) (snd m)) cq_try_dequeue
      [Enq (Can_alloc, 64, (True, True, True), True, True) (7 :: nat)] (ConcurrentQueue_new True 256) = Inr ([Accepted 7], q)"
    using sample_enqueue(1) [of "7 :: nat"] by (elim exE) (rule that)
  from destructor_releases_all [OF sample_enqueue(2) q]
  obtain els ptrs ids and ts :: "u64 list" where d: "ConcurrentQueue_delete q = Inr (els, ptrs, ids)"
    "mset (accepted [Accepted (7 :: nat)]) = mset (got [Accepted (7 :: nat)]) + mset els" "distinct ids"
    by (elim exE conjE) (rule that; assumption)
  have "mset els = {#7#}" using d(2) by simp
  then show ?thesis using q d(1,3) by (intro exI conjI)
qed

end
