(* ===== verification/QueueBulkIn.thy ===== *)
theory QueueBulkIn
  imports QueueBulk
begin

text \<open>
  \<open>source/utils/concurrentqueue.h\<close>: adding several elements at once, \<open>ImplicitProducer::enqueue_bulk\<close> and
  \<open>ConcurrentQueue::enqueue_bulk\<close>. All blocks that are needed are requested first; when one cannot be had, the ones before are taken
  out of the block index and given back. The input iterator is the list of the elements it gives. The elements are of a type
  whose constructors do not throw. \<open>mem i\<close> says whether \<open>malloc\<close> would succeed for a new block index and for a new block
  when the block number \<open>i\<close> of the operation is requested.
\<close>

subsection \<open>The blocks\<close>

text \<open>
  The first loop; \<open>n\<close> counts its passes, which are at most \<open>blockBaseDiff\<close> divided by the block size. The result says whether all
  blocks were obtained, and gives the first of them.
\<close>

definition bulk_link :: "bool \<Rightarrow> nat \<Rightarrow> producer \<Rightarrow> 'a pool \<Rightarrow> cq_error + 'a pool" where
  "bulk_link linked newBlock p P =
     (if linked then
        (case tailBlock p of
           None \<Rightarrow> Inl Cq_assertion_failed
         | Some b \<Rightarrow> Inr (upd_cblock b (\<lambda>bk. bk\<lparr>block_next := Some newBlock\<rparr>) P))
      else Inr P)"

fun bulk_alloc ::
  "nat \<Rightarrow> alloc_mode \<Rightarrow> (nat \<Rightarrow> bool \<times> bool) \<Rightarrow> u64 \<Rightarrow> nat \<Rightarrow> u64 \<Rightarrow> u64 \<Rightarrow> nat option \<Rightarrow> producer \<Rightarrow> 'a pool
     \<Rightarrow> cq_error + (bool \<times> nat option) \<times> producer \<times> 'a pool" where
  "bulk_alloc 0 allocMode mem startTailIndex n blockBaseDiff currentTailIndex firstAllocatedBlock p P = Inl Cq_diverges"
| "bulk_alloc (Suc fuel) allocMode mem startTailIndex n blockBaseDiff currentTailIndex firstAllocatedBlock p P =
     (let blockBaseDiff = blockBaseDiff - BLOCK_SIZE;
          currentTailIndex = currentTailIndex + BLOCK_SIZE;
          head = headIndex p
      in if circular_less_than currentTailIndex head then Inl Cq_assertion_failed
         else if is_full head currentTailIndex then Inr ((False, firstAllocatedBlock), p, P)
         else
           bindE (insert_block_index_entry allocMode (fst (mem n)) currentTailIndex p)
             (\<lambda>(r, p). case r of
                None \<Rightarrow> Inr ((False, firstAllocatedBlock), p, P)
              | Some idxEntry \<Rightarrow>
                  bindE (requisition_block allocMode (snd (mem n)) P)
                    (\<lambda>(r, P). case r of
                       None \<Rightarrow>
                         bindE (rewind_block_index_tail p)
                           (\<lambda>p. Inr ((False, firstAllocatedBlock), store_entry_value idxEntry None p, P))
                     | Some newBlock \<Rightarrow>
                         let P = upd_cblock newBlock (\<lambda>b. (reset_empty implicit_context b)\<lparr>block_next := None\<rparr>) P;
                             p = store_entry_value idxEntry (Some newBlock) p
                         in bindE (bulk_link (startTailIndex AND (BLOCK_SIZE - 1) \<noteq> 0 \<or> firstAllocatedBlock \<noteq> None) newBlock p P)
                              (\<lambda>P.
                                 let p = p\<lparr>tailBlock := Some newBlock\<rparr>;
                                     firstAllocatedBlock = (case firstAllocatedBlock of None \<Rightarrow> Some newBlock | Some b \<Rightarrow> Some b)
                                 in if blockBaseDiff > 0
                                    then bulk_alloc fuel allocMode mem startTailIndex (Suc n) blockBaseDiff currentTailIndex
                                           firstAllocatedBlock p P
                                    else Inr ((True, firstAllocatedBlock), p, P)))))"

text \<open>Taking the blocks out of the block index again, along the links between them.\<close>

fun bulk_undo :: "nat \<Rightarrow> u64 \<Rightarrow> nat option \<Rightarrow> 'a pool \<Rightarrow> producer \<Rightarrow> cq_error + producer" where
  "bulk_undo fuel currentTailIndex None P p = Inr p"
| "bulk_undo 0 currentTailIndex (Some block) P p = Inl Cq_diverges"
| "bulk_undo (Suc fuel) currentTailIndex (Some block) P p =
     (let currentTailIndex = currentTailIndex + BLOCK_SIZE
      in bindE (get_block_index_entry_for_index currentTailIndex p)
           (\<lambda>idxEntry. bindE (rewind_block_index_tail (store_entry_value idxEntry None p))
              (\<lambda>p. bulk_undo fuel currentTailIndex (block_next (cblocks P ! block)) P p)))"

fun add_blocks_to_free_list :: "nat \<Rightarrow> nat option \<Rightarrow> 'a pool \<Rightarrow> cq_error + 'a pool" where
  "add_blocks_to_free_list fuel None P = Inr P"
| "add_blocks_to_free_list 0 (Some block) P = Inl Cq_diverges"
| "add_blocks_to_free_list (Suc fuel) (Some block) P =
     add_blocks_to_free_list fuel (block_next (cblocks P ! block)) (add_block_to_free_list block P)"

subsection \<open>The elements\<close>

text \<open>The loop \<open>while (currentTailIndex != stopIndex)\<close> over one block.\<close>

function put_elements :: "u64 \<Rightarrow> u64 \<Rightarrow> 'a list \<Rightarrow> 'a cblock \<Rightarrow> cq_error + 'a list \<times> 'a cblock" where
  "put_elements stopIndex currentTailIndex items b =
     (if currentTailIndex = stopIndex then Inr (items, b)
      else case items of
        [] \<Rightarrow> Inl Cq_bad_slot
      | item # items \<Rightarrow>
          put_elements stopIndex (currentTailIndex + 1) items
            (b\<lparr>elements := (elements b)[slot currentTailIndex := Some item]\<rparr>))"
  by pat_completeness auto

termination put_elements
  by (relation "measure (\<lambda>(stopIndex, currentTailIndex, items, b). unat (stopIndex - currentTailIndex))")
    (simp_all add: unat_distance_step)

declare put_elements.simps [simp del]

text \<open>The loop over the blocks; \<open>stopIndex\<close> is computed as \<open>endIndex\<close> is in \<open>dequeue_bulk\<close>.\<close>

definition bulk_fill :: "u64 \<Rightarrow> u64 \<Rightarrow> 'a list \<Rightarrow> producer \<Rightarrow> 'a pool \<Rightarrow> cq_error + 'a list \<times> 'a pool" where
  "bulk_fill stopIndex currentTailIndex items p P =
     (if currentTailIndex = stopIndex then Inr (items, P)
      else case tailBlock p of
        None \<Rightarrow> Inl Cq_null_pointer
      | Some b \<Rightarrow>
          bindE (put_elements stopIndex currentTailIndex items (cblocks P ! b))
            (\<lambda>(items, bk). Inr (items, upd_cblock b (\<lambda>_. bk) P)))"

fun bulk_put :: "nat \<Rightarrow> u64 \<Rightarrow> nat option \<Rightarrow> u64 \<Rightarrow> 'a list \<Rightarrow> producer \<Rightarrow> 'a pool \<Rightarrow> cq_error + producer \<times> 'a pool" where
  "bulk_put 0 newTailIndex endBlock currentTailIndex items p P = Inl Cq_diverges"
| "bulk_put (Suc fuel) newTailIndex endBlock currentTailIndex items p P =
     (let stopIndex = bulk_end newTailIndex currentTailIndex
      in bindE (bulk_fill stopIndex currentTailIndex items p P)
           (\<lambda>(items, P).
              if tailBlock p = endBlock then
                if stopIndex = newTailIndex then Inr (p, P) else Inl Cq_assertion_failed
              else case tailBlock p of
                None \<Rightarrow> Inl Cq_null_pointer
              | Some b \<Rightarrow> bulk_put fuel newTailIndex endBlock stopIndex items (p\<lparr>tailBlock := block_next (cblocks P ! b)\<rparr>) P))"

text \<open>
  \<open>enqueue_bulk\<close>. \<open>endBlock\<close> is always the tail block at the end of the first loop. The loops that follow links have as many
  passes as there are blocks, the loop that fills them one more than blocks were obtained.
\<close>

definition implicit_enqueue_bulk ::
  "alloc_mode \<Rightarrow> (nat \<Rightarrow> bool \<times> bool) \<Rightarrow> 'a list \<Rightarrow> u64 \<Rightarrow> producer \<Rightarrow> 'a pool \<Rightarrow> cq_error + bool \<times> producer \<times> 'a pool" where
  "implicit_enqueue_bulk allocMode mem items cnt p P =
     (let startTailIndex = tailIndex p;
          startBlock = tailBlock p;
          blockBaseDiff = ((startTailIndex + cnt - 1) AND NOT (BLOCK_SIZE - 1)) - ((startTailIndex - 1) AND NOT (BLOCK_SIZE - 1));
          currentTailIndex = (startTailIndex - 1) AND NOT (BLOCK_SIZE - 1);
          passes = unat blockBaseDiff div unat BLOCK_SIZE
      in bindE (if blockBaseDiff > 0
                then bulk_alloc passes allocMode mem startTailIndex 0 blockBaseDiff currentTailIndex None p P
                else Inr ((True, None), p, P))
           (\<lambda>((ok, firstAllocatedBlock), p, P).
              if \<not> ok then
                bindE (bulk_undo (length (cblocks P)) currentTailIndex firstAllocatedBlock P p)
                  (\<lambda>p. bindE (add_blocks_to_free_list (length (cblocks P)) firstAllocatedBlock P)
                     (\<lambda>P. Inr (False, p\<lparr>tailBlock := startBlock\<rparr>, P)))
              else
                let endBlock = tailBlock p;
                    newTailIndex = startTailIndex + cnt
                in if \<not> (startTailIndex AND (BLOCK_SIZE - 1) \<noteq> 0 \<or> firstAllocatedBlock \<noteq> None \<or> cnt = 0) then Inl Cq_assertion_failed
                   else
                     let p = p\<lparr>tailBlock := (if startTailIndex AND (BLOCK_SIZE - 1) = 0 \<and> firstAllocatedBlock \<noteq> None
                                             then firstAllocatedBlock else startBlock)\<rparr>
                     in bindE (bulk_put (Suc passes) newTailIndex endBlock startTailIndex items p P)
                          (\<lambda>(p, P). Inr (True, p\<lparr>tailIndex := newTailIndex\<rparr>, P))))"

text \<open>The queue; the environment is that of an enqueue, with \<open>mem\<close> for the blocks.\<close>

definition cq_inner_enqueue_bulk ::
  "alloc_mode \<Rightarrow> u64 \<Rightarrow> bool \<times> bool \<times> bool \<Rightarrow> (nat \<Rightarrow> bool \<times> bool) \<Rightarrow> 'a list \<Rightarrow> u64 \<Rightarrow> 'a cqueue \<Rightarrow> cq_error + bool \<times> 'a cqueue" where
  "cq_inner_enqueue_bulk canAlloc tid penv mem items cnt q =
     bindE (get_or_add_implicit_producer tid penv q)
       (\<lambda>(producer, q). case producer of
          None \<Rightarrow> Inr (False, q)
        | Some ptr \<Rightarrow>
            bindE (implicit_enqueue_bulk canAlloc mem items cnt (node_prod (producers q ! ptr)) (blockPool q))
              (\<lambda>(b, p, P). Inr (b, set_producer ptr p P q)))"

definition cq_enqueue_bulk ::
  "u64 \<Rightarrow> bool \<times> bool \<times> bool \<Rightarrow> (nat \<Rightarrow> bool \<times> bool) \<Rightarrow> 'a list \<Rightarrow> u64 \<Rightarrow> 'a cqueue \<Rightarrow> cq_error + bool \<times> 'a cqueue" where
  "cq_enqueue_bulk tid penv mem items cnt q =
     (if INITIAL_IMPLICIT_PRODUCER_HASH_SIZE = 0 then Inr (False, q) else cq_inner_enqueue_bulk Can_alloc tid penv mem items cnt q)"

definition cq_try_enqueue_bulk ::
  "u64 \<Rightarrow> bool \<times> bool \<times> bool \<Rightarrow> (nat \<Rightarrow> bool \<times> bool) \<Rightarrow> 'a list \<Rightarrow> u64 \<Rightarrow> 'a cqueue \<Rightarrow> cq_error + bool \<times> 'a cqueue" where
  "cq_try_enqueue_bulk tid penv mem items cnt q =
     (if INITIAL_IMPLICIT_PRODUCER_HASH_SIZE = 0 then Inr (False, q) else cq_inner_enqueue_bulk Cannot_alloc tid penv mem items cnt q)"

subsection \<open>Filling one block\<close>

lemma slots_hold_snoc:
  assumes "slots_hold es H xs k" "(H + length xs) div 32 = k"
  shows "slots_hold (es[(H + length xs) mod 32 := Some x]) H (xs @ [x]) k"
proof -
  define T where "T = H + length xs"
  have T: "32 * k + T mod 32 = T" "T mod 32 < 32" using assms(2) by (auto simp: T_def)
  have o: "length es = 32" "\<And>s. s < 32 \<Longrightarrow> es ! s = (if H \<le> 32 * k + s \<and> 32 * k + s < H + length xs then Some (xs ! (32 * k + s - H)) else None)"
    using assms(1) by (auto simp: slots_hold_def)
  have "es[T mod 32 := Some x] ! s
      = (if H \<le> 32 * k + s \<and> 32 * k + s < H + length (xs @ [x]) then Some ((xs @ [x]) ! (32 * k + s - H)) else None)"
    if s: "s < 32" for s
  proof (cases "s = T mod 32")
    case True
    then have "32 * k + s = T" using T(1) by simp
    then show ?thesis using o(1) T(2) True by (simp add: T_def nth_append)
  next
    case False
    then have "32 * k + s \<noteq> H + length xs" using T(1) unfolding T_def by linarith
    then show ?thesis using o(2) [OF s] False by (auto simp: nth_append)
  qed
  then show ?thesis using o(1) by (simp add: slots_hold_def T_def)
qed

lemma slots_hold_other:
  assumes "slots_hold es H xs k" "H + length xs + length zs \<le> 32 * k \<or> 32 * k + 32 \<le> H + length xs"
  shows "slots_hold es H (xs @ zs) k"
  using assms by (auto simp: slots_hold_def nth_append)

lemma put_elements_rep:
  assumes "slots_hold (elements b) H xs k" "32 * k \<le> H + length xs" "H + length xs + j \<le> 32 * k + 32" "j \<le> length items"
  shows "\<exists>es. put_elements (of_nat (H + length xs + j)) (of_nat (H + length xs)) items b = Inr (drop j items, b\<lparr>elements := es\<rparr>)
    \<and> slots_hold es H (xs @ take j items) k"
  using assms
proof (induction j arbitrary: xs items b)
  case 0
  show ?case by (intro exI [of _ "elements b"]) (use 0 in \<open>simp add: put_elements.simps\<close>)
next
  case (Suc j)
  obtain y ys where ys: "items = y # ys" using Suc.prems(4) by (cases items) auto
  define T where "T = H + length xs"
  have k: "T div 32 = k" using Suc.prems(2,3) unfolding T_def by (intro div_nat_eqI) simp_all
  have neq: "(of_nat T :: u64) \<noteq> of_nat (T + Suc j)" using Suc.prems(2,3) unfolding T_def by (intro of_nat_word_neq) auto
  let ?b = "b\<lparr>elements := (elements b)[T mod 32 := Some y]\<rparr>"
  have len: "H + length (xs @ [y]) = Suc T" by (simp add: T_def)
  obtain es where es: "put_elements (of_nat (Suc T + j)) (of_nat (Suc T)) ys ?b = Inr (drop j ys, ?b\<lparr>elements := es\<rparr>)"
    "slots_hold es H ((xs @ [y]) @ take j ys) k"
    using Suc.IH [of ?b "xs @ [y]" ys] slots_hold_snoc [OF Suc.prems(1) k [unfolded T_def], of y] Suc.prems(2-4) ys
    unfolding len by (auto simp: T_def)
  have "put_elements (of_nat (T + Suc j)) (of_nat T) items b = Inr (drop j ys, b\<lparr>elements := es\<rparr>)"
    by (subst put_elements.simps) (use neq es(1) ys slot_of_nat [of T] in \<open>simp add: add.commute [of 1]\<close>)
  then show ?case using es(2) ys unfolding T_def by (intro exI [of _ es]) simp
qed

subsection \<open>Undoing insertions into the block index\<close>

lemma ring_back_add:
  assumes "t < n" "i + j \<le> n"
  shows "ring_back n (ring_back n t j) i = ring_back n t (i + j)"
proof -
  have "(t + n - j) mod n + n - i = (t + n - j) mod n + (n - i)" using assms by simp
  then have "ring_back n (ring_back n t j) i = (t + n - j + (n - i)) mod n" unfolding ring_back_def by (simp add: mod_add_left_eq)
  also have "t + n - j + (n - i) = (t + n - (i + j)) + n" using assms by simp
  finally show ?thesis by (simp add: ring_back_def)
qed

lemma ring_back_wrap:
  assumes "t < n" "i < n" "j \<le> n" "n \<le> i + j"
  shows "ring_back n (ring_back n t j) i = ring_back n t (i + j - n)"
proof -
  have "(t + n - j) mod n + n - i = (t + n - j) mod n + (n - i)" using assms by simp
  then have "ring_back n (ring_back n t j) i = (t + n - j + (n - i)) mod n" unfolding ring_back_def by (simp add: mod_add_left_eq)
  also have "t + n - j + (n - i) = t + n - (i + j - n)" using assms by simp
  finally show ?thesis by (simp add: ring_back_def)
qed

lemma ring_back_forward:
  assumes "t < n" "j \<le> n" "d \<le> j"
  shows "(ring_back n t j + d) mod n = ring_back n t (j - d)"
proof -
  have "(ring_back n t j + d) mod n = (t + n - j + d) mod n" unfolding ring_back_def by (simp add: mod_add_left_eq)
  also have "t + n - j + d = t + n - (j - d)" using assms by simp
  finally show ?thesis by (simp add: ring_back_def)
qed

text \<open>The entry of a block later than the one at the tail.\<close>

lemma ring_offset_forward:
  assumes m: "unat (cap - 1) + 1 = 2 ^ c" and c: "c \<le> 59" and d: "d < 2 ^ c"
  shows "unat (((t :: u64) + (of_nat (32 * (b + d)) - of_nat (32 * b)) div BLOCK_SIZE) AND (cap - 1)) = (unat t + d) mod 2 ^ c"
proof -
  have "d < 2 ^ 59" using d c by (meson less_le_trans one_le_numeral power_increasing)
  then have "32 * d < 2 ^ 64" by simp
  then have u: "unat (of_nat (32 * d) :: u64) = 32 * d" by (simp add: unat_of_nat del: of_nat_mult)
  have "(of_nat (32 * (b + d)) - of_nat (32 * b) :: u64) = of_nat (32 * d)" by simp
  then have "unat ((of_nat (32 * (b + d)) - of_nat (32 * b) :: u64) div BLOCK_SIZE) = d"
    using u by (simp only: unat_div BLOCK_SIZE_nat)
  then have "(of_nat (32 * (b + d)) - of_nat (32 * b) :: u64) div BLOCK_SIZE = of_nat d"
    by (metis of_nat_unat ucast_id)
  then show ?thesis using unat_add_and_pow2 [OF m, of t d] by simp
qed

text \<open>
  The index \<open>h\<close> had the blocks \<open>K ..< N\<close>, its tail was at \<open>t\<close>; those from \<open>N0\<close> on are taken out again, and \<open>j\<close> of them are
  out already. Their entries keep their keys, so the entry at the tail can still be used for lookups.
\<close>

definition undoing ::
  "nat \<Rightarrow> producer \<Rightarrow> block_index \<Rightarrow> nat \<Rightarrow> nat \<Rightarrow> nat \<Rightarrow> nat \<Rightarrow> nat \<Rightarrow> (nat \<Rightarrow> nat) \<Rightarrow> bool" where
  "undoing c p h t K N0 N j blk \<longleftrightarrow>
     (\<exists>t'. blockIndex p = Some (h\<lparr>bi_tail := t'\<rparr>) \<and> unat t' = ring_back (2 ^ c) t j)
     \<and> 1 \<le> c \<and> c \<le> 59 \<and> unat (capacity h) = 2 ^ c \<and> unat (nextBlockIndexCapacity p) = 2 ^ Suc c
     \<and> length (bi_index h) = 2 ^ c \<and> distinct (bi_index h) \<and> set (bi_index h) \<subseteq> {..<length (entries p)}
     \<and> t < 2 ^ c \<and> K \<le> N0 \<and> N0 + j \<le> N \<and> N - K \<le> 2 ^ c
     \<and> (\<forall>k. K \<le> k \<and> k < N \<longrightarrow> entries p ! (bi_index h ! ring_back (2 ^ c) t (N - 1 - k))
            = Entry (of_nat (32 * k)) (if N0 \<le> k \<and> k < N0 + j then None else Some (blk k)))
     \<and> (\<forall>i. N - K \<le> i \<and> i < 2 ^ c \<longrightarrow> entry_free (entries p ! (bi_index h ! ring_back (2 ^ c) t i)))"

lemma undoing_start:
  assumes rep: "index_rep c p K N blk" and N0: "K \<le> N0" "N0 \<le> N"
  shows "\<exists>h t. undoing c p h t K N0 N 0 blk"
proof -
  obtain h where a: "1 \<le> c" "c \<le> 59" "blockIndex p = Some h" "unat (capacity h) = 2 ^ c"
    "unat (nextBlockIndexCapacity p) = 2 ^ Suc c"
    "length (bi_index h) = 2 ^ c" "distinct (bi_index h)" "set (bi_index h) \<subseteq> {..<length (entries p)}"
    "unat (bi_tail h) < 2 ^ c" "K \<le> N" "N - K \<le> 2 ^ c"
    "\<And>k. K \<le> k \<Longrightarrow> k < N \<Longrightarrow> index_at p h (2 ^ c) (N - 1 - k) = Entry (of_nat (32 * k)) (Some (blk k))"
    "\<And>j. N - K \<le> j \<Longrightarrow> j < 2 ^ c \<Longrightarrow> entry_free (index_at p h (2 ^ c) j)"
    using index_repE [OF rep] by metis
  have "\<exists>t'. blockIndex p = Some (h\<lparr>bi_tail := t'\<rparr>) \<and> unat t' = ring_back (2 ^ c) (unat (bi_tail h)) 0"
    using a(3) ring_back_0 [OF a(9)] by (intro exI [of _ "bi_tail h"]) simp
  then have "undoing c p h (unat (bi_tail h)) K N0 N 0 blk"
    unfolding undoing_def using a(1,2,4-9,11) a(12,13) [unfolded index_at_def] N0 by auto
  then show ?thesis by blast
qed

lemma undoing_lookup:
  assumes u: "undoing c p h t K N0 N j blk" and j: "N0 + j < N"
  defines "i \<equiv> ring_back (2 ^ c) t (N - 1 - (N0 + j))"
  shows "get_block_index_entry_for_index (of_nat (32 * (N0 + j))) p = Inr (bi_index h ! i)"
proof -
  obtain t' where t': "blockIndex p = Some (h\<lparr>bi_tail := t'\<rparr>)" "unat t' = ring_back (2 ^ c) t j"
    using u unfolding undoing_def by blast
  have a: "c \<le> 59" "unat (capacity h) = 2 ^ c" "t < 2 ^ c" "K \<le> N0" "N - K \<le> 2 ^ c"
    "\<And>k. K \<le> k \<Longrightarrow> k < N \<Longrightarrow> entries p ! (bi_index h ! ring_back (2 ^ c) t (N - 1 - k))
            = Entry (of_nat (32 * k)) (if N0 \<le> k \<and> k < N0 + j then None else Some (blk k))"
    using u unfolding undoing_def by auto
  define n :: nat where "n = 2 ^ c"
  define k where "k = N0 + j"
  define b where "b = N - 1 - j"
  have k: "K \<le> k" "k < N" "K \<le> b" "b < N" "N - 1 - b = j" using a(4) j by (auto simp: k_def b_def)
  have tail: "entry_key (entries p ! (bi_index h ! unat t')) = of_nat (32 * b)"
    unfolding t'(2) using a(6) [OF k(3,4)] k(5) by simp
  have at: "entries p ! (bi_index h ! i) = Entry (of_nat (32 * k)) (Some (blk k))"
    using a(6) [OF k(1,2)] by (simp add: i_def k_def)
  have m: "unat (capacity h - 1) + 1 = 2 ^ c" by (rule mask_capacity [OF a(2)])
  have jn: "j < 2 ^ c" "N - 1 - k < 2 ^ c" using a(4,5) j by (auto simp: k_def)
  have off: "unat (t' + (of_nat (32 * k) - of_nat (32 * b)) div BLOCK_SIZE AND capacity h - 1) = i"
  proof (cases "k \<le> b")
    case True
    have "unat (t' + (of_nat (32 * k) - of_nat (32 * b)) div BLOCK_SIZE AND capacity h - 1) = ring_back (2 ^ c) (unat t') (b - k)"
      using True jn(2) k(4) by (intro ring_offset [OF m a(1)]) (simp_all add: b_def)
    also have "\<dots> = ring_back (2 ^ c) t (b - k + j)"
      unfolding t'(2) using jn(2) True k by (intro ring_back_add [OF a(3)]) (simp add: b_def)
    also have "b - k + j = N - 1 - (N0 + j)" using True k by (simp add: b_def k_def)
    finally show ?thesis by (simp add: i_def)
  next
    case False
    define d where "d = k - b"
    have d: "k = b + d" "d \<le> j" using False k(2,4,5) unfolding d_def by linarith+
    have "unat (t' + (of_nat (32 * k) - of_nat (32 * b)) div BLOCK_SIZE AND capacity h - 1) = (unat t' + d) mod 2 ^ c"
      unfolding d(1) using d(2) jn(1) by (intro ring_offset_forward [OF m a(1)]) simp
    also have "\<dots> = ring_back (2 ^ c) t (j - d)" unfolding t'(2) using jn(1) d(2) by (intro ring_back_forward [OF a(3)]) simp_all
    also have "j - d = N - 1 - (N0 + j)" using d k by (simp add: b_def k_def)
    finally show ?thesis by (simp add: i_def)
  qed
  have bb: "(of_nat (32 * k) :: u64) AND NOT (BLOCK_SIZE - 1) = of_nat (32 * k)" using block_base [of "32 * k"] by simp
  have sel: "bi_tail (h\<lparr>bi_tail := t'\<rparr>) = t'" "bi_index (h\<lparr>bi_tail := t'\<rparr>) = bi_index h" "capacity (h\<lparr>bi_tail := t'\<rparr>) = capacity h"
    by simp_all
  have "get_block_index_index_for_index (of_nat (32 * k)) p = Inr i"
    unfolding get_block_index_index_for_index_def Let_def t'(1) option.simps bb sel tail off
    using at key_valid [of b] by (simp del: of_nat_mult)
  then show ?thesis using t'(1) by (simp add: get_block_index_entry_for_index_def k_def)
qed

lemma undoing_step:
  assumes u: "undoing c p h t K N0 N j blk" and j: "N0 + j < N"
  shows "\<exists>e p'. get_block_index_entry_for_index (of_nat (32 * (N0 + j))) p = Inr e
    \<and> rewind_block_index_tail (store_entry_value e None p) = Inr p' \<and> undoing c p' h t K N0 N (Suc j) blk \<and> same_positions p p'"
proof -
  obtain t' where t': "blockIndex p = Some (h\<lparr>bi_tail := t'\<rparr>)" "unat t' = ring_back (2 ^ c) t j"
    using u unfolding undoing_def by blast
  have a: "1 \<le> c" "c \<le> 59" "unat (capacity h) = 2 ^ c" "unat (nextBlockIndexCapacity p) = 2 ^ Suc c"
    "length (bi_index h) = 2 ^ c" "distinct (bi_index h)" "set (bi_index h) \<subseteq> {..<length (entries p)}"
    "t < 2 ^ c" "K \<le> N0" "N - K \<le> 2 ^ c"
    "\<And>k. K \<le> k \<Longrightarrow> k < N \<Longrightarrow> entries p ! (bi_index h ! ring_back (2 ^ c) t (N - 1 - k))
            = Entry (of_nat (32 * k)) (if N0 \<le> k \<and> k < N0 + j then None else Some (blk k))"
    "\<And>i. N - K \<le> i \<Longrightarrow> i < 2 ^ c \<Longrightarrow> entry_free (entries p ! (bi_index h ! ring_back (2 ^ c) t i))"
    using u unfolding undoing_def by auto
  define k where "k = N0 + j"
  define d where "d = N - 1 - k"
  define e where "e = bi_index h ! ring_back (2 ^ c) t d"
  have k: "K \<le> k" "k < N" "d < 2 ^ c" "d < N - K" using a(9,10) j by (auto simp: k_def d_def)
  have ge: "get_block_index_entry_for_index (of_nat (32 * (N0 + j))) p = Inr e"
    using undoing_lookup [OF u j] by (simp add: e_def d_def k_def)
  define t'' where "t'' = (t' - 1) AND (capacity h - 1)"
  have m: "unat (capacity h - 1) + 1 = 2 ^ c" by (rule mask_capacity [OF a(3)])
  have jn: "Suc j \<le> 2 ^ c" using a(9,10) j by linarith
  have tail: "unat t'' = ring_back (2 ^ c) t (Suc j)"
  proof -
    have m1: "t' - 1 = t' + of_nat (2 ^ 64 - 1)" by simp
    have "unat t'' = (unat t' + (2 ^ 64 - 1)) mod 2 ^ c" unfolding t''_def m1 by (rule unat_add_and_pow2 [OF m])
    also have "\<dots> = (unat t' + (2 ^ c - 1)) mod 2 ^ c"
    proof -
      obtain q where q: "(2 :: nat) ^ 64 = 2 ^ c * q" using le_imp_power_dvd [of c 64 "2 :: nat"] a(2) by (auto elim: dvdE)
      then have "q \<noteq> 0" by (metis mult_0_right power_not_zero zero_neq_numeral)
      then obtain r where r: "q = Suc r" using not0_implies_Suc by blast
      have "(1 :: nat) \<le> 2 ^ c" "(2 :: nat) ^ 64 = 2 ^ c + 2 ^ c * r" using q r by simp_all
      then have "unat t' + (2 ^ 64 - 1) = (unat t' + (2 ^ c - 1)) + 2 ^ c * r" by linarith
      then show ?thesis by simp
    qed
    also have "\<dots> = ring_back (2 ^ c) (unat t') 1" by (simp add: ring_back_def)
    also have "\<dots> = ring_back (2 ^ c) t (Suc j)" unfolding t'(2) using ring_back_add [OF a(8), of 1 j] jn by simp
    finally show ?thesis .
  qed
  define p' where "p' = (store_entry_value e None p)\<lparr>blockIndex := Some (h\<lparr>bi_tail := t''\<rparr>)\<rparr>"
  have rw: "rewind_block_index_tail (store_entry_value e None p) = Inr p'"
    using t'(1) by (simp add: rewind_block_index_tail_def store_entry_value_def p'_def t''_def)
  have at: "entries p ! e = Entry (of_nat (32 * k)) (Some (blk k))" using a(11) [OF k(1,2)] by (simp add: e_def d_def k_def)
  have upd: "entries p' ! (bi_index h ! ring_back (2 ^ c) t i) = (if d = i then Entry (of_nat (32 * k)) None else entries p ! (bi_index h ! ring_back (2 ^ c) t i))"
    if "i < 2 ^ c" for i
    using index_at_upd [OF a(6,5,7,8) k(3) that, of "Entry (of_nat (32 * k)) None"] at
    by (simp add: p'_def store_entry_value_def e_def del: of_nat_mult)
  have "undoing c p' h t K N0 N (Suc j) blk"
    unfolding undoing_def
  proof (intro conjI allI impI)
    show "\<exists>t'. blockIndex p' = Some (h\<lparr>bi_tail := t'\<rparr>) \<and> unat t' = ring_back (2 ^ c) t (Suc j)"
      using tail by (intro exI [of _ t'']) (simp add: p'_def)
    show "entries p' ! (bi_index h ! ring_back (2 ^ c) t (N - 1 - l)) = Entry (of_nat (32 * l)) (if N0 \<le> l \<and> l < N0 + Suc j then None else Some (blk l))"
      if l: "K \<le> l \<and> l < N" for l
    proof -
      have "N - 1 - l < 2 ^ c" using l a(10) by linarith
      moreover have "d = N - 1 - l \<longleftrightarrow> l = k" using l k(2) by (auto simp: d_def)
      ultimately show ?thesis using upd [of "N - 1 - l"] a(11) [of l] l by (auto simp: k_def)
    qed
    show "entry_free (entries p' ! (bi_index h ! ring_back (2 ^ c) t i))" if "N - K \<le> i \<and> i < 2 ^ c" for i
      using upd [of i] that k(4) a(12) [of i] by auto
  qed (use a j in \<open>simp_all add: p'_def store_entry_value_def\<close>)
  moreover have "same_positions p p'" by (simp add: same_positions_def p'_def store_entry_value_def)
  ultimately show ?thesis using ge rw by blast
qed

lemma undoing_end:
  assumes u: "undoing c p h t K N0 N (N - N0) blk" and N0: "N0 \<le> N"
  shows "index_rep c p K N0 blk"
proof -
  define j where "j = N - N0"
  obtain t' where t': "blockIndex p = Some (h\<lparr>bi_tail := t'\<rparr>)" "unat t' = ring_back (2 ^ c) t j"
    using u unfolding undoing_def j_def by blast
  have a: "1 \<le> c" "c \<le> 59" "unat (capacity h) = 2 ^ c" "unat (nextBlockIndexCapacity p) = 2 ^ Suc c"
    "length (bi_index h) = 2 ^ c" "distinct (bi_index h)" "set (bi_index h) \<subseteq> {..<length (entries p)}"
    "t < 2 ^ c" "K \<le> N0" "N - K \<le> 2 ^ c"
    "\<And>k. K \<le> k \<Longrightarrow> k < N \<Longrightarrow> entries p ! (bi_index h ! ring_back (2 ^ c) t (N - 1 - k))
            = Entry (of_nat (32 * k)) (if N0 \<le> k \<and> k < N0 + j then None else Some (blk k))"
    "\<And>i. N - K \<le> i \<Longrightarrow> i < 2 ^ c \<Longrightarrow> entry_free (entries p ! (bi_index h ! ring_back (2 ^ c) t i))"
    using u unfolding undoing_def j_def by auto
  have jn: "j \<le> 2 ^ c" using a(9,10) by (simp add: j_def)
  show ?thesis
  proof (rule index_repI [where h = "h\<lparr>bi_tail := t'\<rparr>"])
    show "index_at p (h\<lparr>bi_tail := t'\<rparr>) (2 ^ c) (N0 - 1 - k) = Entry (of_nat (32 * k)) (Some (blk k))" if k: "K \<le> k" "k < N0" for k
    proof -
      have "ring_back (2 ^ c) (unat t') (N0 - 1 - k) = ring_back (2 ^ c) t (N0 - 1 - k + j)"
        unfolding t'(2) using k a(10) N0 by (intro ring_back_add [OF a(8)]) (simp add: j_def)
      also have "N0 - 1 - k + j = N - 1 - k" using k N0 by (simp add: j_def)
      finally show ?thesis using a(11) [of k] k N0 by (simp add: index_at_def)
    qed
    show "entry_free (index_at p (h\<lparr>bi_tail := t'\<rparr>) (2 ^ c) i)" if i: "N0 - K \<le> i" "i < 2 ^ c" for i
    proof (cases "i + j < 2 ^ c")
      case True
      then have "ring_back (2 ^ c) (unat t') i = ring_back (2 ^ c) t (i + j)"
        unfolding t'(2) by (intro ring_back_add [OF a(8)]) simp
      moreover have "N - K \<le> i + j" using i(1) a(9) N0 by (simp add: j_def)
      ultimately show ?thesis using a(12) [of "i + j"] True by (simp add: index_at_def)
    next
      case False
      define l where "l = i + j - 2 ^ c"
      define k where "k = N - 1 - l"
      have l: "ring_back (2 ^ c) (unat t') i = ring_back (2 ^ c) t l" "l < j"
        unfolding t'(2) l_def using False i(2) jn by (simp_all add: ring_back_wrap [OF a(8)])
      then have k: "N0 \<le> k" "k < N0 + j" "k < N" "N - 1 - k = l" using N0 by (auto simp: j_def k_def)
      then have "entries p ! (bi_index h ! ring_back (2 ^ c) t l) = Entry (of_nat (32 * k)) None" using a(11) [of k] a(9) by simp
      then show ?thesis using l(1) by (simp add: index_at_def entry_free_def)
    qed
    show "unat (bi_tail (h\<lparr>bi_tail := t'\<rparr>)) < 2 ^ c" using t'(2) ring_back_less [of "2 ^ c" t j] by simp
  qed (use a t' N0 in simp_all)
qed

text \<open>The new blocks \<open>N0 ..< N\<close> are linked in order.\<close>

definition linked :: "'a pool \<Rightarrow> (nat \<Rightarrow> nat) \<Rightarrow> nat \<Rightarrow> nat \<Rightarrow> bool" where
  "linked P blk N0 N \<longleftrightarrow> (\<forall>k. N0 \<le> k \<and> k < N \<longrightarrow> block_next (cblocks P ! blk k) = (if Suc k < N then Some (blk (Suc k)) else None))"

lemma linkedD: "linked P blk N0 N \<Longrightarrow> N0 \<le> k \<Longrightarrow> k < N \<Longrightarrow> block_next (cblocks P ! blk k) = (if Suc k < N then Some (blk (Suc k)) else None)"
  unfolding linked_def by blast

lemma bulk_undo_rep:
  assumes "undoing c p h t K N0 N j blk" "linked P blk N0 N" "N - (N0 + j) \<le> fuel" "N0 + j \<le> N"
  shows "\<exists>p'. bulk_undo fuel (of_nat (32 * (N0 + j)) - BLOCK_SIZE) (if N0 + j < N then Some (blk (N0 + j)) else None) P p = Inr p'
    \<and> undoing c p' h t K N0 N (N - N0) blk \<and> same_positions p p'"
  using assms
proof (induction fuel arbitrary: p j)
  case 0
  then have "N0 + j = N" by simp
  then have "N - N0 = j" by simp
  then show ?case using 0(1) \<open>N0 + j = N\<close> by (intro exI [of _ p]) (simp add: same_positions_def)
next
  case (Suc fuel)
  show ?case
  proof (cases "N0 + j < N")
    case False
    then have "N - N0 = j" using Suc.prems(4) by simp
    then show ?thesis using Suc.prems(1) False by (intro exI [of _ p]) (simp add: same_positions_def)
  next
    case True
    obtain e p1 where one: "get_block_index_entry_for_index (of_nat (32 * (N0 + j))) p = Inr e"
      "rewind_block_index_tail (store_entry_value e None p) = Inr p1" "undoing c p1 h t K N0 N (Suc j) blk" "same_positions p p1"
      using undoing_step [OF Suc.prems(1) True] by blast
    obtain p2 where two: "bulk_undo fuel (of_nat (32 * (N0 + Suc j)) - BLOCK_SIZE) (if N0 + Suc j < N then Some (blk (N0 + Suc j)) else None) P p1 = Inr p2"
      "undoing c p2 h t K N0 N (N - N0) blk" "same_positions p1 p2"
      using Suc.IH [OF one(3) Suc.prems(2)] Suc.prems(3) True by force
    have nx: "block_next (cblocks P ! blk (N0 + j)) = (if N0 + Suc j < N then Some (blk (N0 + Suc j)) else None)"
      using linkedD [OF Suc.prems(2), of "N0 + j"] True by simp
    have cur: "of_nat (32 * (N0 + j)) - BLOCK_SIZE + BLOCK_SIZE = of_nat (32 * (N0 + j))" by simp
    have cur': "(of_nat (32 * (N0 + Suc j)) - BLOCK_SIZE :: u64) = of_nat (32 * (N0 + j))" by (simp add: BLOCK_SIZE_def)
    have "bulk_undo (Suc fuel) (of_nat (32 * (N0 + j)) - BLOCK_SIZE) (if N0 + j < N then Some (blk (N0 + j)) else None) P p = Inr p2"
      unfolding if_P [OF True] bulk_undo.simps Let_def cur nx using one(1,2) two(1) unfolding cur' by simp
    then show ?thesis using two(2) same_positions_trans [OF one(4) two(3)] by blast
  qed
qed

lemma add_blocks_rep:
  assumes "pool_rep P F" "linked P blk k0 N" "N - k0 \<le> fuel" "inj_on blk {k0..<N}"
    "\<And>k. k0 \<le> k \<Longrightarrow> k < N \<Longrightarrow> blk k \<notin> F \<and> blk k < length (cblocks P) \<and> raw_block (cblocks P ! blk k)"
  shows "\<exists>P'. add_blocks_to_free_list fuel (if k0 < N then Some (blk k0) else None) P = Inr P'
    \<and> pool_rep P' (F \<union> blk ` {k0..<N}) \<and> pool_frame (blk ` {k0..<N}) P P' \<and> length (cblocks P') = length (cblocks P)"
  using assms
proof (induction fuel arbitrary: P F k0)
  case 0
  then show ?case by (intro exI [of _ P]) simp
next
  case (Suc fuel)
  show ?case
  proof (cases "k0 < N")
    case False
    then show ?thesis using Suc.prems(1) by (intro exI [of _ P]) simp
  next
    case True
    define P1 where "P1 = add_block_to_free_list (blk k0) P"
    have b: "blk k0 \<notin> F" "blk k0 < length (cblocks P)" "raw_block (cblocks P ! blk k0)" using Suc.prems(5) [of k0] True by simp_all
    note add = pool_rep_add [OF Suc.prems(1) b, folded P1_def]
    have neq: "blk k \<noteq> blk k0" if "Suc k0 \<le> k" "k < N" for k using inj_onD [OF Suc.prems(4), of k k0] that True by auto
    have range: "{k0..<N} = insert k0 {Suc k0..<N}" using True by auto
    have "linked P1 blk (Suc k0) N" using Suc.prems(2) add(3) neq by (simp add: linked_def)
    moreover have "blk k \<notin> insert (blk k0) F \<and> blk k < length (cblocks P1) \<and> raw_block (cblocks P1 ! blk k)" if "Suc k0 \<le> k" "k < N" for k
      using Suc.prems(5) [of k] neq [OF that] add(2,3) that by simp
    moreover have "inj_on blk {Suc k0..<N}" using Suc.prems(4) unfolding range by simp
    ultimately obtain P2 where two: "add_blocks_to_free_list fuel (if Suc k0 < N then Some (blk (Suc k0)) else None) P1 = Inr P2"
      "pool_rep P2 (insert (blk k0) F \<union> blk ` {Suc k0..<N})" "pool_frame (blk ` {Suc k0..<N}) P1 P2" "length (cblocks P2) = length (cblocks P1)"
      using Suc.IH [OF add(1), of "Suc k0"] Suc.prems(3) by fastforce
    have "add_blocks_to_free_list (Suc fuel) (if k0 < N then Some (blk k0) else None) P = Inr P2"
      using two(1) True linkedD [OF Suc.prems(2) order.refl True] by (simp add: P1_def)
    moreover have "pool_frame {blk k0} P P1" using add(2,3) by (simp add: pool_frame_def)
    then have "pool_frame (blk ` {k0..<N}) P P2" using pool_frame_trans [OF _ two(3)] unfolding range by fastforce
    ultimately show ?thesis using two(2,4) add(2) unfolding range by simp
  qed
qed

subsection \<open>Obtaining the blocks\<close>

lemma prod_core_next:
  assumes "prod_core P p xs L c H N blk"
  shows "prod_core (upd_cblock b (\<lambda>bk. bk\<lparr>block_next := v\<rparr>) P) p xs L c H N blk"
proof (rule prod_coreE [OF assms], rule prod_coreI)
  assume a: "\<And>k. H div 32 \<le> k \<Longrightarrow> k < N \<Longrightarrow> blk k < length (cblocks P)"
    "\<And>k. H div 32 \<le> k \<Longrightarrow> k < N \<Longrightarrow> block_holds (cblocks P ! blk k) H xs k"
  show "blk k < length (cblocks (upd_cblock b (\<lambda>bk. bk\<lparr>block_next := v\<rparr>) P))" if "H div 32 \<le> k" "k < N" for k
    using a(1) [OF that] by simp
  show "block_holds (cblocks (upd_cblock b (\<lambda>bk. bk\<lparr>block_next := v\<rparr>) P) ! blk k) H xs k" if "H div 32 \<le> k" "k < N" for k
    using a(1,2) [OF that] by (cases "b = blk k") (simp_all add: block_holds_def)
qed

lemma pool_rep_next:
  assumes "pool_rep P F" "b \<notin> F" "b < length (cblocks P)"
  shows "pool_rep (upd_cblock b (\<lambda>bk. bk\<lparr>block_next := v\<rparr>) P) F"
  using pool_rep_wf [OF assms(1,3)] by (intro pool_rep_write [OF assms(1,2)]) (simp_all add: block_wf_def)

text \<open>
  The state between two passes: the blocks up to number \<open>N\<close> are in the index; those from the block of the tail on are linked, and
  the first new one is number \<open>N0\<close>.
\<close>

definition bulk_ready ::
  "'a pool \<Rightarrow> producer \<Rightarrow> 'a list \<Rightarrow> nat set \<Rightarrow> nat set \<Rightarrow> nat \<Rightarrow> nat \<Rightarrow> nat \<Rightarrow> (nat \<Rightarrow> nat) \<Rightarrow> nat option \<Rightarrow> bool" where
  "bulk_ready P p xs L F c H N blk first \<longleftrightarrow> prod_core P p xs L c H N blk \<and> pool_rep P F \<and> L \<inter> F = {}
     \<and> (H + length xs + 31) div 32 \<le> N \<and> linked P blk ((H + length xs + 31) div 32) N
     \<and> first = (if (H + length xs + 31) div 32 < N then Some (blk ((H + length xs + 31) div 32)) else None)
     \<and> ((H + length xs) div 32 < (H + length xs + 31) div 32 \<and> (H + length xs + 31) div 32 < N \<longrightarrow>
          block_next (cblocks P ! blk ((H + length xs) div 32)) = Some (blk ((H + length xs + 31) div 32)))
     \<and> ((H + length xs) div 32 < N \<longrightarrow> tailBlock p = Some (blk (N - 1)))"

lemma positions_blocks: "(T :: nat) div 32 = (T + 31) div 32 \<and> T mod 32 = 0 \<or> Suc (T div 32) = (T + 31) div 32 \<and> T mod 32 \<noteq> 0"
proof -
  define q r where "q = T div 32" and "r = T mod 32"
  have T: "T = 32 * q + r" "r < 32" by (simp_all add: q_def r_def)
  show ?thesis
  proof (cases "r = 0")
    case False
    then have "(T + 31) div 32 = Suc q" using T by (intro div_nat_eqI) simp_all
    then show ?thesis using False by (simp add: q_def r_def)
  qed (use T in simp)
qed

lemma alloc_frame: "pool_frame S P P1 \<Longrightarrow> n \<in> S \<or> length (cblocks P) \<le> n \<Longrightarrow> pool_frame S P (upd_cblock n f P1)"
  by (auto simp: pool_frame_def) (metis nth_list_update_neq)

lemma alloc_step:
  assumes rdy: "bulk_ready P p xs L F c H N blk first" and bound: "32 * Suc N < H + 2 ^ 63"
    and ins: "same_positions p p1" "index_rep c' (store_entry_value e (Some nb) p1) (H div 32) (Suc N) (blk(N := nb))"
    and req: "pool_rep P1 (F - {nb})" "nb < length (cblocks P1)" "raw_block (cblocks P1 ! nb)" "length (cblocks P) \<le> length (cblocks P1)"
      "\<And>m. m < length (cblocks P) \<Longrightarrow> m \<noteq> nb \<Longrightarrow> cblocks P1 ! m = cblocks P ! m"
      "nb \<in> F \<and> length (cblocks P1) = length (cblocks P) \<or> nb = length (cblocks P) \<and> length (cblocks P1) = Suc nb"
  defines "P2 \<equiv> upd_cblock nb (\<lambda>b. (reset_empty implicit_context b)\<lparr>block_next := None\<rparr>) P1"
    and "p2 \<equiv> store_entry_value e (Some nb) p1"
  shows "\<exists>P3. bulk_link ((H + length xs) mod 32 \<noteq> 0 \<or> first \<noteq> None) nb p2 P2 = Inr P3
    \<and> bulk_ready P3 (p2\<lparr>tailBlock := Some nb\<rparr>) xs (insert nb L) (F - {nb}) c' H (Suc N) (blk(N := nb)) (case first of None \<Rightarrow> Some nb | Some b \<Rightarrow> Some b)
    \<and> pool_frame (L \<union> F) P P3 \<and> insert nb L \<union> (F - {nb}) = L \<union> F \<union> {length (cblocks P)..<length (cblocks P3)}"
proof -
  define T where "T = H + length xs"
  define N0 where "N0 = (T + 31) div 32"
  have a: "prod_core P p xs L c H N blk" "pool_rep P F" "L \<inter> F = {}" "N0 \<le> N" "linked P blk N0 N"
    "first = (if N0 < N then Some (blk N0) else None)"
    "T div 32 < N0 \<Longrightarrow> N0 < N \<Longrightarrow> block_next (cblocks P ! blk (T div 32)) = Some (blk N0)" "T div 32 < N \<Longrightarrow> tailBlock p = Some (blk (N - 1))"
    using rdy by (auto simp: bulk_ready_def T_def N0_def)
  have pb: "T div 32 = N0 \<and> T mod 32 = 0 \<or> Suc (T div 32) = N0 \<and> T mod 32 \<noteq> 0" unfolding N0_def by (rule positions_blocks)
  have core: "L = blk ` {H div 32..<N}" "\<And>k. H div 32 \<le> k \<Longrightarrow> k < N \<Longrightarrow> blk k < length (cblocks P)"
    using prod_coreE [OF a(1)] by blast+
  have HT: "H div 32 \<le> T div 32" "T \<le> 32 * N" using positions_le_blocks [of T] a(4) by (auto simp: T_def N0_def div_le_mono)
  have inL: "blk k \<in> L" if "H div 32 \<le> k" "k < N" for k using that core(1) by simp
  have Ll: "\<forall>m \<in> L. m < length (cblocks P)" using core by auto
  then have nbL: "nb \<notin> L" using req(6) a(3) by auto
  have fr1: "pool_frame {nb} P P1" using req(4,5) by (simp add: pool_frame_def)
  have core1: "prod_core P1 p xs L c H N blk" using nbL by (intro prod_core_frame [OF a(1) fr1]) simp
  have core2: "prod_core (upd_cblock nb (reset_empty implicit_context) P1) (p2\<lparr>tailBlock := Some nb\<rparr>) xs (insert nb L) c' H (Suc N) (blk(N := nb))"
    unfolding p2_def using ins bound nbL req(2,3) HT(2)
    by (intro attach_block_rep [OF core1]) (simp_all add: same_positions_def store_entry_value_def T_def)
  have P2: "P2 = upd_cblock nb (\<lambda>bk. bk\<lparr>block_next := None\<rparr>) (upd_cblock nb (reset_empty implicit_context) P1)"
    using req(2) by (simp add: P2_def)
  have core3: "prod_core P2 (p2\<lparr>tailBlock := Some nb\<rparr>) xs (insert nb L) c' H (Suc N) (blk(N := nb))"
    unfolding P2 by (rule prod_core_next [OF core2])
  have rep2: "pool_rep P2 (F - {nb})"
    unfolding P2_def using pool_rep_wf [OF req(1,2)] by (intro pool_rep_write [OF req(1)]) (simp_all add: reset_empty_def block_wf_def)
  have fr2: "pool_frame (L \<union> F) P P2"
  proof -
    have "pool_frame (L \<union> F) P P1" using fr1 req(6) by (auto simp: pool_frame_def)
    then show ?thesis unfolding P2_def using req(6) by (intro alloc_frame) auto
  qed
  have at2: "cblocks P2 ! m = cblocks P ! m" if "m \<in> L" for m
  proof -
    have "m \<noteq> nb" using nbL that by auto
    then show ?thesis using req(5) [of m] Ll that by (simp add: P2_def)
  qed
  have nb2: "block_next (cblocks P2 ! nb) = None" "length (cblocks P2) = length (cblocks P1)" using req(2) by (simp_all add: P2_def)
  have sets: "insert nb L \<union> (F - {nb}) = L \<union> F \<union> {length (cblocks P)..<length (cblocks P1)}" using req(6) by auto
  have first': "(case first of None \<Rightarrow> Some nb | Some b \<Rightarrow> Some b) = Some ((blk(N := nb)) N0)" using a(4,6) by auto
  have dis: "insert nb L \<inter> (F - {nb}) = {}" using a(3) by auto
  have lnk: "(T mod 32 \<noteq> 0 \<or> first \<noteq> None) = (T div 32 < N)"
    using pb a(4,6) by (elim disjE conjE; cases "N0 < N") simp_all
  show ?thesis
  proof (cases "T div 32 < N")
    case False
    then have N: "N = N0" "T div 32 = N0" using pb a(4) by (elim disjE conjE; simp)+
    have "bulk_link (T mod 32 \<noteq> 0 \<or> first \<noteq> None) nb p2 P2 = Inr P2" unfolding lnk using False by (simp add: bulk_link_def)
    moreover have "linked P2 (blk(N := nb)) N0 (Suc N)" using N(1) nb2(1) by (auto simp: linked_def)
    ultimately show ?thesis
      using core3 rep2 dis fr2 sets N first' nb2(2)
      by (intro exI [of _ P2]) (simp add: bulk_ready_def T_def [symmetric] N0_def [symmetric])
  next
    case True
    define b where "b = blk (N - 1)"
    have tb: "tailBlock p2 = Some b" using a(8) [OF True] ins(1) by (simp add: b_def p2_def same_positions_def store_entry_value_def)
    have N1: "H div 32 \<le> N - 1" "N - 1 < N" using True HT(1) by auto
    have bL: "b \<in> L" "b \<noteq> nb" "b < length (cblocks P2)"
      using inL [OF N1] nbL core(2) [OF N1] nb2(2) req(4) by (auto simp: b_def)
    define P3 where "P3 = upd_cblock b (\<lambda>bk. bk\<lparr>block_next := Some nb\<rparr>) P2"
    have lk: "bulk_link (T mod 32 \<noteq> 0 \<or> first \<noteq> None) nb p2 P2 = Inr P3" unfolding lnk using True tb by (simp add: bulk_link_def P3_def)
    have core4: "prod_core P3 (p2\<lparr>tailBlock := Some nb\<rparr>) xs (insert nb L) c' H (Suc N) (blk(N := nb))"
      unfolding P3_def by (rule prod_core_next [OF core3])
    have rep3: "pool_rep P3 (F - {nb})"
      unfolding P3_def using bL a(3) by (intro pool_rep_next [OF rep2]) auto
    have fr3: "pool_frame (L \<union> F) P P3" unfolding P3_def using bL(1) by (intro alloc_frame [OF fr2]) simp
    have nx: "block_next (cblocks P3 ! m) = (if m = b then Some nb else block_next (cblocks P ! m))" if "m \<in> L" for m
      using at2 [OF that] bL(3) by (auto simp: P3_def)
    have inj: "blk k = b \<longleftrightarrow> k = N - 1" if "H div 32 \<le> k" "k < N" for k
    proof -
      have "inj_on blk {H div 32..<N}" using a(1) by (rule prod_coreE)
      then show ?thesis using inj_onD [of blk "{H div 32..<N}" k "N - 1"] that N1 by (auto simp: b_def)
    qed
    have "linked P3 (blk(N := nb)) N0 (Suc N)"
      unfolding linked_def
    proof (intro allI impI)
      fix k assume k: "N0 \<le> k \<and> k < Suc N"
      show "block_next (cblocks P3 ! (blk(N := nb)) k) = (if Suc k < Suc N then Some ((blk(N := nb)) (Suc k)) else None)"
      proof (cases "k = N")
        case True
        then show ?thesis using nb2(1) bL(2) by (simp add: P3_def)
      next
        case False
        then have kN: "k < N" "H div 32 \<le> k" using k HT(1) pb False by (elim disjE conjE; simp)+
        then show ?thesis
          using nx [OF inL [OF kN(2,1)]] inj [OF kN(2,1)] linkedD [OF a(5), of k] k False by auto
      qed
    qed
    moreover have "block_next (cblocks P3 ! (blk(N := nb)) (T div 32)) = Some ((blk(N := nb)) N0)" if "T div 32 < N0"
    proof -
      have m: "blk (T div 32) \<in> L" using inL [OF HT(1) True] .
      have suc: "Suc (T div 32) = N0" using that pb by (elim disjE conjE; simp)
      show ?thesis
      proof (cases "N0 < N")
        case True
        then have "T div 32 \<noteq> N - 1" using suc by simp
        then show ?thesis using nx [OF m] inj [OF HT(1)] a(7) [OF that True] that True by simp
      next
        case False
        then have "N = N0" using a(4) by simp
        then have "N - 1 = T div 32" using suc by linarith
        then have "b = blk (T div 32)" by (simp only: b_def)
        then show ?thesis using nx [OF m] that \<open>N = N0\<close> by simp
      qed
    qed
    ultimately have "bulk_ready P3 (p2\<lparr>tailBlock := Some nb\<rparr>) xs (insert nb L) (F - {nb}) c' H (Suc N) (blk(N := nb)) (case first of None \<Rightarrow> Some nb | Some b \<Rightarrow> Some b)"
      unfolding bulk_ready_def T_def [symmetric] N0_def [symmetric] first'
      using core4 rep3 dis a(4) True by simp
    then show ?thesis using lk fr3 sets nb2(2) by (intro exI [of _ P3]) (simp add: P3_def T_def)
  qed
qed

text \<open>The loop; \<open>ok\<close> is false only for a reason.\<close>

lemma not_full_bound:
  assumes "\<not> is_full (of_nat H) (of_nat B)" "H \<le> B" "B < H + 2 ^ 63"
  shows "B + 32 < H + 2 ^ 63"
proof -
  have "circular_less_than (of_nat H) (of_nat (B + 32))" using assms(1) by (simp add: is_full_def BLOCK_SIZE_def)
  then show ?thesis using circular_less_than_bound [of H "B + 32"] assms(2,3) by fastforce
qed

lemma full_bound:
  assumes "is_full (of_nat H) (of_nat B)" "H \<le> B"
  shows "H + 2 ^ 63 \<le> B + 32"
proof (rule ccontr)
  assume "\<not> H + 2 ^ 63 \<le> B + 32"
  then have "circular_less_than (of_nat H) (of_nat (B + 32))" using assms(2) by (intro circular_less_than_of_nat(1)) auto
  then show False using assms(1) by (simp add: is_full_def BLOCK_SIZE_def)
qed

definition alloc_result ::
  "alloc_mode \<Rightarrow> (nat \<Rightarrow> bool \<times> bool) \<Rightarrow> nat \<Rightarrow> 'a list \<Rightarrow> nat \<Rightarrow> nat \<Rightarrow> (nat \<Rightarrow> nat) \<Rightarrow> nat set \<Rightarrow> 'a pool
     \<Rightarrow> cq_error + (bool \<times> nat option) \<times> producer \<times> 'a pool \<Rightarrow> bool" where
  "alloc_result am mem H xs N N1 blk S P res \<longleftrightarrow> (\<exists>ok first' p' P' L' F' c' N' blk'. res = Inr ((ok, first'), p', P')
    \<and> bulk_ready P' p' xs L' F' c' H N' blk' first' \<and> (\<forall>k < N. blk' k = blk k) \<and> N \<le> N' \<and> (ok \<longrightarrow> N' = N1)
    \<and> pool_frame S P P' \<and> L' \<union> F' = S \<union> {length (cblocks P)..<length (cblocks P')}
    \<and> (ok \<or> am = Cannot_alloc \<or> (\<exists>i. \<not> fst (mem i) \<or> \<not> snd (mem i)) \<or> H + 2 ^ 63 \<le> 32 * N1))"

lemma alloc_resultI:
  assumes "res = Inr ((ok, first'), p', P')" "bulk_ready P' p' xs L' F' c' H N' blk' first'" "\<And>k. k < N \<Longrightarrow> blk' k = blk k" "N \<le> N'" "ok \<Longrightarrow> N' = N1"
    "pool_frame S P P'" "L' \<union> F' = S \<union> {length (cblocks P)..<length (cblocks P')}"
    "ok \<or> am = Cannot_alloc \<or> (\<exists>i. \<not> fst (mem i) \<or> \<not> snd (mem i)) \<or> H + 2 ^ 63 \<le> 32 * N1"
  shows "alloc_result am mem H xs N N1 blk S P res"
  unfolding alloc_result_def using assms by blast

lemma alloc_result_fail:
  assumes "res = Inr ((False, first), p', P)" "bulk_ready P p' xs L F c' H N blk first"
    "am = Cannot_alloc \<or> (\<exists>i. \<not> fst (mem i) \<or> \<not> snd (mem i)) \<or> H + 2 ^ 63 \<le> 32 * N1"
  shows "alloc_result am mem H xs N N1 blk (L \<union> F) P res"
  using assms(3) by (intro alloc_resultI [OF assms(1,2) refl order_refl _ pool_frame_refl]) simp_all

lemma alloc_result_later:
  assumes r: "alloc_result am mem H xs (Suc N) N1 (blk(N := nb)) S1 P1 res" and fr: "pool_frame S P P1" "S1 = S \<union> {length (cblocks P)..<length (cblocks P1)}"
  shows "alloc_result am mem H xs N N1 blk S P res"
proof -
  obtain ok first' p' P' L' F' c' N' blk' where a: "res = Inr ((ok, first'), p', P')" "bulk_ready P' p' xs L' F' c' H N' blk' first'"
    "\<forall>k < Suc N. blk' k = (blk(N := nb)) k" "Suc N \<le> N'" "ok \<longrightarrow> N' = N1"
    "pool_frame S1 P1 P'" "L' \<union> F' = S1 \<union> {length (cblocks P1)..<length (cblocks P')}"
    "ok \<or> am = Cannot_alloc \<or> (\<exists>i. \<not> fst (mem i) \<or> \<not> snd (mem i)) \<or> H + 2 ^ 63 \<le> 32 * N1"
    using r unfolding alloc_result_def by (elim exE conjE) (rule that; assumption)
  have le: "length (cblocks P) \<le> length (cblocks P1)" "length (cblocks P1) \<le> length (cblocks P')"
    using fr(1) a(6) by (simp_all add: pool_frame_def)
  show ?thesis
  proof (rule alloc_resultI [OF a(1,2)])
    show "blk' k = blk k" if "k < N" for k using a(3) that by simp
    show "pool_frame S P P'" using fr a(6) by (auto simp: pool_frame_def)
    show "L' \<union> F' = S \<union> {length (cblocks P)..<length (cblocks P')}" unfolding a(7) fr(2) using le by auto
  qed (use a(4,5,8) in simp_all)
qed

lemma bulk_ready_same:
  assumes "bulk_ready P p xs L F c H N blk first" "same_positions p p'" "index_rep c' p' (H div 32) N blk"
  shows "bulk_ready P p' xs L F c' H N blk first"
  using assms by (auto simp: bulk_ready_def prod_core_def same_positions_def)

lemma bulk_alloc_rep:
  assumes "bulk_ready P p xs L F c H N blk first" "N + fuel = N1" "0 < fuel" "32 * fuel < 2 ^ 64"
  shows "alloc_result am mem H xs N N1 blk (L \<union> F) P
    (bulk_alloc fuel am mem (of_nat (H + length xs)) n (of_nat (32 * fuel)) (of_nat (32 * N) - BLOCK_SIZE) first p P)"
  using assms
proof (induction fuel arbitrary: P p L F c N blk first n)
  case (Suc fuel)
  note rdy = Suc.prems(1)
  have a: "prod_core P p xs L c H N blk" "pool_rep P F" "L \<inter> F = {}" "(H + length xs + 31) div 32 \<le> N"
    using rdy by (auto simp: bulk_ready_def)
  have core: "tailIndex p = of_nat (H + length xs)" "headIndex p = of_nat H" "32 * N < H + 2 ^ 63" "index_rep c p (H div 32) N blk"
    using prod_coreE [OF a(1)] by blast+
  have HN: "H \<le> 32 * N" using positions_le_blocks [of "H + length xs"] a(4) by linarith
  have cur: "of_nat (32 * N) - BLOCK_SIZE + BLOCK_SIZE = of_nat (32 * N)" by simp
  have diff: "of_nat (32 * Suc fuel) - BLOCK_SIZE = of_nat (32 * fuel)" by (simp add: BLOCK_SIZE_def)
  have nlt: "\<not> circular_less_than (of_nat (32 * N)) (of_nat H)"
  proof (cases "H = 32 * N")
    case False
    then show ?thesis using HN core(3) by (intro circular_less_than_of_nat(2)) auto
  qed simp
  have tail: "(of_nat (H + length xs) :: u64) AND (BLOCK_SIZE - 1) \<noteq> 0 \<longleftrightarrow> (H + length xs) mod 32 \<noteq> 0"
    using slot_of_nat [of "H + length xs"] unfolding slot_def by (metis unat_eq_0)
  define res where "res = bulk_alloc (Suc fuel) am mem (of_nat (H + length xs)) n (of_nat (32 * Suc fuel)) (of_nat (32 * N) - BLOCK_SIZE) first p P"
  have "alloc_result am mem H xs N N1 blk (L \<union> F) P res"
  proof (cases "is_full (of_nat H) (of_nat (32 * N))")
    case True
    then have "res = Inr ((False, first), p, P)"
      unfolding res_def bulk_alloc.simps Let_def cur diff core(2) using nlt by (simp del: of_nat_mult)
    moreover have "H + 2 ^ 63 \<le> 32 * N1" using full_bound [OF True HN] Suc.prems(2) by linarith
    ultimately show ?thesis by (intro alloc_result_fail [OF _ rdy]) simp_all
  next
    case nfull: False
    have bound: "32 * Suc N < H + 2 ^ 63" using not_full_bound [OF nfull HN core(3)] by simp
    have "H < 32 * (H div 32) + 32" by (metis add.commute dividend_less_times_div mult.commute zero_less_numeral)
    then have live: "N - H div 32 < 2 ^ 58" using bound by simp
    obtain r p1 where ins: "insert_block_index_entry am (fst (mem n)) (of_nat (32 * N)) p = Inr (r, p1)" "same_positions p p1"
        "case r of
         None \<Rightarrow> p1 = p \<and> (am = Cannot_alloc \<or> \<not> fst (mem n))
       | Some e \<Rightarrow> \<exists>c'. (\<forall>nb. index_rep c' (store_entry_value e (Some nb) p1) (H div 32) (Suc N) (blk(N := nb)))
           \<and> (\<exists>p2. rewind_block_index_tail p1 = Inr p2 \<and> index_rep c' (store_entry_value e None p2) (H div 32) N blk
                \<and> same_positions p (store_entry_value e None p2))"
      using insert_rep [OF core(4) live] by blast
    show ?thesis
    proof (cases r)
      case None
      then have "res = Inr ((False, first), p, P)"
        unfolding res_def bulk_alloc.simps Let_def cur diff core(2) using nlt nfull ins(1,3) by (simp del: of_nat_mult)
      moreover have "am = Cannot_alloc \<or> \<not> fst (mem n)" using ins(3) None by simp
      ultimately show ?thesis by (intro alloc_result_fail [OF _ rdy]) auto
    next
      case (Some e)
      then obtain c' p2 where e: "\<And>nb. index_rep c' (store_entry_value e (Some nb) p1) (H div 32) (Suc N) (blk(N := nb))"
          "rewind_block_index_tail p1 = Inr p2" "index_rep c' (store_entry_value e None p2) (H div 32) N blk"
          "same_positions p (store_entry_value e None p2)"
        using ins(3) by auto
      obtain r' P1 where req: "requisition_block am (snd (mem n)) P = Inr (r', P1)" "case r' of
           None \<Rightarrow> P1 = P \<and> F = {} \<and> (am = Cannot_alloc \<or> \<not> snd (mem n))
         | Some n' \<Rightarrow> pool_rep P1 (F - {n'}) \<and> n' < length (cblocks P1) \<and> raw_block (cblocks P1 ! n')
           \<and> length (cblocks P) \<le> length (cblocks P1)
           \<and> (\<forall>m < length (cblocks P). m \<noteq> n' \<longrightarrow> cblocks P1 ! m = cblocks P ! m)
           \<and> (n' \<in> F \<and> length (cblocks P1) = length (cblocks P)
             \<or> F = {} \<and> n' = length (cblocks P) \<and> length (cblocks P1) = Suc n' \<and> am = Can_alloc \<and> snd (mem n))"
        using requisition_rep [OF a(2), of am "snd (mem n)"] by blast
      show ?thesis
      proof (cases r')
        case None
        then have "res = Inr ((False, first), store_entry_value e None p2, P)"
          unfolding res_def bulk_alloc.simps Let_def cur diff core(2) using nlt nfull ins(1) Some req e(2) by (simp del: of_nat_mult)
        moreover have "am = Cannot_alloc \<or> \<not> snd (mem n)" using req(2) None by simp
        ultimately show ?thesis
          by (intro alloc_result_fail [OF _ bulk_ready_same [OF rdy e(4,3)]]) auto
      next
        case r': (Some nb)
        have q: "pool_rep P1 (F - {nb})" "nb < length (cblocks P1)" "raw_block (cblocks P1 ! nb)" "length (cblocks P) \<le> length (cblocks P1)"
          "\<And>m. m < length (cblocks P) \<Longrightarrow> m \<noteq> nb \<Longrightarrow> cblocks P1 ! m = cblocks P ! m"
          "nb \<in> F \<and> length (cblocks P1) = length (cblocks P) \<or> nb = length (cblocks P) \<and> length (cblocks P1) = Suc nb"
          using req(2) r' by auto
        define P2 where "P2 = upd_cblock nb (\<lambda>b. (reset_empty implicit_context b)\<lparr>block_next := None\<rparr>) P1"
        define p3 where "p3 = store_entry_value e (Some nb) p1"
        define first1 where "first1 = (case first of None \<Rightarrow> Some nb | Some b \<Rightarrow> Some b)"
        from alloc_step [OF rdy bound ins(2) e(1) [of nb] q, folded P2_def p3_def first1_def]
        obtain P3 where st: "bulk_link ((H + length xs) mod 32 \<noteq> 0 \<or> first \<noteq> None) nb p3 P2 = Inr P3"
          "bulk_ready P3 (p3\<lparr>tailBlock := Some nb\<rparr>) xs (insert nb L) (F - {nb}) c' H (Suc N) (blk(N := nb)) first1"
          "pool_frame (L \<union> F) P P3" "insert nb L \<union> (F - {nb}) = L \<union> F \<union> {length (cblocks P)..<length (cblocks P3)}"
          by blast
        have res: "res = (if (of_nat (32 * fuel) :: u64) > 0
            then bulk_alloc fuel am mem (of_nat (H + length xs)) (Suc n) (of_nat (32 * fuel)) (of_nat (32 * N)) first1 (p3\<lparr>tailBlock := Some nb\<rparr>) P3
            else Inr ((True, first1), p3\<lparr>tailBlock := Some nb\<rparr>, P3))"
          unfolding res_def bulk_alloc.simps Let_def cur diff core(2) tail
          using nlt nfull ins(1) Some req(1) r' st(1) by (simp add: P2_def p3_def first1_def del: of_nat_mult of_nat_add)
        show ?thesis
        proof (cases "fuel = 0")
          case True
          then have "res = Inr ((True, first1), p3\<lparr>tailBlock := Some nb\<rparr>, P3)" using res by simp
          then show ?thesis using Suc.prems(2) True by (intro alloc_resultI [OF _ st(2) _ _ _ st(3,4)]) auto
        next
          case False
          have "unat (of_nat (32 * fuel) :: u64) = 32 * fuel" using Suc.prems(4) by (simp add: unat_of_nat del: of_nat_mult)
          then have "(of_nat (32 * fuel) :: u64) > 0" using False by (simp add: word_less_nat_alt del: of_nat_mult)
          moreover have "(of_nat (32 * Suc N) - BLOCK_SIZE :: u64) = of_nat (32 * N)" by (simp add: BLOCK_SIZE_def)
          ultimately have res': "res = bulk_alloc fuel am mem (of_nat (H + length xs)) (Suc n) (of_nat (32 * fuel))
              (of_nat (32 * Suc N) - BLOCK_SIZE) first1 (p3\<lparr>tailBlock := Some nb\<rparr>) P3"
            using res by (simp only: if_True)
          have "alloc_result am mem H xs (Suc N) N1 (blk(N := nb)) (insert nb L \<union> (F - {nb})) P3 res"
            unfolding res' using Suc.prems(2,4) False by (intro Suc.IH [OF st(2)]) simp_all
          then show ?thesis by (rule alloc_result_later [OF _ st(3,4)])
        qed
      qed
    qed
  qed
  then show ?case unfolding res_def .
qed simp

end
