(* ===== verification/QueueBulkPut.thy ===== *)
theory QueueBulkPut
  imports QueueBulkIn
begin

text \<open>
  \<open>source/utils/concurrentqueue.h\<close>: that \<open>enqueue_bulk\<close>, modelled in \<open>QueueBulkIn\<close>, adds all its elements or none.
\<close>

subsection \<open>Putting the elements into the blocks\<close>

lemma bulk_fill_step:
  assumes "tailBlock p = Some b" "b < length (cblocks P)" "put_elements stop cur items (cblocks P ! b) = Inr (items', bk)"
  shows "bulk_fill stop cur items p P = Inr (items', upd_cblock b (\<lambda>_. bk) P)"
proof (cases "cur = stop")
  case True
  then have "items' = items" "bk = cblocks P ! b" using assms(3) by (simp_all add: put_elements.simps)
  then show ?thesis using True by (simp add: bulk_fill_def)
next
  case False
  then show ?thesis using assms by (simp add: bulk_fill_def)
qed

lemma prod_core_cong:
  assumes "prod_core P p xs L c H N blk" "tailIndex p' = tailIndex p" "headIndex p' = headIndex p"
    "dequeueOptimisticCount p' = dequeueOptimisticCount p" "dequeueOvercommit p' = dequeueOvercommit p"
    "blockIndex p' = blockIndex p" "nextBlockIndexCapacity p' = nextBlockIndexCapacity p" "entries p' = entries p"
  shows "prod_core P p' xs L c H N blk"
proof -
  have "index_rep c p' (H div 32) N blk"
    by (rule prod_coreE [OF assms(1)], erule index_rep_cong) (simp_all add: assms)
  then show ?thesis using assms unfolding prod_core_def by simp
qed

text \<open>Filling the block of the tail, up to its end or to the last element.\<close>

lemma fill_block_rep:
  assumes core: "prod_core P (p\<lparr>tailIndex := of_nat (H + length xs)\<rparr>) xs L c H N blk" and rep: "pool_rep P F" "L \<inter> F = {}"
    and q: "q = (H + length xs) div 32" "q < N" and tb: "tailBlock p = Some (blk q)"
    and j: "H + length xs + j \<le> 32 * q + 32" "j \<le> length items"
  shows "\<exists>P1. bulk_fill (of_nat (H + length xs + j)) (of_nat (H + length xs)) items p P = Inr (drop j items, P1)
    \<and> prod_core P1 (p\<lparr>tailIndex := of_nat (H + length (xs @ take j items))\<rparr>) (xs @ take j items) L c H N blk
    \<and> pool_rep P1 F \<and> pool_frame L P P1 \<and> length (cblocks P1) = length (cblocks P)
    \<and> (\<forall>m. block_next (cblocks P1 ! m) = block_next (cblocks P ! m))"
proof -
  have a: "headIndex p = of_nat H" "dequeueOptimisticCount p = of_nat H" "dequeueOvercommit p = 0" "32 * N < H + 2 ^ 63"
    "inj_on blk {H div 32..<N}" "L = blk ` {H div 32..<N}"
    "\<And>k. H div 32 \<le> k \<Longrightarrow> k < N \<Longrightarrow> blk k < length (cblocks P)"
    "\<And>k. H div 32 \<le> k \<Longrightarrow> k < N \<Longrightarrow> block_holds (cblocks P ! blk k) H xs k"
    using prod_coreE [OF core] by auto
  have ix: "index_rep c p (H div 32) N blk"
    by (rule prod_coreE [OF core], erule index_rep_cong) simp_all
  have Hq: "H div 32 \<le> q" "32 * q \<le> H + length xs" using q(1) by (simp_all add: div_le_mono)
  have b: "blk q < length (cblocks P)" "blk q \<in> L" using a(7) [OF Hq(1) q(2)] a(6) Hq(1) q(2) by auto
  then have bF: "blk q \<notin> F" using rep(2) by blast
  have sl: "slots_hold (elements (cblocks P ! blk q)) H xs q" using a(8) [OF Hq(1) q(2)] by (simp add: block_holds_slots)
  obtain es where es: "put_elements (of_nat (H + length xs + j)) (of_nat (H + length xs)) items (cblocks P ! blk q)
      = Inr (drop j items, (cblocks P ! blk q)\<lparr>elements := es\<rparr>)" "slots_hold es H (xs @ take j items) q"
    using put_elements_rep [OF sl Hq(2) j] by blast
  define P1 where "P1 = upd_cblock (blk q) (\<lambda>_. (cblocks P ! blk q)\<lparr>elements := es\<rparr>) P"
  have fill: "bulk_fill (of_nat (H + length xs + j)) (of_nat (H + length xs)) items p P = Inr (drop j items, P1)"
    unfolding P1_def by (rule bulk_fill_step [OF tb b(1) es(1)])
  have blocks: "cblocks P1 ! m = (if m = blk q then (cblocks P ! blk q)\<lparr>elements := es\<rparr> else cblocks P ! m)" for m
    using b(1) by (simp add: P1_def)
  have "pool_rep P1 F"
    unfolding P1_def using es(2) pool_rep_wf [OF rep(1) b(1)]
    by (intro pool_rep_write [OF rep(1) bF]) (simp_all add: block_wf_def slots_hold_def)
  moreover have "prod_core P1 (p\<lparr>tailIndex := of_nat (H + length (xs @ take j items))\<rparr>) (xs @ take j items) L c H N blk"
  proof (rule prod_coreI)
    show "index_rep c (p\<lparr>tailIndex := of_nat (H + length (xs @ take j items))\<rparr>) (H div 32) N blk"
      by (rule index_rep_cong [OF ix]) simp_all
    show "blk k < length (cblocks P1)" if "H div 32 \<le> k" "k < N" for k using a(7) [OF that] by (simp add: P1_def)
    show "block_holds (cblocks P1 ! blk k) H (xs @ take j items) k" if k: "H div 32 \<le> k" "k < N" for k
    proof (cases "k = q")
      case True
      then show ?thesis using es(2) a(8) [OF k] by (simp add: blocks block_holds_slots)
    next
      case False
      then have "blk k \<noteq> blk q" using inj_onD [OF a(5), of k q] k Hq(1) q(2) by auto
      moreover have "slots_hold (elements (cblocks P ! blk k)) H (xs @ take j items) k"
      proof (rule slots_hold_other)
        show "slots_hold (elements (cblocks P ! blk k)) H xs k" using a(8) [OF k] by (simp add: block_holds_slots)
        show "H + length xs + length (take j items) \<le> 32 * k \<or> 32 * k + 32 \<le> H + length xs"
          using False j Hq(2) by simp linarith
      qed
      ultimately show ?thesis using a(8) [OF k] by (simp add: blocks block_holds_slots)
    qed
  qed (use a in simp_all)
  moreover have "pool_frame L P P1" unfolding P1_def by (rule pool_frame_upd [OF b(2)])
  moreover have "length (cblocks P1) = length (cblocks P)" by (simp add: P1_def)
  moreover have "\<forall>m. block_next (cblocks P1 ! m) = block_next (cblocks P ! m)" by (simp add: blocks)
  ultimately show ?thesis using fill by blast
qed

text \<open>Where the run of elements in the block of \<open>T\<close> ends, and whether it is the last block.\<close>

lemma run_in_block:
  fixes T n :: nat
  defines "j \<equiv> min n (32 - T mod 32)"
  shows "T + j \<le> 32 * (T div 32) + 32" "j \<le> n"
    "T div 32 < (T + n + 31) div 32 \<Longrightarrow> (T div 32 = (T + n + 31) div 32 - 1) = (j = n)"
    "j < n \<Longrightarrow> (T + j) div 32 = Suc (T div 32)" "j < n \<Longrightarrow> Suc (T div 32) < (T + n + 31) div 32"
proof -
  define q r where "q = T div 32" and "r = T mod 32"
  have T: "T = 32 * q + r" "r < 32" by (simp_all add: q_def r_def)
  have jr: "j = min n (32 - r)" by (simp add: j_def r_def)
  show one: "T + j \<le> 32 * (T div 32) + 32" unfolding q_def [symmetric] jr using T by simp
  show "j \<le> n" by (simp add: j_def)
  have lt: "j < n \<longleftrightarrow> 32 * q + 33 \<le> T + n" unfolding jr using T by auto
  have last: "j < n \<Longrightarrow> Suc q < (T + n + 31) div 32"
  proof -
    assume "j < n"
    then have "32 * (q + 2) \<le> T + n + 31" using lt by simp
    then have "q + 2 \<le> (T + n + 31) div 32" by (metis div_le_mono nonzero_mult_div_cancel_left zero_neq_numeral)
    then show ?thesis by simp
  qed
  then show "j < n \<Longrightarrow> Suc (T div 32) < (T + n + 31) div 32" by (simp add: q_def)
  show "(T div 32 = (T + n + 31) div 32 - 1) = (j = n)" if more: "T div 32 < (T + n + 31) div 32"
  proof (cases "j < n")
    case True
    then show ?thesis using last by (simp add: q_def)
  next
    case False
    then have "T + n + 31 < 32 * (q + 2)" "j = n" using lt by (simp_all add: j_def)
    then have "(T + n + 31) div 32 < q + 2" by (simp add: less_mult_imp_div_less mult.commute)
    then show ?thesis using more \<open>j = n\<close> by (simp add: q_def)
  qed
  show "j < n \<Longrightarrow> (T + j) div 32 = Suc (T div 32)"
  proof -
    assume "j < n"
    then have "T + j = 32 * Suc q" unfolding jr using T by (simp add: min_def split: if_splits)
    then show ?thesis by (simp add: q_def)
  qed
qed

lemma bulk_put_rep:
  assumes "prod_core P (p\<lparr>tailIndex := of_nat (H + length xs)\<rparr>) xs L c H N blk" "pool_rep P F" "L \<inter> F = {}"
    "N = (H + length xs + n + 31) div 32" "(H + length xs) div 32 < N" "tailBlock p = Some (blk ((H + length xs) div 32))"
    "\<And>k. (H + length xs) div 32 \<le> k \<Longrightarrow> Suc k < N \<Longrightarrow> block_next (cblocks P ! blk k) = Some (blk (Suc k))"
    "n \<le> length items" "n < 2 ^ 63" "N - (H + length xs) div 32 \<le> fuel"
  shows "\<exists>P'. bulk_put fuel (of_nat (H + length xs + n)) (Some (blk (N - 1))) (of_nat (H + length xs)) items p P
      = Inr (p\<lparr>tailBlock := Some (blk (N - 1))\<rparr>, P')
    \<and> prod_core P' (p\<lparr>tailIndex := of_nat (H + length xs + n)\<rparr>) (xs @ take n items) L c H N blk
    \<and> pool_rep P' F \<and> pool_frame L P P' \<and> length (cblocks P') = length (cblocks P)"
  using assms
proof (induction fuel arbitrary: P p xs n items)
  case 0
  then show ?case by simp
next
  case (Suc fuel)
  define T where "T = H + length xs"
  define q where "q = T div 32"
  define j where "j = min n (32 - T mod 32)"
  note prems = Suc.prems [folded T_def, folded q_def]
  note run = run_in_block [where T = T and n = n, folded q_def j_def prems(4)]
  have jl: "j \<le> length items" using run(2) prems(8) by simp
  obtain P1 where P1: "bulk_fill (of_nat (T + j)) (of_nat T) items p P = Inr (drop j items, P1)"
    "prod_core P1 (p\<lparr>tailIndex := of_nat (H + length (xs @ take j items))\<rparr>) (xs @ take j items) L c H N blk"
    "pool_rep P1 F" "pool_frame L P P1" "length (cblocks P1) = length (cblocks P)"
    "\<forall>m. block_next (cblocks P1 ! m) = block_next (cblocks P ! m)"
    using fill_block_rep [OF Suc.prems(1-3), of q j items] prems(5,6) run(1) jl unfolding T_def q_def by blast
  have stop: "bulk_end (of_nat (T + n)) (of_nat T) = of_nat (T + j)" unfolding j_def by (rule bulk_end_rep [OF prems(9)])
  have len: "H + length (xs @ take j items) = T + j" using jl by (simp add: T_def)
  have inj: "inj_on blk {H div 32..<N}" using Suc.prems(1) by (rule prod_coreE)
  have Hq: "H div 32 \<le> q" by (simp add: q_def T_def div_le_mono)
  have same: "blk q = blk (N - 1) \<longleftrightarrow> j = n"
  proof -
    have "H div 32 \<le> N - 1" "N - 1 < N" using Hq prems(5) by linarith+
    then show ?thesis using inj_onD [OF inj, of q "N - 1"] run(3) Hq prems(5) by auto
  qed
  show ?case
  proof (cases "j = n")
    case True
    then have eqs: "tailBlock p = Some (blk (N - 1))" "p\<lparr>tailBlock := Some (blk (N - 1))\<rparr> = p" using same prems(6) by simp_all
    have "bulk_put (Suc fuel) (of_nat (T + n)) (Some (blk (N - 1))) (of_nat T) items p P = Inr (p, P1)"
      unfolding bulk_put.simps Let_def stop P1(1) using eqs(1) True by simp
    moreover have "prod_core P1 (p\<lparr>tailIndex := of_nat (T + n)\<rparr>) (xs @ take n items) L c H N blk" using P1(2) len unfolding True by (simp only:)
    ultimately show ?thesis using P1(3-5) eqs(2) unfolding T_def [symmetric] by (intro exI [of _ P1] conjI) simp_all
  next
    case False
    then have jn: "j < n" using run(2) by simp
    let ?p = "p\<lparr>tailBlock := Some (blk (Suc q))\<rparr>"
    have nx: "block_next (cblocks P1 ! blk q) = Some (blk (Suc q))" using P1(6) prems(7) [of q] run(5) [OF jn] by simp
    have step: "bulk_put (Suc fuel) (of_nat (T + n)) (Some (blk (N - 1))) (of_nat T) items p P
        = bulk_put fuel (of_nat (T + n)) (Some (blk (N - 1))) (of_nat (T + j)) (drop j items) ?p P1"
      unfolding bulk_put.simps Let_def stop P1(1) using same False prems(6) nx by simp
    have "\<exists>P'. bulk_put fuel (of_nat (H + length (xs @ take j items) + (n - j))) (Some (blk (N - 1))) (of_nat (H + length (xs @ take j items)))
          (drop j items) ?p P1 = Inr (?p\<lparr>tailBlock := Some (blk (N - 1))\<rparr>, P')
        \<and> prod_core P' (?p\<lparr>tailIndex := of_nat (H + length (xs @ take j items) + (n - j))\<rparr>) ((xs @ take j items) @ take (n - j) (drop j items)) L c H N blk
        \<and> pool_rep P' F \<and> pool_frame L P1 P' \<and> length (cblocks P') = length (cblocks P1)"
    proof (rule Suc.IH)
      show "prod_core P1 (?p\<lparr>tailIndex := of_nat (H + length (xs @ take j items))\<rparr>) (xs @ take j items) L c H N blk"
        by (rule prod_core_cong [OF P1(2)]) simp_all
      show "N = (H + length (xs @ take j items) + (n - j) + 31) div 32" unfolding len using prems(4) jn by simp
      show "pool_rep P1 F" "L \<inter> F = {}" "n - j \<le> length (drop j items)" "n - j < 2 ^ 63"
        using P1(3) prems(3,8,9) by simp_all
      show "(H + length (xs @ take j items)) div 32 < N" "tailBlock ?p = Some (blk ((H + length (xs @ take j items)) div 32))"
        "N - (H + length (xs @ take j items)) div 32 \<le> fuel"
        unfolding len run(4) [OF jn] using run(5) [OF jn] prems(10) by simp_all
      show "block_next (cblocks P1 ! blk k) = Some (blk (Suc k))" if "(H + length (xs @ take j items)) div 32 \<le> k" "Suc k < N" for k
        using P1(6) prems(7) [of k] that unfolding len run(4) [OF jn] by simp
    qed
    then obtain P' where P': "bulk_put fuel (of_nat (T + n)) (Some (blk (N - 1))) (of_nat (T + j)) (drop j items) ?p P1
          = Inr (p\<lparr>tailBlock := Some (blk (N - 1))\<rparr>, P')"
        "prod_core P' (?p\<lparr>tailIndex := of_nat (T + n)\<rparr>) ((xs @ take j items) @ take (n - j) (drop j items)) L c H N blk"
        "pool_rep P' F" "pool_frame L P1 P'" "length (cblocks P') = length (cblocks P1)"
      unfolding len using jn by auto
    have tk: "(xs @ take j items) @ take (n - j) (drop j items) = xs @ take n items" using jn by (simp add: take_add [symmetric])
    have "prod_core P' (p\<lparr>tailIndex := of_nat (T + n)\<rparr>) (xs @ take n items) L c H N blk"
      by (rule prod_core_cong [OF P'(2) [unfolded tk]]) simp_all
    moreover have "pool_frame L P P'" using pool_frame_trans [OF P1(4) P'(4)] by simp
    ultimately show ?thesis using step P'(1,3,5) P1(5) unfolding T_def [symmetric] by (intro exI [of _ P'] conjI) simp_all
  qed
qed

subsection \<open>The numbers of blocks\<close>

lemma block_before: "((of_nat T :: u64) - 1) AND NOT (BLOCK_SIZE - 1) = of_nat (32 * ((T + 31) div 32)) - BLOCK_SIZE"
proof -
  have m32: "(of_nat (2 ^ 64 - 32) :: u64) = - 32" by simp
  have "(of_nat T :: u64) - 1 = of_nat (T + 31) + of_nat (2 ^ 64 - 32)" unfolding m32 by simp
  then have "(of_nat T :: u64) - 1 = of_nat (T + 31 + (2 ^ 64 - 32))" by (simp only: of_nat_add)
  then have "((of_nat T :: u64) - 1) AND NOT (BLOCK_SIZE - 1) = of_nat (32 * ((T + 31 + (2 ^ 64 - 32)) div 32))" by (simp only: block_base)
  also have "(T + 31 + (2 ^ 64 - 32)) div 32 = (T + 31) div 32 + (2 ^ 59 - 1)"
  proof -
    have "T + 31 + (2 ^ 64 - 32) = T + 31 + (2 ^ 59 - 1) * 32" by simp
    then show ?thesis by (simp only: div_mult_self1 zero_neq_numeral not_False_eq_True)
  qed
  also have "(of_nat (32 * ((T + 31) div 32 + (2 ^ 59 - 1))) :: u64) = of_nat (32 * ((T + 31) div 32)) + of_nat (2 ^ 64 - 32)"
    unfolding of_nat_add [symmetric] by (simp add: add_mult_distrib2)
  also have "\<dots> = of_nat (32 * ((T + 31) div 32)) - BLOCK_SIZE" unfolding m32 by (simp add: BLOCK_SIZE_def)
  finally show ?thesis .
qed

lemma passes_bound:
  fixes T n :: nat
  assumes "n < 2 ^ 63"
  shows "32 * ((T + n + 31) div 32 - (T + 31) div 32) < 2 ^ 64"
proof -
  have "32 * ((T + n + 31) div 32) \<le> T + n + 31" "T + 31 < 32 * ((T + 31) div 32) + 32"
    by (simp_all add: div_times_less_eq_dividend mult.commute dividend_less_div_times)
  then have "32 * ((T + n + 31) div 32) - 32 * ((T + 31) div 32) < n + 32" by linarith
  then show ?thesis using assms unfolding diff_mult_distrib2 by simp
qed

lemma base_diff:
  assumes "n < 2 ^ 63"
  shows "(((of_nat T :: u64) + of_nat n - 1) AND NOT (BLOCK_SIZE - 1)) - ((of_nat T - 1) AND NOT (BLOCK_SIZE - 1))
      = of_nat (32 * ((T + n + 31) div 32 - (T + 31) div 32))"
    "unat (of_nat (32 * ((T + n + 31) div 32 - (T + 31) div 32)) :: u64) = 32 * ((T + n + 31) div 32 - (T + 31) div 32)"
proof -
  have le: "32 * ((T + 31) div 32) \<le> 32 * ((T + n + 31) div 32)" by (intro mult_le_mono2 div_le_mono) simp
  have "(of_nat T :: u64) + of_nat n = of_nat (T + n)" by simp
  then show "(((of_nat T :: u64) + of_nat n - 1) AND NOT (BLOCK_SIZE - 1)) - ((of_nat T - 1) AND NOT (BLOCK_SIZE - 1))
      = of_nat (32 * ((T + n + 31) div 32 - (T + 31) div 32))"
    using le by (simp only: block_before diff_mult_distrib2 of_nat_diff) simp
  show "unat (of_nat (32 * ((T + n + 31) div 32 - (T + 31) div 32)) :: u64) = 32 * ((T + n + 31) div 32 - (T + 31) div 32)"
    using passes_bound [OF assms, of T] by (simp add: unat_of_nat del: of_nat_mult)
qed

subsection \<open>All elements or none\<close>

lemma untouched_block_raw:
  assumes "block_holds b H xs k" "H + length xs \<le> 32 * k"
  shows "raw_block b"
  using assms by (auto simp: block_holds_def raw_block_def intro!: nth_equalityI)

lemma blocks_fit:
  assumes "inj_on blk {K..<N}" "\<And>k. K \<le> k \<Longrightarrow> k < N \<Longrightarrow> blk k < l"
  shows "N - K \<le> (l :: nat)"
proof -
  have "card (blk ` {K..<N}) \<le> card {..<l}" using assms(2) by (intro card_mono) auto
  then show ?thesis using assms(1) by (simp add: card_image)
qed

lemma split_union: "A = C \<union> B \<Longrightarrow> A \<inter> D = {} \<Longrightarrow> C \<inter> B = {} \<Longrightarrow> C \<inter> (D \<union> B) = {} \<and> C \<union> (D \<union> B) = A \<union> D"
  by blast

text \<open>Some blocks were obtained and have to be given back.\<close>

lemma undone_rep:
  assumes rdy: "bulk_ready P p xs L F c H N blk first" and old: "32 * ((H + length xs + 31) div 32) < H + 2 ^ 63"
    and tb: "H div 32 < (H + length xs + 31) div 32 \<longrightarrow> start = Some (blk ((H + length xs + 31) div 32 - 1))"
  defines "N0 \<equiv> (H + length xs + 31) div 32"
  shows "\<exists>p2 P2 L2 F2. bulk_undo (length (cblocks P)) (of_nat (32 * N0) - BLOCK_SIZE) first P p = Inr p2
    \<and> add_blocks_to_free_list (length (cblocks P)) first P = Inr P2
    \<and> prod_rep P2 (p2\<lparr>tailBlock := start\<rparr>) xs L2 \<and> pool_rep P2 F2 \<and> L2 \<inter> F2 = {} \<and> L2 \<union> F2 = L \<union> F
    \<and> pool_frame (L \<union> F) P P2 \<and> length (cblocks P2) = length (cblocks P)"
proof -
  have a: "prod_core P p xs L c H N blk" "pool_rep P F" "L \<inter> F = {}" "N0 \<le> N" "linked P blk N0 N"
    "first = (if N0 < N then Some (blk N0) else None)"
    using rdy by (simp_all add: bulk_ready_def N0_def)
  have core: "tailIndex p = of_nat (H + length xs)" "headIndex p = of_nat H" "dequeueOptimisticCount p = of_nat H"
    "dequeueOvercommit p = 0" "index_rep c p (H div 32) N blk" "inj_on blk {H div 32..<N}" "L = blk ` {H div 32..<N}"
    "\<And>k. H div 32 \<le> k \<Longrightarrow> k < N \<Longrightarrow> blk k < length (cblocks P)"
    "\<And>k. H div 32 \<le> k \<Longrightarrow> k < N \<Longrightarrow> block_holds (cblocks P ! blk k) H xs k"
    using prod_coreE [OF a(1)] by blast+
  have HN: "H div 32 \<le> N0" "H + length xs \<le> 32 * N0"
    unfolding N0_def using positions_le_blocks [of "H + length xs"] by (simp_all add: div_le_mono)
  have fuel: "N - N0 \<le> length (cblocks P)" using blocks_fit [OF core(6,8)] HN(1) by simp
  obtain h t where u: "undoing c p h t (H div 32) N0 N 0 blk" using undoing_start [OF core(5) HN(1) a(4)] by blast
  obtain p2 where p2: "bulk_undo (length (cblocks P)) (of_nat (32 * N0) - BLOCK_SIZE) first P p = Inr p2"
    "undoing c p2 h t (H div 32) N0 N (N - N0) blk" "same_positions p p2"
    using bulk_undo_rep [OF u a(5), of "length (cblocks P)", unfolded add_0_right, OF fuel a(4), folded a(6)] by blast
  note ix = undoing_end [OF p2(2) a(4)]
  have new: "blk k \<notin> F \<and> blk k < length (cblocks P) \<and> raw_block (cblocks P ! blk k)" if "N0 \<le> k" "k < N" for k
  proof -
    have k: "H div 32 \<le> k" "H + length xs \<le> 32 * k" using that HN by linarith+
    then have "blk k \<in> L" using core(7) that by simp
    then show ?thesis using a(3) core(8) [OF k(1) that(2)] untouched_block_raw [OF core(9) [OF k(1) that(2)] k(2)] by auto
  qed
  have inj0: "inj_on blk {N0..<N}" using inj_on_subset [OF core(6)] HN(1) by simp
  obtain P2 where P2: "add_blocks_to_free_list (length (cblocks P)) first P = Inr P2"
    "pool_rep P2 (F \<union> blk ` {N0..<N})" "pool_frame (blk ` {N0..<N}) P P2" "length (cblocks P2) = length (cblocks P)"
    using add_blocks_rep [OF a(2,5) fuel inj0 new] a(6) by auto
  define L2 where "L2 = blk ` {H div 32..<N0}"
  have split: "{H div 32..<N} = {H div 32..<N0} \<union> {N0..<N}" using HN(1) a(4) by auto
  have dis: "L2 \<inter> blk ` {N0..<N} = {}"
    unfolding L2_def using inj_on_image_Int [OF core(6), of "{H div 32..<N0}" "{N0..<N}"] HN(1) a(4) by auto
  have L: "L = L2 \<union> blk ` {N0..<N}" unfolding core(7) L2_def split by (rule image_Un)
  have k: "blk k \<notin> blk ` {N0..<N}" "k < N" if "H div 32 \<le> k" "k < N0" for k
  proof -
    have "blk k \<in> L2" using that by (simp add: L2_def)
    then show "blk k \<notin> blk ` {N0..<N}" using dis by blast
    show "k < N" using that a(4) by simp
  qed
  have "prod_core P2 (p2\<lparr>tailBlock := start\<rparr>) xs L2 c H N0 blk"
  proof (rule prod_coreI)
    show "index_rep c (p2\<lparr>tailBlock := start\<rparr>) (H div 32) N0 blk" by (rule index_rep_cong [OF ix]) simp_all
    show "inj_on blk {H div 32..<N0}" using inj_on_subset [OF core(6)] a(4) by simp
    show "blk k < length (cblocks P2)" "block_holds (cblocks P2 ! blk k) H xs k" if "H div 32 \<le> k" "k < N0" for k
      using core(8,9) [OF that(1) k(2) [OF that]] k(1) [OF that] P2(3,4) by (simp_all add: pool_frame_def)
  qed (use core p2(3) old in \<open>simp_all add: same_positions_def N0_def L2_def\<close>)
  then have "prod_rep P2 (p2\<lparr>tailBlock := start\<rparr>) xs L2" unfolding prod_rep_def using tb by (auto simp: N0_def)
  moreover have "L2 \<inter> (F \<union> blk ` {N0..<N}) = {}" "L2 \<union> (F \<union> blk ` {N0..<N}) = L \<union> F"
    using split_union [OF L a(3) dis] by simp_all
  moreover have "pool_frame (L \<union> F) P P2" unfolding L by (rule pool_frame_mono [OF P2(3)]) auto
  ultimately show ?thesis using p2(1) P2(1,2,4)
    by (intro exI [of _ p2] exI [of _ P2] exI [of _ L2] exI [of _ "F \<union> blk ` {N0..<N}"] conjI)
qed

text \<open>All blocks were obtained.\<close>

lemma filled_rep:
  assumes rdy: "bulk_ready P p xs L F c H ((H + length xs + n + 31) div 32) blk first" and n: "n \<le> length items" "n < 2 ^ 63"
    and more: "(H + length xs) div 32 < (H + length xs + n + 31) div 32"
    and tb: "(H + length xs) mod 32 \<noteq> 0 \<longrightarrow> start = Some (blk ((H + length xs + 31) div 32 - 1))"
    and fuel: "fuel = (H + length xs + n + 31) div 32 - (H + length xs + 31) div 32"
  shows "\<exists>p2 P2. bulk_put (Suc fuel) (of_nat (H + length xs + n)) (tailBlock p) (of_nat (H + length xs)) items
        (p\<lparr>tailBlock := (if (H + length xs) mod 32 = 0 \<and> first \<noteq> None then first else start)\<rparr>) P = Inr (p2, P2)
    \<and> prod_rep P2 (p2\<lparr>tailIndex := of_nat (H + length xs + n)\<rparr>) (xs @ take n items) L \<and> pool_rep P2 F
    \<and> pool_frame L P P2 \<and> length (cblocks P2) = length (cblocks P)"
proof -
  define T where "T = H + length xs"
  define N0 where "N0 = (T + 31) div 32"
  define N where "N = (T + n + 31) div 32"
  have a: "prod_core P p xs L c H N blk" "pool_rep P F" "L \<inter> F = {}" "N0 \<le> N" "linked P blk N0 N"
    "first = (if N0 < N then Some (blk N0) else None)"
    "T div 32 < N0 \<Longrightarrow> N0 < N \<Longrightarrow> block_next (cblocks P ! blk (T div 32)) = Some (blk N0)" "tailBlock p = Some (blk (N - 1))"
    using rdy more by (simp_all add: bulk_ready_def T_def N0_def N_def)
  have pb: "T div 32 = N0 \<and> T mod 32 = 0 \<or> Suc (T div 32) = N0 \<and> T mod 32 \<noteq> 0" unfolding N0_def by (rule positions_blocks)
  have lt: "T div 32 < N" using more by (simp add: T_def N_def)
  define v where "v = (if T mod 32 = 0 \<and> first \<noteq> None then first else start)"
  have v: "v = Some (blk (T div 32))"
    using pb a(6) lt tb unfolding v_def T_def [symmetric] N0_def [symmetric] by (elim disjE conjE) auto
  have nx: "block_next (cblocks P ! blk k) = Some (blk (Suc k))" if "T div 32 \<le> k" "Suc k < N" for k
  proof (cases "N0 \<le> k")
    case True
    then show ?thesis using linkedD [OF a(5), of k] that(2) by simp
  next
    case False
    then have "k = T div 32" "Suc k = N0" using that pb by (elim disjE conjE; simp)+
    then show ?thesis using a(7) that(2) by simp
  qed
  have start: "prod_core P (p\<lparr>tailBlock := v, tailIndex := of_nat (H + length xs)\<rparr>) xs L c H N blk"
  proof (rule prod_core_cong [OF a(1)])
    have "tailIndex p = of_nat (H + length xs)" using a(1) by (rule prod_coreE)
    then show "tailIndex (p\<lparr>tailBlock := v, tailIndex := of_nat (H + length xs)\<rparr>) = tailIndex p" by simp
  qed simp_all
  have fl: "N - T div 32 \<le> Suc fuel" using pb fuel unfolding T_def [symmetric] N0_def [symmetric] N_def [symmetric] by (elim disjE conjE) linarith+
  have "\<exists>P'. bulk_put (Suc fuel) (of_nat (T + n)) (Some (blk (N - 1))) (of_nat T) items (p\<lparr>tailBlock := v\<rparr>) P
      = Inr (p\<lparr>tailBlock := v, tailBlock := Some (blk (N - 1))\<rparr>, P')
    \<and> prod_core P' (p\<lparr>tailBlock := v, tailIndex := of_nat (T + n)\<rparr>) (xs @ take n items) L c H N blk
    \<and> pool_rep P' F \<and> pool_frame L P P' \<and> length (cblocks P') = length (cblocks P)"
    unfolding T_def
    by (rule bulk_put_rep [OF start a(2,3) N_def [unfolded T_def] lt [unfolded T_def] _ nx [unfolded T_def] n fl [unfolded T_def]])
      (simp_all add: v T_def)
  then obtain P' where P': "bulk_put (Suc fuel) (of_nat (T + n)) (Some (blk (N - 1))) (of_nat T) items (p\<lparr>tailBlock := v\<rparr>) P
      = Inr (p\<lparr>tailBlock := v, tailBlock := Some (blk (N - 1))\<rparr>, P')"
    "prod_core P' (p\<lparr>tailBlock := v, tailIndex := of_nat (T + n)\<rparr>) (xs @ take n items) L c H N blk"
    "pool_rep P' F" "pool_frame L P P'" "length (cblocks P') = length (cblocks P)" by blast
  let ?p = "p\<lparr>tailBlock := v, tailBlock := Some (blk (N - 1))\<rparr>"
  have "prod_core P' (?p\<lparr>tailIndex := of_nat (T + n)\<rparr>) (xs @ take n items) L c H N blk" by (rule prod_core_cong [OF P'(2)]) simp_all
  moreover have "N = (H + length (xs @ take n items) + 31) div 32" using n(1) by (simp add: N_def T_def add.assoc)
  moreover have "tailBlock (?p\<lparr>tailIndex := of_nat (T + n)\<rparr>) = Some (blk (N - 1))" by simp
  ultimately have "prod_rep P' (?p\<lparr>tailIndex := of_nat (T + n)\<rparr>) (xs @ take n items) L" unfolding prod_rep_def by blast
  then show ?thesis using P'(1,3-5) unfolding T_def [symmetric] a(8) v_def [symmetric] by blast
qed

text \<open>The operation over numbers of blocks.\<close>

definition alloc_phase ::
  "alloc_mode \<Rightarrow> (nat \<Rightarrow> bool \<times> bool) \<Rightarrow> nat \<Rightarrow> nat \<Rightarrow> nat \<Rightarrow> producer \<Rightarrow> 'a pool \<Rightarrow> cq_error + (bool \<times> nat option) \<times> producer \<times> 'a pool" where
  "alloc_phase am mem T N0 N1 p P =
     (if N0 < N1 then bulk_alloc (N1 - N0) am mem (of_nat T) 0 (of_nat (32 * (N1 - N0))) (of_nat (32 * N0) - BLOCK_SIZE) None p P
      else Inr ((True, None), p, P))"

lemma tail_in_block: "((of_nat T :: u64) AND (BLOCK_SIZE - 1) = 0) = (T mod 32 = 0)"
  using slot_of_nat [of T] unfolding slot_def by (metis unat_eq_0)

lemma enqueue_bulk_eq:
  assumes t: "tailIndex p = of_nat T" and n: "cnt = of_nat n" "n < 2 ^ 63"
    and N: "N0 = (T + 31) div 32" "N1 = (T + n + 31) div 32"
  shows "implicit_enqueue_bulk am mem items cnt p P =
    bindE (alloc_phase am mem T N0 N1 p P)
      (\<lambda>((ok, first), p', P').
         if \<not> ok then
           bindE (bulk_undo (length (cblocks P')) (of_nat (32 * N0) - BLOCK_SIZE) first P' p')
             (\<lambda>p'. bindE (add_blocks_to_free_list (length (cblocks P')) first P')
                (\<lambda>P'. Inr (False, p'\<lparr>tailBlock := tailBlock p\<rparr>, P')))
         else if \<not> (T mod 32 \<noteq> 0 \<or> first \<noteq> None \<or> n = 0) then Inl Cq_assertion_failed
         else
           bindE (bulk_put (Suc (N1 - N0)) (of_nat (T + n)) (tailBlock p') (of_nat T) items
                   (p'\<lparr>tailBlock := (if T mod 32 = 0 \<and> first \<noteq> None then first else tailBlock p)\<rparr>) P')
             (\<lambda>(p', P'). Inr (True, p'\<lparr>tailIndex := of_nat (T + n)\<rparr>, P')))"
proof -
  have pos: "((of_nat (32 * (N1 - N0)) :: u64) > 0) = (N0 < N1)"
    using base_diff(2) [OF n(2), of T] unfolding N [symmetric] by (simp only: word_less_nat_alt) simp
  have ps: "unat (of_nat (32 * (N1 - N0)) :: u64) div unat BLOCK_SIZE = N1 - N0"
    using base_diff(2) [OF n(2), of T] unfolding N [symmetric] by (simp only: BLOCK_SIZE_nat)
  have c0: "(cnt = 0) = (n = 0)" using n of_nat_word_neq [of n 0] by (cases "n = 0") auto
  have new: "of_nat T + cnt = of_nat (T + n)" using n(1) by simp
  show ?thesis
    unfolding implicit_enqueue_bulk_def Let_def t n(1)
    unfolding base_diff(1) [OF n(2)]
    unfolding block_before N [symmetric] pos ps tail_in_block alloc_phase_def c0 [unfolded n(1)] new [unfolded n(1)] by (rule refl)
qed

lemma alloc_phase_rep:
  assumes "prod_core P p xs L c H N0 blk" "N0 = (H + length xs + 31) div 32" "H div 32 < N0 \<longrightarrow> tailBlock p = Some (blk (N0 - 1))"
    "pool_rep P F" "L \<inter> F = {}" "n < 2 ^ 63" "N1 = (H + length xs + n + 31) div 32"
  shows "alloc_result am mem H xs N0 N1 blk (L \<union> F) P (alloc_phase am mem (H + length xs) N0 N1 p P)"
proof -
  have HT: "H div 32 \<le> (H + length xs) div 32" by (simp add: div_le_mono)
  then have rdy: "bulk_ready P p xs L F c H N0 blk None"
    using assms(1-5) by (auto simp: bulk_ready_def linked_def)
  show ?thesis
  proof (cases "N0 < N1")
    case True
    have "alloc_result am mem H xs N0 N1 blk (L \<union> F) P
      (bulk_alloc (N1 - N0) am mem (of_nat (H + length xs)) 0 (of_nat (32 * (N1 - N0))) (of_nat (32 * N0) - BLOCK_SIZE) None p P)"
      using passes_bound [OF assms(6), of "H + length xs", folded assms(2,7)] True
      by (intro bulk_alloc_rep [OF rdy]) simp_all
    then show ?thesis unfolding alloc_phase_def if_P [OF True] .
  next
    case False
    moreover have "N0 \<le> N1" unfolding assms(2,7) by (rule div_le_mono) simp
    ultimately have "N1 = N0" by simp
    then show ?thesis
      unfolding alloc_phase_def by (intro alloc_resultI [OF _ rdy]) auto
  qed
qed

lemma implicit_enqueue_bulk_rep:
  assumes prod: "prod_rep P p xs L" and rep: "pool_rep P F" and dis: "L \<inter> F = {}"
    and n: "unat cnt \<le> length items" "unat cnt < 2 ^ 63"
  shows "\<exists>b p' P' L' F'. implicit_enqueue_bulk am mem items cnt p P = Inr (b, p', P')
    \<and> prod_rep P' p' (if b then xs @ take (unat cnt) items else xs) L' \<and> pool_rep P' F' \<and> L' \<inter> F' = {}
    \<and> pool_frame (L \<union> F) P P' \<and> L' \<union> F' = L \<union> F \<union> {length (cblocks P)..<length (cblocks P')}
    \<and> (\<not> b \<longrightarrow> am = Cannot_alloc \<or> (\<exists>i. \<not> fst (mem i) \<or> \<not> snd (mem i)) \<or> 2 ^ 63 \<le> length xs + unat cnt + 31)"
proof -
  define n where "n = unat cnt"
  obtain c H N0 blk where core: "prod_core P p xs L c H N0 blk" and N0: "N0 = (H + length xs + 31) div 32"
    and tb: "H div 32 < N0 \<longrightarrow> tailBlock p = Some (blk (N0 - 1))"
    using prod unfolding prod_rep_def by blast
  define T where "T = H + length xs"
  define N1 where "N1 = (T + n + 31) div 32"
  have t: "tailIndex p = of_nat T" "32 * N0 < H + 2 ^ 63" using core unfolding T_def by (auto elim: prod_coreE)
  have n': "cnt = of_nat n" "n < 2 ^ 63" "n \<le> length items" using n by (simp_all add: n_def)
  note eq = enqueue_bulk_eq [OF t(1) n'(1,2) N0 [folded T_def] N1_def, of am mem items P]
  have pb: "T div 32 = N0 \<and> T mod 32 = 0 \<or> Suc (T div 32) = N0 \<and> T mod 32 \<noteq> 0" unfolding N0 T_def by (rule positions_blocks)
  have HT: "H div 32 \<le> T div 32" by (simp add: T_def div_le_mono)
  from alloc_phase_rep [OF core N0 tb rep dis n'(2) N1_def [unfolded T_def], of am mem, folded T_def]
  obtain ok first p1 P1 L1 F1 c1 N blk1 where al: "alloc_phase am mem T N0 N1 p P = Inr ((ok, first), p1, P1)"
    "bulk_ready P1 p1 xs L1 F1 c1 H N blk1 first" "\<forall>k < N0. blk1 k = blk k" "N0 \<le> N" "ok \<longrightarrow> N = N1"
    "pool_frame (L \<union> F) P P1" "L1 \<union> F1 = L \<union> F \<union> {length (cblocks P)..<length (cblocks P1)}"
    "ok \<or> am = Cannot_alloc \<or> (\<exists>i. \<not> fst (mem i) \<or> \<not> snd (mem i)) \<or> H + 2 ^ 63 \<le> 32 * N1"
    unfolding alloc_result_def by (elim exE conjE) (rule that; assumption)
  have d1: "pool_rep P1 F1" "L1 \<inter> F1 = {}" using al(2) by (simp_all add: bulk_ready_def)
  have tb1: "H div 32 < N0 \<longrightarrow> tailBlock p = Some (blk1 (N0 - 1))" using tb al(3) by simp
  have join: "pool_frame (L \<union> F) P P2 \<and> L2 \<union> F2 = L \<union> F \<union> {length (cblocks P)..<length (cblocks P2)}"
    if "pool_frame (L1 \<union> F1) P1 P2" "length (cblocks P2) = length (cblocks P1)" "L2 \<union> F2 = L1 \<union> F1" for P2 and L2 F2 :: "nat set"
    using that al(6,7) by (auto simp: pool_frame_def)
  show ?thesis
  proof (cases ok)
    case False
    from undone_rep [OF al(2), folded N0, OF t(2) tb1]
    obtain p2 P2 L2 F2 where un: "bulk_undo (length (cblocks P1)) (of_nat (32 * N0) - BLOCK_SIZE) first P1 p1 = Inr p2"
      "add_blocks_to_free_list (length (cblocks P1)) first P1 = Inr P2"
      "prod_rep P2 (p2\<lparr>tailBlock := tailBlock p\<rparr>) xs L2" "pool_rep P2 F2" "L2 \<inter> F2 = {}" "L2 \<union> F2 = L1 \<union> F1"
      "pool_frame (L1 \<union> F1) P1 P2" "length (cblocks P2) = length (cblocks P1)"
      by (elim exE conjE) (rule that; assumption)
    have "implicit_enqueue_bulk am mem items cnt p P = Inr (False, p2\<lparr>tailBlock := tailBlock p\<rparr>, P2)"
      unfolding eq al(1) using False un(1,2) by simp
    moreover have "32 * N1 \<le> H + (length xs + n + 31)"
      using div_times_less_eq_dividend [of "T + n + 31" 32] by (simp add: N1_def T_def mult.commute)
    ultimately show ?thesis using un(3-5) join [OF un(7,8,6)] al(8) False
      by (intro exI [of _ False] exI [of _ "p2\<lparr>tailBlock := tailBlock p\<rparr>"] exI [of _ P2] exI [of _ L2] exI [of _ F2]) (auto simp: n_def)
  next
    case ok: True
    then have N: "N = N1" using al(5) by simp
    show ?thesis
    proof (cases "T div 32 < N1")
      case True
      have tail: "T mod 32 \<noteq> 0 \<longrightarrow> tailBlock p = Some (blk1 (N0 - 1))" using tb1 pb HT by linarith
      have "first \<noteq> None" if "T mod 32 = 0"
        using al(2) True pb that unfolding bulk_ready_def T_def [symmetric] N0 [folded T_def, symmetric] N by simp
      then have guard: "T mod 32 \<noteq> 0 \<or> first \<noteq> None \<or> n = 0" by blast
      from filled_rep [OF al(2) [unfolded N N1_def T_def] n'(3,2) True [unfolded N1_def T_def] tail [unfolded T_def N0] refl, folded T_def, folded N1_def N0 [folded T_def]]
      obtain p2 P2 where pu: "bulk_put (Suc (N1 - N0)) (of_nat (T + n)) (tailBlock p1) (of_nat T) items
          (p1\<lparr>tailBlock := (if T mod 32 = 0 \<and> first \<noteq> None then first else tailBlock p)\<rparr>) P1 = Inr (p2, P2)"
        "prod_rep P2 (p2\<lparr>tailIndex := of_nat (T + n)\<rparr>) (xs @ take n items) L1" "pool_rep P2 F1"
        "pool_frame L1 P1 P2" "length (cblocks P2) = length (cblocks P1)"
        by (elim exE conjE) (rule that; assumption)
      have "implicit_enqueue_bulk am mem items cnt p P = Inr (True, p2\<lparr>tailIndex := of_nat (T + n)\<rparr>, P2)"
        unfolding eq al(1) using ok guard pu(1) by simp
      moreover have "pool_frame (L1 \<union> F1) P1 P2" by (rule pool_frame_mono [OF pu(4)]) simp
      note join [OF this pu(5) refl]
      ultimately show ?thesis using pu(2,3) d1(2)
        by (intro exI [of _ True] exI [of _ "p2\<lparr>tailIndex := of_nat (T + n)\<rparr>"] exI [of _ P2] exI [of _ L1] exI [of _ F1]) (simp add: n_def)
    next
      case False
      then have z: "n = 0" "N1 = N0" "T mod 32 = 0" using al(4) pb N unfolding N1_def by (elim disjE conjE; simp)+
      have "implicit_enqueue_bulk am mem items cnt p P = Inr (True, p, P)"
        unfolding eq alloc_phase_def using z t(1) bulk_end_rep [of 0 T] by (simp add: bulk_fill_def)
      then show ?thesis using prod rep dis z(1)
        by (intro exI [of _ True] exI [of _ p] exI [of _ P] exI [of _ L] exI [of _ F]) (simp add: n_def)
    qed
  qed
qed

subsection \<open>The queue\<close>

lemma cq_enqueue_bulk_rep:
  assumes rep: "cq_rep q M xss Ls F" and tid: "tid \<noteq> invalid_thread_id" "pok \<longrightarrow> xok" and n: "unat cnt \<le> length items" "unat cnt < 2 ^ 63"
  shows "\<exists>b q' M' xss' Ls' F'. cq_inner_enqueue_bulk am tid (hok, pok, xok) mem items cnt q = Inr (b, q') \<and> cq_rep q' M' xss' Ls' F'
    \<and> lanes_of M' xss' = (if b then (lanes_of M xss)(tid := lanes_of M xss tid @ take (unat cnt) items) else lanes_of M xss)
    \<and> (\<not> b \<longrightarrow> am = Cannot_alloc \<or> \<not> hok \<or> \<not> pok \<or> (\<exists>i. \<not> fst (mem i) \<or> \<not> snd (mem i)) \<or> 2 ^ 56 \<le> length (producers q)
         \<or> 2 ^ 63 \<le> length (lanes_of M xss tid) + unat cnt + 31)"
proof -
  from owner_rep [OF rep tid, of hok]
  obtain r q1 where g: "get_or_add_implicit_producer tid (hok, pok, xok) q = Inr (r, q1)" "case r of
       None \<Rightarrow> cq_rep q1 M xss Ls F \<and> (\<not> hok \<or> \<not> pok \<or> 2 ^ 56 \<le> length (producers q))
     | Some k \<Rightarrow> k < length (producers q1) \<and>
         (\<exists>M1 xss1 Ls1. cq_rep q1 M1 xss1 Ls1 F \<and> M1 tid = Some k \<and> lanes_of M1 xss1 = lanes_of M xss \<and> xss1 ! k = lanes_of M xss tid)"
    by (elim exE conjE) (rule that; assumption)
  show ?thesis
  proof (cases r)
    case None
    then have "cq_inner_enqueue_bulk am tid (hok, pok, xok) mem items cnt q = Inr (False, q1)" using g(1) by (simp add: cq_inner_enqueue_bulk_def)
    then show ?thesis using g(2) None
      by (intro exI [of _ False] exI [of _ q1] exI [of _ M] exI [of _ xss] exI [of _ Ls] exI [of _ F]) auto
  next
    case (Some k)
    then have k: "k < length (producers q1)" using g(2) by simp
    obtain M1 xss1 Ls1 where r1: "cq_rep q1 M1 xss1 Ls1 F" "M1 tid = Some k" "lanes_of M1 xss1 = lanes_of M xss" "xss1 ! k = lanes_of M xss tid"
      using g(2) Some by auto
    note a = cq_repD [OF r1(1)]
    from implicit_enqueue_bulk_rep [OF a(7) [OF k] a(6) a(8) [OF k] n, of am mem]
    obtain b p P L' F' where e: "implicit_enqueue_bulk am mem items cnt (node_prod (producers q1 ! k)) (blockPool q1) = Inr (b, p, P)"
      "prod_rep P p (if b then xss1 ! k @ take (unat cnt) items else xss1 ! k) L'" "pool_rep P F'" "L' \<inter> F' = {}"
      "pool_frame (Ls1 ! k \<union> F) (blockPool q1) P" "L' \<union> F' = Ls1 ! k \<union> F \<union> {length (cblocks (blockPool q1))..<length (cblocks P)}"
      "\<not> b \<longrightarrow> am = Cannot_alloc \<or> (\<exists>i. \<not> fst (mem i) \<or> \<not> snd (mem i)) \<or> 2 ^ 63 \<le> length (xss1 ! k) + unat cnt + 31"
      by (elim exE conjE) (rule that; assumption)
    note rep' = set_producer_rep [OF r1(1) k e(2-6)]
    have "lanes_of M1 (xss1[k := if b then xss1 ! k @ take (unat cnt) items else xss1 ! k])
        = (if b then (lanes_of M xss)(tid := lanes_of M xss tid @ take (unat cnt) items) else lanes_of M xss)"
      using lanes_of_upd [of M1 xss1 tid k] r1(2) a(3,4) r1(3,4) by simp
    moreover have "cq_inner_enqueue_bulk am tid (hok, pok, xok) mem items cnt q = Inr (b, set_producer k p P q1)"
      using g(1) Some e(1) by (simp add: cq_inner_enqueue_bulk_def)
    ultimately show ?thesis using rep' e(7) unfolding r1(4) by blast
  qed
qed

lemma cq_enqueue_bulk_lanes:
  assumes inv: "cq_inv q" and tid: "tid \<noteq> invalid_thread_id" "pok \<longrightarrow> xok" and n: "unat cnt \<le> length items" "unat cnt < 2 ^ 63"
  shows "\<exists>b q'. cq_inner_enqueue_bulk am tid (hok, pok, xok) mem items cnt q = Inr (b, q') \<and> cq_inv q'
    \<and> cq_lane q' = (if b then (cq_lane q)(tid := cq_lane q tid @ take (unat cnt) items) else cq_lane q)
    \<and> (\<Sum>t \<in> UNIV. length (cq_lane q' t)) = (\<Sum>t \<in> UNIV. length (cq_lane q t)) + (if b then unat cnt else 0)
    \<and> (\<not> b \<longrightarrow> am = Cannot_alloc \<or> \<not> hok \<or> \<not> pok \<or> (\<exists>i. \<not> fst (mem i) \<or> \<not> snd (mem i)) \<or> 2 ^ 56 \<le> length (producers q)
         \<or> 2 ^ 63 \<le> length (cq_lane q tid) + unat cnt + 31)"
proof -
  obtain M xss Ls F where rep: "cq_rep q M xss Ls F" using inv unfolding cq_inv_def by blast
  note lane = cq_lane_rep [OF rep]
  from cq_enqueue_bulk_rep [OF rep tid n, of am hok mem]
  obtain b q' M' xss' Ls' F' where e: "cq_inner_enqueue_bulk am tid (hok, pok, xok) mem items cnt q = Inr (b, q')" "cq_rep q' M' xss' Ls' F'"
    "lanes_of M' xss' = (if b then (lanes_of M xss)(tid := lanes_of M xss tid @ take (unat cnt) items) else lanes_of M xss)"
    "\<not> b \<longrightarrow> am = Cannot_alloc \<or> \<not> hok \<or> \<not> pok \<or> (\<exists>i. \<not> fst (mem i) \<or> \<not> snd (mem i)) \<or> 2 ^ 56 \<le> length (producers q)
         \<or> 2 ^ 63 \<le> length (lanes_of M xss tid) + unat cnt + 31"
    by (elim exE conjE) (rule that; assumption)
  have lane': "cq_lane q' = (if b then (cq_lane q)(tid := cq_lane q tid @ take (unat cnt) items) else cq_lane q)"
    unfolding cq_lane_rep [OF e(2)] lane by (rule e(3))
  have "(\<Sum>t \<in> UNIV. length (cq_lane q' t)) = (\<Sum>t \<in> UNIV. length (cq_lane q t) + (if t = tid then (if b then unat cnt else 0) else 0))"
    unfolding lane' using n(1) by (intro sum.cong) auto
  then have "(\<Sum>t \<in> UNIV. length (cq_lane q' t)) = (\<Sum>t \<in> UNIV. length (cq_lane q t)) + (if b then unat cnt else 0)"
    by (simp add: sum.distrib)
  moreover have "cq_inv q'" using e(2) unfolding cq_inv_def by blast
  ultimately show ?thesis using e(1,4) lane' unfolding lane [symmetric] by (intro exI conjI)
qed

subsection \<open>Properties\<close>

text \<open>
  C14: adding several elements at once is all or nothing. In every state that enqueues and dequeues reach from construction,
  \<open>enqueue_bulk\<close> (and \<open>try_enqueue_bulk\<close>) ends without error. Either it reports success, and then exactly the elements of the input
  are appended, in order, to the lane of the calling thread; or it reports failure and leaves every lane as it was, whatever
  number of blocks it had obtained before memory ran out. It fails only when it may not allocate, when an allocation fails or
  when the sub-queue would hold about \<open>2 ^ 63\<close> positions.
\<close>

theorem enqueue_bulk_all_or_nothing:
  assumes "\<forall>m x. Enq m x \<in> set ops \<longrightarrow> env_valid (snd m)"
    and "run_ops (\<lambda>m. cq_inner_enqueue (fst m) (snd m)) cq_try_dequeue ops (ConcurrentQueue_new malloc_ok capac) = Inr (evs, q)"
    and "tid \<noteq> invalid_thread_id" "pok \<longrightarrow> xok" "unat cnt \<le> length items" "unat cnt < 2 ^ 63"
  shows "\<exists>b q'. cq_inner_enqueue_bulk am tid (hok, pok, xok) mem items cnt q = Inr (b, q')
    \<and> cq_lane q' = (if b then (cq_lane q)(tid := cq_lane q tid @ take (unat cnt) items) else cq_lane q)
    \<and> cq_size_approx q' = Inr (of_nat (length (accepted evs) - length (got evs) + (if b then unat cnt else 0)))
    \<and> (\<not> b \<longrightarrow> am = Cannot_alloc \<or> \<not> hok \<or> \<not> pok \<or> (\<exists>i. \<not> fst (mem i) \<or> \<not> snd (mem i)) \<or> 2 ^ 56 \<le> length (producers q)
         \<or> 2 ^ 63 \<le> length (cq_lane q tid) + unat cnt + 31)"
proof -
  have q: "cq_inv q" "(\<Sum>t \<in> UNIV. length (cq_lane q t)) + length (got evs) = length (accepted evs)"
    using cq_run [OF assms(1), of malloc_ok "initial_block_count capac"] assms(2) unfolding ConcurrentQueue_new_def by auto
  have held: "length (accepted evs) - length (got evs) = (\<Sum>t \<in> UNIV. length (cq_lane q t))" using q(2) by linarith
  from cq_enqueue_bulk_lanes [OF q(1) assms(3-6), of am hok mem]
  obtain b q' where e: "cq_inner_enqueue_bulk am tid (hok, pok, xok) mem items cnt q = Inr (b, q')" "cq_inv q'"
    "cq_lane q' = (if b then (cq_lane q)(tid := cq_lane q tid @ take (unat cnt) items) else cq_lane q)"
    "(\<Sum>t \<in> UNIV. length (cq_lane q' t)) = (\<Sum>t \<in> UNIV. length (cq_lane q t)) + (if b then unat cnt else 0)"
    "\<not> b \<longrightarrow> am = Cannot_alloc \<or> \<not> hok \<or> \<not> pok \<or> (\<exists>i. \<not> fst (mem i) \<or> \<not> snd (mem i)) \<or> 2 ^ 56 \<le> length (producers q)
         \<or> 2 ^ 63 \<le> length (cq_lane q tid) + unat cnt + 31"
    by (elim exE conjE) (rule that; assumption)
  have "cq_size_approx q' = Inr (of_nat (length (accepted evs) - length (got evs) + (if b then unat cnt else 0)))"
    using cq_size_lanes [OF e(2)] unfolding held e(4) .
  then show ?thesis using e(1,3,5) by (intro exI conjI)
qed

text \<open>Forty elements, which need two blocks.\<close>

theorem enqueue_bulk_all_or_nothing_witness:
  "\<exists>q'. cq_inner_enqueue_bulk Can_alloc 64 (True, True, True) (\<lambda>_. (True, True)) [0 ..< 40] 40 (ConcurrentQueue_new True 256) = Inr (True, q')
    \<and> cq_lane q' 64 = [0 ..< 40] \<and> cq_size_approx q' = Inr 40"
proof -
  let ?q = "ConcurrentQueue_new True 256 :: nat cqueue"
  have run: "run_ops (\<lambda>m. cq_inner_enqueue (fst m) (snd m)) cq_try_dequeue [] ?q = Inr ([], ?q)" by simp
  have "cq_lane ?q = lanes_of Map.empty []"
    using cq_lane_rep [OF cqueue_new_rep [of True "initial_block_count 256"]] unfolding ConcurrentQueue_new_def .
  then have lane: "cq_lane ?q 64 = []" "producers ?q = []"
    by (simp add: lanes_of_def) (simp add: ConcurrentQueue_new_def cqueue_of_blocks_def)
  have c: "unat (40 :: u64) = 40" by simp
  from enqueue_bulk_all_or_nothing [OF _ run, of 64 True True 40 "[0 ..< 40]" Can_alloc True "\<lambda>_. (True, True)"]
  obtain b q' where b: "cq_inner_enqueue_bulk Can_alloc 64 (True, True, True) (\<lambda>_. (True, True)) [0 ..< 40] 40 ?q = Inr (b, q')"
    "cq_lane q' = (if b then (cq_lane ?q)(64 := cq_lane ?q 64 @ take 40 [0 ..< 40]) else cq_lane ?q)"
    "cq_size_approx q' = Inr (of_nat (if b then 40 else 0))" "b"
    unfolding c lane by (auto simp: invalid_thread_id_def)
  have "cq_lane q' 64 = [0 ..< 40]" "cq_size_approx q' = Inr 40" using b(2-4) lane(1) by simp_all
  then show ?thesis using b(1,4) by auto
qed

end
