(* ===== verification/ExplicitProducer.thy ===== *)
theory ExplicitProducer
  imports QueueBulkPut
begin

text \<open>
  \<open>source/utils/concurrentqueue.h\<close>: \<open>ExplicitProducer\<close>, the sub-queue behind a producer token. It
  keeps its blocks for itself, in a circular list through \<open>block_next\<close> that ends at the tail block: a block that is
  empty again is the next one to be filled, and a new block is requisitioned from the pool only when the block ahead is still in use.
  Consumers find a block through the block index, a ring buffer of pairs (first position of a block, block)
  that doubles when every slot is used.

  \<open>pr_blockIndexEntries\<close>, \<open>pr_blockIndexRaw\<close> and \<open>blockIndex\<close> point into the same allocation, the current index
  (\<open>None\<close>: its allocation has failed so far). Earlier indices stay allocated until the producer is destroyed and are not read in a
  sequential run, so only the current one is kept; an entry that was never written is \<open>None\<close>. A constructor of the
  element type may throw; moving an element out does not. One operation runs at a time.
\<close>

record BlockIndexEntry =
  ie_base :: u64
  ie_block :: "nat option"

record BlockIndexHeader =
  header_size :: u64
  header_front :: u64
  header_entries :: "BlockIndexEntry option list"

record explicit_producer =
  ep_tailIndex :: u64
  ep_headIndex :: u64
  ep_dequeueOptimisticCount :: u64
  ep_dequeueOvercommit :: u64
  ep_tailBlock :: "nat option"
  ep_blockIndex :: "BlockIndexHeader option"
  pr_blockIndexSlotsUsed :: u64
  pr_blockIndexSize :: u64
  pr_blockIndexFront :: u64

definition EXPLICIT_INITIAL_INDEX_SIZE :: u64 where
  "EXPLICIT_INITIAL_INDEX_SIZE = 32"

subsection \<open>The block index\<close>

text \<open>The loop that copies the entries in use, from the oldest one around to \<open>pr_blockIndexFront\<close>.\<close>

fun copy_entries :: "nat \<Rightarrow> BlockIndexEntry option list \<Rightarrow> u64 \<Rightarrow> u64 \<Rightarrow> u64 \<Rightarrow> cq_error + BlockIndexEntry option list" where
  "copy_entries 0 es sizeMask front i = Inl Cq_diverges"
| "copy_entries (Suc fuel) es sizeMask front i =
     (let e = es ! unat i;
          i = (i + 1) AND sizeMask
      in if i \<noteq> front then bindE (copy_entries fuel es sizeMask front i) (\<lambda>es'. Inr (e # es')) else Inr [e])"

definition explicit_new_block_index :: "bool \<Rightarrow> u64 \<Rightarrow> explicit_producer \<Rightarrow> cq_error + bool \<times> explicit_producer" where
  "explicit_new_block_index malloc_ok numberOfFilledSlotsToExpose p =
     (let prevBlockSizeMask = pr_blockIndexSize p - 1;
          newSize = push_bit 1 (pr_blockIndexSize p)
      in if \<not> malloc_ok then Inr (False, p)
         else
           bindE (if pr_blockIndexSlotsUsed p \<noteq> 0
                  then (case ep_blockIndex p of
                          None \<Rightarrow> Inl Cq_null_pointer
                        | Some prev \<Rightarrow>
                            copy_entries (length (header_entries prev)) (header_entries prev) prevBlockSizeMask (pr_blockIndexFront p)
                              ((pr_blockIndexFront p - pr_blockIndexSlotsUsed p) AND prevBlockSizeMask))
                  else Inr [])
             (\<lambda>es. let header = \<lparr>header_size = newSize, header_front = numberOfFilledSlotsToExpose - 1,
                                header_entries = es @ replicate (unat newSize - length es) None\<rparr>
                   in Inr (True, p\<lparr>pr_blockIndexSize := newSize, pr_blockIndexFront := of_nat (length es),
                                  ep_blockIndex := Some header\<rparr>)))"

text \<open>Write the entry of the tail block at \<open>pr_blockIndexFront\<close>, and step on.\<close>

definition add_index_entry :: "u64 \<Rightarrow> explicit_producer \<Rightarrow> cq_error + explicit_producer" where
  "add_index_entry currentTailIndex p =
     (case ep_blockIndex p of
        None \<Rightarrow> Inl Cq_null_pointer
      | Some h \<Rightarrow>
          let entry = \<lparr>ie_base = currentTailIndex, ie_block = ep_tailBlock p\<rparr>
          in Inr (p\<lparr>ep_blockIndex := Some (h\<lparr>header_entries := (header_entries h)[unat (pr_blockIndexFront p) := Some entry]\<rparr>),
                    pr_blockIndexFront := (pr_blockIndexFront p + 1) AND (pr_blockIndexSize p - 1)\<rparr>))"

definition publish_front :: "u64 \<Rightarrow> explicit_producer \<Rightarrow> explicit_producer" where
  "publish_front front p = p\<lparr>ep_blockIndex := map_option (\<lambda>h. h\<lparr>header_front := front\<rparr>) (ep_blockIndex p)\<rparr>"

text \<open>
  Where the entry of the block of position \<open>index\<close> is. As in the implicit producer, the division is by a \<open>size_t\<close>, so it is
  the unsigned one.
\<close>

definition header_entry :: "BlockIndexHeader \<Rightarrow> nat \<Rightarrow> BlockIndexEntry option" where
  "header_entry h i = (if i < length (header_entries h) then header_entries h ! i else None)"

definition explicit_entry_index :: "u64 \<Rightarrow> explicit_producer \<Rightarrow> cq_error + nat" where
  "explicit_entry_index index p =
     (case ep_blockIndex p of
        None \<Rightarrow> Inl Cq_null_pointer
      | Some localBlockIndex \<Rightarrow>
          let localBlockIndexHead = header_front localBlockIndex
          in case header_entry localBlockIndex (unat localBlockIndexHead) of
               None \<Rightarrow> Inl Cq_bad_slot
             | Some e \<Rightarrow>
                 let headBase = ie_base e;
                     blockBaseIndex = index AND NOT (BLOCK_SIZE - 1);
                     offset = (blockBaseIndex - headBase) div BLOCK_SIZE
                 in Inr (unat ((localBlockIndexHead + offset) AND (header_size localBlockIndex - 1))))"

definition explicit_entry_block :: "nat \<Rightarrow> explicit_producer \<Rightarrow> cq_error + nat" where
  "explicit_entry_block i p =
     (case ep_blockIndex p of
        None \<Rightarrow> Inl Cq_null_pointer
      | Some localBlockIndex \<Rightarrow>
          (case header_entry localBlockIndex i of
             None \<Rightarrow> Inl Cq_bad_slot
           | Some e \<Rightarrow> (case ie_block e of None \<Rightarrow> Inl Cq_null_pointer | Some block \<Rightarrow> Inr block)))"

subsection \<open>Construction\<close>

text \<open>The constructor ignores whether \<open>new_block_index\<close> succeeded: the first enqueue tries again.\<close>

definition ExplicitProducer_new :: "bool \<Rightarrow> 'a pool \<Rightarrow> cq_error + explicit_producer" where
  "ExplicitProducer_new malloc_ok parent =
     (let p = \<lparr>ep_tailIndex = 0, ep_headIndex = 0, ep_dequeueOptimisticCount = 0, ep_dequeueOvercommit = 0, ep_tailBlock = None,
               ep_blockIndex = None, pr_blockIndexSlotsUsed = 0, pr_blockIndexSize = drop_bit 1 EXPLICIT_INITIAL_INDEX_SIZE,
               pr_blockIndexFront = 0\<rparr>;
          poolBasedIndexSize = drop_bit 1 (ceil_to_pow_2 (initialBlockPoolSize parent));
          p = (if poolBasedIndexSize > pr_blockIndexSize p then p\<lparr>pr_blockIndexSize := poolBasedIndexSize\<rparr> else p)
      in bindE (explicit_new_block_index malloc_ok 0 p) (\<lambda>(_, p). Inr p))"

subsection \<open>Enqueue\<close>

datatype enqueue_result = Enqueued | Not_enqueued | Threw

text \<open>Insert a block in the circular list, after the tail block, and make it the tail block.\<close>

definition insert_block :: "nat \<Rightarrow> explicit_producer \<Rightarrow> 'a pool \<Rightarrow> explicit_producer \<times> 'a pool" where
  "insert_block newBlock p P =
     (let P = (case ep_tailBlock p of
                 None \<Rightarrow> upd_cblock newBlock (\<lambda>b. b\<lparr>block_next := Some newBlock\<rparr>) P
               | Some t \<Rightarrow>
                   let P = upd_cblock newBlock (\<lambda>b. b\<lparr>block_next := block_next (cblocks P ! t)\<rparr>) P
                   in upd_cblock t (\<lambda>b. b\<lparr>block_next := Some newBlock\<rparr>) P)
      in (p\<lparr>ep_tailBlock := Some newBlock\<rparr>, P))"

text \<open>A new block for the positions from \<open>currentTailIndex\<close> on; \<open>False\<close> if there is none.\<close>

definition requisition_tail_block ::
  "alloc_mode \<times> bool \<times> bool \<Rightarrow> u64 \<Rightarrow> explicit_producer \<Rightarrow> 'a pool \<Rightarrow> cq_error + bool \<times> explicit_producer \<times> 'a pool" where
  "requisition_tail_block m currentTailIndex p P =
     (let (allocMode, index_ok, block_ok) = m;
          head = ep_headIndex p
      in if circular_less_than currentTailIndex head then Inl Cq_assertion_failed
         else if is_full head currentTailIndex then Inr (False, p, P)
         else
           bindE (if ep_blockIndex p = None \<or> pr_blockIndexSlotsUsed p = pr_blockIndexSize p
                  then (if allocMode = Cannot_alloc then Inr (False, p)
                        else explicit_new_block_index index_ok (pr_blockIndexSlotsUsed p) p)
                  else Inr (True, p))
             (\<lambda>(ok, p).
                if \<not> ok then Inr (False, p, P)
                else
                  bindE (requisition_block allocMode block_ok P)
                    (\<lambda>(r, P). case r of
                       None \<Rightarrow> Inr (False, p, P)
                     | Some newBlock \<Rightarrow>
                         let P = upd_cblock newBlock (reset_empty explicit_context) P;
                             (p, P) = insert_block newBlock p P
                         in Inr (True, p\<lparr>pr_blockIndexSlotsUsed := pr_blockIndexSlotsUsed p + 1\<rparr>, P))))"

text \<open>The block after the tail block, if there is a tail block and the one after it is empty.\<close>

definition block_ahead :: "explicit_producer \<Rightarrow> 'a pool \<Rightarrow> cq_error + nat option" where
  "block_ahead p P =
     (case ep_tailBlock p of
        None \<Rightarrow> Inr None
      | Some t \<Rightarrow>
          (case block_next (cblocks P ! t) of
             None \<Rightarrow> Inl Cq_null_pointer
           | Some n \<Rightarrow> bindE (is_empty explicit_context (cblocks P ! n)) (\<lambda>e. Inr (if e then Some n else None))))"

definition next_tail_block ::
  "alloc_mode \<times> bool \<times> bool \<Rightarrow> u64 \<Rightarrow> explicit_producer \<Rightarrow> 'a pool \<Rightarrow> cq_error + bool \<times> explicit_producer \<times> 'a pool" where
  "next_tail_block m currentTailIndex p P =
     bindE (block_ahead p P)
       (\<lambda>r. case r of
          Some n \<Rightarrow> Inr (True, p\<lparr>ep_tailBlock := Some n\<rparr>, upd_cblock n (reset_empty explicit_context) P)
        | None \<Rightarrow> requisition_tail_block m currentTailIndex p P)"

definition explicit_put :: "u64 \<Rightarrow> 'a \<Rightarrow> explicit_producer \<Rightarrow> 'a pool \<Rightarrow> cq_error + explicit_producer \<times> 'a pool" where
  "explicit_put currentTailIndex element p P =
     (case ep_tailBlock p of
        None \<Rightarrow> Inl Cq_null_pointer
      | Some b \<Rightarrow>
          Inr (p\<lparr>ep_tailIndex := 1 + currentTailIndex\<rparr>,
               upd_cblock b (\<lambda>blk. blk\<lparr>elements := (elements blk)[slot currentTailIndex := Some element]\<rparr>) P))"

text \<open>
  \<open>enqueue\<close>; \<open>throws\<close> says whether the constructor of the element throws. The code writes the index entry after the
  element when the constructor may throw and before it when it cannot; the two writes go to different objects.
\<close>

definition explicit_enqueue ::
  "alloc_mode \<times> bool \<times> bool \<Rightarrow> bool \<Rightarrow> 'a \<Rightarrow> explicit_producer \<Rightarrow> 'a pool
     \<Rightarrow> cq_error + enqueue_result \<times> explicit_producer \<times> 'a pool" where
  "explicit_enqueue m throws element p P =
     (let currentTailIndex = ep_tailIndex p
      in if currentTailIndex AND (BLOCK_SIZE - 1) \<noteq> 0
         then if throws then Inr (Threw, p, P)
              else bindE (explicit_put currentTailIndex element p P) (\<lambda>(p, P). Inr (Enqueued, p, P))
         else
           let startBlock = ep_tailBlock p;
               originalBlockIndexSlotsUsed = pr_blockIndexSlotsUsed p
           in bindE (next_tail_block m currentTailIndex p P)
                (\<lambda>(ok, p, P).
                   if \<not> ok then Inr (Not_enqueued, p, P)
                   else if throws
                   then Inr (Threw, p\<lparr>pr_blockIndexSlotsUsed := originalBlockIndexSlotsUsed,
                                    ep_tailBlock := (if startBlock = None then ep_tailBlock p else startBlock)\<rparr>, P)
                   else
                     let front = pr_blockIndexFront p
                     in bindE (add_index_entry currentTailIndex p)
                          (\<lambda>p. bindE (explicit_put currentTailIndex element (publish_front front p) P)
                             (\<lambda>(p, P). Inr (Enqueued, p, P)))))"

subsection \<open>Dequeue\<close>

definition explicit_dequeue :: "explicit_producer \<Rightarrow> 'a pool \<Rightarrow> cq_error + 'a option \<times> explicit_producer \<times> 'a pool" where
  "explicit_dequeue p P =
     (let tail = ep_tailIndex p;
          overcommit = ep_dequeueOvercommit p
      in if \<not> circular_less_than (ep_dequeueOptimisticCount p - overcommit) tail then Inr (None, p, P)
         else
           let myDequeueCount = ep_dequeueOptimisticCount p;
               p = p\<lparr>ep_dequeueOptimisticCount := myDequeueCount + 1\<rparr>
           in if \<not> overcommit \<le> myDequeueCount then Inl Cq_assertion_failed
              else if circular_less_than (myDequeueCount - overcommit) (ep_tailIndex p) then
                let index = ep_headIndex p;
                    p = p\<lparr>ep_headIndex := index + 1\<rparr>
                in bindE (bindE (explicit_entry_index index p) (\<lambda>i. explicit_entry_block i p))
                     (\<lambda>block. case elements (cblocks P ! block) ! slot index of
                        None \<Rightarrow> Inl Cq_bad_slot
                      | Some el \<Rightarrow>
                          let P = upd_cblock block (\<lambda>b. b\<lparr>elements := (elements b)[slot index := None]\<rparr>) P
                          in bindE (set_empty explicit_context index (cblocks P ! block))
                               (\<lambda>(_, b). Inr (Some el, p, upd_cblock block (\<lambda>_. b) P)))
              else Inr (None, p\<lparr>ep_dequeueOvercommit := overcommit + 1\<rparr>, P))"

text \<open>The loop over the blocks of \<open>dequeue_bulk\<close>; \<open>stop\<close> is \<open>firstIndex + actualCount\<close>.\<close>

fun explicit_bulk_blocks ::
  "nat \<Rightarrow> u64 \<Rightarrow> nat \<Rightarrow> u64 \<Rightarrow> explicit_producer \<Rightarrow> 'a pool \<Rightarrow> cq_error + 'a list \<times> 'a pool" where
  "explicit_bulk_blocks 0 stop indexIndex index p P = Inl Cq_diverges"
| "explicit_bulk_blocks (Suc fuel) stop indexIndex index p P =
     (let firstIndexInBlock = index;
          endIndex = bulk_end stop index
      in bindE (explicit_entry_block indexIndex p)
           (\<lambda>block. bindE (take_elements endIndex index (cblocks P ! block))
              (\<lambda>(els, b).
                 bindE (set_many_empty explicit_context firstIndexInBlock (unat (endIndex - firstIndexInBlock)) b)
                   (\<lambda>(_, b).
                      let P = upd_cblock block (\<lambda>_. b) P;
                          indexIndex = unat ((of_nat indexIndex + 1) AND
                            (case ep_blockIndex p of None \<Rightarrow> 0 | Some h \<Rightarrow> header_size h - 1))
                      in if endIndex \<noteq> stop
                         then bindE (explicit_bulk_blocks fuel stop indexIndex endIndex p P) (\<lambda>(els', P). Inr (els @ els', P))
                         else Inr (els, P)))))"

definition explicit_dequeue_bulk ::
  "u64 \<Rightarrow> explicit_producer \<Rightarrow> 'a pool \<Rightarrow> cq_error + (u64 \<times> 'a list) \<times> explicit_producer \<times> 'a pool" where
  "explicit_dequeue_bulk mx p P =
     (let tail = ep_tailIndex p;
          overcommit = ep_dequeueOvercommit p;
          desiredCount = tail - (ep_dequeueOptimisticCount p - overcommit)
      in if \<not> circular_less_than 0 desiredCount then Inr ((0, []), p, P)
         else
           let desiredCount = (if desiredCount < mx then desiredCount else mx);
               myDequeueCount = ep_dequeueOptimisticCount p;
               p = p\<lparr>ep_dequeueOptimisticCount := myDequeueCount + desiredCount\<rparr>
           in if \<not> overcommit \<le> myDequeueCount then Inl Cq_assertion_failed
              else
                let tail = ep_tailIndex p;
                    actualCount = tail - (myDequeueCount - overcommit)
                in if circular_less_than 0 actualCount then
                     let actualCount = (if desiredCount < actualCount then desiredCount else actualCount);
                         p = (if actualCount < desiredCount
                              then p\<lparr>ep_dequeueOvercommit := ep_dequeueOvercommit p + (desiredCount - actualCount)\<rparr> else p);
                         firstIndex = ep_headIndex p;
                         p = p\<lparr>ep_headIndex := firstIndex + actualCount\<rparr>
                     in bindE (explicit_entry_index firstIndex p)
                          (\<lambda>indexIndex.
                             bindE (explicit_bulk_blocks (Suc (unat actualCount)) (firstIndex + actualCount) indexIndex firstIndex p P)
                               (\<lambda>(els, P). Inr ((actualCount, els), p, P)))
                   else Inr ((0, []), p\<lparr>ep_dequeueOvercommit := ep_dequeueOvercommit p + desiredCount\<rparr>, P))"

subsection \<open>The block index as a map\<close>

text \<open>
  The blocks in the circular list are numbered \<open>M ..< N\<close>, by the positions they have or had last: \<open>blk k\<close> is for the positions
  \<open>32 * k ..< 32 * k + 32\<close>. Its entry is \<open>N - 1 - k\<close> slots before the front.
\<close>

definition xentry :: "BlockIndexHeader \<Rightarrow> nat \<Rightarrow> nat \<Rightarrow> BlockIndexEntry option" where
  "xentry h n j = header_entries h ! ring_back n (unat (header_front h)) j"

definition index_filled :: "nat \<Rightarrow> explicit_producer \<Rightarrow> BlockIndexHeader \<Rightarrow> nat \<Rightarrow> nat \<Rightarrow> (nat \<Rightarrow> nat) \<Rightarrow> bool" where
  "index_filled c p h M N blk \<longleftrightarrow> unat (header_size h) = 2 ^ c \<and> length (header_entries h) = 2 ^ c
     \<and> unat (pr_blockIndexFront p) < 2 ^ c
     \<and> (M < N \<longrightarrow> unat (header_front h) < 2 ^ c \<and> unat (pr_blockIndexFront p) = (unat (header_front h) + 1) mod 2 ^ c)
     \<and> (\<forall>k. M \<le> k \<and> k < N \<longrightarrow> xentry h (2 ^ c) (N - 1 - k) = Some \<lparr>ie_base = of_nat (32 * k), ie_block = Some (blk k)\<rparr>)"

definition xindex_rep :: "nat \<Rightarrow> explicit_producer \<Rightarrow> nat \<Rightarrow> nat \<Rightarrow> (nat \<Rightarrow> nat) \<Rightarrow> bool" where
  "xindex_rep c p M N blk \<longleftrightarrow> 1 \<le> c \<and> c \<le> 59 \<and> unat (pr_blockIndexSize p) = 2 ^ c \<and> M \<le> N \<and> N - M \<le> 2 ^ c
     \<and> pr_blockIndexSlotsUsed p = of_nat (N - M)
     \<and> (case ep_blockIndex p of None \<Rightarrow> M = N \<and> c \<le> 58 | Some h \<Rightarrow> index_filled c p h M N blk)"

lemma xindex_repD:
  assumes "xindex_rep c p M N blk"
  shows "1 \<le> c" "c \<le> 59" "unat (pr_blockIndexSize p) = 2 ^ c" "M \<le> N" "N - M \<le> 2 ^ c" "pr_blockIndexSlotsUsed p = of_nat (N - M)"
    "ep_blockIndex p = None \<Longrightarrow> M = N" "ep_blockIndex p = None \<Longrightarrow> c \<le> 58"
    "ep_blockIndex p = Some h \<Longrightarrow> index_filled c p h M N blk"
  using assms by (auto simp: xindex_rep_def)

lemma index_filledD:
  assumes "index_filled c p h M N blk"
  shows "unat (header_size h) = 2 ^ c" "length (header_entries h) = 2 ^ c" "unat (pr_blockIndexFront p) < 2 ^ c"
    "M < N \<Longrightarrow> unat (header_front h) < 2 ^ c" "M < N \<Longrightarrow> unat (pr_blockIndexFront p) = (unat (header_front h) + 1) mod 2 ^ c"
    "M \<le> k \<Longrightarrow> k < N \<Longrightarrow> xentry h (2 ^ c) (N - 1 - k) = Some \<lparr>ie_base = of_nat (32 * k), ie_block = Some (blk k)\<rparr>"
  using assms by (simp_all add: index_filled_def del: of_nat_mult)

lemma xindex_rep_cong:
  "xindex_rep c p M N blk \<Longrightarrow> ep_blockIndex p' = ep_blockIndex p \<Longrightarrow> pr_blockIndexSlotsUsed p' = pr_blockIndexSlotsUsed p
    \<Longrightarrow> pr_blockIndexSize p' = pr_blockIndexSize p \<Longrightarrow> pr_blockIndexFront p' = pr_blockIndexFront p \<Longrightarrow> xindex_rep c p' M N blk"
  by (simp add: xindex_rep_def index_filled_def cong: option.case_cong)

text \<open>Looking up the block of a position.\<close>

lemma xlookup:
  assumes rep: "xindex_rep c p M N blk" and k: "M \<le> k" "k < N" and H: "H div 32 = k" and h: "ep_blockIndex p = Some h"
  defines "i \<equiv> ring_back (2 ^ c) (unat (header_front h)) (N - 1 - k)"
  shows "explicit_entry_index (of_nat H) p = Inr i" "explicit_entry_block i p = Inr (blk k)"
proof -
  note a = xindex_repD [OF rep]
  note f = index_filledD [OF a(9) [OF h]]
  define n :: nat where "n = 2 ^ c"
  define t where "t = unat (header_front h)"
  have MN: "M < N" using k by simp
  have t: "t < n" using f(4) [OF MN] by (simp add: t_def n_def)
  have i: "i < n" unfolding i_def n_def by (rule ring_back_less) simp
  have at: "header_entry h i = Some \<lparr>ie_base = of_nat (32 * k), ie_block = Some (blk k)\<rparr>"
    using f(6) [OF k] i f(2) by (simp add: header_entry_def xentry_def i_def n_def)
  then show "explicit_entry_block i p = Inr (blk k)" by (simp add: explicit_entry_block_def h)
  have base: "header_entry h t = Some \<lparr>ie_base = of_nat (32 * (N - 1)), ie_block = Some (blk (N - 1))\<rparr>"
    using f(6) [of "N - 1"] k t f(2) ring_back_0 [OF t] by (simp add: header_entry_def xentry_def n_def t_def)
  have d: "N - 1 - k < n" "N - 1 = k + (N - 1 - k)" using k a(5) by (auto simp: n_def)
  have off: "unat (header_front h + (of_nat (32 * k) - of_nat (32 * (N - 1))) div BLOCK_SIZE AND header_size h - 1) = i"
    unfolding i_def using d by (intro ring_offset [OF mask_capacity [OF f(1)] a(2)]) (simp_all add: n_def)
  have bb: "(of_nat H :: u64) AND NOT (BLOCK_SIZE - 1) = of_nat (32 * k)" using block_base [of H] H by simp
  show "explicit_entry_index (of_nat H) p = Inr i"
    unfolding explicit_entry_index_def Let_def h option.simps bb t_def [symmetric] base BlockIndexEntry.simps off ..
qed

lemma ring_back_append:
  assumes "Suc j \<le> n" "t < n"
  shows "ring_back n ((t + 1) mod n) (Suc j) = ring_back n t j"
  using assms by (cases "t + 1 = n") (auto simp: ring_back_def mod_if)

lemma ring_back_neq:
  assumes "t < n" "0 < j" "j < n"
  shows "ring_back n t j \<noteq> t"
  using ring_back_inj [of j n 0 t] ring_back_0 [OF assms(1)] assms by auto

text \<open>Writing and publishing the entry of the next block, after the oldest block has gone or while there is room.\<close>

lemma xindex_add:
  fixes b :: nat
  assumes rep: "xindex_rep c p M N blk" and room: "M \<le> M'" "M' \<le> N" "Suc N - M' \<le> 2 ^ c" and h: "ep_blockIndex p = Some h"
  defines "p1 \<equiv> p\<lparr>ep_tailBlock := Some b, pr_blockIndexSlotsUsed := of_nat (Suc N - M')\<rparr>"
  shows "\<exists>h' f. (add_index_entry (of_nat (32 * N)) p1 = Inr (p1\<lparr>ep_blockIndex := Some h', pr_blockIndexFront := f\<rparr>))
    \<and> xindex_rep c (publish_front (pr_blockIndexFront p) (p1\<lparr>ep_blockIndex := Some h', pr_blockIndexFront := f\<rparr>)) M' (Suc N) (blk(N := b))"
proof -
  note a = xindex_repD [OF rep]
  note f = index_filledD [OF a(9) [OF h]]
  define n :: nat where "n = 2 ^ c"
  define t where "t = unat (pr_blockIndexFront p)"
  let ?e = "\<lparr>ie_base = of_nat (32 * N), ie_block = Some b\<rparr>"
  let ?h = "h\<lparr>header_entries := (header_entries h)[t := Some ?e]\<rparr>"
  let ?f = "(pr_blockIndexFront p + 1) AND (pr_blockIndexSize p - 1)"
  let ?p = "publish_front (pr_blockIndexFront p) (p1\<lparr>ep_blockIndex := Some ?h, pr_blockIndexFront := ?f\<rparr>)"
  let ?h' = "?h\<lparr>header_front := pr_blockIndexFront p\<rparr>"
  have t: "t < n" using f(3) by (simp add: t_def n_def)
  have add: "add_index_entry (of_nat (32 * N)) p1 = Inr (p1\<lparr>ep_blockIndex := Some ?h, pr_blockIndexFront := ?f\<rparr>)"
    unfolding add_index_entry_def p1_def t_def by (simp add: h)
  have front: "unat ?f = (t + 1) mod n" unfolding t_def n_def by (rule unat_incr_and_pow2 [OF mask_capacity [OF a(3)]])
  have ent: "xentry ?h' n (N - k) = Some \<lparr>ie_base = of_nat (32 * k), ie_block = Some ((blk(N := b)) k)\<rparr>"
    if k: "M' \<le> k" "k < Suc N" for k
  proof (cases "k = N")
    case True
    then show ?thesis using ring_back_0 [OF t] t f(2) by (simp add: xentry_def t_def n_def)
  next
    case False
    then have kN: "M \<le> k" "k < N" using k room(1) by auto
    have MN: "M < N" using kN by simp
    have j: "N - k < n" "0 < N - k" using k room(3) kN by (auto simp: n_def)
    have tt: "t = (unat (header_front h) + 1) mod n" "unat (header_front h) < n" using f(4,5) [OF MN] by (simp_all add: t_def n_def)
    have "ring_back n t (N - k) = ring_back n (unat (header_front h)) (N - 1 - k)"
      using ring_back_append [of "N - 1 - k" n "unat (header_front h)"] tt j by (simp add: Suc_diff_Suc)
    moreover have "ring_back n t (N - k) \<noteq> t" using t j by (intro ring_back_neq)
    ultimately have "xentry ?h' n (N - k) = xentry h n (N - 1 - k)" by (simp add: xentry_def t_def)
    then show ?thesis using f(6) [OF kN] False by (simp add: n_def)
  qed
  have "index_filled c ?p ?h' M' (Suc N) (blk(N := b))"
    unfolding index_filled_def using f(1,2) front t ent by (simp add: publish_front_def t_def n_def)
  then have "xindex_rep c ?p M' (Suc N) (blk(N := b))"
    unfolding xindex_rep_def using a(1-3) room by (simp add: publish_front_def p1_def)
  then show ?thesis using add by blast
qed

text \<open>The copy loop lists the old ring from the oldest entry on.\<close>

lemma copy_entries_ring:
  assumes m: "unat m + 1 = 2 ^ c" and n: "(n :: nat) = 2 ^ c" and len: "length es = n" and f: "unat front < n"
    and i: "unat i = (unat front + n - j) mod n" and j: "0 < j" "j \<le> n" and fuel: "j \<le> fuel"
  shows "copy_entries fuel es m front i = Inr (map (\<lambda>l. es ! ((unat front + n - j + l) mod n)) [0..<j])"
  using i j fuel
proof (induction j arbitrary: i fuel)
  case (Suc j)
  obtain fu where fu: "fuel = Suc fu" using Suc.prems(4) by (cases fuel) auto
  have next_i: "unat ((i + 1) AND m) = (unat i + 1) mod n" unfolding n by (rule unat_incr_and_pow2 [OF m])
  also have "\<dots> = (unat front + n - j) mod n"
  proof -
    have "Suc (unat front + n - Suc j) = unat front + n - j" using Suc.prems(3) by linarith
    then show ?thesis unfolding Suc.prems(1) by (simp add: mod_Suc_eq)
  qed
  finally have ni: "unat ((i + 1) AND m) = (unat front + n - j) mod n" .
  have split: "map (\<lambda>l. es ! ((unat front + n - Suc j + l) mod n)) [0..<Suc j]
      = es ! unat i # map (\<lambda>l. es ! ((unat front + n - j + l) mod n)) [0..<j]"
    unfolding upt_conv_Cons [OF zero_less_Suc] map_Suc_upt [symmetric] map_map comp_def list.map
    using Suc.prems(1,3) f by (auto simp: Suc_diff_Suc)
  show ?case
  proof (cases "j = 0")
    case True
    then have "(i + 1) AND m = front" using ni f by (simp add: word_unat_eq_iff)
    then show ?thesis unfolding split fu using True by simp
  next
    case False
    have "(unat front + n - j) mod n \<noteq> unat front"
      using ring_back_neq [OF f, of j] False Suc.prems(3) by (simp add: ring_back_def)
    then have "(i + 1) AND m \<noteq> front" using ni by auto
    moreover have "copy_entries fu es m front ((i + 1) AND m) = Inr (map (\<lambda>l. es ! ((unat front + n - j + l) mod n)) [0..<j])"
      using Suc.IH [OF ni] False Suc.prems(3,4) fu by simp
    ultimately show ?thesis unfolding split fu by simp
  qed
qed simp

text \<open>A new index is twice as large and lists the blocks from its first slot on.\<close>

lemma xindex_grow:
  assumes rep: "xindex_rep c p M N blk" and full: "ep_blockIndex p = None \<or> N - M = 2 ^ c" and c: "c \<le> 58"
  shows "\<exists>h f. explicit_new_block_index True (pr_blockIndexSlotsUsed p) p
      = Inr (True, p\<lparr>pr_blockIndexSize := push_bit 1 (pr_blockIndexSize p), pr_blockIndexFront := f, ep_blockIndex := Some h\<rparr>)
    \<and> xindex_rep (Suc c) (p\<lparr>pr_blockIndexSize := push_bit 1 (pr_blockIndexSize p), pr_blockIndexFront := f, ep_blockIndex := Some h\<rparr>) M N blk"
proof -
  note a = xindex_repD [OF rep]
  define n :: nat where "n = 2 ^ c"
  define m where "m = N - M"
  have n59: "n \<le> 2 ^ 58" unfolding n_def using c by (intro power_increasing) auto
  have mn: "m \<le> n" using a(5) by (simp add: m_def n_def)
  have size: "unat (push_bit 1 (pr_blockIndexSize p)) = 2 * n"
  proof -
    have "2 * n < 2 ^ 64" using n59 by simp
    then show ?thesis using a(3) by (simp add: push_bit_eq_mult unat_word_ariths n_def)
  qed
  have slots: "unat (pr_blockIndexSlotsUsed p) = m"
    using a(6) mn n59 by (simp add: m_def unat_of_nat)
  let ?p = "\<lambda>es. p\<lparr>pr_blockIndexSize := push_bit 1 (pr_blockIndexSize p), pr_blockIndexFront := of_nat (length es),
    ep_blockIndex := Some \<lparr>header_size = push_bit 1 (pr_blockIndexSize p), header_front = pr_blockIndexSlotsUsed p - 1,
      header_entries = es @ replicate (2 * n - length es) None\<rparr>\<rparr>"
  have "\<exists>es. explicit_new_block_index True (pr_blockIndexSlotsUsed p) p = Inr (True, ?p es) \<and> length es = m
    \<and> (\<forall>l < m. es ! l = Some \<lparr>ie_base = of_nat (32 * (M + l)), ie_block = Some (blk (M + l))\<rparr>)"
  proof (cases "m = 0")
    case True
    then have "pr_blockIndexSlotsUsed p = 0" using slots by (simp add: unat_eq_0)
    then show ?thesis using size True by (intro exI [of _ "[]"]) (simp add: explicit_new_block_index_def Let_def)
  next
    case False
    then have MN: "M < N" "m = n" using full a(7) by (auto simp: m_def n_def)
    obtain h where h: "ep_blockIndex p = Some h" using full a(7) MN by (cases "ep_blockIndex p") auto
    note f = index_filledD [OF a(9) [OF h]]
    let ?t = "unat (header_front h)"
    have mask: "unat (pr_blockIndexSize p - 1) + 1 = 2 ^ c" by (rule mask_capacity [OF a(3)])
    have i: "unat ((pr_blockIndexFront p - pr_blockIndexSlotsUsed p) AND (pr_blockIndexSize p - 1)) = unat (pr_blockIndexFront p)"
      using f(3) slots MN(2) by (intro unat_diff_and_pow2 [OF mask]) (simp_all add: n_def)
    define es where "es = map (\<lambda>l. header_entries h ! ((unat (pr_blockIndexFront p) + n - n + l) mod n)) [0..<n]"
    have "copy_entries n (header_entries h) (pr_blockIndexSize p - 1) (pr_blockIndexFront p)
        ((pr_blockIndexFront p - pr_blockIndexSlotsUsed p) AND (pr_blockIndexSize p - 1)) = Inr es"
      unfolding es_def using f(2,3) i by (intro copy_entries_ring [OF mask n_def]) (simp_all add: n_def)
    then have "explicit_new_block_index True (pr_blockIndexSlotsUsed p) p = Inr (True, ?p es)"
      using False slots f(2) h size by (auto simp: explicit_new_block_index_def Let_def n_def)
    moreover have "es ! l = Some \<lparr>ie_base = of_nat (32 * (M + l)), ie_block = Some (blk (M + l))\<rparr>" if l: "l < m" for l
    proof -
      have t: "?t < n" "unat (pr_blockIndexFront p) = (?t + 1) mod n" using f(4,5) MN by (simp_all add: n_def)
      have "(unat (pr_blockIndexFront p) + l) mod n = (?t + 1 + l) mod n" unfolding t(2) by (rule mod_add_left_eq)
      also have "?t + 1 + l = ?t + n - (N - 1 - (M + l))" using l MN unfolding m_def by linarith
      also have "\<dots> mod n = ring_back n ?t (N - 1 - (M + l))" by (simp add: ring_back_def)
      finally have "es ! l = xentry h n (N - 1 - (M + l))" using l MN(2) by (simp add: es_def xentry_def)
      then show ?thesis using f(6) [of "M + l"] l by (simp add: n_def m_def)
    qed
    ultimately show ?thesis using MN(2) by (intro exI [of _ es]) (simp add: es_def)
  qed
  then obtain es where es: "explicit_new_block_index True (pr_blockIndexSlotsUsed p) p = Inr (True, ?p es)" "length es = m"
    "\<And>l. l < m \<Longrightarrow> es ! l = Some \<lparr>ie_base = of_nat (32 * (M + l)), ie_block = Some (blk (M + l))\<rparr>"
    by blast
  let ?h = "\<lparr>header_size = push_bit 1 (pr_blockIndexSize p), header_front = pr_blockIndexSlotsUsed p - 1,
      header_entries = es @ replicate (2 * n - length es) None\<rparr>"
  have ent: "xentry ?h (2 * n) (N - 1 - k) = Some \<lparr>ie_base = of_nat (32 * k), ie_block = Some (blk k)\<rparr>"
    if k: "M \<le> k" "k < N" for k
  proof -
    have "pr_blockIndexSlotsUsed p \<noteq> 0" using slots k by (auto simp: m_def)
    then have "unat (header_front ?h) = m - 1" using slots by (simp add: unat_minus_one)
    moreover have "ring_back (2 * n) (m - 1) (N - 1 - k) = k - M"
      using k mn by (auto simp: ring_back_def m_def mod_if)
    moreover have "k - M < m" "M + (k - M) = k" using k by (auto simp: m_def)
    ultimately show ?thesis using es(2) es(3) [of "k - M"] by (simp add: xentry_def nth_append del: of_nat_mult)
  qed
  have "0 < n" by (simp add: n_def)
  then have lt: "m < 2 * n" using mn by linarith
  have "index_filled (Suc c) (?p es) ?h M N blk"
  proof -
    have fr: "unat (of_nat (length es) :: u64) = m" using es(2) lt n59 by (simp add: unat_of_nat)
    moreover have "unat (pr_blockIndexSlotsUsed p - 1) = m - 1" if "M < N"
    proof -
      have "pr_blockIndexSlotsUsed p \<noteq> 0" using slots that by (auto simp: m_def)
      then show ?thesis using slots by (simp add: unat_minus_one)
    qed
    moreover have "0 < m" if "M < N" using that by (simp add: m_def)
    ultimately show ?thesis
      unfolding index_filled_def using size lt es(2) ent by (auto simp: n_def simp del: of_nat_mult)
  qed
  then have "xindex_rep (Suc c) (?p es) M N blk"
    unfolding xindex_rep_def using a(4,6) c size lt by (simp add: n_def m_def)
  then show ?thesis using es(1) by blast
qed

subsection \<open>The sub-queue as a list\<close>

text \<open>
  A block marks the slots before the head as empty, in reverse order. The blocks form a circle: after number \<open>N - 1\<close>, the
  tail block, comes number \<open>M\<close>, the oldest one.
\<close>

definition xblock_holds :: "'a cblock \<Rightarrow> nat \<Rightarrow> 'a list \<Rightarrow> nat \<Rightarrow> bool" where
  "xblock_holds b H xs k \<longleftrightarrow> slots_hold (elements b) H xs k \<and> length (emptyFlags b) = 32
     \<and> (\<forall>s < 32. emptyFlags b ! (31 - s) \<longleftrightarrow> 32 * k + s < H)"

definition ring_next :: "nat \<Rightarrow> nat \<Rightarrow> nat \<Rightarrow> nat" where
  "ring_next M N k = (if Suc k = N then M else Suc k)"

definition xprod_core ::
  "'a pool \<Rightarrow> explicit_producer \<Rightarrow> 'a list \<Rightarrow> nat set \<Rightarrow> nat \<Rightarrow> nat \<Rightarrow> nat \<Rightarrow> nat \<Rightarrow> (nat \<Rightarrow> nat) \<Rightarrow> bool" where
  "xprod_core P p xs L c H M N blk \<longleftrightarrow>
     ep_tailIndex p = of_nat (H + length xs) \<and> ep_headIndex p = of_nat H \<and> ep_dequeueOptimisticCount p = of_nat H
     \<and> ep_dequeueOvercommit p = 0 \<and> 32 * N < H + 2 ^ 63 \<and> M \<le> H div 32 \<and> xindex_rep c p M N blk
     \<and> ep_tailBlock p = (if M < N then Some (blk (N - 1)) else None)
     \<and> inj_on blk {M..<N} \<and> L = blk ` {M..<N}
     \<and> (\<forall>k. M \<le> k \<and> k < N \<longrightarrow> blk k < length (cblocks P) \<and> xblock_holds (cblocks P ! blk k) H xs k
          \<and> block_next (cblocks P ! blk k) = Some (blk (ring_next M N k)))"

lemma xprod_coreD:
  assumes "xprod_core P p xs L c H M N blk"
  shows "ep_tailIndex p = of_nat (H + length xs)" "ep_headIndex p = of_nat H" "ep_dequeueOptimisticCount p = of_nat H"
    "ep_dequeueOvercommit p = 0" "32 * N < H + 2 ^ 63" "M \<le> H div 32" "xindex_rep c p M N blk"
    "ep_tailBlock p = (if M < N then Some (blk (N - 1)) else None)" "inj_on blk {M..<N}" "L = blk ` {M..<N}"
    "\<And>k. M \<le> k \<Longrightarrow> k < N \<Longrightarrow> blk k < length (cblocks P)"
    "\<And>k. M \<le> k \<Longrightarrow> k < N \<Longrightarrow> xblock_holds (cblocks P ! blk k) H xs k"
    "\<And>k. M \<le> k \<Longrightarrow> k < N \<Longrightarrow> block_next (cblocks P ! blk k) = Some (blk (ring_next M N k))"
  using assms unfolding xprod_core_def by simp_all

lemma xprod_coreI:
  assumes "ep_tailIndex p = of_nat (H + length xs)" "ep_headIndex p = of_nat H" "ep_dequeueOptimisticCount p = of_nat H"
    "ep_dequeueOvercommit p = 0" "32 * N < H + 2 ^ 63" "M \<le> H div 32" "xindex_rep c p M N blk"
    "ep_tailBlock p = (if M < N then Some (blk (N - 1)) else None)" "inj_on blk {M..<N}" "L = blk ` {M..<N}"
    "\<And>k. M \<le> k \<Longrightarrow> k < N \<Longrightarrow> blk k < length (cblocks P)"
    "\<And>k. M \<le> k \<Longrightarrow> k < N \<Longrightarrow> xblock_holds (cblocks P ! blk k) H xs k"
    "\<And>k. M \<le> k \<Longrightarrow> k < N \<Longrightarrow> block_next (cblocks P ! blk k) = Some (blk (ring_next M N k))"
  shows "xprod_core P p xs L c H M N blk"
  using assms unfolding xprod_core_def by simp

text \<open>At rest, the last block of the circle is the one of the last position.\<close>

definition xprod_rep :: "'a pool \<Rightarrow> explicit_producer \<Rightarrow> 'a list \<Rightarrow> nat set \<Rightarrow> bool" where
  "xprod_rep P p xs L \<longleftrightarrow> (\<exists>c H M N blk. xprod_core P p xs L c H M N blk \<and> N = (H + length xs + 31) div 32 \<and> (M = N \<longrightarrow> N = 0))"

lemma xprod_core_frame:
  assumes core: "xprod_core P p xs L c H M N blk" and fr: "pool_frame S P P'" and dis: "L \<inter> S = {}"
  shows "xprod_core P' p xs L c H M N blk"
proof -
  note a = xprod_coreD [OF core]
  have s: "blk k < length (cblocks P') \<and> cblocks P' ! blk k = cblocks P ! blk k" if "M \<le> k" "k < N" for k
  proof -
    have "blk k \<in> L" unfolding a(10) using that by simp
    then have "blk k \<notin> S" using dis by blast
    then show ?thesis using a(11) [OF that] fr by (simp add: pool_frame_def)
  qed
  show ?thesis
    by (rule xprod_coreI) (use a s in \<open>simp_all\<close>)
qed

lemma xblock_holds_cong:
  "xblock_holds b H xs k \<Longrightarrow> elements b' = elements b \<Longrightarrow> emptyFlags b' = emptyFlags b \<Longrightarrow> xblock_holds b' H xs k"
  by (simp add: xblock_holds_def)

text \<open>A block is empty exactly when the head has left it; a raw block with its marks reset is fit for the next positions.\<close>

lemma is_empty_flags:
  assumes "\<forall>s < 32. emptyFlags b ! (31 - s) \<longleftrightarrow> 32 * k + s < H"
  shows "is_empty explicit_context b = Inr (32 * k + 32 \<le> H)"
proof -
  have "(\<forall>i \<in> set [0..<32]. emptyFlags b ! i) \<longleftrightarrow> (\<forall>s < 32. emptyFlags b ! (31 - s))"
  proof
    assume a: "\<forall>s < 32. emptyFlags b ! (31 - s)"
    have "emptyFlags b ! i" if "i < 32" for i using spec [OF a, of "31 - i"] that by simp
    then show "\<forall>i \<in> set [0..<32]. emptyFlags b ! i" by simp
  qed simp
  also have "\<dots> \<longleftrightarrow> (\<forall>s < 32. 32 * k + s < H)" using assms by auto
  also have "\<dots> \<longleftrightarrow> 32 * k + 32 \<le> H"
  proof
    assume a: "\<forall>s < 32. 32 * k + s < H"
    show "32 * k + 32 \<le> H" using spec [OF a, of 31] by simp
  qed auto
  finally show ?thesis by (simp add: is_empty_def)
qed

lemma is_empty_xblock: "xblock_holds b H xs k \<Longrightarrow> is_empty explicit_context b = Inr (32 * k + 32 \<le> H)"
  by (rule is_empty_flags) (simp add: xblock_holds_def)

lemma slots_hold_shift:
  assumes "slots_hold es H xs l" "j \<le> length xs" "32 * l + 32 \<le> H \<or> H + j \<le> 32 * l"
  shows "slots_hold es (H + j) (drop j xs) l"
  using assms by (auto simp: slots_hold_def)

definition fresh_block :: "'a cblock \<Rightarrow> bool" where
  "fresh_block b \<longleftrightarrow> raw_block b \<and> emptyFlags b = replicate 32 False"

lemma fresh_block_holds: "fresh_block b \<Longrightarrow> H + length xs \<le> 32 * k \<Longrightarrow> xblock_holds b H xs k"
  by (auto simp: fresh_block_def raw_block_def xblock_holds_def slots_hold_def)

lemma left_block_raw: "xblock_holds b H xs k \<Longrightarrow> 32 * k + 32 \<le> H \<Longrightarrow> raw_block b"
  by (auto simp: xblock_holds_def slots_hold_def raw_block_def list_eq_iff_nth_eq)

lemma reset_fresh: "raw_block b \<Longrightarrow> fresh_block (reset_empty explicit_context b)"
  by (simp add: fresh_block_def raw_block_def reset_empty_def)

text \<open>Writing the next element into the tail block.\<close>

lemma explicit_put_rep:
  assumes core: "xprod_core P p xs L c H M N blk" and N: "32 * (N - 1) \<le> H + length xs" "H + length xs < 32 * N" and MN: "M < N"
    and rep: "pool_rep P F" and dis: "L \<inter> F = {}"
  shows "\<exists>p' P'. explicit_put (ep_tailIndex p) x p P = Inr (p', P') \<and> xprod_rep P' p' (xs @ [x]) L \<and> pool_rep P' F
    \<and> pool_frame L P P' \<and> length (cblocks P') = length (cblocks P)"
proof -
  note a = xprod_coreD [OF core]
  define b where "b = blk (N - 1)"
  define T where "T = H + length xs"
  let ?f = "\<lambda>bk. bk\<lparr>elements := (elements bk)[T mod 32 := Some x]\<rparr>"
  let ?p = "p\<lparr>ep_tailIndex := 1 + ep_tailIndex p\<rparr>"
  let ?P = "upd_cblock b ?f P"
  have N1: "M \<le> N - 1" "N - 1 < N" using MN by auto
  have bL: "b \<in> L" using a(10) N1 by (simp add: b_def)
  have bl: "b < length (cblocks P)" using a(11) [OF N1] by (simp add: b_def)
  have T: "T div 32 = N - 1" using N by (intro div_nat_eqI) (simp_all add: T_def)
  have put: "explicit_put (ep_tailIndex p) x p P = Inr (?p, ?P)"
    using a(8) MN slot_of_nat [of T] by (simp add: explicit_put_def b_def a(1) T_def)
  have neq: "blk k \<noteq> b" if "M \<le> k" "k < N" "k \<noteq> N - 1" for k
    using a(9) that N1 by (auto simp: b_def inj_on_def)
  have "xprod_core ?P ?p (xs @ [x]) L c H M N blk"
  proof (rule xprod_coreI)
    show "xindex_rep c ?p M N blk" using xindex_rep_cong [OF a(7)] by simp
    show "xblock_holds (cblocks ?P ! blk k) H (xs @ [x]) k" if k: "M \<le> k" "k < N" for k
    proof (cases "k = N - 1")
      case True
      then show ?thesis
        using a(12) [OF k] slots_hold_snoc [of "elements (cblocks P ! b)" H xs "N - 1" x] T bl
        by (simp add: xblock_holds_def b_def T_def)
    next
      case False
      have "32 * k + 32 \<le> H + length xs" using False k N(1) by linarith
      then show ?thesis
        using a(12) [OF k] slots_hold_other [of "elements (cblocks P ! blk k)" H xs k "[x]"] neq [OF k False]
        by (simp add: xblock_holds_def)
    qed
    show "block_next (cblocks ?P ! blk k) = Some (blk (ring_next M N k))" if k: "M \<le> k" "k < N" for k
      using a(13) [OF k] bl by (cases "blk k = b") auto
  qed (use a in \<open>simp_all\<close>)
  moreover have "N = (H + length (xs @ [x]) + 31) div 32"
    using N MN by (intro div_nat_eqI [symmetric]) simp_all
  ultimately have "xprod_rep ?P ?p (xs @ [x]) L" unfolding xprod_rep_def using MN by blast
  moreover have "pool_rep ?P F"
    using pool_rep_wf [OF rep bl] bL dis by (intro pool_rep_write [OF rep]) (auto simp: block_wf_def)
  ultimately show ?thesis using put pool_frame_upd [OF bL] by (intro exI conjI) (assumption | simp)+
qed

subsection \<open>The next tail block\<close>

lemma explicit_producer_same:
  "ep_tailBlock p = t \<Longrightarrow> p\<lparr>ep_tailBlock := t\<rparr> = p" "pr_blockIndexSlotsUsed p = n \<Longrightarrow> p\<lparr>ep_tailBlock := t, pr_blockIndexSlotsUsed := n\<rparr> = p\<lparr>ep_tailBlock := t\<rparr>"
  by (cases p; simp)+

lemma inj_range: "inj_on f {a..<b} \<Longrightarrow> a \<le> i \<Longrightarrow> i < b \<Longrightarrow> a \<le> j \<Longrightarrow> j < b \<Longrightarrow> f i = f j \<longleftrightarrow> i = (j :: nat)"
  by (meson atLeastLessThan_iff inj_onD)

text \<open>Taking the oldest block again.\<close>

lemma reuse_block_rep:
  assumes core: "xprod_core P p xs L c H M N blk" and T: "H + length xs \<le> 32 * N" and MN: "M < N" and left: "32 * M + 32 \<le> H"
    and few: "32 * Suc N < H + 2 ^ 63" and rep: "pool_rep P F" and dis: "L \<inter> F = {}"
  shows "\<exists>p'. add_index_entry (of_nat (32 * N)) (p\<lparr>ep_tailBlock := Some (blk M)\<rparr>) = Inr p'
    \<and> xprod_core (upd_cblock (blk M) (reset_empty explicit_context) P) (publish_front (pr_blockIndexFront p) p') xs L c H (Suc M) (Suc N) (blk(N := blk M))
    \<and> pool_rep (upd_cblock (blk M) (reset_empty explicit_context) P) F"
proof -
  note a = xprod_coreD [OF core]
  note ix = xindex_repD [OF a(7)]
  let ?P = "upd_cblock (blk M) (reset_empty explicit_context) P"
  let ?blk = "blk(N := blk M)"
  have Mi: "M \<le> M" by simp
  have bl: "blk M < length (cblocks P)" using a(11) [OF Mi MN] .
  have bL: "blk M \<in> L" unfolding a(10) using MN by simp
  obtain h where h: "ep_blockIndex p = Some h" using ix(7) MN by (cases "ep_blockIndex p") auto
  have room: "M \<le> Suc M" "Suc M \<le> N" "Suc N - Suc M \<le> 2 ^ c" using MN ix(5) by auto
  obtain h' f where add: "add_index_entry (of_nat (32 * N)) (p\<lparr>ep_tailBlock := Some (blk M), pr_blockIndexSlotsUsed := of_nat (Suc N - Suc M)\<rparr>)
      = Inr (p\<lparr>ep_tailBlock := Some (blk M), pr_blockIndexSlotsUsed := of_nat (Suc N - Suc M)\<rparr>\<lparr>ep_blockIndex := Some h', pr_blockIndexFront := f\<rparr>)"
    "xindex_rep c (publish_front (pr_blockIndexFront p)
      (p\<lparr>ep_tailBlock := Some (blk M), pr_blockIndexSlotsUsed := of_nat (Suc N - Suc M)\<rparr>\<lparr>ep_blockIndex := Some h', pr_blockIndexFront := f\<rparr>))
      (Suc M) (Suc N) ?blk"
    using xindex_add [OF a(7) room h, of "blk M"] by blast
  have same: "p\<lparr>ep_tailBlock := Some (blk M), pr_blockIndexSlotsUsed := of_nat (Suc N - Suc M)\<rparr> = p\<lparr>ep_tailBlock := Some (blk M)\<rparr>"
    by (rule explicit_producer_same(2)) (simp add: ix(6))
  note add = add [unfolded same]
  have neq: "blk k \<noteq> blk M" if "Suc M \<le> k" "k < N" for k using inj_range [OF a(9), of k M] that MN by auto
  have fresh: "fresh_block (cblocks ?P ! blk M)"
    using reset_fresh [OF left_block_raw [OF a(12) [OF Mi MN] left]] bl by simp
  have range: "{Suc M..<Suc N} = insert N {Suc M..<N}" "{M..<N} = insert M {Suc M..<N}" using MN by auto
  have im: "?blk ` {Suc M..<N} = blk ` {Suc M..<N}" by (rule image_cong) auto
  have "xprod_core ?P (publish_front (pr_blockIndexFront p) (p\<lparr>ep_tailBlock := Some (blk M)\<rparr>\<lparr>ep_blockIndex := Some h', pr_blockIndexFront := f\<rparr>))
      xs L c H (Suc M) (Suc N) ?blk"
  proof (rule xprod_coreI)
    show "inj_on ?blk {Suc M..<Suc N}"
    proof -
      have "inj_on ?blk {Suc M..<N}" using a(9) by (auto simp: inj_on_def)
      moreover have "blk M \<notin> blk ` {Suc M..<N}" using neq by (metis atLeastLessThan_iff imageE)
      ultimately show ?thesis unfolding range inj_on_insert using im by simp
    qed
    show "L = ?blk ` {Suc M..<Suc N}" unfolding range image_insert im a(10) by simp
    show "?blk k < length (cblocks ?P)" if "Suc M \<le> k" "k < Suc N" for k using a(11) [of k] bl that by (auto simp: less_Suc_eq)
    show "xblock_holds (cblocks ?P ! ?blk k) H xs k" if k: "Suc M \<le> k" "k < Suc N" for k
    proof (cases "k = N")
      case True
      then show ?thesis using fresh_block_holds [OF fresh T] by simp
    next
      case False
      then show ?thesis using a(12) [of k] neq [of k] k by simp
    qed
    show "block_next (cblocks ?P ! ?blk k) = Some (?blk (ring_next (Suc M) (Suc N) k))" if k: "Suc M \<le> k" "k < Suc N" for k
    proof (cases "k = N")
      case True
      then show ?thesis using a(13) [OF Mi MN] bl MN by (auto simp: ring_next_def reset_empty_def)
    next
      case False
      then show ?thesis using a(13) [of k] neq [of k] k by (auto simp: ring_next_def)
    qed
  qed (use a left few MN add(2) in \<open>simp_all add: publish_front_def\<close>)
  moreover have "pool_rep ?P F"
    using pool_rep_wf [OF rep bl] bL dis by (intro pool_rep_write [OF rep]) (auto simp: block_wf_def reset_empty_def)
  ultimately show ?thesis using add(1) by blast
qed

text \<open>Inserting a prepared block after the tail block.\<close>

lemma insert_block_pool:
  assumes rep: "pool_rep P F" and nb: "nb < length (cblocks P)" "nb \<notin> F" and tl: "ep_tailBlock p = (if M < N then Some (blk (N - 1)) else None)"
    and ring: "M < N \<Longrightarrow> blk (N - 1) < length (cblocks P) \<and> blk (N - 1) \<noteq> nb \<and> blk (N - 1) \<notin> F \<and> block_next (cblocks P ! blk (N - 1)) = Some (blk M)"
    and f: "freeListRefs (f (cblocks P ! nb)) = freeListRefs (cblocks P ! nb)" "block_wf (f (cblocks P ! nb))"
      "dynamicallyAllocated (f (cblocks P ! nb)) = dynamicallyAllocated (cblocks P ! nb)"
    and ins: "insert_block nb p (upd_cblock nb f P) = (p1, P')"
  shows "p1 = p\<lparr>ep_tailBlock := Some nb\<rparr>" "length (cblocks P') = length (cblocks P)"
    "cblocks P' ! nb = (f (cblocks P ! nb))\<lparr>block_next := Some (if M < N then blk M else nb)\<rparr>"
    "\<And>n. n \<noteq> nb \<Longrightarrow> cblocks P' ! n = (if M < N \<and> n = blk (N - 1) then (cblocks P ! n)\<lparr>block_next := Some nb\<rparr> else cblocks P ! n)"
    "pool_rep P' F"
proof -
  define P1 where "P1 = upd_cblock nb f P"
  show "p1 = p\<lparr>ep_tailBlock := Some nb\<rparr>" using ins by (simp add: insert_block_def)
  have P1: "pool_rep P1 F" unfolding P1_def using nb(2) f by (intro pool_rep_write [OF rep])
  have P': "P' = (if M < N then upd_cblock (blk (N - 1)) (\<lambda>b. b\<lparr>block_next := Some nb\<rparr>) (upd_cblock nb (\<lambda>b. b\<lparr>block_next := Some (blk M)\<rparr>) P1)
      else upd_cblock nb (\<lambda>b. b\<lparr>block_next := Some nb\<rparr>) P1)"
  proof (cases "M < N")
    case True
    have "block_next (cblocks P1 ! blk (N - 1)) = Some (blk M)" using ring [OF True] by (simp add: P1_def)
    then show ?thesis using ins True tl by (simp add: insert_block_def Let_def P1_def)
  next
    case False
    then show ?thesis using ins tl by (simp add: insert_block_def Let_def P1_def)
  qed
  show "length (cblocks P') = length (cblocks P)" unfolding P' P1_def by simp
  show "cblocks P' ! nb = (f (cblocks P ! nb))\<lparr>block_next := Some (if M < N then blk M else nb)\<rparr>"
    unfolding P' P1_def using nb(1) ring by auto
  show "cblocks P' ! n = (if M < N \<and> n = blk (N - 1) then (cblocks P ! n)\<lparr>block_next := Some nb\<rparr> else cblocks P ! n)" if "n \<noteq> nb" for n
    unfolding P' P1_def using that ring by auto
  have wf: "block_wf b \<Longrightarrow> block_wf (b\<lparr>block_next := x\<rparr>)" for b :: "'a cblock" and x by (simp add: block_wf_def)
  have len1: "length (cblocks P1) = length (cblocks P)" by (simp add: P1_def)
  show "pool_rep P' F"
  proof (cases "M < N")
    case True
    have P2: "pool_rep (upd_cblock nb (\<lambda>b. b\<lparr>block_next := Some (blk M)\<rparr>) P1) F"
      using pool_rep_wf [OF P1, of nb] nb len1 by (intro pool_rep_write [OF P1] wf) simp_all
    then show ?thesis
      unfolding P' using True pool_rep_wf [OF P2, of "blk (N - 1)"] ring [OF True] len1
      by (simp only: if_True) (intro pool_rep_write [OF P2] wf, simp_all)
  next
    case False
    then show ?thesis
      unfolding P' using False pool_rep_wf [OF P1, of nb] nb len1
      by (simp only: if_False) (intro pool_rep_write [OF P1] wf, simp_all)
  qed
qed

text \<open>Inserting a new block after the tail block.\<close>

lemma insert_block_rep:
  assumes core: "xprod_core P p xs L c H M N blk" and T: "H + length xs \<le> 32 * N" and few: "32 * Suc N < H + 2 ^ 63"
    and room: "N - M < 2 ^ c" "ep_blockIndex p = Some h" and nb: "nb \<notin> L" "nb < length (cblocks P)" "raw_block (cblocks P ! nb)"
    and rep: "pool_rep P F" and dis: "insert nb L \<inter> F = {}"
    and ins: "insert_block nb p (upd_cblock nb (reset_empty explicit_context) P) = (p1, P')"
  shows "\<exists>p'. add_index_entry (of_nat (32 * N)) (p1\<lparr>pr_blockIndexSlotsUsed := pr_blockIndexSlotsUsed p1 + 1\<rparr>) = Inr p'
    \<and> xprod_core P' (publish_front (pr_blockIndexFront p) p') xs (insert nb L) c H M (Suc N) (blk(N := nb))
    \<and> pool_rep P' F \<and> length (cblocks P') = length (cblocks P) \<and> pool_frame (insert nb L) P P' \<and> pr_blockIndexFront p1 = pr_blockIndexFront p"
proof -
  note a = xprod_coreD [OF core]
  note ix = xindex_repD [OF a(7)]
  let ?blk = "blk(N := nb)"
  have neq: "blk k \<noteq> nb" if "M \<le> k" "k < N" for k using nb(1) that unfolding a(10) by auto
  have ring: "blk (N - 1) < length (cblocks P) \<and> blk (N - 1) \<noteq> nb \<and> blk (N - 1) \<notin> F \<and> block_next (cblocks P ! blk (N - 1)) = Some (blk M)" if "M < N"
  proof -
    have N1: "M \<le> N - 1" "N - 1 < N" using that by auto
    have "blk (N - 1) \<in> L" unfolding a(10) using N1 by simp
    then show ?thesis using a(11) [OF N1] a(13) [OF N1] neq [OF N1] dis that by (auto simp: ring_next_def)
  qed
  have f: "freeListRefs (reset_empty explicit_context (cblocks P ! nb)) = freeListRefs (cblocks P ! nb)"
    "block_wf (reset_empty explicit_context (cblocks P ! nb))"
    "dynamicallyAllocated (reset_empty explicit_context (cblocks P ! nb)) = dynamicallyAllocated (cblocks P ! nb)"
    using pool_rep_wf [OF rep nb(2)] by (simp_all add: block_wf_def reset_empty_def)
  have nF: "nb \<notin> F" using dis by auto
  from insert_block_pool [where f = "reset_empty explicit_context", OF rep nb(2) nF a(8) ring f ins]
  have p1: "p1 = p\<lparr>ep_tailBlock := Some nb\<rparr>" and len: "length (cblocks P') = length (cblocks P)"
    and at_nb: "cblocks P' ! nb = (reset_empty explicit_context (cblocks P ! nb))\<lparr>block_next := Some (if M < N then blk M else nb)\<rparr>"
    and at_old: "\<And>n. n \<noteq> nb \<Longrightarrow> cblocks P' ! n = (if M < N \<and> n = blk (N - 1) then (cblocks P ! n)\<lparr>block_next := Some nb\<rparr> else cblocks P ! n)"
    and pool: "pool_rep P' F" by blast+
  have tl: "M < N \<Longrightarrow> blk (N - 1) \<in> L" unfolding a(10) by simp
  have frame: "pool_frame (insert nb L) P P'"
    using len at_old tl by (auto simp: pool_frame_def)
  have rm: "M \<le> M" "M \<le> N" "Suc N - M \<le> 2 ^ c" using ix(4) room(1) by auto
  obtain h' f where add: "add_index_entry (of_nat (32 * N)) (p\<lparr>ep_tailBlock := Some nb, pr_blockIndexSlotsUsed := of_nat (Suc N - M)\<rparr>)
      = Inr (p\<lparr>ep_tailBlock := Some nb, pr_blockIndexSlotsUsed := of_nat (Suc N - M)\<rparr>\<lparr>ep_blockIndex := Some h', pr_blockIndexFront := f\<rparr>)"
    "xindex_rep c (publish_front (pr_blockIndexFront p)
      (p\<lparr>ep_tailBlock := Some nb, pr_blockIndexSlotsUsed := of_nat (Suc N - M)\<rparr>\<lparr>ep_blockIndex := Some h', pr_blockIndexFront := f\<rparr>))
      M (Suc N) ?blk"
    using xindex_add [OF a(7) rm room(2), of nb] by blast
  have same: "p1\<lparr>pr_blockIndexSlotsUsed := pr_blockIndexSlotsUsed p1 + 1\<rparr> = p\<lparr>ep_tailBlock := Some nb, pr_blockIndexSlotsUsed := of_nat (Suc N - M)\<rparr>"
    using ix(4,6) by (simp add: p1 Suc_diff_le add.commute)
  have range: "{M..<Suc N} = insert N {M..<N}" using ix(4) by auto
  have im: "?blk ` {M..<N} = blk ` {M..<N}" by (rule image_cong) auto
  have "xprod_core P' (publish_front (pr_blockIndexFront p) (p\<lparr>ep_tailBlock := Some nb, pr_blockIndexSlotsUsed := of_nat (Suc N - M)\<rparr>\<lparr>ep_blockIndex := Some h', pr_blockIndexFront := f\<rparr>))
      xs (insert nb L) c H M (Suc N) ?blk"
  proof (rule xprod_coreI)
    show "inj_on ?blk {M..<Suc N}"
    proof -
      have "inj_on ?blk {M..<N}" using a(9) by (auto simp: inj_on_def)
      moreover have "nb \<notin> blk ` {M..<N}" using nb(1) unfolding a(10) .
      ultimately show ?thesis unfolding range inj_on_insert using im by simp
    qed
    show "insert nb L = ?blk ` {M..<Suc N}" unfolding range image_insert im a(10) by simp
    show "?blk k < length (cblocks P')" if "M \<le> k" "k < Suc N" for k using a(11) [of k] nb(2) that len by (auto simp: less_Suc_eq)
    show "xblock_holds (cblocks P' ! ?blk k) H xs k" if k: "M \<le> k" "k < Suc N" for k
    proof (cases "k = N")
      case True
      have "fresh_block (cblocks P' ! nb)" using reset_fresh [OF nb(3)] by (simp add: at_nb fresh_block_def raw_block_def)
      then show ?thesis using fresh_block_holds T True by fastforce
    next
      case False
      then have k: "M \<le> k" "k < N" using k by auto
      show ?thesis
        using False at_old [OF neq [OF k]] by (auto intro: xblock_holds_cong [OF a(12) [OF k]])
    qed
    show "block_next (cblocks P' ! ?blk k) = Some (?blk (ring_next M (Suc N) k))" if k: "M \<le> k" "k < Suc N" for k
    proof (cases "k = N")
      case True
      then show ?thesis using at_nb k by (auto simp: ring_next_def)
    next
      case False
      then have k: "M \<le> k" "k < N" using k by auto
      have "blk k = blk (N - 1) \<longleftrightarrow> k = N - 1" using inj_range [OF a(9) k, of "N - 1"] k by auto
      then show ?thesis using False at_old [OF neq [OF k]] a(13) [OF k] k by (auto simp: ring_next_def)
    qed
  qed (use a few add(2) ix(4) in \<open>simp_all add: publish_front_def\<close>)
  then show ?thesis unfolding same using add(1) pool len frame p1 by (intro exI conjI) (assumption | simp)+
qed

subsection \<open>Enqueue\<close>

lemma xprod_few:
  assumes "xprod_core P p xs L c H M N blk"
  shows "N - M \<le> length (cblocks P)"
proof -
  note a = xprod_coreD [OF assms]
  have "blk ` {M..<N} \<subseteq> {..<length (cblocks P)}" using a(11) by auto
  then have "card (blk ` {M..<N}) \<le> length (cblocks P)" using card_mono [of "{..<length (cblocks P)}"] by fastforce
  then show ?thesis using card_image [OF a(9)] by simp
qed

lemma explicit_enqueue_finish:
  assumes add: "add_index_entry (of_nat (32 * N)) p1 = Inr p2"
    and core: "xprod_core P1 (publish_front (pr_blockIndexFront p1) p2) xs L1 c H M1 (Suc N) blk1"
    and T: "H + length xs = 32 * N" and MN: "M1 \<le> N" and rep: "pool_rep P1 F1" and dis: "L1 \<inter> F1 = {}"
  shows "\<exists>p' P'. (let front = pr_blockIndexFront p1
      in bindE (add_index_entry (of_nat (32 * N)) p1)
        (\<lambda>p. bindE (explicit_put (of_nat (32 * N)) x (publish_front front p) P1) (\<lambda>(p, P). Inr (Enqueued, p, P)))) = Inr (Enqueued, p', P')
    \<and> xprod_rep P' p' (xs @ [x]) L1 \<and> pool_rep P' F1 \<and> pool_frame L1 P1 P' \<and> length (cblocks P') = length (cblocks P1)"
proof -
  have tl: "ep_tailIndex (publish_front (pr_blockIndexFront p1) p2) = of_nat (32 * N)"
    using xprod_coreD(1) [OF core] T by simp
  have "32 * (Suc N - 1) \<le> H + length xs" "H + length xs < 32 * Suc N" "M1 < Suc N" using T MN by simp_all
  then obtain p' P' where "explicit_put (of_nat (32 * N)) x (publish_front (pr_blockIndexFront p1) p2) P1 = Inr (p', P')"
    "xprod_rep P' p' (xs @ [x]) L1" "pool_rep P' F1" "pool_frame L1 P1 P'" "length (cblocks P') = length (cblocks P1)"
    using explicit_put_rep [OF core _ _ _ rep dis, of x] unfolding tl by blast
  then show ?thesis using add by (intro exI [of _ p'] exI [of _ P']) (simp add: Let_def del: of_nat_mult)
qed

text \<open>The step that makes sure that the block index has room: it changes the index only.\<close>

lemma index_room:
  assumes core: "xprod_core P p xs L c H M N blk" and few: "N - M \<le> 2 ^ 57"
  shows "\<exists>ok p'. (if ep_blockIndex p = None \<or> pr_blockIndexSlotsUsed p = pr_blockIndexSize p
        then (if am = Cannot_alloc then Inr (False, p) else explicit_new_block_index iok (pr_blockIndexSlotsUsed p) p)
        else Inr (True, p)) = Inr (ok, p')
    \<and> (if ok then \<exists>c' h. xprod_core P p' xs L c' H M N blk \<and> N - M < 2 ^ c' \<and> ep_blockIndex p' = Some h
       else p' = p \<and> (am = Cannot_alloc \<or> \<not> iok))"
proof -
  note a = xprod_coreD [OF core]
  note ix = xindex_repD [OF a(7)]
  have slots: "unat (pr_blockIndexSlotsUsed p) = N - M" using ix(6) few by (simp add: unat_of_nat)
  have full: "pr_blockIndexSlotsUsed p = pr_blockIndexSize p \<longleftrightarrow> N - M = 2 ^ c"
    using slots ix(3) by (simp add: word_unat_eq_iff)
  show ?thesis
  proof (cases "ep_blockIndex p = None \<or> N - M = 2 ^ c")
    case True
    have c: "c \<le> 58"
    proof (rule ccontr)
      assume "\<not> c \<le> 58"
      then have "(2 :: nat) ^ 58 \<le> 2 ^ c" by (intro power_increasing) auto
      then show False using True ix(8) few \<open>\<not> c \<le> 58\<close> by auto
    qed
    show ?thesis
    proof (cases "am = Cannot_alloc \<or> \<not> iok")
      case True
      then show ?thesis using \<open>ep_blockIndex p = None \<or> N - M = 2 ^ c\<close> full
        by (intro exI [of _ False] exI [of _ p]) (auto simp: explicit_new_block_index_def Let_def)
    next
      case False
      obtain h f where g: "explicit_new_block_index True (pr_blockIndexSlotsUsed p) p
          = Inr (True, p\<lparr>pr_blockIndexSize := push_bit 1 (pr_blockIndexSize p), pr_blockIndexFront := f, ep_blockIndex := Some h\<rparr>)"
        "xindex_rep (Suc c) (p\<lparr>pr_blockIndexSize := push_bit 1 (pr_blockIndexSize p), pr_blockIndexFront := f, ep_blockIndex := Some h\<rparr>) M N blk"
        using xindex_grow [OF a(7) True c] by blast
      let ?p = "p\<lparr>pr_blockIndexSize := push_bit 1 (pr_blockIndexSize p), pr_blockIndexFront := f, ep_blockIndex := Some h\<rparr>"
      have "xprod_core P ?p xs L (Suc c) H M N blk" by (rule xprod_coreI) (use a g(2) in \<open>simp_all\<close>)
      moreover have "N - M < 2 ^ Suc c" using ix(5) by (simp add: le_less_trans [of _ "2 ^ c"])
      ultimately show ?thesis
        using False True full g(1) by (intro exI [of _ True] exI [of _ ?p]) auto
    qed
  next
    case False
    then show ?thesis using full core ix(5) by (intro exI [of _ True] exI [of _ p]) auto
  qed
qed

lemma xprod_rep_blocks: "xprod_core P p xs L c H M N blk \<Longrightarrow> N = (H + length xs + 31) div 32 \<Longrightarrow> (M = N \<longrightarrow> N = 0) \<Longrightarrow> xprod_rep P p xs L"
  unfolding xprod_rep_def by blast

text \<open>The block ahead is the oldest one, and it is taken when the head has left it.\<close>

lemma block_ahead_rep:
  assumes core: "xprod_core P p xs L c H M N blk"
  shows "block_ahead p P = Inr (if M < N \<and> 32 * M + 32 \<le> H then Some (blk M) else None)"
proof (cases "M < N")
  case True
  note a = xprod_coreD [OF core]
  have N1: "M \<le> N - 1" "N - 1 < N" "M \<le> M" using True by auto
  have "block_next (cblocks P ! blk (N - 1)) = Some (blk M)" using a(13) [OF N1(1,2)] True by (simp add: ring_next_def)
  then show ?thesis using True a(8) is_empty_xblock [OF a(12) [OF N1(3) True]] by (simp add: block_ahead_def)
next
  case False
  then show ?thesis using xprod_coreD(8) [OF core] by (simp add: block_ahead_def)
qed

lemma requisition_tail_rep:
  assumes core: "xprod_core P p xs L c H M N blk" and T: "H + length xs = 32 * N" and rep: "pool_rep P F" and dis: "L \<inter> F = {}"
    and mem: "length (cblocks P) \<le> 2 ^ 57" "bok \<longrightarrow> length (cblocks P) < 2 ^ 57"
  shows "\<exists>ok p1 P1. requisition_tail_block (am, iok, bok) (of_nat (32 * N)) p P = Inr (ok, p1, P1)
    \<and> (if ok then \<exists>p2 nb c' F'. add_index_entry (of_nat (32 * N)) p1 = Inr p2
          \<and> xprod_core P1 (publish_front (pr_blockIndexFront p1) p2) xs (insert nb L) c' H M (Suc N) (blk(N := nb))
          \<and> pool_rep P1 F' \<and> insert nb L \<inter> F' = {} \<and> pool_frame (L \<union> F) P P1
          \<and> insert nb L \<union> F' = L \<union> F \<union> {length (cblocks P)..<length (cblocks P1)}
          \<and> nb \<in> F \<union> {length (cblocks P)..} \<and> length (cblocks P1) \<le> 2 ^ 57
       else P1 = P \<and> (\<exists>c'. xprod_core P p1 xs L c' H M N blk)
          \<and> (am = Cannot_alloc \<or> \<not> iok \<or> \<not> bok \<or> 2 ^ 63 \<le> length xs + 32))"
proof -
  note a = xprod_coreD [OF core]
  have nlt: "\<not> circular_less_than (of_nat (32 * N)) (ep_headIndex p)"
  proof (cases "xs = []")
    case True
    then show ?thesis unfolding a(2) T [symmetric] by simp
  next
    case False
    then have "0 < length xs" by simp
    then have "H < 32 * N" "32 * N - H < 2 ^ 63" using T a(5) by linarith+
    then show ?thesis unfolding a(2) by (rule circular_less_than_of_nat(2))
  qed
  show ?thesis
  proof (cases "is_full (ep_headIndex p) (of_nat (32 * N))")
    case True
    have "2 ^ 63 \<le> length xs + 32"
    proof (rule ccontr)
      assume "\<not> 2 ^ 63 \<le> length xs + 32"
      then have "circular_less_than (of_nat H) (of_nat (32 * N + 32))" using T by (intro circular_less_than_of_nat(1)) auto
      then show False using True a(2) by (simp add: is_full_def BLOCK_SIZE_def)
    qed
    then show ?thesis using True nlt core by (intro exI [of _ False] exI [of _ p] exI [of _ P])
        (auto simp: requisition_tail_block_def Let_def simp del: of_nat_mult)
  next
    case False
    then have "circular_less_than (of_nat H) (of_nat (32 * N + 32))" by (simp add: is_full_def a(2) BLOCK_SIZE_def)
    moreover have "H \<le> 32 * N + 32" "32 * N + 32 - H < 2 ^ 64" using T a(5) by simp_all
    ultimately have "32 * N + 32 - H < 2 ^ 63" using circular_less_than_bound [of H "32 * N + 32"] by blast
    then have few: "32 * Suc N < H + 2 ^ 63" using \<open>H \<le> 32 * N + 32\<close> by simp
    have "N - M \<le> 2 ^ 57" using xprod_few [OF core] mem(1) by simp
    then obtain ok p0 where idx: "(if ep_blockIndex p = None \<or> pr_blockIndexSlotsUsed p = pr_blockIndexSize p
        then (if am = Cannot_alloc then Inr (False, p) else explicit_new_block_index iok (pr_blockIndexSlotsUsed p) p)
        else Inr (True, p)) = (Inr (ok, p0) :: cq_error + bool \<times> explicit_producer)"
      "if ok then \<exists>c' h. xprod_core P p0 xs L c' H M N blk \<and> N - M < 2 ^ c' \<and> ep_blockIndex p0 = Some h
       else p0 = p \<and> (am = Cannot_alloc \<or> \<not> iok)"
      using index_room [OF core, of am iok] by blast
    show ?thesis
    proof (cases ok)
      case okF: False
      then show ?thesis using idx nlt False core
        by (intro exI [of _ False] exI [of _ p] exI [of _ P])
          (auto simp: requisition_tail_block_def Let_def simp del: of_nat_mult)
    next
      case okT: True
      obtain c' h where c': "xprod_core P p0 xs L c' H M N blk" "N - M < 2 ^ c'" "ep_blockIndex p0 = Some h" using idx(2) okT by auto
      obtain r P1 where r: "requisition_block am bok P = Inr (r, P1)"
        "case r of None \<Rightarrow> P1 = P \<and> F = {} \<and> (am = Cannot_alloc \<or> \<not> bok)
         | Some n \<Rightarrow> pool_rep P1 (F - {n}) \<and> n < length (cblocks P1) \<and> raw_block (cblocks P1 ! n)
           \<and> length (cblocks P) \<le> length (cblocks P1)
           \<and> (\<forall>m < length (cblocks P). m \<noteq> n \<longrightarrow> cblocks P1 ! m = cblocks P ! m)
           \<and> (n \<in> F \<and> length (cblocks P1) = length (cblocks P)
             \<or> F = {} \<and> n = length (cblocks P) \<and> length (cblocks P1) = Suc n \<and> am = Can_alloc \<and> bok)"
        using requisition_rep [OF rep, of am bok] by blast
      show ?thesis
      proof (cases r)
        case None
        have "requisition_tail_block (am, iok, bok) (of_nat (32 * N)) p P = Inr (False, p0, P)"
          using False nlt idx(1) okT r None by (simp add: requisition_tail_block_def Let_def del: of_nat_mult)
        then show ?thesis using c'(1) r None by (intro exI [of _ False] exI [of _ p0] exI [of _ P]) auto
      next
        case (Some nb)
        have n: "pool_rep P1 (F - {nb})" "nb < length (cblocks P1)" "raw_block (cblocks P1 ! nb)" "length (cblocks P) \<le> length (cblocks P1)"
          "\<And>m. m < length (cblocks P) \<Longrightarrow> m \<noteq> nb \<Longrightarrow> cblocks P1 ! m = cblocks P ! m"
          "nb \<in> F \<and> length (cblocks P1) = length (cblocks P) \<or> F = {} \<and> nb = length (cblocks P) \<and> length (cblocks P1) = Suc nb \<and> am = Can_alloc \<and> bok"
          using r(2) Some by auto
        have fr: "pool_frame {nb} P P1" using n(4,5) by (simp add: pool_frame_def)
        have "L \<subseteq> {..<length (cblocks P)}" using a(10,11) by auto
        then have nL: "nb \<notin> L" using n(6) dis by auto
        have core1: "xprod_core P1 p0 xs L c' H M N blk" by (rule xprod_core_frame [OF c'(1) fr]) (use nL in simp)
        obtain p1 P2 where ins: "insert_block nb p0 (upd_cblock nb (reset_empty explicit_context) P1) = (p1, P2)" by (cases "insert_block nb p0 (upd_cblock nb (reset_empty explicit_context) P1)")
        have dis1: "insert nb L \<inter> (F - {nb}) = {}" using dis by auto
        obtain p2 where p2: "add_index_entry (of_nat (32 * N)) (p1\<lparr>pr_blockIndexSlotsUsed := pr_blockIndexSlotsUsed p1 + 1\<rparr>) = Inr p2"
          "xprod_core P2 (publish_front (pr_blockIndexFront p0) p2) xs (insert nb L) c' H M (Suc N) (blk(N := nb))"
          "pool_rep P2 (F - {nb})" "length (cblocks P2) = length (cblocks P1)" "pool_frame (insert nb L) P1 P2"
          "pr_blockIndexFront p1 = pr_blockIndexFront p0"
          using insert_block_rep [OF core1 eq_imp_le [OF T] few c'(2,3) nL n(2,3,1) dis1 ins] by blast
        have e: "requisition_tail_block (am, iok, bok) (of_nat (32 * N)) p P
            = Inr (True, p1\<lparr>pr_blockIndexSlotsUsed := pr_blockIndexSlotsUsed p1 + 1\<rparr>, P2)"
          using False nlt idx(1) okT r(1) Some ins by (simp add: requisition_tail_block_def Let_def del: of_nat_mult)
        have "pool_frame (insert nb L) P P2" using pool_frame_trans [OF fr p2(5)] by (rule pool_frame_mono) auto
        then have "pool_frame (L \<union> F) P P2" using n(6) unfolding pool_frame_def by auto
        moreover have "length (cblocks P2) \<le> 2 ^ 57" using n(6) p2(4) mem by auto
        moreover have "insert nb L \<union> (F - {nb}) = L \<union> F \<union> {length (cblocks P)..<length (cblocks P2)}" using n(6) p2(4) by auto
        moreover have "nb \<in> F \<union> {length (cblocks P)..}" using n(6) by auto
        ultimately have "\<exists>p2 nb c' F'. add_index_entry (of_nat (32 * N)) (p1\<lparr>pr_blockIndexSlotsUsed := pr_blockIndexSlotsUsed p1 + 1\<rparr>) = Inr p2
          \<and> xprod_core P2 (publish_front (pr_blockIndexFront p0) p2) xs (insert nb L) c' H M (Suc N) (blk(N := nb))
          \<and> pool_rep P2 F' \<and> insert nb L \<inter> F' = {} \<and> pool_frame (L \<union> F) P P2
          \<and> insert nb L \<union> F' = L \<union> F \<union> {length (cblocks P)..<length (cblocks P2)}
          \<and> nb \<in> F \<union> {length (cblocks P)..} \<and> length (cblocks P2) \<le> 2 ^ 57"
          using p2(1-3) dis1 by (intro exI conjI) assumption+
        then show ?thesis
          unfolding e using p2(6) by (intro exI [of _ True] exI [of _ "p1\<lparr>pr_blockIndexSlotsUsed := pr_blockIndexSlotsUsed p1 + 1\<rparr>"] exI [of _ P2]) simp
      qed
    qed
  qed
qed

lemma explicit_enqueue_rep:
  assumes prod: "xprod_rep P p xs L" and rep: "pool_rep P F" and dis: "L \<inter> F = {}"
    and mem: "length (cblocks P) \<le> 2 ^ 57" "bok \<longrightarrow> length (cblocks P) < 2 ^ 57"
  shows "\<exists>r p' P' L' F'. explicit_enqueue (am, iok, bok) False x p P = Inr (r, p', P') \<and> r \<noteq> Threw
    \<and> xprod_rep P' p' (if r = Enqueued then xs @ [x] else xs) L' \<and> pool_rep P' F' \<and> L' \<inter> F' = {}
    \<and> pool_frame (L \<union> F) P P' \<and> L' \<union> F' = L \<union> F \<union> {length (cblocks P)..<length (cblocks P')} \<and> length (cblocks P') \<le> 2 ^ 57
    \<and> (r \<noteq> Enqueued \<longrightarrow> am = Cannot_alloc \<or> \<not> iok \<or> \<not> bok \<or> 2 ^ 63 \<le> length xs + 32)"
proof -
  obtain c H M N blk where core: "xprod_core P p xs L c H M N blk" and N: "N = (H + length xs + 31) div 32" and MN: "M = N \<longrightarrow> N = 0"
    using prod unfolding xprod_rep_def by blast
  note a = xprod_coreD [OF core]
  have le: "M \<le> N" using xindex_repD(4) [OF a(7)] .
  have slot: "(ep_tailIndex p AND (BLOCK_SIZE - 1) \<noteq> 0) \<longleftrightarrow> (H + length xs) mod 32 \<noteq> 0"
    using slot_of_nat [of "H + length xs"] unfolding a(1) slot_def by (metis unat_eq_0)
  show ?thesis
  proof (cases "(H + length xs) mod 32 \<noteq> 0")
    case True
    have b: "32 * (N - 1) \<le> H + length xs" "H + length xs < 32 * N" using blocks_for_positions(1) [OF True] N by auto
    then have "M < N" using MN le by (cases "M = N") auto
    then obtain p' P' where "explicit_put (ep_tailIndex p) x p P = Inr (p', P')" "xprod_rep P' p' (xs @ [x]) L" "pool_rep P' F"
      "pool_frame L P P'" "length (cblocks P') = length (cblocks P)"
      using explicit_put_rep [OF core b _ rep dis, of x] by blast
    then show ?thesis
      using True slot dis mem(1) by (intro exI [of _ Enqueued] exI [of _ p'] exI [of _ P'] exI [of _ L] exI [of _ F])
        (auto simp: explicit_enqueue_def Let_def intro: pool_frame_mono)
  next
    case False
    then have T: "H + length xs = 32 * N" using blocks_for_positions(2) [of "H + length xs"] N by simp
    have cur: "ep_tailIndex p = of_nat (32 * N)" using a(1) T by simp
    note ahead = block_ahead_rep [OF core]
    show ?thesis
    proof (cases "M < N \<and> 32 * M + 32 \<le> H")
      case True
      have "N - M \<le> 2 ^ 57" using xprod_few [OF core] mem(1) by simp
      then have "N \<le> M + 2 ^ 57" by (simp add: le_diff_conv add.commute)
      then have few: "32 * Suc N < H + 2 ^ 63" using True by simp
      let ?p = "p\<lparr>ep_tailBlock := Some (blk M)\<rparr>"
      let ?P = "upd_cblock (blk M) (reset_empty explicit_context) P"
      obtain p2 where p2: "add_index_entry (of_nat (32 * N)) ?p = Inr p2"
        "xprod_core ?P (publish_front (pr_blockIndexFront p) p2) xs L c H (Suc M) (Suc N) (blk(N := blk M))" "pool_rep ?P F"
        using reuse_block_rep [OF core eq_imp_le [OF T] _ _ few rep dis] True by blast
      have fr: "pr_blockIndexFront ?p = pr_blockIndexFront p" by simp
      have bL: "blk M \<in> L" unfolding a(10) using True by simp
      obtain p' P' where f: "(let front = pr_blockIndexFront ?p
        in bindE (add_index_entry (of_nat (32 * N)) ?p)
          (\<lambda>p. bindE (explicit_put (of_nat (32 * N)) x (publish_front front p) ?P) (\<lambda>(p, P). Inr (Enqueued, p, P)))) = Inr (Enqueued, p', P')"
        "xprod_rep P' p' (xs @ [x]) L" "pool_rep P' F" "pool_frame L ?P P'" "length (cblocks P') = length (cblocks ?P)"
        using explicit_enqueue_finish [OF p2(1) p2(2) [folded fr] T _ p2(3) dis, of x] True by auto
      have "explicit_enqueue (am, iok, bok) False x p P = Inr (Enqueued, p', P')"
        unfolding explicit_enqueue_def next_tail_block_def ahead cur
        using True slot False f(1) cur by (simp add: Let_def del: of_nat_mult)
      moreover have "pool_frame (L \<union> F) P P'"
        using pool_frame_trans [OF pool_frame_upd [OF bL, of P "reset_empty explicit_context"] f(4)] by (rule pool_frame_mono) auto
      ultimately show ?thesis using f(2,3,5) dis mem(1)
        by (intro exI [of _ Enqueued] exI [of _ p'] exI [of _ P'] exI [of _ L] exI [of _ F]) auto
    next
      case notahead: False
      obtain ok p1 P1 where r: "requisition_tail_block (am, iok, bok) (of_nat (32 * N)) p P = Inr (ok, p1, P1)"
        "if ok then \<exists>p2 nb c' F'. add_index_entry (of_nat (32 * N)) p1 = Inr p2
          \<and> xprod_core P1 (publish_front (pr_blockIndexFront p1) p2) xs (insert nb L) c' H M (Suc N) (blk(N := nb))
          \<and> pool_rep P1 F' \<and> insert nb L \<inter> F' = {} \<and> pool_frame (L \<union> F) P P1
          \<and> insert nb L \<union> F' = L \<union> F \<union> {length (cblocks P)..<length (cblocks P1)}
          \<and> nb \<in> F \<union> {length (cblocks P)..} \<and> length (cblocks P1) \<le> 2 ^ 57
       else P1 = P \<and> (\<exists>c'. xprod_core P p1 xs L c' H M N blk)
          \<and> (am = Cannot_alloc \<or> \<not> iok \<or> \<not> bok \<or> 2 ^ 63 \<le> length xs + 32)"
        using requisition_tail_rep [OF core T rep dis mem, of am iok] by blast
      show ?thesis
      proof (cases ok)
        case okF: False
        have "explicit_enqueue (am, iok, bok) False x p P = Inr (Not_enqueued, p1, P)"
          unfolding explicit_enqueue_def next_tail_block_def ahead cur
          using notahead slot False r okF cur by (auto simp: Let_def simp del: of_nat_mult)
        moreover have "xprod_rep P p1 xs L" using r(2) okF xprod_rep_blocks [OF _ N MN] by auto
        ultimately show ?thesis using rep dis mem(1) r(2) okF
          by (intro exI [of _ Not_enqueued] exI [of _ p1] exI [of _ P] exI [of _ L] exI [of _ F]) auto
      next
        case True
        obtain p2 nb c' F' where p2: "add_index_entry (of_nat (32 * N)) p1 = Inr p2"
          "xprod_core P1 (publish_front (pr_blockIndexFront p1) p2) xs (insert nb L) c' H M (Suc N) (blk(N := nb))"
          "pool_rep P1 F'" "insert nb L \<inter> F' = {}" "pool_frame (L \<union> F) P P1"
          "insert nb L \<union> F' = L \<union> F \<union> {length (cblocks P)..<length (cblocks P1)}"
          "nb \<in> F \<union> {length (cblocks P)..}" "length (cblocks P1) \<le> 2 ^ 57"
          using r(2) True by auto
        obtain p' P' where f: "(let front = pr_blockIndexFront p1
          in bindE (add_index_entry (of_nat (32 * N)) p1)
            (\<lambda>p. bindE (explicit_put (of_nat (32 * N)) x (publish_front front p) P1) (\<lambda>(p, P). Inr (Enqueued, p, P)))) = Inr (Enqueued, p', P')"
          "xprod_rep P' p' (xs @ [x]) (insert nb L)" "pool_rep P' F'" "pool_frame (insert nb L) P1 P'" "length (cblocks P') = length (cblocks P1)"
          using explicit_enqueue_finish [OF p2(1,2) T le p2(3,4), of x] by auto
        have "explicit_enqueue (am, iok, bok) False x p P = Inr (Enqueued, p', P')"
          unfolding explicit_enqueue_def next_tail_block_def ahead cur
          using notahead slot False r(1) True f(1) cur by (auto simp: Let_def simp del: of_nat_mult)
        moreover have "pool_frame (L \<union> F) P P'"
          using pool_frame_trans [OF p2(5) f(4)] p2(7) unfolding pool_frame_def by auto
        ultimately show ?thesis using f(2,3,5) p2(4,6,8)
          by (intro exI [of _ Enqueued] exI [of _ p'] exI [of _ P'] exI [of _ "insert nb L"] exI [of _ F']) auto
      qed
    qed
  qed
qed

end
