(* ===== verification/ExplicitFifo.thy ===== *)
theory ExplicitFifo
  imports ExplicitProducer
begin

text \<open>
  \<open>ExplicitProducer\<close> as a queue: taking elements, one or several at a time, construction, and the contract \<open>fifo\<close>, whose interpretation is
  \<open>explicit\<close>. The definitions of the operations are in \<open>ExplicitProducer\<close>.
\<close>

subsection \<open>Dequeue\<close>

lemma set_flags_rep:
  assumes "length (emptyFlags b) = 32" "i + n \<le> 32" "\<And>f. i \<le> f \<Longrightarrow> f < i + n \<Longrightarrow> \<not> emptyFlags b ! f"
  shows "\<exists>fl. set_flags i n b = Inr (b\<lparr>emptyFlags := fl\<rparr>) \<and> length fl = 32
    \<and> (\<forall>f < 32. fl ! f \<longleftrightarrow> emptyFlags b ! f \<or> i \<le> f \<and> f < i + n)"
  using assms
proof (induction n arbitrary: i b)
  case 0
  show ?case by (intro exI [of _ "emptyFlags b"]) (use 0 in auto)
next
  case (Suc n)
  let ?b = "b\<lparr>emptyFlags := (emptyFlags b)[i := True]\<rparr>"
  have "length (emptyFlags ?b) = 32" "i + 1 + n \<le> 32" using Suc.prems(1,2) by simp_all
  moreover have "\<not> emptyFlags ?b ! f" if "i + 1 \<le> f" "f < i + 1 + n" for f
    using Suc.prems(3) [of f] that by simp
  ultimately obtain fl where fl: "set_flags (i + 1) n ?b = Inr (?b\<lparr>emptyFlags := fl\<rparr>)" "length fl = 32"
    "\<forall>f < 32. fl ! f \<longleftrightarrow> emptyFlags ?b ! f \<or> i + 1 \<le> f \<and> f < i + 1 + n"
    using Suc.IH [of ?b "i + 1"] by blast
  have "set_flags i (Suc n) b = Inr (b\<lparr>emptyFlags := fl\<rparr>)" using fl(1) Suc.prems(3) [of i] by simp
  moreover have "fl ! f \<longleftrightarrow> emptyFlags b ! f \<or> i \<le> f \<and> f < i + Suc n" if "f < 32" for f
    using fl(3) that Suc.prems(1) by (cases "f = i") auto
  ultimately show ?case using fl(2) by blast
qed

text \<open>Taking \<open>j\<close> elements out of the block of the head, and marking their slots.\<close>

lemma flags_advance:
  assumes fl: "\<forall>f < 32. fl ! f \<longleftrightarrow> fl0 ! f \<or> 32 - s - j \<le> f \<and> f < 32 - s - j + j"
    and old: "\<forall>t < 32. fl0 ! (31 - t) \<longleftrightarrow> 32 * k + t < H" and H: "H = 32 * k + s" "s + j \<le> 32"
  shows "\<forall>t < 32. fl ! (31 - t) \<longleftrightarrow> 32 * k + t < H + j"
proof (intro allI impI)
  fix t :: nat assume t: "t < 32"
  have "fl ! (31 - t) \<longleftrightarrow> fl0 ! (31 - t) \<or> 32 - s - j \<le> 31 - t \<and> 31 - t < 32 - s - j + j" using fl by simp
  also have "\<dots> \<longleftrightarrow> t < s \<or> 32 - s - j \<le> 31 - t \<and> 31 - t < 32 - s - j + j" using old t H(1) by simp
  also have "\<dots> \<longleftrightarrow> t < s + j" using t H(2) by auto
  finally show "fl ! (31 - t) \<longleftrightarrow> 32 * k + t < H + j" using H(1) by simp
qed

lemma xblock_take:
  assumes b: "xblock_holds b H xs k" and H: "H = 32 * k + s" "s + j \<le> 32" and j: "j \<le> length xs"
  shows "\<exists>es fl. take_elements (of_nat (H + j)) (of_nat H) b = Inr (take j xs, b\<lparr>elements := es\<rparr>)
    \<and> set_many_empty explicit_context (of_nat H) j (b\<lparr>elements := es\<rparr>) = Inr (False, b\<lparr>elements := es, emptyFlags := fl\<rparr>)
    \<and> xblock_holds (b\<lparr>elements := es, emptyFlags := fl\<rparr>) (H + j) (drop j xs) k"
proof -
  have old: "slots_hold (elements b) H xs k" "length (emptyFlags b) = 32" "\<forall>t < 32. emptyFlags b ! (31 - t) \<longleftrightarrow> 32 * k + t < H"
    using b by (simp_all add: xblock_holds_def)
  obtain es where es: "take_elements (of_nat (H + j)) (of_nat H) b = Inr (take j xs, b\<lparr>elements := es\<rparr>)" "slots_hold es (H + j) (drop j xs) k"
    using take_elements_rep [OF old(1) _ _ j] H by auto
  let ?b = "b\<lparr>elements := es\<rparr>"
  have no: "\<not> emptyFlags ?b ! f" if "32 - s - j \<le> f" "f < 32 - s - j + j" for f
    using spec [OF old(3), of "31 - f"] that H by auto
  obtain fl where fl: "set_flags (32 - s - j) j ?b = Inr (?b\<lparr>emptyFlags := fl\<rparr>)" "length fl = 32"
    "\<forall>f < 32. fl ! f \<longleftrightarrow> emptyFlags ?b ! f \<or> 32 - s - j \<le> f \<and> f < 32 - s - j + j"
    using set_flags_rep [of ?b "32 - s - j" j] old(2) H(2) no by auto
  have "set_many_empty explicit_context (of_nat H) j ?b = Inr (False, ?b\<lparr>emptyFlags := fl\<rparr>)"
  proof (cases "s = 32")
    case True
    then show ?thesis using fl(1) H(2) by (simp add: set_many_empty_def)
  next
    case False
    then have "slot (of_nat H) = s" using slot_of_nat [of H] H by simp
    then have "unat BLOCK_SIZE - 1 - slot (of_nat H) + 1 - j = 32 - s - j" using False H(2) by simp
    then show ?thesis using fl(1) by (simp add: set_many_empty_def Let_def)
  qed
  moreover have "xblock_holds (?b\<lparr>emptyFlags := fl\<rparr>) (H + j) (drop j xs) k"
    using flags_advance [OF _ old(3) H, of fl] fl(2,3) es(2) by (simp add: xblock_holds_def)
  ultimately show ?thesis using es(1) by (intro exI [of _ es] exI [of _ fl]) simp
qed

lemma xblock_one:
  assumes b: "xblock_holds b H (x # xs) k" and k: "k = H div 32"
  defines "b1 \<equiv> b\<lparr>elements := (elements b)[H mod 32 := None]\<rparr>"
  shows "elements b ! (H mod 32) = Some x"
    "set_empty explicit_context (of_nat H) b1 = Inr (False, b1\<lparr>emptyFlags := (emptyFlags b)[31 - H mod 32 := True]\<rparr>)"
    "xblock_holds (b1\<lparr>emptyFlags := (emptyFlags b)[31 - H mod 32 := True]\<rparr>) (Suc H) xs k"
proof -
  have old: "slots_hold (elements b) H (x # xs) k" "length (emptyFlags b) = 32" "\<forall>t < 32. emptyFlags b ! (31 - t) \<longleftrightarrow> 32 * k + t < H"
    using b by (simp_all add: xblock_holds_def)
  note first = slots_hold_first [OF old(1) k]
  define s where "s = H mod 32"
  have H: "H = 32 * k + s" "s < 32" using k by (simp_all add: s_def)
  show "elements b ! (H mod 32) = Some x" by (rule first(1))
  have "\<not> emptyFlags b ! (31 - s)" using old(3) H by simp
  then show "set_empty explicit_context (of_nat H) b1 = Inr (False, b1\<lparr>emptyFlags := (emptyFlags b)[31 - H mod 32 := True]\<rparr>)"
    using slot_of_nat [of H] by (simp add: set_empty_def b1_def s_def Let_def)
  have "(emptyFlags b)[31 - s := True] ! (31 - t) \<longleftrightarrow> 32 * k + t < Suc H" if t: "t < 32" for t
  proof (cases "t = s")
    case True
    then show ?thesis using old(2) H by simp
  next
    case False
    then have "31 - s \<noteq> 31 - t" using t H(2) by linarith
    then show ?thesis using old(3) t False H(1) by auto
  qed
  then show "xblock_holds (b1\<lparr>emptyFlags := (emptyFlags b)[31 - H mod 32 := True]\<rparr>) (Suc H) xs k"
    using first(2) old(2) by (simp add: xblock_holds_def b1_def s_def)
qed

text \<open>
  Moving the head within its block. \<open>dequeue_bulk\<close> moves the head over all elements before it takes them out, so in between the
  sub-queue is the one whose head is at the position reached.
\<close>

definition xat :: "nat \<Rightarrow> explicit_producer \<Rightarrow> explicit_producer" where
  "xat H p = p\<lparr>ep_headIndex := of_nat H, ep_dequeueOptimisticCount := of_nat H\<rparr>"

lemma xat_idle: "xprod_core P p xs L c H M N blk \<Longrightarrow> xat H p = p"
  unfolding xat_def using xprod_coreD(2,3) by (metis explicit_producer.surjective explicit_producer.update_convs(2,3))

lemma xprod_advance:
  assumes core: "xprod_core P (xat H p) xs L c H M N blk" and rep: "pool_rep P F" and dis: "L \<inter> F = {}"
    and k: "k = H div 32" "k < N" "H + j \<le> 32 * k + 32" and j: "j \<le> length xs"
    and b': "b' = (cblocks P ! blk k)\<lparr>elements := es, emptyFlags := fl\<rparr>" "xblock_holds b' (H + j) (drop j xs) k"
  defines "P' \<equiv> P\<lparr>cblocks := (cblocks P)[blk k := b']\<rparr>"
  shows "xprod_core P' (xat (H + j) p) (drop j xs) L c (H + j) M N blk" "pool_rep P' F" "pool_frame L P P'"
proof -
  note a = xprod_coreD [OF core]
  have kM: "M \<le> k" using a(6) k(1) by simp
  have bl: "blk k < length (cblocks P)" using a(11) [OF kM k(2)] .
  have bL: "blk k \<in> L" unfolding a(10) using kM k(2) by simp
  show "pool_frame L P P'" unfolding P'_def by (rule pool_frame_upd [OF bL])
  show "pool_rep P' F"
    unfolding P'_def using pool_rep_wf [OF rep bl] bL dis b'
    by (intro pool_rep_write [OF rep, of "blk k" "\<lambda>_. b'"]) (auto simp: block_wf_def xblock_holds_def slots_hold_def)
  have neq: "blk l = blk k \<longleftrightarrow> l = k" if "M \<le> l" "l < N" for l using inj_range [OF a(9) that kM k(2)] .
  have H: "32 * k \<le> H" using k(1) by simp
  show "xprod_core P' (xat (H + j) p) (drop j xs) L c (H + j) M N blk"
  proof (rule xprod_coreI)
    show "M \<le> (H + j) div 32" using a(6) by (rule order.trans) (simp add: div_le_mono)
    show "xindex_rep c (xat (H + j) p) M N blk" using a(7) by (rule xindex_rep_cong) (simp_all add: xat_def)
    show "xblock_holds (cblocks P' ! blk l) (H + j) (drop j xs) l" if l: "M \<le> l" "l < N" for l
    proof (cases "l = k")
      case True
      then show ?thesis using b'(2) bl by (simp add: P'_def)
    next
      case False
      have o: "cblocks P' ! blk l = cblocks P ! blk l" using neq [OF l] False by (simp add: P'_def)
      have old: "xblock_holds (cblocks P ! blk l) H xs l" using a(12) [OF l] .
      have "l < k \<or> k < l" using False by auto
      then have "32 * l + 32 \<le> H \<or> H + j \<le> 32 * l" using H k(3) by auto
      then have "slots_hold (elements (cblocks P ! blk l)) (H + j) (drop j xs) l"
        "\<And>t. t < 32 \<Longrightarrow> 32 * l + t < H + j \<longleftrightarrow> 32 * l + t < H"
        using old slots_hold_shift [OF _ j] unfolding xblock_holds_def by auto
      then show ?thesis using old unfolding o xblock_holds_def by simp
    qed
    show "block_next (cblocks P' ! blk l) = Some (blk (ring_next M N l))" if l: "M \<le> l" "l < N" for l
      using a(13) [OF l] neq [OF l] b'(1) bl by (cases "l = k") (simp_all add: P'_def)
  qed (use a j in \<open>simp_all add: xat_def P'_def del: of_nat_add\<close>)
qed

text \<open>The block of the head, when there is an element.\<close>

lemma xprod_head_block:
  assumes core: "xprod_core P p xs L c H M N blk" and N: "N = (H + length xs + 31) div 32" and ne: "xs \<noteq> []"
  shows "M \<le> H div 32" "H div 32 < N"
proof -
  show "M \<le> H div 32" using xprod_coreD(6) [OF core] .
  have "0 < length xs" using ne by simp
  then have "H + 32 \<le> H + length xs + 31" by linarith
  then have "(H + 32) div 32 \<le> N" unfolding N by (rule div_le_mono)
  then show "H div 32 < N" by simp
qed

lemma xprod_length:
  assumes core: "xprod_core P p xs L c H M N blk" and N: "N = (H + length xs + 31) div 32"
  shows "length xs < 2 ^ 63"
  using positions_le_blocks [of "H + length xs"] xprod_coreD(5) [OF core] unfolding N [symmetric] by linarith

lemma explicit_dequeue_rep:
  assumes prod: "xprod_rep P p xs L" and rep: "pool_rep P F" and dis: "L \<inter> F = {}"
  shows "\<exists>p' P'. explicit_dequeue p P = Inr (case xs of [] \<Rightarrow> None | x # _ \<Rightarrow> Some x, p', P')
    \<and> xprod_rep P' p' (tl xs) L \<and> pool_rep P' F \<and> pool_frame L P P' \<and> length (cblocks P') = length (cblocks P)"
proof -
  obtain c H M N blk where core: "xprod_core P p xs L c H M N blk" and N: "N = (H + length xs + 31) div 32" and MN: "M = N \<longrightarrow> N = 0"
    using prod unfolding xprod_rep_def by blast
  note a = xprod_coreD [OF core]
  show ?thesis
  proof (cases xs)
    case Nil
    then have "explicit_dequeue p P = Inr (None, p, P)" using a(1-4) by (simp add: explicit_dequeue_def)
    then show ?thesis using Nil prod rep by (intro exI [of _ p] exI [of _ P]) simp
  next
    case (Cons x ys)
    define k where "k = H div 32"
    have ne: "xs \<noteq> []" using Cons by simp
    note k = xprod_head_block [OF core N ne, folded k_def]
    have lt: "circular_less_than (of_nat H) (of_nat (H + length xs))"
      using xprod_length [OF core N] Cons by (intro circular_less_than_of_nat(1)) auto
    obtain h where h: "ep_blockIndex p = Some h" using xindex_repD(7) [OF a(7)] k by (cases "ep_blockIndex p") auto
    let ?p = "xat (Suc H) p"
    have q: "p\<lparr>ep_dequeueOptimisticCount := of_nat H + 1, ep_headIndex := of_nat H + 1\<rparr> = ?p" by (simp add: xat_def add.commute)
    have ixq: "xindex_rep c ?p M N blk" using a(7) by (rule xindex_rep_cong) (simp_all add: xat_def)
    have look: "bindE (explicit_entry_index (of_nat H) ?p) (\<lambda>i. explicit_entry_block i ?p) = Inr (blk k)"
      using xlookup [OF ixq k k_def [symmetric], of h] h by (simp add: xat_def)
    let ?b = "cblocks P ! blk k"
    note one = xblock_one [OF a(12) [OF k, unfolded Cons] k_def]
    let ?b' = "?b\<lparr>elements := (elements ?b)[H mod 32 := None], emptyFlags := (emptyFlags ?b)[31 - H mod 32 := True]\<rparr>"
    let ?P = "P\<lparr>cblocks := (cblocks P)[blk k := ?b']\<rparr>"
    have bl: "blk k < length (cblocks P)" using a(11) [OF k] .
    have d: "explicit_dequeue p P = Inr (Some x, ?p, ?P)"
      unfolding explicit_dequeue_def Let_def
      using a(1-4) lt q look one(1,2) slot_of_nat [of H] bl by (simp del: of_nat_add)
    have core0: "xprod_core P (xat H p) xs L c H M N blk" using core unfolding xat_idle [OF core] .
    have kk: "H + 1 \<le> 32 * k + 32" "1 \<le> length xs" using Cons by (simp_all add: k_def)
    have hb: "xblock_holds ?b' (H + 1) (drop 1 xs) k" using one(3) Cons by simp
    note adv = xprod_advance [OF core0 rep dis k_def k(2) kk refl hb]
    have "xprod_rep ?P ?p (tl xs) L"
      unfolding xprod_rep_def using adv(1) N MN Cons by (intro exI [of _ c] exI [of _ "Suc H"] exI [of _ M] exI [of _ N] exI [of _ blk]) simp
    then show ?thesis using d adv(2,3) Cons by (intro exI [of _ ?p] exI [of _ ?P]) simp
  qed
qed

subsection \<open>Taking several elements\<close>

lemma xnext_index:
  assumes rep: "xindex_rep c p M N blk" and h: "ep_blockIndex p = Some h" and k: "M \<le> k" "Suc k < N"
  shows "unat ((of_nat (ring_back (2 ^ c) (unat (header_front h)) (N - 1 - k)) + 1) AND (header_size h - 1))
    = ring_back (2 ^ c) (unat (header_front h)) (N - 1 - Suc k)"
proof -
  note a = xindex_repD [OF rep]
  note f = index_filledD [OF a(9) [OF h]]
  define r where "r = ring_back (2 ^ c) (unat (header_front h)) (N - 1 - k)"
  have MN: "M < N" using k by simp
  have r: "r < 2 ^ c" unfolding r_def by (rule ring_back_less) simp
  also have "(2 :: nat) ^ c \<le> 2 ^ 59" using a(2) by (intro power_increasing) simp_all
  finally have u: "unat (of_nat r :: u64) = r" by (simp add: unat_of_nat)
  have "unat ((of_nat r + 1) AND (header_size h - 1)) = (r + 1) mod 2 ^ c"
    using unat_incr_and_pow2 [OF mask_capacity [OF f(1)], of "of_nat r"] u by simp
  also have "\<dots> = ring_back (2 ^ c) (unat (header_front h)) (N - 1 - k - 1)"
    unfolding r_def using k a(5) f(4) [OF MN] by (intro ring_back_next) simp_all
  finally show ?thesis by (simp add: r_def)
qed

lemma explicit_bulk_blocks_rep:
  assumes "xprod_core P (xat H p) xs L c H M N blk" "N = (H + length xs + 31) div 32" "pool_rep P F" "L \<inter> F = {}"
    "ep_blockIndex p = Some h" "n \<le> length xs" "xs \<noteq> []" "n < fuel"
  shows "\<exists>P'. explicit_bulk_blocks fuel (of_nat (H + n)) (ring_back (2 ^ c) (unat (header_front h)) (N - 1 - H div 32)) (of_nat H) p P
      = Inr (take n xs, P')
    \<and> xprod_core P' (xat (H + n) p) (drop n xs) L c (H + n) M N blk \<and> pool_rep P' F \<and> pool_frame L P P'
    \<and> length (cblocks P') = length (cblocks P)"
  using assms
proof (induction fuel arbitrary: P xs H n)
  case (Suc fuel)
  note core = Suc.prems(1)
  note a = xprod_coreD [OF core]
  define s where "s = H mod 32"
  define j where "j = min n (32 - s)"
  define k where "k = H div 32"
  define i where "i = ring_back (2 ^ c) (unat (header_front h)) (N - 1 - k)"
  have H: "H = 32 * k + s" "s + j \<le> 32" "s < 32" by (simp_all add: k_def s_def j_def)
  have jn: "j \<le> n" "j \<le> length xs" using Suc.prems(6) by (auto simp: j_def)
  note k = xprod_head_block [OF core Suc.prems(2,7), folded k_def]
  have ix: "xindex_rep c p M N blk" using a(7) by (rule xindex_rep_cong) (simp_all add: xat_def)
  have len: "n < 2 ^ 63" using xprod_length [OF core Suc.prems(2)] Suc.prems(6) by simp
  have bend: "bulk_end (of_nat (H + n)) (of_nat H) = of_nat (H + j)" unfolding j_def s_def by (rule bulk_end_rep [OF len])
  have blk: "explicit_entry_block i p = Inr (blk k)"
    using xlookup(2) [OF ix k k_def [symmetric] Suc.prems(5)] by (simp add: i_def)
  have bl: "blk k < length (cblocks P)" using a(11) [OF k] .
  obtain es fl where t: "take_elements (of_nat (H + j)) (of_nat H) (cblocks P ! blk k) = Inr (take j xs, (cblocks P ! blk k)\<lparr>elements := es\<rparr>)"
    "set_many_empty explicit_context (of_nat H) j ((cblocks P ! blk k)\<lparr>elements := es\<rparr>) = Inr (False, (cblocks P ! blk k)\<lparr>elements := es, emptyFlags := fl\<rparr>)"
    "xblock_holds ((cblocks P ! blk k)\<lparr>elements := es, emptyFlags := fl\<rparr>) (H + j) (drop j xs) k"
    using xblock_take [OF a(12) [OF k] H(1,2) jn(2)] by blast
  have dj: "unat (of_nat (H + j) - of_nat H :: u64) = j"
  proof -
    have "j < 2 ^ 64" using H(2) by simp
    then show ?thesis by (simp add: unat_of_nat)
  qed
  define P1 where "P1 = P\<lparr>cblocks := (cblocks P)[blk k := (cblocks P ! blk k)\<lparr>elements := es, emptyFlags := fl\<rparr>]\<rparr>"
  have kk: "H + j \<le> 32 * k + 32" using H by simp
  note adv = xprod_advance [OF core Suc.prems(3,4) k_def k(2) kk jn(2) refl t(3), folded P1_def]
  have l1: "length (cblocks P1) = length (cblocks P)" by (simp add: P1_def)
  have step: "explicit_bulk_blocks (Suc fuel) (of_nat (H + n)) i (of_nat H) p P
      = (if (of_nat (H + j) :: u64) \<noteq> of_nat (H + n)
         then bindE (explicit_bulk_blocks fuel (of_nat (H + n)) (unat ((of_nat i + 1) AND (header_size h - 1))) (of_nat (H + j)) p P1)
           (\<lambda>(els', P). Inr (take j xs @ els', P))
         else Inr (take j xs, P1))"
    using blk t(1,2) dj Suc.prems(5) by (simp add: bend Let_def P1_def del: of_nat_add)
  show ?case
  proof (cases "j = n")
    case True
    then show ?thesis using step adv l1 by (intro exI [of _ P1]) (simp add: i_def k_def)
  next
    case False
    then have j: "j = 32 - s" "j < n" using jn by (auto simp: j_def)
    have K: "(H + j) div 32 = Suc k" using H(1,3) j(1) by (simp add: div_nat_eqI)
    have neq: "(of_nat (H + j) :: u64) \<noteq> of_nat (H + n)" using of_nat_word_neq [of "n - j" "H + j"] j(2) len by simp
    have "0 < j" using j(1) H(3) by simp
    have xs1: "n - j \<le> length (drop j xs)" "drop j xs \<noteq> []" "n - j < fuel" using Suc.prems(6,8) j(2) \<open>0 < j\<close> by auto
    have N1: "N = (H + j + length (drop j xs) + 31) div 32" using Suc.prems(2) jn(2) by simp
    have "Suc k < N" using xprod_head_block(2) [OF adv(1) N1 xs1(2)] K by simp
    then have nx: "unat ((of_nat i + 1) AND (header_size h - 1)) = ring_back (2 ^ c) (unat (header_front h)) (N - 1 - (H + j) div 32)"
      unfolding i_def K by (rule xnext_index [OF ix Suc.prems(5) k(1)])
    have stop: "H + j + (n - j) = H + n" using j(2) by simp
    from Suc.IH [OF adv(1) N1 adv(2) Suc.prems(4,5) xs1, unfolded stop]
    obtain P2 where two:
      "explicit_bulk_blocks fuel (of_nat (H + n)) (ring_back (2 ^ c) (unat (header_front h)) (N - 1 - (H + j) div 32)) (of_nat (H + j)) p P1
         = Inr (take (n - j) (drop j xs), P2)"
      "xprod_core P2 (xat (H + n) p) (drop (n - j) (drop j xs)) L c (H + n) M N blk" "pool_rep P2 F" "pool_frame L P1 P2"
      "length (cblocks P2) = length (cblocks P1)"
      by (elim exE conjE) (rule that; assumption)
    have split: "take n xs = take j xs @ take (n - j) (drop j xs)" "drop (n - j) (drop j xs) = drop n xs"
      using j(2) by (simp_all add: take_add [symmetric])
    have "explicit_bulk_blocks (Suc fuel) (of_nat (H + n)) i (of_nat H) p P = Inr (take n xs, P2)"
      unfolding step nx using neq two(1) split(1) by simp
    moreover have "pool_frame L P P2" using pool_frame_trans [OF adv(3) two(4)] by simp
    ultimately show ?thesis using two(2) [unfolded split(2)] two(3,5) l1 by (intro exI [of _ P2]) (simp add: i_def k_def)
  qed
qed simp

lemma explicit_dequeue_bulk_rep:
  fixes mx :: u64
  assumes prod: "xprod_rep P p xs L" and rep: "pool_rep P F" and dis: "L \<inter> F = {}"
  defines "n \<equiv> min (unat mx) (length xs)"
  shows "\<exists>p' P'. explicit_dequeue_bulk mx p P = Inr ((of_nat n, take n xs), p', P')
    \<and> xprod_rep P' p' (drop n xs) L \<and> pool_rep P' F \<and> pool_frame L P P' \<and> length (cblocks P') = length (cblocks P)"
proof -
  obtain c H M N blk where core: "xprod_core P p xs L c H M N blk" and N: "N = (H + length xs + 31) div 32" and MN: "M = N \<longrightarrow> N = 0"
    using prod unfolding xprod_rep_def by blast
  note a = xprod_coreD [OF core]
  have len: "length xs < 2 ^ 63" by (rule xprod_length [OF core N])
  have sz: "ep_tailIndex p - of_nat H = of_nat (length xs)" "unat (of_nat (length xs) :: u64) = length xs"
    using a(1) len by (simp_all add: unat_of_nat)
  have lt: "circular_less_than 0 (of_nat (length xs) :: u64) \<longleftrightarrow> xs \<noteq> []"
    using circular_less_than_of_nat(1) [of 0 "length xs"] len by (cases "xs = []") auto
  show ?thesis
  proof (cases "xs = []")
    case True
    then show ?thesis
      using prod rep lt sz(1) a(2-4) by (intro exI [of _ p] exI [of _ P]) (simp add: explicit_dequeue_bulk_def n_def)
  next
    case False
    note k = xprod_head_block [OF core N False]
    have desired: "(if (of_nat (length xs) :: u64) < mx then of_nat (length xs) else mx) = of_nat n"
      using sz(2) by (auto simp: n_def word_less_nat_alt min_def of_nat_unat ucast_id)
    have nn: "n \<le> length xs" "unat (of_nat n :: u64) = n" using len by (simp_all add: n_def unat_of_nat)
    have actual: "(if (of_nat n :: u64) < of_nat (length xs) then of_nat n else of_nat (length xs)) = (of_nat n :: u64)"
      using nn sz(2) by (auto simp: word_less_nat_alt)
    define q where "q = p\<lparr>ep_dequeueOptimisticCount := of_nat H + of_nat n, ep_headIndex := of_nat H + of_nat n\<rparr>"
    obtain h where h: "ep_blockIndex q = Some h" using xindex_repD(7) [OF a(7)] k by (cases "ep_blockIndex p") (auto simp: q_def)
    have q: "xat (H + n) q = q" "xat H q = p"
      using a(2,3) by (simp_all add: q_def xat_def)
    have ixq: "xindex_rep c q M N blk" using a(7) by (rule xindex_rep_cong) (simp_all add: q_def)
    note look = xlookup(1) [OF ixq k refl h]
    have core0: "xprod_core P (xat H q) xs L c H M N blk" unfolding q using core .
    from explicit_bulk_blocks_rep [OF core0 N rep dis h nn(1) False lessI]
    obtain P' where r:
      "explicit_bulk_blocks (Suc n) (of_nat (H + n)) (ring_back (2 ^ c) (unat (header_front h)) (N - 1 - H div 32)) (of_nat H) q P = Inr (take n xs, P')"
      "xprod_core P' (xat (H + n) q) (drop n xs) L c (H + n) M N blk" "pool_rep P' F" "pool_frame L P P'"
      "length (cblocks P') = length (cblocks P)"
      by (elim exE conjE) (rule that; assumption)
    have "xprod_rep P' q (drop n xs) L"
      unfolding xprod_rep_def using r(2) [unfolded q(1)] N MN nn(1)
      by (intro exI [of _ c] exI [of _ "H + n"] exI [of _ M] exI [of _ N] exI [of _ blk]) simp
    moreover have sel: "\<And>x. ep_tailIndex (p\<lparr>ep_dequeueOptimisticCount := x\<rparr>) = ep_tailIndex p" by simp
    have "explicit_dequeue_bulk mx p P = Inr ((of_nat n, take n xs), q, P')"
      unfolding explicit_dequeue_bulk_def Let_def a(2,3,4) diff_zero sel sz(1) desired actual
      using lt False sz(1) desired actual look r(1) nn(2) a(2)
      by (simp add: q_def del: explicit_bulk_blocks.simps split del: if_split)
    ultimately show ?thesis using r(3-5) by blast
  qed
qed

subsection \<open>Construction\<close>

lemma ceil_to_pow_2_spec:
  assumes "0 < x" "unat x \<le> 2 ^ 63"
  shows "\<exists>k. k \<le> 63 \<and> unat (ceil_to_pow_2 x) = 2 ^ k \<and> unat x \<le> 2 ^ k \<and> (\<forall>j. unat x \<le> 2 ^ j \<longrightarrow> k \<le> j)"
proof -
  define x1 where "x1 = (x - 1) OR drop_bit 1 (x - 1)"
  define x2 where "x2 = x1 OR drop_bit 2 x1"
  define x3 where "x3 = x2 OR drop_bit 4 x2"
  define x4 where "x4 = x3 OR drop_bit 8 x3"
  define x5 where "x5 = x4 OR drop_bit 16 x4"
  define x6 where "x6 = x5 OR drop_bit 32 x5"
  have r: "ceil_to_pow_2 x = x6 + 1"
    by (simp add: ceil_to_pow_2_def Let_def x1_def x2_def x3_def x4_def x5_def x6_def)
  obtain k where k: "k \<le> 64" "x6 = mask k" "unat (x - 1) < 2 ^ k" "\<And>j. unat (x - 1) < 2 ^ j \<Longrightarrow> k \<le> j"
    using smear64_mask [OF x1_def x2_def x3_def x4_def x5_def x6_def] by blast
  show ?thesis using mask_ceiling [OF _ k(3,4) assms, of "ceil_to_pow_2 x"] k(2) r by blast
qed

lemma initial_index_size:
  assumes "unat z \<le> 2 ^ 57"
  shows "\<exists>c. 4 \<le> c \<and> c \<le> 57 \<and> unat (let poolBasedIndexSize = drop_bit 1 (ceil_to_pow_2 z)
      in if poolBasedIndexSize > 16 then poolBasedIndexSize else (16 :: u64)) = 2 ^ c"
proof (cases "drop_bit 1 (ceil_to_pow_2 z) > 16")
  case True
  have "ceil_to_pow_2 0 = 0" by code_simp
  then have "z \<noteq> 0" using True by auto
  then have "0 < z" by (simp add: word_gt_0)
  then obtain k where k: "k \<le> 63" "unat (ceil_to_pow_2 z) = 2 ^ k" "\<forall>j. unat z \<le> 2 ^ j \<longrightarrow> k \<le> j"
    using ceil_to_pow_2_spec [of z] assms by auto
  have d: "unat (drop_bit 1 (ceil_to_pow_2 z)) = 2 ^ k div 2" using k(2) by (simp add: drop_bit_eq_div unat_div)
  then have "16 < (2 :: nat) ^ k div 2" using True by (simp add: word_less_nat_alt)
  then have "k \<noteq> 0" "5 \<le> k"
  proof -
    show "5 \<le> k"
    proof (rule ccontr)
      assume "\<not> 5 \<le> k"
      then have "(2 :: nat) ^ k \<le> 2 ^ 4" by (intro power_increasing) auto
      then show False using \<open>16 < (2 :: nat) ^ k div 2\<close> by simp
    qed
    then show "k \<noteq> 0" by simp
  qed
  then have "(2 :: nat) ^ k div 2 = 2 ^ (k - 1)" by (cases k) auto
  moreover have "k \<le> 57" using k(3) assms by blast
  moreover have "4 \<le> k - 1" "k - 1 \<le> 57" using \<open>5 \<le> k\<close> \<open>k \<le> 57\<close> by simp_all
  ultimately show ?thesis using True d by (intro exI [of _ "k - 1"]) (simp add: Let_def)
qed (auto intro!: exI [of _ 4])

lemma ExplicitProducer_new_rep:
  assumes "unat (initialBlockPoolSize P) \<le> 2 ^ 57"
  shows "\<exists>p. ExplicitProducer_new malloc_ok P = Inr p \<and> xprod_rep P p [] {}"
proof -
  obtain c where c: "4 \<le> c" "c \<le> 57" "unat (let poolBasedIndexSize = drop_bit 1 (ceil_to_pow_2 (initialBlockPoolSize P))
      in if poolBasedIndexSize > 16 then poolBasedIndexSize else (16 :: u64)) = 2 ^ c"
    using initial_index_size [OF assms] by blast
  define sz where "sz = (let poolBasedIndexSize = drop_bit 1 (ceil_to_pow_2 (initialBlockPoolSize P))
      in if poolBasedIndexSize > 16 then poolBasedIndexSize else (16 :: u64))"
  let ?p = "\<lparr>ep_tailIndex = 0, ep_headIndex = 0, ep_dequeueOptimisticCount = 0, ep_dequeueOvercommit = 0, ep_tailBlock = None,
    ep_blockIndex = None, pr_blockIndexSlotsUsed = 0, pr_blockIndexSize = sz, pr_blockIndexFront = 0\<rparr>"
  have base: "xindex_rep c ?p 0 0 blk" for blk
    unfolding xindex_rep_def using c by (simp add: sz_def)
  have new: "ExplicitProducer_new malloc_ok P = bindE (explicit_new_block_index malloc_ok 0 ?p) (\<lambda>(_, p). Inr p)"
    by (simp add: ExplicitProducer_new_def sz_def EXPLICIT_INITIAL_INDEX_SIZE_def Let_def)
  have rep: "xprod_rep P q [] {}" if "xindex_rep c' q 0 0 id" "ep_tailIndex q = 0" "ep_headIndex q = 0"
    "ep_dequeueOptimisticCount q = 0" "ep_dequeueOvercommit q = 0" "ep_tailBlock q = None" for c' q
  proof -
    have "xprod_core P q [] {} c' 0 0 0 id" by (rule xprod_coreI) (use that in \<open>simp_all\<close>)
    then show ?thesis unfolding xprod_rep_def by (intro exI [of _ c'] exI [of _ 0] exI [of _ id]) simp
  qed
  show ?thesis
  proof (cases malloc_ok)
    case True
    have "ep_blockIndex ?p = None \<or> 0 - 0 = (2 :: nat) ^ c" "c \<le> 58" using c by simp_all
    from xindex_grow [OF base [of id] this]
    obtain h f where g: "explicit_new_block_index True 0 ?p = Inr (True, ?p\<lparr>pr_blockIndexSize := push_bit 1 sz, pr_blockIndexFront := f, ep_blockIndex := Some h\<rparr>)"
      "xindex_rep (Suc c) (?p\<lparr>pr_blockIndexSize := push_bit 1 sz, pr_blockIndexFront := f, ep_blockIndex := Some h\<rparr>) 0 0 id"
      by auto
    then show ?thesis using True new rep [OF g(2)] by simp
  next
    case False
    then show ?thesis using new rep [OF base] by (simp add: explicit_new_block_index_def Let_def)
  qed
qed

subsection \<open>The contract\<close>

text \<open>The elements, read through the block index.\<close>

definition explicit_element_at :: "explicit_producer \<Rightarrow> 'a pool \<Rightarrow> u64 \<Rightarrow> 'a option" where
  "explicit_element_at p P i =
     (case bindE (explicit_entry_index i p) (\<lambda>e. explicit_entry_block e p) of
        Inl _ \<Rightarrow> None
      | Inr b \<Rightarrow> elements (cblocks P ! b) ! slot i)"

definition explicit_list :: "explicit_producer \<Rightarrow> 'a pool \<Rightarrow> 'a list" where
  "explicit_list p P = map (\<lambda>i. the (explicit_element_at p P (ep_headIndex p + of_nat i))) [0..<unat (ep_tailIndex p - ep_headIndex p)]"

lemma explicit_list_rep:
  assumes "xprod_rep P p xs L"
  shows "explicit_list p P = xs"
proof -
  obtain c H M N blk where core: "xprod_core P p xs L c H M N blk" and N: "N = (H + length xs + 31) div 32"
    using assms unfolding xprod_rep_def by blast
  note a = xprod_coreD [OF core]
  have TN: "H + length xs \<le> 32 * N" unfolding N by (rule positions_le_blocks)
  have l: "length xs < 2 ^ 63" by (rule xprod_length [OF core N])
  have len: "unat (ep_tailIndex p - ep_headIndex p) = length xs"
    unfolding a(1,2) using unat_diff_of_nat [of H "H + length xs"] l by simp
  have "explicit_element_at p P (ep_headIndex p + of_nat i) = Some (xs ! i)" if i: "i < length xs" for i
  proof -
    define k where "k = (H + i) div 32"
    have "H div 32 \<le> k" by (simp add: k_def div_le_mono)
    then have k: "M \<le> k" "k < N"
      using a(6) TN i by (simp_all add: k_def less_mult_imp_div_less)
    obtain h where h: "ep_blockIndex p = Some h" using xindex_repD(7) [OF a(7)] k by (cases "ep_blockIndex p") auto
    have p: "32 * k + (H + i) mod 32 = H + i" by (simp add: k_def)
    have "elements (cblocks P ! blk k) ! ((H + i) mod 32) = Some (xs ! i)"
      using a(12) [OF k] p i by (simp add: xblock_holds_def slots_hold_def)
    then show ?thesis
      using xlookup [OF a(7) k k_def [symmetric] h] slot_of_nat [of "H + i"] a(2) by (simp add: explicit_element_at_def)
  qed
  then have "map (\<lambda>i. the (explicit_element_at p P (ep_headIndex p + of_nat i))) [0..<length xs] = map (\<lambda>i. xs ! i) [0..<length xs]"
    by (intro map_cong) simp_all
  then show "explicit_list p P = xs" unfolding explicit_list_def len map_nth .
qed

text \<open>
  An enqueue whose element is constructed without an exception, as an operation of the queue contract. A block takes more
  than 64 bytes of the 64-bit address space, so the heap cannot give more than \<open>2 ^ 57\<close> of them.
\<close>

definition explicit_enq :: "alloc_mode \<times> bool \<times> bool \<Rightarrow> 'a \<Rightarrow> explicit_producer \<times> 'a pool \<Rightarrow> cq_error + bool \<times> explicit_producer \<times> 'a pool" where
  "explicit_enq m x q =
     (let (allocMode, index_ok, block_ok) = m
      in bindE (explicit_enqueue (allocMode, index_ok, block_ok \<and> length (cblocks (snd q)) < 2 ^ 57) False x (fst q) (snd q))
           (\<lambda>(r, q). Inr (r = Enqueued, q)))"

definition explicit_deq :: "explicit_producer \<times> 'a pool \<Rightarrow> cq_error + 'a option \<times> explicit_producer \<times> 'a pool" where
  "explicit_deq q = explicit_dequeue (fst q) (snd q)"

definition xprod_inv :: "explicit_producer \<times> 'a pool \<Rightarrow> bool" where
  "xprod_inv q \<longleftrightarrow> (\<exists>xs L F. xprod_rep (snd q) (fst q) xs L \<and> pool_rep (snd q) F \<and> L \<inter> F = {} \<and> L \<union> F = {..<length (cblocks (snd q))})
     \<and> length (cblocks (snd q)) \<le> 2 ^ 57"

lemma xprod_invE:
  assumes "xprod_inv q"
  obtains p P xs L F where "q = (p, P)" "xprod_rep P p xs L" "pool_rep P F" "L \<inter> F = {}" "length (cblocks P) \<le> 2 ^ 57"
    "L \<union> F = {..<length (cblocks P)}" "explicit_list p P = xs"
proof -
  obtain xs L F where "xprod_rep (snd q) (fst q) xs L" "pool_rep (snd q) F" "L \<inter> F = {}" "L \<union> F = {..<length (cblocks (snd q))}"
    "length (cblocks (snd q)) \<le> 2 ^ 57"
    using assms unfolding xprod_inv_def by blast
  then show ?thesis using that [of "fst q" "snd q" xs L F] explicit_list_rep by force
qed

lemma xprod_invI:
  "xprod_rep P p xs L \<Longrightarrow> pool_rep P F \<Longrightarrow> L \<inter> F = {} \<Longrightarrow> L \<union> F = {..<length (cblocks P)} \<Longrightarrow> length (cblocks P) \<le> 2 ^ 57 \<Longrightarrow> xprod_inv (p, P)"
  unfolding xprod_inv_def fst_conv snd_conv by blast

interpretation explicit: fifo xprod_inv "\<lambda>(p, P). explicit_list p P" explicit_enq explicit_deq
proof
  fix q :: "explicit_producer \<times> 'a pool" and m :: "alloc_mode \<times> bool \<times> bool" and x
  assume "xprod_inv q"
  then obtain p P xs L F where q: "q = (p, P)" "xprod_rep P p xs L" "pool_rep P F" "L \<inter> F = {}" "length (cblocks P) \<le> 2 ^ 57"
    "L \<union> F = {..<length (cblocks P)}" "explicit_list p P = xs" by (rule xprod_invE)
  obtain am iok bok where m: "m = (am, iok, bok)" by (cases m)
  have room: "bok \<and> length (cblocks P) < 2 ^ 57 \<longrightarrow> length (cblocks P) < 2 ^ 57" by simp
  from explicit_enqueue_rep [OF q(2-5) room, of am iok x]
  obtain r p' P' L' F' where e: "explicit_enqueue (am, iok, bok \<and> length (cblocks P) < 2 ^ 57) False x p P = Inr (r, p', P')"
    "xprod_rep P' p' (if r = Enqueued then xs @ [x] else xs) L'" "pool_rep P' F'" "L' \<inter> F' = {}" "pool_frame (L \<union> F) P P'" "L' \<union> F' = L \<union> F \<union> {length (cblocks P)..<length (cblocks P')}"
    "length (cblocks P') \<le> 2 ^ 57"
    by (elim exE conjE) (rule that; assumption)
  have all: "L' \<union> F' = {..<length (cblocks P')}" unfolding e(6) q(6) using e(5) by (auto simp: pool_frame_def)
  have "explicit_enq m x q = Inr (r = Enqueued, p', P')" using e(1) by (simp add: explicit_enq_def m q(1))
  then show "\<exists>b q'. explicit_enq m x q = Inr (b, q') \<and> xprod_inv q'
      \<and> (case q' of (p, P) \<Rightarrow> explicit_list p P)
        = (if b then (case q of (p, P) \<Rightarrow> explicit_list p P) @ [x] else (case q of (p, P) \<Rightarrow> explicit_list p P))"
    using xprod_invI [OF e(2-4) all e(7)] explicit_list_rep [OF e(2)] q(1,7)
    by (intro exI [of _ "r = Enqueued"] exI [of _ "(p', P')"]) simp
next
  fix q :: "explicit_producer \<times> 'a pool"
  assume "xprod_inv q"
  then obtain p P xs L F where q: "q = (p, P)" "xprod_rep P p xs L" "pool_rep P F" "L \<inter> F = {}" "length (cblocks P) \<le> 2 ^ 57"
    "L \<union> F = {..<length (cblocks P)}" "explicit_list p P = xs" by (rule xprod_invE)
  from explicit_dequeue_rep [OF q(2-4)]
  obtain p' P' where e: "explicit_dequeue p P = Inr (case xs of [] \<Rightarrow> None | x # _ \<Rightarrow> Some x, p', P')"
    "xprod_rep P' p' (tl xs) L" "pool_rep P' F" "length (cblocks P') = length (cblocks P)"
    by (elim exE conjE) (rule that; assumption)
  have "xprod_inv (p', P')" using xprod_invI [OF e(2,3) q(4)] e(4) q(5,6) by simp
  then show "\<exists>q'. explicit_deq q
      = Inr (case (case q of (p, P) \<Rightarrow> explicit_list p P) of [] \<Rightarrow> None | x # _ \<Rightarrow> Some x, q') \<and> xprod_inv q'
      \<and> (case q' of (p, P) \<Rightarrow> explicit_list p P) = tl (case q of (p, P) \<Rightarrow> explicit_list p P)"
    using e(1) explicit_list_rep [OF e(2)] q(1,7)
    by (intro exI [of _ "(p', P')"]) (simp add: explicit_deq_def)
qed

subsection \<open>Properties\<close>

lemma xprod_inv_new:
  fixes malloc_ok n
  assumes "unat n \<le> 2 ^ 57"
  defines "P \<equiv> populate_initial_block_list malloc_ok n (pool_init :: 'a pool)"
  shows "\<exists>p. ExplicitProducer_new index_ok P = Inr p \<and> xprod_inv (p, P) \<and> explicit_list p P = []"
proof -
  have size: "unat (initialBlockPoolSize P) \<le> 2 ^ 57" "length (cblocks P) \<le> 2 ^ 57"
    using assms(1) by (simp_all add: P_def populate_initial_block_list_def pool_init_def)
  obtain p where p: "ExplicitProducer_new index_ok P = Inr p" "xprod_rep P p [] {}" using ExplicitProducer_new_rep [OF size(1)] by blast
  have F: "pool_rep P {..<length (cblocks P)}" unfolding P_def by (rule populate_blocks)
  have "xprod_inv (p, P)" by (rule xprod_invI [OF p(2) F _ _ size(2)]) simp_all
  then show ?thesis using p explicit_list_rep [OF p(2)] by blast
qed

lemma explicit_run:
  fixes malloc_ok n
  assumes "unat n \<le> 2 ^ 57"
  defines "P \<equiv> populate_initial_block_list malloc_ok n (pool_init :: 'a pool)"
  shows "\<exists>p evs p' P'. ExplicitProducer_new index_ok P = Inr p \<and> run_ops explicit_enq explicit_deq ops (p, P) = Inr (evs, p', P')
    \<and> xprod_inv (p', P') \<and> accepted evs = got evs @ explicit_list p' P'"
proof -
  obtain p where p: "ExplicitProducer_new index_ok P = Inr p" "xprod_inv (p, P)" "explicit_list p P = []"
    using xprod_inv_new [OF assms(1)] unfolding P_def by blast
  show ?thesis using explicit.run_ops_fifo [OF p(2), of ops] p(1,3) by auto
qed

text \<open>
  C17: the sub-queue behind a producer token is a FIFO queue. Over a block pool of any initial size, and whether or not the constructor
  could allocate the block index, every sequence of enqueues (allocating or not, with the heap failing at any call) and
  dequeues runs without a failed assertion, a null pointer or a read of a slot without an object, across the reuse
  of its own blocks and the growth of the block index; what comes out is what was accepted, in order; and
  \<open>dequeue_bulk\<close> then takes the oldest elements, as many as asked for or as there are.
\<close>

theorem explicit_producer_fifo:
  fixes ops :: "(alloc_mode \<times> bool \<times> bool, 'a) queue_op list"
  assumes "unat n \<le> 2 ^ 57"
  shows "\<exists>p evs p' P' rest. ExplicitProducer_new index_ok (populate_initial_block_list malloc_ok n (pool_init :: 'a pool)) = Inr p
    \<and> run_ops explicit_enq explicit_deq ops (p, populate_initial_block_list malloc_ok n pool_init) = Inr (evs, p', P')
    \<and> accepted evs = got evs @ rest
    \<and> (\<exists>q Q. explicit_dequeue_bulk mx p' P' = Inr ((of_nat (min (unat mx) (length rest)), take (unat mx) rest), q, Q)
        \<and> explicit_list q Q = drop (unat mx) rest)"
proof -
  obtain p evs p' P' where r: "ExplicitProducer_new index_ok (populate_initial_block_list malloc_ok n (pool_init :: 'a pool)) = Inr p"
    "run_ops explicit_enq explicit_deq ops (p, populate_initial_block_list malloc_ok n pool_init) = Inr (evs, p', P')"
    "xprod_inv (p', P')" "accepted evs = got evs @ explicit_list p' P'"
    using explicit_run [where index_ok = index_ok and malloc_ok = malloc_ok and ops = ops, OF assms] by (elim exE conjE) (rule that; assumption)
  obtain xs L F where q: "xprod_rep P' p' xs L" "pool_rep P' F" "L \<inter> F = {}" "explicit_list p' P' = xs"
    using r(3) by (rule xprod_invE) auto
  from explicit_dequeue_bulk_rep [OF q(1-3), of mx]
  obtain p2 P2 where d: "explicit_dequeue_bulk mx p' P' = Inr ((of_nat (min (unat mx) (length xs)), take (min (unat mx) (length xs)) xs), p2, P2)"
    "xprod_rep P2 p2 (drop (min (unat mx) (length xs)) xs) L"
    by (elim exE conjE) (rule that; assumption)
  have cut: "take (min (unat mx) (length xs)) xs = take (unat mx) xs" "drop (min (unat mx) (length xs)) xs = drop (unat mx) xs"
    by (cases "unat mx \<le> length xs"; simp)+
  show ?thesis using r(1,2,4) d(1) explicit_list_rep [OF d(2)] q(4) unfolding cut by blast
qed

theorem explicit_producer_fifo_witness:
  "\<exists>p evs p' P' rest. ExplicitProducer_new False (populate_initial_block_list True 2 (pool_init :: nat pool)) = Inr p
    \<and> run_ops explicit_enq explicit_deq [Enq (Can_alloc, True, True) (7 :: nat), Enq (Cannot_alloc, True, True) 8, Deq]
        (p, populate_initial_block_list True 2 pool_init) = Inr (evs, p', P')
    \<and> accepted evs = got evs @ rest
    \<and> (\<exists>q Q. explicit_dequeue_bulk 5 p' P' = Inr ((of_nat (min (unat (5 :: u64)) (length rest)), take (unat (5 :: u64)) rest), q, Q)
        \<and> explicit_list q Q = drop (unat (5 :: u64)) rest)"
  by (rule explicit_producer_fifo) simp

end
