(* ===== verification/ExplicitTeardown.thy ===== *)
theory ExplicitTeardown
  imports ExplicitFifo
begin

text \<open>
  \<open>source/utils/concurrentqueue.h\<close>: the destructor \<open>~ExplicitProducer\<close>. The result is what it destroys: the elements, and the blocks that
  were allocated one by one, in the order of the code; the other blocks go back to the free list. The chain of
  block indexes, which is freed last, holds nothing that has to be destroyed.
\<close>

subsection \<open>The loops\<close>

text \<open>
  The loop that finds the block that is partially dequeued: the first one, from the oldest on, that does not end before the head.
\<close>

fun find_half_dequeued :: "nat \<Rightarrow> explicit_producer \<Rightarrow> u64 \<Rightarrow> cq_error + nat option" where
  "find_half_dequeued 0 p i = Inl Cq_diverges"
| "find_half_dequeued (Suc fuel) p i =
     (case ep_blockIndex p of
        None \<Rightarrow> Inl Cq_null_pointer
      | Some h \<Rightarrow>
          (case header_entry h (unat i) of
             None \<Rightarrow> Inl Cq_bad_slot
           | Some e \<Rightarrow>
               if circular_less_than (ie_base e + BLOCK_SIZE) (ep_headIndex p)
               then find_half_dequeued fuel p ((i + 1) AND (pr_blockIndexSize p - 1))
               else if circular_less_than (ie_base e) (ep_headIndex p) then Inr (ie_block e)
               else Inl Cq_assertion_failed))"

text \<open>
  The loop over the slots of one block, which stops at the end of the block and, in the tail block, at \<open>lastIdx\<close>.
\<close>

fun destroy_slots :: "nat \<Rightarrow> nat option \<Rightarrow> nat \<Rightarrow> 'a cblock \<Rightarrow> cq_error + 'a list \<times> 'a cblock" where
  "destroy_slots 0 lastIdx i b = Inl Cq_diverges"
| "destroy_slots (Suc fuel) lastIdx i b =
     (if i \<noteq> unat BLOCK_SIZE \<and> lastIdx \<noteq> Some i
      then (case elements b ! i of
              None \<Rightarrow> Inl Cq_bad_slot
            | Some el \<Rightarrow>
                bindE (destroy_slots fuel lastIdx (i + 1) (b\<lparr>elements := (elements b)[i := None]\<rparr>)) (\<lambda>(els, b). Inr (el # els, b)))
      else Inr ([], b))"

text \<open>The elements left in one block; an empty block is skipped.\<close>

definition destroy_block :: "explicit_producer \<Rightarrow> nat option \<Rightarrow> nat \<Rightarrow> 'a pool \<Rightarrow> cq_error + 'a list \<times> 'a pool" where
  "destroy_block p halfDequeuedBlock block P =
     bindE (is_empty explicit_context (cblocks P ! block))
       (\<lambda>e. if e then Inr ([], P)
            else
              let i = (if halfDequeuedBlock = Some block then slot (ep_headIndex p) else 0);
                  lastValidIndex = (if ep_tailIndex p AND (BLOCK_SIZE - 1) = 0 then unat BLOCK_SIZE else slot (ep_tailIndex p))
              in bindE (destroy_slots (unat BLOCK_SIZE + 1) (if ep_tailBlock p = Some block then Some lastValidIndex else None) i (cblocks P ! block))
                   (\<lambda>(els, b). Inr (els, upd_cblock block (\<lambda>_. b) P)))"

text \<open>The walk along the circle, from the block after \<open>block\<close> to the tail block.\<close>

fun destroy_ring :: "nat \<Rightarrow> explicit_producer \<Rightarrow> nat option \<Rightarrow> nat \<Rightarrow> 'a pool \<Rightarrow> cq_error + 'a list \<times> 'a pool" where
  "destroy_ring 0 p halfDequeuedBlock block P = Inl Cq_diverges"
| "destroy_ring (Suc fuel) p halfDequeuedBlock block P =
     (case block_next (cblocks P ! block) of
        None \<Rightarrow> Inl Cq_null_pointer
      | Some block \<Rightarrow>
          bindE (destroy_block p halfDequeuedBlock block P)
            (\<lambda>(els, P).
               if ep_tailBlock p \<noteq> Some block
               then bindE (destroy_ring fuel p halfDequeuedBlock block P) (\<lambda>(els', P). Inr (els @ els', P))
               else Inr (els, P)))"

text \<open>
  The walk that gives the blocks of the initial array back and destroys the others; the result lists the blocks destroyed.
\<close>

definition release_block :: "nat \<Rightarrow> 'a pool \<Rightarrow> nat list \<times> 'a pool" where
  "release_block block P =
     (if dynamicallyAllocated (cblocks P ! block) then ([block], P) else ([], add_block_to_free_list block P))"

fun free_ring :: "nat \<Rightarrow> explicit_producer \<Rightarrow> nat \<Rightarrow> 'a pool \<Rightarrow> cq_error + nat list \<times> 'a pool" where
  "free_ring 0 p block P = Inl Cq_diverges"
| "free_ring (Suc fuel) p block P =
     (case block_next (cblocks P ! block) of
        None \<Rightarrow> Inl Cq_null_pointer
      | Some nextBlock \<Rightarrow>
          let (ids, P) = release_block block P
          in if ep_tailBlock p \<noteq> Some nextBlock
             then bindE (free_ring fuel p nextBlock P) (\<lambda>(ids', P). Inr (ids @ ids', P))
             else Inr (ids, P))"

definition ExplicitProducer_delete :: "explicit_producer \<Rightarrow> 'a pool \<Rightarrow> cq_error + ('a list \<times> nat list) \<times> 'a pool" where
  "ExplicitProducer_delete p P =
     (case ep_tailBlock p of
        None \<Rightarrow> Inr (([], []), P)
      | Some t \<Rightarrow>
          bindE (if ep_headIndex p AND (BLOCK_SIZE - 1) \<noteq> 0
                 then find_half_dequeued (unat (pr_blockIndexSize p)) p
                        ((pr_blockIndexFront p - pr_blockIndexSlotsUsed p) AND (pr_blockIndexSize p - 1))
                 else Inr None)
            (\<lambda>halfDequeuedBlock.
               bindE (destroy_ring (length (cblocks P)) p halfDequeuedBlock t P)
                 (\<lambda>(els, P).
                    bindE (free_ring (length (cblocks P)) p t P) (\<lambda>(ids, P). Inr ((els, ids), P)))))"

text \<open>The search starts at the oldest block and stops at the one the head is in.\<close>

lemma find_half_rep:
  assumes core: "xprod_core P p xs L c H M N blk" and few: "N - M \<le> 2 ^ 57" and h: "ep_blockIndex p = Some h"
    and k: "M \<le> k" "k \<le> H div 32" "H div 32 < N" and s: "H mod 32 \<noteq> 0" and fuel: "H div 32 - k < fuel"
    and i: "unat i = ring_back (2 ^ c) (unat (header_front h)) (N - 1 - k)"
  shows "find_half_dequeued fuel p i = Inr (Some (blk (H div 32)))"
  using k(1,2) fuel i
proof (induction fuel arbitrary: k i)
  case (Suc fuel)
  note a = xprod_coreD [OF core]
  note ix = xindex_repD [OF a(7)]
  note f = index_filledD [OF ix(9) [OF h]]
  have kN: "k < N" using Suc.prems(2) k(3) by simp
  have ri: "unat i < length (header_entries h)" using Suc.prems(4) f(2) ring_back_less [of "2 ^ c"] by simp
  have e: "header_entry h (unat i) = Some \<lparr>ie_base = of_nat (32 * k), ie_block = Some (blk k)\<rparr>"
    using f(6) [OF Suc.prems(1) kN] ri Suc.prems(4) by (simp add: header_entry_def xentry_def del: of_nat_mult)
  have base: "(of_nat (32 * k) :: u64) + BLOCK_SIZE = of_nat (32 * k + 32)" by (simp add: BLOCK_SIZE_def)
  have near: "H - 32 * k < 2 ^ 63"
  proof -
    have "N \<le> M + 2 ^ 57" using few by (simp add: le_diff_conv add.commute)
    moreover have "H < 32 * N" using k(3) by (simp add: less_mult_imp_div_less div_less_iff_less_mult mult.commute)
    ultimately show ?thesis using Suc.prems(1) by simp
  qed
  have H: "H = 32 * (H div 32) + H mod 32" "H mod 32 < 32" by simp_all
  show ?case
  proof (cases "k = H div 32")
    case True
    then have "H < 32 * k + 32" "32 * k < H" using H s by linarith+
    then have "\<not> circular_less_than (of_nat (32 * k + 32)) (of_nat H)" "circular_less_than (of_nat (32 * k)) (of_nat H)"
      using near by (intro circular_less_than_of_nat; simp)+
    then show ?thesis using h e True a(2) base by (simp del: of_nat_add of_nat_mult)
  next
    case False
    then have k1: "Suc k \<le> H div 32" using Suc.prems(2) by simp
    then have "32 * k + 32 < H" using H s by linarith
    then have "circular_less_than (of_nat (32 * k + 32)) (of_nat H)" using near by (intro circular_less_than_of_nat(1)) auto
    moreover have "unat ((i + 1) AND (pr_blockIndexSize p - 1)) = ring_back (2 ^ c) (unat (header_front h)) (N - 1 - Suc k)"
    proof -
      have "pr_blockIndexSize p = header_size h" using ix(3) f(1) by (simp add: word_unat_eq_iff)
      moreover have "i = of_nat (ring_back (2 ^ c) (unat (header_front h)) (N - 1 - k))"
        unfolding Suc.prems(4) [symmetric] by (simp add: of_nat_unat ucast_id)
      ultimately show ?thesis using xnext_index [OF a(7) h Suc.prems(1)] k1 k(3) by simp
    qed
    ultimately show ?thesis using Suc.IH [of "Suc k"] Suc.prems(1,3) k1 h e a(2) base by (simp del: of_nat_add of_nat_mult)
  qed
qed simp

lemma oldest_index:
  assumes rep: "xindex_rep c p M N blk" and h: "ep_blockIndex p = Some h" and MN: "M < N"
  shows "unat ((pr_blockIndexFront p - pr_blockIndexSlotsUsed p) AND (pr_blockIndexSize p - 1))
    = ring_back (2 ^ c) (unat (header_front h)) (N - 1 - M)"
proof -
  note a = xindex_repD [OF rep]
  note f = index_filledD [OF a(9) [OF h]]
  define n :: nat where "n = 2 ^ c"
  define t where "t = unat (header_front h)"
  have n59: "n \<le> 2 ^ 59" unfolding n_def using a(2) by (intro power_increasing) auto
  have mn: "N - M \<le> n" using a(5) by (simp add: n_def)
  have t: "t < n" "unat (pr_blockIndexFront p) = (t + 1) mod n" using f(4,5) [OF MN] by (simp_all add: t_def n_def)
  have slots: "unat (pr_blockIndexSlotsUsed p) = N - M" using a(6) mn n59 by (simp add: unat_of_nat)
  define r where "r = ring_back n t (N - 1 - M)"
  have "N - M + r = (t + n - (N - 1 - M)) mod n + (N - M)" by (simp add: r_def ring_back_def)
  then have "(N - M + r) mod n = (t + n - (N - 1 - M) + (N - M)) mod n" by (simp only: mod_add_left_eq)
  also have "t + n - (N - 1 - M) + (N - M) = t + 1 + n" using mn MN by linarith
  also have "(t + 1 + n) mod n = (t + 1) mod n" by (rule mod_add_self2)
  finally have "(N - M + r) mod n = (t + 1) mod n" .
  then have "unat (pr_blockIndexFront p) = (unat (pr_blockIndexSlotsUsed p) + r) mod 2 ^ c" using t(2) slots by (simp add: n_def)
  moreover have "r < 2 ^ c" unfolding r_def n_def by (rule ring_back_less) simp
  ultimately have "unat ((pr_blockIndexFront p - pr_blockIndexSlotsUsed p) AND (pr_blockIndexSize p - 1)) = r"
    by (rule unat_diff_and_pow2 [OF mask_capacity [OF a(3)]])
  then show ?thesis by (simp add: r_def n_def t_def)
qed

lemma half_dequeued_rep:
  assumes core: "xprod_core P p xs L c H M N blk" and few: "N - M \<le> 2 ^ 57" and MN: "M < N" and N: "N = (H + length xs + 31) div 32"
  shows "(if ep_headIndex p AND (BLOCK_SIZE - 1) \<noteq> 0
      then find_half_dequeued (unat (pr_blockIndexSize p)) p ((pr_blockIndexFront p - pr_blockIndexSlotsUsed p) AND (pr_blockIndexSize p - 1))
      else Inr None) = Inr (if H mod 32 \<noteq> 0 then Some (blk (H div 32)) else None)"
proof -
  note a = xprod_coreD [OF core]
  obtain h where h: "ep_blockIndex p = Some h" using xindex_repD(7) [OF a(7)] MN by (cases "ep_blockIndex p") auto
  have slot: "(ep_headIndex p AND (BLOCK_SIZE - 1) \<noteq> 0) \<longleftrightarrow> H mod 32 \<noteq> 0"
    using slot_of_nat [of H] unfolding a(2) slot_def by (metis unat_eq_0)
  show ?thesis
  proof (cases "H mod 32 \<noteq> 0")
    case True
    have "H div 32 < N"
    proof -
      have "32 * (H div 32 + 1) \<le> H + 31" using True by presburger
      then have "32 * (H div 32 + 1) \<le> H + length xs + 31" by simp
      then have "32 * (H div 32 + 1) div 32 \<le> N" unfolding N by (rule div_le_mono)
      then show ?thesis by simp
    qed
    moreover have "H div 32 - M < unat (pr_blockIndexSize p)"
      using xindex_repD(3,5) [OF a(7)] calculation a(6) by simp
    ultimately show ?thesis using True slot
      find_half_rep [OF core few h order.refl a(6) _ True _ oldest_index [OF a(7) h MN]] by simp
  qed (use slot in simp)
qed










subsection \<open>A constructor that throws\<close>

lemma explicit_list_core:
  assumes core: "xprod_core P p xs L c H M N blk" and N: "N = (H + length xs + 31) div 32"
    and same: "\<And>k. M \<le> k \<Longrightarrow> k < N \<Longrightarrow> elements (cblocks Q ! blk k) = elements (cblocks P ! blk k)"
  shows "explicit_list p Q = xs"
proof -
  note a = xprod_coreD [OF core]
  have TN: "H + length xs \<le> 32 * N" unfolding N by (rule positions_le_blocks)
  have l: "length xs < 2 ^ 63" by (rule xprod_length [OF core N])
  have len: "unat (ep_tailIndex p - ep_headIndex p) = length xs"
    unfolding a(1,2) using unat_diff_of_nat [of H "H + length xs"] l by simp
  have "explicit_element_at p Q (ep_headIndex p + of_nat i) = explicit_element_at p P (ep_headIndex p + of_nat i)" if i: "i < length xs" for i
  proof -
    define k where "k = (H + i) div 32"
    have "H div 32 \<le> k" by (simp add: k_def div_le_mono)
    then have k: "M \<le> k" "k < N" using a(6) TN i by (simp_all add: k_def less_mult_imp_div_less)
    obtain h where h: "ep_blockIndex p = Some h" using xindex_repD(7) [OF a(7)] k by (cases "ep_blockIndex p") auto
    show ?thesis using xlookup [OF a(7) k k_def [symmetric] h] same [OF k] a(2) by (simp add: explicit_element_at_def)
  qed
  then have "explicit_list p Q = explicit_list p P" unfolding explicit_list_def len by simp
  moreover have "xprod_rep P p xs L \<or> M = N"
    using core N unfolding xprod_rep_def by blast
  moreover have "xs = []" if "M = N"
  proof -
    have "32 * N \<le> H" using a(6) that by simp
    then have "length xs = 0" using TN by linarith
    then show ?thesis by simp
  qed
  moreover have "explicit_list p P = []" if "xs = []" using that len by (simp add: explicit_list_def)
  ultimately show ?thesis using explicit_list_rep [of P p xs L] by metis
qed

lemma destroy_fresh_block:
  assumes fresh: "fresh_block (cblocks P ! n)" and half: "half \<noteq> Some n" and tl: "ep_tailIndex p AND (BLOCK_SIZE - 1) = 0"
  shows "is_empty explicit_context (cblocks P ! n) = Inr False" "destroy_block p half n P = Inl Cq_bad_slot"
proof -
  have b: "elements (cblocks P ! n) ! 0 = None" "emptyFlags (cblocks P ! n) = replicate 32 False"
    using fresh by (simp_all add: fresh_block_def raw_block_def)
  show e: "is_empty explicit_context (cblocks P ! n) = Inr False" using b(2) by (auto simp: is_empty_def intro: exI [of _ 0])
  have "destroy_slots (Suc 32) l 0 (cblocks P ! n) = Inl Cq_bad_slot" if "l = Some 32 \<or> l = None" for l
    using that b(1) by (subst destroy_slots.simps(2)) (auto simp: BLOCK_SIZE_def)
  then show "destroy_block p half n P = Inl Cq_bad_slot"
    using e half tl by (simp add: destroy_block_def BLOCK_SIZE_def del: destroy_slots.simps)
qed

lemma poisoned_delete:
  assumes t: "ep_tailBlock p = Some t" "block_next (cblocks P ! t) = Some n" and fresh: "fresh_block (cblocks P ! n)"
    and tl: "ep_tailIndex p AND (BLOCK_SIZE - 1) = 0" and len: "0 < length (cblocks P)" and other: "half \<noteq> Some n"
    and half: "(if ep_headIndex p AND (BLOCK_SIZE - 1) \<noteq> 0
        then find_half_dequeued (unat (pr_blockIndexSize p)) p ((pr_blockIndexFront p - pr_blockIndexSlotsUsed p) AND (pr_blockIndexSize p - 1))
        else Inr None) = Inr half"
  shows "block_ahead p P = Inr None \<and> ExplicitProducer_delete p P = Inl Cq_bad_slot"
proof -
  note d = destroy_fresh_block [OF fresh other tl]
  obtain fuel where fuel: "length (cblocks P) = Suc fuel" using len by (cases "length (cblocks P)") auto
  have "destroy_ring (Suc fuel) p half t P = Inl Cq_bad_slot" using t(2) d(2) by simp
  then show ?thesis
    unfolding ExplicitProducer_delete_def t(1) option.simps half fuel using t d(1) by (simp add: block_ahead_def)
qed

text \<open>A requisition leaves the blocks of the circle as they are, but for the link of the tail block to the new one.\<close>

lemma requisition_tail_links:
  assumes core: "xprod_core P p xs L c H M N blk" and T: "H + length xs = 32 * N" and rep: "pool_rep P F" and dis: "L \<inter> F = {}"
    and few: "N - M \<le> 2 ^ 57"
  shows "\<exists>ok p1 P1. requisition_tail_block (am, iok, bok) (of_nat (32 * N)) p P = Inr (ok, p1, P1)
    \<and> (if ok then \<exists>p0 c' nb. xprod_core P p0 xs L c' H M N blk \<and> nb \<notin> L \<and> nb < length (cblocks P1)
          \<and> p1 = p0\<lparr>ep_tailBlock := Some nb, pr_blockIndexSlotsUsed := pr_blockIndexSlotsUsed p0 + 1\<rparr>
          \<and> fresh_block (cblocks P1 ! nb) \<and> block_next (cblocks P1 ! (if M < N then blk (N - 1) else nb)) = Some nb
          \<and> (\<forall>k. M \<le> k \<and> k < N \<longrightarrow> elements (cblocks P1 ! blk k) = elements (cblocks P ! blk k))
       else P1 = P \<and> (\<exists>c'. xprod_core P p1 xs L c' H M N blk) \<and> (am = Cannot_alloc \<or> \<not> iok \<or> \<not> bok \<or> 2 ^ 63 \<le> length xs + 32))"
proof -
  note a = xprod_coreD [OF core]
  have nlt: "\<not> circular_less_than (of_nat (32 * N)) (ep_headIndex p)"
  proof (cases "xs = []")
    case True
    then show ?thesis unfolding a(2) T [symmetric] by simp
  next
    case False
    then have "0 < length xs" by simp
    then have "H < 32 * N" "32 * N - H < 2 ^ 63" using T a(5) by linarith+
    then show ?thesis unfolding a(2) by (rule circular_less_than_of_nat(2))
  qed
  show ?thesis
  proof (cases "is_full (ep_headIndex p) (of_nat (32 * N))")
    case True
    have "2 ^ 63 \<le> length xs + 32"
    proof (rule ccontr)
      assume "\<not> 2 ^ 63 \<le> length xs + 32"
      then have "circular_less_than (of_nat H) (of_nat (32 * N + 32))" using T by (intro circular_less_than_of_nat(1)) auto
      then show False using True a(2) by (simp add: is_full_def BLOCK_SIZE_def)
    qed
    then show ?thesis using True nlt core by (intro exI [of _ False] exI [of _ p] exI [of _ P])
        (auto simp: requisition_tail_block_def Let_def simp del: of_nat_mult)
  next
    case False
    obtain ok p0 where idx: "(if ep_blockIndex p = None \<or> pr_blockIndexSlotsUsed p = pr_blockIndexSize p
        then (if am = Cannot_alloc then Inr (False, p) else explicit_new_block_index iok (pr_blockIndexSlotsUsed p) p)
        else Inr (True, p)) = (Inr (ok, p0) :: cq_error + bool \<times> explicit_producer)"
      "if ok then \<exists>c' h. xprod_core P p0 xs L c' H M N blk \<and> N - M < 2 ^ c' \<and> ep_blockIndex p0 = Some h
       else p0 = p \<and> (am = Cannot_alloc \<or> \<not> iok)"
      using index_room [OF core few, of am iok] by blast
    show ?thesis
    proof (cases ok)
      case okF: False
      then show ?thesis using idx nlt False core
        by (intro exI [of _ False] exI [of _ p] exI [of _ P]) (auto simp: requisition_tail_block_def Let_def simp del: of_nat_mult)
    next
      case okT: True
      obtain c' where c': "xprod_core P p0 xs L c' H M N blk" using idx(2) okT by auto
      obtain r P1 where r: "requisition_block am bok P = Inr (r, P1)"
        "case r of None \<Rightarrow> P1 = P \<and> F = {} \<and> (am = Cannot_alloc \<or> \<not> bok)
         | Some n \<Rightarrow> pool_rep P1 (F - {n}) \<and> n < length (cblocks P1) \<and> raw_block (cblocks P1 ! n)
           \<and> length (cblocks P) \<le> length (cblocks P1)
           \<and> (\<forall>m < length (cblocks P). m \<noteq> n \<longrightarrow> cblocks P1 ! m = cblocks P ! m)
           \<and> (n \<in> F \<and> length (cblocks P1) = length (cblocks P)
             \<or> F = {} \<and> n = length (cblocks P) \<and> length (cblocks P1) = Suc n \<and> am = Can_alloc \<and> bok)"
        using requisition_rep [OF rep, of am bok] by blast
      show ?thesis
      proof (cases r)
        case None
        have "requisition_tail_block (am, iok, bok) (of_nat (32 * N)) p P = Inr (False, p0, P)"
          using False nlt idx(1) okT r None by (simp add: requisition_tail_block_def Let_def del: of_nat_mult)
        then show ?thesis using c' r None by (intro exI [of _ False] exI [of _ p0] exI [of _ P]) auto
      next
        case (Some nb)
        have n: "pool_rep P1 (F - {nb})" "nb < length (cblocks P1)" "raw_block (cblocks P1 ! nb)"
          "\<And>m. m < length (cblocks P) \<Longrightarrow> m \<noteq> nb \<Longrightarrow> cblocks P1 ! m = cblocks P ! m" "nb \<in> F \<or> nb = length (cblocks P)"
          "length (cblocks P) \<le> length (cblocks P1)"
          using r(2) Some by auto
        have "L \<subseteq> {..<length (cblocks P)}" using a(10,11) by auto
        then have nL: "nb \<notin> L" using n(5) dis by auto
        let ?f = "reset_empty explicit_context"
        have neq: "blk k \<noteq> nb" "blk k \<notin> F" "cblocks P1 ! blk k = cblocks P ! blk k" if "M \<le> k" "k < N" for k
        proof -
          have "blk k \<in> L" unfolding a(10) using that by simp
          then show "blk k \<noteq> nb" "blk k \<notin> F" using nL dis by auto
          then show "cblocks P1 ! blk k = cblocks P ! blk k" using n(4) a(11) [OF that] by simp
        qed
        have ring: "blk (N - 1) < length (cblocks P1) \<and> blk (N - 1) \<noteq> nb \<and> blk (N - 1) \<notin> F - {nb} \<and> block_next (cblocks P1 ! blk (N - 1)) = Some (blk M)"
          if "M < N"
        proof -
          have N1: "M \<le> N - 1" "N - 1 < N" using that by auto
          show ?thesis using a(11,13) [OF N1] neq [OF N1] n(6) that by (simp add: ring_next_def)
        qed
        have f: "freeListRefs (?f (cblocks P1 ! nb)) = freeListRefs (cblocks P1 ! nb)" "block_wf (?f (cblocks P1 ! nb))"
          "dynamicallyAllocated (?f (cblocks P1 ! nb)) = dynamicallyAllocated (cblocks P1 ! nb)"
          using pool_rep_wf [OF n(1,2)] by (simp_all add: block_wf_def reset_empty_def)
        obtain q P2 where ins: "insert_block nb p0 (upd_cblock nb ?f P1) = (q, P2)" by (cases "insert_block nb p0 (upd_cblock nb ?f P1)")
        have nF: "nb \<notin> F - {nb}" by simp
        from insert_block_pool [where f = ?f, OF n(1,2) nF xprod_coreD(8) [OF c'] ring f ins]
        have q: "q = p0\<lparr>ep_tailBlock := Some nb\<rparr>" and len: "length (cblocks P2) = length (cblocks P1)"
          and at: "cblocks P2 ! nb = (?f (cblocks P1 ! nb))\<lparr>block_next := Some (if M < N then blk M else nb)\<rparr>"
          and others: "\<And>n. n \<noteq> nb \<Longrightarrow> cblocks P2 ! n = (if M < N \<and> n = blk (N - 1) then (cblocks P1 ! n)\<lparr>block_next := Some nb\<rparr> else cblocks P1 ! n)"
          by blast+
        have e: "requisition_tail_block (am, iok, bok) (of_nat (32 * N)) p P
            = Inr (True, p0\<lparr>ep_tailBlock := Some nb, pr_blockIndexSlotsUsed := pr_blockIndexSlotsUsed p0 + 1\<rparr>, P2)"
          using False nlt idx(1) okT r(1) Some ins q by (simp add: requisition_tail_block_def Let_def del: of_nat_mult)
        have fresh: "fresh_block (cblocks P2 ! nb)"
          using reset_fresh [OF n(3)] unfolding at by (simp add: fresh_block_def raw_block_def)
        have link: "block_next (cblocks P2 ! (if M < N then blk (N - 1) else nb)) = Some nb"
          using at others [of "blk (N - 1)"] ring by auto
        have "elements (cblocks P2 ! n) = elements (cblocks P1 ! n)" if "n \<noteq> nb" for n using others [OF that] by auto
        then have els: "elements (cblocks P2 ! blk k) = elements (cblocks P ! blk k)" if "M \<le> k" "k < N" for k
          using neq(1,3) [OF that] by simp
        have "\<exists>p0' c' nb'. xprod_core P p0' xs L c' H M N blk \<and> nb' \<notin> L \<and> nb' < length (cblocks P2)
          \<and> p0\<lparr>ep_tailBlock := Some nb, pr_blockIndexSlotsUsed := pr_blockIndexSlotsUsed p0 + 1\<rparr>
            = p0'\<lparr>ep_tailBlock := Some nb', pr_blockIndexSlotsUsed := pr_blockIndexSlotsUsed p0' + 1\<rparr>
          \<and> fresh_block (cblocks P2 ! nb') \<and> block_next (cblocks P2 ! (if M < N then blk (N - 1) else nb')) = Some nb'
          \<and> (\<forall>k. M \<le> k \<and> k < N \<longrightarrow> elements (cblocks P2 ! blk k) = elements (cblocks P ! blk k))"
          using c' nL n(2) len fresh link els by (intro exI [of _ p0] exI [of _ c'] exI [of _ nb]) simp
        then show ?thesis unfolding e by (intro exI conjI) (rule refl, simp)
      qed
    qed
  qed
qed

lemma explicit_throw_rep:
  assumes prod: "xprod_rep P p xs L" and rep: "pool_rep P F" and dis: "L \<inter> F = {}" and mem: "length (cblocks P) \<le> 2 ^ 57"
    and tl: "ep_tailIndex p AND (BLOCK_SIZE - 1) = 0"
  shows "\<exists>r q Q. explicit_enqueue (am, iok, bok) True x p P = Inr (r, q, Q) \<and> explicit_list q Q = xs
    \<and> (case r of
         Enqueued \<Rightarrow> False
       | Not_enqueued \<Rightarrow> am = Cannot_alloc \<or> \<not> iok \<or> \<not> bok \<or> 2 ^ 63 \<le> length xs + 32
       | Threw \<Rightarrow> block_ahead q Q = Inr None \<and> ExplicitProducer_delete q Q = Inl Cq_bad_slot)"
proof -
  obtain c H M N blk where core: "xprod_core P p xs L c H M N blk" and N: "N = (H + length xs + 31) div 32" and MN: "M = N \<longrightarrow> N = 0"
    using prod unfolding xprod_rep_def by blast
  note a = xprod_coreD [OF core]
  have le: "M \<le> N" using xindex_repD(4) [OF a(7)] .
  have "(H + length xs) mod 32 = 0"
    using slot_of_nat [of "H + length xs"] tl unfolding a(1) slot_def by (metis unat_eq_0)
  then have T: "H + length xs = 32 * N" using blocks_for_positions(2) [of "H + length xs"] N by simp
  have cur: "ep_tailIndex p = of_nat (32 * N)" using a(1) T by simp
  have few: "N - M \<le> length (cblocks P)" "N - M \<le> 2 ^ 57" using xprod_few [OF core] mem by auto
  let ?half = "if H mod 32 \<noteq> 0 then Some (blk (H div 32)) else None"
  note ahead = block_ahead_rep [OF core]
  have half_in: "H div 32 < N" if "H mod 32 \<noteq> 0"
  proof -
    have "H < 32 * N" using that T by (metis le_add1 le_neq_implies_less mod_mult_self1_is_0)
    then show ?thesis by (simp add: less_mult_imp_div_less mult.commute)
  qed
  show ?thesis
  proof (cases "M < N \<and> 32 * M + 32 \<le> H")
    case True
    let ?Q = "upd_cblock (blk M) (reset_empty explicit_context) P"
    have N1: "M \<le> M" "M < N" "M \<le> N - 1" "N - 1 < N" using True by auto
    have bl: "blk M < length (cblocks P)" using a(11) [OF N1(1,2)] .
    have fresh: "fresh_block (cblocks ?Q ! blk M)" using reset_fresh [OF left_block_raw [OF a(12) [OF N1(1,2)]]] True bl by simp
    have next_eq: "block_next (cblocks ?Q ! blk (N - 1)) = Some (blk M)"
      using a(13) [OF N1(3,4)] bl True by (cases "blk (N - 1) = blk M") (simp_all add: ring_next_def reset_empty_def)
    have other: "?half \<noteq> Some (blk M)"
      using inj_range [OF a(9), of "H div 32" M] half_in a(6) True by auto
    have len: "0 < length (cblocks ?Q)"
    proof -
      have "length (cblocks ?Q) = length (cblocks P)" by simp
      then show ?thesis using bl by linarith
    qed
    have start: "ep_tailBlock p = Some (blk (N - 1))" using a(8) True by simp
    have e: "explicit_enqueue (am, iok, bok) True x p P = Inr (Threw, p, ?Q)"
      unfolding explicit_enqueue_def next_tail_block_def ahead using True tl start by (simp add: Let_def)
    have els: "elements (cblocks ?Q ! n) = elements (cblocks P ! n)" if "n < length (cblocks P)" for n
      using that bl by (cases "n = blk M") (simp_all add: reset_empty_def)
    have "explicit_list p ?Q = xs" by (rule explicit_list_core [OF core N els [OF a(11)]])
    then show ?thesis
      using e poisoned_delete [OF start next_eq fresh tl len other half_dequeued_rep [OF core few(2) N1(2) N]]
      by (intro exI [of _ Threw] exI [of _ p] exI [of _ ?Q]) simp
  next
    case notahead: False
    obtain ok p1 P1 where r: "requisition_tail_block (am, iok, bok) (of_nat (32 * N)) p P = Inr (ok, p1, P1)"
      "if ok then \<exists>p0 c' nb. xprod_core P p0 xs L c' H M N blk \<and> nb \<notin> L \<and> nb < length (cblocks P1)
          \<and> p1 = p0\<lparr>ep_tailBlock := Some nb, pr_blockIndexSlotsUsed := pr_blockIndexSlotsUsed p0 + 1\<rparr>
          \<and> fresh_block (cblocks P1 ! nb) \<and> block_next (cblocks P1 ! (if M < N then blk (N - 1) else nb)) = Some nb
          \<and> (\<forall>k. M \<le> k \<and> k < N \<longrightarrow> elements (cblocks P1 ! blk k) = elements (cblocks P ! blk k))
       else P1 = P \<and> (\<exists>c'. xprod_core P p1 xs L c' H M N blk) \<and> (am = Cannot_alloc \<or> \<not> iok \<or> \<not> bok \<or> 2 ^ 63 \<le> length xs + 32)"
      using requisition_tail_links [OF core T rep dis few(2), of am iok bok] by (elim exE conjE) (rule that; assumption)
    show ?thesis
    proof (cases ok)
      case False
      have e: "explicit_enqueue (am, iok, bok) True x p P = Inr (Not_enqueued, p1, P)"
        unfolding explicit_enqueue_def next_tail_block_def ahead cur
        using notahead tl r False cur by (auto simp: Let_def simp del: of_nat_mult)
      obtain c' where "xprod_core P p1 xs L c' H M N blk" using r(2) False by auto
      then have "explicit_list p1 P = xs" by (rule explicit_list_core [OF _ N refl])
      then show ?thesis using e r(2) False by (intro exI [of _ Not_enqueued] exI [of _ p1] exI [of _ P]) simp
    next
      case True
      obtain p0 c' nb where b: "xprod_core P p0 xs L c' H M N blk" "nb \<notin> L" "nb < length (cblocks P1)"
        "p1 = p0\<lparr>ep_tailBlock := Some nb, pr_blockIndexSlotsUsed := pr_blockIndexSlotsUsed p0 + 1\<rparr>"
        "fresh_block (cblocks P1 ! nb)" "block_next (cblocks P1 ! (if M < N then blk (N - 1) else nb)) = Some nb"
        "\<forall>k. M \<le> k \<and> k < N \<longrightarrow> elements (cblocks P1 ! blk k) = elements (cblocks P ! blk k)"
        using r(2) True by (simp only: if_True) (elim exE conjE, rule that; assumption)
      note a0 = xprod_coreD [OF b(1)]
      have slots: "pr_blockIndexSlotsUsed p0 = pr_blockIndexSlotsUsed p" using xindex_repD(6) [OF a0(7)] xindex_repD(6) [OF a(7)] by simp
      let ?q = "p1\<lparr>pr_blockIndexSlotsUsed := pr_blockIndexSlotsUsed p, ep_tailBlock := (if M < N then Some (blk (N - 1)) else Some nb)\<rparr>"
      have e: "explicit_enqueue (am, iok, bok) True x p P = Inr (Threw, ?q, P1)"
        unfolding explicit_enqueue_def next_tail_block_def ahead cur
        using notahead tl r(1) True cur a(8) b(4) by (auto simp: Let_def simp del: of_nat_mult)
      have len: "0 < length (cblocks P1)" using b(3) by linarith
      have list: "explicit_list p0 P1 = xs" by (rule explicit_list_core [OF b(1) N]) (use b(7) in simp)
      have tl0: "ep_tailIndex p0 AND (BLOCK_SIZE - 1) = 0" using a0(1) a(1) tl by simp
      have "explicit_list ?q P1 = xs \<and> block_ahead ?q P1 = Inr None \<and> ExplicitProducer_delete ?q P1 = Inl Cq_bad_slot"
      proof (cases "M < N")
        case True
        have q: "?q = p0" unfolding b(4) using a0(8) True slots by (cases p0) simp
        have "?half \<noteq> Some nb"
        proof (cases "H mod 32 \<noteq> 0")
          case True
          have "blk (H div 32) \<in> L" unfolding a(10) using half_in [OF True] a(6) by simp
          then show ?thesis using b(2) by auto
        qed simp
        moreover have "ep_tailBlock p0 = Some (blk (N - 1))" "block_next (cblocks P1 ! blk (N - 1)) = Some nb" using a0(8) b(6) True by auto
        ultimately show ?thesis
          unfolding q using list poisoned_delete [OF _ _ b(5) tl0 len _ half_dequeued_rep [OF b(1) few(2) True N]] by blast
      next
        case False
        then have "N = 0" using MN le by simp
        then have H0: "H = 0" "xs = []" using T by simp_all
        have q: "?q = p0\<lparr>ep_tailBlock := Some nb\<rparr>" unfolding b(4) using False slots by (cases p0) simp
        have half: "(if ep_headIndex ?q AND (BLOCK_SIZE - 1) \<noteq> 0
          then find_half_dequeued (unat (pr_blockIndexSize ?q)) ?q ((pr_blockIndexFront ?q - pr_blockIndexSlotsUsed ?q) AND (pr_blockIndexSize ?q - 1))
          else Inr None) = (Inr None :: cq_error + nat option)"
          unfolding q using a0(2) H0 by simp
        have "explicit_list ?q P1 = xs" unfolding q using a0(1,2) H0 by (simp add: explicit_list_def)
        moreover have "ep_tailBlock ?q = Some nb" "block_next (cblocks P1 ! nb) = Some nb" "ep_tailIndex ?q AND (BLOCK_SIZE - 1) = 0"
          using b(6) False tl0 unfolding q by auto
        ultimately show ?thesis using poisoned_delete [OF _ _ b(5) _ len _ half] by blast
      qed
      then show ?thesis using e by (intro exI [of _ Threw] exI [of _ ?q] exI [of _ P1]) simp
    qed
  qed
qed

subsection \<open>Properties\<close>



text \<open>
  C35: what an exception of the constructor of an element leaves behind, in every state that enqueues and dequeues can reach. Within a block it
  changes nothing. On the first element of a block, unless the enqueue fails before for lack of memory, the elements stay
  as they were, but the block made ready for the new one is damaged: its marks are reset and it holds nothing, so the next
  enqueue does not take it, and the destructor of the sub-queue takes it for a full block and runs the destructor of the element type
  on slots in which no object was ever constructed.
\<close>

theorem explicit_throw_poisons_block:
  fixes ops :: "(alloc_mode \<times> bool \<times> bool, 'a) queue_op list"
  assumes "unat n \<le> 2 ^ 57"
  shows "\<exists>p evs p' P'. ExplicitProducer_new index_ok (populate_initial_block_list malloc_ok n (pool_init :: 'a pool)) = Inr p
    \<and> run_ops explicit_enq explicit_deq ops (p, populate_initial_block_list malloc_ok n pool_init) = Inr (evs, p', P')
    \<and> (if ep_tailIndex p' AND (BLOCK_SIZE - 1) \<noteq> 0 then explicit_enqueue (am, iok, bok) True x p' P' = Inr (Threw, p', P')
       else \<exists>r q Q. explicit_enqueue (am, iok, bok) True x p' P' = Inr (r, q, Q) \<and> accepted evs = got evs @ explicit_list q Q
         \<and> (case r of
              Enqueued \<Rightarrow> False
            | Not_enqueued \<Rightarrow> am = Cannot_alloc \<or> \<not> iok \<or> \<not> bok \<or> 2 ^ 63 \<le> length (explicit_list q Q) + 32
            | Threw \<Rightarrow> block_ahead q Q = Inr None \<and> ExplicitProducer_delete q Q = Inl Cq_bad_slot))"
proof -
  obtain p evs p' P' where r: "ExplicitProducer_new index_ok (populate_initial_block_list malloc_ok n (pool_init :: 'a pool)) = Inr p"
    "run_ops explicit_enq explicit_deq ops (p, populate_initial_block_list malloc_ok n pool_init) = Inr (evs, p', P')"
    "xprod_inv (p', P')" "accepted evs = got evs @ explicit_list p' P'"
    using explicit_run [where index_ok = index_ok and malloc_ok = malloc_ok and ops = ops, OF assms] by (elim exE conjE) (rule that; assumption)
  obtain xs L F where q: "xprod_rep P' p' xs L" "pool_rep P' F" "L \<inter> F = {}" "length (cblocks P') \<le> 2 ^ 57" "explicit_list p' P' = xs"
    using r(3) by (rule xprod_invE) auto
  show ?thesis
  proof (cases "ep_tailIndex p' AND (BLOCK_SIZE - 1) = 0")
    case True
    obtain res u U where e: "explicit_enqueue (am, iok, bok) True x p' P' = Inr (res, u, U)" "explicit_list u U = xs"
      "case res of Enqueued \<Rightarrow> False | Not_enqueued \<Rightarrow> am = Cannot_alloc \<or> \<not> iok \<or> \<not> bok \<or> 2 ^ 63 \<le> length xs + 32
       | Threw \<Rightarrow> block_ahead u U = Inr None \<and> ExplicitProducer_delete u U = Inl Cq_bad_slot"
      using explicit_throw_rep [OF q(1-4) True, of am iok bok x] by (elim exE conjE) (rule that; assumption)
    show ?thesis
      by (rule exI [of _ p], rule exI [of _ evs], rule exI [of _ p'], rule exI [of _ P'], intro conjI r(1,2))
        (use True e r(4) q(5) in \<open>auto\<close>)
  next
    case False
    then have "explicit_enqueue (am, iok, bok) True x p' P' = Inr (Threw, p', P')" by (simp add: explicit_enqueue_def)
    then show ?thesis using r(1,2) False by (intro exI conjI) (assumption, assumption, simp)
  qed
qed

text \<open>On the empty sub-queue with memory at hand the exception does strike.\<close>

theorem explicit_throw_poisons_block_witness:
  "\<exists>p q Q. ExplicitProducer_new True (populate_initial_block_list True 1 (pool_init :: nat pool)) = Inr p
    \<and> explicit_enqueue (Can_alloc, True, True) True (7 :: nat) p (populate_initial_block_list True 1 pool_init) = Inr (Threw, q, Q)
    \<and> block_ahead q Q = Inr None \<and> ExplicitProducer_delete q Q = Inl Cq_bad_slot"
proof -
  obtain p evs p' P' where r: "ExplicitProducer_new True (populate_initial_block_list True 1 (pool_init :: nat pool)) = Inr p"
    "run_ops explicit_enq explicit_deq [] (p, populate_initial_block_list True 1 (pool_init :: nat pool)) = Inr (evs, p', P')"
    "if ep_tailIndex p' AND (BLOCK_SIZE - 1) \<noteq> 0 then explicit_enqueue (Can_alloc, True, True) True (7 :: nat) p' P' = Inr (Threw, p', P')
      else \<exists>r q Q. explicit_enqueue (Can_alloc, True, True) True (7 :: nat) p' P' = Inr (r, q, Q) \<and> accepted evs = got evs @ explicit_list q Q
         \<and> (case r of
              Enqueued \<Rightarrow> False
            | Not_enqueued \<Rightarrow> Can_alloc = Cannot_alloc \<or> \<not> True \<or> \<not> True \<or> 2 ^ 63 \<le> length (explicit_list q Q) + 32
            | Threw \<Rightarrow> block_ahead q Q = Inr None \<and> ExplicitProducer_delete q Q = Inl Cq_bad_slot)"
    using explicit_throw_poisons_block [of 1 True True "[] :: (alloc_mode \<times> bool \<times> bool, nat) queue_op list" Can_alloc True True "7 :: nat"]
    by (simp only: unat_1) auto
  have "ep_tailIndex p = 0" using r(1) by (auto simp: ExplicitProducer_new_def explicit_new_block_index_def Let_def split: if_splits)
  moreover have now: "evs = []" "p' = p" "P' = populate_initial_block_list True 1 pool_init" using r(2) by simp_all
  ultimately obtain res q Q where e: "explicit_enqueue (Can_alloc, True, True) True (7 :: nat) p P' = Inr (res, q, Q)" "explicit_list q Q = []"
    "case res of Enqueued \<Rightarrow> False | Not_enqueued \<Rightarrow> Can_alloc = Cannot_alloc \<or> \<not> True \<or> \<not> True \<or> 2 ^ 63 \<le> length (explicit_list q Q) + 32
      | Threw \<Rightarrow> block_ahead q Q = Inr None \<and> ExplicitProducer_delete q Q = Inl Cq_bad_slot"
    using r(3) by auto
  from e(2,3) have "res = Threw" by (cases res) simp_all
  then show ?thesis using r(1) e now by auto
qed

end
