(* ===== verification/ExplicitBulk.thy ===== *)
theory ExplicitBulk
  imports ExplicitTeardown
begin

text \<open>
  \<open>source/utils/concurrentqueue.h\<close>: \<open>ExplicitProducer::enqueue_bulk\<close>. The blocks for all elements are obtained first, from the empty ones ahead
  and then from the pool, and entered into the block index; when one cannot be had, the block index is set back and the blocks
  stay in the circle. The input iterator is the list of the elements it gives; their copy constructor does not
  throw. \<open>mem i\<close> says whether \<open>malloc\<close> would succeed for a new block index and for a new block in pass \<open>i\<close> of the second loop.
\<close>

subsection \<open>The blocks\<close>

text \<open>The first loop takes the empty blocks ahead, until it comes round to the first one it took.\<close>

fun bulk_reuse ::
  "nat \<Rightarrow> u64 \<Rightarrow> u64 \<Rightarrow> nat option \<Rightarrow> explicit_producer \<Rightarrow> 'a pool \<Rightarrow> cq_error + (u64 \<times> u64 \<times> nat option) \<times> explicit_producer" where
  "bulk_reuse 0 blockBaseDiff currentTailIndex firstAllocatedBlock p P = Inl Cq_diverges"
| "bulk_reuse (Suc fuel) blockBaseDiff currentTailIndex firstAllocatedBlock p P =
     (case ep_tailBlock p of
        None \<Rightarrow> Inr ((blockBaseDiff, currentTailIndex, firstAllocatedBlock), p)
      | Some t \<Rightarrow>
          if \<not> blockBaseDiff > 0 \<or> block_next (cblocks P ! t) = firstAllocatedBlock
          then Inr ((blockBaseDiff, currentTailIndex, firstAllocatedBlock), p)
          else (case block_next (cblocks P ! t) of
             None \<Rightarrow> Inl Cq_null_pointer
           | Some n \<Rightarrow>
               bindE (is_empty explicit_context (cblocks P ! n))
                 (\<lambda>e. if \<not> e then Inr ((blockBaseDiff, currentTailIndex, firstAllocatedBlock), p)
                      else
                        let currentTailIndex = currentTailIndex + BLOCK_SIZE;
                            p = p\<lparr>ep_tailBlock := Some n\<rparr>;
                            firstAllocatedBlock = (if firstAllocatedBlock = None then Some n else firstAllocatedBlock)
                        in bindE (add_index_entry currentTailIndex p)
                             (\<lambda>p. bulk_reuse fuel (blockBaseDiff - BLOCK_SIZE) currentTailIndex firstAllocatedBlock p P))))"

text \<open>
  The second loop takes new blocks from the pool. The result says whether all blocks were obtained, the value to which
  \<open>pr_blockIndexFront\<close> is set back otherwise, and the first block.
\<close>

fun bulk_requisition ::
  "nat \<Rightarrow> alloc_mode \<Rightarrow> (nat \<Rightarrow> bool \<times> bool) \<Rightarrow> u64 \<Rightarrow> nat \<Rightarrow> u64 \<Rightarrow> u64 \<Rightarrow> u64 \<Rightarrow> nat option \<Rightarrow> explicit_producer \<Rightarrow> 'a pool
     \<Rightarrow> cq_error + (bool \<times> u64 \<times> nat option) \<times> explicit_producer \<times> 'a pool" where
  "bulk_requisition 0 allocMode mem originalBlockIndexSlotsUsed n originalBlockIndexFront blockBaseDiff currentTailIndex firstAllocatedBlock p P
     = (if blockBaseDiff > 0 then Inl Cq_diverges else Inr ((True, originalBlockIndexFront, firstAllocatedBlock), p, P))"
| "bulk_requisition (Suc fuel) allocMode mem originalBlockIndexSlotsUsed n originalBlockIndexFront blockBaseDiff currentTailIndex firstAllocatedBlock p P =
     (if \<not> blockBaseDiff > 0 then Inr ((True, originalBlockIndexFront, firstAllocatedBlock), p, P)
      else
        let blockBaseDiff = blockBaseDiff - BLOCK_SIZE;
            currentTailIndex = currentTailIndex + BLOCK_SIZE;
            head = ep_headIndex p
        in if circular_less_than currentTailIndex head then Inl Cq_assertion_failed
           else
             let full = is_full head currentTailIndex;
                 index_full = (ep_blockIndex p = None \<or> pr_blockIndexSlotsUsed p = pr_blockIndexSize p \<or> full)
             in bindE (if index_full
                       then (if allocMode = Cannot_alloc \<or> full then Inr (False, p)
                             else explicit_new_block_index (fst (mem n)) originalBlockIndexSlotsUsed p)
                       else Inr (True, p))
                  (\<lambda>(ok, p).
                     if \<not> ok then Inr ((False, originalBlockIndexFront, firstAllocatedBlock), p, P)
                     else
                       let originalBlockIndexFront = (if index_full then originalBlockIndexSlotsUsed else originalBlockIndexFront)
                       in bindE (requisition_block allocMode (snd (mem n)) P)
                            (\<lambda>(r, P). case r of
                               None \<Rightarrow> Inr ((False, originalBlockIndexFront, firstAllocatedBlock), p, P)
                             | Some newBlock \<Rightarrow>
                                 let P = upd_cblock newBlock (set_all_empty explicit_context) P;
                                     (p, P) = insert_block newBlock p P;
                                     firstAllocatedBlock = (if firstAllocatedBlock = None then Some newBlock else firstAllocatedBlock);
                                     p = p\<lparr>pr_blockIndexSlotsUsed := pr_blockIndexSlotsUsed p + 1\<rparr>
                                 in bindE (add_index_entry currentTailIndex p)
                                      (\<lambda>p. bulk_requisition fuel allocMode mem originalBlockIndexSlotsUsed (Suc n) originalBlockIndexFront
                                             blockBaseDiff currentTailIndex firstAllocatedBlock p P))))"

text \<open>The loop that resets the marks of the blocks obtained.\<close>

fun bulk_reset :: "nat \<Rightarrow> nat option \<Rightarrow> nat \<Rightarrow> 'a pool \<Rightarrow> cq_error + 'a pool" where
  "bulk_reset 0 endBlock block P = Inl Cq_diverges"
| "bulk_reset (Suc fuel) endBlock block P =
     (let P = upd_cblock block (reset_empty explicit_context) P
      in if Some block = endBlock then Inr P
         else case block_next (cblocks P ! block) of
           None \<Rightarrow> Inl Cq_null_pointer
         | Some block \<Rightarrow> bulk_reset fuel endBlock block P)"

subsection \<open>The elements\<close>

definition explicit_fill :: "u64 \<Rightarrow> u64 \<Rightarrow> 'a list \<Rightarrow> explicit_producer \<Rightarrow> 'a pool \<Rightarrow> cq_error + 'a list \<times> 'a pool" where
  "explicit_fill stopIndex currentTailIndex items p P =
     (if currentTailIndex = stopIndex then Inr (items, P)
      else case ep_tailBlock p of
        None \<Rightarrow> Inl Cq_null_pointer
      | Some b \<Rightarrow>
          bindE (put_elements stopIndex currentTailIndex items (cblocks P ! b))
            (\<lambda>(items, bk). Inr (items, upd_cblock b (\<lambda>_. bk) P)))"

fun explicit_bulk_put ::
  "nat \<Rightarrow> u64 \<Rightarrow> nat option \<Rightarrow> u64 \<Rightarrow> 'a list \<Rightarrow> explicit_producer \<Rightarrow> 'a pool \<Rightarrow> cq_error + explicit_producer \<times> 'a pool" where
  "explicit_bulk_put 0 newTailIndex endBlock currentTailIndex items p P = Inl Cq_diverges"
| "explicit_bulk_put (Suc fuel) newTailIndex endBlock currentTailIndex items p P =
     (let stopIndex = bulk_end newTailIndex currentTailIndex
      in bindE (explicit_fill stopIndex currentTailIndex items p P)
           (\<lambda>(items, P).
              if ep_tailBlock p = endBlock then
                if stopIndex = newTailIndex then Inr (p, P) else Inl Cq_assertion_failed
              else case ep_tailBlock p of
                None \<Rightarrow> Inl Cq_null_pointer
              | Some b \<Rightarrow> explicit_bulk_put fuel newTailIndex endBlock stopIndex items (p\<lparr>ep_tailBlock := block_next (cblocks P ! b)\<rparr>) P))"

subsection \<open>The operation\<close>

text \<open>
  The part that obtains the blocks. The loops have at most one pass more than blocks are needed, the walk that resets the marks as many
  as there are blocks.
\<close>

definition bulk_blocks_for ::
  "alloc_mode \<Rightarrow> (nat \<Rightarrow> bool \<times> bool) \<Rightarrow> u64 \<Rightarrow> u64 \<Rightarrow> explicit_producer \<Rightarrow> 'a pool
     \<Rightarrow> cq_error + (bool \<times> nat option) \<times> explicit_producer \<times> 'a pool" where
  "bulk_blocks_for allocMode mem blockBaseDiff currentTailIndex p P =
     (let startBlock = ep_tailBlock p;
          originalBlockIndexFront = pr_blockIndexFront p;
          originalBlockIndexSlotsUsed = pr_blockIndexSlotsUsed p;
          passes = unat blockBaseDiff div unat BLOCK_SIZE
      in if \<not> blockBaseDiff > 0 then Inr ((True, None), p, P)
         else
           bindE (bulk_reuse (Suc passes) blockBaseDiff currentTailIndex None p P)
             (\<lambda>((blockBaseDiff, currentTailIndex, firstAllocatedBlock), p).
                bindE (bulk_requisition passes allocMode mem originalBlockIndexSlotsUsed 0 originalBlockIndexFront
                         blockBaseDiff currentTailIndex firstAllocatedBlock p P)
                  (\<lambda>((ok, originalBlockIndexFront, firstAllocatedBlock), p, P).
                     if \<not> ok then
                       Inr ((False, firstAllocatedBlock),
                            p\<lparr>pr_blockIndexFront := originalBlockIndexFront, pr_blockIndexSlotsUsed := originalBlockIndexSlotsUsed,
                              ep_tailBlock := (if startBlock = None then firstAllocatedBlock else startBlock)\<rparr>, P)
                     else case firstAllocatedBlock of
                       None \<Rightarrow> Inl Cq_null_pointer
                     | Some block \<Rightarrow>
                         bindE (bulk_reset (length (cblocks P)) (ep_tailBlock p) block P)
                           (\<lambda>P. Inr ((True, firstAllocatedBlock),
                                      publish_front ((pr_blockIndexFront p - 1) AND (pr_blockIndexSize p - 1)) p, P)))))"

definition explicit_enqueue_bulk ::
  "alloc_mode \<Rightarrow> (nat \<Rightarrow> bool \<times> bool) \<Rightarrow> 'a list \<Rightarrow> u64 \<Rightarrow> explicit_producer \<Rightarrow> 'a pool
     \<Rightarrow> cq_error + bool \<times> explicit_producer \<times> 'a pool" where
  "explicit_enqueue_bulk allocMode mem items cnt p P =
     (let startTailIndex = ep_tailIndex p;
          startBlock = ep_tailBlock p;
          blockBaseDiff = ((startTailIndex + cnt - 1) AND NOT (BLOCK_SIZE - 1)) - ((startTailIndex - 1) AND NOT (BLOCK_SIZE - 1));
          currentTailIndex = (startTailIndex - 1) AND NOT (BLOCK_SIZE - 1);
          passes = unat blockBaseDiff div unat BLOCK_SIZE
      in bindE (bulk_blocks_for allocMode mem blockBaseDiff currentTailIndex p P)
           (\<lambda>((ok, firstAllocatedBlock), p, P).
              if \<not> ok then Inr (False, p, P)
              else
                let newTailIndex = startTailIndex + cnt;
                    endBlock = ep_tailBlock p
                in if \<not> (startTailIndex AND (BLOCK_SIZE - 1) \<noteq> 0 \<or> firstAllocatedBlock \<noteq> None \<or> cnt = 0) then Inl Cq_assertion_failed
                   else
                     let p = p\<lparr>ep_tailBlock := (if startTailIndex AND (BLOCK_SIZE - 1) = 0 \<and> firstAllocatedBlock \<noteq> None
                                                then firstAllocatedBlock else startBlock)\<rparr>
                     in bindE (explicit_bulk_put (Suc passes) newTailIndex endBlock startTailIndex items p P)
                          (\<lambda>(p, P). Inr (True, p\<lparr>ep_tailIndex := newTailIndex\<rparr>, P))))"

subsection \<open>The block index before it is published\<close>

text \<open>
  While blocks are obtained, the entries up to the slot before \<open>pr_blockIndexFront\<close> are written, but the front that the consumers see has not
  moved: \<open>xpub p\<close> is the producer with the front published.
\<close>

definition xpub :: "explicit_producer \<Rightarrow> explicit_producer" where
  "xpub p = publish_front ((pr_blockIndexFront p - 1) AND (pr_blockIndexSize p - 1)) p"

definition xpend :: "nat \<Rightarrow> explicit_producer \<Rightarrow> nat \<Rightarrow> nat \<Rightarrow> (nat \<Rightarrow> nat) \<Rightarrow> bool" where
  "xpend c p M N blk \<longleftrightarrow> xindex_rep c (xpub p) M N blk"

lemma publish_front_simps [simp]:
  "publish_front a (publish_front b p) = publish_front a p"
  "ep_tailIndex (publish_front a p) = ep_tailIndex p" "ep_headIndex (publish_front a p) = ep_headIndex p"
  "ep_dequeueOptimisticCount (publish_front a p) = ep_dequeueOptimisticCount p" "ep_dequeueOvercommit (publish_front a p) = ep_dequeueOvercommit p"
  "ep_tailBlock (publish_front a p) = ep_tailBlock p" "pr_blockIndexSlotsUsed (publish_front a p) = pr_blockIndexSlotsUsed p"
  "pr_blockIndexSize (publish_front a p) = pr_blockIndexSize p" "pr_blockIndexFront (publish_front a p) = pr_blockIndexFront p"
  "ep_blockIndex (publish_front a p) = map_option (\<lambda>h. h\<lparr>header_front := a\<rparr>) (ep_blockIndex p)"
  by (simp_all add: publish_front_def option.map_comp comp_def)

lemma add_publish:
  "add_index_entry w p = Inr q \<Longrightarrow> add_index_entry w (publish_front a p) = Inr (publish_front a q)"
  by (auto simp: add_index_entry_def publish_front_def Let_def split: option.splits)

lemma front_back:
  assumes "unat (s :: u64) = 2 ^ c" "unat f < 2 ^ c"
  shows "(((f + 1) AND (s - 1)) - 1) AND (s - 1) = f"
proof -
  have m: "unat (s - 1) + 1 = 2 ^ c" by (rule mask_capacity [OF assms(1)])
  have "unat ((f + 1) AND (s - 1)) = (unat (1 :: u64) + unat f) mod 2 ^ c" using unat_incr_and_pow2 [OF m, of f] by simp
  then have "unat ((((f + 1) AND (s - 1)) - 1) AND (s - 1)) = unat f" using assms(2) by (rule unat_diff_and_pow2 [OF m])
  then show ?thesis by (simp add: word_unat_eq_iff)
qed

lemma xpend_start:
  assumes rep: "xindex_rep c p M N blk"
  shows "xpend c p M N blk"
proof -
  note a = xindex_repD [OF rep]
  show ?thesis
  proof (cases "ep_blockIndex p")
    case None
    then have "xpub p = p" by (cases p) (simp add: xpub_def publish_front_def)
    then show ?thesis using rep by (simp add: xpend_def)
  next
    case (Some h)
    note f = index_filledD [OF a(9) [OF Some]]
    show ?thesis
    proof (cases "M < N")
      case True
      have m: "unat (pr_blockIndexSize p - 1) + 1 = 2 ^ c" by (rule mask_capacity [OF a(3)])
      have "unat (pr_blockIndexFront p) = (unat (1 :: u64) + unat (header_front h)) mod 2 ^ c" using f(5) [OF True] by simp
      then have "unat ((pr_blockIndexFront p - 1) AND (pr_blockIndexSize p - 1)) = unat (header_front h)" using f(4) [OF True]
        by (rule unat_diff_and_pow2 [OF m])
      then have "(pr_blockIndexFront p - 1) AND (pr_blockIndexSize p - 1) = header_front h" by (simp add: word_unat_eq_iff)
      then have "xpub p = p" using Some by (cases p; cases h) (simp add: xpub_def publish_front_def)
      then show ?thesis using rep by (simp add: xpend_def)
    next
      case False
      let ?h = "h\<lparr>header_front := (pr_blockIndexFront p - 1) AND (pr_blockIndexSize p - 1)\<rparr>"
      have "index_filled c (xpub p) ?h M N blk" unfolding index_filled_def using f(1-3) False by (auto simp: xpub_def)
      then show ?thesis using a Some unfolding xpend_def xindex_rep_def by (simp add: xpub_def)
    qed
  qed
qed

lemma xpend_add:
  fixes b :: nat
  assumes rep: "xpend c p M N blk" and room: "M \<le> M'" "M' \<le> N" "Suc N - M' \<le> 2 ^ c" and h: "ep_blockIndex p \<noteq> None"
  defines "p1 \<equiv> p\<lparr>ep_tailBlock := Some b, pr_blockIndexSlotsUsed := of_nat (Suc N - M')\<rparr>"
  shows "\<exists>h f. add_index_entry (of_nat (32 * N)) p1 = Inr (p1\<lparr>ep_blockIndex := Some h, pr_blockIndexFront := f\<rparr>)
    \<and> xpend c (p1\<lparr>ep_blockIndex := Some h, pr_blockIndexFront := f\<rparr>) M' (Suc N) (blk(N := b))"
proof -
  let ?g = "(pr_blockIndexFront p - 1) AND (pr_blockIndexSize p - 1)"
  have rep': "xindex_rep c (xpub p) M N blk" using rep by (simp add: xpend_def)
  note a = xindex_repD [OF rep']
  obtain h0 where h0: "ep_blockIndex p = Some h0" using h by (cases "ep_blockIndex p") auto
  have hx: "ep_blockIndex (xpub p) = Some (h0\<lparr>header_front := ?g\<rparr>)" using h0 by (simp add: xpub_def)
  have p1x: "(xpub p)\<lparr>ep_tailBlock := Some b, pr_blockIndexSlotsUsed := of_nat (Suc N - M')\<rparr> = publish_front ?g p1"
    by (simp add: xpub_def publish_front_def p1_def)
  obtain h' f where add: "add_index_entry (of_nat (32 * N)) (publish_front ?g p1) = Inr ((publish_front ?g p1)\<lparr>ep_blockIndex := Some h', pr_blockIndexFront := f\<rparr>)"
    "xindex_rep c (publish_front (pr_blockIndexFront (xpub p)) ((publish_front ?g p1)\<lparr>ep_blockIndex := Some h', pr_blockIndexFront := f\<rparr>)) M' (Suc N) (blk(N := b))"
    using xindex_add [OF rep' room hx, of b] unfolding p1x by blast
  obtain q where q: "add_index_entry (of_nat (32 * N)) p1 = Inr q" "\<exists>h. q = p1\<lparr>ep_blockIndex := Some h, pr_blockIndexFront := (pr_blockIndexFront p1 + 1) AND (pr_blockIndexSize p1 - 1)\<rparr>"
    using h0 by (auto simp: add_index_entry_def p1_def Let_def)
  have qx: "(publish_front ?g p1)\<lparr>ep_blockIndex := Some h', pr_blockIndexFront := f\<rparr> = publish_front ?g q"
    using add_publish [OF q(1), of ?g] add(1) by simp
  obtain hq where hq: "q = p1\<lparr>ep_blockIndex := Some hq, pr_blockIndexFront := (pr_blockIndexFront p1 + 1) AND (pr_blockIndexSize p1 - 1)\<rparr>"
    using q(2) by blast
  have "unat (pr_blockIndexFront p) < 2 ^ c" "unat (pr_blockIndexSize p) = 2 ^ c"
    using index_filledD(3) [OF a(9) [OF hx]] a(3) by (simp_all add: xpub_def)
  then have "xpub q = publish_front (pr_blockIndexFront p) q"
    using front_back [of "pr_blockIndexSize p" c "pr_blockIndexFront p"] by (simp add: xpub_def hq p1_def)
  then have "xpend c q M' (Suc N) (blk(N := b))" using add(2) unfolding qx xpend_def by (simp add: xpub_def)
  then show ?thesis using q(1) hq by blast
qed

lemma new_index_publish:
  assumes "explicit_new_block_index True a (publish_front g p)
      = Inr (True, (publish_front g p)\<lparr>pr_blockIndexSize := s, pr_blockIndexFront := f, ep_blockIndex := Some h\<rparr>)"
  shows "explicit_new_block_index True b p = Inr (True, p\<lparr>pr_blockIndexSize := s, pr_blockIndexFront := f, ep_blockIndex := Some (h\<lparr>header_front := b - 1\<rparr>)\<rparr>)"
proof (cases "pr_blockIndexSlotsUsed p = 0")
  case True
  then show ?thesis using assms by (cases p) (auto simp: explicit_new_block_index_def Let_def publish_front_def)
next
  case False
  show ?thesis
  proof (cases "ep_blockIndex p")
    case None
    then show ?thesis using assms False by (simp add: explicit_new_block_index_def Let_def)
  next
    case (Some h0)
    let ?c = "copy_entries (length (header_entries h0)) (header_entries h0) (pr_blockIndexSize p - 1) (pr_blockIndexFront p)
      ((pr_blockIndexFront p - pr_blockIndexSlotsUsed p) AND (pr_blockIndexSize p - 1))"
    show ?thesis
    proof (cases ?c)
      case (Inl e)
      then show ?thesis using assms False Some by (simp add: explicit_new_block_index_def Let_def)
    next
      case (Inr es)
      then show ?thesis using assms False Some
        by (cases p) (auto simp: explicit_new_block_index_def Let_def publish_front_def)
    qed
  qed
qed

lemma xpend_grow:
  assumes rep: "xpend c p M N blk" and full: "ep_blockIndex p = None \<or> N - M = 2 ^ c" and c: "c \<le> 58"
  shows "\<exists>h f. explicit_new_block_index True b p
      = Inr (True, p\<lparr>pr_blockIndexSize := push_bit 1 (pr_blockIndexSize p), pr_blockIndexFront := f, ep_blockIndex := Some h\<rparr>)
    \<and> xpend (Suc c) (p\<lparr>pr_blockIndexSize := push_bit 1 (pr_blockIndexSize p), pr_blockIndexFront := f, ep_blockIndex := Some h\<rparr>) M N blk"
proof -
  let ?g = "(pr_blockIndexFront p - 1) AND (pr_blockIndexSize p - 1)"
  let ?q = "\<lambda>f h. p\<lparr>pr_blockIndexSize := push_bit 1 (pr_blockIndexSize p), pr_blockIndexFront := f, ep_blockIndex := Some h\<rparr>"
  have rep': "xindex_rep c (publish_front ?g p) M N blk" using rep by (simp add: xpend_def xpub_def)
  have full': "ep_blockIndex (publish_front ?g p) = None \<or> N - M = 2 ^ c" using full by simp
  have q: "(publish_front ?g p)\<lparr>pr_blockIndexSize := push_bit 1 (pr_blockIndexSize (publish_front ?g p)), pr_blockIndexFront := f, ep_blockIndex := Some h\<rparr> = ?q f h" for f h
    by (simp add: publish_front_def)
  from xindex_grow [OF rep' full' c]
  obtain h f where g: "explicit_new_block_index True (pr_blockIndexSlotsUsed (publish_front ?g p)) (publish_front ?g p)
      = Inr (True, (publish_front ?g p)\<lparr>pr_blockIndexSize := push_bit 1 (pr_blockIndexSize (publish_front ?g p)), pr_blockIndexFront := f, ep_blockIndex := Some h\<rparr>)"
    "xindex_rep (Suc c) (?q f h) M N blk"
    unfolding q by blast
  from new_index_publish [OF g(1), of b]
  have e: "explicit_new_block_index True b p = Inr (True, ?q f (h\<lparr>header_front := b - 1\<rparr>))" by simp
  have "xpub (?q f (h\<lparr>header_front := b - 1\<rparr>)) = xpub (?q f h)" by (simp add: xpub_def publish_front_def)
  then have "xpend (Suc c) (?q f (h\<lparr>header_front := b - 1\<rparr>)) M N blk" using xpend_start [OF g(2)] by (simp add: xpend_def)
  then show ?thesis using e by blast
qed

lemma xpend_cong:
  "xpend c p M N blk \<Longrightarrow> ep_blockIndex p' = ep_blockIndex p \<Longrightarrow> pr_blockIndexSlotsUsed p' = pr_blockIndexSlotsUsed p
    \<Longrightarrow> pr_blockIndexSize p' = pr_blockIndexSize p \<Longrightarrow> pr_blockIndexFront p' = pr_blockIndexFront p \<Longrightarrow> xpend c p' M N blk"
  unfolding xpend_def by (erule xindex_rep_cong) (simp_all add: xpub_def)

subsection \<open>Obtaining the blocks\<close>

text \<open>
  While blocks are obtained, those from number \<open>N0\<close> on hold nothing yet and are marked as empty.
\<close>

definition xready :: "nat \<Rightarrow> 'a cblock \<Rightarrow> nat \<Rightarrow> 'a list \<Rightarrow> nat \<Rightarrow> bool" where
  "xready N0 b H xs k \<longleftrightarrow> (if k < N0 then xblock_holds b H xs k else raw_block b \<and> emptyFlags b = replicate 32 True)"

definition xbulk ::
  "'a pool \<Rightarrow> explicit_producer \<Rightarrow> 'a list \<Rightarrow> nat set \<Rightarrow> nat \<Rightarrow> nat \<Rightarrow> nat \<Rightarrow> nat \<Rightarrow> nat \<Rightarrow> (nat \<Rightarrow> nat) \<Rightarrow> bool" where
  "xbulk P p xs L c H M N0 N blk \<longleftrightarrow>
     ep_tailIndex p = of_nat (H + length xs) \<and> ep_headIndex p = of_nat H \<and> ep_dequeueOptimisticCount p = of_nat H
     \<and> ep_dequeueOvercommit p = 0 \<and> 32 * N < H + 2 ^ 63 \<and> M \<le> H div 32 \<and> H + length xs \<le> 32 * N0 \<and> M \<le> N0 \<and> N0 \<le> N \<and> xpend c p M N blk
     \<and> ep_tailBlock p = (if M < N then Some (blk (N - 1)) else None)
     \<and> inj_on blk {M..<N} \<and> L = blk ` {M..<N}
     \<and> (\<forall>k. M \<le> k \<and> k < N \<longrightarrow> blk k < length (cblocks P) \<and> xready N0 (cblocks P ! blk k) H xs k
          \<and> block_next (cblocks P ! blk k) = Some (blk (ring_next M N k)))"

lemma xbulkD:
  assumes "xbulk P p xs L c H M N0 N blk"
  shows "ep_tailIndex p = of_nat (H + length xs)" "ep_headIndex p = of_nat H" "ep_dequeueOptimisticCount p = of_nat H"
    "ep_dequeueOvercommit p = 0" "32 * N < H + 2 ^ 63" "M \<le> H div 32" "H + length xs \<le> 32 * N0" "M \<le> N0" "N0 \<le> N" "xpend c p M N blk"
    "ep_tailBlock p = (if M < N then Some (blk (N - 1)) else None)" "inj_on blk {M..<N}" "L = blk ` {M..<N}"
    "\<And>k. M \<le> k \<Longrightarrow> k < N \<Longrightarrow> blk k < length (cblocks P)"
    "\<And>k. M \<le> k \<Longrightarrow> k < N \<Longrightarrow> xready N0 (cblocks P ! blk k) H xs k"
    "\<And>k. M \<le> k \<Longrightarrow> k < N \<Longrightarrow> block_next (cblocks P ! blk k) = Some (blk (ring_next M N k))"
  using assms unfolding xbulk_def by simp_all

lemma xbulkI:
  assumes "ep_tailIndex p = of_nat (H + length xs)" "ep_headIndex p = of_nat H" "ep_dequeueOptimisticCount p = of_nat H"
    "ep_dequeueOvercommit p = 0" "32 * N < H + 2 ^ 63" "M \<le> H div 32" "H + length xs \<le> 32 * N0" "M \<le> N0" "N0 \<le> N" "xpend c p M N blk"
    "ep_tailBlock p = (if M < N then Some (blk (N - 1)) else None)" "inj_on blk {M..<N}" "L = blk ` {M..<N}"
    "\<And>k. M \<le> k \<Longrightarrow> k < N \<Longrightarrow> blk k < length (cblocks P)"
    "\<And>k. M \<le> k \<Longrightarrow> k < N \<Longrightarrow> xready N0 (cblocks P ! blk k) H xs k"
    "\<And>k. M \<le> k \<Longrightarrow> k < N \<Longrightarrow> block_next (cblocks P ! blk k) = Some (blk (ring_next M N k))"
  shows "xbulk P p xs L c H M N0 N blk"
  using assms unfolding xbulk_def by simp

lemma xbulk_start:
  assumes core: "xprod_core P p xs L c H M N blk" and T: "H + length xs \<le> 32 * N"
  shows "xbulk P p xs L c H M N N blk"
proof -
  note a = xprod_coreD [OF core]
  show ?thesis
    by (rule xbulkI) (use a T xpend_start [OF a(7)] xindex_repD(4) [OF a(7)] in \<open>simp_all add: xready_def\<close>)
qed

lemma xbulk_few:
  assumes "xbulk P p xs L c H M N0 N blk"
  shows "N - M \<le> length (cblocks P)"
  using blocks_fit [OF xbulkD(12,14) [OF assms]] by blast

lemma xbulk_frame:
  assumes bulk: "xbulk P p xs L c H M N0 N blk" and fr: "pool_frame S P P'" and dis: "L \<inter> S = {}"
  shows "xbulk P' p xs L c H M N0 N blk"
proof -
  note a = xbulkD [OF bulk]
  have s: "blk k < length (cblocks P') \<and> cblocks P' ! blk k = cblocks P ! blk k" if "M \<le> k" "k < N" for k
  proof -
    have "blk k \<in> L" unfolding a(13) using that by simp
    then have "blk k \<notin> S" using dis by blast
    then show ?thesis using a(14) [OF that] fr by (simp add: pool_frame_def)
  qed
  show ?thesis
    by (rule xbulkI) (use a s in \<open>simp_all\<close>)
qed

text \<open>A block is empty when the head has left it, and when it was obtained just now.\<close>

lemma is_empty_xready:
  assumes "xready N0 b H xs k"
  shows "is_empty explicit_context b = Inr (32 * k + 32 \<le> H \<or> N0 \<le> k)"
proof (cases "k < N0")
  case True
  then show ?thesis using assms is_empty_xblock by (auto simp: xready_def)
next
  case False
  then have "emptyFlags b = replicate 32 True" using assms by (simp add: xready_def)
  then have "\<forall>i \<in> set [0..<32]. emptyFlags b ! i" by simp
  then show ?thesis using False by (simp add: is_empty_def)
qed

lemma left_block_ready:
  assumes "xblock_holds b H xs k" "32 * k + 32 \<le> H"
  shows "raw_block b" "emptyFlags b = replicate 32 True"
proof -
  show "raw_block b" by (rule left_block_raw [OF assms])
  have "emptyFlags b ! i" if "i < 32" for i
  proof -
    have "\<forall>s < 32. emptyFlags b ! (31 - s)" using assms unfolding xblock_holds_def by auto
    from spec [OF this, of "31 - i"] show ?thesis using that by simp
  qed
  then show "emptyFlags b = replicate 32 True" using assms(1) unfolding xblock_holds_def list_eq_iff_nth_eq by simp
qed

lemma xbulk_reuse_step:
  assumes bulk: "xbulk P p xs L c H M N0 N blk" and MN: "M < N0" and left: "32 * M + 32 \<le> H" and few: "length (cblocks P) \<le> 2 ^ 57"
  shows "\<exists>p'. add_index_entry (of_nat (32 * N)) (p\<lparr>ep_tailBlock := Some (blk M)\<rparr>) = Inr p'
    \<and> xbulk P p' xs L c H (Suc M) N0 (Suc N) (blk(N := blk M))"
proof -
  note a = xbulkD [OF bulk]
  have ix: "xindex_rep c (xpub p) M N blk" using a(10) by (simp add: xpend_def)
  note i = xindex_repD [OF ix]
  let ?blk = "blk(N := blk M)"
  have MN': "M < N" "M \<le> M" using MN a(9) by simp_all
  have h: "ep_blockIndex p \<noteq> None" using i(7) MN' by (auto simp: xpub_def)
  have room: "M \<le> Suc M" "Suc M \<le> N" "Suc N - Suc M \<le> 2 ^ c" using MN' i(5) by auto
  have same: "p\<lparr>ep_tailBlock := Some (blk M), pr_blockIndexSlotsUsed := of_nat (Suc N - Suc M)\<rparr> = p\<lparr>ep_tailBlock := Some (blk M)\<rparr>"
    by (rule explicit_producer_same(2)) (use i(6) in \<open>simp add: xpub_def\<close>)
  let ?p = "\<lambda>h f. p\<lparr>ep_tailBlock := Some (blk M)\<rparr>\<lparr>ep_blockIndex := Some h, pr_blockIndexFront := f\<rparr>"
  obtain h' f where add: "add_index_entry (of_nat (32 * N)) (p\<lparr>ep_tailBlock := Some (blk M)\<rparr>) = Inr (?p h' f)"
    "xpend c (?p h' f) (Suc M) (Suc N) ?blk"
    using xpend_add [OF a(10) room h, of "blk M"] unfolding same by blast
  have range: "{Suc M..<Suc N} = insert N {Suc M..<N}" "{M..<N} = insert M {Suc M..<N}" using MN' by auto
  have im: "?blk ` {Suc M..<N} = blk ` {Suc M..<N}" by (rule image_cong) auto
  have neq: "blk k \<noteq> blk M" if "Suc M \<le> k" "k < N" for k using inj_range [OF a(12), of k M] that MN' by auto
  have "N \<le> M + 2 ^ 57" using xbulk_few [OF bulk] few by (simp add: le_diff_conv)
  then have bound: "32 * Suc N < H + 2 ^ 63" using left by simp
  have old: "xblock_holds (cblocks P ! blk M) H xs M" using a(15) [OF MN'(2,1)] MN by (simp add: xready_def)
  have "xbulk P (?p h' f) xs L c H (Suc M) N0 (Suc N) ?blk"
  proof (rule xbulkI)
    show "inj_on ?blk {Suc M..<Suc N}"
    proof -
      have "inj_on ?blk {Suc M..<N}" using a(12) by (auto simp: inj_on_def)
      moreover have "blk M \<notin> blk ` {Suc M..<N}" using neq by (metis atLeastLessThan_iff imageE)
      ultimately show ?thesis unfolding range inj_on_insert using im by simp
    qed
    show "L = ?blk ` {Suc M..<Suc N}" unfolding range image_insert im a(13) by simp
    show "?blk k < length (cblocks P)" if "Suc M \<le> k" "k < Suc N" for k using a(14) [of k] a(14) [OF MN'(2,1)] that by (auto simp: less_Suc_eq)
    show "xready N0 (cblocks P ! ?blk k) H xs k" if k: "Suc M \<le> k" "k < Suc N" for k
    proof (cases "k = N")
      case True
      then show ?thesis using left_block_ready [OF old left] a(9) by (simp add: xready_def)
    next
      case False
      then show ?thesis using a(15) [of k] k by simp
    qed
    show "block_next (cblocks P ! ?blk k) = Some (?blk (ring_next (Suc M) (Suc N) k))" if k: "Suc M \<le> k" "k < Suc N" for k
    proof (cases "k = N")
      case True
      then show ?thesis using a(16) [OF MN'(2,1)] MN' by (auto simp: ring_next_def)
    next
      case False
      then show ?thesis using a(16) [of k] k by (auto simp: ring_next_def)
    qed
  qed (use a left bound MN MN' add(2) in \<open>simp_all\<close>)
  then show ?thesis using add(1) by blast
qed

lemma bulk_counters:
  assumes "N0 \<le> N" "32 * (N1 - N0) < (2 :: nat) ^ 64"
  shows "((of_nat (32 * (N1 - N)) :: u64) > 0) = (N < N1)"
    "N < N1 \<Longrightarrow> (of_nat (32 * (N1 - N)) :: u64) - BLOCK_SIZE = of_nat (32 * (N1 - Suc N))"
    "(of_nat (32 * N) :: u64) - BLOCK_SIZE + BLOCK_SIZE = of_nat (32 * N)" "(of_nat (32 * N) :: u64) = of_nat (32 * Suc N) - BLOCK_SIZE"
proof -
  have "32 * (N1 - N) \<le> 32 * (N1 - N0)" using assms(1) by simp
  then have "32 * (N1 - N) < 2 ^ 64" using assms(2) by (rule order.strict_trans1)
  then have "unat (of_nat (32 * (N1 - N)) :: u64) = 32 * (N1 - N)" by (simp add: unat_of_nat del: of_nat_mult)
  then show "((of_nat (32 * (N1 - N)) :: u64) > 0) = (N < N1)" by (simp add: word_less_nat_alt del: of_nat_mult)
  assume "N < N1"
  then have "N1 - N = Suc (N1 - Suc N)" by (simp add: Suc_diff_Suc)
  then have "32 * (N1 - N) = 32 * (N1 - Suc N) + 32" by simp
  then show "(of_nat (32 * (N1 - N)) :: u64) - BLOCK_SIZE = of_nat (32 * (N1 - Suc N))" by (simp only: of_nat_add BLOCK_SIZE_def) simp
qed (simp_all add: BLOCK_SIZE_def)

text \<open>The first loop.\<close>

lemma bulk_reuse_rep:
  assumes "xbulk P p xs L c H M N0 N blk" "N \<le> N1" "32 * (N1 - N0) < 2 ^ 64" "length (cblocks P) \<le> 2 ^ 57" "N1 - N < fuel"
  shows "\<exists>p' M' N' blk'. bulk_reuse fuel (of_nat (32 * (N1 - N))) (of_nat (32 * N) - BLOCK_SIZE) (if N0 < N then Some (blk N0) else None) p P
      = Inr ((of_nat (32 * (N1 - N')), of_nat (32 * N') - BLOCK_SIZE, if N0 < N' then Some (blk' N0) else None), p')
    \<and> N' \<le> N1 \<and> N \<le> N' \<and> xbulk P p' xs L c H M' N0 N' blk' \<and> pr_blockIndexSlotsUsed p' = pr_blockIndexSlotsUsed p
    \<and> (\<forall>k < N0. blk' k = blk k)"
  using assms
proof (induction fuel arbitrary: p M N blk)
  case (Suc fuel)
  note a = xbulkD [OF Suc.prems(1)]
  note count = bulk_counters [OF a(9) Suc.prems(3)]
  let ?first = "if N0 < N then Some (blk N0) else None"
  show ?case
  proof (cases "M < N0 \<and> 32 * M + 32 \<le> H \<and> N < N1")
    case True
    then have MN: "M < N0" "M < N" "M \<le> M" "M \<le> N - 1" "N - 1 < N" using a(9) by auto
    have tl: "ep_tailBlock p = Some (blk (N - 1))" using a(11) MN by simp
    have nx: "block_next (cblocks P ! blk (N - 1)) = Some (blk M)" using a(16) [OF MN(4,5)] MN by (simp add: ring_next_def)
    have nf: "Some (blk M) \<noteq> ?first" using inj_range [OF a(12), of M N0] MN a(8) by auto
    have em: "is_empty explicit_context (cblocks P ! blk M) = Inr True" using is_empty_xready [OF a(15) [OF MN(3,2)]] True by simp
    obtain p1 where p1: "add_index_entry (of_nat (32 * N)) (p\<lparr>ep_tailBlock := Some (blk M)\<rparr>) = Inr p1"
      "xbulk P p1 xs L c H (Suc M) N0 (Suc N) (blk(N := blk M))"
      using xbulk_reuse_step [OF Suc.prems(1)] True Suc.prems(4) by blast
    have used: "pr_blockIndexSlotsUsed p1 = pr_blockIndexSlotsUsed p"
      using p1(1) by (auto simp: add_index_entry_def split: option.splits)
    have next_first: "(if ?first = None then Some (blk M) else ?first) = (if N0 < Suc N then Some ((blk(N := blk M)) N0) else None)"
      using a(9) by auto
    have diff: "(of_nat (32 * (N1 - N)) :: u64) - BLOCK_SIZE = of_nat (32 * (N1 - Suc N))" using True by (intro count(2)) simp
    have step: "bulk_reuse (Suc fuel) (of_nat (32 * (N1 - N))) (of_nat (32 * N) - BLOCK_SIZE) ?first p P
        = bulk_reuse fuel (of_nat (32 * (N1 - Suc N))) (of_nat (32 * Suc N) - BLOCK_SIZE) (if N0 < Suc N then Some ((blk(N := blk M)) N0) else None) p1 P"
      unfolding bulk_reuse.simps Let_def tl option.simps nx em bindE_simps count(3) p1(1) next_first diff
      using count(1,4) True nf by (simp del: of_nat_mult)
    have "Suc N \<le> N1" "N1 - Suc N < fuel" using True Suc.prems(5) by auto
    from Suc.IH [OF p1(2) this(1) Suc.prems(3,4) this(2)]
    show ?thesis unfolding step used by (elim exE conjE) (intro exI conjI; (assumption | use a(9) in simp))
  next
    case False
    have "bulk_reuse (Suc fuel) (of_nat (32 * (N1 - N))) (of_nat (32 * N) - BLOCK_SIZE) ?first p P
        = Inr ((of_nat (32 * (N1 - N)), of_nat (32 * N) - BLOCK_SIZE, ?first), p)"
    proof (cases "M < N \<and> N < N1")
      case True
      then have MN: "M < N" "M \<le> M" "M \<le> N - 1" "N - 1 < N" by auto
      have tl: "ep_tailBlock p = Some (blk (N - 1))" using a(11) MN by simp
      have nx: "block_next (cblocks P ! blk (N - 1)) = Some (blk M)" using a(16) [OF MN(3,4)] MN by (simp add: ring_next_def)
      show ?thesis
      proof (cases "M = N0")
        case M: True
        have "Some (blk M) = ?first" using MN M by simp
        then show ?thesis unfolding bulk_reuse.simps tl option.simps nx by simp
      next
        case M: False
        then have "is_empty explicit_context (cblocks P ! blk M) = Inr False"
          using is_empty_xready [OF a(15) [OF MN(2,1)]] False True a(8) by simp
        then show ?thesis unfolding bulk_reuse.simps tl option.simps nx by simp
      qed
    next
      case no: False
      show ?thesis
      proof (cases "N < N1")
        case True
        then have "ep_tailBlock p = None" using no a(11) by simp
        then show ?thesis by simp
      next
        case False
        then show ?thesis using count(1) by (simp split: option.splits)
      qed
    qed
    then show ?thesis using Suc.prems(1,2) by (intro exI [of _ p] exI [of _ M] exI [of _ N] exI [of _ blk]) simp
  qed
qed simp

text \<open>Room in the block index, and a new block.\<close>

lemma xpend_room:
  assumes rep: "xpend c p M N blk" and few: "N - M \<le> 2 ^ 57"
  shows "\<exists>ok p'. (if ep_blockIndex p = None \<or> pr_blockIndexSlotsUsed p = pr_blockIndexSize p
        then (if am = Cannot_alloc then Inr (False, p) else explicit_new_block_index iok b p)
        else Inr (True, p)) = Inr (ok, p')
    \<and> (if ok then \<exists>c' s f h. p' = p\<lparr>pr_blockIndexSize := s, pr_blockIndexFront := f, ep_blockIndex := Some h\<rparr> \<and> xpend c' p' M N blk \<and> N - M < 2 ^ c'
       else am = Cannot_alloc \<or> \<not> iok)"
proof -
  have ix: "xindex_rep c (xpub p) M N blk" using rep by (simp add: xpend_def)
  note i = xindex_repD [OF ix]
  have e: "pr_blockIndexSlotsUsed (xpub p) = pr_blockIndexSlotsUsed p" "pr_blockIndexSize (xpub p) = pr_blockIndexSize p"
    "(ep_blockIndex (xpub p) = None) = (ep_blockIndex p = None)" by (simp_all add: xpub_def)
  have slots: "unat (pr_blockIndexSlotsUsed p) = N - M" using i(6) few by (simp add: e unat_of_nat)
  have full: "pr_blockIndexSlotsUsed p = pr_blockIndexSize p \<longleftrightarrow> N - M = 2 ^ c"
    using slots i(3) by (simp add: e word_unat_eq_iff)
  show ?thesis
  proof (cases "ep_blockIndex p = None \<or> N - M = 2 ^ c")
    case True
    have c: "c \<le> 58"
    proof (rule ccontr)
      assume "\<not> c \<le> 58"
      then have "(2 :: nat) ^ 58 \<le> 2 ^ c" by (intro power_increasing) auto
      then show False using True i(8) few \<open>\<not> c \<le> 58\<close> by (auto simp: e)
    qed
    show ?thesis
    proof (cases "am = Cannot_alloc \<or> \<not> iok")
      case True
      then show ?thesis using \<open>ep_blockIndex p = None \<or> N - M = 2 ^ c\<close> full
        by (intro exI [of _ False] exI [of _ p]) (auto simp: explicit_new_block_index_def Let_def)
    next
      case False
      let ?p = "\<lambda>f h. p\<lparr>pr_blockIndexSize := push_bit 1 (pr_blockIndexSize p), pr_blockIndexFront := f, ep_blockIndex := Some h\<rparr>"
      obtain h f where g: "explicit_new_block_index True b p = Inr (True, ?p f h)" "xpend (Suc c) (?p f h) M N blk"
        using xpend_grow [OF rep True c] by blast
      moreover have "N - M < 2 ^ Suc c" using i(5) by (simp add: le_less_trans [of _ "2 ^ c"])
      ultimately have "\<exists>c' s f' h'. ?p f h = p\<lparr>pr_blockIndexSize := s, pr_blockIndexFront := f', ep_blockIndex := Some h'\<rparr>
        \<and> xpend c' (?p f h) M N blk \<and> N - M < 2 ^ c'"
        by (intro exI [of _ "Suc c"] exI [of _ "push_bit 1 (pr_blockIndexSize p)"] exI [of _ f] exI [of _ h]) simp
      moreover have "(if ep_blockIndex p = None \<or> pr_blockIndexSlotsUsed p = pr_blockIndexSize p
        then (if am = Cannot_alloc then Inr (False, p) else explicit_new_block_index iok b p) else Inr (True, p)) = Inr (True, ?p f h)"
        using False True full g(1) by auto
      ultimately show ?thesis by (intro exI [of _ True] exI [of _ "?p f h"]) simp
    qed
  next
    case False
    then obtain h where h: "ep_blockIndex p = Some h" by auto
    have "p = p\<lparr>pr_blockIndexSize := pr_blockIndexSize p, pr_blockIndexFront := pr_blockIndexFront p, ep_blockIndex := Some h\<rparr>"
      using h by (cases p) simp
    moreover have "N - M < 2 ^ c" using False i(5) by simp
    ultimately have "\<exists>c' s f h. p = p\<lparr>pr_blockIndexSize := s, pr_blockIndexFront := f, ep_blockIndex := Some h\<rparr> \<and> xpend c' p M N blk \<and> N - M < 2 ^ c'"
      using rep by blast
    moreover have "(if ep_blockIndex p = None \<or> pr_blockIndexSlotsUsed p = pr_blockIndexSize p
        then (if am = Cannot_alloc then Inr (False, p) else explicit_new_block_index iok b p) else Inr (True, p)) = Inr (True, p)"
      using False full h by auto
    ultimately show ?thesis by (intro exI [of _ True] exI [of _ p] conjI) (assumption | simp)+
  qed
qed

lemma xbulk_insert:
  assumes bulk: "xbulk P p xs L c H M N0 N blk" and few: "32 * Suc N < H + 2 ^ 63"
    and room: "N - M < 2 ^ c" "ep_blockIndex p \<noteq> None" and nb: "nb \<notin> L" "nb < length (cblocks P)" "raw_block (cblocks P ! nb)"
    and rep: "pool_rep P F" and dis: "insert nb L \<inter> F = {}"
    and ins: "insert_block nb p (upd_cblock nb (set_all_empty explicit_context) P) = (p1, P')"
  shows "\<exists>p'. add_index_entry (of_nat (32 * N)) (p1\<lparr>pr_blockIndexSlotsUsed := pr_blockIndexSlotsUsed p1 + 1\<rparr>) = Inr p'
    \<and> xbulk P' p' xs (insert nb L) c H M N0 (Suc N) (blk(N := nb))
    \<and> pool_rep P' F \<and> length (cblocks P') = length (cblocks P) \<and> pool_frame (insert nb L) P P'"
proof -
  note a = xbulkD [OF bulk]
  have ix: "xindex_rep c (xpub p) M N blk" using a(10) by (simp add: xpend_def)
  note i = xindex_repD [OF ix]
  let ?blk = "blk(N := nb)"
  have neq: "blk k \<noteq> nb" if "M \<le> k" "k < N" for k using nb(1) that unfolding a(13) by auto
  have ring: "blk (N - 1) < length (cblocks P) \<and> blk (N - 1) \<noteq> nb \<and> blk (N - 1) \<notin> F \<and> block_next (cblocks P ! blk (N - 1)) = Some (blk M)" if "M < N"
  proof -
    have N1: "M \<le> N - 1" "N - 1 < N" using that by auto
    have "blk (N - 1) \<in> L" unfolding a(13) using N1 by simp
    then show ?thesis using a(14) [OF N1] a(16) [OF N1] neq [OF N1] dis that by (auto simp: ring_next_def)
  qed
  have f: "freeListRefs (set_all_empty explicit_context (cblocks P ! nb)) = freeListRefs (cblocks P ! nb)"
    "block_wf (set_all_empty explicit_context (cblocks P ! nb))"
    "dynamicallyAllocated (set_all_empty explicit_context (cblocks P ! nb)) = dynamicallyAllocated (cblocks P ! nb)"
    using pool_rep_wf [OF rep nb(2)] by (simp_all add: block_wf_def set_all_empty_def)
  have nF: "nb \<notin> F" using dis by auto
  from insert_block_pool [where f = "set_all_empty explicit_context", OF rep nb(2) nF a(11) ring f ins]
  have p1: "p1 = p\<lparr>ep_tailBlock := Some nb\<rparr>" and len: "length (cblocks P') = length (cblocks P)"
    and at_nb: "cblocks P' ! nb = (set_all_empty explicit_context (cblocks P ! nb))\<lparr>block_next := Some (if M < N then blk M else nb)\<rparr>"
    and at_old: "\<And>n. n \<noteq> nb \<Longrightarrow> cblocks P' ! n = (if M < N \<and> n = blk (N - 1) then (cblocks P ! n)\<lparr>block_next := Some nb\<rparr> else cblocks P ! n)"
    and pool: "pool_rep P' F" by blast+
  have tl: "M < N \<Longrightarrow> blk (N - 1) \<in> L" unfolding a(13) by simp
  have frame: "pool_frame (insert nb L) P P'"
    using len at_old tl by (auto simp: pool_frame_def)
  have rm: "M \<le> M" "M \<le> N" "Suc N - M \<le> 2 ^ c" using i(4) room(1) by auto
  obtain h' f where add: "add_index_entry (of_nat (32 * N)) (p\<lparr>ep_tailBlock := Some nb, pr_blockIndexSlotsUsed := of_nat (Suc N - M)\<rparr>)
      = Inr (p\<lparr>ep_tailBlock := Some nb, pr_blockIndexSlotsUsed := of_nat (Suc N - M)\<rparr>\<lparr>ep_blockIndex := Some h', pr_blockIndexFront := f\<rparr>)"
    "xpend c (p\<lparr>ep_tailBlock := Some nb, pr_blockIndexSlotsUsed := of_nat (Suc N - M)\<rparr>\<lparr>ep_blockIndex := Some h', pr_blockIndexFront := f\<rparr>)
      M (Suc N) ?blk"
    using xpend_add [OF a(10) rm room(2), of nb] by blast
  have same: "p1\<lparr>pr_blockIndexSlotsUsed := pr_blockIndexSlotsUsed p1 + 1\<rparr> = p\<lparr>ep_tailBlock := Some nb, pr_blockIndexSlotsUsed := of_nat (Suc N - M)\<rparr>"
    using i(4,6) by (simp add: p1 Suc_diff_le add.commute xpub_def)
  have range: "{M..<Suc N} = insert N {M..<N}" using i(4) by auto
  have im: "?blk ` {M..<N} = blk ` {M..<N}" by (rule image_cong) auto
  have "xbulk P' (p\<lparr>ep_tailBlock := Some nb, pr_blockIndexSlotsUsed := of_nat (Suc N - M)\<rparr>\<lparr>ep_blockIndex := Some h', pr_blockIndexFront := f\<rparr>)
      xs (insert nb L) c H M N0 (Suc N) ?blk"
  proof (rule xbulkI)
    show "inj_on ?blk {M..<Suc N}"
    proof -
      have "inj_on ?blk {M..<N}" using a(12) by (auto simp: inj_on_def)
      moreover have "nb \<notin> blk ` {M..<N}" using nb(1) unfolding a(13) .
      ultimately show ?thesis unfolding range inj_on_insert using im by simp
    qed
    show "insert nb L = ?blk ` {M..<Suc N}" unfolding range image_insert im a(13) by simp
    show "?blk k < length (cblocks P')" if "M \<le> k" "k < Suc N" for k using a(14) [of k] nb(2) that len by (auto simp: less_Suc_eq)
    show "xready N0 (cblocks P' ! ?blk k) H xs k" if k: "M \<le> k" "k < Suc N" for k
    proof (cases "k = N")
      case True
      then show ?thesis using nb(3) a(9) by (simp add: at_nb xready_def set_all_empty_def raw_block_def)
    next
      case False
      then have k: "M \<le> k" "k < N" using k by auto
      have "xready N0 (cblocks P' ! blk k) H xs k = xready N0 (cblocks P ! blk k) H xs k"
        unfolding at_old [OF neq [OF k]] by (simp add: xready_def xblock_holds_def raw_block_def)
      then show ?thesis using False a(15) [OF k] by simp
    qed
    show "block_next (cblocks P' ! ?blk k) = Some (?blk (ring_next M (Suc N) k))" if k: "M \<le> k" "k < Suc N" for k
    proof (cases "k = N")
      case True
      then show ?thesis using at_nb k by (auto simp: ring_next_def)
    next
      case False
      then have k: "M \<le> k" "k < N" using k by auto
      have "blk k = blk (N - 1) \<longleftrightarrow> k = N - 1" using inj_range [OF a(12) k, of "N - 1"] k by auto
      then show ?thesis using False at_old [OF neq [OF k]] a(16) [OF k] k by (auto simp: ring_next_def)
    qed
  qed (use a few add(2) i(4) in \<open>simp_all\<close>)
  then show ?thesis unfolding same using add(1) pool len frame by blast
qed

text \<open>The second loop.\<close>

definition bulk_got ::
  "alloc_mode \<Rightarrow> (nat \<Rightarrow> bool \<times> bool) \<Rightarrow> nat \<Rightarrow> nat \<Rightarrow> nat \<Rightarrow> 'a list \<Rightarrow> nat \<Rightarrow> nat \<Rightarrow> (nat \<Rightarrow> nat) \<Rightarrow> nat set \<Rightarrow> 'a pool
     \<Rightarrow> bool \<Rightarrow> nat option \<Rightarrow> explicit_producer \<Rightarrow> 'a pool \<Rightarrow> bool" where
  "bulk_got am mem K H M xs N0 N1 blk S P ok first p' P' \<longleftrightarrow>
     (if ok then \<exists>L' F' c' blk'. first = (if N0 < N1 then Some (blk' N0) else None) \<and> xbulk P' p' xs L' c' H M N0 N1 blk' \<and> (\<forall>k < N0. blk' k = blk k)
          \<and> pool_rep P' F' \<and> L' \<inter> F' = {} \<and> L' \<union> F' = S \<union> {length (cblocks P)..<length (cblocks P')}
          \<and> pool_frame S P P' \<and> length (cblocks P') \<le> 2 ^ 57
      else am = Cannot_alloc \<or> (\<exists>i < K. \<not> fst (mem i) \<or> \<not> snd (mem i)) \<or> H + 2 ^ 63 \<le> 32 * N1)"

lemma bulk_got_trans:
  assumes got: "bulk_got am mem K H M xs N0 N1 blk1 S1 P1 ok first p' P'"
    and S: "S1 = S \<union> {length (cblocks P)..<length (cblocks P1)}" and fr: "pool_frame S P P1"
    and same: "\<forall>k < N0. blk1 k = blk k"
  shows "bulk_got am mem K H M xs N0 N1 blk S P ok first p' P'"
proof (cases ok)
  case True
  have "pool_frame S P P' \<and> S1 \<union> {length (cblocks P1)..<length (cblocks P')} = S \<union> {length (cblocks P)..<length (cblocks P')}"
    if "pool_frame S1 P1 P'" using that fr unfolding S pool_frame_def by auto
  then show ?thesis using got same True unfolding bulk_got_def by (simp only: if_True) metis
next
  case False
  then show ?thesis using got unfolding bulk_got_def by simp
qed

lemma not_before_head:
  assumes "H \<le> B" "B < H + 2 ^ 63"
  shows "\<not> circular_less_than (of_nat B) (of_nat H)"
proof (cases "H = B")
  case True
  then show ?thesis by (simp add: circular_less_than_def)
next
  case False
  then show ?thesis using assms by (intro circular_less_than_of_nat(2)) auto
qed

lemma xbulk_new_block:
  assumes bulk: "xbulk P p xs L c H M N0 N blk" and few: "32 * Suc N < H + 2 ^ 63" and room: "N - M < 2 ^ c" "ep_blockIndex p \<noteq> None"
    and rep: "pool_rep P F" and dis: "L \<inter> F = {}" and len: "length (cblocks P) \<le> 2 ^ 57" "bok \<longrightarrow> length (cblocks P) < 2 ^ 57"
  shows "\<exists>r P1. requisition_block am bok P = Inr (r, P1) \<and> (case r of
      None \<Rightarrow> am = Cannot_alloc \<or> \<not> bok
    | Some nb \<Rightarrow> \<exists>p1 P2 p2 F2. insert_block nb p (upd_cblock nb (set_all_empty explicit_context) P1) = (p1, P2)
        \<and> add_index_entry (of_nat (32 * N)) (p1\<lparr>pr_blockIndexSlotsUsed := pr_blockIndexSlotsUsed p1 + 1\<rparr>) = Inr p2
        \<and> xbulk P2 p2 xs (insert nb L) c H M N0 (Suc N) (blk(N := nb)) \<and> pool_rep P2 F2 \<and> insert nb L \<inter> F2 = {}
        \<and> insert nb L \<union> F2 = L \<union> F \<union> {length (cblocks P)..<length (cblocks P2)} \<and> pool_frame (L \<union> F) P P2
        \<and> length (cblocks P2) \<le> Suc (length (cblocks P)) \<and> length (cblocks P2) \<le> 2 ^ 57)"
proof -
  note a = xbulkD [OF bulk]
  from requisition_rep [OF rep, of am bok]
  obtain r P1 where r: "requisition_block am bok P = Inr (r, P1)"
    "case r of None \<Rightarrow> P1 = P \<and> F = {} \<and> (am = Cannot_alloc \<or> \<not> bok)
     | Some nb \<Rightarrow> pool_rep P1 (F - {nb}) \<and> nb < length (cblocks P1) \<and> raw_block (cblocks P1 ! nb)
       \<and> length (cblocks P) \<le> length (cblocks P1)
       \<and> (\<forall>m < length (cblocks P). m \<noteq> nb \<longrightarrow> cblocks P1 ! m = cblocks P ! m)
       \<and> (nb \<in> F \<and> length (cblocks P1) = length (cblocks P)
         \<or> F = {} \<and> nb = length (cblocks P) \<and> length (cblocks P1) = Suc nb \<and> am = Can_alloc \<and> bok)"
    by (elim exE conjE) (rule that; assumption)
  show ?thesis
  proof (cases r)
    case None
    then show ?thesis using r by (intro exI [of _ r] exI [of _ P1]) auto
  next
    case (Some nb)
    have nb: "pool_rep P1 (F - {nb})" "nb < length (cblocks P1)" "raw_block (cblocks P1 ! nb)" "length (cblocks P) \<le> length (cblocks P1)"
      "\<And>m. m < length (cblocks P) \<Longrightarrow> m \<noteq> nb \<Longrightarrow> cblocks P1 ! m = cblocks P ! m"
      "nb \<in> F \<and> length (cblocks P1) = length (cblocks P) \<or> F = {} \<and> nb = length (cblocks P) \<and> length (cblocks P1) = Suc nb \<and> bok"
      using r(2) Some by auto
    have fr: "pool_frame {nb} P P1" using nb(4,5) by (simp add: pool_frame_def)
    have "L \<subseteq> {..<length (cblocks P)}" using a(13,14) by auto
    then have nL: "nb \<notin> L" using nb(6) dis by auto
    have bulk1: "xbulk P1 p xs L c H M N0 N blk" by (rule xbulk_frame [OF bulk fr]) (use nL in simp)
    obtain p1 P2 where ins: "insert_block nb p (upd_cblock nb (set_all_empty explicit_context) P1) = (p1, P2)"
      by (cases "insert_block nb p (upd_cblock nb (set_all_empty explicit_context) P1)")
    have dis1: "insert nb L \<inter> (F - {nb}) = {}" using dis by auto
    from xbulk_insert [OF bulk1 few room nL nb(2,3,1) dis1 ins]
    obtain p2 where p2: "add_index_entry (of_nat (32 * N)) (p1\<lparr>pr_blockIndexSlotsUsed := pr_blockIndexSlotsUsed p1 + 1\<rparr>) = Inr p2"
      "xbulk P2 p2 xs (insert nb L) c H M N0 (Suc N) (blk(N := nb))"
      "pool_rep P2 (F - {nb})" "length (cblocks P2) = length (cblocks P1)" "pool_frame (insert nb L) P1 P2"
      by (elim exE conjE) (rule that; assumption)
    have S: "insert nb L \<union> (F - {nb}) = L \<union> F \<union> {length (cblocks P)..<length (cblocks P2)}" using nb(6) p2(4) by auto
    have "pool_frame (insert nb L) P P2" using pool_frame_trans [OF fr p2(5)] by (rule pool_frame_mono) auto
    then have frame: "pool_frame (L \<union> F) P P2" using nb(6) unfolding pool_frame_def by auto
    have "length (cblocks P2) \<le> Suc (length (cblocks P))" "length (cblocks P2) \<le> 2 ^ 57"
      using nb(6) p2(4) len by auto
    then have "\<exists>p1 P2 p2 F2. insert_block nb p (upd_cblock nb (set_all_empty explicit_context) P1) = (p1, P2)
        \<and> add_index_entry (of_nat (32 * N)) (p1\<lparr>pr_blockIndexSlotsUsed := pr_blockIndexSlotsUsed p1 + 1\<rparr>) = Inr p2
        \<and> xbulk P2 p2 xs (insert nb L) c H M N0 (Suc N) (blk(N := nb)) \<and> pool_rep P2 F2 \<and> insert nb L \<inter> F2 = {}
        \<and> insert nb L \<union> F2 = L \<union> F \<union> {length (cblocks P)..<length (cblocks P2)} \<and> pool_frame (L \<union> F) P P2
        \<and> length (cblocks P2) \<le> Suc (length (cblocks P)) \<and> length (cblocks P2) \<le> 2 ^ 57"
      using ins p2(1-3) dis1 S frame by (intro exI conjI) assumption+
    then show ?thesis using r(1) Some by (intro exI [of _ r] exI [of _ P1]) simp
  qed
qed

lemma bulk_requisition_done:
  assumes "xbulk P p xs L c H M N0 N blk" "pool_rep P F" "L \<inter> F = {}" "length (cblocks P) \<le> 2 ^ 57"
  shows "\<exists>ok f first p' P'. Inr ((True, f0, if N0 < N then Some (blk N0) else None), p, P) = (Inr ((ok, f, first), p', P') :: cq_error + _)
    \<and> bulk_got am mem K H M xs N0 N blk (L \<union> F) P ok first p' P'"
proof -
  have "bulk_got am mem K H M xs N0 N blk (L \<union> F) P True (if N0 < N then Some (blk N0) else None) p P"
    unfolding bulk_got_def using assms
    by (simp only: if_True) (intro exI [of _ L] exI [of _ F] exI [of _ c] exI [of _ blk], simp)
  then show ?thesis by blast
qed

lemma bulk_requisition_rep:
  assumes "xbulk P p xs L c H M N0 N blk" "pool_rep P F" "L \<inter> F = {}" "N \<le> N1" "32 * (N1 - N0) < 2 ^ 64" "length (cblocks P) \<le> 2 ^ 57"
    "\<forall>i \<ge> n. snd (mem i) \<longrightarrow> length (cblocks P) + (i - n) < 2 ^ 57" "N1 - N \<le> fuel" "n + (N1 - N) \<le> K"
  shows "\<exists>ok f first p' P'. bulk_requisition fuel am mem used n f0 (of_nat (32 * (N1 - N))) (of_nat (32 * N) - BLOCK_SIZE)
        (if N0 < N then Some (blk N0) else None) p P = Inr ((ok, f, first), p', P')
    \<and> bulk_got am mem K H M xs N0 N1 blk (L \<union> F) P ok first p' P'"
  using assms
proof (induction fuel arbitrary: P p L c N blk F n f0)
  case 0
  then have "N = N1" by simp
  then show ?case using bulk_requisition_done [OF "0.prems"(1-3,6)] by simp
next
  case (Suc fuel)
  note a = xbulkD [OF Suc.prems(1)]
  note count = bulk_counters [OF a(9) Suc.prems(5)]
  have HN: "H \<le> 32 * N" using a(7,9) by linarith
  have nlt: "\<not> circular_less_than (of_nat (32 * N)) (of_nat H)" by (rule not_before_head [OF HN a(5)])
  let ?first = "if N0 < N then Some (blk N0) else None"
  let ?goal = "\<lambda>r. \<exists>ok f first p' P'. r = Inr ((ok, f, first), p', P') \<and> bulk_got am mem K H M xs N0 N1 blk (L \<union> F) P ok first p' P'"
  have fail: "?goal (Inr ((False, f, first), p', P'))" if "am = Cannot_alloc \<or> (\<exists>i < K. \<not> fst (mem i) \<or> \<not> snd (mem i)) \<or> H + 2 ^ 63 \<le> 32 * N1"
    for f first p' and P' :: "'a pool"
    using that by (intro exI [of _ False] exI [of _ f] exI [of _ first] exI [of _ p'] exI [of _ P']) (simp add: bulk_got_def)
  show ?case
  proof (cases "N < N1")
    case False
    then have "N = N1" using Suc.prems(4) by simp
    then show ?thesis using bulk_requisition_done [OF Suc.prems(1-3,6)] by simp
  next
    case more: True
    then have NN: "N < N1" "N1 - Suc N \<le> fuel" "n < K" "Suc n + (N1 - Suc N) \<le> K" using Suc.prems(8,9) by simp_all
    show ?thesis
    proof (cases "is_full (of_nat H) (of_nat (32 * N))")
      case True
      then have "H + 2 ^ 63 \<le> 32 * N1" using full_bound [OF _ HN] NN(1) by fastforce
      moreover have "bulk_requisition (Suc fuel) am mem used n f0 (of_nat (32 * (N1 - N))) (of_nat (32 * N) - BLOCK_SIZE) ?first p P
        = Inr ((False, f0, ?first), p, P)"
        unfolding bulk_requisition.simps Let_def a(2) count(3) using True nlt NN(1) count(1) by (simp del: of_nat_mult)
      ultimately show ?thesis using fail by simp
    next
      case nfull: False
      have few: "32 * Suc N < H + 2 ^ 63" using not_full_bound [OF nfull HN a(5)] by simp
      have "N - M \<le> 2 ^ 57" using xbulk_few [OF Suc.prems(1)] Suc.prems(6) by simp
      from xpend_room [OF a(10) this, of am "fst (mem n)" used]
      obtain ok p0 where idx: "(if ep_blockIndex p = None \<or> pr_blockIndexSlotsUsed p = pr_blockIndexSize p
          then (if am = Cannot_alloc then Inr (False, p) else explicit_new_block_index (fst (mem n)) used p)
          else Inr (True, p)) = (Inr (ok, p0) :: cq_error + bool \<times> explicit_producer)"
        "if ok then \<exists>c' s f h. p0 = p\<lparr>pr_blockIndexSize := s, pr_blockIndexFront := f, ep_blockIndex := Some h\<rparr> \<and> xpend c' p0 M N blk \<and> N - M < 2 ^ c'
         else am = Cannot_alloc \<or> \<not> fst (mem n)"
        by (elim exE conjE) (rule that; assumption)
      define f1 where "f1 = (if ep_blockIndex p = None \<or> pr_blockIndexSlotsUsed p = pr_blockIndexSize p then used else f0)"
      let ?rest = "\<lambda>p. bindE (requisition_block am (snd (mem n)) P)
        (\<lambda>(r, P). case r of
           None \<Rightarrow> Inr ((False, f1, ?first), p, P)
         | Some newBlock \<Rightarrow>
             let P = upd_cblock newBlock (set_all_empty explicit_context) P;
                 (p, P) = insert_block newBlock p P;
                 firstAllocatedBlock = (if ?first = None then Some newBlock else ?first);
                 p = p\<lparr>pr_blockIndexSlotsUsed := pr_blockIndexSlotsUsed p + 1\<rparr>
             in bindE (add_index_entry (of_nat (32 * N)) p)
                  (\<lambda>p. bulk_requisition fuel am mem used (Suc n) f1 (of_nat (32 * (N1 - Suc N))) (of_nat (32 * N)) firstAllocatedBlock p P))"
      have nf: "(N < N1) = True" "is_full (of_nat H) (of_nat (32 * N)) = False" "circular_less_than (of_nat (32 * N)) (of_nat H) = False"
        using nfull nlt NN(1) by simp_all
      have unf: "bulk_requisition (Suc fuel) am mem used n f0 (of_nat (32 * (N1 - N))) (of_nat (32 * N) - BLOCK_SIZE) ?first p P
        = (if \<not> ok then Inr ((False, f0, ?first), p0, P) else ?rest p0)"
        unfolding f1_def bulk_requisition.simps Let_def a(2) count(3) count(1) count(2) [OF NN(1)] nf simp_thms if_True if_False idx(1) bindE_simps prod.case
        by (rule TrueI)
      show ?thesis
      proof (cases ok)
        case False
        then have "am = Cannot_alloc \<or> (\<exists>i < K. \<not> fst (mem i) \<or> \<not> snd (mem i)) \<or> H + 2 ^ 63 \<le> 32 * N1" using idx(2) NN(3) by auto
        then show ?thesis unfolding unf if_P [OF False] by (rule fail)
      next
        case okT: True
        then have okF: "(\<not> ok) = False" by simp
        obtain c' s f h where p0: "p0 = p\<lparr>pr_blockIndexSize := s, pr_blockIndexFront := f, ep_blockIndex := Some h\<rparr>" "xpend c' p0 M N blk" "N - M < 2 ^ c'"
          using idx(2) okT by auto
        have bulk0: "xbulk P p0 xs L c' H M N0 N blk" by (rule xbulkI) (use a p0(2) in \<open>simp_all add: p0(1)\<close>)
        have h: "ep_blockIndex p0 \<noteq> None" by (simp add: p0(1))
        have bok: "snd (mem n) \<longrightarrow> length (cblocks P) < 2 ^ 57" using spec [OF Suc.prems(7), of n] by simp
        from xbulk_new_block [OF bulk0 few p0(3) h Suc.prems(2,3,6) bok, of am]
        obtain r P1 where r: "requisition_block am (snd (mem n)) P = Inr (r, P1)" "case r of
            None \<Rightarrow> am = Cannot_alloc \<or> \<not> snd (mem n)
          | Some nb \<Rightarrow> \<exists>p1 P2 p2 F2. insert_block nb p0 (upd_cblock nb (set_all_empty explicit_context) P1) = (p1, P2)
              \<and> add_index_entry (of_nat (32 * N)) (p1\<lparr>pr_blockIndexSlotsUsed := pr_blockIndexSlotsUsed p1 + 1\<rparr>) = Inr p2
              \<and> xbulk P2 p2 xs (insert nb L) c' H M N0 (Suc N) (blk(N := nb)) \<and> pool_rep P2 F2 \<and> insert nb L \<inter> F2 = {}
              \<and> insert nb L \<union> F2 = L \<union> F \<union> {length (cblocks P)..<length (cblocks P2)} \<and> pool_frame (L \<union> F) P P2
              \<and> length (cblocks P2) \<le> Suc (length (cblocks P)) \<and> length (cblocks P2) \<le> 2 ^ 57"
          by (elim exE conjE) (rule that; assumption)
        show ?thesis
        proof (cases r)
          case None
          then have "?rest p0 = Inr ((False, f1, ?first), p0, P1)" using r(1) by simp
          moreover have "am = Cannot_alloc \<or> (\<exists>i < K. \<not> fst (mem i) \<or> \<not> snd (mem i)) \<or> H + 2 ^ 63 \<le> 32 * N1" using r(2) None NN(3) by auto
          ultimately show ?thesis unfolding unf okF if_False using fail by simp
        next
          case (Some nb)
          obtain p1 P2 p2 F2 where ins: "insert_block nb p0 (upd_cblock nb (set_all_empty explicit_context) P1) = (p1, P2)"
            and p2: "add_index_entry (of_nat (32 * N)) (p1\<lparr>pr_blockIndexSlotsUsed := pr_blockIndexSlotsUsed p1 + 1\<rparr>) = Inr p2"
              "xbulk P2 p2 xs (insert nb L) c' H M N0 (Suc N) (blk(N := nb))" "pool_rep P2 F2"
            and dis1: "insert nb L \<inter> F2 = {}" and S: "insert nb L \<union> F2 = L \<union> F \<union> {length (cblocks P)..<length (cblocks P2)}"
            and frame: "pool_frame (L \<union> F) P P2" and len: "length (cblocks P2) \<le> Suc (length (cblocks P))" "length (cblocks P2) \<le> 2 ^ 57"
            using r(2) unfolding Some option.simps by (elim exE conjE) (rule that; assumption)
          have mem: "\<forall>i \<ge> Suc n. snd (mem i) \<longrightarrow> length (cblocks P2) + (i - Suc n) < 2 ^ 57"
          proof (intro allI impI)
            fix i assume i: "Suc n \<le> i" "snd (mem i)"
            then have "length (cblocks P) + (i - n) < 2 ^ 57" using Suc.prems(7) by simp
            moreover have "i - n = Suc (i - Suc n)" using i(1) by simp
            ultimately show "length (cblocks P2) + (i - Suc n) < 2 ^ 57" using len(1) by simp
          qed
          have first: "(if ?first = None then Some nb else ?first) = (if N0 < Suc N then Some ((blk(N := nb)) N0) else None)" using a(9) by auto
          have step: "?rest p0 = bulk_requisition fuel am mem used (Suc n) f1 (of_nat (32 * (N1 - Suc N))) (of_nat (32 * Suc N) - BLOCK_SIZE)
              (if N0 < Suc N then Some ((blk(N := nb)) N0) else None) p2 P2"
            unfolding r(1) Some bindE_simps prod.case option.simps Let_def ins p2(1) first by (simp only: count(4))
          have same: "\<forall>k < N0. (blk(N := nb)) k = blk k" using a(9) by simp
          have le: "Suc N \<le> N1" using NN(1) by simp
          from Suc.IH [OF p2(2,3) dis1 le Suc.prems(5) len(2) mem NN(2,4), of f1]
          obtain ok f first p' P' where ih: "bulk_requisition fuel am mem used (Suc n) f1 (of_nat (32 * (N1 - Suc N))) (of_nat (32 * Suc N) - BLOCK_SIZE)
              (if N0 < Suc N then Some ((blk(N := nb)) N0) else None) p2 P2 = Inr ((ok, f, first), p', P')"
            "bulk_got am mem K H M xs N0 N1 (blk(N := nb)) (insert nb L \<union> F2) P2 ok first p' P'"
            by (elim exE conjE) (rule that; assumption)
          show ?thesis unfolding unf okF if_False step ih(1) using bulk_got_trans [OF ih(2) S frame same] by blast
        qed
      qed
    qed
  qed
qed

end
