(* ===== verification/ExplicitBulkPut.thy ===== *)
theory ExplicitBulkPut
  imports ExplicitBulk
begin

text \<open>
  \<open>source/utils/concurrentqueue.h\<close>: that \<open>ExplicitProducer::enqueue_bulk\<close>, modelled in \<open>ExplicitBulk\<close>, adds all its elements when it reports
  success, and what it leaves behind when it does not.
\<close>

subsection \<open>Resetting the marks\<close>

text \<open>Resetting the marks makes the blocks fit for the next positions.\<close>

lemma bulk_reset_rep:
  assumes "k < N" "N - k \<le> fuel" "inj_on blk {k..<N}" "pool_rep P F"
    "\<And>l. k \<le> l \<Longrightarrow> l < N \<Longrightarrow> blk l < length (cblocks P) \<and> blk l \<notin> F"
    "\<And>l. k \<le> l \<Longrightarrow> Suc l < N \<Longrightarrow> block_next (cblocks P ! blk l) = Some (blk (Suc l))"
  shows "\<exists>P'. bulk_reset fuel (Some (blk (N - 1))) (blk k) P = Inr P' \<and> pool_rep P' F \<and> length (cblocks P') = length (cblocks P)
    \<and> (\<forall>m. m \<notin> blk ` {k..<N} \<longrightarrow> cblocks P' ! m = cblocks P ! m)
    \<and> (\<forall>l. k \<le> l \<and> l < N \<longrightarrow> cblocks P' ! blk l = reset_empty explicit_context (cblocks P ! blk l))"
  using assms
proof (induction fuel arbitrary: k P)
  case (Suc fuel)
  let ?P = "upd_cblock (blk k) (reset_empty explicit_context) P"
  have b: "blk k < length (cblocks P)" "blk k \<notin> F" using Suc.prems(5) [of k] Suc.prems(1) by auto
  have pool: "pool_rep ?P F"
    using pool_rep_wf [OF Suc.prems(4) b(1)] b(2) by (intro pool_rep_write [OF Suc.prems(4)]) (simp_all add: block_wf_def reset_empty_def)
  have blocks: "cblocks ?P ! m = (if m = blk k then reset_empty explicit_context (cblocks P ! blk k) else cblocks P ! m)" for m
    using b(1) by simp
  show ?case
  proof (cases "Suc k = N")
    case True
    then have one: "{k..<N} = {k}" "N - 1 = k" by auto
    have "bulk_reset (Suc fuel) (Some (blk (N - 1))) (blk k) P = Inr ?P" unfolding one by (simp add: Let_def)
    moreover have "\<forall>m. m \<notin> blk ` {k..<N} \<longrightarrow> cblocks ?P ! m = cblocks P ! m" unfolding one blocks by simp
    moreover have "\<forall>l. k \<le> l \<and> l < N \<longrightarrow> cblocks ?P ! blk l = reset_empty explicit_context (cblocks P ! blk l)"
      unfolding blocks using True by (auto simp: less_Suc_eq_le)
    ultimately show ?thesis using pool by (intro exI [of _ ?P]) simp
  next
    case False
    then have k: "Suc k < N" "N - Suc k \<le> fuel" using Suc.prems(1,2) by auto
    have neq: "blk l \<noteq> blk k" if "Suc k \<le> l" "l < N" for l using inj_range [OF Suc.prems(3), of l k] that k by auto
    have inj: "inj_on blk {Suc k..<N}" using Suc.prems(3) by (rule inj_on_subset) auto
    have own: "blk l < length (cblocks ?P) \<and> blk l \<notin> F" if "Suc k \<le> l" "l < N" for l using Suc.prems(5) [of l] that by simp
    have nx: "block_next (cblocks ?P ! blk l) = Some (blk (Suc l))" if "Suc k \<le> l" "Suc l < N" for l
      using Suc.prems(6) [of l] neq [of l] that unfolding blocks by simp
    obtain P' where P': "bulk_reset fuel (Some (blk (N - 1))) (blk (Suc k)) ?P = Inr P'" "pool_rep P' F" "length (cblocks P') = length (cblocks ?P)"
      "\<forall>m. m \<notin> blk ` {Suc k..<N} \<longrightarrow> cblocks P' ! m = cblocks ?P ! m"
      "\<forall>l. Suc k \<le> l \<and> l < N \<longrightarrow> cblocks P' ! blk l = reset_empty explicit_context (cblocks ?P ! blk l)"
      using Suc.IH [OF k inj pool own nx] by blast
    have last: "Suc k \<le> N - 1" "N - 1 < N" using k(1) by auto
    have "blk k \<noteq> blk (N - 1)" using neq [OF last] by simp
    moreover have "block_next (cblocks ?P ! blk k) = Some (blk (Suc k))" using Suc.prems(6) [of k] k(1) unfolding blocks by (simp add: reset_empty_def)
    ultimately have "bulk_reset (Suc fuel) (Some (blk (N - 1))) (blk k) P = Inr P'" using P'(1) by (simp add: Let_def)
    moreover have range: "{k..<N} = insert k {Suc k..<N}" using k by auto
    moreover have at: "cblocks P' ! blk k = reset_empty explicit_context (cblocks P ! blk k)"
    proof -
      have "blk k \<notin> blk ` {Suc k..<N}" using neq by force
      then show ?thesis using P'(4) unfolding blocks by simp
    qed
    moreover have "\<forall>l. k \<le> l \<and> l < N \<longrightarrow> cblocks P' ! blk l = reset_empty explicit_context (cblocks P ! blk l)"
    proof (intro allI impI)
      fix l assume l: "k \<le> l \<and> l < N"
      show "cblocks P' ! blk l = reset_empty explicit_context (cblocks P ! blk l)"
      proof (cases "l = k")
        case False
        then have "Suc k \<le> l" using l by simp
        then show ?thesis using P'(5) neq [of l] l unfolding blocks by simp
      qed (use at in simp)
    qed
    ultimately show ?thesis using P'(2-4) by (intro exI [of _ P']) simp
  qed
qed simp

lemma xbulk_ready:
  assumes bulk: "xbulk P p xs L c H M N0 N blk" and rep: "pool_rep P F" and dis: "L \<inter> F = {}" and N: "N0 < N"
  shows "\<exists>P'. bulk_reset (length (cblocks P)) (ep_tailBlock p) (blk N0) P = Inr P' \<and> xprod_core P' (xpub p) xs L c H M N blk
    \<and> pool_rep P' F \<and> length (cblocks P') = length (cblocks P) \<and> pool_frame L P P'"
proof -
  note a = xbulkD [OF bulk]
  have tl: "ep_tailBlock p = Some (blk (N - 1))" using a(8,11) N by simp
  have fuel: "N - N0 \<le> length (cblocks P)" using xbulk_few [OF bulk] a(8) by simp
  have inj: "inj_on blk {N0..<N}" using a(12) by (rule inj_on_subset) (use a(8) in auto)
  have own: "blk l < length (cblocks P) \<and> blk l \<notin> F" if "N0 \<le> l" "l < N" for l
  proof -
    have l: "M \<le> l" using that a(8) by simp
    then have "blk l \<in> L" unfolding a(13) using that by simp
    then show ?thesis using dis a(14) [OF l that(2)] by blast
  qed
  have nx: "block_next (cblocks P ! blk l) = Some (blk (Suc l))" if "N0 \<le> l" "Suc l < N" for l
    using a(16) [of l] that a(8) by (simp add: ring_next_def)
  obtain P' where P': "bulk_reset (length (cblocks P)) (Some (blk (N - 1))) (blk N0) P = Inr P'" "pool_rep P' F" "length (cblocks P') = length (cblocks P)"
    "\<forall>m. m \<notin> blk ` {N0..<N} \<longrightarrow> cblocks P' ! m = cblocks P ! m"
    "\<forall>l. N0 \<le> l \<and> l < N \<longrightarrow> cblocks P' ! blk l = reset_empty explicit_context (cblocks P ! blk l)"
    using bulk_reset_rep [OF N fuel inj rep own nx] by blast
  have old: "cblocks P' ! blk k = cblocks P ! blk k" if k: "M \<le> k" "k < N0" for k
  proof -
    have "blk k \<notin> blk ` {N0..<N}"
    proof
      assume "blk k \<in> blk ` {N0..<N}"
      then obtain l where "blk k = blk l" "N0 \<le> l" "l < N" by auto
      then show False using inj_range [OF a(12), of k l] k N by auto
    qed
    then show ?thesis using P'(4) by simp
  qed
  have "xprod_core P' (xpub p) xs L c H M N blk"
  proof (rule xprod_coreI)
    show "xindex_rep c (xpub p) M N blk" using a(10) by (simp add: xpend_def)
    show "xblock_holds (cblocks P' ! blk k) H xs k" if k: "M \<le> k" "k < N" for k
    proof (cases "k < N0")
      case True
      then show ?thesis using a(15) [OF k] old [OF k(1)] by (simp add: xready_def)
    next
      case False
      then have "fresh_block (cblocks P' ! blk k)" using a(15) [OF k] P'(5) k reset_fresh [of "cblocks P ! blk k"] by (simp add: xready_def)
      moreover have "H + length xs \<le> 32 * k" using a(7) False by linarith
      ultimately show ?thesis by (rule fresh_block_holds)
    qed
    show "block_next (cblocks P' ! blk k) = Some (blk (ring_next M N k))" if k: "M \<le> k" "k < N" for k
      using a(16) [OF k] old [OF k(1)] P'(5) k by (cases "k < N0") (simp_all add: reset_empty_def)
  qed (use a P'(3) in \<open>simp_all add: xpub_def\<close>)
  moreover have "pool_frame L P P'"
  proof -
    have "blk ` {N0..<N} \<subseteq> L" unfolding a(13) using a(8) by (intro image_mono) auto
    then have "cblocks P' ! n = cblocks P ! n" if "n \<notin> L" for n using P'(4) that by blast
    then show ?thesis using P'(3) by (simp add: pool_frame_def)
  qed
  ultimately show ?thesis using P'(1-3) unfolding tl by blast
qed

subsection \<open>Putting the elements into the blocks\<close>

lemma explicit_fill_step:
  assumes "ep_tailBlock p = Some b" "b < length (cblocks P)" "put_elements stop cur items (cblocks P ! b) = Inr (items', bk)"
  shows "explicit_fill stop cur items p P = Inr (items', upd_cblock b (\<lambda>_. bk) P)"
proof (cases "cur = stop")
  case True
  then have "items' = items" "bk = cblocks P ! b" using assms(3) by (simp_all add: put_elements.simps)
  then show ?thesis using True by (simp add: explicit_fill_def)
next
  case False
  then show ?thesis using assms by (simp add: explicit_fill_def)
qed

lemma xprod_core_cong:
  assumes "xprod_core P p xs L c H M N blk" "ep_tailIndex p' = ep_tailIndex p" "ep_headIndex p' = ep_headIndex p"
    "ep_dequeueOptimisticCount p' = ep_dequeueOptimisticCount p" "ep_dequeueOvercommit p' = ep_dequeueOvercommit p"
    "ep_tailBlock p' = ep_tailBlock p" "ep_blockIndex p' = ep_blockIndex p" "pr_blockIndexSlotsUsed p' = pr_blockIndexSlotsUsed p"
    "pr_blockIndexSize p' = pr_blockIndexSize p" "pr_blockIndexFront p' = pr_blockIndexFront p"
  shows "xprod_core P p' xs L c H M N blk"
proof -
  have "p' = p" using assms(2-) by (cases p; cases p') simp
  then show ?thesis using assms(1) by simp
qed

text \<open>Filling the block of the tail, up to its end or to the last element; \<open>ep_tailBlock\<close> moves along with it.\<close>

lemma explicit_fill_rep:
  assumes core: "xprod_core P (p\<lparr>ep_tailIndex := of_nat (H + length xs), ep_tailBlock := Some (blk (N - 1))\<rparr>) xs L c H M N blk"
    and rep: "pool_rep P F" "L \<inter> F = {}" and q: "q = (H + length xs) div 32" "q < N" and tb: "ep_tailBlock p = Some (blk q)"
    and j: "H + length xs + j \<le> 32 * q + 32" "j \<le> length items"
  shows "\<exists>P1. explicit_fill (of_nat (H + length xs + j)) (of_nat (H + length xs)) items p P = Inr (drop j items, P1)
    \<and> xprod_core P1 (p\<lparr>ep_tailIndex := of_nat (H + length (xs @ take j items)), ep_tailBlock := Some (blk (N - 1))\<rparr>) (xs @ take j items) L c H M N blk
    \<and> pool_rep P1 F \<and> pool_frame L P P1 \<and> length (cblocks P1) = length (cblocks P)
    \<and> (\<forall>m. block_next (cblocks P1 ! m) = block_next (cblocks P ! m))"
proof -
  note a = xprod_coreD [OF core]
  have Hq: "M \<le> q" "32 * q \<le> H + length xs" using q(1) a(6) order.trans [OF a(6), of q] by (simp_all add: div_le_mono)
  have b: "blk q < length (cblocks P)" "blk q \<in> L" using a(11) [OF Hq(1) q(2)] a(10) Hq(1) q(2) by auto
  then have bF: "blk q \<notin> F" using rep(2) by blast
  have sl: "slots_hold (elements (cblocks P ! blk q)) H xs q" using a(12) [OF Hq(1) q(2)] by (simp add: xblock_holds_def)
  obtain es where es: "put_elements (of_nat (H + length xs + j)) (of_nat (H + length xs)) items (cblocks P ! blk q)
      = Inr (drop j items, (cblocks P ! blk q)\<lparr>elements := es\<rparr>)" "slots_hold es H (xs @ take j items) q"
    using put_elements_rep [OF sl Hq(2) j] by blast
  define P1 where "P1 = upd_cblock (blk q) (\<lambda>_. (cblocks P ! blk q)\<lparr>elements := es\<rparr>) P"
  have fill: "explicit_fill (of_nat (H + length xs + j)) (of_nat (H + length xs)) items p P = Inr (drop j items, P1)"
    unfolding P1_def by (rule explicit_fill_step [OF tb b(1) es(1)])
  have blocks: "cblocks P1 ! m = (if m = blk q then (cblocks P ! blk q)\<lparr>elements := es\<rparr> else cblocks P ! m)" for m
    using b(1) by (simp add: P1_def)
  have "pool_rep P1 F"
    unfolding P1_def using es(2) pool_rep_wf [OF rep(1) b(1)]
    by (intro pool_rep_write [OF rep(1) bF]) (simp_all add: block_wf_def slots_hold_def)
  moreover have "xprod_core P1 (p\<lparr>ep_tailIndex := of_nat (H + length (xs @ take j items)), ep_tailBlock := Some (blk (N - 1))\<rparr>) (xs @ take j items) L c H M N blk"
  proof (rule xprod_coreI)
    show "xindex_rep c (p\<lparr>ep_tailIndex := of_nat (H + length (xs @ take j items)), ep_tailBlock := Some (blk (N - 1))\<rparr>) M N blk"
      by (rule xindex_rep_cong [OF a(7)]) simp_all
    show "blk k < length (cblocks P1)" if "M \<le> k" "k < N" for k using a(11) [OF that] by (simp add: P1_def)
    show "xblock_holds (cblocks P1 ! blk k) H (xs @ take j items) k" if k: "M \<le> k" "k < N" for k
    proof (cases "k = q")
      case True
      then show ?thesis using es(2) a(12) [OF k] by (simp add: blocks xblock_holds_def)
    next
      case False
      then have "blk k \<noteq> blk q" using inj_range [OF a(9) k Hq(1) q(2)] by simp
      moreover have "slots_hold (elements (cblocks P ! blk k)) H (xs @ take j items) k"
      proof (rule slots_hold_other)
        show "slots_hold (elements (cblocks P ! blk k)) H xs k" using a(12) [OF k] by (simp add: xblock_holds_def)
        show "H + length xs + length (take j items) \<le> 32 * k \<or> 32 * k + 32 \<le> H + length xs"
          using False j Hq(2) by simp linarith
      qed
      ultimately show ?thesis using a(12) [OF k] by (simp add: blocks xblock_holds_def)
    qed
    show "block_next (cblocks P1 ! blk k) = Some (blk (ring_next M N k))" if k: "M \<le> k" "k < N" for k
      using a(13) [OF k] by (auto simp: blocks)
  qed (use a Hq(1) q(2) in \<open>simp_all\<close>)
  moreover have "pool_frame L P P1" unfolding P1_def by (rule pool_frame_upd [OF b(2)])
  moreover have "length (cblocks P1) = length (cblocks P)" by (simp add: P1_def)
  moreover have "\<forall>m. block_next (cblocks P1 ! m) = block_next (cblocks P ! m)" by (simp add: blocks)
  ultimately show ?thesis using fill by blast
qed

lemma explicit_bulk_put_rep:
  assumes "xprod_core P (p\<lparr>ep_tailIndex := of_nat (H + length xs), ep_tailBlock := Some (blk (N - 1))\<rparr>) xs L c H M N blk" "pool_rep P F" "L \<inter> F = {}"
    "N = (H + length xs + n + 31) div 32" "(H + length xs) div 32 < N" "ep_tailBlock p = Some (blk ((H + length xs) div 32))"
    "n \<le> length items" "n < 2 ^ 63" "N - (H + length xs) div 32 \<le> fuel"
  shows "\<exists>P'. explicit_bulk_put fuel (of_nat (H + length xs + n)) (Some (blk (N - 1))) (of_nat (H + length xs)) items p P
      = Inr (p\<lparr>ep_tailBlock := Some (blk (N - 1))\<rparr>, P')
    \<and> xprod_core P' (p\<lparr>ep_tailIndex := of_nat (H + length xs + n), ep_tailBlock := Some (blk (N - 1))\<rparr>) (xs @ take n items) L c H M N blk
    \<and> pool_rep P' F \<and> pool_frame L P P' \<and> length (cblocks P') = length (cblocks P)"
  using assms
proof (induction fuel arbitrary: P p xs n items)
  case 0
  then show ?case by simp
next
  case (Suc fuel)
  define T where "T = H + length xs"
  define q where "q = T div 32"
  define j where "j = min n (32 - T mod 32)"
  note prems = Suc.prems [folded T_def, folded q_def]
  note run = run_in_block [where T = T and n = n, folded q_def j_def prems(4)]
  note a = xprod_coreD [OF Suc.prems(1)]
  have jl: "j \<le> length items" using run(2) prems(7) by simp
  obtain P1 where P1: "explicit_fill (of_nat (T + j)) (of_nat T) items p P = Inr (drop j items, P1)"
    "xprod_core P1 (p\<lparr>ep_tailIndex := of_nat (H + length (xs @ take j items)), ep_tailBlock := Some (blk (N - 1))\<rparr>) (xs @ take j items) L c H M N blk"
    "pool_rep P1 F" "pool_frame L P P1" "length (cblocks P1) = length (cblocks P)"
    "\<forall>m. block_next (cblocks P1 ! m) = block_next (cblocks P ! m)"
    using explicit_fill_rep [OF Suc.prems(1-3), of q j items] prems(5,6) run(1) jl unfolding T_def q_def by blast
  have stop: "bulk_end (of_nat (T + n)) (of_nat T) = of_nat (T + j)" unfolding j_def by (rule bulk_end_rep [OF prems(8)])
  have len: "H + length (xs @ take j items) = T + j" using jl by (simp add: T_def)
  have "H div 32 \<le> q" by (simp add: q_def T_def div_le_mono)
  then have Mq: "M \<le> q" using a(6) by simp
  have same: "blk q = blk (N - 1) \<longleftrightarrow> j = n"
  proof -
    have "M \<le> N - 1" "N - 1 < N" using Mq prems(5) by linarith+
    then show ?thesis using inj_range [OF a(9) Mq prems(5), of "N - 1"] run(3) prems(5) by simp
  qed
  show ?case
  proof (cases "j = n")
    case True
    then have eqs: "ep_tailBlock p = Some (blk (N - 1))" "p\<lparr>ep_tailBlock := Some (blk (N - 1))\<rparr> = p" using same prems(6) by simp_all
    have "explicit_bulk_put (Suc fuel) (of_nat (T + n)) (Some (blk (N - 1))) (of_nat T) items p P = Inr (p, P1)"
      unfolding explicit_bulk_put.simps Let_def stop P1(1) using eqs(1) True by simp
    moreover have "xprod_core P1 (p\<lparr>ep_tailIndex := of_nat (T + n), ep_tailBlock := Some (blk (N - 1))\<rparr>) (xs @ take n items) L c H M N blk"
      using P1(2) len unfolding True by (simp only:)
    ultimately show ?thesis using P1(3-5) eqs(2) unfolding T_def [symmetric] by (intro exI [of _ P1] conjI) simp_all
  next
    case False
    then have jn: "j < n" using run(2) by simp
    let ?p = "p\<lparr>ep_tailBlock := Some (blk (Suc q))\<rparr>"
    have "block_next (cblocks P ! blk q) = Some (blk (Suc q))" using a(13) [OF Mq prems(5)] run(5) [OF jn] by (simp add: ring_next_def)
    then have nx: "block_next (cblocks P1 ! blk q) = Some (blk (Suc q))" using P1(6) by simp
    have step: "explicit_bulk_put (Suc fuel) (of_nat (T + n)) (Some (blk (N - 1))) (of_nat T) items p P
        = explicit_bulk_put fuel (of_nat (T + n)) (Some (blk (N - 1))) (of_nat (T + j)) (drop j items) ?p P1"
      unfolding explicit_bulk_put.simps Let_def stop P1(1) using same False prems(6) nx by simp
    have "\<exists>P'. explicit_bulk_put fuel (of_nat (H + length (xs @ take j items) + (n - j))) (Some (blk (N - 1))) (of_nat (H + length (xs @ take j items)))
          (drop j items) ?p P1 = Inr (?p\<lparr>ep_tailBlock := Some (blk (N - 1))\<rparr>, P')
        \<and> xprod_core P' (?p\<lparr>ep_tailIndex := of_nat (H + length (xs @ take j items) + (n - j)), ep_tailBlock := Some (blk (N - 1))\<rparr>)
            ((xs @ take j items) @ take (n - j) (drop j items)) L c H M N blk
        \<and> pool_rep P' F \<and> pool_frame L P1 P' \<and> length (cblocks P') = length (cblocks P1)"
    proof (rule Suc.IH)
      show "xprod_core P1 (?p\<lparr>ep_tailIndex := of_nat (H + length (xs @ take j items)), ep_tailBlock := Some (blk (N - 1))\<rparr>) (xs @ take j items) L c H M N blk"
        by (rule xprod_core_cong [OF P1(2)]) simp_all
      show "N = (H + length (xs @ take j items) + (n - j) + 31) div 32" unfolding len using prems(4) jn by simp
      show "pool_rep P1 F" "L \<inter> F = {}" "n - j \<le> length (drop j items)" "n - j < 2 ^ 63"
        using P1(3) prems(3,7,8) by simp_all
      show "(H + length (xs @ take j items)) div 32 < N" "ep_tailBlock ?p = Some (blk ((H + length (xs @ take j items)) div 32))"
        "N - (H + length (xs @ take j items)) div 32 \<le> fuel"
        unfolding len run(4) [OF jn] using run(5) [OF jn] prems(9) by simp_all
    qed
    then obtain P' where P': "explicit_bulk_put fuel (of_nat (T + n)) (Some (blk (N - 1))) (of_nat (T + j)) (drop j items) ?p P1
          = Inr (p\<lparr>ep_tailBlock := Some (blk (N - 1))\<rparr>, P')"
        "xprod_core P' (?p\<lparr>ep_tailIndex := of_nat (T + n), ep_tailBlock := Some (blk (N - 1))\<rparr>) ((xs @ take j items) @ take (n - j) (drop j items)) L c H M N blk"
        "pool_rep P' F" "pool_frame L P1 P'" "length (cblocks P') = length (cblocks P1)"
      unfolding len using jn by auto
    have tk: "(xs @ take j items) @ take (n - j) (drop j items) = xs @ take n items" using jn by (simp add: take_add [symmetric])
    have "xprod_core P' (p\<lparr>ep_tailIndex := of_nat (T + n), ep_tailBlock := Some (blk (N - 1))\<rparr>) (xs @ take n items) L c H M N blk"
      by (rule xprod_core_cong [OF P'(2) [unfolded tk]]) simp_all
    moreover have "pool_frame L P P'" using pool_frame_trans [OF P1(4) P'(4)] by simp
    ultimately show ?thesis using step P'(1,3,5) P1(5) unfolding T_def [symmetric] by (intro exI [of _ P'] conjI) simp_all
  qed
qed

subsection \<open>All elements\<close>

text \<open>The part that obtains the blocks: when it succeeds, the next blocks are ready to be filled and the block index shows them.\<close>

lemma bulk_blocks_for_rep:
  assumes core: "xprod_core P p xs L c H M N0 blk" and T: "H + length xs \<le> 32 * N0" and rep: "pool_rep P F" and dis: "L \<inter> F = {}"
    and len: "length (cblocks P) \<le> 2 ^ 57" and mem: "\<forall>i. snd (mem i) \<longrightarrow> length (cblocks P) + i < 2 ^ 57"
    and N: "N0 < N1" "32 * (N1 - N0) < 2 ^ 64"
  shows "\<exists>ok first p' P'. bulk_blocks_for am mem (of_nat (32 * (N1 - N0))) (of_nat (32 * N0) - BLOCK_SIZE) p P = Inr ((ok, first), p', P')
    \<and> (if ok then \<exists>L' F' c' M' blk'. first = Some (blk' N0) \<and> xprod_core P' p' xs L' c' H M' N1 blk' \<and> M' \<le> N0 \<and> (\<forall>k < N0. blk' k = blk k)
         \<and> pool_rep P' F' \<and> L' \<inter> F' = {} \<and> L' \<union> F' = L \<union> F \<union> {length (cblocks P)..<length (cblocks P')}
         \<and> pool_frame (L \<union> F) P P' \<and> length (cblocks P') \<le> 2 ^ 57
       else am = Cannot_alloc \<or> (\<exists>i < N1 - N0. \<not> fst (mem i) \<or> \<not> snd (mem i)) \<or> H + 2 ^ 63 \<le> 32 * N1)"
proof -
  have bulk: "xbulk P p xs L c H M N0 N0 blk" by (rule xbulk_start [OF core T])
  have pos: "((of_nat (32 * (N1 - N0)) :: u64) > 0) = True" using bulk_counters(1) [OF order.refl N(2)] N(1) by simp
  have passes: "unat (of_nat (32 * (N1 - N0)) :: u64) div unat BLOCK_SIZE = N1 - N0"
    using N(2) by (simp add: unat_of_nat del: of_nat_mult)
  have le: "N0 \<le> N1" "N1 - N0 < Suc (N1 - N0)" using N(1) by simp_all
  from bulk_reuse_rep [OF bulk le(1) N(2) len le(2)]
  obtain p1 M1 N2 blk1 where reuse: "bulk_reuse (Suc (N1 - N0)) (of_nat (32 * (N1 - N0))) (of_nat (32 * N0) - BLOCK_SIZE) None p P
      = Inr ((of_nat (32 * (N1 - N2)), of_nat (32 * N2) - BLOCK_SIZE, if N0 < N2 then Some (blk1 N0) else None), p1)"
    "N2 \<le> N1" "N0 \<le> N2" "xbulk P p1 xs L c H M1 N0 N2 blk1" "\<forall>k < N0. blk1 k = blk k"
    unfolding if_not_P [OF less_irrefl] by (elim exE conjE) (rule that; assumption)
  have few: "N1 - N2 \<le> N1 - N0" "0 + (N1 - N2) \<le> N1 - N0" using reuse(3) by simp_all
  have mem0: "\<forall>i \<ge> 0. snd (mem i) \<longrightarrow> length (cblocks P) + (i - 0) < 2 ^ 57" using mem by simp
  from bulk_requisition_rep [OF reuse(4) rep dis reuse(2) N(2) len mem0 few, of am "pr_blockIndexSlotsUsed p" "pr_blockIndexFront p"]
  obtain ok f first p2 P2 where req: "bulk_requisition (N1 - N0) am mem (pr_blockIndexSlotsUsed p) 0 (pr_blockIndexFront p)
      (of_nat (32 * (N1 - N2))) (of_nat (32 * N2) - BLOCK_SIZE) (if N0 < N2 then Some (blk1 N0) else None) p1 P = Inr ((ok, f, first), p2, P2)"
    "bulk_got am mem (N1 - N0) H M1 xs N0 N1 blk1 (L \<union> F) P ok first p2 P2"
    by (elim exE conjE) (rule that; assumption)
  note unf = bulk_blocks_for_def [of am mem "of_nat (32 * (N1 - N0))" "of_nat (32 * N0) - BLOCK_SIZE" p P, unfolded Let_def passes pos
      reuse(1) simp_thms if_False bindE_simps prod.case req(1)]
  show ?thesis
  proof (cases ok)
    case False
    show ?thesis using req(2) False unfolding bulk_got_def unf by auto
  next
    case True
    obtain L' F' c' blk' where g: "first = Some (blk' N0)" "xbulk P2 p2 xs L' c' H M1 N0 N1 blk'" "\<forall>k < N0. blk' k = blk1 k"
      "pool_rep P2 F'" "L' \<inter> F' = {}" "L' \<union> F' = L \<union> F \<union> {length (cblocks P)..<length (cblocks P2)}"
      "pool_frame (L \<union> F) P P2" "length (cblocks P2) \<le> 2 ^ 57"
      using req(2) True N(1) unfolding bulk_got_def by auto
    from xbulk_ready [OF g(2,4,5) N(1)]
    obtain P3 where P3: "bulk_reset (length (cblocks P2)) (ep_tailBlock p2) (blk' N0) P2 = Inr P3" "xprod_core P3 (xpub p2) xs L' c' H M1 N1 blk'"
      "pool_rep P3 F'" "length (cblocks P3) = length (cblocks P2)" "pool_frame L' P2 P3"
      by (elim exE conjE) (rule that; assumption)
    have same: "\<forall>k < N0. blk' k = blk k" using g(3) reuse(5) by simp
    have M: "M1 \<le> N0" using xbulkD(8) [OF g(2)] .
    have "pool_frame (L \<union> F) P P3" using g(6,7) P3(5) unfolding pool_frame_def by auto
    then have "\<exists>L' F' c' M' blk'. first = Some (blk' N0) \<and> xprod_core P3 (xpub p2) xs L' c' H M' N1 blk' \<and> M' \<le> N0 \<and> (\<forall>k < N0. blk' k = blk k)
         \<and> pool_rep P3 F' \<and> L' \<inter> F' = {} \<and> L' \<union> F' = L \<union> F \<union> {length (cblocks P)..<length (cblocks P3)}
         \<and> pool_frame (L \<union> F) P P3 \<and> length (cblocks P3) \<le> 2 ^ 57"
      using P3(2,3) g(1,5,6,8) M same unfolding P3(4) by blast
    moreover have "bulk_blocks_for am mem (of_nat (32 * (N1 - N0))) (of_nat (32 * N0) - BLOCK_SIZE) p P = Inr ((True, first), xpub p2, P3)"
      unfolding unf xpub_def using True g(1) P3(1) by simp
    ultimately show ?thesis by (intro exI [of _ True] exI [of _ first] exI [of _ "xpub p2"] exI [of _ P3]) simp
  qed
qed

lemma explicit_put_all:
  assumes core: "xprod_core P p xs L c H M N blk" and rep: "pool_rep P F" and dis: "L \<inter> F = {}" and n: "n \<le> length items" "n < 2 ^ 63"
    and N: "N = (H + length xs + n + 31) div 32" and more: "(H + length xs) div 32 < N" and v: "v = Some (blk ((H + length xs) div 32))"
    and fuel: "N - (H + length xs) div 32 \<le> fuel"
  shows "\<exists>p2 P2. explicit_bulk_put fuel (of_nat (H + length xs + n)) (ep_tailBlock p) (of_nat (H + length xs)) items (p\<lparr>ep_tailBlock := v\<rparr>) P = Inr (p2, P2)
    \<and> xprod_rep P2 (p2\<lparr>ep_tailIndex := of_nat (H + length xs + n)\<rparr>) (xs @ take n items) L \<and> pool_rep P2 F
    \<and> pool_frame L P P2 \<and> length (cblocks P2) = length (cblocks P)"
proof -
  note a = xprod_coreD [OF core]
  have "H div 32 \<le> (H + length xs) div 32" by (rule div_le_mono) simp
  then have MN: "M < N" using a(6) more by linarith
  then have tl: "ep_tailBlock p = Some (blk (N - 1))" using a(8) by simp
  have start: "xprod_core P (p\<lparr>ep_tailBlock := v, ep_tailIndex := of_nat (H + length xs), ep_tailBlock := Some (blk (N - 1))\<rparr>) xs L c H M N blk"
    by (rule xprod_core_cong [OF core]) (use a(1) tl in simp_all)
  have tb: "ep_tailBlock (p\<lparr>ep_tailBlock := v\<rparr>) = Some (blk ((H + length xs) div 32))" using v by simp
  from explicit_bulk_put_rep [OF start rep dis N more tb n fuel]
  obtain P2 where P2: "explicit_bulk_put fuel (of_nat (H + length xs + n)) (Some (blk (N - 1))) (of_nat (H + length xs)) items (p\<lparr>ep_tailBlock := v\<rparr>) P
      = Inr (p\<lparr>ep_tailBlock := v, ep_tailBlock := Some (blk (N - 1))\<rparr>, P2)"
    "xprod_core P2 (p\<lparr>ep_tailBlock := v, ep_tailIndex := of_nat (H + length xs + n), ep_tailBlock := Some (blk (N - 1))\<rparr>) (xs @ take n items) L c H M N blk"
    "pool_rep P2 F" "pool_frame L P P2" "length (cblocks P2) = length (cblocks P)"
    by (elim exE conjE) (rule that; assumption)
  let ?p = "p\<lparr>ep_tailBlock := v, ep_tailBlock := Some (blk (N - 1))\<rparr>"
  have "xprod_core P2 (?p\<lparr>ep_tailIndex := of_nat (H + length xs + n)\<rparr>) (xs @ take n items) L c H M N blk"
    by (rule xprod_core_cong [OF P2(2)]) simp_all
  moreover have "N = (H + length (xs @ take n items) + 31) div 32" using n(1) N by (simp add: add.assoc)
  moreover have "M = N \<longrightarrow> N = 0" using MN by simp
  ultimately have "xprod_rep P2 (?p\<lparr>ep_tailIndex := of_nat (H + length xs + n)\<rparr>) (xs @ take n items) L"
    by (rule xprod_rep_blocks)
  then show ?thesis using P2(1,3-5) unfolding tl by blast
qed

lemma explicit_enqueue_bulk_eq:
  assumes t: "ep_tailIndex p = of_nat T" and n: "cnt = of_nat n" "n < 2 ^ 63"
    and N: "N0 = (T + 31) div 32" "N1 = (T + n + 31) div 32"
  shows "explicit_enqueue_bulk am mem items cnt p P =
    bindE (bulk_blocks_for am mem (of_nat (32 * (N1 - N0))) (of_nat (32 * N0) - BLOCK_SIZE) p P)
      (\<lambda>((ok, first), p', P').
         if \<not> ok then Inr (False, p', P')
         else if \<not> (T mod 32 \<noteq> 0 \<or> first \<noteq> None \<or> n = 0) then Inl Cq_assertion_failed
         else
           bindE (explicit_bulk_put (Suc (N1 - N0)) (of_nat (T + n)) (ep_tailBlock p') (of_nat T) items
                   (p'\<lparr>ep_tailBlock := (if T mod 32 = 0 \<and> first \<noteq> None then first else ep_tailBlock p)\<rparr>) P')
             (\<lambda>(p', P'). Inr (True, p'\<lparr>ep_tailIndex := of_nat (T + n)\<rparr>, P')))"
proof -
  have ps: "unat (of_nat (32 * (N1 - N0)) :: u64) div unat BLOCK_SIZE = N1 - N0"
    using base_diff(2) [OF n(2), of T] unfolding N [symmetric] by (simp only: BLOCK_SIZE_nat)
  have c0: "(cnt = 0) = (n = 0)" using n of_nat_word_neq [of n 0] by (cases "n = 0") auto
  have new: "of_nat T + cnt = of_nat (T + n)" using n(1) by simp
  show ?thesis
    unfolding explicit_enqueue_bulk_def Let_def t n(1)
    unfolding base_diff(1) [OF n(2)]
    unfolding block_before N [symmetric] ps tail_in_block c0 [unfolded n(1)] new [unfolded n(1)] by (rule refl)
qed

lemma passes_needed: "((T :: nat) + n + 31) div 32 - (T + 31) div 32 \<le> (n + 31) div 32"
proof -
  define a b where "a = (T + 31) div 32" and "b = (n + 31) div 32"
  have "T \<le> 32 * a" "n \<le> 32 * b" unfolding a_def b_def by (rule positions_le_blocks)+
  then have "T + n + 31 < 32 * (a + b + 1)" by simp
  then have "(T + n + 31) div 32 < a + b + 1" by (simp add: less_mult_imp_div_less mult.commute)
  then show ?thesis unfolding a_def [symmetric] b_def [symmetric] by simp
qed

definition bulk_added :: "alloc_mode \<Rightarrow> (nat \<Rightarrow> bool \<times> bool) \<Rightarrow> 'a list \<Rightarrow> 'a list \<Rightarrow> nat set \<Rightarrow> 'a pool \<Rightarrow> bool \<times> explicit_producer \<times> 'a pool \<Rightarrow> bool" where
  "bulk_added am mem xs new S P res \<longleftrightarrow> (case res of (b, p', P') \<Rightarrow>
     if b then \<exists>L' F'. xprod_rep P' p' (xs @ new) L' \<and> pool_rep P' F' \<and> L' \<inter> F' = {} \<and> pool_frame S P P'
       \<and> L' \<union> F' = S \<union> {length (cblocks P)..<length (cblocks P')} \<and> length (cblocks P') \<le> 2 ^ 57
     else am = Cannot_alloc \<or> (\<exists>i < (length new + 31) div 32. \<not> fst (mem i) \<or> \<not> snd (mem i)) \<or> 2 ^ 63 \<le> length xs + length new + 31)"

lemma explicit_enqueue_bulk_rep:
  assumes prod: "xprod_rep P p xs L" and rep: "pool_rep P F" and dis: "L \<inter> F = {}"
    and len: "length (cblocks P) \<le> 2 ^ 57" and mem: "\<forall>i. snd (mem i) \<longrightarrow> length (cblocks P) + i < 2 ^ 57"
    and n: "unat cnt \<le> length items" "unat cnt < 2 ^ 63"
  shows "\<exists>res. explicit_enqueue_bulk am mem items cnt p P = Inr res \<and> bulk_added am mem xs (take (unat cnt) items) (L \<union> F) P res"
proof -
  define n where "n = unat cnt"
  obtain c H M N0 blk where core: "xprod_core P p xs L c H M N0 blk" and N0: "N0 = (H + length xs + 31) div 32" and MN: "M = N0 \<longrightarrow> N0 = 0"
    using prod unfolding xprod_rep_def by blast
  note a = xprod_coreD [OF core]
  define T where "T = H + length xs"
  define N1 where "N1 = (T + n + 31) div 32"
  have n': "cnt = of_nat n" "n < 2 ^ 63" "n \<le> length items" using n by (simp_all add: n_def)
  have t: "ep_tailIndex p = of_nat T" using a(1) by (simp add: T_def)
  note eq = explicit_enqueue_bulk_eq [OF t n'(1,2) N0 [folded T_def] N1_def, of am mem items P]
  have pb: "T div 32 = N0 \<and> T mod 32 = 0 \<or> Suc (T div 32) = N0 \<and> T mod 32 \<noteq> 0" unfolding N0 T_def by (rule positions_blocks)
  have HT: "H div 32 \<le> T div 32" by (simp add: T_def div_le_mono)
  have TN: "H + length xs \<le> 32 * N0" unfolding N0 by (rule positions_le_blocks)
  have le: "N0 \<le> N1" unfolding N0 N1_def T_def by (rule div_le_mono) simp
  have passes: "N1 - N0 \<le> (n + 31) div 32" unfolding N1_def N0 T_def by (rule passes_needed)
  have put: "?thesis" if b: "bulk_blocks_for am mem (of_nat (32 * (N1 - N0))) (of_nat (32 * N0) - BLOCK_SIZE) p P = Inr ((True, first), p1, P1)"
    and core1: "xprod_core P1 p1 xs L1 c1 H M1 N1 blk1" and pool1: "pool_rep P1 F1" "L1 \<inter> F1 = {}" "pool_frame (L \<union> F) P P1"
      "L1 \<union> F1 = L \<union> F \<union> {length (cblocks P)..<length (cblocks P1)}" "length (cblocks P1) \<le> 2 ^ 57"
    and lt: "T div 32 < N1" and first: "T mod 32 = 0 \<longrightarrow> first = Some (blk1 N0)" "T mod 32 \<noteq> 0 \<longrightarrow> ep_tailBlock p = Some (blk1 (N0 - 1))"
    for first p1 P1 L1 F1 c1 M1 blk1
  proof -
    define v where "v = (if T mod 32 = 0 \<and> first \<noteq> None then first else ep_tailBlock p)"
    have v: "v = Some (blk1 (T div 32))" using pb first unfolding v_def by (elim disjE conjE) auto
    have fuel: "N1 - T div 32 \<le> Suc (N1 - N0)" using pb by (elim disjE conjE) linarith+
    from explicit_put_all [OF core1 pool1(1,2) n'(3,2) N1_def [unfolded T_def] lt [unfolded T_def] v [unfolded T_def] fuel [unfolded T_def], folded T_def]
    obtain p2 P2 where p2: "explicit_bulk_put (Suc (N1 - N0)) (of_nat (T + n)) (ep_tailBlock p1) (of_nat T) items (p1\<lparr>ep_tailBlock := v\<rparr>) P1 = Inr (p2, P2)"
      "xprod_rep P2 (p2\<lparr>ep_tailIndex := of_nat (T + n)\<rparr>) (xs @ take n items) L1" "pool_rep P2 F1"
      "pool_frame L1 P1 P2" "length (cblocks P2) = length (cblocks P1)"
      by (elim exE conjE) (rule that; assumption)
    have guard: "T mod 32 \<noteq> 0 \<or> first \<noteq> None \<or> n = 0" using first(1) by auto
    have "explicit_enqueue_bulk am mem items cnt p P = Inr (True, p2\<lparr>ep_tailIndex := of_nat (T + n)\<rparr>, P2)"
      unfolding eq b v_def [symmetric] using guard p2(1) unfolding v_def by simp
    moreover have "pool_frame (L \<union> F) P P2" using pool1(3,4) p2(4) unfolding pool_frame_def by auto
    then have "bulk_added am mem xs (take (unat cnt) items) (L \<union> F) P (True, p2\<lparr>ep_tailIndex := of_nat (T + n)\<rparr>, P2)"
      unfolding bulk_added_def n_def [symmetric] prod.case if_True using p2(2,3,5) pool1(2,4,5) by (intro exI [of _ L1] exI [of _ F1]) simp
    ultimately show ?thesis by blast
  qed
  show ?thesis
  proof (cases "N0 < N1")
    case True
    have sm: "32 * (N1 - N0) < 2 ^ 64" using passes_bound [OF n'(2), of T] N0 by (simp add: N1_def T_def)
    from bulk_blocks_for_rep [OF core TN rep dis len mem True sm, of am]
    obtain ok first p1 P1 where b: "bulk_blocks_for am mem (of_nat (32 * (N1 - N0))) (of_nat (32 * N0) - BLOCK_SIZE) p P = Inr ((ok, first), p1, P1)"
      "if ok then \<exists>L' F' c' M' blk'. first = Some (blk' N0) \<and> xprod_core P1 p1 xs L' c' H M' N1 blk' \<and> M' \<le> N0 \<and> (\<forall>k < N0. blk' k = blk k)
         \<and> pool_rep P1 F' \<and> L' \<inter> F' = {} \<and> L' \<union> F' = L \<union> F \<union> {length (cblocks P)..<length (cblocks P1)}
         \<and> pool_frame (L \<union> F) P P1 \<and> length (cblocks P1) \<le> 2 ^ 57
       else am = Cannot_alloc \<or> (\<exists>i < N1 - N0. \<not> fst (mem i) \<or> \<not> snd (mem i)) \<or> H + 2 ^ 63 \<le> 32 * N1"
      by (elim exE conjE) (rule that; assumption)
    show ?thesis
    proof (cases ok)
      case okF: False
      have "32 * N1 \<le> H + (length xs + n + 31)"
        using div_times_less_eq_dividend [of "T + n + 31" 32] by (simp add: N1_def T_def mult.commute)
      then have "bulk_added am mem xs (take (unat cnt) items) (L \<union> F) P (False, p1, P1)"
        using b(2) okF n'(3) order.strict_trans2 [OF _ passes] unfolding bulk_added_def n_def [symmetric] by auto
      then show ?thesis unfolding eq b(1) using okF by simp
    next
      case okT: True
      obtain L1 F1 c1 M1 blk1 where g: "first = Some (blk1 N0)" "xprod_core P1 p1 xs L1 c1 H M1 N1 blk1" "\<forall>k < N0. blk1 k = blk k"
        "pool_rep P1 F1" "L1 \<inter> F1 = {}" "L1 \<union> F1 = L \<union> F \<union> {length (cblocks P)..<length (cblocks P1)}"
        "pool_frame (L \<union> F) P P1" "length (cblocks P1) \<le> 2 ^ 57"
        using b(2) okT by auto
      have "T mod 32 \<noteq> 0 \<longrightarrow> ep_tailBlock p = Some (blk1 (N0 - 1))"
      proof
        assume "T mod 32 \<noteq> 0"
        then have "M < N0" "N0 - 1 < N0" using pb HT a(6) by linarith+
        then show "ep_tailBlock p = Some (blk1 (N0 - 1))" using a(8) g(3) by simp
      qed
      moreover have "T div 32 < N1" using pb True by linarith
      ultimately show ?thesis using put [OF _ g(2,4,5,7,6,8)] b(1) okT g(1) by simp
    qed
  next
    case False
    then have N: "N1 = N0" using le by simp
    have none: "bulk_blocks_for am mem (of_nat (32 * (N1 - N0))) (of_nat (32 * N0) - BLOCK_SIZE) p P = Inr ((True, None), p, P)"
      unfolding N by (simp add: bulk_blocks_for_def Let_def)
    show ?thesis
    proof (cases "T mod 32 = 0")
      case False
      then have M: "M < N0" "T div 32 < N1" using pb HT a(6) N by linarith+
      have tl: "T mod 32 \<noteq> 0 \<longrightarrow> ep_tailBlock p = Some (blk (N0 - 1))" "T mod 32 = 0 \<longrightarrow> None = Some (blk N0)" using a(8) M(1) False by simp_all
      have S: "L \<union> F = L \<union> F \<union> {length (cblocks P)..<length (cblocks P)}" by simp
      show ?thesis by (rule put [OF none core [folded N] rep dis pool_frame_refl S len M(2) tl(2,1)])
    next
      case True
      then have z: "n = 0" using pb N False unfolding N1_def by (elim disjE conjE; simp)
      have "explicit_enqueue_bulk am mem items cnt p P = Inr (True, p, P)"
        unfolding eq none using z True t bulk_end_rep [of 0 T] by (simp add: explicit_fill_def)
      moreover have "bulk_added am mem xs (take (unat cnt) items) (L \<union> F) P (True, p, P)"
        unfolding bulk_added_def n_def [symmetric] z prod.case if_True using prod rep dis len by (intro exI [of _ L] exI [of _ F]) simp
      ultimately show ?thesis by blast
    qed
  qed
qed

subsection \<open>Properties\<close>

lemma explicit_bulk_inv:
  assumes inv: "xprod_inv (p, P)" and mem: "\<forall>i. snd (mem i) \<longrightarrow> length (cblocks P) + i < 2 ^ 57" and n: "unat cnt \<le> length items" "unat cnt < 2 ^ 63"
  shows "\<exists>b q Q. explicit_enqueue_bulk am mem items cnt p P = Inr (b, q, Q)
    \<and> (b \<longrightarrow> xprod_inv (q, Q) \<and> explicit_list q Q = explicit_list p P @ take (unat cnt) items)
    \<and> (\<not> b \<longrightarrow> am = Cannot_alloc \<or> (\<exists>i < (unat cnt + 31) div 32. \<not> fst (mem i) \<or> \<not> snd (mem i))
         \<or> 2 ^ 63 \<le> length (explicit_list p P) + unat cnt + 31)"
proof -
  obtain xs L F where x: "xprod_rep P p xs L" "pool_rep P F" "L \<inter> F = {}" "length (cblocks P) \<le> 2 ^ 57"
    "L \<union> F = {..<length (cblocks P)}" "explicit_list p P = xs"
    using inv by (rule xprod_invE) auto
  obtain b q Q where e: "explicit_enqueue_bulk am mem items cnt p P = Inr (b, q, Q)"
    "bulk_added am mem xs (take (unat cnt) items) (L \<union> F) P (b, q, Q)"
    using explicit_enqueue_bulk_rep [OF x(1-4) mem n, of am] by auto
  have l: "length (take (unat cnt) items) = unat cnt" using n(1) by simp
  show ?thesis
  proof (cases b)
    case True
    then obtain L' F' where g: "xprod_rep Q q (xs @ take (unat cnt) items) L'" "pool_rep Q F'" "L' \<inter> F' = {}" "pool_frame (L \<union> F) P Q"
      "L' \<union> F' = L \<union> F \<union> {length (cblocks P)..<length (cblocks Q)}" "length (cblocks Q) \<le> 2 ^ 57"
      using e(2) unfolding bulk_added_def by auto
    have "L' \<union> F' = {..<length (cblocks Q)}" unfolding g(5) x(5) using g(4) by (auto simp: pool_frame_def)
    then have "xprod_inv (q, Q)" by (rule xprod_invI [OF g(1-3) _ g(6)])
    then show ?thesis using e(1) explicit_list_rep [OF g(1)] True x(6) by blast
  next
    case False
    then show ?thesis using e unfolding bulk_added_def prod.case if_not_P [OF False] l x(6) by blast
  qed
qed

text \<open>
  C18: adding several elements through a producer token. After any enqueues and dequeues, \<open>enqueue_bulk\<close> ends without error. When it
  reports success, exactly the elements of the input were added, in order, and everything that is enqueued and dequeued afterwards
  behaves as on one FIFO list. It fails only when it may not allocate, when the heap refuses one of the blocks or block
  indexes that it needs, or when the sub-queue would hold about \<open>2 ^ 63\<close> positions.
\<close>

theorem explicit_enqueue_bulk_appends:
  fixes ops :: "(alloc_mode \<times> bool \<times> bool, 'a) queue_op list"
  assumes "unat n \<le> 2 ^ 57" "unat cnt \<le> length items" "unat cnt < 2 ^ 63"
  shows "\<exists>p evs p' P' rest b q Q. ExplicitProducer_new index_ok (populate_initial_block_list malloc_ok n (pool_init :: 'a pool)) = Inr p
    \<and> run_ops explicit_enq explicit_deq ops (p, populate_initial_block_list malloc_ok n pool_init) = Inr (evs, p', P')
    \<and> accepted evs = got evs @ rest
    \<and> explicit_enqueue_bulk am (\<lambda>i. (fst (mem i), snd (mem i) \<and> length (cblocks P') + i < 2 ^ 57)) items cnt p' P' = Inr (b, q, Q)
    \<and> (b \<longrightarrow> (\<forall>later. \<exists>evs2 p2 P2. run_ops explicit_enq explicit_deq later (q, Q) = Inr (evs2, p2, P2)
         \<and> rest @ take (unat cnt) items @ accepted evs2 = got evs2 @ explicit_list p2 P2))
    \<and> (\<not> b \<longrightarrow> am = Cannot_alloc \<or> (\<exists>i < (unat cnt + 31) div 32. \<not> fst (mem i) \<or> \<not> snd (mem i) \<or> 2 ^ 57 \<le> length (cblocks P') + i)
         \<or> 2 ^ 63 \<le> length rest + unat cnt + 31)"
proof -
  obtain p evs p' P' where r: "ExplicitProducer_new index_ok (populate_initial_block_list malloc_ok n (pool_init :: 'a pool)) = Inr p"
    "run_ops explicit_enq explicit_deq ops (p, populate_initial_block_list malloc_ok n pool_init) = Inr (evs, p', P')"
    "xprod_inv (p', P')" "accepted evs = got evs @ explicit_list p' P'"
    using explicit_run [where index_ok = index_ok and malloc_ok = malloc_ok and ops = ops, OF assms(1)] by (elim exE conjE) (rule that; assumption)
  define mem' where "mem' = (\<lambda>i. (fst (mem i), snd (mem i) \<and> length (cblocks P') + i < 2 ^ 57))"
  have m: "\<forall>i. snd (mem' i) \<longrightarrow> length (cblocks P') + i < 2 ^ 57" by (simp add: mem'_def)
  from explicit_bulk_inv [OF r(3) m assms(2,3), of am]
  obtain b q Q where e: "explicit_enqueue_bulk am mem' items cnt p' P' = Inr (b, q, Q)"
    "b \<longrightarrow> xprod_inv (q, Q) \<and> explicit_list q Q = explicit_list p' P' @ take (unat cnt) items"
    "\<not> b \<longrightarrow> am = Cannot_alloc \<or> (\<exists>i < (unat cnt + 31) div 32. \<not> fst (mem' i) \<or> \<not> snd (mem' i)) \<or> 2 ^ 63 \<le> length (explicit_list p' P') + unat cnt + 31"
    by (elim exE conjE) (rule that; assumption)
  have later: "\<exists>evs2 p2 P2. run_ops explicit_enq explicit_deq later (q, Q) = Inr (evs2, p2, P2)
      \<and> explicit_list p' P' @ take (unat cnt) items @ accepted evs2 = got evs2 @ explicit_list p2 P2" if b for later
    using explicit.run_ops_fifo [of "(q, Q)" later] e(2) that by auto
  have why: "\<not> b \<longrightarrow> am = Cannot_alloc \<or> (\<exists>i < (unat cnt + 31) div 32. \<not> fst (mem i) \<or> \<not> snd (mem i) \<or> 2 ^ 57 \<le> length (cblocks P') + i)
         \<or> 2 ^ 63 \<le> length (explicit_list p' P') + unat cnt + 31"
    using e(3) unfolding mem'_def fst_conv snd_conv not_less [symmetric] by blast
  show ?thesis using r(1,2,4) e(1) [unfolded mem'_def] later why by blast
qed

text \<open>Forty elements, over a pool of one block.\<close>

theorem explicit_enqueue_bulk_appends_witness:
  "\<exists>p q Q. ExplicitProducer_new True (populate_initial_block_list True 1 (pool_init :: nat pool)) = Inr p
    \<and> explicit_enqueue_bulk Can_alloc (\<lambda>i. (True, 1 + i < 2 ^ 57)) [0 ..< 40] 40 p (populate_initial_block_list True 1 pool_init) = Inr (True, q, Q)
    \<and> (\<forall>later. \<exists>evs2 p2 P2. run_ops explicit_enq explicit_deq later (q, Q) = Inr (evs2, p2, P2)
         \<and> [0 ..< 40] @ accepted evs2 = got evs2 @ explicit_list p2 P2)"
proof -
  let ?P = "populate_initial_block_list True 1 (pool_init :: nat pool)"
  have c: "unat (40 :: u64) = 40" "unat (1 :: u64) \<le> 2 ^ 57" by simp_all
  have n: "unat (40 :: u64) \<le> length [0 ..< 40]" "unat (40 :: u64) < 2 ^ 63" by simp_all
  have one: "length (cblocks ?P) = 1" by (simp add: populate_initial_block_list_def pool_init_def)
  from explicit_enqueue_bulk_appends [OF c(2) n, of True True "[]" Can_alloc "\<lambda>_. (True, True)"]
  obtain p evs p' P' rest b q Q where e: "ExplicitProducer_new True ?P = Inr p" "run_ops explicit_enq explicit_deq [] (p, ?P) = Inr (evs, p', P')"
    "accepted evs = got evs @ rest"
    "explicit_enqueue_bulk Can_alloc (\<lambda>i. (True, length (cblocks P') + i < 2 ^ 57)) [0 ..< 40] 40 p' P' = Inr (b, q, Q)"
    "b \<longrightarrow> (\<forall>later. \<exists>evs2 p2 P2. run_ops explicit_enq explicit_deq later (q, Q) = Inr (evs2, p2, P2)
         \<and> rest @ take 40 [0 ..< 40] @ accepted evs2 = got evs2 @ explicit_list p2 P2)"
    "\<not> b \<longrightarrow> Can_alloc = Cannot_alloc \<or> (\<exists>i < (40 + 31) div 32. 2 ^ 57 \<le> length (cblocks P') + i) \<or> 2 ^ 63 \<le> length rest + 40 + 31"
    unfolding c(1) fst_conv snd_conv simp_thms by (elim exE conjE) (rule that; assumption)
  have s: "evs = []" "p' = p" "P' = ?P" using e(2) by simp_all
  then have z: "rest = []" using e(3) by simp
  have "b" using e(6) unfolding s(3) one z by auto
  then show ?thesis using e(1,4,5) unfolding s one z by auto
qed

text \<open>
  An \<open>enqueue_bulk\<close> that fails damages the sub-queue. It keeps the blocks that it has linked into the circle, but sets the number of
  used slots of the block index back to the old value. Here the pool has one block, and 33 elements, which need two, are refused. The
  kept block is taken for the next element, yet the number of used slots stays 0; after one of two elements was
  dequeued, the destructor looks for the block of the head from the wrong slot on, and reads an entry that was never written.
\<close>

theorem explicit_bulk_failure_corrupts:
  "bindE (ExplicitProducer_new True (populate_initial_block_list True 1 pool_init)) (\<lambda>p.
    bindE (explicit_enqueue_bulk Cannot_alloc (\<lambda>_. (True, True)) (replicate 33 True) 33 p (populate_initial_block_list True 1 pool_init)) (\<lambda>(b, p, P).
    bindE (explicit_enqueue (Can_alloc, True, True) False True p P) (\<lambda>(r1, p, P).
    bindE (explicit_enqueue (Can_alloc, True, True) False False p P) (\<lambda>(r2, p, P).
    bindE (explicit_dequeue p P) (\<lambda>(x, p, P). Inr (b, r1, r2, x, ExplicitProducer_delete p P))))))
   = Inr (False, Enqueued, Enqueued, Some True, Inl Cq_bad_slot)"
  by code_simp

end
