(* ===== verification/ReaderWriterQueue.thy ===== *)
theory ReaderWriterQueue
  imports Fifo
begin

text \<open>
  \<open>source/utils/readerwriterqueue.h\<close>: the single-producer single-consumer queue, a circular list of
  ring buffers. Blocks live in a list, a \<open>Block*\<close> is an index into it and \<open>None\<close> is the null
  pointer; \<open>data\<close> has one cell per element slot, \<open>None\<close> while no object is constructed there.
  All indices are 64-bit words, as \<open>size_t\<close>. One operation runs at a time here, so the loads of
  the other thread's variables read the current value and the fences do nothing.

  A failed \<open>assert\<close>, a null block and the read of a slot without an object are errors of the
  model. Whether \<open>malloc\<close> succeeds is an argument of the operations that allocate.
\<close>

datatype rw_error = Assertion_failed | Null_block | Bad_slot | Bad_alloc | Loop_fuel

datatype AllocationMode = CanAlloc | CannotAlloc

record 'a rwblock =
  front :: u64
  localTail :: u64
  tail :: u64
  localFront :: u64
  rw_next :: "nat option"
  data :: "'a option list"
  sizeMask :: u64

record 'a rwq =
  blocks :: "'a rwblock list"
  frontBlock :: nat
  tailBlock :: nat
  largestBlockSize :: u64

subsection \<open>Helpers of the class\<close>

text \<open>\<open>ceilToPow2\<close>: the loop runs for \<open>i\<close> = 1, 2, 4 on a machine with 8-byte words.\<close>

definition ceilToPow2 :: "u64 \<Rightarrow> u64" where
  "ceilToPow2 x =
     (let x = x - 1;
          x = x OR drop_bit 1 x;
          x = x OR drop_bit 2 x;
          x = x OR drop_bit 4 x;
          x = fold (\<lambda>i x. x OR drop_bit (i * 8) x) [1, 2, 4] x
      in x + 1)"

definition align_for :: "nat \<Rightarrow> nat \<Rightarrow> nat" where
  "align_for alignment ptr = ptr + (alignment - ptr mod alignment) mod alignment"

definition Block_new :: "u64 \<Rightarrow> 'a rwblock" where
  "Block_new sz =
     \<lparr>front = 0, localTail = 0, tail = 0, localFront = 0, rw_next = None,
      data = replicate (unat sz) None, sizeMask = sz - 1\<rparr>"

definition make_block :: "bool \<Rightarrow> u64 \<Rightarrow> 'a rwblock option" where
  "make_block malloc_ok capacity = (if malloc_ok then Some (Block_new capacity) else None)"

abbreviation upd_block :: "nat \<Rightarrow> ('a rwblock \<Rightarrow> 'a rwblock) \<Rightarrow> 'a rwq \<Rightarrow> 'a rwq" where
  "upd_block i f q \<equiv> q\<lparr>blocks := (blocks q)[i := f (blocks q ! i)]\<rparr>"

subsection \<open>Construction\<close>

text \<open>
  The loop of the constructor that links \<open>initialBlockCount\<close> blocks of \<open>MAX_BLOCK_SIZE\<close> into a
  ring: \<open>i\<close> is the number of blocks made so far (block \<open>i - 1\<close> is \<open>lastBlock\<close>, block 0 \<open>firstBlock\<close>).
\<close>

fun link_blocks :: "(nat \<Rightarrow> bool) \<Rightarrow> u64 \<Rightarrow> nat \<Rightarrow> nat \<Rightarrow> 'a rwblock list \<Rightarrow> rw_error + 'a rwblock list" where
  "link_blocks mallocs sz i 0 bs = Inr bs"
| "link_blocks mallocs sz i (Suc n) bs =
     (case make_block (mallocs i) sz of
        None \<Rightarrow> Inl Bad_alloc
      | Some block \<Rightarrow>
          let bs = (if i = 0 then bs else bs[i - 1 := (bs ! (i - 1))\<lparr>rw_next := Some i\<rparr>])
          in link_blocks mallocs sz (i + 1) n (bs @ [block\<lparr>rw_next := Some 0\<rparr>]))"

definition ReaderWriterQueue_new :: "u64 \<Rightarrow> (nat \<Rightarrow> bool) \<Rightarrow> u64 \<Rightarrow> rw_error + 'a rwq" where
  "ReaderWriterQueue_new MAX_BLOCK_SIZE mallocs maxSize =
     (if \<not> (maxSize > 0 \<and> MAX_BLOCK_SIZE = ceilToPow2 MAX_BLOCK_SIZE \<and> MAX_BLOCK_SIZE \<ge> 2) then Inl Assertion_failed
      else
        let largest = ceilToPow2 (maxSize + 1)
        in if largest > MAX_BLOCK_SIZE * 2 then
             let initialBlockCount = (maxSize + MAX_BLOCK_SIZE * 2 - 3) div (MAX_BLOCK_SIZE - 1)
             in bindE (link_blocks mallocs MAX_BLOCK_SIZE 0 (unat initialBlockCount) [])
                  (\<lambda>bs. Inr \<lparr>blocks = bs, frontBlock = 0, tailBlock = 0, largestBlockSize = MAX_BLOCK_SIZE\<rparr>)
           else
             (case make_block (mallocs 0) largest of
                None \<Rightarrow> Inl Bad_alloc
              | Some b \<Rightarrow> Inr \<lparr>blocks = [b\<lparr>rw_next := Some 0\<rparr>], frontBlock = 0, tailBlock = 0,
                               largestBlockSize = largest\<rparr>))"

subsection \<open>Consumer side\<close>

text \<open>
  Moving the element out of slot \<open>at\<close> of block \<open>i\<close>, destroying it and advancing the block's front
  (the label \<open>non_empty_front_block\<close>).
\<close>

definition take_front :: "nat \<Rightarrow> u64 \<Rightarrow> 'a rwq \<Rightarrow> rw_error + 'a option \<times> 'a rwq" where
  "take_front i blockFront q =
     (case data (blocks q ! i) ! unat blockFront of
        None \<Rightarrow> Inl Bad_slot
      | Some element \<Rightarrow>
          Inr (Some element,
               upd_block i (\<lambda>b. b\<lparr>data := (data b)[unat blockFront := None],
                                   front := (blockFront + 1) AND sizeMask b\<rparr>) q))"

text \<open>The consumer's shadow copy of a block's tail is refreshed from the producer's variable.\<close>

definition refresh_localTail :: "nat \<Rightarrow> 'a rwq \<Rightarrow> 'a rwq" where
  "refresh_localTail i q = upd_block i (\<lambda>b. b\<lparr>localTail := tail b\<rparr>) q"

definition try_dequeue :: "'a rwq \<Rightarrow> rw_error + 'a option \<times> 'a rwq" where
  "try_dequeue q =
     (let fb = frontBlock q;
          blockTail = localTail (blocks q ! fb);
          blockFront = front (blocks q ! fb)
      in if blockFront \<noteq> blockTail then take_front fb blockFront q
         else
           let q = refresh_localTail fb q
           in if blockFront \<noteq> localTail (blocks q ! fb) then take_front fb blockFront q
              else if fb \<noteq> tailBlock q then
                let fb = frontBlock q;
                    q = refresh_localTail fb q;
                    blockTail = localTail (blocks q ! fb);
                    blockFront = front (blocks q ! fb)
                in if blockFront \<noteq> blockTail then take_front fb blockFront q
                   else (case rw_next (blocks q ! fb) of
                      None \<Rightarrow> Inl Null_block
                    | Some nextBlock \<Rightarrow>
                        let nextBlockFront = front (blocks q ! nextBlock);
                            q = refresh_localTail nextBlock q;
                            nextBlockTail = localTail (blocks q ! nextBlock)
                        in if nextBlockFront = nextBlockTail then Inl Assertion_failed
                           else take_front nextBlock nextBlockFront (q\<lparr>frontBlock := nextBlock\<rparr>))
              else Inr (None, q))"

text \<open>\<open>peek\<close> returns the address of the front element: its block and slot.\<close>

definition peek :: "'a rwq \<Rightarrow> rw_error + (nat \<times> u64) option \<times> 'a rwq" where
  "peek q =
     (let fb = frontBlock q;
          blockTail = localTail (blocks q ! fb);
          blockFront = front (blocks q ! fb)
      in if blockFront \<noteq> blockTail then Inr (Some (fb, blockFront), q)
         else
           let q = refresh_localTail fb q
           in if blockFront \<noteq> localTail (blocks q ! fb) then Inr (Some (fb, blockFront), q)
              else if fb \<noteq> tailBlock q then
                let fb = frontBlock q;
                    q = refresh_localTail fb q;
                    blockTail = localTail (blocks q ! fb);
                    blockFront = front (blocks q ! fb)
                in if blockFront \<noteq> blockTail then Inr (Some (fb, blockFront), q)
                   else (case rw_next (blocks q ! fb) of
                      None \<Rightarrow> Inl Null_block
                    | Some nextBlock \<Rightarrow>
                        let nextBlockFront = front (blocks q ! nextBlock)
                        in if nextBlockFront = tail (blocks q ! nextBlock) then Inl Assertion_failed
                           else Inr (Some (nextBlock, nextBlockFront), q))
              else Inr (None, q))"

text \<open>\<open>pop\<close> is written out like \<open>try_dequeue\<close>, but only destroys the element.\<close>

definition destroy_front :: "nat \<Rightarrow> u64 \<Rightarrow> 'a rwq \<Rightarrow> rw_error + bool \<times> 'a rwq" where
  "destroy_front i blockFront q =
     (if data (blocks q ! i) ! unat blockFront = None then Inl Bad_slot
      else Inr (True, upd_block i (\<lambda>b. b\<lparr>data := (data b)[unat blockFront := None],
                                          front := (blockFront + 1) AND sizeMask b\<rparr>) q))"

definition pop :: "'a rwq \<Rightarrow> rw_error + bool \<times> 'a rwq" where
  "pop q =
     (let fb = frontBlock q;
          blockTail = localTail (blocks q ! fb);
          blockFront = front (blocks q ! fb)
      in if blockFront \<noteq> blockTail then destroy_front fb blockFront q
         else
           let q = refresh_localTail fb q
           in if blockFront \<noteq> localTail (blocks q ! fb) then destroy_front fb blockFront q
              else if fb \<noteq> tailBlock q then
                let fb = frontBlock q;
                    q = refresh_localTail fb q;
                    blockTail = localTail (blocks q ! fb);
                    blockFront = front (blocks q ! fb)
                in if blockFront \<noteq> blockTail then destroy_front fb blockFront q
                   else (case rw_next (blocks q ! fb) of
                      None \<Rightarrow> Inl Null_block
                    | Some nextBlock \<Rightarrow>
                        let nextBlockFront = front (blocks q ! nextBlock);
                            q = refresh_localTail nextBlock q;
                            nextBlockTail = localTail (blocks q ! nextBlock)
                        in if nextBlockFront = nextBlockTail then Inl Assertion_failed
                           else destroy_front nextBlock nextBlockFront (q\<lparr>frontBlock := nextBlock\<rparr>))
              else Inr (False, q))"

subsection \<open>Producer side\<close>

definition refresh_localFront :: "nat \<Rightarrow> 'a rwq \<Rightarrow> 'a rwq" where
  "refresh_localFront i q = upd_block i (\<lambda>b. b\<lparr>localFront := front b\<rparr>) q"

text \<open>Construct the element in slot \<open>blockTail\<close> of block \<open>i\<close> and publish the new tail.\<close>

definition put_tail :: "nat \<Rightarrow> u64 \<Rightarrow> u64 \<Rightarrow> 'a \<Rightarrow> 'a rwq \<Rightarrow> 'a rwq" where
  "put_tail i blockTail nextBlockTail element q =
     upd_block i (\<lambda>b. b\<lparr>data := (data b)[unat blockTail := Some element], tail := nextBlockTail\<rparr>) q"

definition inner_enqueue ::
  "u64 \<Rightarrow> AllocationMode \<Rightarrow> bool \<Rightarrow> 'a \<Rightarrow> 'a rwq \<Rightarrow> rw_error + bool \<times> 'a rwq" where
  "inner_enqueue MAX_BLOCK_SIZE canAlloc malloc_ok element q =
     (let tb = tailBlock q;
          blockFront = localFront (blocks q ! tb);
          blockTail = tail (blocks q ! tb);
          nextBlockTail = (blockTail + 1) AND sizeMask (blocks q ! tb)
      in if nextBlockTail \<noteq> blockFront then Inr (True, put_tail tb blockTail nextBlockTail element q)
         else
           let q = refresh_localFront tb q
           in if nextBlockTail \<noteq> localFront (blocks q ! tb)
              then Inr (True, put_tail tb blockTail nextBlockTail element q)
              else (case rw_next (blocks q ! tb) of
                 None \<Rightarrow> Inl Null_block
               | Some tailBlockNext \<Rightarrow>
                   if tailBlockNext \<noteq> frontBlock q then
                     let q = refresh_localFront tailBlockNext q;
                         nextBlockFront = localFront (blocks q ! tailBlockNext);
                         nextBlockTail = tail (blocks q ! tailBlockNext)
                     in if nextBlockFront \<noteq> nextBlockTail then Inl Assertion_failed
                        else
                          let q = put_tail tailBlockNext nextBlockTail
                                    ((nextBlockTail + 1) AND sizeMask (blocks q ! tailBlockNext)) element q
                          in Inr (True, q\<lparr>tailBlock := tailBlockNext\<rparr>)
                   else if canAlloc = CanAlloc then
                     let newBlockSize = (if largestBlockSize q \<ge> MAX_BLOCK_SIZE then largestBlockSize q
                                         else largestBlockSize q * 2)
                     in (case make_block malloc_ok newBlockSize of
                           None \<Rightarrow> Inr (False, q)
                         | Some newBlock \<Rightarrow>
                             let n = length (blocks q);
                                 newBlock = newBlock\<lparr>data := (data newBlock)[0 := Some element],
                                   tail := 1, localTail := 1, rw_next := Some tailBlockNext\<rparr>;
                                 q = upd_block tb (\<lambda>b. b\<lparr>rw_next := Some n\<rparr>) q
                             in Inr (True, q\<lparr>blocks := blocks q @ [newBlock], tailBlock := n,
                                             largestBlockSize := newBlockSize\<rparr>))
                   else Inr (False, q)))"

definition rw_try_enqueue :: "u64 \<Rightarrow> 'a \<Rightarrow> 'a rwq \<Rightarrow> rw_error + bool \<times> 'a rwq" where
  "rw_try_enqueue MAX_BLOCK_SIZE element q = inner_enqueue MAX_BLOCK_SIZE CannotAlloc False element q"

definition rw_enqueue :: "u64 \<Rightarrow> bool \<Rightarrow> 'a \<Rightarrow> 'a rwq \<Rightarrow> rw_error + bool \<times> 'a rwq" where
  "rw_enqueue MAX_BLOCK_SIZE malloc_ok element q = inner_enqueue MAX_BLOCK_SIZE CanAlloc malloc_ok element q"

subsection \<open>Whole-queue walks\<close>

text \<open>
  \<open>size_approx\<close>: the do-while loop along \<open>next\<close> until it is back at the front block; \<open>fuel\<close> bounds the
  number of blocks visited.
\<close>

fun size_approx_loop :: "'a rwq \<Rightarrow> nat \<Rightarrow> nat \<Rightarrow> u64 \<Rightarrow> rw_error + u64" where
  "size_approx_loop q 0 block result = Inl Loop_fuel"
| "size_approx_loop q (Suc fuel) block result =
     (let b = blocks q ! block;
          result = result + ((tail b - front b) AND sizeMask b)
      in (case rw_next b of
            None \<Rightarrow> Inl Null_block
          | Some block \<Rightarrow> if block \<noteq> frontBlock q then size_approx_loop q fuel block result else Inr result))"

definition rw_size_approx :: "nat \<Rightarrow> 'a rwq \<Rightarrow> rw_error + u64" where
  "rw_size_approx fuel q = size_approx_loop q fuel (frontBlock q) 0"

text \<open>The destructor: the elements it destroys, in order.\<close>

fun destroy_elements :: "nat \<Rightarrow> 'a rwblock \<Rightarrow> u64 \<Rightarrow> rw_error + 'a list" where
  "destroy_elements 0 b i = (if i = tail b then Inr [] else Inl Loop_fuel)"
| "destroy_elements (Suc fuel) b i =
     (if i = tail b then Inr []
      else (case data b ! unat i of
              None \<Rightarrow> Inl Bad_slot
            | Some element \<Rightarrow> bindE (destroy_elements fuel b ((i + 1) AND sizeMask b)) (\<lambda>xs. Inr (element # xs))))"

fun delete_loop :: "'a rwq \<Rightarrow> nat \<Rightarrow> nat \<Rightarrow> rw_error + 'a list" where
  "delete_loop q 0 block = Inl Loop_fuel"
| "delete_loop q (Suc fuel) block =
     (case rw_next (blocks q ! block) of
        None \<Rightarrow> Inl Null_block
      | Some nextBlock \<Rightarrow>
          bindE (destroy_elements (length (data (blocks q ! block))) (blocks q ! block) (front (blocks q ! block)))
            (\<lambda>xs. if nextBlock \<noteq> frontBlock q then bindE (delete_loop q fuel nextBlock) (\<lambda>ys. Inr (xs @ ys))
                  else Inr xs))"

definition ReaderWriterQueue_delete :: "nat \<Rightarrow> 'a rwq \<Rightarrow> rw_error + 'a list" where
  "ReaderWriterQueue_delete fuel q = delete_loop q fuel (frontBlock q)"

subsection \<open>What a block holds\<close>

text \<open>
  What a block holds: \<open>blk_rep b xs\<close> says that the ring buffer of \<open>b\<close> holds exactly the objects \<open>xs\<close>,
  from its front, that all other slots are raw memory, and that the two shadow copies err on the
  safe side (the consumer sees at most, the producer counts at least the objects that are there).
\<close>

definition blk_cap :: "'a rwblock \<Rightarrow> nat" where
  "blk_cap b = unat (sizeMask b)"

definition blk_rep :: "'a rwblock \<Rightarrow> 'a list \<Rightarrow> bool" where
  "blk_rep b xs \<longleftrightarrow> (\<exists>k. 1 \<le> k \<and> unat (sizeMask b) + 1 = 2 ^ k \<and> length (data b) = 2 ^ k
     \<and> unat (front b) < 2 ^ k \<and> length xs < 2 ^ k
     \<and> unat (tail b) = (unat (front b) + length xs) mod 2 ^ k
     \<and> (\<exists>l \<le> length xs. unat (localTail b) = (unat (front b) + l) mod 2 ^ k)
     \<and> (\<exists>m \<ge> length xs. m < 2 ^ k \<and> unat (localFront b) < 2 ^ k
          \<and> unat (tail b) = (unat (localFront b) + m) mod 2 ^ k)
     \<and> (\<forall>i < length xs. data b ! ((unat (front b) + i) mod 2 ^ k) = Some (xs ! i))
     \<and> (\<forall>i. length xs \<le> i \<and> i < 2 ^ k \<longrightarrow> data b ! ((unat (front b) + i) mod 2 ^ k) = None))"

lemma blk_repE:
  assumes "blk_rep b xs"
  obtains k l m where "1 \<le> k" "unat (sizeMask b) + 1 = 2 ^ k" "length (data b) = 2 ^ k"
    "unat (front b) < 2 ^ k" "length xs < 2 ^ k" "unat (tail b) = (unat (front b) + length xs) mod 2 ^ k"
    "l \<le> length xs" "unat (localTail b) = (unat (front b) + l) mod 2 ^ k"
    "length xs \<le> m" "m < 2 ^ k" "unat (localFront b) < 2 ^ k"
    "unat (tail b) = (unat (localFront b) + m) mod 2 ^ k"
    "\<And>i. i < length xs \<Longrightarrow> data b ! ((unat (front b) + i) mod 2 ^ k) = Some (xs ! i)"
    "\<And>i. length xs \<le> i \<Longrightarrow> i < 2 ^ k \<Longrightarrow> data b ! ((unat (front b) + i) mod 2 ^ k) = None"
  using assms unfolding blk_rep_def by blast

lemma blk_repI:
  assumes "1 \<le> k" "unat (sizeMask b) + 1 = 2 ^ k" "length (data b) = 2 ^ k"
    "unat (front b) < 2 ^ k" "length xs < 2 ^ k" "unat (tail b) = (unat (front b) + length xs) mod 2 ^ k"
    "l \<le> length xs" "unat (localTail b) = (unat (front b) + l) mod 2 ^ k"
    "length xs \<le> m" "m < 2 ^ k" "unat (localFront b) < 2 ^ k"
    "unat (tail b) = (unat (localFront b) + m) mod 2 ^ k"
    "\<And>i. i < length xs \<Longrightarrow> data b ! ((unat (front b) + i) mod 2 ^ k) = Some (xs ! i)"
    "\<And>i. length xs \<le> i \<Longrightarrow> i < 2 ^ k \<Longrightarrow> data b ! ((unat (front b) + i) mod 2 ^ k) = None"
  shows "blk_rep b xs"
  unfolding blk_rep_def using assms by blast

text \<open>Arithmetic of positions in a ring of \<open>n\<close> slots.\<close>

lemma ring_pos_inj_le:
  fixes f i j n :: nat
  assumes "i \<le> j" "j < n" "(f + i) mod n = (f + j) mod n"
  shows "i = j"
proof -
  have "n dvd (f + j) - (f + i)"
    using assms mod_eq_dvd_iff_nat [of "f + i" "f + j" n] by simp
  then have "n dvd j - i" by simp
  then have "j - i = 0"
    using assms(2) by (meson dvd_imp_le leD less_imp_diff_less neq0_conv)
  then show ?thesis using assms(1) by simp
qed

lemma ring_pos_inj:
  fixes f i j n :: nat
  shows "i < n \<Longrightarrow> j < n \<Longrightarrow> (f + i) mod n = (f + j) mod n \<longleftrightarrow> i = j"
  using ring_pos_inj_le [of i j n f] ring_pos_inj_le [of j i n f] by (metis linorder_linear)

lemma ring_shift:
  fixes f i n :: nat
  shows "((f + 1) mod n + i) mod n = (f + Suc i) mod n"
  by (simp add: mod_add_left_eq)

lemma blk_empty_iff: "blk_rep b xs \<Longrightarrow> front b = tail b \<longleftrightarrow> xs = []"
proof (elim blk_repE)
  fix k assume a: "unat (front b) < 2 ^ k" "length xs < 2 ^ k" "unat (tail b) = (unat (front b) + length xs) mod 2 ^ k"
  show ?thesis
    using ring_pos_inj [of 0 "2 ^ k" "length xs" "unat (front b)"] a by (simp add: word_unat_eq_iff)
qed

lemma blk_localTail_less: "blk_rep b xs \<Longrightarrow> front b \<noteq> localTail b \<Longrightarrow> xs \<noteq> []"
proof (elim blk_repE)
  fix k l assume a: "unat (front b) < 2 ^ k" "unat (localTail b) = (unat (front b) + l) mod 2 ^ k" "l \<le> length xs"
    "front b \<noteq> localTail b"
  then show ?thesis by (auto simp: word_unat_eq_iff)
qed

text \<open>The test for room in a block: against the producer's copy, and against the real front.\<close>

lemma blk_room:
  assumes "blk_rep b xs" "(tail b + 1) AND sizeMask b \<noteq> localFront b"
  shows "length xs < blk_cap b"
proof (rule blk_repE [OF assms(1)])
  fix k m assume a: "unat (sizeMask b) + 1 = 2 ^ k" "m < 2 ^ k" "length xs \<le> m" "unat (localFront b) < 2 ^ k"
    "unat (tail b) = (unat (localFront b) + m) mod 2 ^ k"
  have "unat ((tail b + 1) AND sizeMask b) = (unat (localFront b) + Suc m) mod 2 ^ k"
    by (simp add: unat_incr_and_pow2 [OF a(1)] a(5) mod_Suc_eq)
  then have "m \<noteq> 2 ^ k - 1"
    using assms(2) a(4) by (auto simp: word_unat_eq_iff)
  then show ?thesis using a(1-3) by (simp add: blk_cap_def)
qed

lemma blk_full_iff:
  assumes "blk_rep b xs"
  shows "(tail b + 1) AND sizeMask b = front b \<longleftrightarrow> length xs = blk_cap b"
proof (rule blk_repE [OF assms(1)])
  fix k assume a: "unat (sizeMask b) + 1 = 2 ^ k" "unat (front b) < 2 ^ k" "length xs < 2 ^ k"
    "unat (tail b) = (unat (front b) + length xs) mod 2 ^ k"
  have e: "unat ((tail b + 1) AND sizeMask b) = (unat (front b) + Suc (length xs)) mod 2 ^ k"
    by (simp add: unat_incr_and_pow2 [OF a(1)] a(4) mod_Suc_eq)
  show ?thesis
  proof (cases "length xs = blk_cap b")
    case True
    then have "Suc (length xs) = 2 ^ k" using a(1) by (simp add: blk_cap_def)
    then show ?thesis using e a(2) True by (simp add: word_unat_eq_iff)
  next
    case False
    then have "Suc (length xs) < 2 ^ k" using a(1,3) by (simp add: blk_cap_def)
    then show ?thesis
      using e a(2) False ring_pos_inj [of 0 "2 ^ k" "Suc (length xs)" "unat (front b)"] by (auto simp: word_unat_eq_iff)
  qed
qed

lemma blk_length: "blk_rep b xs \<Longrightarrow> length xs \<le> blk_cap b"
  by (erule blk_repE) (simp add: blk_cap_def)

lemma blk_refresh_tail [inv_intros]: "blk_rep b xs \<Longrightarrow> blk_rep (b\<lparr>localTail := tail b\<rparr>) xs"
  unfolding blk_rep_def by auto

lemma blk_refresh_front [inv_intros]: "blk_rep b xs \<Longrightarrow> blk_rep (b\<lparr>localFront := front b\<rparr>) xs"
  unfolding blk_rep_def by auto

lemma blk_next [inv_intros]: "blk_rep b xs \<Longrightarrow> blk_rep (b\<lparr>rw_next := n\<rparr>) xs"
  unfolding blk_rep_def by auto

lemma blk_front_slot: "blk_rep b (x # xs) \<Longrightarrow> data b ! unat (front b) = Some x"
  by (erule blk_repE) (metis add_0_right length_Cons mod_less nth_Cons_0 zero_less_Suc)

lemma blk_take:
  assumes "blk_rep b (x # xs)" "front b \<noteq> localTail b"
  shows "blk_rep (b\<lparr>data := (data b)[unat (front b) := None], front := (front b + 1) AND sizeMask b\<rparr>) xs"
proof (rule blk_repE [OF assms(1)])
  fix k l m assume a: "1 \<le> k" "unat (sizeMask b) + 1 = 2 ^ k" "length (data b) = 2 ^ k"
    "unat (front b) < 2 ^ k" "length (x # xs) < 2 ^ k" "unat (tail b) = (unat (front b) + length (x # xs)) mod 2 ^ k"
    "l \<le> length (x # xs)" "unat (localTail b) = (unat (front b) + l) mod 2 ^ k"
    "length (x # xs) \<le> m" "m < 2 ^ k" "unat (localFront b) < 2 ^ k"
    "unat (tail b) = (unat (localFront b) + m) mod 2 ^ k"
    and live: "\<And>i. i < length (x # xs) \<Longrightarrow> data b ! ((unat (front b) + i) mod 2 ^ k) = Some ((x # xs) ! i)"
    and raw: "\<And>i. length (x # xs) \<le> i \<Longrightarrow> i < 2 ^ k \<Longrightarrow> data b ! ((unat (front b) + i) mod 2 ^ k) = None"
  let ?f = "unat (front b)"
  have f: "unat ((front b + 1) AND sizeMask b) = (?f + 1) mod 2 ^ k"
    by (rule unat_incr_and_pow2 [OF a(2)])
  have l: "l \<noteq> 0" using a(4,8) assms(2) by (cases l) (auto simp: word_unat_eq_iff)
  have other: "(?f + i) mod 2 ^ k \<noteq> ?f" if "0 < i" "i < 2 ^ k" for i
    using ring_pos_inj [of 0 "2 ^ k" i ?f] that a(4) by auto
  have upd: "(data b)[?f := None] ! ((?f + i) mod 2 ^ k) = data b ! ((?f + i) mod 2 ^ k)" if "0 < i" "i < 2 ^ k" for i
    using other [OF that] by simp
  let ?b = "b\<lparr>data := (data b)[?f := None], front := (front b + 1) AND sizeMask b\<rparr>"
  have pos: "(unat (front ?b) + i) mod 2 ^ k = (?f + Suc i) mod 2 ^ k" for i
    by (simp add: f ring_shift [simplified])
  show ?thesis
  proof (rule blk_repI [where k = k and l = "l - 1" and m = m])
    show "data ?b ! ((unat (front ?b) + i) mod 2 ^ k) = Some (xs ! i)" if "i < length xs" for i
      using live [of "Suc i"] that a(5) unfolding pos by (simp add: upd del: add_Suc_right)
    show "data ?b ! ((unat (front ?b) + i) mod 2 ^ k) = None" if i: "length xs \<le> i" "i < 2 ^ k" for i
    proof (cases "Suc i = 2 ^ k")
      case True
      then show ?thesis using a(3,4) unfolding pos by (simp del: add_Suc_right)
    next
      case False
      then have "Suc i < 2 ^ k" using i by simp
      then show ?thesis using raw [of "Suc i"] i unfolding pos by (simp add: upd del: add_Suc_right)
    qed
    show "unat (localTail ?b) = (unat (front ?b) + (l - 1)) mod 2 ^ k"
      unfolding pos using a(8) l by simp
    show "unat (tail ?b) = (unat (front ?b) + length xs) mod 2 ^ k"
      unfolding pos using a(6) by simp
  qed (use a f in simp_all)
qed

lemma blk_put:
  assumes "blk_rep b xs" "length xs < blk_cap b"
    and "(tail b + 1) AND sizeMask b \<noteq> localFront b"
  shows "blk_rep (b\<lparr>data := (data b)[unat (tail b) := Some x], tail := (tail b + 1) AND sizeMask b\<rparr>) (xs @ [x])"
proof (rule blk_repE [OF assms(1)])
  fix k l m assume a: "1 \<le> k" "unat (sizeMask b) + 1 = 2 ^ k" "length (data b) = 2 ^ k"
    "unat (front b) < 2 ^ k" "length xs < 2 ^ k" "unat (tail b) = (unat (front b) + length xs) mod 2 ^ k"
    "l \<le> length xs" "unat (localTail b) = (unat (front b) + l) mod 2 ^ k"
    "length xs \<le> m" "m < 2 ^ k" "unat (localFront b) < 2 ^ k"
    "unat (tail b) = (unat (localFront b) + m) mod 2 ^ k"
    and live: "\<And>i. i < length xs \<Longrightarrow> data b ! ((unat (front b) + i) mod 2 ^ k) = Some (xs ! i)"
    and raw: "\<And>i. length xs \<le> i \<Longrightarrow> i < 2 ^ k \<Longrightarrow> data b ! ((unat (front b) + i) mod 2 ^ k) = None"
  let ?f = "unat (front b)"
  have len: "Suc (length xs) < 2 ^ k" using assms(2) a(2) by (simp add: blk_cap_def)
  have t: "unat ((tail b + 1) AND sizeMask b) = (unat (tail b) + 1) mod 2 ^ k"
    by (rule unat_incr_and_pow2 [OF a(2)])
  have t1: "(unat (tail b) + 1) mod 2 ^ k = (?f + length (xs @ [x])) mod 2 ^ k"
    using a(6) by (simp add: mod_Suc_eq)
  have t2: "(unat (tail b) + 1) mod 2 ^ k = (unat (localFront b) + Suc m) mod 2 ^ k"
    using a(12) by (simp add: mod_Suc_eq)
  have m: "Suc m < 2 ^ k"
    using a(10,11) assms(3) t t2 by (cases "Suc m = 2 ^ k") (auto simp: word_unat_eq_iff)
  have upd: "(data b)[unat (tail b) := Some x] ! ((?f + i) mod 2 ^ k)
      = (if i = length xs then Some x else data b ! ((?f + i) mod 2 ^ k))" if "i < 2 ^ k" for i
    using ring_pos_inj [of i "2 ^ k" "length xs" ?f] that a(3,5,6) by (auto simp: nth_list_update)
  show ?thesis
  proof (rule blk_repI [where k = k and l = l and m = "Suc m"])
    let ?b = "b\<lparr>data := (data b)[unat (tail b) := Some x], tail := (tail b + 1) AND sizeMask b\<rparr>"
    show "data ?b ! ((unat (front ?b) + i) mod 2 ^ k) = Some ((xs @ [x]) ! i)" if "i < length (xs @ [x])" for i
      using upd [of i] live [of i] that len by (auto simp: nth_append)
    show "data ?b ! ((unat (front ?b) + i) mod 2 ^ k) = None" if "length (xs @ [x]) \<le> i" "i < 2 ^ k" for i
      using upd [of i] raw [of i] that by simp
    show "unat (tail ?b) = (unat (front ?b) + length (xs @ [x])) mod 2 ^ k"
      "unat (tail ?b) = (unat (localFront ?b) + Suc m) mod 2 ^ k"
      using t t1 t2 by simp_all
  qed (use a len m in simp_all)
qed

lemma blk_new:
  assumes "unat n = 2 ^ k" "1 \<le> k"
  shows "blk_rep (Block_new n) []" "blk_cap (Block_new n :: 'a rwblock) = 2 ^ k - 1"
proof -
  have "n \<noteq> 0" using assms(1) by (auto simp: word_unat_eq_iff)
  then have m: "unat (n - 1) = 2 ^ k - 1"
    using assms(1) by (simp add: unat_minus_one)
  then show "blk_rep (Block_new n) []"
    using assms
    by (intro blk_repI [where k = k and l = 0 and m = 0]) (simp_all add: Block_new_def)
  show "blk_cap (Block_new n :: 'a rwblock) = 2 ^ k - 1"
    by (simp add: blk_cap_def Block_new_def m)
qed

lemma blk_new_put:
  assumes "blk_rep (Block_new n) []"
  shows "blk_rep ((Block_new n)\<lparr>data := (data (Block_new n))[0 := Some x], tail := 1, localTail := 1, rw_next := nx\<rparr>) [x]"
proof (rule blk_repE [OF assms])
  fix k assume a: "1 \<le> k" "unat (sizeMask (Block_new n :: 'a rwblock)) + 1 = 2 ^ k"
    "length (data (Block_new n :: 'a rwblock)) = 2 ^ k"
    and raw: "\<And>i. length ([] :: 'a list) \<le> i \<Longrightarrow> i < 2 ^ k
      \<Longrightarrow> data (Block_new n) ! ((unat (front (Block_new n :: 'a rwblock)) + i) mod 2 ^ k) = (None :: 'a option)"
  have k: "(1 :: nat) < 2 ^ k" using one_less_power [of "2 :: nat" k] a(1) by simp
  show ?thesis
    using a k raw
    by (intro blk_repI [where k = k and l = 1 and m = 1]) (auto simp: Block_new_def nth_list_update)
qed

subsection \<open>The ring of blocks\<close>

text \<open>
  \<open>rw_rep q ps t xss\<close>: following \<open>next\<close> from the front block visits the blocks \<open>ps\<close> and comes back;
  the tail block is number \<open>t\<close> of them; block \<open>j\<close> holds \<open>xss ! j\<close>. Behind the front block, the
  blocks before the tail are full, the tail block is not empty, and those after it are empty.
\<close>

definition rw_rep :: "'a rwq \<Rightarrow> nat list \<Rightarrow> nat \<Rightarrow> 'a list list \<Rightarrow> bool" where
  "rw_rep q ps t xss \<longleftrightarrow>
     distinct ps \<and> set ps = {..<length (blocks q)} \<and> t < length ps \<and> length xss = length ps
     \<and> ps ! 0 = frontBlock q \<and> ps ! t = tailBlock q
     \<and> (\<forall>j < length ps. rw_next (blocks q ! (ps ! j)) = Some (rotate1 ps ! j))
     \<and> (\<forall>j < length ps. blk_rep (blocks q ! (ps ! j)) (xss ! j))
     \<and> (\<forall>j. 0 < j \<and> j \<le> t \<longrightarrow> xss ! j \<noteq> [])
     \<and> (\<forall>j. 0 < j \<and> j < t \<longrightarrow> length (xss ! j) = blk_cap (blocks q ! (ps ! j)))
     \<and> (\<forall>j. t < j \<and> j < length ps \<longrightarrow> xss ! j = [])"

lemma rw_repD:
  assumes "rw_rep q ps t xss"
  shows "distinct ps" "set ps = {..<length (blocks q)}" "t < length ps" "length xss = length ps"
    "ps ! 0 = frontBlock q" "ps ! t = tailBlock q"
    "\<And>j. j < length ps \<Longrightarrow> rw_next (blocks q ! (ps ! j)) = Some (rotate1 ps ! j)"
    "\<And>j. j < length ps \<Longrightarrow> blk_rep (blocks q ! (ps ! j)) (xss ! j)"
    "\<And>j. 0 < j \<Longrightarrow> j \<le> t \<Longrightarrow> xss ! j \<noteq> []"
    "\<And>j. 0 < j \<Longrightarrow> j < t \<Longrightarrow> length (xss ! j) = blk_cap (blocks q ! (ps ! j))"
    "\<And>j. t < j \<Longrightarrow> j < length ps \<Longrightarrow> xss ! j = []"
  using assms unfolding rw_rep_def by blast+

lemma rw_rep_bound: "rw_rep q ps t xss \<Longrightarrow> j < length ps \<Longrightarrow> ps ! j < length (blocks q)"
  using rw_repD(2) by (metis lessThan_iff nth_mem)

lemma rw_rep_length: "rw_rep q ps t xss \<Longrightarrow> length (blocks q) = length ps"
  by (metis card_lessThan distinct_card rw_repD(1,2))

lemma rw_rep_upd:
  assumes rep: "rw_rep q ps t xss" and j: "j < length ps"
    and b: "blk_rep (f (blocks q ! (ps ! j))) ys" "rw_next (f (blocks q ! (ps ! j))) = rw_next (blocks q ! (ps ! j))"
      "blk_cap (f (blocks q ! (ps ! j))) = blk_cap (blocks q ! (ps ! j))"
    and s: "0 < j \<Longrightarrow> j \<le> t \<Longrightarrow> ys \<noteq> []" "0 < j \<Longrightarrow> j < t \<Longrightarrow> length ys = length (xss ! j)" "t < j \<Longrightarrow> ys = []"
  shows "rw_rep (upd_block (ps ! j) f q) ps t (xss[j := ys])"
proof -
  have eq: "(blocks q)[ps ! j := f (blocks q ! (ps ! j))] ! (ps ! i)
      = (if i = j then f (blocks q ! (ps ! j)) else blocks q ! (ps ! i))" if "i < length ps" for i
    using rw_rep_bound [OF rep j] rw_repD(1) [OF rep] j that by (auto simp: nth_list_update nth_eq_iff_index_eq)
  show ?thesis
    unfolding rw_rep_def using rw_repD [OF rep] j b s eq
    by (auto simp: nth_list_update)
qed

lemma rw_rep_refresh_tail:
  assumes "rw_rep q ps t xss" "j < length ps"
  shows "rw_rep (refresh_localTail (ps ! j) q) ps t xss"
proof -
  have "rw_rep (refresh_localTail (ps ! j) q) ps t (xss[j := xss ! j])"
    unfolding refresh_localTail_def
    using rw_repD [OF assms(1)] assms(2)
    by (intro rw_rep_upd [OF assms]) (auto intro: blk_refresh_tail simp: blk_cap_def)
  then show ?thesis by simp
qed

lemma rw_rep_refresh_front:
  assumes "rw_rep q ps t xss" "j < length ps"
  shows "rw_rep (refresh_localFront (ps ! j) q) ps t xss"
proof -
  have "rw_rep (refresh_localFront (ps ! j) q) ps t (xss[j := xss ! j])"
    unfolding refresh_localFront_def
    using rw_repD [OF assms(1)] assms(2)
    by (intro rw_rep_upd [OF assms]) (auto intro: blk_refresh_front simp: blk_cap_def)
  then show ?thesis by simp
qed

text \<open>The consumer moves on from its empty front block.\<close>

lemma rw_rep_advance:
  assumes rep: "rw_rep q ps t xss" and t: "0 < t" and e: "xss ! 0 = []"
  shows "rw_rep (q\<lparr>frontBlock := ps ! 1\<rparr>) (rotate1 ps) (t - 1) (rotate1 xss)"
    "concat (rotate1 xss) = concat xss"
proof -
  obtain p ps' where ps: "ps = p # ps'" using rw_repD(3) [OF rep] by (cases ps) auto
  obtain xs' where xss: "xss = [] # xs'" using rw_repD(4) [OF rep] ps e by (cases xss) auto
  have len: "length xs' = length ps'" "t - 1 < length ps'"
    using rw_repD(3,4) [OF rep] t by (auto simp: ps xss)
  have nx: "rw_next (blocks q ! p) = Some (ps' ! 0)"
    using rw_repD(7) [OF rep, of 0] len(2) by (cases ps') (auto simp: ps)
  show "rw_rep (q\<lparr>frontBlock := ps ! 1\<rparr>) (rotate1 ps) (t - 1) (rotate1 xss)"
    unfolding rw_rep_def
  proof (intro conjI)
    show "\<forall>j < length (rotate1 ps). rw_next (blocks (q\<lparr>frontBlock := ps ! 1\<rparr>) ! (rotate1 ps ! j))
        = Some (rotate1 (rotate1 ps) ! j)"
    proof (intro allI impI)
      fix j assume j: "j < length (rotate1 ps)"
      show "rw_next (blocks (q\<lparr>frontBlock := ps ! 1\<rparr>) ! (rotate1 ps ! j)) = Some (rotate1 (rotate1 ps) ! j)"
      proof (cases "j < length ps'")
        case True
        have "rotate1 (rotate1 ps) ! j = rotate1 ps ! (Suc j)"
          using True by (cases ps') (auto simp: ps nth_append less_Suc_eq)
        then show ?thesis
          using rw_repD(7) [OF rep, of "Suc j"] True by (simp add: ps nth_append)
      next
        case False
        then have "j = length ps'" using j by (simp add: ps)
        then show ?thesis using nx len(2) by (cases ps') (auto simp: ps nth_append)
      qed
    qed
    show "\<forall>j < length (rotate1 ps). blk_rep (blocks (q\<lparr>frontBlock := ps ! 1\<rparr>) ! (rotate1 ps ! j)) (rotate1 xss ! j)"
    proof (intro allI impI)
      fix j assume "j < length (rotate1 ps)"
      then show "blk_rep (blocks (q\<lparr>frontBlock := ps ! 1\<rparr>) ! (rotate1 ps ! j)) (rotate1 xss ! j)"
        using rw_repD(8) [OF rep, of "Suc j"] rw_repD(8) [OF rep, of 0] len(1)
        by (cases "j < length ps'") (auto simp: ps xss nth_append)
    qed
    show "\<forall>j. 0 < j \<and> j \<le> t - 1 \<longrightarrow> rotate1 xss ! j \<noteq> []"
      using rw_repD(9) [OF rep, of "Suc _"] len t by (auto simp: xss nth_append)
    show "\<forall>j. 0 < j \<and> j < t - 1 \<longrightarrow>
        length (rotate1 xss ! j) = blk_cap (blocks (q\<lparr>frontBlock := ps ! 1\<rparr>) ! (rotate1 ps ! j))"
      using rw_repD(10) [OF rep, of "Suc _"] len t by (auto simp: ps xss nth_append)
    show "\<forall>j. t - 1 < j \<and> j < length (rotate1 ps) \<longrightarrow> rotate1 xss ! j = []"
      using rw_repD(11) [OF rep, of "Suc _"] len t by (auto simp: ps xss nth_append)
  qed (use rw_repD [OF rep] len t in \<open>auto simp: ps xss nth_append nth_Cons'\<close>)
  show "concat (rotate1 xss) = concat xss"
    by (simp add: xss)
qed

text \<open>The producer moves on to the next block, or to a fresh one.\<close>

lemma rw_rep_tail_next:
  assumes rep: "rw_rep q ps t xss" and t: "Suc t < length ps"
    and full: "length (xss ! t) = blk_cap (blocks q ! (ps ! t))"
    and b: "blk_rep (f (blocks q ! (ps ! Suc t))) [x]"
      "rw_next (f (blocks q ! (ps ! Suc t))) = rw_next (blocks q ! (ps ! Suc t))"
      "blk_cap (f (blocks q ! (ps ! Suc t))) = blk_cap (blocks q ! (ps ! Suc t))"
  shows "rw_rep ((upd_block (ps ! Suc t) f q)\<lparr>tailBlock := ps ! Suc t\<rparr>) ps (Suc t) (xss[Suc t := [x]])"
    "concat (xss[Suc t := [x]]) = concat xss @ [x]"
proof -
  have eq: "(blocks q)[ps ! Suc t := f (blocks q ! (ps ! Suc t))] ! (ps ! i)
      = (if i = Suc t then f (blocks q ! (ps ! Suc t)) else blocks q ! (ps ! i))" if "i < length ps" for i
    using rw_rep_bound [OF rep t] rw_repD(1) [OF rep] t that by (auto simp: nth_list_update nth_eq_iff_index_eq)
  show "rw_rep ((upd_block (ps ! Suc t) f q)\<lparr>tailBlock := ps ! Suc t\<rparr>) ps (Suc t) (xss[Suc t := [x]])"
    unfolding rw_rep_def using rw_repD [OF rep] t full b eq eq [of t]
    by (auto simp: nth_list_update less_Suc_eq le_Suc_eq)
  have "concat (drop (Suc t) xss) = []"
    using rw_repD(4,11) [OF rep] by (auto simp: in_set_conv_nth)
  have d: "concat (drop (Suc (Suc t)) xss) = []"
    using rw_repD(4,11) [OF rep] by (auto simp: in_set_conv_nth)
  have "concat xss = concat (take (Suc t) xss)"
    using \<open>concat (drop (Suc t) xss) = []\<close> by (metis append_Nil2 append_take_drop_id concat_append)
  then show "concat (xss[Suc t := [x]]) = concat xss @ [x]"
    using d rw_repD(4) [OF rep] t by (simp add: upd_conv_take_nth_drop)
qed

lemma rw_rep_alloc:
  assumes rep: "rw_rep q ps t xss" and t: "Suc t = length ps"
    and full: "length (xss ! t) = blk_cap (blocks q ! (ps ! t))"
    and b: "blk_rep nb [x]" "rw_next nb = Some (frontBlock q)"
  shows "rw_rep ((upd_block (ps ! t) (\<lambda>b. b\<lparr>rw_next := Some (length (blocks q))\<rparr>) q)
      \<lparr>blocks := blocks (upd_block (ps ! t) (\<lambda>b. b\<lparr>rw_next := Some (length (blocks q))\<rparr>) q) @ [nb],
       tailBlock := length (blocks q), largestBlockSize := s\<rparr>)
      (ps @ [length (blocks q)]) (Suc t) (xss @ [[x]])"
proof -
  let ?n = "length (blocks q)"
  let ?bs = "(blocks q)[ps ! t := (blocks q ! (ps ! t))\<lparr>rw_next := Some ?n\<rparr>] @ [nb]"
  have tl: "t < length ps" using t by simp
  have eq: "?bs ! (ps ! i) = (if i = t then (blocks q ! (ps ! t))\<lparr>rw_next := Some ?n\<rparr> else blocks q ! (ps ! i))"
    if "i < length ps" for i
    using rw_rep_bound [OF rep tl] rw_rep_bound [OF rep that] rw_repD(1) [OF rep] tl that
    by (auto simp: nth_list_update nth_append nth_eq_iff_index_eq)
  have nb: "?bs ! ?n = nb" by (simp add: nth_append)
  have r: "rotate1 (ps @ [?n]) ! j = (if j = t then ?n else if j = length ps then frontBlock q else rotate1 ps ! j)"
    if "j \<le> length ps" for j
    using rw_repD(5) [OF rep] that t by (cases ps) (auto simp: nth_append)
  have n: "?n \<notin> set ps" using rw_repD(2) [OF rep] by auto
  have sz: "blk_cap (b\<lparr>rw_next := Some ?n\<rparr>) = blk_cap b" for b :: "'a rwblock" by (simp add: blk_cap_def)
  have nx: "\<forall>j < length (ps @ [?n]). rw_next (?bs ! ((ps @ [?n]) ! j)) = Some (rotate1 (ps @ [?n]) ! j)"
  proof (intro allI impI)
    fix j assume j: "j < length (ps @ [?n])"
    show "rw_next (?bs ! ((ps @ [?n]) ! j)) = Some (rotate1 (ps @ [?n]) ! j)"
      using eq [of j] nb r [of j] rw_repD(7) [OF rep, of j] b(2) t j
      by (cases "j < length ps"; cases "j = length ps") (simp_all add: nth_append [of ps] del: rotate1.simps)
  qed
  have br: "\<forall>j < length (ps @ [?n]). blk_rep (?bs ! ((ps @ [?n]) ! j)) ((xss @ [[x]]) ! j)"
  proof (intro allI impI)
    fix j assume j: "j < length (ps @ [?n])"
    show "blk_rep (?bs ! ((ps @ [?n]) ! j)) ((xss @ [[x]]) ! j)"
    proof (cases "j < length ps")
      case True
      then show ?thesis
        using eq [OF True] rw_repD(4,8) [OF rep] by (simp add: nth_append [of ps] nth_append [of xss] blk_next)
    next
      case False
      then show ?thesis
        using j nb b(1) rw_repD(4) [OF rep] by (simp add: nth_append [of ps] nth_append [of xss])
    qed
  qed
  have fl: "\<forall>j. 0 < j \<and> j < Suc t \<longrightarrow> length ((xss @ [[x]]) ! j) = blk_cap (?bs ! ((ps @ [?n]) ! j))"
  proof (intro allI impI, elim conjE)
    fix j assume j: "0 < j" "j < Suc t"
    then have "j < length ps" using t by simp
    then show "length ((xss @ [[x]]) ! j) = blk_cap (?bs ! ((ps @ [?n]) ! j))"
      using eq [of j] j rw_repD(4,10) [OF rep] full sz by (cases "j = t") (simp_all add: nth_append [of ps] nth_append [of xss])
  qed
  have hd: "(ps @ [?n]) ! 0 = frontBlock q" using rw_repD(5) [OF rep] tl by (cases ps) auto
  have ne: "\<forall>j. 0 < j \<and> j \<le> Suc t \<longrightarrow> (xss @ [[x]]) ! j \<noteq> []"
    using rw_repD(4,9) [OF rep] t by (auto simp: nth_append le_Suc_eq)
  have em: "\<forall>j. Suc t < j \<and> j < length (ps @ [?n]) \<longrightarrow> (xss @ [[x]]) ! j = []"
    using t by auto
  have st: "set (ps @ [?n]) = {..<length ?bs}" "distinct (ps @ [?n])"
    by (simp_all add: rw_repD(1,2) [OF rep] lessThan_Suc)
  have tb: "(ps @ [?n]) ! Suc t = ?n" "Suc t < length (ps @ [?n])" "length (xss @ [[x]]) = length (ps @ [?n])"
    using t rw_repD(4) [OF rep] by simp_all
  let ?q = "(upd_block (ps ! t) (\<lambda>b. b\<lparr>rw_next := Some ?n\<rparr>) q)
      \<lparr>blocks := blocks (upd_block (ps ! t) (\<lambda>b. b\<lparr>rw_next := Some ?n\<rparr>) q) @ [nb],
       tailBlock := ?n, largestBlockSize := s\<rparr>"
  have q: "blocks ?q = ?bs" "frontBlock ?q = frontBlock q" "tailBlock ?q = ?n" by simp_all
  show ?thesis
    unfolding rw_rep_def q by (intro conjI nx br fl hd ne em st tb)
qed

text \<open>The abstraction: the contents of the blocks along the ring.\<close>

definition blk_items :: "'a rwblock \<Rightarrow> 'a list" where
  "blk_items b = map (\<lambda>i. the (data b ! unat ((front b + of_nat i) AND sizeMask b)))
     [0..<unat ((tail b - front b) AND sizeMask b)]"

fun ring_from :: "'a rwq \<Rightarrow> nat \<Rightarrow> nat \<Rightarrow> 'a rwblock list" where
  "ring_from q 0 i = []"
| "ring_from q (Suc n) i =
     blocks q ! i # (case rw_next (blocks q ! i) of None \<Rightarrow> [] | Some j \<Rightarrow> ring_from q n j)"

definition rwq_list :: "'a rwq \<Rightarrow> 'a list" where
  "rwq_list q = concat (map blk_items (ring_from q (length (blocks q)) (frontBlock q)))"

lemma blk_items_rep:
  assumes "blk_rep b xs"
  shows "blk_items b = xs"
proof (rule blk_repE [OF assms])
  fix k assume a: "unat (sizeMask b) + 1 = 2 ^ k" "length xs < 2 ^ k"
    "unat (tail b) = (unat (front b) + length xs) mod 2 ^ k"
    and live: "\<And>i. i < length xs \<Longrightarrow> data b ! ((unat (front b) + i) mod 2 ^ k) = Some (xs ! i)"
  show ?thesis
    unfolding blk_items_def unat_diff_and_pow2 [OF a(1,3,2)] unat_add_and_pow2 [OF a(1)]
    using live by (intro nth_equalityI) auto
qed

lemma ring_from_rep:
  assumes rep: "rw_rep q ps t xss"
  shows "j + n \<le> length ps \<Longrightarrow> j < length ps \<Longrightarrow> ring_from q n (ps ! j) = map (\<lambda>i. blocks q ! i) (take n (drop j ps))"
proof (induction n arbitrary: j)
  case (Suc n)
  have nx: "rw_next (blocks q ! (ps ! j)) = Some (rotate1 ps ! j)"
    using rw_repD(7) [OF rep] Suc.prems by simp
  show ?case
  proof (cases "n = 0")
    case True
    then show ?thesis using Suc.prems nx by (simp add: take_Suc_conv_app_nth)
  next
    case False
    then have "rotate1 ps ! j = ps ! Suc j" using Suc.prems by (cases ps) (auto simp: nth_append)
    then show ?thesis
      using Suc.IH [of "Suc j"] Suc.prems False nx by (simp add: Cons_nth_drop_Suc [symmetric])
  qed
qed simp

lemma rwq_list_rep:
  assumes "rw_rep q ps t xss"
  shows "rwq_list q = concat xss"
proof -
  have "ring_from q (length (blocks q)) (frontBlock q) = map (\<lambda>i. blocks q ! i) ps"
    using ring_from_rep [OF assms, of 0 "length ps"] rw_repD(3,5) [OF assms] rw_rep_length [OF assms]
    by (cases ps) simp_all
  then have "map blk_items (ring_from q (length (blocks q)) (frontBlock q)) = xss"
    using rw_repD(4) [OF assms] blk_items_rep [OF rw_repD(8) [OF assms]] by (intro nth_equalityI) simp_all
  then show ?thesis by (simp add: rwq_list_def)
qed

subsection \<open>The operations on a represented queue\<close>

text \<open>What no operation of the consumer changes.\<close>

definition same_frame :: "'a rwq \<Rightarrow> 'a rwq \<Rightarrow> bool" where
  "same_frame q q' \<longleftrightarrow> largestBlockSize q' = largestBlockSize q \<and> map sizeMask (blocks q') = map sizeMask (blocks q)"

lemma same_frame_refl [simp]: "same_frame q q"
  by (simp add: same_frame_def)

lemma same_frame_trans: "same_frame q q' \<Longrightarrow> same_frame q' q'' \<Longrightarrow> same_frame q q''"
  by (simp add: same_frame_def)

lemma map_upd_same: "f y = f (xs ! i) \<Longrightarrow> map f (xs[i := y]) = map f xs"
  by (metis list_update_id map_update)

lemma same_frame_upd: "(\<And>b. sizeMask (f b) = sizeMask b) \<Longrightarrow> same_frame q (upd_block i f q)"
  by (simp add: same_frame_def map_upd_same)

lemma same_frame_refresh [simp]:
  "same_frame q (refresh_localTail i q') = same_frame q q'" "same_frame q (refresh_localFront i q') = same_frame q q'"
  "same_frame q (q'\<lparr>frontBlock := j\<rparr>) = same_frame q q'" "same_frame q (q'\<lparr>tailBlock := j\<rparr>) = same_frame q q'"
  by (simp_all add: same_frame_def refresh_localTail_def refresh_localFront_def map_upd_same)

lemma refresh_fields [simp]:
  "frontBlock (refresh_localTail i q) = frontBlock q" "tailBlock (refresh_localTail i q) = tailBlock q"
  "largestBlockSize (refresh_localTail i q) = largestBlockSize q"
  "frontBlock (refresh_localFront i q) = frontBlock q" "tailBlock (refresh_localFront i q) = tailBlock q"
  "largestBlockSize (refresh_localFront i q) = largestBlockSize q"
  "length (blocks (refresh_localTail i q)) = length (blocks q)"
  "length (blocks (refresh_localFront i q)) = length (blocks q)"
  by (simp_all add: refresh_localTail_def refresh_localFront_def)

lemma refresh_localTail_at:
  "j < length (blocks q) \<Longrightarrow> blocks (refresh_localTail i q) ! j
     = (if i = j then (blocks q ! j)\<lparr>localTail := tail (blocks q ! j)\<rparr> else blocks q ! j)"
  by (auto simp: refresh_localTail_def nth_list_update)

lemma refresh_localFront_at:
  "j < length (blocks q) \<Longrightarrow> blocks (refresh_localFront i q) ! j
     = (if i = j then (blocks q ! j)\<lparr>localFront := front (blocks q ! j)\<rparr> else blocks q ! j)"
  by (auto simp: refresh_localFront_def nth_list_update)

lemma concat_upd_hd:
  assumes "xss \<noteq> []" "xss ! 0 \<noteq> []"
  shows "concat (xss[0 := tl (xss ! 0)]) = tl (concat xss)" "hd (concat xss) = hd (xss ! 0)" "concat xss \<noteq> []"
  using assms by (cases xss; simp)+

lemma take_front_rep:
  assumes rep: "rw_rep q ps t xss" and ne: "xss ! 0 \<noteq> []"
    and lt: "front (blocks q ! frontBlock q) \<noteq> localTail (blocks q ! frontBlock q)"
  shows "\<exists>q'. take_front (frontBlock q) (front (blocks q ! frontBlock q)) q = Inr (Some (hd (concat xss)), q')
    \<and> rw_rep q' ps t (xss[0 := tl (xss ! 0)]) \<and> concat (xss[0 := tl (xss ! 0)]) = tl (concat xss) \<and> same_frame q q'"
proof -
  have l: "0 < length ps" using rw_repD(3) [OF rep] by auto
  have x: "xss \<noteq> []" using rw_repD(4) [OF rep] l by auto
  have p: "ps ! 0 = frontBlock q" by (rule rw_repD(5) [OF rep])
  have b: "blk_rep (blocks q ! frontBlock q) (hd (xss ! 0) # tl (xss ! 0))"
    using rw_repD(8) [OF rep l] ne p by simp
  let ?f = "\<lambda>b. b\<lparr>data := (data b)[unat (front (blocks q ! frontBlock q)) := None],
      front := (front (blocks q ! frontBlock q) + 1) AND sizeMask b\<rparr>"
  have "rw_rep (upd_block (ps ! 0) ?f q) ps t (xss[0 := tl (xss ! 0)])"
    by (rule rw_rep_upd [OF rep l]) (use blk_take [OF b lt] in \<open>simp_all add: p blk_cap_def\<close>)
  then show ?thesis
    using blk_front_slot [OF b] concat_upd_hd [OF x ne] p
    by (simp add: take_front_def same_frame_def map_upd_same)
qed

lemma try_dequeue_rep:
  assumes rep: "rw_rep q ps t xss"
  shows "\<exists>q' ps' t' xss'. try_dequeue q = Inr (case concat xss of [] \<Rightarrow> None | x # _ \<Rightarrow> Some x, q')
    \<and> rw_rep q' ps' t' xss' \<and> concat xss' = tl (concat xss) \<and> same_frame q q'"
proof -
  let ?b = "blocks q ! frontBlock q"
  let ?q = "refresh_localTail (frontBlock q) q"
  have l: "0 < length ps" using rw_repD(3) [OF rep] by auto
  have p: "ps ! 0 = frontBlock q" by (rule rw_repD(5) [OF rep])
  have bl: "frontBlock q < length (blocks q)" using rw_rep_bound [OF rep l] p by simp
  have b: "blk_rep ?b (xss ! 0)" using rw_repD(8) [OF rep l] p by simp
  have rep1: "rw_rep ?q ps t xss" using rw_rep_refresh_tail [OF rep l] p by simp
  have x: "xss \<noteq> []" using rw_repD(4) [OF rep] l by auto
  consider (fast) "front ?b \<noteq> localTail ?b" | (slow) "front ?b = localTail ?b" "front ?b \<noteq> tail ?b"
    | (adv) "front ?b = localTail ?b" "front ?b = tail ?b" "0 < t"
    | (empty) "front ?b = localTail ?b" "front ?b = tail ?b" "t = 0" using gr0I by blast
  then show ?thesis
  proof cases
    case fast
    have ne: "xss ! 0 \<noteq> []" by (rule blk_localTail_less [OF b fast])
    show ?thesis
      using take_front_rep [OF rep ne fast] concat_upd_hd [OF x ne] fast
      by (cases "concat xss") (auto simp: try_dequeue_def Let_def)
  next
    case slow
    have ne: "xss ! 0 \<noteq> []" using blk_empty_iff [OF b] slow by simp
    obtain q' where q': "take_front (frontBlock q) (front ?b) ?q = Inr (Some (hd (concat xss)), q')"
      "rw_rep q' ps t (xss[0 := tl (xss ! 0)])" "same_frame ?q q'"
      using take_front_rep [OF rep1 ne] slow bl by (auto simp: refresh_localTail_at)
    have "try_dequeue q = Inr (Some (hd (concat xss)), q')"
      using q'(1) slow bl by (simp add: try_dequeue_def Let_def refresh_localTail_at)
    moreover have "same_frame q q'" using same_frame_trans [OF _ q'(3)] by simp
    moreover have "Some (hd (concat xss)) = (case concat xss of [] \<Rightarrow> None | x # _ \<Rightarrow> Some x)"
      using concat_upd_hd(3) [OF x ne] by (cases "concat xss") auto
    ultimately show ?thesis
      using q'(2) concat_upd_hd(1) [OF x ne] by metis
  next
    case adv
    have e: "xss ! 0 = []" using blk_empty_iff [OF b] adv by simp
    have l1: "Suc 0 < length ps" using rw_repD(3) [OF rep] adv by simp
    have r1: "rotate1 ps ! 0 = ps ! 1" using l1 by (cases ps; cases "tl ps") auto
    have nx: "rw_next ?b = Some (ps ! 1)" using rw_repD(7) [OF rep l] r1 p by simp
    have ne1: "xss ! 1 \<noteq> []" using rw_repD(9) [OF rep, of 1] adv by simp
    have b1: "blk_rep (blocks q ! (ps ! 1)) (xss ! 1)" using rw_repD(8) [OF rep, of 1] l1 by simp
    have neq: "frontBlock q \<noteq> ps ! 1" "frontBlock q \<noteq> tailBlock q"
      using rw_repD(1,3,5,6) [OF rep] l1 l adv by (metis nth_eq_iff_index_eq One_nat_def zero_neq_one less_irrefl)+
    have bl1: "ps ! 1 < length (blocks q)" using rw_rep_bound [OF rep, of 1] l1 by simp
    let ?q2 = "refresh_localTail (ps ! 1) (refresh_localTail (frontBlock q) ?q)"
    have rep2: "rw_rep (refresh_localTail (frontBlock q) ?q) ps t xss"
      using rw_rep_refresh_tail [OF rep1 l] p by simp
    have "rw_rep ?q2 ps t xss" using rw_rep_refresh_tail [OF rep2, of 1] l1 by simp
    note adv3 = rw_rep_advance [OF this adv(3) e]
    have ne2: "rotate1 xss ! 0 \<noteq> []" using ne1 l1 rw_repD(4) [OF rep] by (cases xss; cases "tl xss") auto
    have x2: "rotate1 xss \<noteq> []" using x by simp
    have d: "front (blocks q ! (ps ! 1)) \<noteq> tail (blocks q ! (ps ! 1))" using blk_empty_iff [OF b1] ne1 by simp
    have fr: "same_frame q (?q2\<lparr>frontBlock := ps ! 1\<rparr>)"
      by simp
    obtain q' where q': "take_front (ps ! 1) (front (blocks ?q2 ! (ps ! 1))) (?q2\<lparr>frontBlock := ps ! 1\<rparr>)
        = Inr (Some (hd (concat (rotate1 xss))), q')"
      "rw_rep q' (rotate1 ps) (t - 1) ((rotate1 xss)[0 := tl (rotate1 xss ! 0)])"
      "same_frame (?q2\<lparr>frontBlock := ps ! 1\<rparr>) q'"
      using take_front_rep [OF adv3(1) ne2] d bl1 neq by (auto simp: refresh_localTail_at)
    have dq: "try_dequeue q = Inr (Some (hd (concat xss)), q')"
      using q'(1) adv nx neq d bl bl1 adv3(2) by (simp add: try_dequeue_def Let_def refresh_localTail_at)
    show ?thesis
      unfolding dq
      using q'(2) concat_upd_hd [OF x2 ne2] adv3(2) same_frame_trans [OF fr q'(3)]
      by (cases "concat xss") auto
  next
    case empty
    have "xss ! j = []" if "j < length xss" for j
      using blk_empty_iff [OF b] empty rw_repD(11) [OF rep, of j] rw_repD(4) [OF rep] that by (cases "j = 0") auto
    then have e: "concat xss = []" by (auto simp: in_set_conv_nth)
    have "frontBlock q = tailBlock q" using rw_repD(5,6) [OF rep] empty by simp
    then have "try_dequeue q = Inr (None, ?q)"
      using empty bl by (simp add: try_dequeue_def Let_def refresh_localTail_at)
    then show ?thesis
      unfolding e by (intro exI [of _ ?q] exI [of _ ps] exI [of _ t] exI [of _ xss]) (simp add: rep1 e del: concat_eq_Nil_conv)
  qed
qed

text \<open>\<open>pop\<close> is \<open>try_dequeue\<close> with the element dropped.\<close>

lemma pop_try_dequeue: "pop q = bindE (try_dequeue q) (\<lambda>(r, q'). Inr (r \<noteq> None, q'))"
proof -
  have t: "bindE (take_front i f q) (\<lambda>(r, q'). Inr (\<exists>y. r = Some y, q')) = destroy_front i f q" for i f and q :: "'a rwq"
    by (simp add: destroy_front_def take_front_def split: option.split)
  show ?thesis
    by (simp add: pop_def try_dequeue_def Let_def t split: option.split)
qed

lemma peek_rep:
  assumes rep: "rw_rep q ps t xss"
  shows "\<exists>r q'. peek q = Inr (r, q') \<and> rw_rep q' ps t xss \<and> same_frame q q'
    \<and> (case r of None \<Rightarrow> concat xss = []
        | Some (i, s) \<Rightarrow> concat xss \<noteq> [] \<and> data (blocks q ! i) ! unat s = Some (hd (concat xss)))"
proof -
  let ?b = "blocks q ! frontBlock q"
  let ?q = "refresh_localTail (frontBlock q) q"
  have l: "0 < length ps" using rw_repD(3) [OF rep] by auto
  have p: "ps ! 0 = frontBlock q" by (rule rw_repD(5) [OF rep])
  have bl: "frontBlock q < length (blocks q)" using rw_rep_bound [OF rep l] p by simp
  have b: "blk_rep ?b (xss ! 0)" using rw_repD(8) [OF rep l] p by simp
  have rep1: "rw_rep ?q ps t xss" using rw_rep_refresh_tail [OF rep l] p by simp
  have rep2: "rw_rep (refresh_localTail (frontBlock q) ?q) ps t xss" using rw_rep_refresh_tail [OF rep1 l] p by simp
  have fr: "same_frame q (refresh_localTail (frontBlock q) ?q)"
    by simp
  have x: "xss \<noteq> []" using rw_repD(4) [OF rep] l by auto
  have slot: "data ?b ! unat (front ?b) = Some (hd (concat xss)) \<and> concat xss \<noteq> []" if "xss ! 0 \<noteq> []"
    using blk_front_slot [of ?b "hd (xss ! 0)" "tl (xss ! 0)"] b concat_upd_hd [OF x that] that by simp
  consider (fast) "front ?b \<noteq> localTail ?b" | (slow) "front ?b = localTail ?b" "front ?b \<noteq> tail ?b"
    | (adv) "front ?b = localTail ?b" "front ?b = tail ?b" "0 < t"
    | (empty) "front ?b = localTail ?b" "front ?b = tail ?b" "t = 0" using gr0I by blast
  then show ?thesis
  proof cases
    case fast
    then show ?thesis
      using slot [OF blk_localTail_less [OF b fast]] rep by (simp add: peek_def Let_def)
  next
    case slow
    then show ?thesis
      using slot blk_empty_iff [OF b] rep1 bl by (simp add: peek_def Let_def refresh_localTail_at)
  next
    case adv
    have e: "xss ! 0 = []" using blk_empty_iff [OF b] adv by simp
    have l1: "Suc 0 < length ps" using rw_repD(3) [OF rep] adv by simp
    have r1: "rotate1 ps ! 0 = ps ! 1" using l1 by (cases ps; cases "tl ps") auto
    have nx: "rw_next ?b = Some (ps ! 1)" using rw_repD(7) [OF rep l] r1 p by simp
    have ne1: "xss ! 1 \<noteq> []" using rw_repD(9) [OF rep, of 1] adv by simp
    have b1: "blk_rep (blocks q ! (ps ! 1)) (xss ! 1)" using rw_repD(8) [OF rep, of 1] l1 by simp
    have neq: "frontBlock q \<noteq> ps ! 1" "frontBlock q \<noteq> tailBlock q"
      using rw_repD(1,3,5,6) [OF rep] l1 l adv by (metis nth_eq_iff_index_eq One_nat_def zero_neq_one less_irrefl)+
    have bl1: "ps ! 1 < length (blocks q)" using rw_rep_bound [OF rep, of 1] l1 by simp
    have d: "front (blocks q ! (ps ! 1)) \<noteq> tail (blocks q ! (ps ! 1))" using blk_empty_iff [OF b1] ne1 by simp
    have c: "concat xss = xss ! 1 @ concat (drop 2 xss)"
      using e l1 rw_repD(4) [OF rep] by (cases xss; cases "tl xss") auto
    have "data (blocks q ! (ps ! 1)) ! unat (front (blocks q ! (ps ! 1))) = Some (hd (xss ! 1))"
      using blk_front_slot [of "blocks q ! (ps ! 1)" "hd (xss ! 1)" "tl (xss ! 1)"] b1 ne1 by simp
    then show ?thesis
      using adv nx neq d bl bl1 rep2 fr ne1 c by (simp add: peek_def Let_def refresh_localTail_at)
  next
    case empty
    have "xss ! j = []" if "j < length xss" for j
      using blk_empty_iff [OF b] empty rw_repD(11) [OF rep, of j] rw_repD(4) [OF rep] that by (cases "j = 0") auto
    then have e: "concat xss = []" by (auto simp: in_set_conv_nth)
    have "frontBlock q = tailBlock q" using rw_repD(5,6) [OF rep] empty by simp
    then show ?thesis
      using empty e rep1 bl by (simp add: peek_def Let_def refresh_localTail_at)
  qed
qed

text \<open>What an enqueue may change: one block of the new largest size may be added.\<close>

definition pow2 :: "u64 \<Rightarrow> bool" where
  "pow2 w \<longleftrightarrow> (\<exists>k \<ge> 1. unat w = 2 ^ k)"

definition grown :: "'a rwq \<Rightarrow> 'a rwq \<Rightarrow> bool" where
  "grown q q' \<longleftrightarrow> same_frame q q'
     \<or> unat (largestBlockSize q) \<le> unat (largestBlockSize q')
       \<and> map sizeMask (blocks q') = map sizeMask (blocks q) @ [largestBlockSize q' - 1]"

definition new_block_size :: "u64 \<Rightarrow> u64 \<Rightarrow> u64" where
  "new_block_size MAX_BLOCK_SIZE largest = (if largest \<ge> MAX_BLOCK_SIZE then largest else largest * 2)"

lemma blk_cap_pos: "blk_rep b xs \<Longrightarrow> 0 < blk_cap b"
proof (elim blk_repE)
  fix k assume a: "1 \<le> k" "unat (sizeMask b) + 1 = 2 ^ k"
  have "(1 :: nat) < 2 ^ k" using one_less_power [of "2 :: nat" k] a(1) by simp
  then show ?thesis using a(2) by (simp add: blk_cap_def)
qed

lemma new_block_size_pow2:
  assumes "pow2 MAX_BLOCK_SIZE" "pow2 largest"
  shows "pow2 (new_block_size MAX_BLOCK_SIZE largest)" "unat largest \<le> unat (new_block_size MAX_BLOCK_SIZE largest)"
proof -
  obtain j k where j: "j \<ge> 1" "unat MAX_BLOCK_SIZE = 2 ^ j" and k: "k \<ge> 1" "unat largest = 2 ^ k"
    using assms unfolding pow2_def by blast
  have "unat (largest * 2) = 2 ^ Suc k" if "largest < MAX_BLOCK_SIZE"
  proof -
    have "(2::nat) ^ k < 2 ^ j" using that j(2) k(2) by (simp add: word_less_nat_alt)
    then have "k < j" by simp
    then have "(2::nat) ^ Suc k \<le> 2 ^ j" by (simp add: Suc_leI del: power_Suc)
    also have "\<dots> < 2 ^ 64" using unat_less_2_64 [of MAX_BLOCK_SIZE] j(2) by simp
    finally show ?thesis using k(2) by (simp add: unat_word_ariths mult.commute)
  qed
  then show "pow2 (new_block_size MAX_BLOCK_SIZE largest)" "unat largest \<le> unat (new_block_size MAX_BLOCK_SIZE largest)"
    unfolding new_block_size_def pow2_def using k by (auto simp: not_le intro: exI [of _ k] exI [of _ "Suc k"])
qed

lemma concat_upd_last:
  assumes "t < length xss" "\<And>j. t < j \<Longrightarrow> j < length xss \<Longrightarrow> xss ! j = []"
  shows "concat (xss[t := xss ! t @ [x]]) = concat xss @ [x]"
proof -
  have d: "concat (drop (Suc t) xss) = []"
    using assms(2) by (auto simp: in_set_conv_nth)
  have "concat xss = concat (take t xss) @ xss ! t"
    using d assms(1) by (metis append.right_neutral append_take_drop_id concat.simps(2) concat_append Cons_nth_drop_Suc)
  then show ?thesis
    using d assms(1) by (simp add: upd_conv_take_nth_drop)
qed

lemma put_tail_rep:
  assumes rep: "rw_rep q ps t xss"
    and room: "(tail (blocks q ! tailBlock q) + 1) AND sizeMask (blocks q ! tailBlock q) \<noteq> localFront (blocks q ! tailBlock q)"
  shows "rw_rep (put_tail (tailBlock q) (tail (blocks q ! tailBlock q))
      ((tail (blocks q ! tailBlock q) + 1) AND sizeMask (blocks q ! tailBlock q)) x q) ps t (xss[t := xss ! t @ [x]])"
    "concat (xss[t := xss ! t @ [x]]) = concat xss @ [x]"
proof -
  have l: "t < length ps" by (rule rw_repD(3) [OF rep])
  have p: "ps ! t = tailBlock q" by (rule rw_repD(6) [OF rep])
  have b: "blk_rep (blocks q ! tailBlock q) (xss ! t)" using rw_repD(8) [OF rep l] p by simp
  let ?f = "\<lambda>b. b\<lparr>data := (data b)[unat (tail (blocks q ! tailBlock q)) := Some x],
      tail := (tail (blocks q ! tailBlock q) + 1) AND sizeMask (blocks q ! tailBlock q)\<rparr>"
  have "rw_rep (upd_block (ps ! t) ?f q) ps t (xss[t := xss ! t @ [x]])"
    by (rule rw_rep_upd [OF rep l]) (use blk_put [OF b blk_room [OF b room] room] in \<open>simp_all add: p blk_cap_def\<close>)
  then show "rw_rep (put_tail (tailBlock q) (tail (blocks q ! tailBlock q))
      ((tail (blocks q ! tailBlock q) + 1) AND sizeMask (blocks q ! tailBlock q)) x q) ps t (xss[t := xss ! t @ [x]])"
    by (simp add: put_tail_def p)
  show "concat (xss[t := xss ! t @ [x]]) = concat xss @ [x]"
    using concat_upd_last [of t xss x] rw_repD(3,4,11) [OF rep] by simp
qed

lemma same_frame_put [simp]: "same_frame q (put_tail i a b x q') = same_frame q q'"
  by (simp add: put_tail_def same_frame_def map_upd_same)

lemma put_tail_fields [simp]: "largestBlockSize (put_tail i a b x q) = largestBlockSize q"
  by (simp add: put_tail_def)

text \<open>
  Enqueueing as a whole. It is refused only when no block may be allocated or \<open>malloc\<close> fails, and then
  the tail block is full and the block after it is the front block.
\<close>

lemma inner_enqueue_rep:
  assumes rep: "rw_rep q ps t xss" and pw: "pow2 M" "pow2 (largestBlockSize q)"
  shows "\<exists>b q' ps' t' xss'. inner_enqueue M ca ok x q = Inr (b, q') \<and> rw_rep q' ps' t' xss'
    \<and> concat xss' = (if b then concat xss @ [x] else concat xss) \<and> grown q q' \<and> pow2 (largestBlockSize q')
    \<and> (\<not> b \<longrightarrow> (ca = CannotAlloc \<or> \<not> ok) \<and> Suc t = length ps \<and> length (xss ! t) = blk_cap (blocks q ! (ps ! t)))"
proof -
  let ?b = "blocks q ! tailBlock q"
  let ?q = "refresh_localFront (tailBlock q) q"
  let ?nt = "(tail ?b + 1) AND sizeMask ?b"
  have l: "t < length ps" by (rule rw_repD(3) [OF rep])
  have p: "ps ! t = tailBlock q" by (rule rw_repD(6) [OF rep])
  have bl: "tailBlock q < length (blocks q)" using rw_rep_bound [OF rep l] p by simp
  have b: "blk_rep ?b (xss ! t)" using rw_repD(8) [OF rep l] p by simp
  have rep1: "rw_rep ?q ps t xss" using rw_rep_refresh_front [OF rep l] p by simp
  have nx: "rw_next ?b = Some (rotate1 ps ! t)" using rw_repD(7) [OF rep l] p by simp
  have at1: "blocks ?q ! tailBlock q = ?b\<lparr>localFront := front ?b\<rparr>" using bl by (simp add: refresh_localFront_at)
  consider (room) "?nt \<noteq> localFront ?b" | (room2) "?nt = localFront ?b" "?nt \<noteq> front ?b"
    | (nxt) "?nt = localFront ?b" "?nt = front ?b" "Suc t < length ps"
    | (full) "?nt = localFront ?b" "?nt = front ?b" "Suc t = length ps" using l by linarith
  then show ?thesis
  proof cases
    case room
    have "inner_enqueue M ca ok x q = Inr (True, put_tail (tailBlock q) (tail ?b) ?nt x q)"
      using room by (simp add: inner_enqueue_def Let_def)
    then show ?thesis
      using put_tail_rep [OF rep room, of x] pw(2) by (fastforce simp: grown_def)
  next
    case room2
    have "inner_enqueue M ca ok x q = Inr (True, put_tail (tailBlock q) (tail ?b) ?nt x ?q)"
      using room2 at1 by (simp add: inner_enqueue_def Let_def)
    then show ?thesis
      using put_tail_rep [OF rep1, of x] room2 at1 pw(2)
      by (intro exI [of _ True] exI [of _ "put_tail (tailBlock q) (tail ?b) ?nt x ?q"] exI [of _ ps] exI [of _ t]
          exI [of _ "xss[t := xss ! t @ [x]]"]) (simp add: grown_def)
  next
    case nxt
    have r: "rotate1 ps ! t = ps ! Suc t" using nxt(3) by (cases ps) (auto simp: nth_append)
    have fl: "length (xss ! t) = blk_cap (blocks q ! (ps ! t))" using blk_full_iff [OF b] nxt p by simp
    have ne: "ps ! Suc t \<noteq> frontBlock q" "ps ! Suc t \<noteq> tailBlock q"
      using rw_repD(1,3,5,6) [OF rep] nxt(3) by (metis nth_eq_iff_index_eq Zero_neq_Suc n_not_Suc_n less_imp_Suc_add gr_implies_not0 neq0_conv zero_less_Suc)+
    have bl2: "ps ! Suc t < length (blocks q)" by (rule rw_rep_bound [OF rep nxt(3)])
    let ?q2 = "refresh_localFront (ps ! Suc t) ?q"
    let ?b2 = "blocks q ! (ps ! Suc t)"
    have rep2: "rw_rep ?q2 ps t xss" using rw_rep_refresh_front [OF rep1 nxt(3)] .
    have b2: "blk_rep ?b2 []" using rw_repD(8,11) [OF rep, of "Suc t"] nxt(3) by simp
    have e2: "front ?b2 = tail ?b2" using blk_empty_iff [OF b2] by simp
    have at2: "blocks ?q2 ! (ps ! Suc t) = ?b2\<lparr>localFront := front ?b2\<rparr>"
      using bl2 ne by (simp add: refresh_localFront_at)
    have at3: "blocks ?q2 ! (ps ! t) = ?b\<lparr>localFront := front ?b\<rparr>"
      using bl ne p by (simp add: refresh_localFront_at)
    let ?n2 = "(tail ?b2 + 1) AND sizeMask ?b2"
    let ?f = "\<lambda>b. b\<lparr>data := (data b)[unat (tail ?b2) := Some x], tail := ?n2\<rparr>"
    have b3: "blk_rep (blocks ?q2 ! (ps ! Suc t)) []" using at2 blk_refresh_front [OF b2] by simp
    have cap: "0 < blk_cap ?b2" by (rule blk_cap_pos [OF b2])
    have nf: "?n2 \<noteq> front ?b2" using blk_full_iff [OF b2] cap by simp
    have "blk_rep (?f (blocks ?q2 ! (ps ! Suc t))) [x]"
      using blk_put [OF b3] nf cap at2 by (simp add: blk_cap_def)
    note nxt_rep = rw_rep_tail_next [OF rep2 nxt(3), where f = ?f, OF _ this]
    have "inner_enqueue M ca ok x q
        = Inr (True, (put_tail (ps ! Suc t) (tail ?b2) ?n2 x ?q2)\<lparr>tailBlock := ps ! Suc t\<rparr>)"
      using nxt at1 at2 nx r ne e2 by (simp add: inner_enqueue_def Let_def)
    moreover have "rw_rep ((put_tail (ps ! Suc t) (tail ?b2) ?n2 x ?q2)\<lparr>tailBlock := ps ! Suc t\<rparr>) ps (Suc t) (xss[Suc t := [x]])"
      "concat (xss[Suc t := [x]]) = concat xss @ [x]"
      using nxt_rep fl at3 p by (simp_all add: blk_cap_def put_tail_def)
    ultimately show ?thesis
      using pw(2) by (fastforce simp: grown_def)
  next
    case full
    have r: "rotate1 ps ! t = frontBlock q" using full(3) rw_repD(5) [OF rep] by (cases ps) (auto simp: nth_append)
    have fl: "length (xss ! t) = blk_cap (blocks q ! (ps ! t))" using blk_full_iff [OF b] full p by simp
    let ?s = "new_block_size M (largestBlockSize q)"
    note s = new_block_size_pow2 [OF pw]
    show ?thesis
    proof (cases "ca = CanAlloc \<and> ok")
      case True
      obtain k where k: "1 \<le> k" "unat ?s = 2 ^ k" using s(1) unfolding pow2_def by blast
      let ?nb = "(Block_new ?s)\<lparr>data := (data (Block_new ?s))[0 := Some x], tail := 1, localTail := 1,
          rw_next := Some (frontBlock q)\<rparr>"
      let ?q' = "(upd_block (ps ! t) (\<lambda>b. b\<lparr>rw_next := Some (length (blocks ?q))\<rparr>) ?q)
          \<lparr>blocks := blocks (upd_block (ps ! t) (\<lambda>b. b\<lparr>rw_next := Some (length (blocks ?q))\<rparr>) ?q) @ [?nb],
           tailBlock := length (blocks ?q), largestBlockSize := ?s\<rparr>"
      have "blk_rep ?nb [x]" by (rule blk_new_put [OF blk_new(1) [OF k(2,1)]])
      from rw_rep_alloc [OF rep1 full(3) _ this, of ?s]
      have rep3: "rw_rep ?q' (ps @ [length (blocks ?q)]) (Suc t) (xss @ [[x]])"
        using fl at1 p by (simp add: blk_cap_def)
      have "inner_enqueue M ca ok x q = Inr (True, ?q')"
        using full at1 nx r True p by (simp add: inner_enqueue_def Let_def make_block_def new_block_size_def)
      moreover have "grown q ?q'"
        using s(2) by (simp add: grown_def map_upd_same refresh_localFront_def Block_new_def)
      moreover have "pow2 (largestBlockSize ?q')" using s(1) by simp
      ultimately show ?thesis
        using rep3 by (intro exI [of _ True] exI [of _ ?q'] exI [of _ "ps @ [length (blocks ?q)]"]
            exI [of _ "Suc t"] exI [of _ "xss @ [[x]]"]) simp
    next
      case False
      have "inner_enqueue M ca ok x q = Inr (False, ?q)"
        using full at1 nx r False by (auto simp: inner_enqueue_def Let_def make_block_def)
      then show ?thesis
        using rep1 pw(2) False full(3) fl
        by (intro exI [of _ False] exI [of _ ?q] exI [of _ ps] exI [of _ t] exI [of _ xss])
          (cases ca; simp add: grown_def)
    qed
  qed
qed

subsection \<open>Construction\<close>

lemma ceilToPow2_mask:
  "\<exists>k \<le> 64. ceilToPow2 x = mask k + 1 \<and> unat (x - 1) < 2 ^ k \<and> (\<forall>j. unat (x - 1) < 2 ^ j \<longrightarrow> k \<le> j)"
  using smear64_mask [OF refl refl refl refl refl refl, of "x - 1"]
  by (simp add: ceilToPow2_def Let_def)

lemma ceilToPow2_pow2:
  assumes "0 < x" "unat x \<le> 2 ^ 63"
  obtains k where "k \<le> 63" "unat (ceilToPow2 x) = 2 ^ k" "unat x \<le> 2 ^ k" "\<And>j. unat x \<le> 2 ^ j \<Longrightarrow> k \<le> j"
  using mask_ceiling [OF _ _ _ assms] ceilToPow2_mask by metis

text \<open>The ring of \<open>n\<close> fresh blocks that the constructor builds.\<close>

definition ring_blocks :: "u64 \<Rightarrow> nat \<Rightarrow> 'a rwblock list" where
  "ring_blocks sz n = map (\<lambda>j. (Block_new sz)\<lparr>rw_next := Some (if Suc j < n then Suc j else 0)\<rparr>) [0..<n]"

lemma ring_blocks_Suc:
  "ring_blocks sz (Suc i) =
     (if i = 0 then [] else (ring_blocks sz i)[i - 1 := (ring_blocks sz i ! (i - 1))\<lparr>rw_next := Some i\<rparr>])
       @ [(Block_new sz)\<lparr>rw_next := Some 0\<rparr>]"
  by (rule nth_equalityI) (auto simp: ring_blocks_def nth_append nth_list_update less_Suc_eq)

lemma link_blocks_eq:
  "link_blocks mallocs sz i n (ring_blocks sz i :: 'a rwblock list) =
     (if \<forall>j. i \<le> j \<and> j < i + n \<longrightarrow> mallocs j then Inr (ring_blocks sz (i + n)) else Inl Bad_alloc)"
proof (induction n arbitrary: i)
  case (Suc n)
  show ?case
  proof (cases "mallocs i")
    case True
    have r: "(if i = 0 then ring_blocks sz i else (ring_blocks sz i)[i - 1 := (ring_blocks sz i ! (i - 1))\<lparr>rw_next := Some i\<rparr>])
        @ [(Block_new sz)\<lparr>rw_next := Some 0\<rparr>] = (ring_blocks sz (Suc i) :: 'a rwblock list)"
      by (simp add: ring_blocks_Suc) (simp add: ring_blocks_def)
    have e: "(\<forall>j. Suc i \<le> j \<and> j < Suc i + n \<longrightarrow> mallocs j) = (\<forall>j. i \<le> j \<and> j < i + Suc n \<longrightarrow> mallocs j)"
      using True by (metis Suc_le_eq add_Suc add_Suc_right le_less)
    have "link_blocks mallocs sz i (Suc n) (ring_blocks sz i :: 'a rwblock list) = link_blocks mallocs sz (Suc i) n (ring_blocks sz (Suc i))"
      using True r by (cases "i = 0") (simp_all add: make_block_def Let_def)
    then show ?thesis using Suc.IH [of "Suc i"] e by simp
  next
    case False
    then show ?thesis by (auto simp: make_block_def)
  qed
qed simp

lemma rotate1_upt: "j < n \<Longrightarrow> rotate1 [0..<n] ! j = (if Suc j < n then Suc j else 0)"
  by (cases n) (auto simp: upt_rec [of 0] nth_append simp del: upt_Suc)

lemma ring_blocks_rep:
  assumes "unat sz = 2 ^ k" "1 \<le> k" "0 < n"
  shows "rw_rep \<lparr>blocks = ring_blocks sz n, frontBlock = 0, tailBlock = 0, largestBlockSize = s\<rparr> [0..<n] 0 (replicate n [])"
  unfolding rw_rep_def using assms(3) blk_new(1) [OF assms(1,2)]
  by (auto simp: ring_blocks_def rotate1_upt intro: blk_next simp del: upt_Suc)


text \<open>
  The invariant. \<open>reserved m q\<close> says that the blocks are large and many enough for \<open>m\<close> elements: whichever
  block is the front block, the others together (or the only one) have that many slots.
\<close>

definition reserved :: "nat \<Rightarrow> 'a rwq \<Rightarrow> bool" where
  "reserved m q \<longleftrightarrow> (\<exists>c. (\<forall>b \<in> set (blocks q). c \<le> blk_cap b) \<and> c < unat (largestBlockSize q)
     \<and> m \<le> c * max 1 (length (blocks q) - 1))"

definition rw_inv :: "u64 \<Rightarrow> nat \<Rightarrow> 'a rwq \<Rightarrow> bool" where
  "rw_inv MAX_BLOCK_SIZE m q \<longleftrightarrow> pow2 MAX_BLOCK_SIZE \<and> pow2 (largestBlockSize q) \<and> reserved m q
     \<and> (\<exists>ps t xss. rw_rep q ps t xss)"

lemma reserved_masks:
  "reserved m q \<longleftrightarrow> (\<exists>c. (\<forall>w \<in> set (map sizeMask (blocks q)). c \<le> unat w) \<and> c < unat (largestBlockSize q)
     \<and> m \<le> c * max 1 (length (map sizeMask (blocks q)) - 1))"
  by (simp add: reserved_def blk_cap_def)

lemma reserved_grown:
  assumes "grown q q'" "reserved m q"
  shows "reserved m q'"
proof (cases "same_frame q q'")
  case True
  then show ?thesis using assms(2) unfolding reserved_masks same_frame_def by simp
next
  case False
  then have g: "unat (largestBlockSize q) \<le> unat (largestBlockSize q')"
    "map sizeMask (blocks q') = map sizeMask (blocks q) @ [largestBlockSize q' - 1]"
    using assms(1) unfolding grown_def by blast+
  obtain c where c: "\<forall>w \<in> set (map sizeMask (blocks q)). c \<le> unat w" "c < unat (largestBlockSize q)"
    "m \<le> c * max 1 (length (map sizeMask (blocks q)) - 1)"
    using assms(2) unfolding reserved_masks by blast
  have "largestBlockSize q' \<noteq> 0" using g(1) c(2) by auto
  then have "c \<le> unat (largestBlockSize q' - 1)" using g(1) c(2) by (simp add: unat_minus_one)
  moreover have "m \<le> c * max 1 (length (map sizeMask (blocks q) @ [largestBlockSize q' - 1]) - 1)"
    by (rule order_trans [OF c(3)], rule mult_le_mono2) simp
  moreover have "c < unat (largestBlockSize q')" using g(1) c(2) by linarith
  ultimately show ?thesis
    unfolding reserved_masks g(2) using c(1) by (intro exI [of _ c]) auto
qed

lemma refused_full:
  assumes rep: "rw_rep q ps t xss" and "reserved m q" and t: "Suc t = length ps"
    and full: "length (xss ! t) = blk_cap (blocks q ! (ps ! t))"
  shows "m \<le> length (concat xss)"
proof -
  obtain c where c: "\<And>b. b \<in> set (blocks q) \<Longrightarrow> c \<le> blk_cap b" "m \<le> c * max 1 (length (blocks q) - 1)"
    using assms(2) unfolding reserved_def by blast
  have cj: "c \<le> length (xss ! j)" if "j = t \<or> 0 < j \<and> j < t" for j
  proof -
    have "length (xss ! j) = blk_cap (blocks q ! (ps ! j))" using that full rw_repD(10) [OF rep] by auto
    then show ?thesis using c(1) [OF nth_mem, of "ps ! j"] rw_rep_bound [OF rep, of j] that t by auto
  qed
  have xl: "length xss = Suc t" using rw_repD(4) [OF rep] t by simp
  have s: "length (concat xss) = (\<Sum>j<Suc t. length (xss ! j))"
    using xl by (simp add: length_concat sum_list_sum_nth atLeast0LessThan)
  have "c * max 1 t \<le> (\<Sum>j<Suc t. length (xss ! j))"
  proof (cases "t = 0")
    case True
    then show ?thesis using cj [of 0] by simp
  next
    case False
    have "c * t = (\<Sum>j\<in>{1..t}. c)" by simp
    also have "\<dots> \<le> (\<Sum>j\<in>{1..t}. length (xss ! j))" proof (rule sum_mono)
      fix j assume "j \<in> {1..t}"
      then have "j = t \<or> 0 < j \<and> j < t" by auto
      then show "c \<le> length (xss ! j)" by (rule cj)
    qed
    also have "\<dots> \<le> (\<Sum>j<Suc t. length (xss ! j))" by (rule sum_mono2) auto
    finally show ?thesis using False by (simp add: max_def)
  qed
  moreover have "length (blocks q) - 1 = t" using t rw_rep_length [OF rep] by simp
  ultimately show ?thesis using c(2) s by simp
qed

lemma rw_enq_law:
  assumes "rw_inv M m q"
  shows "\<exists>b q'. inner_enqueue M ca ok x q = Inr (b, q') \<and> rw_inv M m q'
      \<and> rwq_list q' = (if b then rwq_list q @ [x] else rwq_list q)
      \<and> (\<not> b \<longrightarrow> (ca = CannotAlloc \<or> \<not> ok) \<and> m \<le> length (rwq_list q))"
proof -
  obtain ps t xss where rep: "rw_rep q ps t xss" and pw: "pow2 M" "pow2 (largestBlockSize q)" "reserved m q"
    using assms unfolding rw_inv_def by blast
  obtain b q' ps' t' xss' where e: "inner_enqueue M ca ok x q = Inr (b, q')" "rw_rep q' ps' t' xss'"
    "concat xss' = (if b then concat xss @ [x] else concat xss)" "pow2 (largestBlockSize q')" "grown q q'"
    "\<not> b \<longrightarrow> (ca = CannotAlloc \<or> \<not> ok) \<and> Suc t = length ps \<and> length (xss ! t) = blk_cap (blocks q ! (ps ! t))"
    using inner_enqueue_rep [OF rep pw(1,2), of ca ok x] by blast
  have "rw_inv M m q'" using e(2,4) pw(1) reserved_grown [OF e(5) pw(3)] unfolding rw_inv_def by blast
  moreover have "\<not> b \<Longrightarrow> m \<le> length (concat xss)" using refused_full [OF rep pw(3)] e(6) by blast
  ultimately show ?thesis
    using e(1,3,6) rwq_list_rep [OF rep] rwq_list_rep [OF e(2)] by simp
qed

lemma rw_inv_frame: "rw_inv M m q \<Longrightarrow> same_frame q q' \<Longrightarrow> rw_rep q' ps t xss \<Longrightarrow> rw_inv M m q'"
  using reserved_grown [of q q'] by (auto simp: rw_inv_def same_frame_def grown_def)

lemma rw_deq_law:
  assumes "rw_inv M m q"
  shows "\<exists>q'. try_dequeue q = Inr (case rwq_list q of [] \<Rightarrow> None | x # _ \<Rightarrow> Some x, q') \<and> rw_inv M m q'
      \<and> rwq_list q' = tl (rwq_list q)"
proof -
  obtain ps t xss where rep: "rw_rep q ps t xss"
    using assms unfolding rw_inv_def by blast
  obtain q' ps' t' xss' where e: "try_dequeue q = Inr (case concat xss of [] \<Rightarrow> None | x # _ \<Rightarrow> Some x, q')"
    "rw_rep q' ps' t' xss'" "concat xss' = tl (concat xss)" "same_frame q q'"
    using try_dequeue_rep [OF rep] by blast
  show ?thesis
    using e(1,3) rwq_list_rep [OF rep] rwq_list_rep [OF e(2)] rw_inv_frame [OF assms e(4,2)] by simp
qed

interpretation rw: fifo "rw_inv M m" rwq_list "\<lambda>(ca, ok). inner_enqueue M ca ok" try_dequeue for M m
proof
  show "\<exists>b q'. (case e of (ca, ok) \<Rightarrow> inner_enqueue M ca ok) x q = Inr (b, q') \<and> rw_inv M m q'
      \<and> rwq_list q' = (if b then rwq_list q @ [x] else rwq_list q)" if "rw_inv M m q" for q :: "'a rwq" and e x
  proof -
    obtain ca ok where e: "e = (ca, ok)" by (cases e)
    show ?thesis using rw_enq_law [OF that, of ca ok x] unfolding e prod.case by blast
  qed
qed (rule rw_deq_law)

subsection \<open>Walks over the whole queue\<close>

lemma size_approx_loop_rep:
  assumes rep: "rw_rep q ps t xss"
  shows "j < length ps \<Longrightarrow> length ps - j \<le> fuel
    \<Longrightarrow> size_approx_loop q fuel (ps ! j) acc = Inr (acc + of_nat (length (concat (drop j xss))))"
proof (induction fuel arbitrary: j acc)
  case (Suc fuel)
  let ?b = "blocks q ! (ps ! j)"
  have b: "blk_rep ?b (xss ! j)" using rw_repD(8) [OF rep] Suc.prems by simp
  have nx: "rw_next ?b = Some (rotate1 ps ! j)" using rw_repD(7) [OF rep] Suc.prems by simp
  have c: "(tail ?b - front ?b) AND sizeMask ?b = of_nat (length (xss ! j))"
  proof (rule blk_repE [OF b])
    fix k assume "unat (sizeMask ?b) + 1 = 2 ^ k" "length (xss ! j) < 2 ^ k"
      "unat (tail ?b) = (unat (front ?b) + length (xss ! j)) mod 2 ^ k"
    then have "unat ((tail ?b - front ?b) AND sizeMask ?b) = length (xss ! j)" using unat_diff_and_pow2 by blast
    then show ?thesis by (metis of_nat_unat ucast_id)
  qed
  have d: "drop j xss = xss ! j # drop (Suc j) xss"
    using Suc.prems rw_repD(4) [OF rep] by (simp add: Cons_nth_drop_Suc)
  show ?case
  proof (cases "Suc j < length ps")
    case True
    have "rotate1 ps ! j = ps ! Suc j" using True by (cases ps) (auto simp: nth_append)
    moreover have "ps ! Suc j \<noteq> frontBlock q"
      using rw_repD(1,3,5) [OF rep] True by (metis nth_eq_iff_index_eq Zero_neq_Suc gr_implies_not0 neq0_conv)
    ultimately show ?thesis
      using Suc.IH [OF True] Suc.prems nx c d by (simp add: Let_def add.assoc)
  next
    case False
    have "rotate1 ps ! j = frontBlock q"
      using False Suc.prems rw_repD(5) [OF rep] by (cases ps) (auto simp: nth_append)
    moreover have "drop (Suc j) xss = []" using False rw_repD(4) [OF rep] by simp
    ultimately show ?thesis using nx c d by (simp add: Let_def)
  qed
qed simp

lemma destroy_elements_rep:
  assumes b: "blk_rep b xs" and i: "i \<le> length xs" "length xs - i \<le> fuel"
  shows "destroy_elements fuel b ((front b + of_nat i) AND sizeMask b) = Inr (drop i xs)"
proof (rule blk_repE [OF b])
  fix k assume a: "unat (sizeMask b) + 1 = 2 ^ k" "length xs < 2 ^ k"
    "unat (tail b) = (unat (front b) + length xs) mod 2 ^ k"
    and live: "\<And>i. i < length xs \<Longrightarrow> data b ! ((unat (front b) + i) mod 2 ^ k) = Some (xs ! i)"
  have pos: "unat ((front b + of_nat i) AND sizeMask b) = (unat (front b) + i) mod 2 ^ k" for i
    by (rule unat_add_and_pow2 [OF a(1)])
  have at_end: "(front b + of_nat i) AND sizeMask b = tail b \<longleftrightarrow> i = length xs" if "i \<le> length xs" for i
    using ring_pos_inj [of i "2 ^ k" "length xs" "unat (front b)"] that a(2,3) by (simp add: word_unat_eq_iff pos)
  have step: "(((front b + of_nat i) AND sizeMask b) + 1) AND sizeMask b = (front b + of_nat (Suc i)) AND sizeMask b" for i
    unfolding word_unat_eq_iff unat_incr_and_pow2 [OF a(1)] pos by (simp add: mod_Suc_eq)
  show ?thesis
    using i
  proof (induction fuel arbitrary: i)
    case 0
    then show ?case using at_end [of i] by simp
  next
    case (Suc fuel)
    show ?case
    proof (cases "i = length xs")
      case True
      then show ?thesis using at_end [of i] by simp
    next
      case False
      then have il: "i < length xs" using Suc.prems by simp
      have "destroy_elements fuel b ((front b + of_nat (Suc i)) AND sizeMask b) = Inr (drop (Suc i) xs)"
        by (rule Suc.IH) (use Suc.prems il in auto)
      then show ?thesis
        using at_end [of i] il live [OF il] by (simp add: pos step Cons_nth_drop_Suc del: of_nat_Suc)
    qed
  qed
qed

lemma delete_loop_rep:
  assumes rep: "rw_rep q ps t xss"
  shows "j < length ps \<Longrightarrow> length ps - j \<le> fuel \<Longrightarrow> delete_loop q fuel (ps ! j) = Inr (concat (drop j xss))"
proof (induction fuel arbitrary: j)
  case (Suc fuel)
  let ?b = "blocks q ! (ps ! j)"
  have b: "blk_rep ?b (xss ! j)" using rw_repD(8) [OF rep] Suc.prems by simp
  have nx: "rw_next ?b = Some (rotate1 ps ! j)" using rw_repD(7) [OF rep] Suc.prems by simp
  have f: "front ?b AND sizeMask ?b = front ?b" "length (xss ! j) \<le> length (data ?b)"
    using b by (elim blk_repE; simp add: word_unat_eq_iff unat_and_pow2)+
  have c: "destroy_elements (length (data ?b)) ?b (front ?b) = Inr (xss ! j)"
    using destroy_elements_rep [OF b, of 0 "length (data ?b)"] f by simp
  have d: "drop j xss = xss ! j # drop (Suc j) xss"
    using Suc.prems rw_repD(4) [OF rep] by (simp add: Cons_nth_drop_Suc)
  show ?case
  proof (cases "Suc j < length ps")
    case True
    have "rotate1 ps ! j = ps ! Suc j" using True by (cases ps) (auto simp: nth_append)
    moreover have "ps ! Suc j \<noteq> frontBlock q"
      using rw_repD(1,3,5) [OF rep] True by (metis nth_eq_iff_index_eq Zero_neq_Suc gr_implies_not0 neq0_conv)
    ultimately show ?thesis
      using Suc.IH [OF True] Suc.prems nx c d by simp
  next
    case False
    have "rotate1 ps ! j = frontBlock q"
      using False Suc.prems rw_repD(5) [OF rep] by (cases ps) (auto simp: nth_append)
    moreover have "drop (Suc j) xss = []" using False rw_repD(4) [OF rep] by simp
    ultimately show ?thesis using nx c d by simp
  qed
qed simp


lemma assert_pow2:
  assumes "M = ceilToPow2 M" "M \<ge> 2"
  shows "pow2 M"
proof -
  obtain k where k: "k \<le> 64" "M = mask k + 1" using ceilToPow2_mask [of M] assms(1) by auto
  have "k \<noteq> 64"
  proof
    assume "k = 64"
    then have "M = 0" using k(2) by (simp add: mask_eq_exp_minus_1)
    then show False using assms(2) by simp
  qed
  then have "(2::nat) ^ k < 2 ^ 64" using k(1) by (intro power_strict_increasing) simp_all
  moreover have "M = of_nat (2 ^ k)" using k(2) by (simp add: mask_eq_exp_minus_1)
  ultimately have m: "unat M = 2 ^ k" by (simp add: unat_of_nat del: of_nat_power)
  moreover have "k \<noteq> 0" using m assms(2) by (intro notI) (simp add: word_le_nat_alt)
  ultimately show ?thesis unfolding pow2_def by (intro exI [of _ k]) simp
qed

lemma block_count:
  fixes s M :: nat
  assumes "2 \<le> M" "0 < s"
  shows "s \<le> (M - 1) * ((s + M * 2 - 3) div (M - 1) - 1)" "2 \<le> (s + M * 2 - 3) div (M - 1)"
proof -
  obtain d where d: "M = Suc (Suc d)" using assms(1) by (metis add_2_eq_Suc le_Suc_ex)
  have e: "s + M * 2 - 3 = (s + d) + (M - 1)" using d by simp
  have n: "(s + M * 2 - 3) div (M - 1) = (s + d) div (M - 1) + 1"
    unfolding e using d by (subst div_add_self2) simp_all
  have "s + d < (M - 1) * ((s + d) div (M - 1)) + (M - 1)"
    using d mod_less_divisor [of "M - 1" "s + d"] mult_div_mod_eq [of "M - 1" "s + d"] by linarith
  then show "s \<le> (M - 1) * ((s + M * 2 - 3) div (M - 1) - 1)" unfolding n using d by simp
  have "1 \<le> (s + d) div (M - 1)" using d assms(2) by (simp add: Suc_leI div_greater_zero_iff)
  then show "2 \<le> (s + M * 2 - 3) div (M - 1)" unfolding n by simp
qed

lemma rw_new_inv:
  assumes new: "ReaderWriterQueue_new M mallocs maxSize = Inr q" and b: "unat M \<le> 2 ^ 62" "unat maxSize \<le> 2 ^ 62"
  shows "rw_inv M (unat maxSize) q" "rwq_list q = []"
proof -
  have as: "maxSize > 0" "M = ceilToPow2 M" "M \<ge> 2"
    using new by (auto simp: ReaderWriterQueue_new_def split: if_splits)
  have pM: "pow2 M" using assert_pow2 as(2,3) .
  have s0: "0 < unat maxSize" using as(1) by (simp add: word_less_nat_alt)
  have s1: "unat (maxSize + 1) = unat maxSize + 1" using b(2) by (simp add: unat_word_ariths)
  obtain k where k: "k \<le> 63" "unat (ceilToPow2 (maxSize + 1)) = 2 ^ k" "unat maxSize + 1 \<le> 2 ^ k"
  proof -
    have "0 < maxSize + 1" "unat (maxSize + 1) \<le> 2 ^ 63" using s1 b(2) by (simp_all add: word_less_nat_alt)
    from ceilToPow2_pow2 [OF this] show ?thesis using that s1 by metis
  qed
  have k1: "1 \<le> k" using k(3) s0 by (cases k) auto
  let ?L = "ceilToPow2 (maxSize + 1)"
  have "rw_inv M (unat maxSize) q \<and> rwq_list q = []"
  proof (cases "?L > M * 2")
    case True
    let ?n = "unat ((maxSize + M * 2 - 3) div (M - 1))"
    have M2: "2 \<le> unat M" using as(3) by (simp add: word_le_nat_alt)
    have m1: "unat (M - 1) = unat M - 1" using M2 by (intro unat_minus_one) auto
    have "unat (maxSize + M * 2) = unat maxSize + unat M * 2" using b by (simp add: unat_word_ariths)
    then have "unat (maxSize + M * 2 - 3) = unat maxSize + unat M * 2 - 3"
      using M2 s0 by (subst unat_sub) (simp_all add: word_le_nat_alt)
    then have n: "?n = (unat maxSize + unat M * 2 - 3) div (unat M - 1)" by (simp add: unat_div m1)
    note bc = block_count [OF M2 s0]
    obtain j where j: "1 \<le> j" "unat M = 2 ^ j" using pM unfolding pow2_def by blast
    have q: "q = \<lparr>blocks = ring_blocks M ?n, frontBlock = 0, tailBlock = 0, largestBlockSize = M\<rparr>"
      using new as True link_blocks_eq [of mallocs M 0 ?n, where 'a = 'a]
      by (auto simp: ReaderWriterQueue_new_def Let_def ring_blocks_def split: if_splits)
    have rep: "rw_rep q [0..<?n] 0 (replicate ?n [])"
      unfolding q by (rule ring_blocks_rep [OF j(2,1)]) (use bc n in linarith)
    have cap: "\<forall>b \<in> set (blocks q). unat M - 1 \<le> blk_cap b"
      unfolding q by (auto simp: ring_blocks_def blk_cap_def Block_new_def m1)
    have "length (blocks q) = ?n" "unat (largestBlockSize q) = unat M" by (simp_all add: q ring_blocks_def)
    moreover have "max 1 (?n - 1) = ?n - 1" using bc(2) n by simp
    ultimately have "reserved (unat maxSize) q"
      unfolding reserved_def using cap bc(1) M2 n
      by (intro exI [of _ "unat M - 1"]) simp
    then show ?thesis
      using rep pM rwq_list_rep [OF rep] by (auto simp: rw_inv_def q)
  next
    case False
    have q: "q = \<lparr>blocks = ring_blocks ?L 1, frontBlock = 0, tailBlock = 0, largestBlockSize = ?L\<rparr>"
      using new as False by (auto simp: ReaderWriterQueue_new_def Let_def ring_blocks_def make_block_def split: if_splits)
    have rep: "rw_rep q [0..<1] 0 (replicate 1 [])"
      unfolding q by (rule ring_blocks_rep [OF k(2) k1]) simp
    have m1: "unat (?L - 1) = 2 ^ k - 1" using k(2) by (subst unat_minus_one) auto
    have "reserved (unat maxSize) q"
      unfolding reserved_def using k(2,3) m1
      by (intro exI [of _ "2 ^ k - 1"]) (auto simp: q ring_blocks_def blk_cap_def Block_new_def)
    then show ?thesis
      using rep pM rwq_list_rep [OF rep] k(2) k1 by (auto simp: rw_inv_def q pow2_def)
  qed
  then show "rw_inv M (unat maxSize) q" "rwq_list q = []" by auto
qed


subsection \<open>Properties\<close>

text \<open>
  C1: the queue is a FIFO. On a freshly constructed queue, any sequence of enqueues (allocating or not,
  with \<open>malloc\<close> succeeding or failing at will) and dequeues runs without a failed assertion or a bad read; the
  elements that came out are the first of those accepted, in order, and the others are still in the queue.
\<close>

theorem rw_queue_fifo:
  assumes "ReaderWriterQueue_new M mallocs maxSize = Inr q" "unat M \<le> 2 ^ 62" "unat maxSize \<le> 2 ^ 62"
  shows "\<exists>evs q'. run_ops (\<lambda>(ca, ok). inner_enqueue M ca ok) try_dequeue ops q = Inr (evs, q')
    \<and> accepted evs = got evs @ rwq_list q' \<and> length evs = length ops"
  using rw.run_ops_fifo [OF rw_new_inv(1) [OF assms], of ops] rw_new_inv(2) [OF assms] by auto

definition sample_rwq :: "nat rwq" where
  "sample_rwq = \<lparr>blocks = ring_blocks 2 5, frontBlock = 0, tailBlock = 0, largestBlockSize = 2\<rparr>"

lemma sample_rwq_new: "ReaderWriterQueue_new 2 (\<lambda>_. True) 4 = Inr sample_rwq"
proof -
  have "link_blocks (\<lambda>_. True) 2 0 5 [] = Inr (ring_blocks 2 5 :: nat rwblock list)"
    using link_blocks_eq [of "\<lambda>_. True" 2 0 5] by (simp add: ring_blocks_def)
  then show ?thesis
    by (simp add: ReaderWriterQueue_new_def ceilToPow2_def Let_def sample_rwq_def)
qed

theorem rw_queue_fifo_witness:
  "\<exists>evs q'. run_ops (\<lambda>(ca, ok). inner_enqueue 2 ca ok) try_dequeue
      [Enq (CannotAlloc, False) 7, Enq (CanAlloc, True) 8, Deq] sample_rwq = Inr (evs, q')
    \<and> accepted evs = got evs @ rwq_list q' \<and> length evs = 3"
  using rw_queue_fifo [OF sample_rwq_new, of "[Enq (CannotAlloc, False) 7, Enq (CanAlloc, True) 8, Deq]"]
  by (simp add: numeral_3_eq_3 del: run_ops.simps)

lemma rw_reach_inv:
  assumes "ReaderWriterQueue_new M mallocs maxSize = Inr q" "unat M \<le> 2 ^ 62" "unat maxSize \<le> 2 ^ 62"
    and "run_ops (\<lambda>(ca, ok). inner_enqueue M ca ok) try_dequeue ops q = Inr (evs, q')"
  shows "rw_inv M (unat maxSize) q'"
  using rw.run_ops_fifo [OF rw_new_inv(1) [OF assms(1-3)], of ops] assms(4) by auto

text \<open>
  C12: the constructor's promise. A queue constructed for \<open>maxSize\<close> elements accepts every enqueue while it holds fewer
  than \<open>maxSize\<close>, in whatever state the operations so far have left its blocks, without any allocation
  (\<open>try_enqueue\<close> included, and even if \<open>malloc\<close> would fail); and \<open>enqueue\<close> is always
  accepted when \<open>malloc\<close> succeeds.
\<close>

theorem rw_queue_capacity:
  assumes "ReaderWriterQueue_new M mallocs maxSize = Inr q" "unat M \<le> 2 ^ 62" "unat maxSize \<le> 2 ^ 62"
    and "run_ops (\<lambda>(ca, ok). inner_enqueue M ca ok) try_dequeue ops q = Inr (evs, q')"
    and "length (rwq_list q') < unat maxSize \<or> ca = CanAlloc \<and> ok"
  shows "\<exists>q''. inner_enqueue M ca ok x q' = Inr (True, q'') \<and> rwq_list q'' = rwq_list q' @ [x]"
proof -
  obtain b q'' where e: "inner_enqueue M ca ok x q' = Inr (b, q'')"
    "rwq_list q'' = (if b then rwq_list q' @ [x] else rwq_list q')"
    "\<not> b \<longrightarrow> (ca = CannotAlloc \<or> \<not> ok) \<and> unat maxSize \<le> length (rwq_list q')"
    using rw_enq_law [OF rw_reach_inv [OF assms(1-4)], of ca ok x] by blast
  have b using e(3) assms(5) by auto
  then show ?thesis using e by simp
qed

theorem rw_queue_capacity_witness:
  "\<exists>q''. inner_enqueue 2 CannotAlloc False (9 :: nat) sample_rwq = Inr (True, q'') \<and> rwq_list q'' = [9]"
proof -
  have e: "rwq_list sample_rwq = []" using rw_new_inv(2) [OF sample_rwq_new] by simp
  have "\<exists>q''. inner_enqueue 2 CannotAlloc False 9 sample_rwq = Inr (True, q'') \<and> rwq_list q'' = rwq_list sample_rwq @ [9]"
    by (rule rw_queue_capacity [OF sample_rwq_new, of "[]" "[]"]) (simp_all add: e)
  then show ?thesis by (simp add: e)
qed

text \<open>
  \<open>pop\<close> and \<open>peek\<close> agree with the list: \<open>pop\<close> removes the front element and answers whether there was one;
  \<open>peek\<close> leaves the contents alone and points to a slot that holds the front element, or is null on an
  empty queue.
\<close>

theorem rw_pop_peek:
  assumes "ReaderWriterQueue_new M mallocs maxSize = Inr q" "unat M \<le> 2 ^ 62" "unat maxSize \<le> 2 ^ 62"
    and "run_ops (\<lambda>(ca, ok). inner_enqueue M ca ok) try_dequeue ops q = Inr (evs, q')"
  shows "(\<exists>q''. pop q' = Inr (rwq_list q' \<noteq> [], q'') \<and> rwq_list q'' = tl (rwq_list q'))
    \<and> (\<exists>r q''. peek q' = Inr (r, q'') \<and> rwq_list q'' = rwq_list q'
        \<and> (case r of None \<Rightarrow> rwq_list q' = []
            | Some (i, s) \<Rightarrow> rwq_list q' \<noteq> [] \<and> data (blocks q' ! i) ! unat s = Some (hd (rwq_list q'))))"
proof -
  have inv: "rw_inv M (unat maxSize) q'" by (rule rw_reach_inv [OF assms])
  then obtain ps t xss where rep: "rw_rep q' ps t xss" unfolding rw_inv_def by blast
  obtain q'' where d: "try_dequeue q' = Inr (case rwq_list q' of [] \<Rightarrow> None | x # _ \<Rightarrow> Some x, q'')"
    "rwq_list q'' = tl (rwq_list q')"
    using rw_deq_law [OF inv] by blast
  have "pop q' = Inr (rwq_list q' \<noteq> [], q'')"
    unfolding pop_try_dequeue d(1) by (cases "rwq_list q'") simp_all
  moreover obtain r q2 where "peek q' = Inr (r, q2)" "rw_rep q2 ps t xss"
    "case r of None \<Rightarrow> concat xss = []
     | Some (i, s) \<Rightarrow> concat xss \<noteq> [] \<and> data (blocks q' ! i) ! unat s = Some (hd (concat xss))"
    using peek_rep [OF rep] by blast
  ultimately show ?thesis
    using d(2) rwq_list_rep [OF rep] rwq_list_rep [of q2] by metis
qed

theorem rw_pop_peek_witness: "\<exists>q''. pop sample_rwq = Inr (False, q'')"
proof -
  have e: "rwq_list sample_rwq = []" using rw_new_inv(2) [OF sample_rwq_new] by simp
  have "run_ops (\<lambda>(ca, ok). inner_enqueue 2 ca ok) try_dequeue [] sample_rwq = Inr ([], sample_rwq)" by simp
  from rw_pop_peek [OF sample_rwq_new _ _ this] show ?thesis by (auto simp: e)
qed

text \<open>
  C34: the walks over the whole queue end. With fuel for every block, \<open>size_approx\<close> gives the number of
  elements (modulo the word size), and the destructor destroys exactly the elements still in the queue,
  each once and in order.
\<close>

theorem rw_size_and_delete:
  assumes "ReaderWriterQueue_new M mallocs maxSize = Inr q" "unat M \<le> 2 ^ 62" "unat maxSize \<le> 2 ^ 62"
    and "run_ops (\<lambda>(ca, ok). inner_enqueue M ca ok) try_dequeue ops q = Inr (evs, q')"
    and "length (blocks q') \<le> fuel"
  shows "rw_size_approx fuel q' = Inr (of_nat (length (rwq_list q')))
    \<and> ReaderWriterQueue_delete fuel q' = Inr (rwq_list q')"
proof -
  have "rw_inv M (unat maxSize) q'" by (rule rw_reach_inv [OF assms(1-4)])
  then obtain ps t xss where rep: "rw_rep q' ps t xss" unfolding rw_inv_def by blast
  have l: "0 < length ps" "length ps \<le> fuel"
    using rw_repD(3) [OF rep] rw_rep_length [OF rep] assms(5) by auto
  show ?thesis
    using size_approx_loop_rep [OF rep l(1), of fuel 0] delete_loop_rep [OF rep l(1), of fuel] l(2)
      rw_repD(5) [OF rep] rwq_list_rep [OF rep]
    by (simp add: rw_size_approx_def ReaderWriterQueue_delete_def)
qed

theorem rw_size_and_delete_witness: "rw_size_approx 5 sample_rwq = Inr 0"
proof -
  have e: "rwq_list sample_rwq = []" using rw_new_inv(2) [OF sample_rwq_new] by simp
  have "run_ops (\<lambda>(ca, ok). inner_enqueue 2 ca ok) try_dequeue [] sample_rwq = Inr ([], sample_rwq)" by simp
  from rw_size_and_delete [OF sample_rwq_new _ _ this, of 5] show ?thesis
    by (simp add: e) (simp add: sample_rwq_def ring_blocks_def)
qed

text \<open>
  \<open>ceilToPow2\<close> gives the least power of two that is not below its argument, for every argument up to
  \<open>2 ^ 63\<close>.
\<close>

theorem ceilToPow2_least:
  assumes "0 < x" "unat x \<le> 2 ^ 63"
  shows "\<exists>k. unat (ceilToPow2 x) = 2 ^ k \<and> unat x \<le> 2 ^ k \<and> (\<forall>j. unat x \<le> 2 ^ j \<longrightarrow> k \<le> j)"
  using ceilToPow2_pow2 [OF assms] by metis

theorem ceilToPow2_least_witness: "\<exists>k. unat (ceilToPow2 5) = 2 ^ k \<and> (5 :: nat) \<le> 2 ^ k"
  using ceilToPow2_least [of 5] by auto

end
