(* ===== verification/BlockingRWQueue.thy ===== *)
theory BlockingRWQueue
  imports ReaderWriterQueue
begin

text \<open>
  \<open>source/utils/readerwriterqueue.h\<close>: \<open>BlockingReaderWriterQueue\<close>, the single-producer single-consumer queue with a semaphore that counts its
  elements. The semaphore \<open>spsc_sema::LightweightSemaphore\<close> comes from \<open>atomicops.h\<close>, which is not in the repository: its
  operations are a parameter. \<open>sem_wait\<close> gives \<open>None\<close> while it blocks.
\<close>

record 's spsc_sema =
  sem_signal :: "'s \<Rightarrow> 's"
  sem_tryWait :: "'s \<Rightarrow> bool \<times> 's"
  sem_wait :: "'s \<Rightarrow> 's option"
  sem_available :: "'s \<Rightarrow> u64"

type_synonym ('a, 's) brwq = "'a rwq \<times> 's"

definition BlockingReaderWriterQueue_new :: "'s \<Rightarrow> u64 \<Rightarrow> (nat \<Rightarrow> bool) \<Rightarrow> u64 \<Rightarrow> rw_error + ('a, 's) brwq" where
  "BlockingReaderWriterQueue_new s0 M mallocs maxSize = bindE (ReaderWriterQueue_new M mallocs maxSize) (\<lambda>q. Inr (q, s0))"

definition brw_try_enqueue :: "'s spsc_sema \<Rightarrow> u64 \<Rightarrow> 'a \<Rightarrow> ('a, 's) brwq \<Rightarrow> rw_error + bool \<times> ('a, 's) brwq" where
  "brw_try_enqueue sem M element Q =
     bindE (rw_try_enqueue M element (fst Q))
       (\<lambda>(ok, q). if ok then Inr (True, q, sem_signal sem (snd Q)) else Inr (False, q, snd Q))"

definition brw_enqueue :: "'s spsc_sema \<Rightarrow> u64 \<Rightarrow> bool \<Rightarrow> 'a \<Rightarrow> ('a, 's) brwq \<Rightarrow> rw_error + bool \<times> ('a, 's) brwq" where
  "brw_enqueue sem M malloc_ok element Q =
     bindE (rw_enqueue M malloc_ok element (fst Q))
       (\<lambda>(ok, q). if ok then Inr (True, q, sem_signal sem (snd Q)) else Inr (False, q, snd Q))"

text \<open>The two ways to enqueue, for a caller that chooses at every call.\<close>

definition brw_put :: "'s spsc_sema \<Rightarrow> u64 \<Rightarrow> AllocationMode \<times> bool \<Rightarrow> 'a \<Rightarrow> ('a, 's) brwq \<Rightarrow> rw_error + bool \<times> ('a, 's) brwq" where
  "brw_put sem M e element Q =
     (if fst e = CanAlloc then brw_enqueue sem M (snd e) element Q else brw_try_enqueue sem M element Q)"

text \<open>\<open>bool success = inner.try_dequeue(result); assert(success);\<close>\<close>

definition dequeue_asserted :: "'a rwq \<Rightarrow> 's \<Rightarrow> rw_error + 'a option \<times> ('a, 's) brwq" where
  "dequeue_asserted q s =
     bindE (try_dequeue q) (\<lambda>(r, q). case r of None \<Rightarrow> Inl Assertion_failed | Some x \<Rightarrow> Inr (Some x, q, s))"

definition brw_try_dequeue :: "'s spsc_sema \<Rightarrow> ('a, 's) brwq \<Rightarrow> rw_error + 'a option \<times> ('a, 's) brwq" where
  "brw_try_dequeue sem Q =
     (let (ok, s) = sem_tryWait sem (snd Q) in if ok then dequeue_asserted (fst Q) s else Inr (None, fst Q, s))"

definition brw_wait_dequeue :: "'s spsc_sema \<Rightarrow> ('a, 's) brwq \<Rightarrow> (rw_error + 'a option \<times> ('a, 's) brwq) option" where
  "brw_wait_dequeue sem Q = map_option (dequeue_asserted (fst Q)) (sem_wait sem (snd Q))"

definition brw_peek :: "('a, 's) brwq \<Rightarrow> rw_error + (nat \<times> u64) option \<times> ('a, 's) brwq" where
  "brw_peek Q = bindE (peek (fst Q)) (\<lambda>(r, q). Inr (r, q, snd Q))"

definition brw_pop :: "'s spsc_sema \<Rightarrow> ('a, 's) brwq \<Rightarrow> rw_error + bool \<times> ('a, 's) brwq" where
  "brw_pop sem Q =
     (let (ok, s) = sem_tryWait sem (snd Q)
      in if ok then bindE (pop (fst Q)) (\<lambda>(result, q). if result then Inr (True, q, s) else Inl Assertion_failed)
         else Inr (False, fst Q, s))"

definition brw_size_approx :: "'s spsc_sema \<Rightarrow> ('a, 's) brwq \<Rightarrow> u64" where
  "brw_size_approx sem Q = sem_available sem (snd Q)"

subsection \<open>The contract\<close>

text \<open>What \<open>atomicops.h\<close> documents of the semaphore, used by one thread at a time: it counts.\<close>

definition counts :: "'s spsc_sema \<Rightarrow> ('s \<Rightarrow> nat) \<Rightarrow> bool" where
  "counts sem n \<longleftrightarrow> (\<forall>s. n (sem_signal sem s) = n s + 1)
     \<and> (\<forall>s. fst (sem_tryWait sem s) = (n s > 0) \<and> n (snd (sem_tryWait sem s)) = n s - 1)
     \<and> (\<forall>s. case sem_wait sem s of None \<Rightarrow> n s = 0 | Some s' \<Rightarrow> n s = n s' + 1)
     \<and> (\<forall>s. sem_available sem s = of_nat (n s))"

definition brw_inv :: "('s \<Rightarrow> nat) \<Rightarrow> u64 \<Rightarrow> nat \<Rightarrow> ('a, 's) brwq \<Rightarrow> bool" where
  "brw_inv n M m Q \<longleftrightarrow> rw_inv M m (fst Q) \<and> n (snd Q) = length (rwq_list (fst Q))"

lemma brw_put_eq:
  "brw_put sem M (ca, ok) x Q
    = bindE (inner_enqueue M ca (ca = CanAlloc \<and> ok) x (fst Q)) (\<lambda>(b, q). Inr (b, q, if b then sem_signal sem (snd Q) else snd Q))"
  by (cases ca) (auto simp: brw_put_def brw_enqueue_def brw_try_enqueue_def rw_enqueue_def rw_try_enqueue_def intro!: arg_cong2 [of _ _ _ _ bindE])

text \<open>On a semaphore that counts, the blocking queue keeps the contract of a FIFO queue.\<close>

lemma brw_fifo:
  fixes sem :: "'s spsc_sema"
  assumes "counts sem n"
  shows "fifo (brw_inv n M m :: ('a, 's) brwq \<Rightarrow> bool) (\<lambda>Q. rwq_list (fst Q)) (brw_put sem M) (brw_try_dequeue sem)"
proof
  fix Q :: "('a, 's) brwq" and e :: "AllocationMode \<times> bool" and x :: 'a
  assume "brw_inv n M m Q"
  then have i: "rw_inv M m (fst Q)" "n (snd Q) = length (rwq_list (fst Q))" by (simp_all add: brw_inv_def)
  obtain ca ok where e: "e = (ca, ok)" by (cases e)
  obtain b q' where q': "inner_enqueue M ca (ca = CanAlloc \<and> ok) x (fst Q) = Inr (b, q')" "rw_inv M m q'"
    "rwq_list q' = (if b then rwq_list (fst Q) @ [x] else rwq_list (fst Q))"
    using rw.enq_law [OF i(1), of "(ca, ca = CanAlloc \<and> ok)" x] by auto
  show "\<exists>b Q'. brw_put sem M e x Q = Inr (b, Q') \<and> brw_inv n M m Q' \<and> rwq_list (fst Q') = (if b then rwq_list (fst Q) @ [x] else rwq_list (fst Q))"
    unfolding e brw_put_eq q'(1) using q'(2,3) i(2) assms by (auto simp: brw_inv_def counts_def)
next
  fix Q :: "('a, 's) brwq"
  assume "brw_inv n M m Q"
  then have i: "rw_inv M m (fst Q)" "n (snd Q) = length (rwq_list (fst Q))" by (simp_all add: brw_inv_def)
  obtain q' where q': "try_dequeue (fst Q) = Inr (case rwq_list (fst Q) of [] \<Rightarrow> None | x # _ \<Rightarrow> Some x, q')" "rw_inv M m q'"
    "rwq_list q' = tl (rwq_list (fst Q))"
    using rw.deq_law [OF i(1)] by blast
  obtain ok s where s: "sem_tryWait sem (snd Q) = (ok, s)" by fastforce
  then have "ok = (n (snd Q) > 0)" "n s = n (snd Q) - 1" using assms unfolding counts_def by (metis fst_conv, metis snd_conv)
  then show "\<exists>Q'. brw_try_dequeue sem Q = Inr (case rwq_list (fst Q) of [] \<Rightarrow> None | x # _ \<Rightarrow> Some x, Q') \<and> brw_inv n M m Q'
      \<and> rwq_list (fst Q') = tl (rwq_list (fst Q))"
    using s q' i by (cases "rwq_list (fst Q)") (auto simp: brw_try_dequeue_def dequeue_asserted_def brw_inv_def)
qed

subsection \<open>Properties\<close>

text \<open>
  C23: the blocking queue is a FIFO, and its assertions hold. If the semaphore counts, then on a new queue every sequence of
  enqueues and dequeues runs without a failed assertion; what came out is the first of what was accepted, in order; the size is exact;
  and a further \<open>wait_dequeue\<close> blocks only when the queue is empty, and otherwise takes the front.
\<close>

theorem blocking_rw_queue_fifo:
  assumes "counts sem n" "n s0 = 0"
    and "BlockingReaderWriterQueue_new s0 M mallocs maxSize = Inr Q" "unat M \<le> 2 ^ 62" "unat maxSize \<le> 2 ^ 62"
  shows "\<exists>evs Q'. run_ops (brw_put sem M) (brw_try_dequeue sem) ops Q = Inr (evs, Q') \<and> accepted evs = got evs @ rwq_list (fst Q')
    \<and> brw_size_approx sem Q' = of_nat (length (rwq_list (fst Q')))
    \<and> (case brw_wait_dequeue sem Q' of None \<Rightarrow> rwq_list (fst Q') = []
       | Some r \<Rightarrow> \<exists>Q''. r = Inr (Some (hd (rwq_list (fst Q'))), Q'') \<and> rwq_list (fst Q') \<noteq> [])"
proof -
  obtain q where q: "ReaderWriterQueue_new M mallocs maxSize = Inr q" "Q = (q, s0)"
    using assms(3) by (auto simp: BlockingReaderWriterQueue_new_def bindE_eq_Inr)
  have inv: "brw_inv n M (unat maxSize) Q" "rwq_list (fst Q) = []"
    using rw_new_inv [OF q(1) assms(4,5)] assms(2) by (simp_all add: q(2) brw_inv_def)
  from fifo.run_ops_fifo [OF brw_fifo [OF assms(1)] inv(1), of ops]
  obtain evs Q' where r: "run_ops (brw_put sem M) (brw_try_dequeue sem) ops Q = Inr (evs, Q')" "brw_inv n M (unat maxSize) Q'"
    "accepted evs = got evs @ rwq_list (fst Q')"
    unfolding inv(2) append_Nil by blast
  have i: "rw_inv M (unat maxSize) (fst Q')" "n (snd Q') = length (rwq_list (fst Q'))" using r(2) by (simp_all add: brw_inv_def)
  obtain q' where q': "try_dequeue (fst Q') = Inr (case rwq_list (fst Q') of [] \<Rightarrow> None | x # _ \<Rightarrow> Some x, q')"
    using rw.deq_law [OF i(1)] by blast
  have w: "case sem_wait sem (snd Q') of None \<Rightarrow> n (snd Q') = 0 | Some s' \<Rightarrow> n (snd Q') = n s' + 1"
    using assms(1) by (simp add: counts_def)
  have "case brw_wait_dequeue sem Q' of None \<Rightarrow> rwq_list (fst Q') = []
       | Some r \<Rightarrow> \<exists>Q''. r = Inr (Some (hd (rwq_list (fst Q'))), Q'') \<and> rwq_list (fst Q') \<noteq> []"
    using w q' i(2) by (auto simp: brw_wait_dequeue_def dequeue_asserted_def split: option.splits list.splits)
  then show ?thesis using r(1,3) assms(1) i(2) by (auto simp: brw_size_approx_def counts_def)
qed

definition nat_sema :: "nat spsc_sema" where
  "nat_sema = \<lparr>sem_signal = Suc, sem_tryWait = (\<lambda>s. (s > 0, s - 1)), sem_wait = (\<lambda>s. if s = 0 then None else Some (s - 1)),
     sem_available = of_nat\<rparr>"

theorem blocking_rw_queue_fifo_witness:
  "\<exists>evs Q'. run_ops (brw_put nat_sema 2) (brw_try_dequeue nat_sema) [Enq (CannotAlloc, False) 7, Enq (CanAlloc, True) 8, Deq]
      (sample_rwq, 0) = Inr (evs, Q')
    \<and> accepted evs = got evs @ rwq_list (fst Q') \<and> brw_size_approx nat_sema Q' = of_nat (length (rwq_list (fst Q')))"
proof -
  have c: "counts nat_sema (\<lambda>s. s)" by (auto simp: counts_def nat_sema_def)
  have q: "BlockingReaderWriterQueue_new 0 2 (\<lambda>_. True) 4 = Inr (sample_rwq, 0 :: nat)"
    using sample_rwq_new by (simp add: BlockingReaderWriterQueue_new_def)
  have u: "unat (2 :: u64) \<le> 2 ^ 62" "unat (4 :: u64) \<le> 2 ^ 62" by simp_all
  from blocking_rw_queue_fifo [OF c refl q u, of "[Enq (CannotAlloc, False) 7, Enq (CanAlloc, True) 8, Deq]"]
  show ?thesis by blast
qed

end
