(* ===== verification/ObjectPool.thy ===== *)
theory ObjectPool
  imports Prelude
begin

text \<open>
  \<open>source/utils/ObjectPool.h\<close>: a pool of reusable objects, allocated in arrays (caches). An item is the number of its array and
  its position there; \<open>None\<close> is \<open>nullptr\<close>. \<open>room\<close> is the number of objects that fit into memory: a larger allocation throws
  \<open>std::bad_alloc\<close>. \<open>debug\<close>: whether \<open>DEBUG\<close> is defined. \<open>reset_object\<close> is the method \<open>reset\<close> of the class in the pool.
\<close>

type_synonym item = "nat \<times> nat"

datatype pool_error = Pool_bad_alloc | Pool_assertion_failed | Pool_bad_pointer

record 'o object_pool =
  mFreeItems :: "item list"
  mItemCaches :: "u64 list"
  mMaxItems :: u64
  mCurrItems :: u64
  mIncreaseStep :: u64
  mAllocationCount :: u64
  objects :: "item \<Rightarrow> 'o"

text \<open>The items of one array, from the last to the first.\<close>

definition items_down :: "nat \<Rightarrow> u64 \<Rightarrow> item list" where
  "items_down i n = map (Pair i) (rev [0..<unat n])"

definition total_items :: "u64 list \<Rightarrow> nat" where
  "total_items cs = sum_list (map unat cs)"

definition pool_resize :: "nat \<Rightarrow> 'o \<Rightarrow> u64 \<Rightarrow> 'o object_pool \<Rightarrow> pool_error + bool \<times> 'o object_pool" where
  "pool_resize room fresh n p =
     (let n = (if mCurrItems p + n > mMaxItems p then mMaxItems p - mCurrItems p else n)
      in if n > 0 \<and> mCurrItems p + n \<le> mMaxItems p then
           (if total_items (mItemCaches p) + unat n \<le> room then
              let i = length (mItemCaches p)
              in Inr (True, p\<lparr>mItemCaches := mItemCaches p @ [n], mAllocationCount := mAllocationCount p + 1,
                   mFreeItems := mFreeItems p @ items_down i n, mCurrItems := mCurrItems p + n,
                   objects := (\<lambda>x. if fst x = i then fresh else objects p x)\<rparr>)
            else Inl Pool_bad_alloc)
         else Inr (False, p))"

definition ObjectPool_new :: "nat \<Rightarrow> 'o \<Rightarrow> u64 \<Rightarrow> u64 \<Rightarrow> u64 \<Rightarrow> pool_error + 'o object_pool" where
  "ObjectPool_new room fresh initialCapacity maxItems increaseStep =
     bindE (pool_resize room fresh initialCapacity
              \<lparr>mFreeItems = [], mItemCaches = [], mMaxItems = maxItems, mCurrItems = 0,
               mIncreaseStep = (if increaseStep = 0 then drop_bit 1 initialCapacity else increaseStep),
               mAllocationCount = 0, objects = (\<lambda>_. fresh)\<rparr>)
       (\<lambda>(grown, p). Inr p)"

text \<open>\<open>back\<close>, \<open>pop_back\<close> and \<open>reset\<close> of the item; the vector is not empty.\<close>

definition pop_item :: "('o \<Rightarrow> 'o) \<Rightarrow> 'o object_pool \<Rightarrow> item option \<times> 'o object_pool" where
  "pop_item reset_object p =
     (let x = last (mFreeItems p)
      in (Some x, p\<lparr>mFreeItems := butlast (mFreeItems p), objects := (objects p)(x := reset_object (objects p x))\<rparr>))"

definition pool_create :: "nat \<Rightarrow> 'o \<Rightarrow> ('o \<Rightarrow> 'o) \<Rightarrow> 'o object_pool \<Rightarrow> pool_error + item option \<times> 'o object_pool" where
  "pool_create room fresh reset_object p =
     (if mFreeItems p \<noteq> [] then Inr (pop_item reset_object p)
      else bindE (pool_resize room fresh (mIncreaseStep p) p)
             (\<lambda>(grown, p). if grown then Inr (pop_item reset_object p) else Inr (None, p)))"

text \<open>The assertion of debug builds: it asks every array for the item.\<close>

definition in_cache :: "item \<Rightarrow> u64 list \<Rightarrow> nat \<Rightarrow> bool" where
  "in_cache x cs i \<longleftrightarrow> fst x = i \<and> snd x < unat (cs ! i)"

definition debug_assert :: "bool \<Rightarrow> item \<Rightarrow> 'o object_pool \<Rightarrow> bool" where
  "debug_assert debug x p \<longleftrightarrow> debug \<longrightarrow> (\<forall>i \<in> set [0..<length (mItemCaches p)]. in_cache x (mItemCaches p) i)"

definition pool_destroy :: "bool \<Rightarrow> item option \<Rightarrow> 'o object_pool \<Rightarrow> pool_error + bool \<times> 'o object_pool" where
  "pool_destroy debug item p =
     (case item of
        None \<Rightarrow> Inr (False, p)
      | Some x \<Rightarrow>
          if debug_assert debug x p then Inr (True, p\<lparr>mFreeItems := mFreeItems p @ [x]\<rparr>) else Inl Pool_assertion_failed)"

text \<open>The loop over an array of items; a null pointer is incremented to a pointer that is not null.\<close>

fun destroy_loop :: "bool \<Rightarrow> item option \<Rightarrow> nat \<Rightarrow> u64 \<Rightarrow> 'o object_pool \<Rightarrow> pool_error + u64 \<times> 'o object_pool" where
  "destroy_loop debug current 0 itemCount p = Inr (itemCount, p)"
| "destroy_loop debug None (Suc n) itemCount p = (if n = 0 then Inr (itemCount + 1, p) else Inl Pool_bad_pointer)"
| "destroy_loop debug (Some x) (Suc n) itemCount p =
     bindE (pool_destroy debug (Some x) p)
       (\<lambda>(_, p). destroy_loop debug (Some (fst x, snd x + 1)) n (itemCount + 1) p)"

definition pool_destroy_array :: "bool \<Rightarrow> item option \<Rightarrow> u64 \<Rightarrow> 'o object_pool \<Rightarrow> pool_error + u64 \<times> 'o object_pool" where
  "pool_destroy_array debug items n p = destroy_loop debug items (unat n) 0 p"



definition allocationCount :: "'o object_pool \<Rightarrow> u64" where
  "allocationCount p = mAllocationCount p"

definition caches_down :: "u64 list \<Rightarrow> item list" where
  "caches_down cs = concat (map (\<lambda>i. items_down i (cs ! i)) [0..<length cs])"

definition pool_reset :: "'o object_pool \<Rightarrow> 'o object_pool" where
  "pool_reset p = p\<lparr>mFreeItems := caches_down (mItemCaches p)\<rparr>"

subsection \<open>Clients\<close>

text \<open>
  What a client may do: create, give back an item that it holds, give back a part of an array of items it holds, or reset the pool and
  forget all items. \<open>live\<close> are the items it holds.
\<close>

inductive pool_step :: "nat \<Rightarrow> 'o \<Rightarrow> ('o \<Rightarrow> 'o) \<Rightarrow> 'o object_pool \<times> item list \<Rightarrow> 'o object_pool \<times> item list \<Rightarrow> bool" for room fresh reset_object where
  create: "pool_create room fresh reset_object p = Inr (r, p') \<Longrightarrow>
    pool_step room fresh reset_object (p, live) (p', case r of None \<Rightarrow> live | Some x \<Rightarrow> x # live)"
| destroy: "x \<in> set live \<Longrightarrow> pool_destroy False (Some x) p = Inr (b, p') \<Longrightarrow>
    pool_step room fresh reset_object (p, live) (p', remove1 x live)"
| destroy_array: "set (map (\<lambda>k. (fst x, snd x + k)) [0..<unat n]) \<subseteq> set live \<Longrightarrow> pool_destroy_array False (Some x) n p = Inr (c, p') \<Longrightarrow>
    pool_step room fresh reset_object (p, live) (p', filter (\<lambda>y. y \<notin> set (map (\<lambda>k. (fst x, snd x + k)) [0..<unat n])) live)"
| reset: "pool_step room fresh reset_object (p, live) (pool_reset p, [])"

inductive pool_reachable :: "nat \<Rightarrow> 'o \<Rightarrow> ('o \<Rightarrow> 'o) \<Rightarrow> u64 \<Rightarrow> u64 \<Rightarrow> u64 \<Rightarrow> 'o object_pool \<times> item list \<Rightarrow> bool"
  for room fresh reset_object initialCapacity maxItems increaseStep where
  init: "ObjectPool_new room fresh initialCapacity maxItems increaseStep = Inr p \<Longrightarrow>
    pool_reachable room fresh reset_object initialCapacity maxItems increaseStep (p, [])"
| step: "pool_reachable room fresh reset_object initialCapacity maxItems increaseStep s \<Longrightarrow> pool_step room fresh reset_object s s' \<Longrightarrow>
    pool_reachable room fresh reset_object initialCapacity maxItems increaseStep s'"

subsection \<open>Lemmas\<close>

lemma items_down_props: "set (items_down i n) = {i} \<times> {0..<unat n}" "distinct (items_down i n)" "length (items_down i n) = unat n"
  by (auto simp: items_down_def distinct_map inj_on_def)

lemma caches_down_snoc: "caches_down (cs @ [n]) = caches_down cs @ items_down (length cs) n"
proof -
  have "concat (map (\<lambda>i. items_down i ((cs @ [n]) ! i)) [0..<length cs]) = concat (map (\<lambda>i. items_down i (cs ! i)) [0..<length cs])"
    by (rule arg_cong [of _ _ concat]) (auto simp: nth_append)
  then show ?thesis by (simp add: caches_down_def)
qed

lemma caches_down_set: "set (caches_down cs) = {x. fst x < length cs \<and> snd x < unat (cs ! fst x)}"
  by (force simp: caches_down_def items_down_props)

lemma caches_down_distinct: "distinct (caches_down cs)"
proof (induction cs rule: rev_induct)
  case (snoc n cs)
  then show ?case by (auto simp: caches_down_snoc caches_down_set items_down_props)
qed (simp add: caches_down_def)

lemma caches_down_length: "length (caches_down cs) = total_items cs"
proof (induction cs rule: rev_induct)
  case (snoc n cs)
  then show ?case by (simp add: caches_down_snoc items_down_props total_items_def)
qed (simp add: caches_down_def total_items_def)

text \<open>The books of the pool: every item is free or held, once.\<close>

definition pool_inv :: "nat \<Rightarrow> u64 \<Rightarrow> 'o object_pool \<times> item list \<Rightarrow> bool" where
  "pool_inv room maxItems s \<longleftrightarrow> (case s of (p, live) \<Rightarrow>
     distinct (mFreeItems p @ live) \<and> set (mFreeItems p @ live) = set (caches_down (mItemCaches p))
     \<and> mMaxItems p = maxItems \<and> unat (mCurrItems p) = total_items (mItemCaches p)
     \<and> mCurrItems p \<le> maxItems \<and> total_items (mItemCaches p) \<le> room)"

lemma pool_inv_count:
  assumes "pool_inv room maxItems (p, live)"
  shows "length (mFreeItems p) + length live = unat (mCurrItems p)"
proof -
  have "length (mFreeItems p @ live) = card (set (caches_down (mItemCaches p)))"
    using assms distinct_card [of "mFreeItems p @ live"] by (simp add: pool_inv_def)
  also have "\<dots> = total_items (mItemCaches p)" using distinct_card [OF caches_down_distinct] caches_down_length by metis
  finally show ?thesis using assms by (simp add: pool_inv_def)
qed

lemma pool_resize_inv:
  assumes inv: "pool_inv room maxItems (p, live)" and r: "pool_resize room fresh n p = Inr (grown, p')" and room: "room < 2 ^ 63"
  shows "pool_inv room maxItems (p', live) \<and> mIncreaseStep p' = mIncreaseStep p
    \<and> (if grown then mFreeItems p' \<noteq> [] else p' = p \<and> (n = 0 \<or> mCurrItems p = maxItems))"
proof -
  have p: "unat (mCurrItems p) = total_items (mItemCaches p)" "mCurrItems p \<le> maxItems" "mMaxItems p = maxItems" "total_items (mItemCaches p) \<le> room"
    using inv by (simp_all add: pool_inv_def)
  define c where "c = (if mCurrItems p + n > mMaxItems p then mMaxItems p - mCurrItems p else n)"
  have cle: "mCurrItems p + c \<le> mMaxItems p" using p by (auto simp: c_def)
  show ?thesis
  proof (cases "c > 0")
    case True
    then have g: "grown" "total_items (mItemCaches p) + unat c \<le> room"
      "p' = p\<lparr>mItemCaches := mItemCaches p @ [c], mAllocationCount := mAllocationCount p + 1,
           mFreeItems := mFreeItems p @ items_down (length (mItemCaches p)) c, mCurrItems := mCurrItems p + c,
           objects := (\<lambda>x. if fst x = length (mItemCaches p) then fresh else objects p x)\<rparr>"
      using r cle unfolding pool_resize_def c_def [symmetric] by (auto simp: Let_def split: if_splits)
    have "unat (mCurrItems p + c) = unat (mCurrItems p) + unat c"
      using g(2) p(1) room by (intro unat_add_lem [THEN iffD1]) simp
    moreover have "items_down (length (mItemCaches p)) c \<noteq> []" using True
      by (simp add: items_down_def word_less_nat_alt)
    moreover have "distinct (mFreeItems p @ items_down (length (mItemCaches p)) c @ live)"
    proof -
      have "fst y < length (mItemCaches p)" if "y \<in> set (mFreeItems p @ live)" for y
        using that inv unfolding pool_inv_def caches_down_set by auto
      then have "set (items_down (length (mItemCaches p)) c) \<inter> set (mFreeItems p @ live) = {}"
        by (fastforce simp: items_down_props)
      then show ?thesis using inv by (auto simp: pool_inv_def items_down_props(2))
    qed
    ultimately show ?thesis
      using inv g cle p(3) by (auto simp: pool_inv_def caches_down_snoc total_items_def)
  next
    case False
    then have c0: "c = 0" by (simp add: word_gt_0)
    then have "\<not> grown" "p' = p" using r unfolding pool_resize_def c_def [symmetric] by (auto simp: Let_def)
    moreover have "n = 0 \<or> mCurrItems p = maxItems" using c0 p(3) by (auto simp: c_def split: if_splits)
    ultimately show ?thesis using inv by simp
  qed
qed


lemma pop_item_inv:
  assumes "pool_inv room maxItems (p, live)" "mFreeItems p \<noteq> []" "pop_item reset_object p = (r, p')"
  shows "\<exists>x. r = Some x \<and> x \<notin> set live \<and> pool_inv room maxItems (p', x # live) \<and> mIncreaseStep p' = mIncreaseStep p"
proof -
  obtain xs x where xs: "mFreeItems p = xs @ [x]" using assms(2) by (metis append_butlast_last_id)
  show ?thesis using assms(1,3) unfolding pop_item_def Let_def xs
    by (intro exI [of _ x]) (auto simp: pool_inv_def xs simp del: split_paired_Ex)
qed

lemma pool_create_inv:
  assumes inv: "pool_inv room maxItems (p, live)" and c: "pool_create room fresh reset_object p = Inr (r, p')" and room: "room < 2 ^ 63"
  shows "pool_inv room maxItems (p', case r of None \<Rightarrow> live | Some x \<Rightarrow> x # live) \<and> mIncreaseStep p' = mIncreaseStep p
    \<and> (case r of None \<Rightarrow> mFreeItems p = [] \<and> (mIncreaseStep p = 0 \<or> mCurrItems p = maxItems) | Some x \<Rightarrow> x \<notin> set live)"
proof (cases "mFreeItems p = []")
  case False
  then have "pop_item reset_object p = (r, p')" using c by (simp add: pool_create_def)
  from pop_item_inv [OF inv False this] show ?thesis by auto
next
  case True
  then obtain grown p1 where g: "pool_resize room fresh (mIncreaseStep p) p = Inr (grown, p1)"
    "(if grown then pop_item reset_object p1 else (None, p1)) = (r, p')"
    using c by (auto simp: pool_create_def bindE_eq_Inr split: if_splits)
  note i = pool_resize_inv [OF inv g(1) room]
  show ?thesis
  proof (cases grown)
    case t: True
    then have "mFreeItems p1 \<noteq> []" "pop_item reset_object p1 = (r, p')" "pool_inv room maxItems (p1, live)" using i g(2) by simp_all
    from pop_item_inv [OF this(3,1,2)] i show ?thesis by auto
  next
    case False
    then show ?thesis using i g(2) inv True by auto
  qed
qed

lemma destroy_inv:
  assumes "pool_inv room maxItems (p, live)" "x \<in> set live"
  shows "pool_inv room maxItems (p\<lparr>mFreeItems := mFreeItems p @ [x]\<rparr>, remove1 x live)"
  using assms by (auto simp: pool_inv_def set_remove1_eq)

lemma filter_Cons_remove1: "distinct live \<Longrightarrow> filter (\<lambda>y. y \<notin> insert x A) live = filter (\<lambda>y. y \<notin> A) (remove1 x live)"
  by (auto simp: distinct_remove1_removeAll removeAll_filter_not_eq intro!: filter_cong)

lemma destroy_loop_inv:
  assumes "pool_inv room maxItems (p, live)" "(\<lambda>k. (i, j + k)) ` {0..<n} \<subseteq> set live"
  shows "\<exists>p'. destroy_loop False (Some (i, j)) n c p = Inr (c + of_nat n, p') \<and> mIncreaseStep p' = mIncreaseStep p
    \<and> pool_inv room maxItems (p', filter (\<lambda>y. y \<notin> (\<lambda>k. (i, j + k)) ` {0..<n}) live)"
  using assms
proof (induction n arbitrary: p live j c)
  case (Suc n)
  let ?p = "p\<lparr>mFreeItems := mFreeItems p @ [(i, j)]\<rparr>" and ?A = "(\<lambda>k. (i, j + 1 + k)) ` {0..<n}"
  have img: "(\<lambda>k. (i, j + k)) ` {0..<Suc n} = insert (i, j) ?A"
    unfolding atLeast0_lessThan_Suc_eq_insert_0 image_insert image_image by simp
  have d: "distinct live" using Suc.prems(1) by (simp add: pool_inv_def)
  have x: "(i, j) \<in> set live" "?A \<subseteq> set live" using Suc.prems(2) unfolding img by blast+
  have "?A \<subseteq> set (remove1 (i, j) live)" using x(2) d by (auto simp: set_remove1_eq)
  from Suc.IH [OF destroy_inv [OF Suc.prems(1) x(1)] this, of "c + 1"]
  show ?case unfolding img filter_Cons_remove1 [OF d]
    by (auto simp: pool_destroy_def debug_assert_def algebra_simps)
qed (simp_all add: filter_id_conv)

lemma pool_step_inv:
  assumes "pool_step room fresh reset_object s s'" "pool_inv room maxItems s" "room < 2 ^ 63"
  shows "pool_inv room maxItems s' \<and> mIncreaseStep (fst s') = mIncreaseStep (fst s)"
  using assms(1)
proof cases
  case (create p r p' live)
  then show ?thesis using pool_create_inv [of room maxItems p live fresh reset_object r p'] assms(2,3) by simp
next
  case (destroy x live p b p')
  then show ?thesis using destroy_inv [of room maxItems p live x] assms(2) by (auto simp: pool_destroy_def debug_assert_def)
next
  case (destroy_array x n live p c p')
  obtain i j where x: "x = (i, j)" by fastforce
  have "(\<lambda>k. (i, j + k)) ` {0..<unat n} \<subseteq> set live" using destroy_array(3) by (simp add: x)
  from destroy_loop_inv [OF _ this, of room maxItems p 0] show ?thesis
    using destroy_array assms(2) by (auto simp: pool_destroy_array_def x)
next
  case (reset p live)
  then show ?thesis using assms(2) by (auto simp: pool_inv_def pool_reset_def caches_down_distinct)
qed

lemma pool_new_inv:
  assumes "ObjectPool_new room fresh initialCapacity maxItems increaseStep = Inr p" "room < 2 ^ 63"
  shows "pool_inv room maxItems (p, []) \<and> mIncreaseStep p = (if increaseStep = 0 then drop_bit 1 initialCapacity else increaseStep)"
proof -
  let ?p0 = "\<lparr>mFreeItems = [], mItemCaches = [], mMaxItems = maxItems, mCurrItems = 0,
               mIncreaseStep = (if increaseStep = 0 then drop_bit 1 initialCapacity else increaseStep),
               mAllocationCount = 0, objects = (\<lambda>_. fresh)\<rparr>"
  have i: "pool_inv room maxItems (?p0, [])" by (simp add: pool_inv_def caches_down_def total_items_def)
  obtain g where "pool_resize room fresh initialCapacity ?p0 = Inr (g, p)"
    using assms(1) by (auto simp: ObjectPool_new_def bindE_eq_Inr)
  from pool_resize_inv [OF i this assms(2)] show ?thesis by simp
qed

lemma pool_reachable_inv:
  assumes "pool_reachable room fresh reset_object initialCapacity maxItems increaseStep s" "room < 2 ^ 63"
  shows "pool_inv room maxItems s
    \<and> mIncreaseStep (fst s) = (if increaseStep = 0 then drop_bit 1 initialCapacity else increaseStep)"
  using assms(1)
proof induction
  case (init p)
  then show ?case using pool_new_inv [OF init assms(2)] by simp
next
  case (step s s')
  then show ?case using pool_step_inv [OF step.hyps(2) _ assms(2)] by metis
qed


text \<open>In debug builds, once there are two arrays, every item fails the assertion of one of them.\<close>

lemma debug_assert_two_caches:
  "2 \<le> length (mItemCaches p) \<Longrightarrow> pool_destroy True (Some x) p = Inl Pool_assertion_failed"
proof -
  assume l: "2 \<le> length (mItemCaches p)"
  have "\<not> debug_assert True x p"
  proof
    assume "debug_assert True x p"
    then have c: "in_cache x (mItemCaches p) i" if "i < length (mItemCaches p)" for i using that by (simp add: debug_assert_def)
    have "0 < length (mItemCaches p)" "1 < length (mItemCaches p)" using l by linarith+
    from this [THEN c] show False by (simp add: in_cache_def)
  qed
  then show ?thesis by (simp add: pool_destroy_def)
qed

subsection \<open>Properties\<close>



text \<open>
  When \<open>create\<close> returns \<open>nullptr\<close>. It does so only when \<open>maxItems\<close> items are in use, except that a pool without an
  increase step that was created for fewer than two items never grows: its default step is half of the initial capacity, 0.
\<close>

theorem object_pool_exhausted:
  assumes "pool_reachable room fresh reset_object initialCapacity maxItems increaseStep (p, live)" "room < 2 ^ 63"
    and "pool_create room fresh reset_object p = Inr (None, p')"
  shows "length live = unat maxItems \<or> increaseStep = 0 \<and> initialCapacity < 2"
proof -
  have inv: "pool_inv room maxItems (p, live)"
    and step: "mIncreaseStep p = (if increaseStep = 0 then drop_bit 1 initialCapacity else increaseStep)"
    using pool_reachable_inv [OF assms(1,2)] by simp_all
  have e: "mFreeItems p = []" "mIncreaseStep p = 0 \<or> mCurrItems p = maxItems" using pool_create_inv [OF inv assms(3,2)] by simp_all
  from e(2) show ?thesis
  proof
    assume "mCurrItems p = maxItems"
    then show ?thesis using pool_inv_count [OF inv] e(1) by simp
  next
    assume z: "mIncreaseStep p = 0"
    then have "drop_bit 1 initialCapacity = 0" "increaseStep = 0" using step by (simp_all split: if_splits)
    then have "unat initialCapacity div 2 = 0" by (metis drop_bit_Suc drop_bit_0 One_nat_def drop_bit_eq_div power_one_right unat_0 unat_drop_bit_eq)
    then show ?thesis using \<open>increaseStep = 0\<close> by (auto simp: word_less_nat_alt)
  qed
qed

theorem object_pool_exhausted_witness:
  "\<exists>p p1 p2 :: nat object_pool. ObjectPool_new 100 0 1 50 0 = Inr p \<and> pool_create 100 0 (\<lambda>x. x) p = Inr (Some (0, 0), p1)
    \<and> pool_create 100 0 (\<lambda>x. x) p1 = Inr (None, p2) \<and> (1 = unat (50 :: u64) \<or> (0 :: u64) = 0 \<and> (1 :: u64) < 2)"
proof -
  define p :: "nat object_pool" where "p = \<lparr>mFreeItems = [(0, 0)], mItemCaches = [1], mMaxItems = 50, mCurrItems = 1,
    mIncreaseStep = 0, mAllocationCount = 1, objects = (\<lambda>_. 0)\<rparr>"
  let ?p1 = "p\<lparr>mFreeItems := []\<rparr>"
  have n: "ObjectPool_new 100 0 1 50 0 = Inr p"
    by (simp add: ObjectPool_new_def pool_resize_def total_items_def items_down_def p_def word_le_nat_alt word_less_nat_alt fun_eq_iff)
  have c: "pool_create 100 0 (\<lambda>x. x) p = Inr (Some (0, 0), ?p1)"
    by (simp add: pool_create_def pop_item_def p_def Let_def fun_upd_idem)
  have c2: "pool_create 100 0 (\<lambda>x. x) ?p1 = Inr (None, ?p1)"
    by (simp add: pool_create_def pool_resize_def p_def word_le_nat_alt)
  have r: "pool_reachable 100 0 (\<lambda>x. x) 1 50 0 (?p1, [(0, 0)])"
    using pool_reachable.step [OF pool_reachable.init [OF n] pool_step.create [OF c]] by simp
  from object_pool_exhausted [OF r _ c2] n c c2 show ?thesis by auto
qed

end
