(* ===== verification/MemoryStore.thy ===== *)
theory MemoryStore
  imports Prelude
begin

text \<open>
  \<open>source/memorystore/CacheEntry.h\<close>, \<open>GridCache.cpp\<close> and \<open>source/pipeline/Message.h\<close>. The unions of bit fields are 64-bit words; the
  first field is in the lowest bits, as on x86-64. A \<open>std::vector\<close> object is its three pointers, 24 bytes.
\<close>

subsection \<open>CacheEntry\<close>

record cache_entry =
  entry_data :: "nat option"
  meta :: u64

definition ttl :: "u64 \<Rightarrow> u64" where
  "ttl m = m AND mask 48"

definition lockCount :: "u64 \<Rightarrow> u64" where
  "lockCount m = drop_bit 48 m AND mask 16"

definition set_lockCount :: "u64 \<Rightarrow> u64 \<Rightarrow> u64" where
  "set_lockCount n m = (m AND mask 48) OR push_bit 48 (n AND mask 16)"

definition locked :: "cache_entry \<Rightarrow> bool" where
  "locked e \<longleftrightarrow> lockCount (meta e) > 0"

definition lock :: "cache_entry \<Rightarrow> cache_entry" where
  "lock e = e\<lparr>meta := set_lockCount (lockCount (meta e) + 1) (meta e)\<rparr>"

definition unlock :: "cache_entry \<Rightarrow> cache_entry" where
  "unlock e = e\<lparr>meta := set_lockCount (lockCount (meta e) - 1) (meta e)\<rparr>"

subsection \<open>GridCache\<close>

text \<open>The pointers of a \<open>std::vector<CacheEntry>\<close>; an entry has 16 bytes.\<close>

record vector_object =
  v_begin :: u64
  v_end :: u64
  v_cap :: u64

definition vector_new :: "u64 \<Rightarrow> u64 \<Rightarrow> vector_object" where
  "vector_new address n = \<lparr>v_begin = address, v_end = address + 16 * n, v_cap = address + 16 * n\<rparr>"

definition vector_size :: "vector_object \<Rightarrow> u64" where
  "vector_size v = (v_end v - v_begin v) div 16"

text \<open>\<open>memset(p, 0, n)\<close> on the vector object itself: \<open>None\<close> if it writes behind the 24 bytes.\<close>

definition clear_bytes :: "nat \<Rightarrow> u64 \<Rightarrow> u64" where
  "clear_bytes n w = w AND NOT (mask (8 * min n 8))"

definition memset_vector :: "u64 \<Rightarrow> vector_object \<Rightarrow> vector_object option" where
  "memset_vector n v =
     (if unat n > 24 then None
      else Some \<lparr>v_begin = clear_bytes (unat n) (v_begin v), v_end = clear_bytes (unat n - 8) (v_end v),
                 v_cap = clear_bytes (unat n - 16) (v_cap v)\<rparr>)"

datatype grid_error = Heap_overflow | Grid_bad_alloc

record grid_cache =
  mDaysBack :: u64
  mDaysForward :: u64
  mNumStations :: u64
  mCache :: "(int \<times> nat) list"
  vectors :: "vector_object list"

definition GridCache_new :: "u64 \<Rightarrow> u64 \<Rightarrow> u64 \<Rightarrow> grid_cache" where
  "GridCache_new numberOfDaysBack numberOfDaysForward numberOfStations =
     \<lparr>mDaysBack = numberOfDaysBack, mDaysForward = numberOfDaysForward, mNumStations = numberOfStations, mCache = [], vectors = []\<rparr>"

text \<open>\<open>GridCache::array\<close>; \<open>alloc\<close> is the address of the entries that the vector allocates, if it can.\<close>

definition grid_array :: "u64 option \<Rightarrow> int \<Rightarrow> bool \<Rightarrow> grid_cache \<Rightarrow> grid_error + nat option \<times> grid_cache" where
  "grid_array alloc station createIfMissing g =
     (case map_of (mCache g) station of
        Some entry \<Rightarrow> Inr (Some entry, g)
      | None \<Rightarrow>
          if createIfMissing then
            (case alloc of
               None \<Rightarrow> Inl Grid_bad_alloc
             | Some address \<Rightarrow>
                 (let v = vector_new address (mDaysBack g * mDaysForward g); entry = length (vectors g)
                  in case memset_vector (vector_size v) v of
                       None \<Rightarrow> Inl Heap_overflow
                     | Some v' \<Rightarrow> Inr (Some entry, g\<lparr>vectors := vectors g @ [v'], mCache := (station, entry) # mCache g\<rparr>)))
          else Inr (None, g))"

definition numberOfDaysBack :: "grid_cache \<Rightarrow> u64" where
  "numberOfDaysBack g = mDaysBack g"

definition numberOfDaysForward :: "grid_cache \<Rightarrow> u64" where
  "numberOfDaysForward g = mDaysForward g"

definition numberOfStations :: "grid_cache \<Rightarrow> u64" where
  "numberOfStations g = mNumStations g"

subsection \<open>PublicMsg\<close>

datatype PublicMsgType = Msg_Update | Msg_OpenRequest | Msg_CloseRequest | Msg_Terminate

record public_msg =
  flags :: u64
  ptrData :: "nat option"

definition flag_destroy :: "u64 \<Rightarrow> u64" where
  "flag_destroy f = f AND mask 1"

definition flag_type :: "u64 \<Rightarrow> u64" where
  "flag_type f = drop_bit 1 f AND mask 4"

definition flag_id :: "u64 \<Rightarrow> u64" where
  "flag_id f = drop_bit 5 f AND mask 32"

definition flag_value :: "u64 \<Rightarrow> u32" where
  "flag_value f = ucast f"

definition make_flags :: "u64 \<Rightarrow> u64 \<Rightarrow> u64 \<Rightarrow> u64" where
  "make_flags d t i = (d AND mask 1) OR push_bit 1 (t AND mask 4) OR push_bit 5 (i AND mask 32)"

definition shouldDestroy :: "public_msg \<Rightarrow> bool" where
  "shouldDestroy m \<longleftrightarrow> flag_destroy (flags m) = 1"

text \<open>The numbers from 4 to 15 are values of the enumeration type without a name: \<open>None\<close>.\<close>

definition msg_type :: "public_msg \<Rightarrow> PublicMsgType option" where
  "msg_type m =
     (let t = flag_type (flags m)
      in if t = 0 then Some Msg_Update else if t = 1 then Some Msg_OpenRequest
         else if t = 2 then Some Msg_CloseRequest else if t = 3 then Some Msg_Terminate else None)"

definition msg_id :: "public_msg \<Rightarrow> u64" where
  "msg_id m = flag_id (flags m)"

subsection \<open>Lemmas\<close>

lemma lockCount_set: "lockCount (set_lockCount n m) = n AND mask 16" "ttl (set_lockCount n m) = ttl m"
  by (rule bit_word_eqI; auto simp: lockCount_def set_lockCount_def ttl_def bit_simps bits_simps)+

lemma set_lockCount_same: "set_lockCount (lockCount m) m = m"
  by (rule bit_word_eqI) (auto simp: lockCount_def set_lockCount_def bit_simps)

lemma set_lockCount_twice: "set_lockCount a (set_lockCount b m) = set_lockCount a m"
  by (rule bit_word_eqI) (auto simp: set_lockCount_def bit_simps)

lemma flags_fields:
  "flag_destroy (make_flags d t i) = d AND mask 1" "flag_type (make_flags d t i) = t AND mask 4" "flag_id (make_flags d t i) = i AND mask 32"
  by (rule bit_word_eqI; auto simp: flag_destroy_def flag_type_def flag_id_def make_flags_def bit_simps One_nat_def [symmetric] simp del: push_bit_Suc One_nat_def)+

lemma flag_value_make: "flag_value (make_flags d t i) = flag_value (make_flags d t (i AND mask 27))"
  by (rule bit_word_eqI) (auto simp: flag_value_def make_flags_def bit_simps)


lemma clear_all: "8 \<le> n \<Longrightarrow> clear_bytes n w = 0"
  by (rule bit_word_eqI) (auto simp: clear_bytes_def bit_simps)

lemma clear_none: "clear_bytes 0 w = w"
  by (simp add: clear_bytes_def)

lemma unat_mask: "unat (x AND mask k :: u64) = unat x mod 2 ^ k"
  unfolding take_bit_eq_mask [symmetric] unsigned_take_bit_eq by (rule take_bit_eq_mod)

lemma mask_add:
  assumes "k \<le> 64"
  shows "((x AND mask k) + y) AND mask k = (x + y) AND (mask k :: u64)"
proof -
  have d: "(2 :: nat) ^ k dvd 2 ^ 64" using assms by (rule le_imp_power_dvd)
  have "unat (((x AND mask k) + y) AND mask k) = (unat x mod 2 ^ k + unat y) mod 2 ^ 64 mod 2 ^ k"
    by (simp only: unat_mask unat_word_ariths) simp
  also have "\<dots> = (unat x + unat y) mod 2 ^ 64 mod 2 ^ k" unfolding mod_mod_cancel [OF d] by (rule mod_add_left_eq)
  also have "\<dots> = unat ((x + y) AND mask k)" by (simp only: unat_mask unat_word_ariths) simp
  finally show ?thesis by (simp add: word_unat_eq_iff)
qed

lemma mask_sub: "k \<le> 64 \<Longrightarrow> ((x AND mask k) - y) AND mask k = (x - y) AND (mask k :: u64)"
  using mask_add [of k x "- y"] by simp

lemma lockCount_mask: "lockCount m AND mask 16 = lockCount m"
  by (simp add: lockCount_def ac_simps)

text \<open>\<open>n\<close> calls of \<open>lock\<close>.\<close>

lemma lock_power:
  "lockCount (meta ((lock ^^ n) e)) = (lockCount (meta e) + of_nat n) AND mask 16 \<and> ttl (meta ((lock ^^ n) e)) = ttl (meta e)
    \<and> entry_data ((lock ^^ n) e) = entry_data e"
proof (induction n)
  case 0
  show ?case by (simp add: lockCount_mask)
next
  case (Suc n)
  have "((lockCount (meta e) + of_nat n) AND mask 16) + 1 AND mask 16 = (lockCount (meta e) + of_nat (Suc n)) AND (mask 16 :: u64)"
    using mask_add [of 16 "lockCount (meta e) + of_nat n" 1] by (simp add: add_ac)
  then show ?case using Suc.IH by (simp add: lock_def lockCount_set)
qed

lemma unlock_lock: "unlock (lock x) = x"
proof -
  have "((lockCount (meta x) + 1) AND mask 16) - 1 AND mask 16 = lockCount (meta x)" by (simp add: mask_sub lockCount_mask)
  then have "set_lockCount (((lockCount (meta x) + 1) AND mask 16) - 1) (meta x) = set_lockCount (lockCount (meta x)) (meta x)"
    unfolding set_lockCount_def lockCount_mask by simp
  then have "set_lockCount (((lockCount (meta x) + 1) AND mask 16) - 1) (meta x) = meta x" unfolding set_lockCount_same .
  then show ?thesis by (simp add: lock_def unlock_def lockCount_set set_lockCount_twice)
qed

lemma unlock_lock_power: "(unlock ^^ n) ((lock ^^ n) x) = x"
proof (induction n)
  case (Suc n)
  have "(unlock ^^ Suc n) ((lock ^^ Suc n) x) = (unlock ^^ n) (unlock (lock ((lock ^^ n) x)))"
    by (simp add: funpow_swap1)
  then show ?case using Suc.IH unlock_lock by simp
qed simp

lemma unat_low16: "unat (of_nat n AND mask 16 :: u64) = n mod 65536"
proof -
  have "unat (of_nat n AND mask 16 :: u64) = n mod 2 ^ 64 mod 2 ^ 16" by (simp only: unat_mask unat_of_nat) simp
  also have "\<dots> = n mod 65536" by (simp add: mod_mod_cancel)
  finally show ?thesis .
qed

subsection \<open>Properties\<close>

text \<open>
  Locks count modulo \<open>2 ^ 16\<close> and nothing else changes. After \<open>n\<close> calls of \<open>lock\<close> on an unlocked entry it is locked exactly when
  \<open>n\<close> is not a multiple of 65536, \<open>n\<close> calls of \<open>unlock\<close> give back the entry, and the time to live is never touched.
\<close>

theorem cache_entry_locks:
  assumes "lockCount (meta e) = 0"
  shows "(locked ((lock ^^ n) e) \<longleftrightarrow> \<not> 65536 dvd n) \<and> ttl (meta ((lock ^^ n) e)) = ttl (meta e) \<and> (unlock ^^ n) ((lock ^^ n) e) = e"
proof -
  have "unat (lockCount (meta ((lock ^^ n) e))) = n mod 65536" using lock_power [of n e] assms unat_low16 [of n] by simp
  then have "locked ((lock ^^ n) e) \<longleftrightarrow> n mod 65536 \<noteq> 0" by (auto simp: locked_def word_less_nat_alt)
  then show ?thesis using lock_power [of n e] unlock_lock_power [of n e] by (simp add: dvd_eq_mod_eq_0)
qed

theorem cache_entry_locks_witness:
  "locked ((lock ^^ 3) \<lparr>entry_data = None, meta = 60\<rparr>) \<and> \<not> locked ((lock ^^ 65536) \<lparr>entry_data = None, meta = 60\<rparr>)"
proof -
  have z: "lockCount (meta \<lparr>entry_data = None, meta = 60\<rparr>) = 0" by (simp add: lockCount_def)
  show ?thesis using cache_entry_locks [OF z, of 3] cache_entry_locks [OF z, of 65536] by simp
qed

lemma clear_some: "n < 8 \<Longrightarrow> clear_bytes n w = w AND NOT (mask (8 * n))"
  by (simp add: clear_bytes_def)

text \<open>
  C39: what \<open>array\<close> returns. A station that is there is returned as it is, and without \<open>createIfMissing\<close> nothing changes. When the
  vector of a station is created, \<open>memset\<close> hits the vector object, not its elements, as many bytes as it has entries (fewer than
  \<open>2 ^ 56\<close>, which is more than the address space holds): a size of 0 does no harm; for 1 to 7 entries that many low
  bytes of the pointer to the entries are cleared, which is harmless only where they were 0 already; from 8
  to 24 entries the pointer is lost; and for more than 24 the heap behind the object is overwritten.
\<close>

theorem grid_array_spec:
  assumes "n = mDaysBack g * mDaysForward g" "n < 2 ^ 56"
  shows "(\<forall>e. map_of (mCache g) s = Some e \<longrightarrow> grid_array alloc s c g = Inr (Some e, g))
    \<and> (map_of (mCache g) s = None \<longrightarrow> grid_array alloc s False g = Inr (None, g))
    \<and> (map_of (mCache g) s = None \<and> 24 < n \<longrightarrow> grid_array (Some a) s True g = Inl Heap_overflow)
    \<and> (map_of (mCache g) s = None \<and> n \<le> 24 \<longrightarrow>
         (\<exists>v g'. grid_array (Some a) s True g = Inr (Some (length (vectors g)), g') \<and> vectors g' = vectors g @ [v]
           \<and> map_of (mCache g') s = Some (length (vectors g)) \<and> (n = 0 \<longrightarrow> v = vector_new a 0)
           \<and> (n < 8 \<longrightarrow> v = (vector_new a n)\<lparr>v_begin := a AND NOT (mask (8 * unat n))\<rparr>) \<and> (8 \<le> n \<longrightarrow> v_begin v = 0)))"
proof -
  have "unat (16 * n) = 16 * unat n" using assms(2) by (simp add: unat_word_ariths word_less_nat_alt)
  then have sz: "vector_size (vector_new a n) = n" by (simp add: vector_size_def vector_new_def word_unat_eq_iff unat_div)
  show ?thesis
    using assms(1) sz
    by (auto simp: grid_array_def Let_def memset_vector_def word_less_nat_alt word_le_nat_alt clear_all clear_none clear_some vector_new_def)
qed

theorem grid_array_spec_witness:
  "grid_array (Some 4096) 7 True (GridCache_new 5 6 100) = Inl Heap_overflow
    \<and> (\<exists>v g'. grid_array (Some 4112) 7 True (GridCache_new 1 1 100) = Inr (Some 0, g') \<and> vectors g' = [v] \<and> v_begin v = 4096)"
proof -
  have c: "(4112 :: u64) AND NOT (mask 8) = 4096" by code_simp
  show ?thesis
    using grid_array_spec [of 30 "GridCache_new 5 6 100" 7 None True 4096] grid_array_spec [of 1 "GridCache_new 1 1 100" 7 None True 4112] c
    by (auto simp: GridCache_new_def)
qed

text \<open>
  The fields of a message read back as they were written, cut to their widths; and the 32-bit \<open>value\<close> of the union does not
  determine them: identifiers that differ only above bit 26 have the same value.
\<close>

theorem message_flags:
  "shouldDestroy \<lparr>flags = make_flags d t i, ptrData = x\<rparr> = (d AND mask 1 = 1)
    \<and> flag_type (make_flags d t i) = t AND mask 4 \<and> msg_id \<lparr>flags = make_flags d t i, ptrData = x\<rparr> = i AND mask 32
    \<and> flag_value (make_flags d t i) = flag_value (make_flags d t (i AND mask 27))"
  using flags_fields [of d t i] flag_value_make [of d t i] by (simp add: shouldDestroy_def msg_id_def)

end
