(* ===== verification/ThriftOperators.thy ===== *)
theory ThriftOperators
  imports Main
begin

text \<open>
  \<open>source/thriftHelpers/ThriftModelOperators.cpp\<close>: the comparison operators of the Thrift types that are kept in a
  \<open>std::set\<close>. The types are generated from files outside of the repository; each operator reads one field. How a field is
  read is a parameter, one for every name of a field (a string or an integer, so linearly ordered).
\<close>

text \<open>The fields that the operators read, as functions on an object of the class at hand.\<close>

record ('a, 'k) thrift_fields =
  field_name :: "'a \<Rightarrow> 'k"
  field_id :: "'a \<Rightarrow> 'k"
  field_text :: "'a \<Rightarrow> 'k"
  field_eid :: "'a \<Rightarrow> 'k"
  field_numeric :: "'a \<Rightarrow> 'k"
  field_personNameId :: "'a \<Rightarrow> 'k"

definition Attribute_less :: "('a, 'k :: linorder) thrift_fields \<Rightarrow> 'a \<Rightarrow> 'a \<Rightarrow> bool" where
  "Attribute_less F this right \<longleftrightarrow> field_name F this < field_name F right"

definition RelatedStation_less :: "('a, 'k :: linorder) thrift_fields \<Rightarrow> 'a \<Rightarrow> 'a \<Rightarrow> bool" where
  "RelatedStation_less F this right \<longleftrightarrow> field_id F this < field_id F right"

definition Description_less :: "('a, 'k :: linorder) thrift_fields \<Rightarrow> 'a \<Rightarrow> 'a \<Rightarrow> bool" where
  "Description_less F this right \<longleftrightarrow> field_text F this < field_text F right"

definition Sport_less :: "('a, 'k :: linorder) thrift_fields \<Rightarrow> 'a \<Rightarrow> 'a \<Rightarrow> bool" where
  "Sport_less F this right \<longleftrightarrow> field_eid F this < field_eid F right"

definition Event_less :: "('a, 'k :: linorder) thrift_fields \<Rightarrow> 'a \<Rightarrow> 'a \<Rightarrow> bool" where
  "Event_less F this right \<longleftrightarrow> field_eid F this < field_eid F right"

definition Organization_less :: "('a, 'k :: linorder) thrift_fields \<Rightarrow> 'a \<Rightarrow> 'a \<Rightarrow> bool" where
  "Organization_less F this right \<longleftrightarrow> field_eid F this < field_eid F right"

definition OrganizationType_less :: "('a, 'k :: linorder) thrift_fields \<Rightarrow> 'a \<Rightarrow> 'a \<Rightarrow> bool" where
  "OrganizationType_less F this right \<longleftrightarrow> field_eid F this < field_eid F right"

definition OrganizationSeason_less :: "('a, 'k :: linorder) thrift_fields \<Rightarrow> 'a \<Rightarrow> 'a \<Rightarrow> bool" where
  "OrganizationSeason_less F this right \<longleftrightarrow> field_eid F this < field_eid F right"

definition SportFranchise_less :: "('a, 'k :: linorder) thrift_fields \<Rightarrow> 'a \<Rightarrow> 'a \<Rightarrow> bool" where
  "SportFranchise_less F this right \<longleftrightarrow> field_eid F this < field_eid F right"

definition SportFranchiseSeason_less :: "('a, 'k :: linorder) thrift_fields \<Rightarrow> 'a \<Rightarrow> 'a \<Rightarrow> bool" where
  "SportFranchiseSeason_less F this right \<longleftrightarrow> field_eid F this < field_eid F right"

definition Venue_less :: "('a, 'k :: linorder) thrift_fields \<Rightarrow> 'a \<Rightarrow> 'a \<Rightarrow> bool" where
  "Venue_less F this right \<longleftrightarrow> field_eid F this < field_eid F right"

definition VenueFormerName_less :: "('a, 'k :: linorder) thrift_fields \<Rightarrow> 'a \<Rightarrow> 'a \<Rightarrow> bool" where
  "VenueFormerName_less F this right \<longleftrightarrow> field_eid F this < field_eid F right"

definition VenueCapacity_less :: "('a, 'k :: linorder) thrift_fields \<Rightarrow> 'a \<Rightarrow> 'a \<Rightarrow> bool" where
  "VenueCapacity_less F this right \<longleftrightarrow> field_eid F this < field_eid F right"

definition EventType_less :: "('a, 'k :: linorder) thrift_fields \<Rightarrow> 'a \<Rightarrow> 'a \<Rightarrow> bool" where
  "EventType_less F this right \<longleftrightarrow> field_eid F this < field_eid F right"

definition College_less :: "('a, 'k :: linorder) thrift_fields \<Rightarrow> 'a \<Rightarrow> 'a \<Rightarrow> bool" where
  "College_less F this right \<longleftrightarrow> field_eid F this < field_eid F right"

definition Country_less :: "('a, 'k :: linorder) thrift_fields \<Rightarrow> 'a \<Rightarrow> 'a \<Rightarrow> bool" where
  "Country_less F this right \<longleftrightarrow> field_numeric F this < field_numeric F right"

definition TeamMember_less :: "('a, 'k :: linorder) thrift_fields \<Rightarrow> 'a \<Rightarrow> 'a \<Rightarrow> bool" where
  "TeamMember_less F this right \<longleftrightarrow> field_personNameId F this < field_personNameId F right"

text \<open>Every operator with the field that tells the elements of a set with it apart.\<close>

definition thrift_operators :: "('a, 'k :: linorder) thrift_fields \<Rightarrow> (('a \<Rightarrow> 'a \<Rightarrow> bool) \<times> ('a \<Rightarrow> 'k)) list" where
  "thrift_operators F =
     [(Attribute_less F, field_name F),
      (RelatedStation_less F, field_id F),
      (Description_less F, field_text F),
      (Sport_less F, field_eid F),
      (Event_less F, field_eid F),
      (Organization_less F, field_eid F),
      (OrganizationType_less F, field_eid F),
      (OrganizationSeason_less F, field_eid F),
      (SportFranchise_less F, field_eid F),
      (SportFranchiseSeason_less F, field_eid F),
      (Venue_less F, field_eid F),
      (VenueFormerName_less F, field_eid F),
      (VenueCapacity_less F, field_eid F),
      (EventType_less F, field_eid F),
      (College_less F, field_eid F),
      (Country_less F, field_numeric F),
      (TeamMember_less F, field_personNameId F)]"

subsection \<open>std::set\<close>

text \<open>\<open>insert\<close> of a \<open>std::set\<close> with the comparison \<open>lt\<close>: an element that is equivalent to one in the set is dropped.\<close>

fun set_insert :: "('a \<Rightarrow> 'a \<Rightarrow> bool) \<Rightarrow> 'a \<Rightarrow> 'a list \<Rightarrow> 'a list" where
  "set_insert lt x [] = [x]"
| "set_insert lt x (y # ys) =
     (if lt x y then x # y # ys else if lt y x then y # set_insert lt x ys else y # ys)"

text \<open>What the standard library requires of a comparison.\<close>

locale strict_weak_order =
  fixes lt :: "'a \<Rightarrow> 'a \<Rightarrow> bool"
  assumes irrefl: "\<not> lt x x"
    and trans: "lt x y \<Longrightarrow> lt y z \<Longrightarrow> lt x z"
    and incomparable: "lt x z \<Longrightarrow> lt x y \<or> lt y z"
begin

lemma insert_sorted:
  assumes "sorted_wrt lt ys"
  shows "sorted_wrt lt (set_insert lt x ys) \<and> set (set_insert lt x ys) \<subseteq> insert x (set ys)"
  using assms
proof (induction ys)
  case (Cons y ys)
  then show ?case using trans by (auto 0 3)
qed simp

lemma insert_equivalent:
  "\<exists>y \<in> set (set_insert lt x ys). \<not> lt x y \<and> \<not> lt y x"
  by (induction ys) (use irrefl in auto)

lemma insert_keeps: "set ys \<subseteq> set (set_insert lt x ys)"
  by (induction ys) auto

lemma build_sorted: "sorted_wrt lt (fold (set_insert lt) xs [])"
proof -
  have "sorted_wrt lt ys \<Longrightarrow> sorted_wrt lt (fold (set_insert lt) xs ys)" for ys
    by (induction xs arbitrary: ys) (simp_all add: insert_sorted)
  then show ?thesis by simp
qed

lemma build_subset: "set (fold (set_insert lt) xs []) \<subseteq> set xs"
proof -
  have "sorted_wrt lt ys \<Longrightarrow> set (fold (set_insert lt) xs ys) \<subseteq> set ys \<union> set xs" for ys
  proof (induction xs arbitrary: ys)
    case (Cons x xs)
    then show ?case using insert_sorted [OF Cons.prems, of x] by fastforce
  qed simp
  from this [of "[]"] show ?thesis by simp
qed

lemma build_complete:
  assumes "x \<in> set xs"
  shows "\<exists>y \<in> set (fold (set_insert lt) xs []). \<not> lt x y \<and> \<not> lt y x"
proof -
  have k: "set ys \<subseteq> set (fold (set_insert lt) xs ys)" for xs ys
    by (induction xs arbitrary: ys) (use insert_keeps in fastforce)+
  have "\<exists>y \<in> set (fold (set_insert lt) xs ys). \<not> lt x y \<and> \<not> lt y x" for ys
    using assms
  proof (induction xs arbitrary: ys)
    case (Cons z zs)
    show ?case
    proof (cases "x \<in> set zs")
      case False
      then have "x = z" using Cons.prems by simp
      then show ?thesis using insert_equivalent [of x ys] k [of "set_insert lt x ys" zs] by auto
    qed (use Cons.IH in simp)
  qed simp
  then show ?thesis .
qed

end

interpretation by_key: strict_weak_order "\<lambda>l r :: 'a. key l < (key r :: 'k :: linorder)" for key
  by unfold_locales auto

lemma thrift_operator_less: "(op, key) \<in> set (thrift_operators F) \<Longrightarrow> op = (\<lambda>l r. key l < key r)"
  by (auto simp: thrift_operators_def fun_eq_iff Attribute_less_def RelatedStation_less_def Description_less_def Sport_less_def Event_less_def Organization_less_def OrganizationType_less_def OrganizationSeason_less_def SportFranchise_less_def SportFranchiseSeason_less_def Venue_less_def VenueFormerName_less_def VenueCapacity_less_def EventType_less_def College_less_def Country_less_def TeamMember_less_def)

subsection \<open>Properties\<close>

text \<open>
  A \<open>std::set\<close> with any of the operators holds one element for every value of the field of that operator. After inserting any
  elements the set is strictly ordered, its keys are distinct and are exactly the keys of the elements inserted: elements
  that differ in other fields only are dropped.
\<close>

theorem thrift_set_one_per_key:
  assumes "(op, key) \<in> set (thrift_operators F)"
  shows "sorted_wrt op (fold (set_insert op) xs []) \<and> distinct (map key (fold (set_insert op) xs []))
    \<and> key ` set (fold (set_insert op) xs []) = key ` set xs \<and> set (fold (set_insert op) xs []) \<subseteq> set xs"
proof -
  let ?ys = "fold (set_insert op) xs []"
  note o = thrift_operator_less [OF assms]
  have s: "sorted_wrt op ?ys" unfolding o by (rule by_key.build_sorted)
  then have "sorted_wrt (<) (map key ?ys)" unfolding o by (simp add: sorted_wrt_map)
  then have d: "distinct (map key ?ys)" by (simp add: strict_sorted_iff)
  have sub: "set ?ys \<subseteq> set xs" unfolding o by (rule by_key.build_subset)
  have "key x \<in> key ` set ?ys" if "x \<in> set xs" for x
    using by_key.build_complete [OF that, of key] unfolding o by (metis image_eqI linorder_neqE)
  then show ?thesis using s d sub by blast
qed

text \<open>Two sports with the same \<open>eid\<close>: the second one is dropped, whatever its name is.\<close>

theorem thrift_set_one_per_key_witness:
  fixes F :: "(nat \<times> nat, nat) thrift_fields"
  defines "F \<equiv> \<lparr>field_name = snd, field_id = snd, field_text = snd, field_eid = fst, field_numeric = snd, field_personNameId = snd\<rparr>"
  shows "distinct (map fst (fold (set_insert (Sport_less F)) [(2, 7), (1, 8), (2, 9)] []))
    \<and> fold (set_insert (Sport_less F)) [(2, 7), (1, 8), (2, 9)] [] = [(1, 8), (2, 7)]"
  using thrift_set_one_per_key [of "Sport_less F" fst F "[(2, 7), (1, 8), (2, 9)]"]
  by (simp add: thrift_operators_def Sport_less_def F_def)

end
