(* ===== verification/Timers.thy ===== *)
theory Timers
  imports Prelude
begin

text \<open>
  \<open>source/utils/StopTimer.h\<close> and \<open>source/utils/SleepTimer.cpp\<close>. Time points are the signed 64-bit nanosecond counts of
  \<open>high_resolution_clock\<close>; the clock is a parameter. Durations convert to unsigned milliseconds through 64-bit words, as
  \<open>duration_cast\<close> does. The float in \<open>elapsedTime\<close> is left out.
\<close>

record StopTimer =
  mPrevValue :: int

definition StopTimer_new :: "int \<Rightarrow> StopTimer" where
  "StopTimer_new now = \<lparr>mPrevValue = now\<rparr>"

definition restart :: "int \<Rightarrow> StopTimer \<Rightarrow> StopTimer" where
  "restart now t = t\<lparr>mPrevValue := now\<rparr>"

definition elapsedTimeMilliseconds :: "int \<Rightarrow> StopTimer \<Rightarrow> u64" where
  "elapsedTimeMilliseconds now t = word_of_int (now - mPrevValue t) div 1000000"

definition systemTime :: "int \<Rightarrow> u64" where
  "systemTime now = word_of_int now div 1000000000"

text \<open>
  \<open>mIntervals[mOffset]\<close> is an unchecked index: \<open>None\<close> is the read outside of the vector. The result of \<open>sleep\<close> is
  the number of seconds slept and the timer afterwards.
\<close>

record SleepTimer =
  mIntervals :: "u64 list"
  mOffset :: u64

definition SleepTimer_new :: "u64 list \<Rightarrow> SleepTimer" where
  "SleepTimer_new intervals = \<lparr>mIntervals = intervals, mOffset = 0\<rparr>"

definition sleep :: "SleepTimer \<Rightarrow> (u64 \<times> SleepTimer) option" where
  "sleep t =
     (if unat (mOffset t) < length (mIntervals t)
      then Some (mIntervals t ! unat (mOffset t),
                 if mOffset t < of_nat (length (mIntervals t)) - 1 then t\<lparr>mOffset := mOffset t + 1\<rparr> else t)
      else None)"

definition reset :: "SleepTimer \<Rightarrow> SleepTimer" where
  "reset t = t\<lparr>mOffset := 0\<rparr>"

text \<open>\<open>n\<close> calls of \<open>sleep\<close>.\<close>

fun sleeps :: "nat \<Rightarrow> SleepTimer \<Rightarrow> (u64 list \<times> SleepTimer) option" where
  "sleeps 0 t = Some ([], t)"
| "sleeps (Suc n) t =
     (case sleep t of
        None \<Rightarrow> None
      | Some (s, t') \<Rightarrow> (case sleeps n t' of None \<Rightarrow> None | Some (ss, t'') \<Rightarrow> Some (s # ss, t'')))"

subsection \<open>Lemmas\<close>

lemma uint_elapsed: "uint (elapsedTimeMilliseconds now t) = (now - mPrevValue t) mod 2 ^ 64 div 1000000"
proof -
  have "uint (word_of_int (now - mPrevValue t) :: u64) = (now - mPrevValue t) mod 2 ^ 64" unfolding uint_word_of_int by simp
  then show ?thesis by (simp add: elapsedTimeMilliseconds_def uint_div_distrib del: of_int_diff)
qed

text \<open>Where the offset goes: one further, and it stays on the last interval.\<close>

lemma sleep_step:
  assumes "length (mIntervals t) < 2 ^ 64" "unat (mOffset t) < length (mIntervals t)"
  shows "\<exists>t'. sleep t = Some (mIntervals t ! unat (mOffset t), t') \<and> mIntervals t' = mIntervals t
    \<and> unat (mOffset t') = min (unat (mOffset t) + 1) (length (mIntervals t) - 1)"
proof -
  let ?n = "length (mIntervals t)"
  have u: "unat (of_nat ?n :: u64) = ?n" using assms(1) by (simp add: unat_of_nat)
  have "1 \<le> (of_nat ?n :: u64)" using assms u by (simp add: word_le_nat_alt)
  then have "unat (of_nat ?n - 1 :: u64) = ?n - 1" using u by (simp add: unat_sub)
  then have c: "mOffset t < of_nat ?n - 1 \<longleftrightarrow> unat (mOffset t) + 1 < ?n" unfolding word_less_nat_alt by linarith
  have "unat (mOffset t + 1) = unat (mOffset t) + 1" if "unat (mOffset t) + 1 < ?n"
    using that assms(1) by (intro trans [OF unat_add_lem [THEN iffD1]]) simp_all
  then show ?thesis using assms(2) c by (auto simp: sleep_def)
qed

lemma sleeps_from:
  assumes "length (mIntervals t) < 2 ^ 64" "unat (mOffset t) < length (mIntervals t)"
  shows "\<exists>t'. sleeps n t = Some (map (\<lambda>k. mIntervals t ! min (unat (mOffset t) + k) (length (mIntervals t) - 1)) [0..<n], t')"
  using assms
proof (induction n arbitrary: t)
  case (Suc n)
  let ?l = "length (mIntervals t) - 1"
  obtain t1 where t1: "sleep t = Some (mIntervals t ! unat (mOffset t), t1)" "mIntervals t1 = mIntervals t"
    "unat (mOffset t1) = min (unat (mOffset t) + 1) ?l" using sleep_step [OF Suc.prems] by blast
  have "unat (mOffset t1) < length (mIntervals t1)" using t1(2,3) Suc.prems(2) by simp
  then obtain t' where t': "sleeps n t1 = Some (map (\<lambda>k. mIntervals t ! min (unat (mOffset t1) + k) ?l) [0..<n], t')"
    using Suc.IH [of t1] Suc.prems(1) unfolding t1(2) by metis
  have "map (\<lambda>k. mIntervals t ! min (unat (mOffset t1) + k) ?l) [0..<n] = map (\<lambda>k. mIntervals t ! min (unat (mOffset t) + k) ?l) [Suc 0..<Suc n]"
    unfolding map_Suc_upt [symmetric] map_map comp_def t1(3)
    by (rule map_cong [OF refl], rule arg_cong [of _ _ "nth (mIntervals t)"]) (auto simp: min_def)
  moreover have "[0..<Suc n] = 0 # [Suc 0..<Suc n]" by (simp add: upt_conv_Cons del: upt_Suc)
  moreover have "min (unat (mOffset t)) ?l = unat (mOffset t)" using Suc.prems(2) by simp
  ultimately show ?case using t1(1) t' by (simp del: upt_Suc)
qed simp

subsection \<open>Properties\<close>

text \<open>
  \<open>elapsedTimeMilliseconds\<close> is the elapsed time rounded down, as long as the clock did not go back; if it
  was set back, the unsigned conversion yields more than \<open>9 * 10 ^ 12\<close> milliseconds.
\<close>

theorem elapsed_spec:
  assumes "\<bar>now - mPrevValue t\<bar> < 2 ^ 63"
  shows "uint (elapsedTimeMilliseconds now t)
    = (if mPrevValue t \<le> now then (now - mPrevValue t) div 1000000 else (2 ^ 64 - (mPrevValue t - now)) div 1000000)"
proof -
  have "(now - mPrevValue t) mod 2 ^ 64 = (if mPrevValue t \<le> now then now - mPrevValue t else 2 ^ 64 - (mPrevValue t - now))"
    using assms mod_add_self2 [of "now - mPrevValue t" "2 ^ 64"] mod_pos_pos_trivial [of "now - mPrevValue t" "2 ^ 64"]
      mod_pos_pos_trivial [of "now - mPrevValue t + 2 ^ 64" "2 ^ 64"] by auto
  then show ?thesis unfolding uint_elapsed by (simp split: if_splits)
qed

theorem elapsed_spec_witness: "uint (elapsedTimeMilliseconds 0 \<lparr>mPrevValue = 1\<rparr>) = 18446744073709"
  using elapsed_spec [of 0 "\<lparr>mPrevValue = 1\<rparr>"] by simp

text \<open>
  The \<open>k\<close>-th call of \<open>sleep\<close> sleeps for the \<open>k\<close>-th interval, and from then on for the last one, without a read outside of
  the vector; with an empty list of intervals the first call already reads outside.
\<close>

theorem sleeps_spec:
  assumes "length intervals < 2 ^ 64"
  shows "if intervals = [] then sleeps (Suc n) (SleepTimer_new intervals) = None
    else \<exists>t'. sleeps n (SleepTimer_new intervals) = Some (map (\<lambda>k. intervals ! min k (length intervals - 1)) [0..<n], t')"
  using sleeps_from [of "SleepTimer_new intervals" n] assms by (auto simp: SleepTimer_new_def sleep_def)

theorem sleeps_spec_witness: "\<exists>t'. sleeps (Suc (Suc (Suc (Suc 0)))) (SleepTimer_new [1, 2, 5]) = Some ([1, 2, 5, 5], t')"
  using sleeps_spec [of "[1, 2, 5]" "Suc (Suc (Suc (Suc 0)))"] by (simp del: sleeps.simps)

end
