(* ===== verification/Semaphore.thy ===== *)
theory Semaphore
  imports Prelude
begin

text \<open>
  \<open>source/utils/blockingconcurrentqueue.h\<close>, namespace \<open>mpmc_sema\<close>: the POSIX \<open>Semaphore\<close> wrapper and
  \<open>LightweightSemaphore\<close>.

  The lightweight semaphore is modelled with its interleavings: every atomic access to \<open>m_count\<close> and every
  operation on the kernel semaphore is one step of one thread, and a thread that is inside an
  operation has a program counter with the locals that it still needs. \<open>m_count\<close> is an integer in the range of
  \<open>ssize_t\<close>: the two operations that can leave the range, \<open>fetch_add\<close> and \<open>fetch_sub\<close>, wrap around, and so does the
  cast \<open>(int)toRelease\<close>. The \<open>choice\<close> of a step resolves what the code does not determine: a
  spurious failure of \<open>compare_exchange_weak\<close>, the expiry of a timed wait, and a deadline that \<open>sem_timedwait\<close> rejects
  with \<open>EINVAL\<close> (\<open>timed_wait\<close> then reports success although it took nothing, \<open>timed_wait_deadline\<close> below); \<open>Fewer\<close> is
  for the queue above the semaphore, where a bulk dequeue may overlook elements, and is like \<open>Go\<close> here.
  Each step also tells how many permits it acquired.
\<close>

subsection \<open>The POSIX wrapper\<close>

text \<open>
  What a call of \<open>sem_wait\<close>, \<open>sem_trywait\<close> or \<open>sem_timedwait\<close> returned: success, or \<open>-1\<close> with \<open>errno\<close>.
\<close>

datatype sem_rc = Rc_ok | EINTR | EAGAIN | ETIMEDOUT | EINVAL

text \<open>
  The retry loops: the return codes of the successive calls are given as a list, and the first that is not
  \<open>EINTR\<close> ends the loop (\<open>None\<close>: still in the loop at the end of the list).
\<close>

fun retry_eintr :: "sem_rc list \<Rightarrow> sem_rc option" where
  "retry_eintr [] = None"
| "retry_eintr (rc # rcs) = (if rc = EINTR then retry_eintr rcs else Some rc)"

definition Semaphore_wait :: "sem_rc list \<Rightarrow> unit option" where
  "Semaphore_wait rcs = map_option (\<lambda>_. ()) (retry_eintr rcs)"

definition Semaphore_try_wait :: "sem_rc list \<Rightarrow> bool option" where
  "Semaphore_try_wait rcs = map_option (\<lambda>rc. rc \<noteq> EAGAIN) (retry_eintr rcs)"

text \<open>The absolute deadline of a timed wait, from the current time and the microseconds to wait.\<close>

definition deadline :: "int \<times> int \<Rightarrow> u64 \<Rightarrow> int \<times> int" where
  "deadline now usecs =
     (let usecs_in_1_sec = 1000000; nsecs_in_1_sec = 1000000000;
          sec = fst now + uint usecs div usecs_in_1_sec;
          nsec = snd now + (uint usecs mod usecs_in_1_sec) * 1000
      in if nsec > nsecs_in_1_sec then (sec + 1, nsec - nsecs_in_1_sec) else (sec, nsec))"

text \<open>\<open>sem_timedwait\<close> gives the return codes of the successive calls for a deadline.\<close>

definition Semaphore_timed_wait :: "(int \<times> int \<Rightarrow> sem_rc list) \<Rightarrow> int \<times> int \<Rightarrow> u64 \<Rightarrow> bool option" where
  "Semaphore_timed_wait sem_timedwait now usecs = map_option (\<lambda>rc. rc \<noteq> ETIMEDOUT) (retry_eintr (sem_timedwait (deadline now usecs)))"

subsection \<open>The state of the lightweight semaphore\<close>

record sema =
  m_count :: int
  m_sema :: nat

datatype choice = Go | Spurious | Expire | Invalid | Fewer nat

text \<open>\<open>ssize_t\<close> and \<open>int\<close> arithmetic: the representative modulo \<open>2 ^ 64\<close> or \<open>2 ^ 32\<close> that is in range.\<close>

definition ssize :: "int \<Rightarrow> int" where
  "ssize x = (x + 2 ^ 63) mod 2 ^ 64 - 2 ^ 63"

definition cast_int :: "int \<Rightarrow> int" where
  "cast_int x = (x + 2 ^ 31) mod 2 ^ 32 - 2 ^ 31"

text \<open>
  The two families of waits, \<open>wait\<close> (\<open>One\<close>) and \<open>waitMany\<close> (\<open>Many max\<close>). A wait is \<open>Timed\<close> or \<open>Untimed\<close>; \<open>Checked\<close> is the untimed
  \<open>waitMany(max)\<close>, which asserts that its result is positive. \<open>Return base limit\<close>: the
  caller of \<open>tryWait\<close> or \<open>tryWaitMany\<close> returns its result plus \<open>base\<close>; \<open>Spinning limit\<close>: it goes on to the
  spinning wait if nothing was acquired. \<open>Failed\<close>: the assertion failed.
\<close>

datatype amount = One | Many int

datatype limit = Timed | Untimed | Checked

datatype kont = Return nat limit | Spinning limit

datatype pc =
    Done nat
  | Failed
  | Try amount kont
  | Try_cas amount kont int
  | Spin amount limit nat
  | Spin_cas amount limit nat int
  | Dec amount limit
  | Blocked amount limit
  | Timed_out amount
  | Timed_out_try amount
  | Timed_out_cas amount int
  | Sig nat
  | Post nat

subsection \<open>The operations, step by step\<close>

text \<open>The return of a wait, with the assertion of \<open>waitMany(max)\<close>.\<close>

definition finish :: "limit \<Rightarrow> nat \<Rightarrow> pc" where
  "finish lim r = (if lim = Checked \<and> r = 0 then Failed else Done r)"

text \<open>How a call of \<open>tryWait\<close> / \<open>tryWaitMany\<close> that acquired \<open>r\<close> goes on.\<close>

fun resume :: "amount \<Rightarrow> kont \<Rightarrow> nat \<Rightarrow> pc" where
  "resume a (Return base lim) r = finish lim (base + r)"
| "resume One (Spinning lim) r = (if r = 0 then Spin One lim 10000 else finish lim r)"
| "resume (Many mx) (Spinning lim) r = (if r = 0 \<and> mx > 0 then Spin (Many mx) lim 10000 else finish lim r)"

fun tryWait_step :: "choice \<Rightarrow> sema \<Rightarrow> pc \<Rightarrow> (nat \<times> sema \<times> pc) option" where
  "tryWait_step ch s (Try One k) =
     Some (0, s, if m_count s > 0 then Try_cas One k (m_count s) else resume One k 0)"
| "tryWait_step ch s (Try_cas One k oldCount) =
     (if ch \<noteq> Spurious \<and> m_count s = oldCount
      then Some (1, s\<lparr>m_count := oldCount - 1\<rparr>, resume One k 1)
      else Some (0, s, if m_count s > 0 then Try_cas One k (m_count s) else resume One k 0))"
| "tryWait_step ch s _ = None"

text \<open>\<open>oldCount > max ? oldCount - max : 0\<close>\<close>

definition less_max :: "int \<Rightarrow> int \<Rightarrow> int" where
  "less_max oldCount mx = (if oldCount > mx then oldCount - mx else 0)"

fun tryWaitMany_step :: "choice \<Rightarrow> sema \<Rightarrow> pc \<Rightarrow> (nat \<times> sema \<times> pc) option" where
  "tryWaitMany_step ch s (Try (Many mx) k) =
     Some (0, s, if m_count s > 0 then Try_cas (Many mx) k (m_count s) else resume (Many mx) k 0)"
| "tryWaitMany_step ch s (Try_cas (Many mx) k oldCount) =
     (let newCount = less_max oldCount mx
      in if ch \<noteq> Spurious \<and> m_count s = oldCount
         then Some (nat (oldCount - newCount), s\<lparr>m_count := newCount\<rparr>,
                    resume (Many mx) k (nat (oldCount - newCount)))
         else Some (0, s, if m_count s > 0 then Try_cas (Many mx) k (m_count s) else resume (Many mx) k 0))"
| "tryWaitMany_step ch s _ = None"

fun waitWithPartialSpinning_step :: "choice \<Rightarrow> sema \<Rightarrow> pc \<Rightarrow> (nat \<times> sema \<times> pc) option" where
  "waitWithPartialSpinning_step ch s (Spin One lim 0) = Some (0, s, Dec One lim)"
| "waitWithPartialSpinning_step ch s (Spin One lim (Suc spin)) =
     Some (0, s, if m_count s > 0 then Spin_cas One lim spin (m_count s) else Spin One lim spin)"
| "waitWithPartialSpinning_step ch s (Spin_cas One lim spin oldCount) =
     (if m_count s = oldCount then Some (1, s\<lparr>m_count := oldCount - 1\<rparr>, finish lim 1)
      else Some (0, s, Spin One lim spin))"
| "waitWithPartialSpinning_step ch s (Dec One lim) =
     (if m_count s > 0 then Some (1, s\<lparr>m_count := ssize (m_count s - 1)\<rparr>, finish lim 1)
      else Some (0, s\<lparr>m_count := ssize (m_count s - 1)\<rparr>, Blocked One lim))"
| "waitWithPartialSpinning_step ch s (Blocked One lim) =
     (if ch = Expire then (if lim = Timed then Some (0, s, Timed_out One) else None)
      else if ch = Invalid then (if lim = Timed then Some (0, s, finish lim 1) else None)
      else if m_sema s > 0 then Some (1, s\<lparr>m_sema := m_sema s - 1\<rparr>, finish lim 1)
      else None)"
| "waitWithPartialSpinning_step ch s (Timed_out One) =
     Some (0, s, if m_count s \<ge> 0 then Timed_out_try One else Timed_out_cas One (m_count s))"
| "waitWithPartialSpinning_step ch s (Timed_out_try One) =
     (if m_sema s > 0 then Some (1, s\<lparr>m_sema := m_sema s - 1\<rparr>, Done 1) else Some (0, s, Timed_out One))"
| "waitWithPartialSpinning_step ch s (Timed_out_cas One oldCount) =
     (if m_count s = oldCount then Some (0, s\<lparr>m_count := oldCount + 1\<rparr>, Done 0) else Some (0, s, Timed_out One))"
| "waitWithPartialSpinning_step ch s _ = None"

text \<open>The end of \<open>waitManyWithPartialSpinning\<close>, once one permit was acquired.\<close>

definition acquired_one :: "int \<Rightarrow> limit \<Rightarrow> pc" where
  "acquired_one mx lim = (if mx > 1 then Try (Many (mx - 1)) (Return 1 lim) else finish lim 1)"

fun waitManyWithPartialSpinning_step :: "choice \<Rightarrow> sema \<Rightarrow> pc \<Rightarrow> (nat \<times> sema \<times> pc) option" where
  "waitManyWithPartialSpinning_step ch s (Spin (Many mx) lim 0) = Some (0, s, Dec (Many mx) lim)"
| "waitManyWithPartialSpinning_step ch s (Spin (Many mx) lim (Suc spin)) =
     Some (0, s, if m_count s > 0 then Spin_cas (Many mx) lim spin (m_count s) else Spin (Many mx) lim spin)"
| "waitManyWithPartialSpinning_step ch s (Spin_cas (Many mx) lim spin oldCount) =
     (let newCount = less_max oldCount mx
      in if m_count s = oldCount
         then Some (nat (oldCount - newCount), s\<lparr>m_count := newCount\<rparr>, finish lim (nat (oldCount - newCount)))
         else Some (0, s, Spin (Many mx) lim spin))"
| "waitManyWithPartialSpinning_step ch s (Dec (Many mx) lim) =
     (if m_count s \<le> 0 then Some (0, s\<lparr>m_count := ssize (m_count s - 1)\<rparr>, Blocked (Many mx) lim)
      else Some (1, s\<lparr>m_count := ssize (m_count s - 1)\<rparr>, acquired_one mx lim))"
| "waitManyWithPartialSpinning_step ch s (Blocked (Many mx) lim) =
     (if ch = Expire then (if lim = Timed then Some (0, s, Timed_out (Many mx)) else None)
      else if ch = Invalid then (if lim = Timed then Some (0, s, acquired_one mx lim) else None)
      else if m_sema s > 0 then Some (1, s\<lparr>m_sema := m_sema s - 1\<rparr>, acquired_one mx lim)
      else None)"
| "waitManyWithPartialSpinning_step ch s (Timed_out (Many mx)) =
     Some (0, s, if m_count s \<ge> 0 then Timed_out_try (Many mx) else Timed_out_cas (Many mx) (m_count s))"
| "waitManyWithPartialSpinning_step ch s (Timed_out_try (Many mx)) =
     (if m_sema s > 0 then Some (1, s\<lparr>m_sema := m_sema s - 1\<rparr>, acquired_one mx Timed)
      else Some (0, s, Timed_out (Many mx)))"
| "waitManyWithPartialSpinning_step ch s (Timed_out_cas (Many mx) oldCount) =
     (if m_count s = oldCount then Some (0, s\<lparr>m_count := oldCount + 1\<rparr>, Done 0)
      else Some (0, s, Timed_out (Many mx)))"
| "waitManyWithPartialSpinning_step ch s _ = None"

text \<open>\<open>Semaphore::signal(count)\<close> posts one permit at a time.\<close>

fun Semaphore_signal_step :: "choice \<Rightarrow> sema \<Rightarrow> pc \<Rightarrow> (nat \<times> sema \<times> pc) option" where
  "Semaphore_signal_step ch s (Post n) =
     (if n > 0 then Some (0, s\<lparr>m_sema := m_sema s + 1\<rparr>, Post (n - 1)) else Some (0, s, Done 0))"
| "Semaphore_signal_step ch s _ = None"

fun signal_step :: "choice \<Rightarrow> sema \<Rightarrow> pc \<Rightarrow> (nat \<times> sema \<times> pc) option" where
  "signal_step ch s (Sig count) =
     (let oldCount = m_count s;
          toRelease = (if ssize (- oldCount) < int count then ssize (- oldCount) else int count)
      in Some (0, s\<lparr>m_count := ssize (oldCount + int count)\<rparr>,
               if toRelease > 0 then Post (nat (cast_int toRelease)) else Done 0))"
| "signal_step ch s _ = None"

text \<open>The public operations: where each starts.\<close>

datatype sem_call = TryWait | Wait | Wait_timeout int | TryWaitMany int | WaitMany_timeout int int | WaitMany int | Signal nat

fun start :: "sem_call \<Rightarrow> pc" where
  "start TryWait = Try One (Return 0 Untimed)"
| "start Wait = Try One (Spinning Untimed)"
| "start (Wait_timeout timeout_usecs) = Try One (Spinning (if timeout_usecs < 0 then Untimed else Timed))"
| "start (TryWaitMany mx) = Try (Many mx) (Return 0 Untimed)"
| "start (WaitMany_timeout mx timeout_usecs) = Try (Many mx) (Spinning (if timeout_usecs < 0 then Untimed else Timed))"
| "start (WaitMany mx) = Try (Many mx) (Spinning Checked)"
| "start (Signal count) = Sig count"

text \<open>The assertions at the entry of the operations.\<close>

fun call_ok :: "sem_call \<Rightarrow> bool" where
  "call_ok (TryWaitMany mx) = (mx \<ge> 0)"
| "call_ok (WaitMany_timeout mx timeout_usecs) = (mx \<ge> 0)"
| "call_ok (WaitMany mx) = (mx \<ge> 0)"
| "call_ok _ = True"

definition availableApprox :: "sema \<Rightarrow> int" where
  "availableApprox s = (let count = m_count s in if count > 0 then count else 0)"

text \<open>One step of a thread: the function its program counter is in.\<close>

definition thread_step :: "choice \<Rightarrow> sema \<Rightarrow> pc \<Rightarrow> (nat \<times> sema \<times> pc) option" where
  "thread_step ch s p =
     (case p of
        Done _ \<Rightarrow> None
      | Failed \<Rightarrow> None
      | Try One _ \<Rightarrow> tryWait_step ch s p
      | Try (Many _) _ \<Rightarrow> tryWaitMany_step ch s p
      | Try_cas One _ _ \<Rightarrow> tryWait_step ch s p
      | Try_cas (Many _) _ _ \<Rightarrow> tryWaitMany_step ch s p
      | Sig _ \<Rightarrow> signal_step ch s p
      | Post _ \<Rightarrow> Semaphore_signal_step ch s p
      | _ \<Rightarrow> (case waitWithPartialSpinning_step ch s p of
                None \<Rightarrow> waitManyWithPartialSpinning_step ch s p | r \<Rightarrow> r))"

subsection \<open>All threads\<close>

text \<open>
  \<open>acquired\<close>, \<open>signalled\<close>, \<open>returned\<close> and \<open>rejected\<close> are history: the permits acquired and signalled so far, the sum of
  the results of the operations that have returned and whose thread has started another one, and
  the waits that were granted because \<open>sem_timedwait\<close> rejected their deadline.
\<close>

record sem_state =
  shared :: sema
  threads :: "pc list"
  acquired :: nat
  signalled :: nat
  returned :: nat
  rejected :: nat

definition LightweightSemaphore :: "nat \<Rightarrow> nat \<Rightarrow> sem_state" where
  "LightweightSemaphore initialCount n =
     \<lparr>shared = \<lparr>m_count = int initialCount, m_sema = 0\<rparr>, threads = replicate n (Done 0),
      acquired = 0, signalled = 0, returned = 0, rejected = 0\<rparr>"

text \<open>A wait that the step grants for a rejected deadline.\<close>

fun rejection :: "choice \<Rightarrow> pc \<Rightarrow> nat" where
  "rejection ch (Blocked a lim) = (if ch = Invalid \<and> lim = Timed then 1 else 0)"
| "rejection ch _ = 0"

fun signal_amount :: "pc \<Rightarrow> nat" where
  "signal_amount (Sig count) = count"
| "signal_amount _ = 0"

fun result_of :: "pc \<Rightarrow> nat" where
  "result_of (Done r) = r"
| "result_of _ = 0"

inductive sem_step :: "sem_state \<Rightarrow> sem_state \<Rightarrow> bool" where
  run: "i < length (threads st) \<Longrightarrow> thread_step ch (shared st) (threads st ! i) = Some (g, s', p') \<Longrightarrow>
    sem_step st (st\<lparr>shared := s', threads := (threads st)[i := p'], acquired := acquired st + g,
      signalled := signalled st + signal_amount (threads st ! i),
      rejected := rejected st + rejection ch (threads st ! i)\<rparr>)"
| call: "i < length (threads st) \<Longrightarrow> threads st ! i = Done r \<Longrightarrow> call_ok c \<Longrightarrow>
    sem_step st (st\<lparr>threads := (threads st)[i := start c], returned := returned st + r\<rparr>)"

inductive sem_reachable :: "nat \<Rightarrow> nat \<Rightarrow> sem_state \<Rightarrow> bool" for initialCount n where
  init: "sem_reachable initialCount n (LightweightSemaphore initialCount n)"
| step: "sem_reachable initialCount n st \<Longrightarrow> sem_step st st' \<Longrightarrow> sem_reachable initialCount n st'"

subsection \<open>Lemmas\<close>

text \<open>
  What a thread contributes to the books: whether \<open>m_count\<close> is decremented on its behalf without a permit yet, the
  posts it still owes, the permits it holds for its caller, and that its locals make sense.
\<close>

fun waiting :: "pc \<Rightarrow> int" where
  "waiting (Blocked _ _) = 1"
| "waiting (Timed_out _) = 1"
| "waiting (Timed_out_try _) = 1"
| "waiting (Timed_out_cas _ _) = 1"
| "waiting _ = 0"

fun posting :: "pc \<Rightarrow> int" where
  "posting (Post n) = int n"
| "posting _ = 0"

fun kont_held :: "kont \<Rightarrow> nat" where
  "kont_held (Return base _) = base"
| "kont_held (Spinning _) = 0"

fun held :: "pc \<Rightarrow> nat" where
  "held (Done r) = r"
| "held (Try _ k) = kont_held k"
| "held (Try_cas _ k _) = kont_held k"
| "held _ = 0"

fun amount_ok :: "amount \<Rightarrow> bool" where
  "amount_ok One = True"
| "amount_ok (Many mx) = (mx \<ge> 0)"

fun pc_ok :: "pc \<Rightarrow> bool" where
  "pc_ok (Try a _) = amount_ok a"
| "pc_ok (Try_cas a _ oldCount) = (amount_ok a \<and> oldCount > 0)"
| "pc_ok (Spin a _ _) = amount_ok a"
| "pc_ok (Spin_cas a _ _ oldCount) = (amount_ok a \<and> oldCount > 0)"
| "pc_ok (Dec a _) = amount_ok a"
| "pc_ok (Blocked a _) = amount_ok a"
| "pc_ok (Timed_out a) = amount_ok a"
| "pc_ok (Timed_out_try a) = amount_ok a"
| "pc_ok (Timed_out_cas a oldCount) = (amount_ok a \<and> oldCount < 0)"
| "pc_ok _ = True"

lemma finish_props [simp]:
  "waiting (finish lim r) = 0" "posting (finish lim r) = 0" "held (finish lim r) = r" "pc_ok (finish lim r)"
  by (simp_all add: finish_def)

lemma resume_props [simp]:
  "waiting (resume a k r) = 0" "posting (resume a k r) = 0"
  "held (resume a k r) = kont_held k + r"
  "amount_ok a \<Longrightarrow> pc_ok (resume a k r)"
  by (cases "(a, k, r)" rule: resume.cases; simp)+

lemma acquired_one_props [simp]:
  "waiting (acquired_one mx lim) = 0" "posting (acquired_one mx lim) = 0" "held (acquired_one mx lim) = 1"
  "mx \<ge> 0 \<Longrightarrow> pc_ok (acquired_one mx lim)"
  by (simp_all add: acquired_one_def)

text \<open>
  The books of one thread's step: \<open>balanced s p g sg s' p'\<close> says that a step from \<open>p\<close> to \<open>p'\<close> that acquires
  \<open>g\<close> permits and signals \<open>sg\<close> keeps the accounts of the semaphore.
\<close>

definition balanced :: "sema \<Rightarrow> pc \<Rightarrow> nat \<Rightarrow> nat \<Rightarrow> nat \<Rightarrow> sema \<Rightarrow> pc \<Rightarrow> bool" where
  "balanced s p g sg rj s' p' \<longleftrightarrow>
     int (m_sema s') + posting p' + max 0 (- m_count s') - waiting p'
       = int (m_sema s) + posting p + max 0 (- m_count s) - waiting p + int rj
     \<and> m_count s' + waiting p' + int g + int rj = m_count s + waiting p + int sg
     \<and> held p' = held p + g + rj \<and> pc_ok p'"

text \<open>No step of \<open>p\<close> leaves the range of \<open>ssize_t\<close> or \<open>int\<close>.\<close>

definition in_range :: "sema \<Rightarrow> pc \<Rightarrow> bool" where
  "in_range s p \<longleftrightarrow> - (2 ^ 31) < m_count s \<and> m_count s + int (signal_amount p) < 2 ^ 63"

lemma ssize_id [simp]: "- (2 ^ 63) \<le> x \<Longrightarrow> x < 2 ^ 63 \<Longrightarrow> ssize x = x"
  by (simp add: ssize_def)

lemma cast_int_id [simp]: "- (2 ^ 31) \<le> x \<Longrightarrow> x < 2 ^ 31 \<Longrightarrow> cast_int x = x"
  by (simp add: cast_int_def)

lemma in_range_dec: "in_range s p \<Longrightarrow> ssize (m_count s - 1) = m_count s - 1"
  by (simp add: in_range_def ssize_def)

lemma tryWait_balanced:
  "tryWait_step ch s p = Some (g, s', p') \<Longrightarrow> pc_ok p \<Longrightarrow> balanced s p g 0 (rejection ch p) s' p'"
  by (cases "(ch, s, p)" rule: tryWait_step.cases)
    (auto simp: balanced_def split: if_splits kont.splits)

lemma less_max_bounds: "oldCount > 0 \<Longrightarrow> mx \<ge> 0 \<Longrightarrow> 0 \<le> less_max oldCount mx \<and> less_max oldCount mx \<le> oldCount"
  by (simp add: less_max_def)

lemma tryWaitMany_balanced:
  "tryWaitMany_step ch s p = Some (g, s', p') \<Longrightarrow> pc_ok p \<Longrightarrow> balanced s p g 0 (rejection ch p) s' p'"
  using less_max_bounds
  by (cases "(ch, s, p)" rule: tryWaitMany_step.cases)
    (auto simp: balanced_def Let_def split: if_splits kont.splits)

lemma waitWithPartialSpinning_balanced:
  "waitWithPartialSpinning_step ch s p = Some (g, s', p') \<Longrightarrow> pc_ok p \<Longrightarrow> in_range s p \<Longrightarrow> balanced s p g 0 (rejection ch p) s' p'"
  by (cases "(ch, s, p)" rule: waitWithPartialSpinning_step.cases)
    (auto simp: balanced_def in_range_dec split: if_splits)

lemma waitManyWithPartialSpinning_balanced:
  "waitManyWithPartialSpinning_step ch s p = Some (g, s', p') \<Longrightarrow> pc_ok p \<Longrightarrow> in_range s p \<Longrightarrow> balanced s p g 0 (rejection ch p) s' p'"
  using less_max_bounds
  by (cases "(ch, s, p)" rule: waitManyWithPartialSpinning_step.cases)
    (auto simp: balanced_def in_range_dec Let_def split: if_splits)

lemma signal_balanced:
  "signal_step ch s p = Some (g, s', p') \<Longrightarrow> in_range s p \<Longrightarrow> balanced s p g (signal_amount p) (rejection ch p) s' p'"
  by (cases "(ch, s, p)" rule: signal_step.cases)
    (auto simp: balanced_def in_range_def Let_def split: if_splits)

lemma Semaphore_signal_balanced:
  "Semaphore_signal_step ch s p = Some (g, s', p') \<Longrightarrow> balanced s p g 0 (rejection ch p) s' p'"
  by (cases "(ch, s, p)" rule: Semaphore_signal_step.cases)
    (auto simp: balanced_def split: if_splits)

lemma thread_step_balanced:
  assumes "thread_step ch s p = Some (g, s', p')" "pc_ok p" "in_range s p"
  shows "balanced s p g (signal_amount p) (rejection ch p) s' p'"
proof -
  have w: "balanced s p g 0 (rejection ch p) s' p'"
    if "(case waitWithPartialSpinning_step ch s p of None \<Rightarrow> waitManyWithPartialSpinning_step ch s p | r \<Rightarrow> r)
      = Some (g, s', p')"
    using that waitWithPartialSpinning_balanced [OF _ assms(2,3)] waitManyWithPartialSpinning_balanced [OF _ assms(2,3)]
    by (auto split: option.splits)
  show ?thesis
    using assms(1) w tryWait_balanced [OF _ assms(2)] tryWaitMany_balanced [OF _ assms(2)]
      signal_balanced [OF _ assms(3)] Semaphore_signal_balanced [of ch s p g s' p']
    unfolding thread_step_def by (cases p) (auto split: amount.splits simp del: signal_step.simps Semaphore_signal_step.simps
        waitWithPartialSpinning_step.simps waitManyWithPartialSpinning_step.simps tryWait_step.simps tryWaitMany_step.simps rejection.simps)
qed

definition sem_inv :: "nat \<Rightarrow> sem_state \<Rightarrow> bool" where
  "sem_inv initialCount st \<longleftrightarrow>
     int (m_sema (shared st)) + sum_list (map posting (threads st)) + max 0 (- m_count (shared st))
       = sum_list (map waiting (threads st)) + int (rejected st)
     \<and> m_count (shared st) + sum_list (map waiting (threads st)) + int (rejected st) + int (acquired st)
       = int initialCount + int (signalled st)
     \<and> acquired st + rejected st = returned st + sum_list (map held (threads st))
     \<and> (\<forall>p \<in> set (threads st). pc_ok p)"

text \<open>
  The bounds under which nothing wraps around: fewer than \<open>2 ^ 63\<close> permits are ever given to the semaphore, and its threads
  plus the rejected deadlines are fewer than \<open>2 ^ 31\<close>. They hold of every earlier state when they hold of a later one.
\<close>

definition sem_fits :: "nat \<Rightarrow> sem_state \<Rightarrow> bool" where
  "sem_fits initialCount st \<longleftrightarrow> initialCount + signalled st < 2 ^ 63 \<and> length (threads st) + rejected st < 2 ^ 31"

lemma sem_step_fits: "sem_step st st' \<Longrightarrow> sem_fits initialCount st' \<Longrightarrow> sem_fits initialCount st"
  by (induction rule: sem_step.induct) (simp_all add: sem_fits_def)

lemma waiting_le_1: "waiting p \<le> 1"
  by (cases p) auto

lemma waiting_nonneg: "0 \<le> waiting p"
  by (cases p) auto

lemma posting_nonneg: "0 \<le> posting p"
  by (cases p) auto

lemma sum_waiting_bounds:
  "0 \<le> sum_list (map waiting ps)" "sum_list (map waiting ps) \<le> int (length ps)" "0 \<le> sum_list (map posting ps)"
proof (induction ps)
  case (Cons p ps)
  { case 1 show ?case using Cons waiting_nonneg [of p] by simp }
  { case 2 show ?case using Cons waiting_le_1 [of p] by simp }
  { case 3 show ?case using Cons posting_nonneg [of p] by simp }
qed simp_all

text \<open>The range of \<open>m_count\<close>.\<close>

lemma sem_inv_count:
  assumes "sem_inv initialCount st"
  shows "- int (length (threads st) + rejected st) \<le> m_count (shared st)"
    "m_count (shared st) \<le> int (initialCount + signalled st)"
  using assms sum_waiting_bounds [of "threads st"] unfolding sem_inv_def by linarith+

lemma sem_inv_in_range:
  assumes "sem_inv initialCount st" "length (threads st) + rejected st < 2 ^ 31"
    "initialCount + signalled st + signal_amount p < 2 ^ 63"
  shows "in_range (shared st) p"
  using sem_inv_count [OF assms(1)] assms(2,3) by (simp add: in_range_def)

lemma sum_list_upd_int:
  fixes f :: "'a \<Rightarrow> int"
  shows "i < length xs \<Longrightarrow> sum_list (map f (xs[i := y])) = sum_list (map f xs) + f y - f (xs ! i)"
  by (induction xs arbitrary: i) (auto split: nat.split)

lemma sum_list_upd_nat:
  fixes f :: "'a \<Rightarrow> nat"
  shows "i < length xs \<Longrightarrow> sum_list (map f (xs[i := y])) + f (xs ! i) = sum_list (map f xs) + f y"
  by (induction xs arbitrary: i) (auto split: nat.split)

lemma start_props [simp]: "waiting (start c) = 0" "posting (start c) = 0" "held (start c) = 0" "call_ok c \<Longrightarrow> pc_ok (start c)"
  by (cases c; simp)+

lemma sem_call_inv:
  assumes "sem_inv initialCount st" "i < length (threads st)" "threads st ! i = Done r" "call_ok c"
  shows "sem_inv initialCount (st\<lparr>threads := (threads st)[i := start c], returned := returned st + r\<rparr>)"
proof -
  have ok: "\<forall>p \<in> set ((threads st)[i := start c]). pc_ok p"
    using assms set_update_subset_insert [of "threads st" i "start c"] by (auto simp: sem_inv_def)
  show ?thesis
    using assms ok sum_list_upd_nat [OF assms(2), of held "start c"]
    by (simp add: sem_inv_def sum_list_upd_int [OF assms(2)])
qed

lemma sem_step_inv [inv_intros]:
  "sem_step st st' \<Longrightarrow> sem_fits initialCount st' \<Longrightarrow> sem_inv initialCount st \<Longrightarrow> sem_inv initialCount st'"
proof (induction rule: sem_step.induct)
  case (run i st ch g s' p')
  let ?p = "threads st ! i"
  have "pc_ok ?p" using run by (simp add: sem_inv_def)
  moreover have "in_range (shared st) ?p"
    by (rule sem_inv_in_range [OF run(4)]) (use run(3) in \<open>simp_all add: sem_fits_def\<close>)
  ultimately have b: "balanced (shared st) ?p g (signal_amount ?p) (rejection ch ?p) s' p'" using thread_step_balanced run by blast
  have ok: "\<forall>p \<in> set ((threads st)[i := p']). pc_ok p"
    using run b set_update_subset_insert [of "threads st" i p'] by (auto simp: sem_inv_def balanced_def)
  show ?case
    using run(4) b ok sum_list_upd_nat [OF run(1), of held p']
    by (simp add: sem_inv_def balanced_def sum_list_upd_int [OF run(1)])
next
  case (call i st r c)
  then show ?case by (intro sem_call_inv)
qed

lemma sem_reachable_length: "sem_reachable initialCount n st \<Longrightarrow> length (threads st) = n"
  by (induction rule: sem_reachable.induct) (auto simp: LightweightSemaphore_def elim: sem_step.cases)

lemma sem_reachable_fits_inv: "sem_reachable initialCount n st \<Longrightarrow> sem_fits initialCount st \<Longrightarrow> sem_inv initialCount st"
proof (induction rule: sem_reachable.induct)
  case init
  show ?case by (simp add: sem_inv_def LightweightSemaphore_def sum_list_replicate)
next
  case (step st st')
  then show ?case using sem_step_fits sem_step_inv by blast
qed

lemma sem_reachable_inv:
  "sem_reachable initialCount n st \<Longrightarrow> initialCount + signalled st < 2 ^ 63 \<Longrightarrow> n + rejected st < 2 ^ 31 \<Longrightarrow> sem_inv initialCount st"
  by (rule sem_reachable_fits_inv) (simp_all add: sem_fits_def sem_reachable_length)


text \<open>Bounds on the result of one operation, whatever the other threads do to the shared state.\<close>

inductive thread_run :: "pc \<Rightarrow> pc \<Rightarrow> bool" where
  here: "thread_run p p"
| onward: "thread_run p p' \<Longrightarrow> thread_step ch s p' = Some (g, s', p'') \<Longrightarrow> thread_run p p''"

fun at_most :: "amount \<Rightarrow> int" where
  "at_most One = 1"
| "at_most (Many mx) = mx"

fun upper :: "int \<Rightarrow> pc \<Rightarrow> bool" where
  "upper mx (Done r) = (int r \<le> mx)"
| "upper mx (Try a k) = (amount_ok a \<and> int (kont_held k) + at_most a \<le> mx)"
| "upper mx (Try_cas a k oldCount) = (oldCount > 0 \<and> amount_ok a \<and> int (kont_held k) + at_most a \<le> mx)"
| "upper mx (Spin a _ _) = (1 \<le> at_most a \<and> at_most a \<le> mx)"
| "upper mx (Spin_cas a _ _ oldCount) = (oldCount > 0 \<and> 1 \<le> at_most a \<and> at_most a \<le> mx)"
| "upper mx (Dec a _) = (1 \<le> at_most a \<and> at_most a \<le> mx)"
| "upper mx (Blocked a _) = (1 \<le> at_most a \<and> at_most a \<le> mx)"
| "upper mx (Timed_out a) = (1 \<le> at_most a \<and> at_most a \<le> mx)"
| "upper mx (Timed_out_try a) = (1 \<le> at_most a \<and> at_most a \<le> mx)"
| "upper mx (Timed_out_cas a _) = (1 \<le> at_most a \<and> at_most a \<le> mx)"
| "upper mx _ = (0 \<le> mx)"

fun lower :: "pc \<Rightarrow> bool" where
  "lower (Done r) = (1 \<le> r)"
| "lower (Try a (Return base _)) = (1 \<le> base)"
| "lower (Try a (Spinning lim)) = (lim \<noteq> Timed \<and> 1 \<le> at_most a)"
| "lower (Try_cas a (Return base _) oldCount) = (1 \<le> base)"
| "lower (Try_cas a (Spinning lim) oldCount) = (oldCount > 0 \<and> lim \<noteq> Timed \<and> 1 \<le> at_most a)"
| "lower (Spin a lim _) = (lim \<noteq> Timed \<and> 1 \<le> at_most a)"
| "lower (Spin_cas a lim _ oldCount) = (oldCount > 0 \<and> lim \<noteq> Timed \<and> 1 \<le> at_most a)"
| "lower (Dec a lim) = (lim \<noteq> Timed \<and> 1 \<le> at_most a)"
| "lower (Blocked a lim) = (lim \<noteq> Timed \<and> 1 \<le> at_most a)"
| "lower _ = False"

lemma finish_bounds: "int r \<le> mx \<Longrightarrow> 0 \<le> mx \<Longrightarrow> upper mx (finish lim r)" "lower (finish lim r) \<longleftrightarrow> 1 \<le> r"
  by (auto simp: finish_def)

lemma upper_resume: "int (kont_held k) + int r \<le> mx \<Longrightarrow> amount_ok a \<Longrightarrow> at_most a + int (kont_held k) \<le> mx \<Longrightarrow> upper mx (resume a k r)"
  by (cases "(a, k, r)" rule: resume.cases) (auto simp: finish_bounds)

lemma lower_resume: "(case k of Return base _ \<Rightarrow> 1 \<le> base | Spinning lim \<Rightarrow> lim \<noteq> Timed \<and> 1 \<le> at_most a) \<Longrightarrow> lower (resume a k r)"
  by (cases "(a, k, r)" rule: resume.cases) (auto simp: finish_bounds)

lemma acquired_one_bounds: "1 \<le> mx' \<Longrightarrow> mx' \<le> mx \<Longrightarrow> upper mx (acquired_one mx' lim)" "lower (acquired_one mx' lim)"
  by (simp_all add: acquired_one_def finish_bounds)

fun pc_amount :: "pc \<Rightarrow> amount" where
  "pc_amount (Try a _) = a"
| "pc_amount (Try_cas a _ _) = a"
| "pc_amount (Spin a _ _) = a"
| "pc_amount (Spin_cas a _ _ _) = a"
| "pc_amount (Dec a _) = a"
| "pc_amount (Blocked a _) = a"
| "pc_amount (Timed_out a) = a"
| "pc_amount (Timed_out_try a) = a"
| "pc_amount (Timed_out_cas a _) = a"
| "pc_amount _ = One"

fun pc_spin :: "pc \<Rightarrow> nat" where
  "pc_spin (Spin _ _ n) = n"
| "pc_spin _ = 0"

lemma upper_step: "thread_step ch s p = Some (g, s', p') \<Longrightarrow> upper mx p \<Longrightarrow> upper mx p'"
  by (cases p; cases "pc_amount p"; cases "pc_spin p")
    (auto simp: thread_step_def Let_def less_max_def acquired_one_bounds finish_bounds split: if_splits intro!: upper_resume)

lemma lower_step: "thread_step ch s p = Some (g, s', p') \<Longrightarrow> lower p \<Longrightarrow> lower p'"
  by (cases p; cases "pc_amount p"; cases "pc_spin p"; cases "case p of Try _ k \<Rightarrow> k | Try_cas _ k _ \<Rightarrow> k | _ \<Rightarrow> Return 0 Untimed")
    (auto simp: thread_step_def Let_def less_max_def acquired_one_bounds finish_bounds split: if_splits)

text \<open>The assertion of \<open>waitMany(max)\<close> cannot fail when \<open>max\<close> is positive.\<close>

fun limit_of :: "pc \<Rightarrow> limit" where
  "limit_of (Try _ (Return _ lim)) = lim"
| "limit_of (Try _ (Spinning lim)) = lim"
| "limit_of (Try_cas _ (Return _ lim) _) = lim"
| "limit_of (Try_cas _ (Spinning lim) _) = lim"
| "limit_of (Spin _ lim _) = lim"
| "limit_of (Spin_cas _ lim _ _) = lim"
| "limit_of (Dec _ lim) = lim"
| "limit_of (Blocked _ lim) = lim"
| "limit_of Failed = Checked"
| "limit_of _ = Untimed"

definition checked_ok :: "pc \<Rightarrow> bool" where
  "checked_ok p \<longleftrightarrow> (limit_of p = Checked \<longrightarrow> lower p)"

lemma limit_finish: "limit_of (finish lim r) = Checked \<Longrightarrow> lim = Checked"
  by (auto simp: finish_def split: if_splits)

lemma limit_resume: "limit_of (resume a k r) = Checked \<Longrightarrow> (case k of Return base lim \<Rightarrow> lim | Spinning lim \<Rightarrow> lim) = Checked"
  by (cases "(a, k, r)" rule: resume.cases) (auto dest: limit_finish split: if_splits)

lemma limit_acquired_one: "limit_of (acquired_one mx lim) = Checked \<Longrightarrow> lim = Checked"
  by (auto simp: acquired_one_def dest: limit_finish split: if_splits)

lemma limit_step: "thread_step ch s p = Some (g, s', p') \<Longrightarrow> limit_of p' = Checked \<Longrightarrow> limit_of p = Checked"
  by (cases p; cases "pc_amount p"; cases "pc_spin p"; cases "case p of Try _ k \<Rightarrow> k | Try_cas _ k _ \<Rightarrow> k | _ \<Rightarrow> Return 0 Untimed")
    (auto simp: thread_step_def Let_def split: if_splits dest: limit_finish limit_resume limit_acquired_one)

lemma checked_ok_step: "thread_step ch s p = Some (g, s', p') \<Longrightarrow> checked_ok p \<Longrightarrow> checked_ok p'"
  using limit_step lower_step unfolding checked_ok_def by blast

lemma checked_ok_Failed [simp]: "\<not> checked_ok Failed"
  by (simp add: checked_ok_def)

lemma thread_run_upper: "thread_run p p' \<Longrightarrow> upper mx p \<Longrightarrow> upper mx p'"
  by (induction rule: thread_run.induct) (auto intro: upper_step)

lemma thread_run_lower: "thread_run p p' \<Longrightarrow> lower p \<Longrightarrow> lower p'"
  by (induction rule: thread_run.induct) (auto intro: lower_step)


lemma result_le_held: "result_of p \<le> held p"
  by (cases p) auto

lemma sum_list_map_mono: "(\<And>x. x \<in> set xs \<Longrightarrow> f x \<le> (g x :: nat)) \<Longrightarrow> sum_list (map f xs) \<le> sum_list (map g xs)"
  by (induction xs) (auto intro: add_mono)

lemma sum_list_pos_mem:
  fixes f :: "'a \<Rightarrow> int"
  assumes "\<And>x. 0 \<le> f x" "x \<in> set xs"
  shows "f x \<le> sum_list (map f xs)"
  using assms(2)
proof (induction xs)
  case (Cons y ys)
  have "0 \<le> sum_list (map f ys)" by (rule sum_list_nonneg) (use assms(1) in auto)
  then show ?case using Cons assms(1) [of y] by (auto simp: add_increasing)
qed simp

lemma posting_mem:
  assumes "0 < sum_list (map posting ps)"
  shows "\<exists>n > 0. Post n \<in> set ps"
proof -
  have "\<exists>p \<in> set ps. 0 < posting p"
  proof (rule ccontr)
    assume "\<not> (\<exists>p \<in> set ps. 0 < posting p)"
    then have "sum_list (map posting ps) \<le> 0" by (intro sum_list_nonpos) (auto simp: not_less)
    then show False using assms by simp
  qed
  then obtain p where p: "p \<in> set ps" "0 < posting p" by blast
  obtain n where "p = Post n" "0 < n" using p(2) by (cases p) auto
  then show ?thesis using p(1) by blast
qed

lemma all_done_sums:
  assumes "\<forall>p \<in> set ps. \<exists>r. p = Done r"
  shows "sum_list (map waiting ps) = 0" "sum_list (map posting ps) = 0" "sum_list (map held ps) = sum_list (map result_of ps)"
  using assms by (induction ps) auto

text \<open>What an operation promises to return.\<close>

fun least_result :: "sem_call \<Rightarrow> nat" where
  "least_result Wait = 1"
| "least_result (WaitMany mx) = (if mx \<ge> 1 then 1 else 0)"
| "least_result _ = 0"

fun most_result :: "sem_call \<Rightarrow> int" where
  "most_result (TryWaitMany mx) = mx"
| "most_result (WaitMany_timeout mx _) = mx"
| "most_result (WaitMany mx) = mx"
| "most_result (Signal _) = 0"
| "most_result _ = 1"

text \<open>A run into sleep: the first of two threads starts a wait on an empty semaphore and blocks.\<close>

abbreviation two_threads :: "int \<Rightarrow> nat \<Rightarrow> pc list \<Rightarrow> nat \<Rightarrow> nat \<Rightarrow> sem_state" where
  "two_threads c k ps sg rj \<equiv> \<lparr>shared = \<lparr>m_count = c, m_sema = k\<rparr>, threads = ps, acquired = 0, signalled = sg, returned = 0, rejected = rj\<rparr>"

lemma blocked_reachable:
  assumes "call_ok c" "start c = Try One (Spinning lim)"
  shows "sem_reachable 0 2 (two_threads (- 1) 0 [Blocked One lim, Done 0] 0 0)"
proof -
  have r0: "sem_reachable 0 2 (two_threads 0 0 [Done 0, Done 0] 0 0)"
    using sem_reachable.init [of 0 2] by (simp add: LightweightSemaphore_def numeral_2_eq_2)
  have r1: "sem_reachable 0 2 (two_threads 0 0 [Try One (Spinning lim), Done 0] 0 0)"
    using sem_reachable.step [OF r0 sem_step.call [of 0 _ 0 c]] assms by simp
  have r2: "sem_reachable 0 2 (two_threads 0 0 [Spin One lim 10000, Done 0] 0 0)"
    using sem_reachable.step [OF r1 sem_step.run [of 0 _ Go]] by (simp add: thread_step_def)
  have spin: "sem_reachable 0 2 (two_threads 0 0 [Spin One lim n, Done 0] 0 0)
      \<Longrightarrow> sem_reachable 0 2 (two_threads 0 0 [Spin One lim 0, Done 0] 0 0)" for n
  proof (induction n)
    case (Suc n)
    have "sem_reachable 0 2 (two_threads 0 0 [Spin One lim n, Done 0] 0 0)"
      using sem_reachable.step [OF Suc.prems sem_step.run [of 0 _ Go]] by (simp add: thread_step_def)
    then show ?case by (rule Suc.IH)
  qed
  have r3: "sem_reachable 0 2 (two_threads 0 0 [Dec One lim, Done 0] 0 0)"
    using sem_reachable.step [OF spin [OF r2] sem_step.run [of 0 _ Go]] by (simp add: thread_step_def)
  show ?thesis
    using sem_reachable.step [OF r3 sem_step.run [of 0 _ Go]] by (simp add: thread_step_def)
qed

text \<open>The other thread signals, and is about to post.\<close>

lemma sleeping_reachable: "sem_reachable 0 2 (two_threads 0 0 [Blocked One Untimed, Post 1] 1 0)"
proof -
  have r: "sem_reachable 0 2 (two_threads (- 1) 0 [Blocked One Untimed, Done 0] 0 0)"
    by (rule blocked_reachable [of Wait]) simp_all
  have "sem_reachable 0 2 (two_threads (- 1) 0 [Blocked One Untimed, Sig 1] 0 0)"
    using sem_reachable.step [OF r sem_step.call [of 1 _ 0 "Signal 1"]] by simp
  from sem_reachable.step [OF this sem_step.run [of 1 _ Go]] show ?thesis by (simp add: thread_step_def)
qed

text \<open>
  A timed wait whose deadline is rejected returns a permit that nobody gave; the next \<open>signal\<close> then posts the kernel
  semaphore for nobody.
\<close>

lemma rejected_reachable: "sem_reachable 0 2 (two_threads (- 1) 0 [Done 1, Done 0] 0 1)"
proof -
  have r: "sem_reachable 0 2 (two_threads (- 1) 0 [Blocked One Timed, Done 0] 0 0)"
    by (rule blocked_reachable [of "Wait_timeout 5"]) simp_all
  from sem_reachable.step [OF r sem_step.run [of 0 _ Invalid]] show ?thesis by (simp add: thread_step_def finish_def)
qed

lemma stray_post_reachable: "sem_reachable 0 2 (two_threads 0 1 [Done 1, Done 0] 1 1)"
proof -
  have "sem_reachable 0 2 (two_threads (- 1) 0 [Done 1, Sig 1] 0 1)"
    using sem_reachable.step [OF rejected_reachable sem_step.call [of 1 _ 0 "Signal 1"]] by simp
  from sem_reachable.step [OF this sem_step.run [of 1 _ Go]]
  have "sem_reachable 0 2 (two_threads 0 0 [Done 1, Post 1] 1 1)" by (simp add: thread_step_def)
  from sem_reachable.step [OF this sem_step.run [of 1 _ Go]]
  have "sem_reachable 0 2 (two_threads 0 1 [Done 1, Post 0] 1 1)" by (simp add: thread_step_def)
  from sem_reachable.step [OF this sem_step.run [of 1 _ Go]] show ?thesis by (simp add: thread_step_def)
qed

subsection \<open>Properties\<close>

text \<open>
  C2: no permit is given out twice. In every reachable state of any number of threads, in any interleaving of
  waits, timed waits and signals, the permits that the finished operations returned to their callers
  are at most the initial count plus those signalled, plus one for each timed wait whose deadline
  \<open>sem_timedwait\<close> rejected (the deadlines of C38, at exactly \<open>10 ^ 9\<close> nanoseconds). Fewer than \<open>2 ^ 63\<close> permits
  have been given to the semaphore, and the threads and the rejected deadlines are fewer than \<open>2 ^ 31\<close> together.
\<close>

theorem sem_no_overgrant:
  assumes "sem_reachable initialCount n st" "initialCount + signalled st < 2 ^ 63" "n + rejected st < 2 ^ 31"
  shows "returned st + sum_list (map result_of (threads st)) \<le> initialCount + signalled st + rejected st"
proof -
  have i: "sem_inv initialCount st" by (rule sem_reachable_inv [OF assms])
  have "sum_list (map result_of (threads st)) \<le> sum_list (map held (threads st))"
    by (rule sum_list_map_mono) (rule result_le_held)
  then show ?thesis
    using i sum_waiting_bounds(3) [of "threads st"] unfolding sem_inv_def by linarith
qed

theorem sem_no_overgrant_witness:
  "\<exists>st. sem_reachable 0 2 st \<and> threads st = [Done 1, Done 0] \<and> signalled st = 0 \<and> rejected st = 1
    \<and> returned st + sum_list (map result_of (threads st)) \<le> 0 + signalled st + rejected st"
  using sem_no_overgrant [OF rejected_reachable] rejected_reachable
  by (intro exI [of _ "two_threads (- 1) 0 [Done 1, Done 0] 0 1"]) simp

text \<open>
  C3: no wakeup is lost. If a thread sleeps on the kernel semaphore while there are permits that nobody has acquired,
  then the kernel semaphore can be taken (and the sleeper's next step is possible), or some
  thread is on its way to post it. The bounds are those of C2: with \<open>2 ^ 31\<close> sleepers the cast to \<open>int\<close> would lose posts.
\<close>

theorem sem_no_lost_wakeup:
  assumes "sem_reachable initialCount n st" "initialCount + signalled st < 2 ^ 63" "n + rejected st < 2 ^ 31"
    and "Blocked a lim \<in> set (threads st)" "acquired st < initialCount + signalled st"
  shows "thread_step Go (shared st) (Blocked a lim) \<noteq> None \<or> (\<exists>k > 0. Post k \<in> set (threads st))"
proof -
  have i: "sem_inv initialCount st" by (rule sem_reachable_inv [OF assms(1-3)])
  have "1 \<le> sum_list (map waiting (threads st))"
    using sum_list_pos_mem [of waiting, OF waiting_nonneg assms(4)] by simp
  then have "0 < int (m_sema (shared st)) \<or> 0 < sum_list (map posting (threads st))"
    using i assms(5) unfolding sem_inv_def by linarith
  then show ?thesis
    using posting_mem by (cases a) (auto simp: thread_step_def)
qed

theorem sem_no_lost_wakeup_witness:
  "\<exists>st. sem_reachable 0 2 st \<and> Blocked One Untimed \<in> set (threads st) \<and> acquired st < 0 + signalled st
    \<and> thread_step Go (shared st) (Blocked One Untimed) = None \<and> (\<exists>k > 0. Post k \<in> set (threads st))"
  using sem_no_lost_wakeup [OF sleeping_reachable, of One Untimed] sleeping_reachable
  by (intro exI [of _ "two_threads 0 0 [Blocked One Untimed, Post 1] 1 0"]) (simp add: thread_step_def)

text \<open>
  C22: a semaphore at rest. When every operation has returned, \<open>m_count\<close> is exactly the initial count plus what was signalled
  minus what was returned: timeouts leave nothing behind. What rejected deadlines leave behind is exact as well: each of them
  is either a unit missing in \<open>m_count\<close> below zero or a permit left in the kernel semaphore; without any, the kernel semaphore is
  zero and \<open>availableApprox\<close> is exact. The bounds are those of C2.
\<close>

theorem sem_quiescent:
  assumes "sem_reachable initialCount n st" "initialCount + signalled st < 2 ^ 63" "n + rejected st < 2 ^ 31"
    and "\<forall>p \<in> set (threads st). \<exists>r. p = Done r"
  shows "m_count (shared st) = int initialCount + int (signalled st) - int (returned st) - int (sum_list (map result_of (threads st)))
    \<and> int (m_sema (shared st)) + max 0 (- m_count (shared st)) = int (rejected st)
    \<and> (rejected st = 0 \<longrightarrow> m_sema (shared st) = 0 \<and> availableApprox (shared st)
        = int initialCount + int (signalled st) - int (returned st) - int (sum_list (map result_of (threads st))))"
  using sem_reachable_inv [OF assms(1-3)] all_done_sums [OF assms(4)]
  by (auto simp: sem_inv_def availableApprox_def Let_def max_def split: if_splits)

theorem sem_quiescent_witness:
  "\<exists>st. sem_reachable 0 2 st \<and> signalled st = 1 \<and> rejected st = 1 \<and> threads st = [Done 1, Done 0]
    \<and> m_count (shared st) = 0 \<and> m_sema (shared st) = 1"
  using sem_quiescent [OF stray_post_reachable] stray_post_reachable
  by (intro exI [of _ "two_threads 0 1 [Done 1, Done 0] 1 1"]) simp

text \<open>
  The results of the operations. Whatever the other threads do: a wait without a timeout returns
  exactly one permit, \<open>waitMany\<close> without a timeout at least one and at most \<open>max\<close>, and no operation more
  than it was asked for.
\<close>

theorem sem_result_bounds:
  assumes "call_ok c" "thread_run (start c) (Done r)"
  shows "least_result c \<le> r \<and> int r \<le> most_result c"
proof
  have "upper (most_result c) (start c)" using assms(1) by (cases c) auto
  from thread_run_upper [OF assms(2) this] show "int r \<le> most_result c" by simp
  show "least_result c \<le> r"
  proof (cases "least_result c = 0")
    case False
    then have "lower (start c)" "least_result c = 1" by (cases c; auto split: if_splits)+
    from thread_run_lower [OF assms(2) this(1)] this(2) show ?thesis by simp
  qed simp
qed

theorem sem_result_bounds_witness:
  "least_result Wait \<le> 1 \<and> int 1 \<le> most_result Wait \<and> thread_run (start Wait) (Done 1)"
proof -
  let ?s = "\<lparr>m_count = 1, m_sema = 0\<rparr>"
  have "thread_run (start Wait) (Try_cas One (Spinning Untimed) 1)"
    by (rule thread_run.onward [OF thread_run.here, of Go ?s]) (simp add: thread_step_def)
  then have r: "thread_run (start Wait) (Done 1)"
    by (rule thread_run.onward [of _ _ Go ?s]) (simp add: thread_step_def finish_def)
  have "call_ok Wait" by simp
  from sem_result_bounds [OF this r] r show ?thesis by blast
qed

text \<open>
  C38: the deadline of a timed wait is the current time plus the given microseconds, but its nanoseconds reach
  \<open>10 ^ 9\<close> when they add up to exactly one second; and if \<open>sem_timedwait\<close> rejects such
  a deadline with \<open>EINVAL\<close>, \<open>timed_wait\<close> reports success although nothing was acquired.
\<close>

theorem timed_wait_deadline:
  assumes "0 \<le> snd now" "snd now < 1000000000"
  shows "fst (deadline now usecs) * 1000000000 + snd (deadline now usecs)
      = fst now * 1000000000 + snd now + uint usecs * 1000
    \<and> 0 \<le> snd (deadline now usecs) \<and> snd (deadline now usecs) \<le> 1000000000
    \<and> (snd (deadline now usecs) = 1000000000 \<longleftrightarrow> snd now + (uint usecs mod 1000000) * 1000 = 1000000000)
    \<and> (sem_timedwait (deadline now usecs) = [EINVAL] \<longrightarrow> Semaphore_timed_wait sem_timedwait now usecs = Some True)"
proof -
  let ?u = "uint usecs"
  have m: "?u div 1000000 * 1000000000 + ?u mod 1000000 * 1000 = ?u * 1000" "0 \<le> ?u mod 1000000" "?u mod 1000000 < 1000000"
    using div_mult_mod_eq [of ?u 1000000] by linarith+
  show ?thesis
    using assms m by (auto simp: deadline_def Let_def Semaphore_timed_wait_def)
qed

theorem timed_wait_deadline_witness:
  "snd (deadline (0, 999999000) 1) = 1000000000
    \<and> Semaphore_timed_wait (\<lambda>ts. if snd ts < 1000000000 then [ETIMEDOUT] else [EINVAL]) (0, 999999000) 1 = Some True"
  using timed_wait_deadline [where now = "(0, 999999000)" and usecs = 1
    and sem_timedwait = "\<lambda>ts. if snd ts < 1000000000 then [ETIMEDOUT] else [EINVAL]"] by auto

end
