(* ===== verification/BlockingQueue.thy ===== *)
theory BlockingQueue
  imports QueueBulkPut Semaphore
begin

text \<open>
  \<open>source/utils/blockingconcurrentqueue.h\<close>: \<open>BlockingConcurrentQueue\<close>, the concurrent queue with a semaphore that counts its
  elements; it is the queue between the I/O threads and the logic thread of the server.

  Threads interleave: every step of the semaphore is a step of its own, and a call of the inner queue is one step
  (its operations take effect at once), except that a dequeue of the inner queue may fail spuriously or overlook elements when it
  runs beside other operations: that is a \<open>choice\<close> of its step. \<open>enqueued\<close> and \<open>dequeued\<close> are history: how many elements the inner queue
  accepted and gave out. The output iterator of a bulk operation is the list of the elements written to it. The operations with tokens
  are left out; nothing uses them.
\<close>

text \<open>What a bulk enqueue finds: the thread, the allocations for its producer, and those of every block.\<close>

type_synonym bulk_env = "u64 \<times> (bool \<times> bool \<times> bool) \<times> (nat \<Rightarrow> bool \<times> bool)"

datatype 'a bq_call =
    Bq_enqueue cq_env 'a
  | Bq_try_enqueue cq_env 'a
  | Bq_try_dequeue
  | Bq_wait_dequeue
  | Bq_wait_dequeue_timed int
  | Bq_enqueue_bulk bulk_env "'a list" u64
  | Bq_try_enqueue_bulk bulk_env "'a list" u64
  | Bq_try_dequeue_bulk u64
  | Bq_wait_dequeue_bulk u64
  | Bq_wait_dequeue_bulk_timed u64 int

datatype 'a bq_result = Bq_bool bool | Bq_item 'a | Bq_items u64 "'a list"

text \<open>
  Where a thread is: it has returned, or it is in the inner queue, in \<open>signal\<close>, in a wait, or in the dequeuing loop. The bulk
  loop has \<open>max\<close>, \<open>count\<close> and the elements written so far.
\<close>

datatype 'a bq_pc =
    Bq_idle "'a bq_result"
  | Bq_enqueuing alloc_mode cq_env 'a
  | Bq_signalling
  | Bq_waiting
  | Bq_dequeuing
  | Bq_enqueuing_bulk alloc_mode bulk_env "'a list" u64
  | Bq_waiting_bulk
  | Bq_dequeuing_bulk u64 u64 "'a list"
  | Bq_failed cq_error

record 'a bq_state =
  inner :: "'a cqueue"
  bsem :: sem_state
  clients :: "'a bq_pc list"
  enqueued :: nat
  dequeued :: nat

text \<open>The constructor, for \<open>n\<close> threads; \<open>None\<close>: it throws \<open>std::bad_alloc\<close>.\<close>

definition BlockingConcurrentQueue_new :: "bool \<Rightarrow> bool \<Rightarrow> u64 \<Rightarrow> nat \<Rightarrow> 'a bq_state option" where
  "BlockingConcurrentQueue_new sema_ok malloc_ok capac n =
     (if sema_ok
      then Some \<lparr>inner = ConcurrentQueue_new malloc_ok capac, bsem = LightweightSemaphore 0 n,
                 clients = replicate n (Bq_idle (Bq_bool False)), enqueued = 0, dequeued = 0\<rparr>
      else None)"

subsection \<open>Calls into the semaphore\<close>

definition sem_call_at :: "nat \<Rightarrow> sem_call \<Rightarrow> sem_state \<Rightarrow> sem_state" where
  "sem_call_at i c s = s\<lparr>threads := (threads s)[i := start c], returned := returned s + result_of (threads s ! i)\<rparr>"

definition sem_run_at :: "choice \<Rightarrow> nat \<Rightarrow> sem_state \<Rightarrow> sem_state option" where
  "sem_run_at ch i s =
     (case thread_step ch (shared s) (threads s ! i) of
        None \<Rightarrow> None
      | Some (g, s', p') \<Rightarrow>
          Some (s\<lparr>shared := s', threads := (threads s)[i := p'], acquired := acquired s + g,
                  signalled := signalled s + signal_amount (threads s ! i),
                  rejected := rejected s + rejection ch (threads s ! i)\<rparr>))"

subsection \<open>Operations\<close>

definition at_client :: "nat \<Rightarrow> 'a bq_pc \<Rightarrow> 'a bq_state \<Rightarrow> 'a bq_state" where
  "at_client i p st = st\<lparr>clients := (clients st)[i := p]\<rparr>"

text \<open>\<open>max = (size_t)sema->waitMany((ssize_t)max)\<close> and its variants; they assert that the argument is not negative.\<close>

definition bq_wait_many :: "(int \<Rightarrow> sem_call) \<Rightarrow> u64 \<Rightarrow> nat \<Rightarrow> 'a bq_state \<Rightarrow> 'a bq_state" where
  "bq_wait_many f mx i st =
     (if sint mx < 0 then at_client i (Bq_failed Cq_assertion_failed) st
      else at_client i Bq_waiting_bulk (st\<lparr>bsem := sem_call_at i (f (sint mx)) (bsem st)\<rparr>))"

text \<open>The first step of every operation.\<close>

fun bq_start :: "'a bq_call \<Rightarrow> nat \<Rightarrow> 'a bq_state \<Rightarrow> 'a bq_state" where
  "bq_start (Bq_enqueue env item) i st = at_client i (Bq_enqueuing Can_alloc env item) st"
| "bq_start (Bq_try_enqueue env item) i st = at_client i (Bq_enqueuing Cannot_alloc env item) st"
| "bq_start Bq_try_dequeue i st = at_client i Bq_waiting (st\<lparr>bsem := sem_call_at i TryWait (bsem st)\<rparr>)"
| "bq_start Bq_wait_dequeue i st = at_client i Bq_waiting (st\<lparr>bsem := sem_call_at i Wait (bsem st)\<rparr>)"
| "bq_start (Bq_wait_dequeue_timed timeout_usecs) i st =
     at_client i Bq_waiting (st\<lparr>bsem := sem_call_at i (Wait_timeout timeout_usecs) (bsem st)\<rparr>)"
| "bq_start (Bq_enqueue_bulk env items cnt) i st = at_client i (Bq_enqueuing_bulk Can_alloc env items cnt) st"
| "bq_start (Bq_try_enqueue_bulk env items cnt) i st = at_client i (Bq_enqueuing_bulk Cannot_alloc env items cnt) st"
| "bq_start (Bq_try_dequeue_bulk mx) i st = bq_wait_many TryWaitMany mx i st"
| "bq_start (Bq_wait_dequeue_bulk mx) i st = bq_wait_many WaitMany mx i st"
| "bq_start (Bq_wait_dequeue_bulk_timed mx timeout_usecs) i st =
     bq_wait_many (\<lambda>mx. WaitMany_timeout mx timeout_usecs) mx i st"

text \<open>\<open>if (inner.enqueue(item)) { sema->signal(); return true; } return false;\<close>\<close>

definition bq_enqueue_step :: "alloc_mode \<Rightarrow> cq_env \<Rightarrow> 'a \<Rightarrow> nat \<Rightarrow> 'a bq_state \<Rightarrow> 'a bq_state" where
  "bq_enqueue_step canAlloc env item i st =
     (case (if canAlloc = Can_alloc then cq_enqueue env item (inner st) else cq_try_enqueue env item (inner st)) of
        Inl e \<Rightarrow> at_client i (Bq_failed e) st
      | Inr (True, q) \<Rightarrow>
          at_client i Bq_signalling (st\<lparr>inner := q, enqueued := enqueued st + 1, bsem := sem_call_at i (Signal 1) (bsem st)\<rparr>)
      | Inr (False, q) \<Rightarrow> at_client i (Bq_idle (Bq_bool False)) (st\<lparr>inner := q\<rparr>))"

text \<open>
  \<open>while (!inner.try_dequeue(item)) continue;\<close> The dequeue may fail spuriously, when other threads are changing the queue.
\<close>

definition bq_dequeue_step :: "choice \<Rightarrow> nat \<Rightarrow> 'a bq_state \<Rightarrow> 'a bq_state" where
  "bq_dequeue_step ch i st =
     (if ch = Spurious then st
      else case cq_try_dequeue (inner st) of
        Inl e \<Rightarrow> at_client i (Bq_failed e) st
      | Inr (None, q) \<Rightarrow> st\<lparr>inner := q\<rparr>
      | Inr (Some item, q) \<Rightarrow> at_client i (Bq_idle (Bq_item item)) (st\<lparr>inner := q, dequeued := dequeued st + 1\<rparr>))"

text \<open>\<open>if (inner.enqueue_bulk(itemFirst, count)) { sema->signal((ssize_t)count); return true; } return false;\<close>\<close>

definition bq_enqueue_bulk_step :: "alloc_mode \<Rightarrow> bulk_env \<Rightarrow> 'a list \<Rightarrow> u64 \<Rightarrow> nat \<Rightarrow> 'a bq_state \<Rightarrow> 'a bq_state" where
  "bq_enqueue_bulk_step canAlloc env items cnt i st =
     (let (tid, penv, mem) = env
      in case (if canAlloc = Can_alloc then cq_enqueue_bulk tid penv mem items cnt (inner st)
               else cq_try_enqueue_bulk tid penv mem items cnt (inner st)) of
           Inl e \<Rightarrow> at_client i (Bq_failed e) st
         | Inr (True, q) \<Rightarrow>
             if sint cnt < 0 then at_client i (Bq_failed Cq_assertion_failed) (st\<lparr>inner := q\<rparr>)
             else at_client i Bq_signalling (st\<lparr>inner := q, enqueued := enqueued st + unat cnt,
                    bsem := sem_call_at i (Signal (nat (sint cnt))) (bsem st)\<rparr>)
         | Inr (False, q) \<Rightarrow> at_client i (Bq_idle (Bq_bool False)) (st\<lparr>inner := q\<rparr>))"

text \<open>
  \<open>while (count != max) count += inner.try_dequeue_bulk(itemFirst, max - count); return count;\<close> Beside other threads the bulk
  dequeue may get fewer elements than there are, or none.
\<close>

fun bq_bulk_reach :: "choice \<Rightarrow> u64 \<Rightarrow> u64" where
  "bq_bulk_reach Spurious mx = 0"
| "bq_bulk_reach (Fewer k) mx = (if k < unat mx then of_nat k else mx)"
| "bq_bulk_reach ch mx = mx"

definition bq_dequeue_bulk_step :: "choice \<Rightarrow> u64 \<Rightarrow> u64 \<Rightarrow> 'a list \<Rightarrow> nat \<Rightarrow> 'a bq_state \<Rightarrow> 'a bq_state" where
  "bq_dequeue_bulk_step ch mx cnt els i st =
     (if cnt = mx then at_client i (Bq_idle (Bq_items cnt els)) st
      else case cq_try_dequeue_bulk (bq_bulk_reach ch (mx - cnt)) (inner st) of
        Inl e \<Rightarrow> at_client i (Bq_failed e) st
      | Inr ((n, xs), q) \<Rightarrow>
          at_client i (Bq_dequeuing_bulk mx (cnt + n) (els @ xs)) (st\<lparr>inner := q, dequeued := dequeued st + length xs\<rparr>))"

text \<open>One step of thread \<open>i\<close> inside an operation.\<close>

definition bq_run :: "choice \<Rightarrow> nat \<Rightarrow> 'a bq_state \<Rightarrow> 'a bq_state option" where
  "bq_run ch i st =
     (case clients st ! i of
        Bq_idle _ \<Rightarrow> None
      | Bq_failed _ \<Rightarrow> None
      | Bq_enqueuing canAlloc env item \<Rightarrow> Some (bq_enqueue_step canAlloc env item i st)
      | Bq_signalling \<Rightarrow>
          (case threads (bsem st) ! i of
             Done _ \<Rightarrow> Some (at_client i (Bq_idle (Bq_bool True)) st)
           | _ \<Rightarrow> map_option (\<lambda>s. st\<lparr>bsem := s\<rparr>) (sem_run_at ch i (bsem st)))
      | Bq_waiting \<Rightarrow>
          (case threads (bsem st) ! i of
             Done r \<Rightarrow> Some (at_client i (if r = 0 then Bq_idle (Bq_bool False) else Bq_dequeuing) st)
           | _ \<Rightarrow> map_option (\<lambda>s. st\<lparr>bsem := s\<rparr>) (sem_run_at ch i (bsem st)))
      | Bq_dequeuing \<Rightarrow> Some (bq_dequeue_step ch i st)
      | Bq_enqueuing_bulk canAlloc env items cnt \<Rightarrow> Some (bq_enqueue_bulk_step canAlloc env items cnt i st)
      | Bq_waiting_bulk \<Rightarrow>
          (case threads (bsem st) ! i of
             Done r \<Rightarrow> Some (at_client i (Bq_dequeuing_bulk (of_nat r) 0 []) st)
           | Failed \<Rightarrow> Some (at_client i (Bq_failed Cq_assertion_failed) st)
           | _ \<Rightarrow> map_option (\<lambda>s. st\<lparr>bsem := s\<rparr>) (sem_run_at ch i (bsem st)))
      | Bq_dequeuing_bulk mx cnt els \<Rightarrow> Some (bq_dequeue_bulk_step ch mx cnt els i st))"

definition bq_size_approx :: "'a bq_state \<Rightarrow> u64" where
  "bq_size_approx st = of_int (availableApprox (shared (bsem st)))"

text \<open>
  What the callers owe: a thread identifier that is not 0, at least \<open>count\<close> elements behind the iterator, and a number that
  is positive as a \<open>ssize_t\<close>; \<open>wait_dequeue_bulk\<close> asserts that it got something, so it cannot be called for 0.
\<close>

fun bulk_env_valid :: "bulk_env \<Rightarrow> bool" where
  "bulk_env_valid (tid, (hash_ok, prod_ok, pindex_ok), mem) = (tid \<noteq> invalid_thread_id \<and> (prod_ok \<longrightarrow> pindex_ok))"

definition bulk_ok :: "bulk_env \<Rightarrow> 'a list \<Rightarrow> u64 \<Rightarrow> bool" where
  "bulk_ok env items cnt \<longleftrightarrow> bulk_env_valid env \<and> unat cnt \<le> length items \<and> 0 \<le> sint cnt"

fun bq_call_ok :: "'a bq_call \<Rightarrow> bool" where
  "bq_call_ok (Bq_enqueue env item) = env_valid env"
| "bq_call_ok (Bq_try_enqueue env item) = env_valid env"
| "bq_call_ok (Bq_enqueue_bulk env items cnt) = bulk_ok env items cnt"
| "bq_call_ok (Bq_try_enqueue_bulk env items cnt) = bulk_ok env items cnt"
| "bq_call_ok (Bq_try_dequeue_bulk mx) = (0 \<le> sint mx)"
| "bq_call_ok (Bq_wait_dequeue_bulk mx) = (0 < sint mx)"
| "bq_call_ok (Bq_wait_dequeue_bulk_timed mx timeout_usecs) = (0 \<le> sint mx)"
| "bq_call_ok _ = True"

inductive bq_step :: "'a bq_state \<Rightarrow> 'a bq_state \<Rightarrow> bool" where
  call: "i < length (clients st) \<Longrightarrow> clients st ! i = Bq_idle r \<Longrightarrow> bq_call_ok c \<Longrightarrow> bq_step st (bq_start c i st)"
| run: "i < length (clients st) \<Longrightarrow> bq_run ch i st = Some st' \<Longrightarrow> bq_step st st'"

inductive bq_reachable :: "bool \<Rightarrow> u64 \<Rightarrow> nat \<Rightarrow> 'a bq_state \<Rightarrow> bool" for malloc_ok capac n where
  init: "BlockingConcurrentQueue_new True malloc_ok capac n = Some st \<Longrightarrow> bq_reachable malloc_ok capac n st"
| step: "bq_reachable malloc_ok capac n st \<Longrightarrow> bq_step st st' \<Longrightarrow> bq_reachable malloc_ok capac n st'"

subsection \<open>The books of the queue\<close>

fun sig_pc :: "pc \<Rightarrow> bool" where
  "sig_pc (Sig n) = True"
| "sig_pc (Post n) = True"
| "sig_pc (Done r) = (r = 0)"
| "sig_pc _ = False"

fun wait_pc :: "pc \<Rightarrow> bool" where
  "wait_pc (Sig n) = False"
| "wait_pc (Post n) = False"
| "wait_pc _ = True"

fun client_ok :: "'a bq_pc \<Rightarrow> pc \<Rightarrow> bool" where
  "client_ok (Bq_idle r) p = (\<exists>k. p = Done k)"
| "client_ok (Bq_enqueuing canAlloc env item) p = (env_valid env \<and> (\<exists>k. p = Done k))"
| "client_ok Bq_signalling p = sig_pc p"
| "client_ok Bq_waiting p = (upper 1 p \<and> wait_pc p \<and> checked_ok p)"
| "client_ok Bq_dequeuing p = (p = Done 1)"
| "client_ok (Bq_enqueuing_bulk canAlloc env items cnt) p = (bulk_ok env items cnt \<and> (\<exists>k. p = Done k))"
| "client_ok Bq_waiting_bulk p = (upper (2 ^ 63 - 1) p \<and> wait_pc p \<and> checked_ok p)"
| "client_ok (Bq_dequeuing_bulk mx cnt els) p = (p = Done (unat mx) \<and> cnt \<le> mx \<and> unat cnt = length els)"
| "client_ok (Bq_failed e) p = False"

text \<open>Permits that a thread holds and has not yet turned into an element.\<close>

fun inflight :: "'a bq_pc \<Rightarrow> pc \<Rightarrow> nat" where
  "inflight Bq_waiting p = held p"
| "inflight Bq_dequeuing p = held p"
| "inflight Bq_waiting_bulk p = held p"
| "inflight (Bq_dequeuing_bulk mx cnt els) p = held p - unat cnt"
| "inflight _ p = 0"

definition cq_total :: "'a cqueue \<Rightarrow> nat" where
  "cq_total q = (\<Sum>t \<in> UNIV. length (cq_lane q t))"

definition bq_pairs :: "'a bq_state \<Rightarrow> ('a bq_pc \<times> pc) list" where
  "bq_pairs st = zip (clients st) (threads (bsem st))"

definition bq_inv :: "'a bq_state \<Rightarrow> bool" where
  "bq_inv st \<longleftrightarrow> length (threads (bsem st)) = length (clients st) \<and> sem_inv 0 (bsem st) \<and> cq_inv (inner st)
     \<and> (\<forall>cp \<in> set (bq_pairs st). client_ok (fst cp) (snd cp))
     \<and> enqueued st = signalled (bsem st) + sum_list (map (\<lambda>cp. signal_amount (snd cp)) (bq_pairs st))
     \<and> dequeued st + sum_list (map (\<lambda>cp. inflight (fst cp) (snd cp)) (bq_pairs st)) = acquired (bsem st) + rejected (bsem st)
     \<and> cq_total (inner st) + dequeued st = enqueued st"

lemma bq_inv_client:
  assumes "bq_inv st" "i < length (clients st)"
  shows "client_ok (clients st ! i) (threads (bsem st) ! i)" "i < length (threads (bsem st))"
    "bq_pairs st ! i = (clients st ! i, threads (bsem st) ! i)" "i < length (bq_pairs st)"
proof -
  show l: "i < length (threads (bsem st))" "i < length (bq_pairs st)" and z: "bq_pairs st ! i = (clients st ! i, threads (bsem st) ! i)"
    using assms by (simp_all add: bq_inv_def bq_pairs_def)
  have "bq_pairs st ! i \<in> set (bq_pairs st)" using l(2) by simp
  then show "client_ok (clients st ! i) (threads (bsem st) ! i)" using assms(1) z unfolding bq_inv_def by fastforce
qed

lemma upper_mono: "upper mx p \<Longrightarrow> mx \<le> mx' \<Longrightarrow> upper mx' p"
  by (cases p) auto

text \<open>How a step of one thread has to change the books.\<close>

lemma bq_inv_upd:
  assumes inv: "bq_inv st" and i: "i < length (clients st)" and ok: "client_ok c' p'"
    and sem: "sem_inv 0 S'" "threads S' = (threads (bsem st))[i := p']" and q: "cq_inv q'"
    and sig: "E' + signalled (bsem st) + signal_amount (threads (bsem st) ! i) = enqueued st + signalled S' + signal_amount p'"
    and acq: "D' + inflight c' p' + acquired (bsem st) + rejected (bsem st)
      = dequeued st + inflight (clients st ! i) (threads (bsem st) ! i) + acquired S' + rejected S'"
    and tot: "cq_total q' + D' + enqueued st = cq_total (inner st) + dequeued st + E'"
    and st': "st' = st\<lparr>inner := q', bsem := S', clients := (clients st)[i := c'], enqueued := E', dequeued := D'\<rparr>" (is "_ = ?st")
  shows "bq_inv st'"
proof -
  note c = bq_inv_client [OF inv i]
  have z: "bq_pairs ?st = (bq_pairs st)[i := (c', p')]" using sem(2) by (simp add: bq_pairs_def update_zip)
  have "client_ok (fst cp) (snd cp)" if "cp \<in> set (bq_pairs ?st)" for cp
    using that set_update_subset_insert [of "bq_pairs st" i "(c', p')"] ok inv unfolding z bq_inv_def by auto
  moreover have "sum_list (map (\<lambda>cp. signal_amount (snd cp)) (bq_pairs ?st)) + signal_amount (threads (bsem st) ! i)
      = sum_list (map (\<lambda>cp. signal_amount (snd cp)) (bq_pairs st)) + signal_amount p'"
    unfolding z using sum_list_upd_nat [OF c(4), of "\<lambda>cp. signal_amount (snd cp)" "(c', p')"] c(3) by simp
  moreover have "sum_list (map (\<lambda>cp. inflight (fst cp) (snd cp)) (bq_pairs ?st)) + inflight (clients st ! i) (threads (bsem st) ! i)
      = sum_list (map (\<lambda>cp. inflight (fst cp) (snd cp)) (bq_pairs st)) + inflight c' p'"
    unfolding z using sum_list_upd_nat [OF c(4), of "\<lambda>cp. inflight (fst cp) (snd cp)" "(c', p')"] c(3) by simp
  ultimately have "bq_inv ?st"
    using inv sem q sig acq tot unfolding bq_inv_def by simp
  then show ?thesis unfolding st' .
qed

lemma sem_call_at_inv:
  assumes "sem_inv 0 s" "i < length (threads s)" "threads s ! i = Done k" "call_ok c"
  shows "sem_inv 0 (sem_call_at i c s)" "threads (sem_call_at i c s) = (threads s)[i := start c]"
    "acquired (sem_call_at i c s) = acquired s" "signalled (sem_call_at i c s) = signalled s"
    "rejected (sem_call_at i c s) = rejected s"
  using sem_call_inv [OF assms] assms(3) by (simp_all add: sem_call_at_def)

lemma sem_run_at_step:
  assumes "sem_run_at ch i s = Some s'"
  obtains g sh p' where "thread_step ch (shared s) (threads s ! i) = Some (g, sh, p')"
    "s' = s\<lparr>shared := sh, threads := (threads s)[i := p'], acquired := acquired s + g,
                  signalled := signalled s + signal_amount (threads s ! i), rejected := rejected s + rejection ch (threads s ! i)\<rparr>"
  using assms unfolding sem_run_at_def by (auto split: option.splits)

lemma sem_run_at_inv:
  assumes "sem_inv 0 s" "i < length (threads s)" "sem_run_at ch i s = Some s'" "sem_fits 0 s'"
  shows "\<exists>sh g p'. thread_step ch (shared s) (threads s ! i) = Some (g, sh, p') \<and> sem_inv 0 s'
    \<and> threads s' = (threads s)[i := p'] \<and> acquired s' = acquired s + g \<and> rejected s' = rejected s + rejection ch (threads s ! i)
    \<and> signalled s' = signalled s + signal_amount (threads s ! i) \<and> held p' = held (threads s ! i) + g + rejection ch (threads s ! i)"
proof -
  obtain g sh p' where t: "thread_step ch (shared s) (threads s ! i) = Some (g, sh, p')"
    "s' = s\<lparr>shared := sh, threads := (threads s)[i := p'], acquired := acquired s + g,
                  signalled := signalled s + signal_amount (threads s ! i), rejected := rejected s + rejection ch (threads s ! i)\<rparr>"
    by (rule sem_run_at_step [OF assms(3)])
  have "pc_ok (threads s ! i)" using assms(1,2) by (simp add: sem_inv_def)
  moreover have "in_range (shared s) (threads s ! i)"
    by (rule sem_inv_in_range [OF assms(1)]) (use assms(4) t(2) in \<open>simp_all add: sem_fits_def\<close>)
  ultimately have "held p' = held (threads s ! i) + g + rejection ch (threads s ! i)"
    using thread_step_balanced [OF t(1)] by (simp add: balanced_def)
  then show ?thesis using t sem_step_inv [OF sem_step.run [OF assms(2) t(1)] _ assms(1)] assms(4) by auto
qed

lemma sig_pc_step:
  "thread_step ch s p = Some (g, s', p') \<Longrightarrow> sig_pc p \<Longrightarrow> sig_pc p' \<and> signal_amount p' = 0 \<and> g = 0 \<and> rejection ch p = 0"
  by (cases p) (auto simp: thread_step_def Let_def split: if_splits)

lemma wait_pc_finish [simp]: "wait_pc (finish lim r)"
  by (simp add: finish_def)

lemma wait_pc_resume: "wait_pc (resume a k r)"
  by (cases "(a, k, r)" rule: resume.cases) simp_all

lemma wait_pc_step: "thread_step ch s p = Some (g, s', p') \<Longrightarrow> wait_pc p \<Longrightarrow> wait_pc p'"
  by (cases p; cases "pc_amount p"; cases "pc_spin p")
    (auto simp: thread_step_def Let_def acquired_one_def wait_pc_resume split: if_splits)

lemma wait_pc_amount: "wait_pc p \<Longrightarrow> signal_amount p = 0"
  by (cases p) simp_all

lemma sint_nonneg_unat:
  assumes "0 \<le> sint (w :: u64)"
  shows "unat w < 2 ^ 63" "sint w = int (unat w)" "nat (sint w) = unat w"
proof -
  have lt: "sint w < 2 ^ 63" using sint_lt [of w] by simp
  have "uint w = take_bit 64 (sint w)" using uint_sint [of w] by simp
  also have "\<dots> = sint w" using assms lt by (intro take_bit_int_eq_self) simp_all
  finally have "uint w = sint w" .
  then show "sint w = int (unat w)" "nat (sint w) = unat w" "unat w < 2 ^ 63" using assms lt by (simp_all add: unat_eq_nat_uint nat_less_iff)
qed

lemma sum_length_upd:
  fixes f :: "'t :: finite \<Rightarrow> 'a list"
  shows "(\<Sum>t \<in> UNIV. length ((f(u := ys)) t)) + length (f u) = (\<Sum>t \<in> UNIV. length (f t)) + length ys"
proof -
  have "(\<Sum>t \<in> UNIV. length ((f(u := ys)) t)) = length ys + (\<Sum>t \<in> UNIV - {u}. length (f t))"
    by (subst sum.remove [of UNIV u]) (auto intro!: sum.cong)
  moreover have "(\<Sum>t \<in> UNIV. length (f t)) = length (f u) + (\<Sum>t \<in> UNIV - {u}. length (f t))"
    by (subst sum.remove [of UNIV u]) auto
  ultimately show ?thesis by simp
qed

lemma cq_total_enqueue:
  assumes "cq_inv q" "env_valid env"
  shows "\<exists>b q'. (if canAlloc = Can_alloc then cq_enqueue env item q else cq_try_enqueue env item q) = Inr (b, q')
    \<and> cq_inv q' \<and> cq_total q' = cq_total q + (if b then 1 else 0)"
proof -
  obtain b q' where e: "cq_inner_enqueue canAlloc env item q = Inr (b, q')" "cq_inv q'"
    "cq_lane q' = (if b then (cq_lane q)(env_thread env := cq_lane q (env_thread env) @ [item]) else cq_lane q)"
    using cq_enqueue_lanes [OF assms, of canAlloc item] by blast
  have "(if canAlloc = Can_alloc then cq_enqueue env item q else cq_try_enqueue env item q) = Inr (b, q')"
    using e(1) by (cases canAlloc) (simp_all add: cq_enqueue_def cq_try_enqueue_def INITIAL_IMPLICIT_PRODUCER_HASH_SIZE_def)
  moreover have "cq_total q' = cq_total q + (if b then 1 else 0)"
    using e(3) sum_length_upd [of "cq_lane q" "env_thread env" "cq_lane q (env_thread env) @ [item]"]
    by (cases b) (simp_all add: cq_total_def)
  ultimately show ?thesis using e(2) by blast
qed

lemma cq_total_dequeue:
  assumes "cq_inv q"
  shows "\<exists>r q'. cq_try_dequeue q = Inr (r, q') \<and> cq_inv q'
    \<and> (case r of None \<Rightarrow> cq_total q = 0 \<and> cq_total q' = 0 | Some x \<Rightarrow> cq_total q' + 1 = cq_total q)"
proof -
  from cq.deq_lane [OF assms] obtain r q' where d: "cq_try_dequeue q = Inr (r, q')" "cq_inv q'"
    "case r of None \<Rightarrow> (\<forall>t. cq_lane q t = []) \<and> cq_lane q' = cq_lane q
       | Some x \<Rightarrow> \<exists>t xs. cq_lane q t = x # xs \<and> cq_lane q' = (cq_lane q)(t := xs)"
    by (elim exE conjE) (rule that; assumption)
  show ?thesis
  proof (cases r)
    case None
    then show ?thesis using d by (intro exI [of _ r] exI [of _ q']) (auto simp: cq_total_def)
  next
    case (Some x)
    then obtain t xs where t: "cq_lane q t = x # xs" "cq_lane q' = (cq_lane q)(t := xs)" using d(3) by auto
    have "cq_total q' + 1 = cq_total q" using sum_length_upd [of "cq_lane q" t xs] t by (simp add: cq_total_def)
    then show ?thesis using d(1,2) Some by auto
  qed
qed

lemma cq_total_enqueue_bulk:
  assumes "cq_inv q" "bulk_ok (tid, penv, mem) items cnt"
  shows "\<exists>b q'. (if canAlloc = Can_alloc then cq_enqueue_bulk tid penv mem items cnt q else cq_try_enqueue_bulk tid penv mem items cnt q) = Inr (b, q')
    \<and> cq_inv q' \<and> cq_total q' = cq_total q + (if b then unat cnt else 0)"
proof -
  obtain hok pok xok where penv: "penv = (hok, pok, xok)" by (cases penv) auto
  have ok: "tid \<noteq> invalid_thread_id" "pok \<longrightarrow> xok" "unat cnt \<le> length items" "unat cnt < 2 ^ 63"
    using assms(2) sint_nonneg_unat [of cnt] by (simp_all add: bulk_ok_def penv)
  from cq_enqueue_bulk_lanes [OF assms(1) ok, of canAlloc hok mem]
  obtain b q' where e: "cq_inner_enqueue_bulk canAlloc tid (hok, pok, xok) mem items cnt q = Inr (b, q')" "cq_inv q'"
    "(\<Sum>t \<in> UNIV. length (cq_lane q' t)) = (\<Sum>t \<in> UNIV. length (cq_lane q t)) + (if b then unat cnt else 0)"
    by (elim exE conjE) (rule that; assumption)
  have "(if canAlloc = Can_alloc then cq_enqueue_bulk tid penv mem items cnt q else cq_try_enqueue_bulk tid penv mem items cnt q) = Inr (b, q')"
    using e(1) unfolding penv by (cases canAlloc) (simp_all add: cq_enqueue_bulk_def cq_try_enqueue_bulk_def INITIAL_IMPLICIT_PRODUCER_HASH_SIZE_def)
  then show ?thesis using e(2,3) unfolding cq_total_def by blast
qed

lemma cq_total_dequeue_bulk:
  assumes "cq_inv q"
  shows "\<exists>xs q'. cq_try_dequeue_bulk mx q = Inr ((of_nat (length xs), xs), q') \<and> cq_inv q'
    \<and> length xs = min (unat mx) (cq_total q) \<and> cq_total q' + length xs = cq_total q"
proof -
  from cq_bulk_lanes [OF assms(1), of mx]
  obtain xs q' tags where b: "cq_try_dequeue_bulk mx q = Inr ((of_nat (length xs), xs), q')" "cq_inv q'"
    "length xs = min (unat mx) (\<Sum>t \<in> UNIV. length (cq_lane q t))" "length tags = length xs"
    "\<forall>t. cq_lane q t = picked t tags xs @ cq_lane q' t"
    by (elim exE conjE) (rule that; assumption)
  have len: "length xs = min (unat mx) (cq_total q)" using b(3) by (simp add: cq_total_def)
  have "cq_total q = length xs + cq_total q'"
    unfolding cq_total_def b(5) [rule_format] using sum_picked [OF b(4)] by (simp add: sum.distrib)
  then show ?thesis using b(1,2) len by (intro exI [of _ xs] exI [of _ q']) simp
qed

text \<open>A held permit means that an element is there, unless it comes from a rejected deadline.\<close>

lemma inflight_le_total:
  assumes inv: "bq_inv st"
  shows "sum_list (map (\<lambda>cp. inflight (fst cp) (snd cp)) (bq_pairs st)) \<le> cq_total (inner st) + rejected (bsem st)"
proof -
  have "0 \<le> sum_list (map posting (threads (bsem st)))" by (rule sum_list_nonneg) (use posting_nonneg in auto)
  then have "acquired (bsem st) \<le> signalled (bsem st)" using inv unfolding bq_inv_def sem_inv_def by linarith
  then show ?thesis using inv unfolding bq_inv_def by linarith
qed

lemma inflight_found:
  assumes inv: "bq_inv st" and i: "i < length (clients st)"
  shows "inflight (clients st ! i) (threads (bsem st) ! i) \<le> cq_total (inner st) + rejected (bsem st)"
proof -
  note c = bq_inv_client [OF inv i]
  let ?fs = "map (\<lambda>cp. inflight (fst cp) (snd cp)) (bq_pairs st)"
  have "?fs ! i \<in> set ?fs" using c(4) by (intro nth_mem) simp
  then have "?fs ! i \<le> sum_list ?fs" by (rule member_le_sum_list) simp
  then show ?thesis using inflight_le_total [OF inv] c(3,4) by simp
qed

lemma dequeuing_finds:
  assumes inv: "bq_inv st" and i: "i < length (clients st)" and d: "clients st ! i = Bq_dequeuing" and r: "rejected (bsem st) = 0"
  shows "0 < cq_total (inner st)"
  using inflight_found [OF inv i] bq_inv_client(1) [OF inv i] d r by simp

lemma bq_start_inv:
  assumes inv: "bq_inv st" and i: "i < length (clients st)" and idle: "clients st ! i = Bq_idle r" and ok: "bq_call_ok c"
  shows "bq_inv (bq_start c i st)"
proof -
  note cl = bq_inv_client [OF inv i]
  obtain k where k: "threads (bsem st) ! i = Done k" using cl(1) idle by auto
  have sem: "sem_inv 0 (bsem st)" "cq_inv (inner st)" using inv by (simp_all add: bq_inv_def)
  have same: "(threads (bsem st))[i := Done k] = threads (bsem st)" using k by (metis list_update_id)
  have enq: "bq_inv (at_client i (Bq_enqueuing am env x) st)" if "env_valid env" for am env x
    by (rule bq_inv_upd [OF inv i, of "Bq_enqueuing am env x" "Done k" "bsem st" "inner st" "enqueued st" "dequeued st"])
      (use k idle that sem same in \<open>simp_all add: at_client_def\<close>)
  have wait: "bq_inv (at_client i Bq_waiting (st\<lparr>bsem := sem_call_at i sc (bsem st)\<rparr>))"
    if "call_ok sc" "upper 1 (start sc)" "wait_pc (start sc)" "checked_ok (start sc)" for sc
    by (rule bq_inv_upd [OF inv i, of Bq_waiting "start sc" "sem_call_at i sc (bsem st)" "inner st" "enqueued st" "dequeued st"])
      (use sem_call_at_inv [OF sem(1) cl(2) k that(1)] wait_pc_amount [OF that(3)] k idle that sem in \<open>simp_all add: at_client_def\<close>)
  have enq_bulk: "bq_inv (at_client i (Bq_enqueuing_bulk am env xs n) st)" if "bulk_ok env xs n" for am env xs n
    by (rule bq_inv_upd [OF inv i, of "Bq_enqueuing_bulk am env xs n" "Done k" "bsem st" "inner st" "enqueued st" "dequeued st"])
      (use k idle that sem same in \<open>simp_all add: at_client_def\<close>)
  have wait_bulk: "bq_inv (bq_wait_many f mx i st)"
    if "0 \<le> sint mx" "call_ok (f (sint mx))" "upper (sint mx) (start (f (sint mx)))" "wait_pc (start (f (sint mx)))"
      "checked_ok (start (f (sint mx)))" for f mx
  proof -
    have "upper (2 ^ 63 - 1) (start (f (sint mx)))" using sint_lt [of mx] by (intro upper_mono [OF that(3)]) simp
    then have "bq_inv (at_client i Bq_waiting_bulk (st\<lparr>bsem := sem_call_at i (f (sint mx)) (bsem st)\<rparr>))"
      by (intro bq_inv_upd [OF inv i, of Bq_waiting_bulk "start (f (sint mx))" "sem_call_at i (f (sint mx)) (bsem st)" "inner st" "enqueued st" "dequeued st"])
        (use sem_call_at_inv [OF sem(1) cl(2) k that(2)] wait_pc_amount [OF that(4)] k idle that sem in \<open>simp_all add: at_client_def\<close>)
    then show ?thesis using that(1) by (simp add: bq_wait_many_def)
  qed
  show ?thesis using ok enq wait enq_bulk wait_bulk by (cases c) (simp_all add: checked_ok_def)
qed

lemma bq_enqueue_bulk_step_inv:
  assumes inv: "bq_inv st" and i: "i < length (clients st)" and c: "clients st ! i = Bq_enqueuing_bulk am env items cnt"
  shows "bq_inv (bq_enqueue_bulk_step am env items cnt i st)"
proof -
  note cl = bq_inv_client [OF inv i]
  obtain tid penv mem where env: "env = (tid, penv, mem)" by (cases env) auto
  obtain k where k: "threads (bsem st) ! i = Done k" and v: "bulk_ok env items cnt" using cl(1) c by auto
  have sem: "sem_inv 0 (bsem st)" "cq_inv (inner st)" using inv by (simp_all add: bq_inv_def)
  have same: "(threads (bsem st))[i := Done k] = threads (bsem st)" using k by (metis list_update_id)
  have pos: "0 \<le> sint cnt" "nat (sint cnt) = unat cnt" using v sint_nonneg_unat(3) [of cnt] by (simp_all add: bulk_ok_def)
  from cq_total_enqueue_bulk [OF sem(2) v [unfolded env], of am]
  obtain b q' where e: "(if am = Can_alloc then cq_enqueue_bulk tid penv mem items cnt (inner st) else cq_try_enqueue_bulk tid penv mem items cnt (inner st)) = Inr (b, q')"
    "cq_inv q'" "cq_total q' = cq_total (inner st) + (if b then unat cnt else 0)"
    by (elim exE conjE) (rule that; assumption)
  show ?thesis
  proof (cases b)
    case True
    have step: "bq_enqueue_bulk_step am env items cnt i st
      = at_client i Bq_signalling (st\<lparr>inner := q', enqueued := enqueued st + unat cnt, bsem := sem_call_at i (Signal (unat cnt)) (bsem st)\<rparr>)"
      using e(1) True pos by (simp add: bq_enqueue_bulk_step_def env)
    have ok: "call_ok (Signal (unat cnt))" by simp
    show ?thesis
      unfolding step
      by (rule bq_inv_upd [OF inv i, of Bq_signalling "Sig (unat cnt)" "sem_call_at i (Signal (unat cnt)) (bsem st)" q' "enqueued st + unat cnt" "dequeued st"])
        (use sem_call_at_inv [OF sem(1) cl(2) k ok] k c e True in \<open>simp_all add: at_client_def\<close>)
  next
    case False
    have step: "bq_enqueue_bulk_step am env items cnt i st = at_client i (Bq_idle (Bq_bool False)) (st\<lparr>inner := q'\<rparr>)"
      using e(1) False by (simp add: bq_enqueue_bulk_step_def env)
    show ?thesis
      unfolding step
      by (rule bq_inv_upd [OF inv i, of "Bq_idle (Bq_bool False)" "Done k" "bsem st" q' "enqueued st" "dequeued st"])
        (use sem same k c e False in \<open>simp_all add: at_client_def\<close>)
  qed
qed

lemma bq_bulk_reach_le: "unat (bq_bulk_reach ch mx) \<le> unat mx"
proof (cases ch)
  case (Fewer k)
  have "k mod 2 ^ 64 \<le> k" by simp
  then show ?thesis using Fewer by (auto simp: unat_of_nat simp del: mod_less_eq_dividend)
qed simp_all

text \<open>One pass of a bulk loop takes what is missing, as far as it reaches and there are elements.\<close>

lemma bq_dequeue_bulk_pass:
  assumes inv: "bq_inv st" and i: "i < length (clients st)" and c: "clients st ! i = Bq_dequeuing_bulk mx cnt els" "cnt \<noteq> mx"
  shows "\<exists>xs q' cnt'. bq_dequeue_bulk_step ch mx cnt els i st
      = at_client i (Bq_dequeuing_bulk mx cnt' (els @ xs)) (st\<lparr>inner := q', dequeued := dequeued st + length xs\<rparr>)
    \<and> cq_inv q' \<and> cnt' \<le> mx \<and> unat cnt' = unat cnt + length xs \<and> unat cnt' = length (els @ xs)
    \<and> length xs = min (unat (bq_bulk_reach ch (mx - cnt))) (cq_total (inner st)) \<and> cq_total q' + length xs = cq_total (inner st)"
proof -
  let ?r = "bq_bulk_reach ch (mx - cnt)"
  have cl: "threads (bsem st) ! i = Done (unat mx)" "cnt \<le> mx" "unat cnt = length els" using bq_inv_client(1) [OF inv i] c(1) by simp_all
  have u: "unat (mx - cnt) = unat mx - unat cnt" "unat cnt \<le> unat mx" using cl(2) by (simp_all add: unat_sub word_le_nat_alt)
  have "cq_inv (inner st)" using inv by (simp add: bq_inv_def)
  from cq_total_dequeue_bulk [OF this, of ?r]
  obtain xs q' where d: "cq_try_dequeue_bulk ?r (inner st) = Inr ((of_nat (length xs), xs), q')" "cq_inv q'"
    "length xs = min (unat ?r) (cq_total (inner st))" "cq_total q' + length xs = cq_total (inner st)" by (elim exE conjE) (rule that; assumption)
  have le: "unat cnt + length xs \<le> unat mx" using d(3) u bq_bulk_reach_le [of ch "mx - cnt"] by simp
  then have "cnt + of_nat (length xs) = (of_nat (unat cnt + length xs) :: u64)" "unat cnt + length xs < 2 ^ 64"
    using unsigned_less [where ?'a = nat and w = mx] by simp_all
  then have n: "unat (cnt + of_nat (length xs)) = unat cnt + length xs" by (simp only: unat_of_nat) simp
  have "bq_dequeue_bulk_step ch mx cnt els i st
      = at_client i (Bq_dequeuing_bulk mx (cnt + of_nat (length xs)) (els @ xs)) (st\<lparr>inner := q', dequeued := dequeued st + length xs\<rparr>)"
    using d(1) c(2) by (simp add: bq_dequeue_bulk_step_def)
  then show ?thesis using d(2-4) cl(3) n le by (intro exI [of _ xs] exI [of _ q'] exI [of _ "cnt + of_nat (length xs)"]) (simp add: word_le_nat_alt)
qed

lemma bq_dequeue_bulk_found:
  assumes inv: "bq_inv st" and i: "i < length (clients st)" and c: "clients st ! i = Bq_dequeuing_bulk mx cnt els" "cnt \<noteq> mx"
    and r: "rejected (bsem st) = 0"
  shows "\<exists>xs q'. bq_dequeue_bulk_step Go mx cnt els i st
      = at_client i (Bq_dequeuing_bulk mx mx (els @ xs)) (st\<lparr>inner := q', dequeued := dequeued st + length xs\<rparr>) \<and> length (els @ xs) = unat mx"
proof -
  have cl: "threads (bsem st) ! i = Done (unat mx)" "cnt \<le> mx" using bq_inv_client(1) [OF inv i] c(1) by simp_all
  have u: "unat (mx - cnt) = unat mx - unat cnt" "unat cnt \<le> unat mx" using cl(2) by (simp_all add: unat_sub word_le_nat_alt)
  have le: "unat (mx - cnt) \<le> cq_total (inner st)" using inflight_found [OF inv i] cl(1) c(1) u(1) r by simp
  from bq_dequeue_bulk_pass [OF inv i c, of Go]
  obtain xs q' cnt' where d: "bq_dequeue_bulk_step Go mx cnt els i st
      = at_client i (Bq_dequeuing_bulk mx cnt' (els @ xs)) (st\<lparr>inner := q', dequeued := dequeued st + length xs\<rparr>)"
    "unat cnt' = unat cnt + length xs" "unat cnt' = length (els @ xs)"
    "length xs = min (unat (bq_bulk_reach Go (mx - cnt))) (cq_total (inner st))" by (elim exE conjE) (rule that; assumption)
  have "unat cnt' = unat mx" using d(2,4) le u by simp
  then have "cnt' = mx" by (rule word_unat_eq_iff [THEN iffD2])
  then show ?thesis using d(1,3) by (intro exI [of _ xs] exI [of _ q']) simp
qed

lemma bq_dequeue_bulk_step_inv:
  assumes inv: "bq_inv st" and i: "i < length (clients st)" and c: "clients st ! i = Bq_dequeuing_bulk mx cnt els"
  shows "bq_inv (bq_dequeue_bulk_step ch mx cnt els i st)"
proof -
  have k: "threads (bsem st) ! i = Done (unat mx)" "cnt \<le> mx" using bq_inv_client(1) [OF inv i] c by simp_all
  have sem: "sem_inv 0 (bsem st)" "cq_inv (inner st)" using inv by (simp_all add: bq_inv_def)
  have same: "(threads (bsem st))[i := Done (unat mx)] = threads (bsem st)" using k(1) by (metis list_update_id)
  show ?thesis
  proof (cases "cnt = mx")
    case True
    then have step: "bq_dequeue_bulk_step ch mx cnt els i st = at_client i (Bq_idle (Bq_items cnt els)) st" by (simp add: bq_dequeue_bulk_step_def)
    show ?thesis
      unfolding step
      by (rule bq_inv_upd [OF inv i, of "Bq_idle (Bq_items cnt els)" "Done (unat mx)" "bsem st" "inner st" "enqueued st" "dequeued st"])
        (use sem same k c True in \<open>simp_all add: at_client_def\<close>)
  next
    case False
    from bq_dequeue_bulk_pass [OF inv i c False, of ch]
    obtain xs q' cnt' where d: "bq_dequeue_bulk_step ch mx cnt els i st
        = at_client i (Bq_dequeuing_bulk mx cnt' (els @ xs)) (st\<lparr>inner := q', dequeued := dequeued st + length xs\<rparr>)"
      "cq_inv q'" "cnt' \<le> mx" "unat cnt' = unat cnt + length xs" "unat cnt' = length (els @ xs)" "cq_total q' + length xs = cq_total (inner st)"
      by (elim exE conjE) (rule that; assumption)
    have le: "unat cnt + length xs \<le> unat mx" using d(3,4) by (simp add: word_le_nat_alt)
    show ?thesis
      unfolding d(1)
      by (rule bq_inv_upd [OF inv i, of "Bq_dequeuing_bulk mx cnt' (els @ xs)" "Done (unat mx)" "bsem st" q' "enqueued st" "dequeued st + length xs"])
        (use sem same k c d(2-6) le in \<open>simp_all add: at_client_def\<close>)
  qed
qed

lemma bq_enqueue_step_inv:
  assumes inv: "bq_inv st" and i: "i < length (clients st)" and c: "clients st ! i = Bq_enqueuing am env x"
  shows "bq_inv (bq_enqueue_step am env x i st)"
proof -
  note cl = bq_inv_client [OF inv i]
  obtain k where k: "threads (bsem st) ! i = Done k" and v: "env_valid env" using cl(1) c by auto
  have sem: "sem_inv 0 (bsem st)" "cq_inv (inner st)" using inv by (simp_all add: bq_inv_def)
  have same: "(threads (bsem st))[i := Done k] = threads (bsem st)" using k by (metis list_update_id)
  obtain b q' where e: "(if am = Can_alloc then cq_enqueue env x (inner st) else cq_try_enqueue env x (inner st)) = Inr (b, q')"
    "cq_inv q'" "cq_total q' = cq_total (inner st) + (if b then 1 else 0)"
    using cq_total_enqueue [OF sem(2) v, of am x] by metis
  show ?thesis
  proof (cases b)
    case True
    have step: "bq_enqueue_step am env x i st
      = at_client i Bq_signalling (st\<lparr>inner := q', enqueued := enqueued st + 1, bsem := sem_call_at i (Signal 1) (bsem st)\<rparr>)"
      using e(1) True by (simp add: bq_enqueue_step_def)
    have ok: "call_ok (Signal 1)" by simp
    show ?thesis
      unfolding step
      by (rule bq_inv_upd [OF inv i, of Bq_signalling "Sig 1" "sem_call_at i (Signal 1) (bsem st)" q' "enqueued st + 1" "dequeued st"])
        (use sem_call_at_inv [OF sem(1) cl(2) k ok] k c e True in \<open>simp_all add: at_client_def\<close>)
  next
    case False
    have step: "bq_enqueue_step am env x i st = at_client i (Bq_idle (Bq_bool False)) (st\<lparr>inner := q'\<rparr>)"
      using e(1) False by (simp add: bq_enqueue_step_def)
    show ?thesis
      unfolding step
      by (rule bq_inv_upd [OF inv i, of "Bq_idle (Bq_bool False)" "Done k" "bsem st" q' "enqueued st" "dequeued st"])
        (use sem same k c e False in \<open>simp_all add: at_client_def\<close>)
  qed
qed

lemma bq_dequeue_step_found:
  assumes inv: "bq_inv st" and i: "i < length (clients st)" and c: "clients st ! i = Bq_dequeuing" and r: "rejected (bsem st) = 0"
  shows "\<exists>x q'. cq_try_dequeue (inner st) = Inr (Some x, q') \<and> cq_inv q' \<and> cq_total q' + 1 = cq_total (inner st)"
proof -
  have "cq_inv (inner st)" using inv by (simp add: bq_inv_def)
  from cq_total_dequeue [OF this] obtain r q' where d: "cq_try_dequeue (inner st) = Inr (r, q')" "cq_inv q'"
    "case r of None \<Rightarrow> cq_total (inner st) = 0 \<and> cq_total q' = 0 | Some x \<Rightarrow> cq_total q' + 1 = cq_total (inner st)"
    by (elim exE conjE) (rule that; assumption)
  then show ?thesis using dequeuing_finds [OF inv i c r] by (cases r) auto
qed

lemma bq_dequeue_step_inv:
  assumes inv: "bq_inv st" and i: "i < length (clients st)" and c: "clients st ! i = Bq_dequeuing"
  shows "bq_inv (bq_dequeue_step ch i st)"
proof (cases "ch = Spurious")
  case True
  then show ?thesis using inv by (simp add: bq_dequeue_step_def)
next
  case False
  note cl = bq_inv_client [OF inv i]
  have k: "threads (bsem st) ! i = Done 1" using cl(1) c by simp
  have sem: "sem_inv 0 (bsem st)" "cq_inv (inner st)" using inv by (simp_all add: bq_inv_def)
  have same: "(threads (bsem st))[i := Done 1] = threads (bsem st)" using k by (metis list_update_id)
  from cq_total_dequeue [OF sem(2)] obtain r q' where d: "cq_try_dequeue (inner st) = Inr (r, q')" "cq_inv q'"
    "case r of None \<Rightarrow> cq_total (inner st) = 0 \<and> cq_total q' = 0 | Some x \<Rightarrow> cq_total q' + 1 = cq_total (inner st)"
    by (elim exE conjE) (rule that; assumption)
  show ?thesis
  proof (cases r)
    case None
    have same': "(clients st)[i := Bq_dequeuing] = clients st" using c by (metis list_update_id)
    have step: "bq_dequeue_step ch i st = st\<lparr>inner := q', bsem := bsem st, clients := (clients st)[i := Bq_dequeuing],
        enqueued := enqueued st, dequeued := dequeued st\<rparr>"
      using d(1) None False unfolding same' by (simp add: bq_dequeue_step_def)
    show ?thesis
      by (rule bq_inv_upd [OF inv i, of Bq_dequeuing "Done 1" "bsem st" q' "enqueued st" "dequeued st"])
        (use sem same k c d None step in simp_all)
  next
    case (Some x)
    have step: "bq_dequeue_step ch i st = at_client i (Bq_idle (Bq_item x)) (st\<lparr>inner := q', dequeued := dequeued st + 1\<rparr>)"
      using d(1) Some False by (simp add: bq_dequeue_step_def)
    show ?thesis
      unfolding step
      by (rule bq_inv_upd [OF inv i, of "Bq_idle (Bq_item x)" "Done 1" "bsem st" q' "enqueued st" "dequeued st + 1"])
        (use sem same k c d Some in \<open>simp_all add: at_client_def\<close>)
  qed
qed

text \<open>A step inside the semaphore.\<close>

lemma bq_sem_step_inv:
  assumes inv: "bq_inv st" and i: "i < length (clients st)" and c: "clients st ! i \<in> {Bq_signalling, Bq_waiting, Bq_waiting_bulk}"
    and s: "sem_run_at ch i (bsem st) = Some s'" "sem_fits 0 s'"
  shows "bq_inv (st\<lparr>bsem := s'\<rparr>)"
proof -
  note cl = bq_inv_client [OF inv i]
  have sem: "sem_inv 0 (bsem st)" "cq_inv (inner st)" using inv by (simp_all add: bq_inv_def)
  from sem_run_at_inv [OF sem(1) cl(2) s]
  obtain sh g p' where t: "thread_step ch (shared (bsem st)) (threads (bsem st) ! i) = Some (g, sh, p')" "sem_inv 0 s'"
    "threads s' = (threads (bsem st))[i := p']" "acquired s' = acquired (bsem st) + g" "rejected s' = rejected (bsem st) + rejection ch (threads (bsem st) ! i)"
    "signalled s' = signalled (bsem st) + signal_amount (threads (bsem st) ! i)"
    "held p' = held (threads (bsem st) ! i) + g + rejection ch (threads (bsem st) ! i)"
    by (elim exE conjE) (rule that; assumption)
  have st': "st\<lparr>bsem := s'\<rparr> = st\<lparr>inner := inner st, bsem := s', clients := (clients st)[i := clients st ! i],
      enqueued := enqueued st, dequeued := dequeued st\<rparr>" by simp
  from c have "clients st ! i = Bq_signalling \<or> clients st ! i = Bq_waiting \<or> clients st ! i = Bq_waiting_bulk" by simp
  then show ?thesis
  proof (elim disjE)
    assume g: "clients st ! i = Bq_signalling"
    then have "sig_pc p' \<and> signal_amount p' = 0 \<and> g = 0 \<and> rejection ch (threads (bsem st) ! i) = 0" using cl(1) sig_pc_step [OF t(1)] by simp
    then show ?thesis using t g sem by (intro bq_inv_upd [OF inv i _ t(2,3) sem(2) _ _ _ st']) simp_all
  next
    assume w: "clients st ! i = Bq_waiting"
    then have "upper 1 p'" "wait_pc p'" "signal_amount (threads (bsem st) ! i) = 0" "checked_ok p'"
      using cl(1) upper_step [OF t(1)] wait_pc_step [OF t(1)] wait_pc_amount checked_ok_step [OF t(1)] by auto
    then show ?thesis using t w sem wait_pc_amount by (intro bq_inv_upd [OF inv i _ t(2,3) sem(2) _ _ _ st']) simp_all
  next
    assume w: "clients st ! i = Bq_waiting_bulk"
    then have "upper (2 ^ 63 - 1) p'" "wait_pc p'" "signal_amount (threads (bsem st) ! i) = 0" "checked_ok p'"
      using cl(1) upper_step [OF t(1)] wait_pc_step [OF t(1)] wait_pc_amount checked_ok_step [OF t(1)] by auto
    then show ?thesis using t w sem wait_pc_amount by (intro bq_inv_upd [OF inv i _ t(2,3) sem(2) _ _ _ st']) simp_all
  qed
qed

lemma bq_done_inv:
  assumes inv: "bq_inv st" and i: "i < length (clients st)" and k: "threads (bsem st) ! i = Done k"
    and c': "client_ok c' (Done k)" "inflight c' (Done k) = inflight (clients st ! i) (Done k)"
  shows "bq_inv (at_client i c' st)"
proof -
  have sem: "sem_inv 0 (bsem st)" "cq_inv (inner st)" using inv by (simp_all add: bq_inv_def)
  have same: "(threads (bsem st))[i := Done k] = threads (bsem st)" using k by (metis list_update_id)
  show ?thesis
    by (rule bq_inv_upd [OF inv i, of c' "Done k" "bsem st" "inner st" "enqueued st" "dequeued st"])
      (use sem same k c' in \<open>simp_all add: at_client_def\<close>)
qed

lemma bq_run_inv:
  assumes inv: "bq_inv st" and i: "i < length (clients st)" and r: "bq_run ch i st = Some st'" and fits: "sem_fits 0 (bsem st')"
  shows "bq_inv st'"
proof -
  note cl = bq_inv_client(1) [OF inv i]
  show ?thesis
  proof (cases "clients st ! i")
    case (Bq_enqueuing am env x)
    then show ?thesis using r bq_enqueue_step_inv [OF inv i] by (simp add: bq_run_def)
  next
    case Bq_dequeuing
    then show ?thesis using r bq_dequeue_step_inv [OF inv i Bq_dequeuing, of ch] by (simp add: bq_run_def)
  next
    case Bq_signalling
    then show ?thesis
      using r cl fits bq_sem_step_inv [OF inv i, of ch] bq_done_inv [OF inv i, of _ "Bq_idle (Bq_bool True)"]
      by (auto simp: bq_run_def split: pc.splits)
  next
    case Bq_waiting
    then show ?thesis
      using r cl fits bq_sem_step_inv [OF inv i, of ch] bq_done_inv [OF inv i, of 0 "Bq_idle (Bq_bool False)"]
        bq_done_inv [OF inv i, of 1 Bq_dequeuing]
      by (auto simp: bq_run_def split: pc.splits if_splits)
  next
    case (Bq_enqueuing_bulk am env items cnt)
    then show ?thesis using r bq_enqueue_bulk_step_inv [OF inv i] by (simp add: bq_run_def)
  next
    case (Bq_dequeuing_bulk mx cnt els)
    then show ?thesis using r bq_dequeue_bulk_step_inv [OF inv i Bq_dequeuing_bulk, of ch] by (simp add: bq_run_def)
  next
    case Bq_waiting_bulk
    show ?thesis
    proof (cases "\<exists>n. threads (bsem st) ! i = Done n")
      case True
      then obtain n where n: "threads (bsem st) ! i = Done n" by blast
      have "n < 2 ^ 63" using cl Bq_waiting_bulk n by auto
      then have "unat (of_nat n :: u64) = n" by (simp add: unat_of_nat)
      then have "bq_inv (at_client i (Bq_dequeuing_bulk (of_nat n) 0 []) st)"
        using n Bq_waiting_bulk by (intro bq_done_inv [OF inv i n]) simp_all
      then show ?thesis using r n Bq_waiting_bulk by (auto simp: bq_run_def)
    next
      case False
      then show ?thesis using r fits cl Bq_waiting_bulk bq_sem_step_inv [OF inv i, of ch] by (auto simp: bq_run_def split: pc.splits)
    qed
  qed (use r in \<open>simp_all add: bq_run_def\<close>)
qed

text \<open>The bounds of the semaphore hold of the earlier states of a run.\<close>

lemma sem_run_at_fits: "sem_run_at ch i s = Some s' \<Longrightarrow> sem_fits 0 s' \<Longrightarrow> sem_fits 0 s"
  by (erule sem_run_at_step) (simp add: sem_fits_def)

lemma sem_call_at_fits [simp]: "sem_fits 0 (sem_call_at i c s) \<longleftrightarrow> sem_fits 0 s"
  by (simp add: sem_fits_def sem_call_at_def)

lemma at_client_bsem [simp]: "bsem (at_client i p st) = bsem st"
  by (simp add: at_client_def)

lemma at_client_clients [simp]: "length (clients (at_client i p st)) = length (clients st)"
  by (simp add: at_client_def)

lemma bq_start_fits: "sem_fits 0 (bsem (bq_start c i st)) \<longleftrightarrow> sem_fits 0 (bsem st)"
  by (cases c) (simp_all add: bq_wait_many_def)

lemma bq_run_fits: "bq_run ch i st = Some st' \<Longrightarrow> sem_fits 0 (bsem st') \<Longrightarrow> sem_fits 0 (bsem st)"
  by (cases "clients st ! i")
    (auto simp: bq_run_def bq_enqueue_step_def bq_dequeue_step_def bq_enqueue_bulk_step_def bq_dequeue_bulk_step_def Let_def
      split: sum.splits option.splits bool.splits pc.splits if_splits prod.splits dest: sem_run_at_fits)

lemma bq_reachable_fits_inv: "bq_reachable malloc_ok capac n st \<Longrightarrow> sem_fits 0 (bsem st) \<Longrightarrow> bq_inv st"
proof (induction rule: bq_reachable.induct)
  case (init st)
  have "sem_inv 0 (LightweightSemaphore 0 n)"
    by (simp add: sem_inv_def LightweightSemaphore_def sum_list_replicate)
  then have "sem_inv 0 (bsem st)" using init by (auto simp: BlockingConcurrentQueue_new_def)
  then show ?case
    using init cqueue_new_inv cqueue_new_lane [of malloc_ok "initial_block_count capac"]
    by (auto simp: BlockingConcurrentQueue_new_def bq_inv_def bq_pairs_def ConcurrentQueue_new_def cq_total_def
        LightweightSemaphore_def zip_replicate sum_list_replicate)
next
  case (step st st')
  from step.hyps(2) step.IH step.prems show ?case
    by cases (auto simp: bq_start_fits intro: bq_start_inv bq_run_inv dest: bq_run_fits)
qed

lemma bq_run_length: "bq_run ch i st = Some st' \<Longrightarrow> length (clients st') = length (clients st) \<and> length (threads (bsem st')) = length (threads (bsem st))"
  by (cases "clients st ! i")
    (auto simp: bq_run_def bq_enqueue_step_def bq_dequeue_step_def bq_enqueue_bulk_step_def bq_dequeue_bulk_step_def sem_call_at_def Let_def
      split: sum.splits option.splits bool.splits pc.splits if_splits prod.splits elim!: sem_run_at_step)

lemma bq_start_length: "length (clients (bq_start c i st)) = length (clients st) \<and> length (threads (bsem (bq_start c i st))) = length (threads (bsem st))"
  by (cases c) (simp_all add: bq_wait_many_def sem_call_at_def)

lemma bq_reachable_length: "bq_reachable malloc_ok capac n st \<Longrightarrow> length (clients st) = n \<and> length (threads (bsem st)) = n"
proof (induction rule: bq_reachable.induct)
  case (init st)
  then show ?case by (auto simp: BlockingConcurrentQueue_new_def LightweightSemaphore_def)
next
  case (step st st')
  from step.hyps(2) step.IH show ?case by cases (auto simp: bq_start_length dest: bq_run_length)
qed

lemma bq_reachable_inv:
  "bq_reachable malloc_ok capac n st \<Longrightarrow> signalled (bsem st) < 2 ^ 63 \<Longrightarrow> n + rejected (bsem st) < 2 ^ 31 \<Longrightarrow> bq_inv st"
  using bq_reachable_length [of malloc_ok capac n st] bq_reachable_fits_inv [of malloc_ok capac n st] by (simp add: sem_fits_def)

lemma cq_size_total: "cq_inv q \<Longrightarrow> cq_size_approx q = Inr (of_nat (cq_total q))"
  unfolding cq_total_def by (rule cq_size_lanes)

subsection \<open>No deadlock\<close>

lemma thread_step_enabled:
  "(\<And>r. p \<noteq> Done r) \<Longrightarrow> p \<noteq> Failed \<Longrightarrow> (\<And>a lim. p \<noteq> Blocked a lim) \<Longrightarrow> thread_step Go s p \<noteq> None"
  by (cases p; cases "pc_amount p"; cases "pc_spin p") (auto simp: thread_step_def Let_def split: if_splits)

lemma blocked_enabled: "0 < m_sema s \<Longrightarrow> thread_step Go s (Blocked a lim) \<noteq> None"
  by (cases a) (auto simp: thread_step_def)

lemma sem_run_at_enabled: "sem_run_at ch i s \<noteq> None \<longleftrightarrow> thread_step ch (shared s) (threads s ! i) \<noteq> None"
  by (auto simp: sem_run_at_def split: option.splits)

text \<open>A client that cannot go on has returned, or sleeps in the semaphore.\<close>

definition asleep :: "'a bq_pc \<times> pc \<Rightarrow> bool" where
  "asleep cp \<longleftrightarrow> fst cp \<in> {Bq_waiting, Bq_waiting_bulk} \<and> (\<exists>a lim. snd cp = Blocked a lim)"

definition at_rest :: "'a bq_pc \<times> pc \<Rightarrow> bool" where
  "at_rest cp \<longleftrightarrow> (\<exists>r k. cp = (Bq_idle r, Done k))"

lemma bq_stuck:
  assumes inv: "bq_inv st" and i: "i < length (clients st)" and s: "bq_run Go i st = None"
  shows "at_rest (bq_pairs st ! i) \<or> asleep (bq_pairs st ! i) \<and> m_sema (shared (bsem st)) = 0"
proof (cases "clients st ! i")
  case Bq_signalling
  then have "sig_pc (threads (bsem st) ! i)" using bq_inv_client(1) [OF inv i] by simp
  then have "thread_step Go (shared (bsem st)) (threads (bsem st) ! i) \<noteq> None \<or> (\<exists>r. threads (bsem st) ! i = Done r)"
    using thread_step_enabled [of "threads (bsem st) ! i"] by (cases "threads (bsem st) ! i") auto
  then show ?thesis using s Bq_signalling sem_run_at_enabled [of Go i "bsem st"] by (auto simp: bq_run_def split: pc.splits)
next
  case Bq_waiting
  have "checked_ok (threads (bsem st) ! i)" using bq_inv_client(1) [OF inv i] Bq_waiting by simp
  then have "sem_run_at Go i (bsem st) = None" "\<And>r. threads (bsem st) ! i \<noteq> Done r" "threads (bsem st) ! i \<noteq> Failed"
    using s Bq_waiting by (auto simp: bq_run_def split: pc.splits)
  then have "\<exists>a lim. threads (bsem st) ! i = Blocked a lim" "m_sema (shared (bsem st)) = 0"
    using sem_run_at_enabled [of Go i "bsem st"] thread_step_enabled blocked_enabled by (blast, metis gr0I)
  then show ?thesis using Bq_waiting bq_inv_client(3) [OF inv i] by (auto simp: asleep_def)
next
  case Bq_waiting_bulk
  have "checked_ok (threads (bsem st) ! i)" using bq_inv_client(1) [OF inv i] Bq_waiting_bulk by simp
  then have "sem_run_at Go i (bsem st) = None" "\<And>r. threads (bsem st) ! i \<noteq> Done r" "threads (bsem st) ! i \<noteq> Failed"
    using s Bq_waiting_bulk by (auto simp: bq_run_def split: pc.splits)
  then have "\<exists>a lim. threads (bsem st) ! i = Blocked a lim" "m_sema (shared (bsem st)) = 0"
    using sem_run_at_enabled [of Go i "bsem st"] thread_step_enabled blocked_enabled by (blast, metis gr0I)
  then show ?thesis using Bq_waiting_bulk bq_inv_client(3) [OF inv i] by (auto simp: asleep_def)
qed (use s bq_inv_client [OF inv i] in \<open>auto simp: bq_run_def at_rest_def\<close>)

lemma stuck_sums:
  assumes "\<forall>cp \<in> set ps. at_rest cp \<or> asleep cp"
  shows "sum_list (map (\<lambda>cp. signal_amount (snd cp)) ps) = 0" "sum_list (map (\<lambda>cp. inflight (fst cp) (snd cp)) ps) = 0"
    "sum_list (map (\<lambda>cp. posting (snd cp)) ps) = 0"
  using assms by (induction ps) (auto simp: at_rest_def asleep_def)

lemma bq_pairs_snd: "length (threads (bsem st)) = length (clients st) \<Longrightarrow> map f (threads (bsem st)) = map (\<lambda>cp. f (snd cp)) (bq_pairs st)"
  unfolding bq_pairs_def by (rule nth_equalityI) simp_all

text \<open>When nothing can go on, a sleeper means that the queue is empty.\<close>

lemma bq_stuck_empty:
  assumes inv: "bq_inv st" and s: "\<forall>i < length (clients st). bq_run Go i st = None"
    and j: "j < length (clients st)" "\<not> at_rest (bq_pairs st ! j)"
  shows "cq_total (inner st) = 0"
proof -
  have len: "length (threads (bsem st)) = length (clients st)" "length (bq_pairs st) = length (clients st)"
    using inv by (simp_all add: bq_inv_def bq_pairs_def)
  have all: "\<forall>cp \<in> set (bq_pairs st). at_rest cp \<or> asleep cp"
  proof
    fix cp assume "cp \<in> set (bq_pairs st)"
    then obtain i where "i < length (clients st)" "bq_pairs st ! i = cp" using len(2) by (metis in_set_conv_nth)
    then show "at_rest cp \<or> asleep cp" using bq_stuck [OF inv] s by blast
  qed
  have z: "m_sema (shared (bsem st)) = 0" "asleep (bq_pairs st ! j)" using bq_stuck [OF inv j(1)] s [rule_format, OF j(1)] j(2) by simp_all
  have "waiting (threads (bsem st) ! j) = 1" using z(2) bq_inv_client(3) [OF inv j(1)] by (auto simp: asleep_def)
  moreover have "threads (bsem st) ! j \<in> set (threads (bsem st))" using bq_inv_client(2) [OF inv j(1)] by (rule nth_mem)
  ultimately have w: "1 \<le> sum_list (map waiting (threads (bsem st)))"
    using sum_list_pos_mem [of waiting, OF waiting_nonneg, of "threads (bsem st) ! j" "threads (bsem st)"] by simp
  have "sum_list (map posting (threads (bsem st))) = 0" using stuck_sums(3) [OF all] bq_pairs_snd [OF len(1), of posting] by simp
  then show ?thesis using inv z(1) w stuck_sums(1,2) [OF all] unfolding bq_inv_def sem_inv_def by linarith
qed

lemma rest_sums:
  assumes "bq_inv st" "\<forall>c \<in> set (clients st). \<exists>r. c = Bq_idle r"
  shows "\<forall>cp \<in> set (bq_pairs st). at_rest cp \<or> asleep cp" "\<forall>p \<in> set (threads (bsem st)). \<exists>r. p = Done r"
proof -
  have *: "\<exists>r k. cp = (Bq_idle r, Done k)" if cp: "cp \<in> set (bq_pairs st)" for cp
  proof -
    have "fst cp \<in> set (clients st)" using cp unfolding bq_pairs_def by (metis prod.collapse set_zip_leftD)
    then show ?thesis using assms cp unfolding bq_inv_def by (cases cp) (fastforce simp: bq_pairs_def)
  qed
  then show "\<forall>cp \<in> set (bq_pairs st). at_rest cp \<or> asleep cp" by (auto simp: at_rest_def)
  have len: "length (threads (bsem st)) = length (clients st)" using assms(1) by (simp add: bq_inv_def)
  show "\<forall>p \<in> set (threads (bsem st)). \<exists>r. p = Done r"
  proof
    fix p assume "p \<in> set (threads (bsem st))"
    then obtain i where i: "i < length (clients st)" "threads (bsem st) ! i = p" using len by (metis in_set_conv_nth)
    have "bq_pairs st ! i \<in> set (bq_pairs st)" using bq_inv_client(4) [OF assms(1) i(1)] by (rule nth_mem)
    from * [OF this] show "\<exists>r. p = Done r" using bq_inv_client(3) [OF assms(1) i(1)] i(2) by auto
  qed
qed

subsection \<open>A run for the witnesses\<close>

lemma cq_new_accepts:
  assumes "env_valid env" "env_all_ok env"
  shows "\<exists>q'. cq_enqueue env x (ConcurrentQueue_new malloc_ok capac) = Inr (True, q')"
proof -
  let ?q = "ConcurrentQueue_new malloc_ok capac :: 'a cqueue"
  have inv: "cq_inv ?q" unfolding ConcurrentQueue_new_def by (rule cqueue_new_inv)
  then obtain M xss Ls F where rep: "cq_rep ?q M xss Ls F" unfolding cq_inv_def by blast
  have "lanes_of M xss (env_thread env) = []"
    using cq_lane_rep [OF rep] cqueue_new_lane [of malloc_ok "initial_block_count capac"] unfolding ConcurrentQueue_new_def by metis
  moreover have "length (producers ?q) < 2 ^ 56" by (simp add: ConcurrentQueue_new_def cqueue_of_blocks_def)
  ultimately show ?thesis
    using cq_enqueue_rep [OF rep assms(1), of Can_alloc x] assms(2)
    by (auto simp: cq_enqueue_def INITIAL_IMPLICIT_PRODUCER_HASH_SIZE_def)
qed

lemma bq_run_reachable:
  "bq_reachable malloc_ok capac n st \<Longrightarrow> i < length (clients st) \<Longrightarrow> bq_run ch i st = Some st' \<Longrightarrow> bq_reachable malloc_ok capac n st'"
  by (rule bq_reachable.step [OF _ bq_step.run])

lemma bq_call_reachable:
  "bq_reachable malloc_ok capac n st \<Longrightarrow> i < length (clients st) \<Longrightarrow> clients st ! i = Bq_idle r \<Longrightarrow> bq_call_ok c
    \<Longrightarrow> bq_reachable malloc_ok capac n (bq_start c i st)"
  by (rule bq_reachable.step [OF _ bq_step.call])

text \<open>Thread 0 has enqueued an element; thread 1 is in \<open>wait_dequeue\<close>, about to read \<open>m_count\<close>, or has its permit.\<close>

lemma bq_busy_reachable:
  "\<exists>q s1 s2. let st = \<lparr>inner = q, bsem = s1, clients = [Bq_idle (Bq_bool True), Bq_waiting], enqueued = 1, dequeued = 0\<rparr> :: nat bq_state in
     bq_reachable True 32 2 st \<and> cq_total q = 1 \<and> bq_reachable True 32 2 (st\<lparr>bsem := s2, clients := [Bq_idle (Bq_bool True), Bq_dequeuing]\<rparr>)
     \<and> signalled s1 = 1 \<and> signalled s2 = 1 \<and> rejected s1 = 0 \<and> rejected s2 = 0"
proof -
  let ?env = "(64, (True, True, True), True, True) :: cq_env"
  let ?q = "ConcurrentQueue_new True 32 :: nat cqueue"
  have env: "env_valid ?env" "env_all_ok ?env" by (simp_all add: env_valid_def env_all_ok_def invalid_thread_id_def)
  obtain q where q: "cq_enqueue ?env 7 ?q = Inr (True, q)" using cq_new_accepts [OF env, of 7 True 32] by blast
  let ?S = "\<lambda>m ps sg. \<lparr>shared = \<lparr>m_count = m, m_sema = 0\<rparr>, threads = ps, acquired = nat (int sg - m), signalled = sg, returned = 0, rejected = 0\<rparr>"
  let ?st = "\<lambda>q m ps sg cs e. \<lparr>inner = q, bsem = ?S m ps sg, clients = cs, enqueued = e, dequeued = 0\<rparr> :: nat bq_state"
  let ?I = "Bq_idle (Bq_bool False)"
  have r0: "bq_reachable True 32 2 (?st ?q 0 [Done 0, Done 0] 0 [?I, ?I] 0)"
    using bq_reachable.init [of True 32 2] by (simp add: BlockingConcurrentQueue_new_def LightweightSemaphore_def numeral_2_eq_2)
  have r1: "bq_reachable True 32 2 (?st ?q 0 [Done 0, Done 0] 0 [Bq_enqueuing Can_alloc ?env 7, ?I] 0)"
    using bq_call_reachable [OF r0, of 0 _ "Bq_enqueue ?env 7"] env by (simp add: at_client_def)
  have r2: "bq_reachable True 32 2 (?st q 0 [Sig 1, Done 0] 0 [Bq_signalling, ?I] 1)"
    using bq_run_reachable [OF r1, of 0 Go] q by (simp add: bq_run_def bq_enqueue_step_def at_client_def sem_call_at_def)
  have r3: "bq_reachable True 32 2 (?st q 1 [Done 0, Done 0] 1 [Bq_signalling, ?I] 1)"
    using bq_run_reachable [OF r2, of 0 Go] by (simp add: bq_run_def sem_run_at_def thread_step_def)
  have r4: "bq_reachable True 32 2 (?st q 1 [Done 0, Done 0] 1 [Bq_idle (Bq_bool True), ?I] 1)"
    using bq_run_reachable [OF r3, of 0 Go] by (simp add: bq_run_def at_client_def)
  have r5: "bq_reachable True 32 2 (?st q 1 [Done 0, Try One (Spinning Untimed)] 1 [Bq_idle (Bq_bool True), Bq_waiting] 1)"
    using bq_call_reachable [OF r4, of 1 _ Bq_wait_dequeue] by (simp add: at_client_def sem_call_at_def)
  have r6: "bq_reachable True 32 2 (?st q 1 [Done 0, Try_cas One (Spinning Untimed) 1] 1 [Bq_idle (Bq_bool True), Bq_waiting] 1)"
    using bq_run_reachable [OF r5, of 1 Go] by (simp add: bq_run_def sem_run_at_def thread_step_def)
  have r7: "bq_reachable True 32 2 (?st q 0 [Done 0, Done 1] 1 [Bq_idle (Bq_bool True), Bq_waiting] 1)"
    using bq_run_reachable [OF r6, of 1 Go] by (simp add: bq_run_def sem_run_at_def thread_step_def finish_def)
  have r8: "bq_reachable True 32 2 (?st q 0 [Done 0, Done 1] 1 [Bq_idle (Bq_bool True), Bq_dequeuing] 1)"
    using bq_run_reachable [OF r7, of 1 Go] by (simp add: bq_run_def at_client_def)
  have "cq_total q = 1" using bq_reachable_inv [OF r4] by (simp add: bq_inv_def)
  then show ?thesis
    unfolding Let_def using r5 r8
    by (intro exI [of _ q] exI [of _ "?S 1 [Done 0, Try One (Spinning Untimed)] 1"] exI [of _ "?S 0 [Done 0, Done 1] 1"] conjI) simp_all
qed

text \<open>One step further the element is out and every operation has returned.\<close>

lemma bq_rest_reachable:
  "\<exists>st :: nat bq_state. bq_reachable True 32 2 st \<and> enqueued st = 1 \<and> dequeued st = 1 \<and> signalled (bsem st) = 1 \<and> rejected (bsem st) = 0
     \<and> (\<exists>x. clients st = [Bq_idle (Bq_bool True), Bq_idle (Bq_item x)])"
proof -
  let ?ST = "\<lambda>q s. \<lparr>inner = q, bsem = s, clients = [Bq_idle (Bq_bool True), Bq_dequeuing], enqueued = 1, dequeued = 0\<rparr> :: nat bq_state"
  obtain q s where r: "bq_reachable True 32 2 (?ST q s)" and sg: "signalled s = 1" "rejected s = 0"
    using bq_busy_reachable unfolding Let_def by (elim exE conjE) simp
  let ?st = "?ST q s"
  have inv: "bq_inv ?st" by (rule bq_reachable_inv [OF r]) (simp_all add: sg)
  have d: "clients ?st ! 1 = Bq_dequeuing" "1 < length (clients ?st)" "rejected (bsem ?st) = 0" using sg by simp_all
  obtain x q' where "cq_try_dequeue q = Inr (Some x, q')" using bq_dequeue_step_found [OF inv d(2) d(1) d(3)] by auto
  then have run: "bq_run Go 1 ?st = Some \<lparr>inner = q', bsem = s, clients = [Bq_idle (Bq_bool True), Bq_idle (Bq_item x)], enqueued = 1, dequeued = 1\<rparr>"
    by (simp add: bq_run_def bq_dequeue_step_def at_client_def)
  from bq_run_reachable [OF r d(2) run] show ?thesis using sg by (intro exI conjI) (assumption, simp_all)
qed

subsection \<open>Properties\<close>

text \<open>
  C7: a permit of the semaphore means an element. In every reachable state of any number of threads that
  enqueue, wait and dequeue, one element or several at once, in any interleaving, with dequeues of the inner queue failing spuriously
  at any point: no operation has failed; the permits that threads hold and have not yet turned into elements are at most the elements
  in the queue plus the timed waits granted for a rejected deadline (C38); and as long as there was none of those, a thread in
  the loop \<open>while (!inner.try_dequeue(item))\<close> gets an element with its next try unless that fails spuriously, and one in \<open>while (count != max)\<close>
  all the elements it still misses unless the bulk dequeue overlooks some. The bounds are those of the semaphore, and the memory for the
  index of a new producer is given (otherwise the queue crashes).
\<close>

theorem bq_permit_finds_element:
  assumes "bq_reachable malloc_ok capac n st" "signalled (bsem st) < 2 ^ 63" "n + rejected (bsem st) < 2 ^ 31" "i < length (clients st)"
  shows "(\<forall>e. clients st ! i \<noteq> Bq_failed e)
    \<and> sum_list (map (\<lambda>cp. inflight (fst cp) (snd cp)) (bq_pairs st)) \<le> cq_total (inner st) + rejected (bsem st)
    \<and> (clients st ! i = Bq_dequeuing \<and> rejected (bsem st) = 0 \<longrightarrow>
         (\<exists>x st'. bq_run Go i st = Some st' \<and> clients st' ! i = Bq_idle (Bq_item x) \<and> dequeued st' = dequeued st + 1))
    \<and> (\<forall>mx cnt els. clients st ! i = Bq_dequeuing_bulk mx cnt els \<and> cnt \<noteq> mx \<and> rejected (bsem st) = 0 \<longrightarrow>
         (\<exists>xs st'. bq_run Go i st = Some st' \<and> clients st' ! i = Bq_dequeuing_bulk mx mx (els @ xs) \<and> length (els @ xs) = unat mx
            \<and> dequeued st' = dequeued st + length xs))"
proof -
  have inv: "bq_inv st" by (rule bq_reachable_inv [OF assms(1-3)])
  have bulk: "\<exists>xs st'. bq_run Go i st = Some st' \<and> clients st' ! i = Bq_dequeuing_bulk mx mx (els @ xs) \<and> length (els @ xs) = unat mx
            \<and> dequeued st' = dequeued st + length xs"
    if c: "clients st ! i = Bq_dequeuing_bulk mx cnt els" "cnt \<noteq> mx" and r: "rejected (bsem st) = 0" for mx cnt els
  proof -
    obtain xs q' where d: "bq_dequeue_bulk_step Go mx cnt els i st
        = at_client i (Bq_dequeuing_bulk mx mx (els @ xs)) (st\<lparr>inner := q', dequeued := dequeued st + length xs\<rparr>)" "length (els @ xs) = unat mx"
      using bq_dequeue_bulk_found [OF inv assms(4) c r] by blast
    then show ?thesis using c(1) assms(4) by (intro exI [of _ xs]) (simp add: bq_run_def at_client_def)
  qed
  have "\<exists>x st'. bq_run Go i st = Some st' \<and> clients st' ! i = Bq_idle (Bq_item x) \<and> dequeued st' = dequeued st + 1"
    if "clients st ! i = Bq_dequeuing" "rejected (bsem st) = 0"
    using bq_dequeue_step_found [OF inv assms(4) that] that assms(4)
    by (auto simp: bq_run_def bq_dequeue_step_def at_client_def)
  then show ?thesis using bq_inv_client(1) [OF inv assms(4)] inflight_le_total [OF inv] bulk by auto
qed

theorem bq_permit_finds_element_witness:
  "\<exists>st x st'. bq_reachable True 32 2 st \<and> (clients st :: nat bq_pc list) ! 1 = Bq_dequeuing \<and> bq_run Go 1 st = Some st' \<and> clients st' ! 1 = Bq_idle (Bq_item x)"
proof -
  obtain st :: "nat bq_state" where r: "bq_reachable True 32 2 st" "clients st = [Bq_idle (Bq_bool True), Bq_dequeuing]"
    "signalled (bsem st) = 1" "rejected (bsem st) = 0"
    using bq_busy_reachable unfolding Let_def by force
  from bq_permit_finds_element [OF r(1), of 1] r show ?thesis by (intro exI [of _ st]) auto
qed

text \<open>
  C9: no deadlock. In every reachable state, when some thread is inside an operation and the queue holds an element, some
  thread can take a step, without a timeout having to expire. The bounds are those of the semaphore: fewer than \<open>2 ^ 63\<close> elements were signalled,
  and the threads and the rejected deadlines are fewer than \<open>2 ^ 31\<close> together.
\<close>

theorem bq_no_deadlock:
  assumes "bq_reachable malloc_ok capac n st" "signalled (bsem st) < 2 ^ 63" "n + rejected (bsem st) < 2 ^ 31"
    and "j < length (clients st)" "\<forall>r. clients st ! j \<noteq> Bq_idle r" "cq_size_approx (inner st) \<noteq> Inr 0"
  shows "\<exists>i < length (clients st). bq_run Go i st \<noteq> None"
proof (rule ccontr)
  assume "\<not> (\<exists>i < length (clients st). bq_run Go i st \<noteq> None)"
  then have s: "\<forall>i < length (clients st). bq_run Go i st = None" by blast
  have inv: "bq_inv st" by (rule bq_reachable_inv [OF assms(1-3)])
  have "\<not> at_rest (bq_pairs st ! j)" using bq_inv_client(3) [OF inv assms(4)] assms(5) by (auto simp: at_rest_def)
  then have "cq_total (inner st) = 0" by (rule bq_stuck_empty [OF inv s assms(4)])
  moreover have "cq_inv (inner st)" using inv by (simp add: bq_inv_def)
  ultimately show False using assms(6) cq_size_total [of "inner st"] by simp
qed

theorem bq_no_deadlock_witness:
  "\<exists>st :: nat bq_state. bq_reachable True 32 2 st \<and> clients st ! 1 = Bq_waiting \<and> (\<exists>i < length (clients st). bq_run Go i st \<noteq> None)"
proof -
  obtain st :: "nat bq_state" where r: "bq_reachable True 32 2 st" "clients st = [Bq_idle (Bq_bool True), Bq_waiting]" "cq_total (inner st) = 1"
    "signalled (bsem st) = 1" "rejected (bsem st) = 0"
    using bq_busy_reachable unfolding Let_def by force
  have "cq_inv (inner st)" using bq_reachable_inv [OF r(1)] r(4,5) by (simp add: bq_inv_def)
  then have "cq_size_approx (inner st) \<noteq> Inr 0" using cq_size_total [of "inner st"] r(3) by simp
  from bq_no_deadlock [OF r(1) _ _ _ _ this, of 1] r show ?thesis by (intro exI [of _ st]) simp
qed

text \<open>
  C27: when every operation has returned, both sizes are exact: \<open>size_approx\<close> of the blocking queue and of the
  queue inside are the number of elements enqueued minus those dequeued, rejected deadlines or not (the bounds are those of the semaphore).
\<close>

theorem bq_size_exact:
  assumes "bq_reachable malloc_ok capac n st" "signalled (bsem st) < 2 ^ 63" "n + rejected (bsem st) < 2 ^ 31"
    and "\<forall>c \<in> set (clients st). \<exists>r. c = Bq_idle r"
  shows "bq_size_approx st = of_nat (enqueued st - dequeued st) \<and> cq_size_approx (inner st) = Inr (of_nat (enqueued st - dequeued st))
    \<and> dequeued st \<le> enqueued st"
proof -
  have inv: "bq_inv st" by (rule bq_reachable_inv [OF assms(1-3)])
  note rest = rest_sums [OF inv assms(4)]
  note sums = stuck_sums [OF rest(1)] all_done_sums [OF rest(2)]
  have tot: "cq_total (inner st) = enqueued st - dequeued st" "dequeued st \<le> enqueued st" using inv unfolding bq_inv_def by linarith+
  have "m_count (shared (bsem st)) + int (rejected (bsem st)) + int (acquired (bsem st)) = int (signalled (bsem st))" using inv sums unfolding bq_inv_def sem_inv_def by simp
  moreover have "signalled (bsem st) = enqueued st" "acquired (bsem st) + rejected (bsem st) = dequeued st" using inv sums unfolding bq_inv_def by linarith+
  ultimately have "availableApprox (shared (bsem st)) = int (enqueued st - dequeued st)"
    using tot(2) by (simp add: availableApprox_def Let_def)
  then show ?thesis using inv tot cq_size_total [of "inner st"] by (simp add: bq_size_approx_def bq_inv_def)
qed

theorem bq_size_exact_witness:
  "\<exists>st :: nat bq_state. bq_reachable True 32 2 st \<and> enqueued st = 1 \<and> dequeued st = 1 \<and> bq_size_approx st = 0 \<and> cq_size_approx (inner st) = Inr 0"
proof -
  obtain st :: "nat bq_state" where st: "bq_reachable True 32 2 st" "enqueued st = 1" "dequeued st = 1" "signalled (bsem st) = 1"
    "rejected (bsem st) = 0" "\<exists>x. clients st = [Bq_idle (Bq_bool True), Bq_idle (Bq_item x)]"
    using bq_rest_reachable by blast
  from bq_size_exact [OF st(1)] st show ?thesis by (intro exI [of _ st]) auto
qed

end
