(* ===== verification/IOHandler.thy ===== *)
theory IOHandler
  imports Timers BlockingQueue
begin

text \<open>
  \<open>source/handler/IOHandler.cpp\<close>, \<open>IOHandlerFactory.cpp\<close> and the messages of \<open>LogicHandlerRequest.h\<close> and
  \<open>LogicHandlerResponse.h\<close>: one handler per HTTP request. Pointers are addresses, \<open>None\<close> is \<open>nullptr\<close>. The messages of
  proxygen (type \<open>'m\<close>) and the buffers of folly (type \<open>'b\<close>) are not part of the repository; \<open>prependChain\<close> is a parameter.

  A call of a blocking queue appears here as the call of the queue inside it (see \<open>BlockingQueue\<close> for the threads and the semaphore).
\<close>

type_synonym ptr = "nat option"

datatype ResponseCode = Code_Ready | Code_Error | Code_Terminated | Code_Paused

datatype RequestStage = Stage_Ready | Stage_Begin | Stage_Continue | Stage_End

record LogicHandlerRequest =
  requestTimer :: StopTimer
  ioHandler :: ptr

definition LogicHandlerRequest_default :: "int \<Rightarrow> LogicHandlerRequest" where
  "LogicHandlerRequest_default now = \<lparr>requestTimer = StopTimer_new now, ioHandler = None\<rparr>"

definition LogicHandlerRequest_new :: "StopTimer \<Rightarrow> ptr \<Rightarrow> LogicHandlerRequest" where
  "LogicHandlerRequest_new timer handler = \<lparr>requestTimer = timer, ioHandler = handler\<rparr>"

record LogicHandlerRequestStage =
  stage :: RequestStage
  ioCode :: ResponseCode
  numLines :: u64
  currLine :: u64
  batch :: u64
  request :: LogicHandlerRequest

definition LogicHandlerRequestStage_new :: "LogicHandlerRequest \<Rightarrow> u64 \<Rightarrow> u64 \<Rightarrow> LogicHandlerRequestStage" where
  "LogicHandlerRequestStage_new r l b =
     \<lparr>stage = Stage_Ready, ioCode = Code_Ready, numLines = l, currLine = 0, batch = b, request = r\<rparr>"

record LogicHandlerResponse =
  code :: ResponseCode
  rHandler :: ptr

definition LogicHandlerResponse_new :: "ResponseCode \<Rightarrow> ptr \<Rightarrow> LogicHandlerResponse" where
  "LogicHandlerResponse_new pCode pHandler = \<lparr>code = pCode, rHandler = pHandler\<rparr>"

subsection \<open>IOHandler\<close>

text \<open>\<open>ioRequestQueue\<close>: whether \<open>mRequestQueue\<close> is set; \<open>ioResponseQueue\<close>: the logic handler whose response queue it points to.\<close>

record ('m, 'b) IOHandler =
  mRequestBody :: "'b option"
  mEventBase :: ptr
  ioRequestQueue :: bool
  mHeaders :: "'m option"
  ioResponseQueue :: "nat option"
  mStatus :: ResponseCode

definition IOHandler_new :: "ptr \<Rightarrow> bool \<Rightarrow> ('m, 'b) IOHandler" where
  "IOHandler_new existingEventBase queue =
     \<lparr>mRequestBody = None, mEventBase = existingEventBase, ioRequestQueue = queue, mHeaders = None,
      ioResponseQueue = None, mStatus = Code_Ready\<rparr>"

definition onRequest :: "'m \<Rightarrow> ('m, 'b) IOHandler \<Rightarrow> ('m, 'b) IOHandler" where
  "onRequest headers h = h\<lparr>mHeaders := Some headers\<rparr>"

definition onBody :: "('b \<Rightarrow> 'b \<Rightarrow> 'b) \<Rightarrow> 'b \<Rightarrow> ('m, 'b) IOHandler \<Rightarrow> ('m, 'b) IOHandler" where
  "onBody prependChain body h =
     (case mRequestBody h of
        Some chain \<Rightarrow> h\<lparr>mRequestBody := Some (prependChain chain body)\<rparr>
      | None \<Rightarrow> h\<lparr>mRequestBody := Some body\<rparr>)"

text \<open>The result of \<open>enqueue\<close> is dropped.\<close>

definition onEOM ::
  "cq_env \<Rightarrow> int \<Rightarrow> nat \<Rightarrow> ('m, 'b) IOHandler \<Rightarrow> LogicHandlerRequest cqueue \<Rightarrow> cq_error + LogicHandlerRequest cqueue" where
  "onEOM env now this h requests =
     (if ioRequestQueue h
      then bindE (cq_enqueue env (LogicHandlerRequest_new (StopTimer_new now) (Some this)) requests) (\<lambda>(ok, q). Inr q)
      else Inr requests)"

definition onUpgrade :: "('m, 'b) IOHandler \<Rightarrow> ('m, 'b) IOHandler" where
  "onUpgrade h = h"

definition handleResponseNotification ::
  "cq_env \<Rightarrow> nat \<Rightarrow> ResponseCode \<Rightarrow> ('m, 'b) IOHandler \<Rightarrow> (nat \<Rightarrow> LogicHandlerResponse cqueue)
     \<Rightarrow> cq_error + (nat \<Rightarrow> LogicHandlerResponse cqueue)" where
  "handleResponseNotification env this status h responses =
     (case ioResponseQueue h of
        None \<Rightarrow> Inr responses
      | Some k \<Rightarrow> bindE (cq_enqueue env (LogicHandlerResponse_new status (Some this)) (responses k)) (\<lambda>(ok, q). Inr (responses(k := q))))"

text \<open>The four notifications of proxygen that only set the status.\<close>

datatype notification = Request_complete | On_error | On_egress_paused | On_egress_resumed

fun notification_status :: "notification \<Rightarrow> ResponseCode" where
  "notification_status Request_complete = Code_Terminated"
| "notification_status On_error = Code_Error"
| "notification_status On_egress_paused = Code_Paused"
| "notification_status On_egress_resumed = Code_Ready"

definition notify ::
  "cq_env \<Rightarrow> nat \<Rightarrow> notification \<Rightarrow> ('m, 'b) IOHandler \<Rightarrow> (nat \<Rightarrow> LogicHandlerResponse cqueue)
     \<Rightarrow> cq_error + ('m, 'b) IOHandler \<times> (nat \<Rightarrow> LogicHandlerResponse cqueue)" where
  "notify env this n h responses =
     (let h' = h\<lparr>mStatus := notification_status n\<rparr>
      in bindE (handleResponseNotification env this (mStatus h') h' responses) (\<lambda>rs. Inr (h', rs)))"

definition setResponseQueue ::
  "cq_env \<Rightarrow> nat \<Rightarrow> nat \<Rightarrow> ('m, 'b) IOHandler \<Rightarrow> (nat \<Rightarrow> LogicHandlerResponse cqueue)
     \<Rightarrow> cq_error + ('m, 'b) IOHandler \<times> (nat \<Rightarrow> LogicHandlerResponse cqueue)" where
  "setResponseQueue env this k h responses =
     (let h' = h\<lparr>ioResponseQueue := Some k\<rparr>
      in if mStatus h' = Code_Paused \<or> mStatus h' = Code_Error \<or> mStatus h' = Code_Terminated
         then bindE (handleResponseNotification env this (mStatus h') h' responses) (\<lambda>rs. Inr (h', rs))
         else Inr (h', responses))"

text \<open>\<open>IOHandlerFactory\<close>\<close>

record IOHandlerFactory =
  mQueue :: bool
  factoryEventBase :: ptr

definition onServerStart :: "ptr \<Rightarrow> IOHandlerFactory \<Rightarrow> IOHandlerFactory" where
  "onServerStart eBase f = f\<lparr>factoryEventBase := eBase\<rparr>"

definition factory_onRequest :: "ptr \<Rightarrow> IOHandlerFactory \<Rightarrow> ('m, 'b) IOHandler" where
  "factory_onRequest existingEventBase f = IOHandler_new existingEventBase (mQueue f)"

subsection \<open>The queue as the handlers see it\<close>

definition cq_bag :: "'a cqueue \<Rightarrow> 'a multiset" where
  "cq_bag q = lane_bag cq_lane q"

interpretation cqf: finite_lanes cq_inv env_valid env_thread cq_lane cq_enqueue cq_try_dequeue
proof unfold_locales
  fix q :: "'a cqueue" and m x
  assume "cq_inv q" "env_valid m"
  from cq_enqueue_lanes [OF this, of Can_alloc x]
  show "\<exists>b q'. cq_enqueue m x q = Inr (b, q') \<and> cq_inv q'
      \<and> cq_lane q' = (if b then (cq_lane q)(env_thread m := cq_lane q (env_thread m) @ [x]) else cq_lane q)"
    by (simp add: cq_enqueue_def INITIAL_IMPLICIT_PRODUCER_HASH_SIZE_def)
next
  fix q :: "'a cqueue"
  assume "cq_inv q"
  from cq.deq_lane [OF this]
  show "\<exists>r q'. cq_try_dequeue q = Inr (r, q') \<and> cq_inv q'
        \<and> (case r of None \<Rightarrow> (\<forall>t. cq_lane q t = []) \<and> cq_lane q' = cq_lane q
           | Some x \<Rightarrow> \<exists>t xs. cq_lane q t = x # xs \<and> cq_lane q' = (cq_lane q)(t := xs))" .
qed

lemmas cq_enqueue_bag = cqf.enq_bag [folded cq_bag_def]
lemmas cq_dequeue_bag = cqf.deq_bag [folded cq_bag_def]
lemmas cq_drain = cqf.drain_lanes [folded cq_bag_def]

lemma cq_new_bag: "cq_bag (ConcurrentQueue_new malloc_ok capac) = {#}" "cq_inv (ConcurrentQueue_new malloc_ok capac)"
  unfolding ConcurrentQueue_new_def cq_bag_def lane_bag_empty by (simp add: cqueue_new_lane) (rule cqueue_new_inv)

subsection \<open>Properties\<close>

text \<open>The body as the sequence of the buffers received.\<close>

lemma onBody_data:
  assumes "\<And>c b. data (prependChain c b) = data c @ data b"
  shows "(case mRequestBody (fold (onBody prependChain) bs h) of None \<Rightarrow> [] | Some c \<Rightarrow> data c)
    = (case mRequestBody h of None \<Rightarrow> [] | Some c \<Rightarrow> data c) @ concat (map data bs)"
  by (induction bs arbitrary: h) (simp_all add: onBody_def assms split: option.splits)

lemma onBody_None: "mRequestBody (fold (onBody prependChain) bs h) = None \<longleftrightarrow> bs = [] \<and> mRequestBody h = None"
  by (induction bs arbitrary: h) (auto simp: onBody_def split: option.splits)

text \<open>
  The body is kept in order. If \<open>prependChain\<close> adds a buffer at the end of the chain it is called on, as folly documents, then after
  any sequence of \<open>onBody\<close> calls on a new handler the request body is the concatenation of the buffers, and there is none
  exactly when no buffer came.
\<close>

theorem request_body_in_order:
  fixes data :: "'b \<Rightarrow> 'c list"
  assumes "\<And>c b. data (prependChain c b) = data c @ data b"
  shows "(case mRequestBody (fold (onBody prependChain) bs (IOHandler_new eb queue :: ('m, 'b) IOHandler)) of None \<Rightarrow> bs = [] | Some c \<Rightarrow> bs \<noteq> [] \<and> data c = concat (map data bs))"
  using onBody_data [OF assms, of bs "IOHandler_new eb queue :: ('m, 'b) IOHandler"] onBody_None [of prependChain bs "IOHandler_new eb queue :: ('m, 'b) IOHandler"]
  by (auto simp: IOHandler_new_def split: option.splits)

theorem request_body_in_order_witness:
  "mRequestBody (fold (onBody (@)) [[1, 2], [3 :: nat]] (IOHandler_new None True :: (unit, nat list) IOHandler)) = Some [1, 2, 3]"
  using request_body_in_order [of "\<lambda>b. b" "(@)" "[[1, 2], [3 :: nat]]" None True]
  by (simp split: option.splits)

end
