(* ===== verification/LogicHandler.thy ===== *)
theory LogicHandler
  imports IOHandler
begin

text \<open>
  \<open>source/handler/LogicHandler.cpp\<close>: the worker thread. Its request map (\<open>std::unordered_map\<close>) is an association list with distinct
  keys; nothing depends on its order. The thread is at the head of its loop, in the body, has left the loop, or was joined.
\<close>

type_synonym RequestMap = "(ptr \<times> LogicHandlerRequestStage) list"

datatype worker = At_head | In_body | Exited | Joined

record LogicHandler =
  mThread :: "worker option"
  mIsRunning :: bool
  mResponseQueue :: "LogicHandlerResponse cqueue"
  mRequestMap :: RequestMap
  mMaxRequest :: u64
  mWaitDurationBusy :: int
  mWaitDurationIdle :: int

definition LogicHandler_new :: "bool \<Rightarrow> LogicHandler" where
  "LogicHandler_new malloc_ok =
     \<lparr>mThread = None, mIsRunning = False, mResponseQueue = ConcurrentQueue_new malloc_ok 128, mRequestMap = [],
      mMaxRequest = 128, mWaitDurationBusy = 50, mWaitDurationIdle = 1000\<rparr>"

subsection \<open>The request map\<close>

text \<open>\<open>insert\<close> keeps an entry that is already there.\<close>

definition map_insert :: "ptr \<Rightarrow> LogicHandlerRequestStage \<Rightarrow> RequestMap \<Rightarrow> RequestMap" where
  "map_insert k s m = (case map_of m k of None \<Rightarrow> (k, s) # m | Some _ \<Rightarrow> m)"

definition map_erase :: "ptr \<Rightarrow> RequestMap \<Rightarrow> RequestMap" where
  "map_erase k m = filter (\<lambda>p. fst p \<noteq> k) m"

text \<open>\<open>found->second.ioCode = code\<close>, if \<open>find\<close> succeeds.\<close>

definition map_set_code :: "ptr \<Rightarrow> ResponseCode \<Rightarrow> RequestMap \<Rightarrow> RequestMap" where
  "map_set_code k c m = map (\<lambda>p. if fst p = k then (fst p, (snd p)\<lparr>ioCode := c\<rparr>) else p) m"

definition handle_response :: "LogicHandlerResponse \<Rightarrow> RequestMap \<Rightarrow> RequestMap" where
  "handle_response response m =
     (let m1 = (if code response = Code_Error then map_erase (rHandler response) m else m)
      in if code response = Code_Terminated then map_erase (rHandler response) m1
         else if code response = Code_Paused then map_set_code (rHandler response) (code response) m1
         else if code response = Code_Ready then map_set_code (rHandler response) (code response) m1
         else m1)"

subsection \<open>The worker\<close>

definition handleRequestLogic :: "LogicHandlerRequestStage \<Rightarrow> LogicHandlerRequestStage" where
  "handleRequestLogic r = r"

text \<open>
  \<open>for (RequestMap::value_type p : mRequestMap)\<close> works on copies: the map stays as it is. The second result is the list of the copies
  after \<open>handleRequestLogic\<close>, for the entries that are not paused; they are dropped.
\<close>

definition process_requests :: "RequestMap \<Rightarrow> RequestMap \<times> LogicHandlerRequestStage list" where
  "process_requests m = (m, map (\<lambda>p. handleRequestLogic (snd p)) (filter (\<lambda>p. ioCode (snd p) \<noteq> Code_Paused) m))"

definition wait_usecs :: "LogicHandler \<Rightarrow> int" where
  "wait_usecs h = (if mRequestMap h \<noteq> [] then mWaitDurationBusy h else mWaitDurationIdle h) * 1000"

text \<open>
  \<open>wait_dequeue_timed\<close>: whether the semaphore granted a permit in time is up to the other threads; a negative timeout waits until
  it does. Once it has granted one, \<open>while (!inner.try_dequeue(item))\<close> goes round until there is an element: \<open>None\<close> is a queue that
  is (still) empty, where the loop does not end before another thread has enqueued.
\<close>

definition wait_request :: "bool \<Rightarrow> int \<Rightarrow> LogicHandlerRequest cqueue \<Rightarrow> (cq_error + LogicHandlerRequest option \<times> LogicHandlerRequest cqueue) option" where
  "wait_request granted timeout_usecs q =
     (if granted \<or> timeout_usecs < 0
      then case cq_try_dequeue q of
             Inl e \<Rightarrow> Some (Inl e)
           | Inr (taken, q') \<Rightarrow> (if taken = None then None else Some (Inr (taken, q')))
      else Some (Inr (None, q)))"

text \<open>The body of the loop in \<open>executor_func\<close>; \<open>None\<close>: the loop in the wait or the loop over the responses does not end.\<close>

definition executor_body ::
  "bool \<Rightarrow> LogicHandlerRequest cqueue \<Rightarrow> LogicHandler \<Rightarrow> (cq_error + LogicHandlerRequest cqueue \<times> LogicHandler) option" where
  "executor_body granted requests h =
     (if of_nat (length (mRequestMap h)) < mMaxRequest h
      then case wait_request granted (wait_usecs h) requests of
             None \<Rightarrow> None
           | Some (Inl e) \<Rightarrow> Some (Inl e)
           | Some (Inr (taken, requests')) \<Rightarrow>
               (let m = (case taken of None \<Rightarrow> mRequestMap h
                         | Some r \<Rightarrow> map_insert (ioHandler r) (LogicHandlerRequestStage_new r 100000 100) (mRequestMap h))
                in case drain cq_try_dequeue handle_response (mResponseQueue h) m of
                     None \<Rightarrow> None
                   | Some (Inl e) \<Rightarrow> Some (Inl e)
                   | Some (Inr (responses, m')) \<Rightarrow>
                       (let (m'', handled) = process_requests m'
                        in Some (Inr (requests', h\<lparr>mResponseQueue := responses, mRequestMap := m''\<rparr>))))
      else Some (Inr (requests, h)))"

text \<open>\<open>while (mIsRunning.test_and_set())\<close>\<close>

definition test_and_set :: "LogicHandler \<Rightarrow> bool \<times> LogicHandler" where
  "test_and_set h = (mIsRunning h, h\<lparr>mIsRunning := True\<rparr>)"

definition executor_head :: "LogicHandler \<Rightarrow> LogicHandler" where
  "executor_head h = (let (was, h') = test_and_set h in h'\<lparr>mThread := Some (if was then In_body else Exited)\<rparr>)"

definition executor_step ::
  "bool \<Rightarrow> LogicHandlerRequest cqueue \<Rightarrow> LogicHandler \<Rightarrow> (cq_error + LogicHandlerRequest cqueue \<times> LogicHandler) option" where
  "executor_step granted requests h =
     (case mThread h of
        Some At_head \<Rightarrow> Some (Inr (requests, executor_head h))
      | Some In_body \<Rightarrow>
          map_option (\<lambda>r. bindE r (\<lambda>(q, h'). Inr (q, h'\<lparr>mThread := Some At_head\<rparr>))) (executor_body granted requests h)
      | _ \<Rightarrow> Some (Inr (requests, h)))"

subsection \<open>Life of the thread\<close>

text \<open>\<open>queue\<close>: whether \<open>mRequestQueue\<close> is set; without it the thread ends at once.\<close>

definition start_handler :: "bool \<Rightarrow> LogicHandler \<Rightarrow> LogicHandler" where
  "start_handler queue h =
     (case mThread h of
        None \<Rightarrow> h\<lparr>mIsRunning := True, mThread := Some (if queue then At_head else Exited)\<rparr>
      | Some _ \<Rightarrow> h)"

definition stop :: "LogicHandler \<Rightarrow> LogicHandler" where
  "stop h = h\<lparr>mIsRunning := False\<rparr>"

text \<open>\<open>std::thread::join\<close>: \<open>Join_null\<close> is the call through a null pointer, \<open>Join_blocked\<close> still waits.\<close>

datatype join_error = Join_null | Join_system_error | Join_blocked

definition join :: "LogicHandler \<Rightarrow> join_error + LogicHandler" where
  "join h =
     (case mThread h of
        None \<Rightarrow> Inl Join_null
      | Some Joined \<Rightarrow> Inl Join_system_error
      | Some Exited \<Rightarrow> Inr (h\<lparr>mThread := Some Joined\<rparr>)
      | Some _ \<Rightarrow> Inl Join_blocked)"

text \<open>The first half of \<open>stopAndWait\<close> and of the destructor stops, the second half joins.\<close>

definition stopAndWait_join :: "LogicHandler \<Rightarrow> join_error + LogicHandler" where
  "stopAndWait_join h = join h"

definition joinable :: "LogicHandler \<Rightarrow> bool" where
  "joinable h = (mThread h \<noteq> None \<and> mThread h \<noteq> Some Joined)"

definition destructor_stop :: "LogicHandler \<Rightarrow> LogicHandler" where
  "destructor_stop h = (if joinable h then stop h else h)"

definition destructor_join :: "LogicHandler \<Rightarrow> join_error + LogicHandler" where
  "destructor_join h = (if joinable h then bindE (join h) (\<lambda>h'. Inr (h'\<lparr>mThread := None\<rparr>)) else Inr h)"

subsection \<open>Lemmas on the map\<close>

lemma map_insert_props:
  "distinct (map fst m) \<Longrightarrow> distinct (map fst (map_insert k s m))"
  "map_of (map_insert k s m) = (if map_of m k = None then (map_of m)(k \<mapsto> s) else map_of m)"
  "length (map_insert k s m) \<le> length m + 1"
proof -
  show "distinct (map fst m) \<Longrightarrow> distinct (map fst (map_insert k s m))"
    by (auto simp: map_insert_def map_of_eq_None_iff split: option.splits)
qed (simp_all add: map_insert_def split: option.splits)

lemma map_erase_props:
  "distinct (map fst m) \<Longrightarrow> distinct (map fst (map_erase k m))"
  "map_of (map_erase k m) = (map_of m)(k := None)"
  "length (map_erase k m) \<le> length m"
proof -
  show "distinct (map fst m) \<Longrightarrow> distinct (map fst (map_erase k m))" "length (map_erase k m) \<le> length m"
    by (simp_all add: map_erase_def distinct_map_filter)
  show "map_of (map_erase k m) = (map_of m)(k := None)"
    unfolding map_erase_def by (induction m) auto
qed

lemma map_set_code_props:
  "map fst (map_set_code k c m) = map fst m"
  "map_of (map_set_code k c m) = (case map_of m k of None \<Rightarrow> map_of m | Some s \<Rightarrow> (map_of m)(k \<mapsto> s\<lparr>ioCode := c\<rparr>))"
  "length (map_set_code k c m) = length m"
proof -
  show "map fst (map_set_code k c m) = map fst m" "length (map_set_code k c m) = length m"
    by (simp_all add: map_set_code_def)
  show "map_of (map_set_code k c m) = (case map_of m k of None \<Rightarrow> map_of m | Some s \<Rightarrow> (map_of m)(k \<mapsto> s\<lparr>ioCode := c\<rparr>))"
    unfolding map_set_code_def by (induction m) (auto split: option.splits)
qed

lemmas map_props = map_insert_props map_erase_props map_set_code_props

subsection \<open>The responses of one handler\<close>

definition codes_for :: "ptr \<Rightarrow> LogicHandlerResponse list \<Rightarrow> ResponseCode list" where
  "codes_for k rs = map code (filter (\<lambda>r. rHandler r = k) rs)"

text \<open>What the responses should do to a request: an error or the end removes it, otherwise the last code counts.\<close>

definition after_codes :: "ResponseCode list \<Rightarrow> LogicHandlerRequestStage \<Rightarrow> LogicHandlerRequestStage option" where
  "after_codes cs s =
     (if Code_Error \<in> set cs \<or> Code_Terminated \<in> set cs then None
      else if cs = [] then Some s
      else Some (s\<lparr>ioCode := last cs\<rparr>))"

lemma handle_response_distinct [inv_intros]: "distinct (map fst m) \<Longrightarrow> distinct (map fst (handle_response r m))"
  by (simp add: handle_response_def Let_def map_props)

lemma handle_response_length: "length (handle_response r m) \<le> length m"
proof -
  have "length (map_erase k (map_erase k m)) \<le> length m" for k
    using map_erase_props(3) [of k "map_erase k m"] map_erase_props(3) [of k m] by linarith
  then show ?thesis by (auto simp: handle_response_def Let_def map_props)
qed

lemma handle_response_map:
  "map_of (handle_response r m) k
    = (if rHandler r \<noteq> k then map_of m k else Option.bind (map_of m k) (after_codes [code r]))"
  by (cases "code r"; cases "map_of m k") (auto simp: handle_response_def Let_def map_props after_codes_def split: option.splits)

lemma after_codes_Cons: "after_codes (c # cs) s = Option.bind (after_codes [c] s) (after_codes cs)"
  by (auto simp: after_codes_def)

lemma fold_responses_map: "map_of (fold handle_response rs m) k = Option.bind (map_of m k) (after_codes (codes_for k rs))"
proof (induction rs arbitrary: m)
  case Nil
  show ?case by (cases "map_of m k") (simp_all add: codes_for_def after_codes_def)
next
  case (Cons r rs)
  then show ?case
    using after_codes_Cons [of "code r" "codes_for k rs"]
    by (cases "map_of m k") (auto simp: handle_response_map codes_for_def)
qed

lemma fold_responses_props:
  "distinct (map fst m) \<Longrightarrow> distinct (map fst (fold handle_response rs m))"
  "length (fold handle_response rs m) \<le> length m"
proof -
  show "distinct (map fst m) \<Longrightarrow> distinct (map fst (fold handle_response rs m))"
    by (induction rs arbitrary: m) (simp_all add: handle_response_distinct)
  show "length (fold handle_response rs m) \<le> length m"
  proof (induction rs arbitrary: m)
    case (Cons r rs)
    show ?case using Cons.IH [of "handle_response r m"] handle_response_length [of r m] by simp
  qed simp
qed

text \<open>If only thread \<open>t\<close> sent responses for a handler, their order is that of its lane.\<close>

lemma codes_for_lane:
  assumes "length tags = length xs" "\<forall>u. lane u = picked u tags xs" "\<forall>u. u \<noteq> t \<longrightarrow> codes_for k (lane u) = []"
  shows "codes_for k xs = codes_for k (lane t)"
proof -
  have "codes_for k xs = codes_for k (picked t tags xs)" if "\<forall>u. u \<noteq> t \<longrightarrow> codes_for k (picked u tags xs) = []"
    using assms(1) that
  proof (induction tags xs rule: list_induct2)
    case (Cons u us x xs)
    have "codes_for k (picked v us xs) = []" if "v \<noteq> t" for v
      using Cons.prems [rule_format, OF that] by (simp add: codes_for_def split: if_splits)
    moreover have "u = t \<or> rHandler x \<noteq> k" using Cons.prems [rule_format, of u] by (auto simp: codes_for_def)
    ultimately show ?case using Cons.IH by (auto simp: codes_for_def)
  qed (simp add: codes_for_def)
  moreover have p: "picked u tags xs = lane u" for u using assms(2) by simp
  ultimately show ?thesis using assms(3) unfolding p by blast
qed

subsection \<open>The body of the loop\<close>

definition handler_inv :: "LogicHandler \<Rightarrow> bool" where
  "handler_inv h \<longleftrightarrow> cq_inv (mResponseQueue h) \<and> distinct (map fst (mRequestMap h))
     \<and> length (mRequestMap h) \<le> 128 \<and> mMaxRequest h = 128 \<and> 0 \<le> mWaitDurationBusy h \<and> 0 \<le> mWaitDurationIdle h"

lemma full_iff: "handler_inv h \<Longrightarrow> of_nat (length (mRequestMap h)) < mMaxRequest h \<longleftrightarrow> length (mRequestMap h) < 128"
  unfolding handler_inv_def by (simp add: word_less_nat_alt unat_of_nat)

lemma executor_body_room:
  assumes inv: "handler_inv h" "cq_inv q" and room: "length (mRequestMap h) < 128" and some: "granted \<longrightarrow> cq_bag q \<noteq> {#}"
  shows "\<exists>taken q' qr rs tags m'. executor_body granted q h = Some (Inr (q', h\<lparr>mResponseQueue := qr, mRequestMap := m'\<rparr>))
    \<and> cq_inv q' \<and> cq_bag q = cq_bag q' + (case taken of None \<Rightarrow> {#} | Some r \<Rightarrow> {#r#}) \<and> (granted \<longleftrightarrow> taken \<noteq> None)
    \<and> m' = fold handle_response rs (case taken of None \<Rightarrow> mRequestMap h
        | Some r \<Rightarrow> map_insert (ioHandler r) (LogicHandlerRequestStage_new r 100000 100) (mRequestMap h))
    \<and> handler_inv (h\<lparr>mResponseQueue := qr, mRequestMap := m'\<rparr>)
    \<and> (\<forall>t. cq_lane qr t = []) \<and> mset rs = cq_bag (mResponseQueue h)
    \<and> length tags = length rs \<and> (\<forall>t. cq_lane (mResponseQueue h) t = picked t tags rs)"
proof -
  have "0 \<le> wait_usecs h" using inv(1) by (simp add: wait_usecs_def handler_inv_def)
  then have "\<exists>taken q'. wait_request granted (wait_usecs h) q = Some (Inr (taken, q')) \<and> cq_inv q'
    \<and> cq_bag q = cq_bag q' + (case taken of None \<Rightarrow> {#} | Some r \<Rightarrow> {#r#}) \<and> (granted \<longleftrightarrow> taken \<noteq> None)"
    using cq_dequeue_bag [OF inv(2)] inv(2) some by (auto simp: wait_request_def split: option.splits)
  then obtain taken q' where w: "wait_request granted (wait_usecs h) q = Some (Inr (taken, q'))" "cq_inv q'"
    "cq_bag q = cq_bag q' + (case taken of None \<Rightarrow> {#} | Some r \<Rightarrow> {#r#})" "granted \<longleftrightarrow> taken \<noteq> None"
    by (elim exE conjE) (rule that; assumption)
  define m where "m = (case taken of None \<Rightarrow> mRequestMap h
        | Some r \<Rightarrow> map_insert (ioHandler r) (LogicHandlerRequestStage_new r 100000 100) (mRequestMap h))"
  have ri: "cq_inv (mResponseQueue h)" using inv by (simp add: handler_inv_def)
  from cq_drain [OF ri, of handle_response m]
  obtain qr rs tags where d: "drain cq_try_dequeue handle_response (mResponseQueue h) m = Some (Inr (qr, fold handle_response rs m))"
    "cq_inv qr" "\<forall>t. cq_lane qr t = []" "mset rs = cq_bag (mResponseQueue h)" "length tags = length rs"
    "\<forall>t. cq_lane (mResponseQueue h) t = picked t tags rs"
    by (elim exE conjE) (rule that; assumption)
  have m: "distinct (map fst m)" "length m \<le> 128"
    using inv(1) room map_insert_props(1) [where m = "mRequestMap h"] order_trans [OF map_insert_props(3) [where m = "mRequestMap h"], of 128]
    unfolding m_def handler_inv_def by (auto split: option.splits)
  have "handler_inv (h\<lparr>mResponseQueue := qr, mRequestMap := fold handle_response rs m\<rparr>)"
    using inv(1) d(2) fold_responses_props(1) [OF m(1)] order_trans [OF fold_responses_props(2) m(2)] by (simp add: handler_inv_def)
  moreover have "executor_body granted q h = Some (Inr (q', h\<lparr>mResponseQueue := qr, mRequestMap := fold handle_response rs m\<rparr>))"
    using room full_iff [OF inv(1)] w(1) d(1) by (simp add: executor_body_def Let_def m_def process_requests_def)
  ultimately show ?thesis using w(2-4) d(3-6) unfolding m_def by (intro exI conjI) (assumption | rule refl)+
qed

text \<open>A wait that was granted while the queue is empty keeps the thread in the wait.\<close>

lemma executor_body_waits:
  assumes inv: "handler_inv h" "cq_inv q" and room: "length (mRequestMap h) < 128" and empty: "cq_bag q = {#}"
  shows "executor_body True q h = None"
proof -
  obtain q' where "cq_try_dequeue q = Inr (None, q')" using cq_dequeue_bag [OF inv(2)] empty by (auto split: option.splits)
  then show ?thesis using full_iff [OF inv(1)] room by (simp add: executor_body_def wait_request_def)
qed

lemma executor_body_full:
  "handler_inv h \<Longrightarrow> length (mRequestMap h) = 128 \<Longrightarrow> executor_body granted q h = Some (Inr (q, h))"
  using full_iff [of h] unfolding executor_body_def by simp

lemma LogicHandler_new_inv: "handler_inv (LogicHandler_new malloc_ok)"
  by (simp add: handler_inv_def LogicHandler_new_def cq_new_bag)

lemma executor_body_keeps:
  assumes "handler_inv h" "cq_inv q" "granted \<longrightarrow> cq_bag q \<noteq> {#}"
  shows "\<exists>q' h'. executor_body granted q h = Some (Inr (q', h')) \<and> handler_inv h' \<and> cq_inv q'
    \<and> mIsRunning h' = mIsRunning h \<and> mThread h' = mThread h"
proof (cases "length (mRequestMap h) < 128")
  case True
  from executor_body_room [OF assms(1,2) this assms(3)] show ?thesis
    by (elim exE conjE) (intro exI conjI, assumption, assumption, assumption, simp_all)
next
  case False
  then have "length (mRequestMap h) = 128" using assms(1) by (simp add: handler_inv_def)
  then show ?thesis using executor_body_full [OF assms(1)] assms by blast
qed

subsection \<open>Properties\<close>

text \<open>
  C16: one pass of the worker. With room in its map, a pass of the loop whose wait timed out, or was granted with a request in the
  queue, ends; it takes a request out of the queue exactly when the wait was granted and inserts it, empties the response queue and leaves for
  every request exactly what its responses ask for: a request with an error or an end among its responses is gone,
  any other has the code of its last response. The responses of the handler in question were sent by one thread, its event base.
\<close>

theorem responses_applied:
  assumes "handler_inv h" "cq_inv q" "length (mRequestMap h) < 128" "granted \<longrightarrow> cq_bag q \<noteq> {#}"
    and "\<forall>u. u \<noteq> t \<longrightarrow> codes_for k (cq_lane (mResponseQueue h) u) = []"
  shows "\<exists>taken q' h'. executor_body granted q h = Some (Inr (q', h')) \<and> handler_inv h' \<and> cq_size_approx (mResponseQueue h') = Inr 0
    \<and> (granted \<longleftrightarrow> taken \<noteq> None) \<and> cq_bag q = cq_bag q' + (case taken of None \<Rightarrow> {#} | Some r \<Rightarrow> {#r#})
    \<and> map_of (mRequestMap h') k = Option.bind
        (map_of (case taken of None \<Rightarrow> mRequestMap h
           | Some r \<Rightarrow> map_insert (ioHandler r) (LogicHandlerRequestStage_new r 100000 100) (mRequestMap h)) k)
        (after_codes (codes_for k (cq_lane (mResponseQueue h) t)))"
proof -
  from executor_body_room [OF assms(1-4)]
  obtain taken q' qr rs tags m' where b: "executor_body granted q h = Some (Inr (q', h\<lparr>mResponseQueue := qr, mRequestMap := m'\<rparr>))"
    "granted \<longleftrightarrow> taken \<noteq> None"
    "m' = fold handle_response rs (case taken of None \<Rightarrow> mRequestMap h
        | Some r \<Rightarrow> map_insert (ioHandler r) (LogicHandlerRequestStage_new r 100000 100) (mRequestMap h))"
    "handler_inv (h\<lparr>mResponseQueue := qr, mRequestMap := m'\<rparr>)" "\<forall>t. cq_lane qr t = []"
    "length tags = length rs" "\<forall>t. cq_lane (mResponseQueue h) t = picked t tags rs"
    "cq_bag q = cq_bag q' + (case taken of None \<Rightarrow> {#} | Some r \<Rightarrow> {#r#})"
    by (elim exE conjE) (rule that; assumption)
  have "cq_size_approx qr = Inr 0" using b(4,5) cq_size_lanes [of qr] by (simp add: handler_inv_def)
  then show ?thesis
    using b codes_for_lane [OF b(6,7) assms(5)]
    by (intro exI [of _ taken] exI [of _ q'] exI [of _ "h\<lparr>mResponseQueue := qr, mRequestMap := m'\<rparr>"]) (simp add: fold_responses_map)
qed

text \<open>A queue with one element, from thread 64.\<close>

lemma one_element_queue:
  fixes x :: 'a
  shows "\<exists>q. cq_inv q \<and> cq_lane q 64 = [x] \<and> (\<forall>u. u \<noteq> 64 \<longrightarrow> cq_lane q u = []) \<and> cq_bag q = {#x#}"
proof -
  let ?env = "(64, (True, True, True), True, True) :: cq_env" and ?q = "ConcurrentQueue_new True 32 :: 'a cqueue"
  have env: "env_valid ?env" "env_all_ok ?env" by (simp_all add: env_valid_def env_all_ok_def invalid_thread_id_def)
  obtain q where q: "cq_enqueue ?env x ?q = Inr (True, q)" using cq_new_accepts [OF env, of x True 32] by blast
  have "cq_lane ?q t = []" for t by (simp add: ConcurrentQueue_new_def cqueue_new_lane)
  moreover have "env_thread ?env = 64" by (simp add: env_thread_def)
  moreover have "cq_bag q = {#x#}" using cq_enqueue_bag [OF cq_new_bag(2) env(1), of x True 32] q cq_new_bag(1) [of True 32] by auto
  ultimately show ?thesis using cqf.enq_lane [OF cq_new_bag(2) env(1), of x True 32] q by (intro exI [of _ q]) auto
qed

theorem responses_applied_witness:
  "\<exists>q h q' h'. mRequestMap h = [] \<and> executor_body True q h = Some (Inr (q', h')) \<and> cq_bag q' = {#}
    \<and> map_option ioCode (map_of (mRequestMap h') (Some 5)) = Some Code_Paused"
proof -
  obtain rs where rs: "cq_inv rs" "cq_lane rs 64 = [LogicHandlerResponse_new Code_Paused (Some 5)]" "\<forall>u. u \<noteq> 64 \<longrightarrow> cq_lane rs u = []"
    using one_element_queue [of "LogicHandlerResponse_new Code_Paused (Some 5)"] by (elim exE conjE) (rule that; assumption)
  let ?r = "LogicHandlerRequest_new (StopTimer_new 0) (Some 5)"
  obtain q where q: "cq_inv q" "cq_bag q = {#?r#}" using one_element_queue [of ?r] by (elim exE conjE) (rule that; assumption)
  let ?h = "(LogicHandler_new True)\<lparr>mResponseQueue := rs\<rparr>"
  have h: "handler_inv ?h" "length (mRequestMap ?h) < 128" "True \<longrightarrow> cq_bag q \<noteq> {#}"
    using rs(1) q(2) by (simp_all add: handler_inv_def LogicHandler_new_def)
  have "\<forall>u. u \<noteq> 64 \<longrightarrow> codes_for (Some 5) (cq_lane (mResponseQueue ?h) u) = []" using rs(3) by (simp add: codes_for_def)
  from responses_applied [OF h(1) q(1) h(2,3) this]
  obtain taken q' h' where b: "executor_body True q ?h = Some (Inr (q', h'))" "True \<longleftrightarrow> taken \<noteq> None"
    "cq_bag q = cq_bag q' + (case taken of None \<Rightarrow> {#} | Some r \<Rightarrow> {#r#})"
    "map_of (mRequestMap h') (Some 5) = Option.bind
        (map_of (case taken of None \<Rightarrow> mRequestMap ?h
           | Some r \<Rightarrow> map_insert (ioHandler r) (LogicHandlerRequestStage_new r 100000 100) (mRequestMap ?h)) (Some 5))
        (after_codes (codes_for (Some 5) (cq_lane (mResponseQueue ?h) 64)))"
    by (elim exE conjE) (rule that; assumption)
  obtain r where r: "taken = Some r" using b(2) by auto
  then have "r = ?r" "cq_bag q' = {#}" using b(3) q(2) by (simp_all add: add_eq_conv_ex single_is_union)
  then show ?thesis using b(1,4) r rs(2)
    by (intro exI [of _ q] exI [of _ ?h] exI [of _ q'] exI [of _ h'])
      (simp add: codes_for_def after_codes_def LogicHandlerResponse_new_def LogicHandlerRequest_new_def LogicHandler_new_def map_insert_def)
qed

text \<open>
  C24: \<open>stop\<close> is not lost. From every point of the loop, once the flag is cleared the thread leaves the loop at the next
  head: at most one body is still run (its wait timed out, or was granted with a request in the queue), and then \<open>join\<close> returns.
\<close>

theorem stop_not_lost:
  assumes "handler_inv h" "cq_inv q" "mThread h = Some At_head \<or> mThread h = Some In_body" "g1 \<longrightarrow> cq_bag q \<noteq> {#}"
  shows "\<exists>q1 h1 q2 h2. executor_step g1 q (stop h) = Some (Inr (q1, h1)) \<and> executor_step g2 q1 h1 = Some (Inr (q2, h2))
    \<and> mThread h2 = Some Exited \<and> join h2 = Inr (h2\<lparr>mThread := Some Joined\<rparr>)"
  using assms(3)
proof
  assume "mThread h = Some At_head"
  then show ?thesis by (simp add: executor_step_def executor_head_def test_and_set_def stop_def join_def)
next
  assume t: "mThread h = Some In_body"
  have "handler_inv (stop h)" using assms(1) by (simp add: handler_inv_def stop_def)
  from executor_body_keeps [OF this assms(2,4)]
  obtain q1 h1 where b: "executor_body g1 q (stop h) = Some (Inr (q1, h1))" "mIsRunning h1 = mIsRunning (stop h)" by blast
  then have "executor_step g1 q (stop h) = Some (Inr (q1, h1\<lparr>mThread := Some At_head\<rparr>))" using t by (simp add: executor_step_def stop_def)
  then show ?thesis using b(2) by (simp add: executor_step_def executor_head_def test_and_set_def stop_def join_def)
qed

theorem stop_not_lost_witness:
  "\<exists>h q q1 h1 q2 h2. mThread h = Some In_body \<and> cq_bag q \<noteq> {#} \<and> executor_step True q (stop h) = Some (Inr (q1, h1))
    \<and> executor_step False q1 h1 = Some (Inr (q2, h2)) \<and> mThread h2 = Some Exited"
proof -
  let ?r = "LogicHandlerRequest_new (StopTimer_new 0) (Some 5)"
  obtain q where q: "cq_inv q" "cq_bag q = {#?r#}" using one_element_queue [of ?r] by (elim exE conjE) (rule that; assumption)
  let ?h = "executor_head (start_handler True (LogicHandler_new True))"
  have h: "handler_inv ?h" using LogicHandler_new_inv [of True]
    by (simp add: handler_inv_def start_handler_def executor_head_def test_and_set_def split: option.split)
  have t: "mThread ?h = Some In_body" by (simp add: start_handler_def LogicHandler_new_def executor_head_def test_and_set_def)
  have ne: "cq_bag q \<noteq> {#}" using q(2) by simp
  then have "True \<longrightarrow> cq_bag q \<noteq> {#}" by simp
  from stop_not_lost [OF h q(1) disjI2 [OF t] this, of False]
  obtain q1 h1 q2 h2 where s: "executor_step True q (stop ?h) = Some (Inr (q1, h1))" "executor_step False q1 h1 = Some (Inr (q2, h2))"
    "mThread h2 = Some Exited" by (elim exE conjE) (rule that; assumption)
  have "mThread ?h = Some In_body \<and> cq_bag q \<noteq> {#} \<and> executor_step True q (stop ?h) = Some (Inr (q1, h1))
    \<and> executor_step False q1 h1 = Some (Inr (q2, h2)) \<and> mThread h2 = Some Exited" using t ne s by (intro conjI)
  then show ?thesis by (intro exI)
qed

end
