(* ===== verification/Server.thy ===== *)
theory Server
  imports LogicHandler
begin

text \<open>
  \<open>source/server/main.cpp\<close>: the server put together. One request queue, four logic handlers, and one I/O handler for every HTTP
  request; addresses of I/O handlers are positions in \<open>handlers\<close> (they are never deleted). proxygen calls the handlers;
  its callbacks, the passes of the workers and calls of \<open>stop\<close> happen in any order. As proxygen documents, \<open>onEOM\<close> comes at
  most once for a handler. \<open>setResponseQueue\<close> is never called, so no step stands for it. \<open>eoms\<close> and \<open>sent\<close> are history: the
  handlers whose \<open>onEOM\<close> came, and the requests that the queue accepted. A crash (an \<open>onEOM\<close> that gets the memory for a new
  sub-queue of its thread but not for its block index) ends the run: it is no step.
\<close>

record ('m, 'b) server =
  handlers :: "('m, 'b) IOHandler list"
  requests :: "LogicHandlerRequest cqueue"
  workers :: "LogicHandler list"
  eoms :: "nat list"
  sent :: "LogicHandlerRequest list"

definition server_main :: "bool \<Rightarrow> ('m, 'b) server" where
  "server_main malloc_ok =
     \<lparr>handlers = [], requests = ConcurrentQueue_new malloc_ok 256,
      workers = replicate 4 (start_handler True (LogicHandler_new malloc_ok)), eoms = [], sent = []\<rparr>"

definition server_factory :: IOHandlerFactory where
  "server_factory = \<lparr>mQueue = True, factoryEventBase = None\<rparr>"

definition eom_request :: "int \<Rightarrow> nat \<Rightarrow> LogicHandlerRequest" where
  "eom_request now this = LogicHandlerRequest_new (StopTimer_new now) (Some this)"

definition eom_accepted :: "cq_env \<Rightarrow> int \<Rightarrow> nat \<Rightarrow> LogicHandlerRequest cqueue \<Rightarrow> bool" where
  "eom_accepted env now this q = (case cq_enqueue env (eom_request now this) q of Inl _ \<Rightarrow> False | Inr (ok, _) \<Rightarrow> ok)"

definition response_queues :: "('m, 'b) server \<Rightarrow> nat \<Rightarrow> LogicHandlerResponse cqueue" where
  "response_queues st k = mResponseQueue (workers st ! k)"

definition set_response_queues :: "(nat \<Rightarrow> LogicHandlerResponse cqueue) \<Rightarrow> LogicHandler list \<Rightarrow> LogicHandler list" where
  "set_response_queues rs ws = map (\<lambda>k. (ws ! k)\<lparr>mResponseQueue := rs k\<rparr>) [0..<length ws]"

inductive server_step :: "('b \<Rightarrow> 'b \<Rightarrow> 'b) \<Rightarrow> ('m, 'b) server \<Rightarrow> ('m, 'b) server \<Rightarrow> bool" for prependChain where
  accept: "server_step prependChain st (st\<lparr>handlers := handlers st @ [factory_onRequest eb (onServerStart eb server_factory)]\<rparr>)"
| headers: "a < length (handlers st) \<Longrightarrow>
    server_step prependChain st (st\<lparr>handlers := (handlers st)[a := onRequest m (handlers st ! a)]\<rparr>)"
| body: "a < length (handlers st) \<Longrightarrow>
    server_step prependChain st (st\<lparr>handlers := (handlers st)[a := onBody prependChain b (handlers st ! a)]\<rparr>)"
| eom: "a < length (handlers st) \<Longrightarrow> a \<notin> set (eoms st) \<Longrightarrow> env_thread env \<noteq> invalid_thread_id \<Longrightarrow>
    onEOM env now a (handlers st ! a) (requests st) = Inr q \<Longrightarrow>
    server_step prependChain st (st\<lparr>requests := q, eoms := a # eoms st,
      sent := (if eom_accepted env now a (requests st) then eom_request now a # sent st else sent st)\<rparr>)"
| notify: "a < length (handlers st) \<Longrightarrow> env_thread env \<noteq> invalid_thread_id \<Longrightarrow>
    notify env a n (handlers st ! a) (response_queues st) = Inr (h, rs) \<Longrightarrow>
    server_step prependChain st (st\<lparr>handlers := (handlers st)[a := h], workers := set_response_queues rs (workers st)\<rparr>)"
| work: "k < length (workers st) \<Longrightarrow> executor_step granted (requests st) (workers st ! k) = Some (Inr (q, w)) \<Longrightarrow>
    server_step prependChain st (st\<lparr>requests := q, workers := (workers st)[k := w]\<rparr>)"
| stop: "k < length (workers st) \<Longrightarrow> server_step prependChain st (st\<lparr>workers := (workers st)[k := stop (workers st ! k)]\<rparr>)"

inductive server_reachable :: "('b \<Rightarrow> 'b \<Rightarrow> 'b) \<Rightarrow> bool \<Rightarrow> ('m, 'b) server \<Rightarrow> bool" for prependChain malloc_ok where
  init: "server_reachable prependChain malloc_ok (server_main malloc_ok)"
| step: "server_reachable prependChain malloc_ok st \<Longrightarrow> server_step prependChain st st' \<Longrightarrow> server_reachable prependChain malloc_ok st'"

subsection \<open>Where the requests are\<close>

definition map_requests :: "RequestMap \<Rightarrow> LogicHandlerRequest multiset" where
  "map_requests m = mset (map (\<lambda>p. request (snd p)) m)"

definition held_requests :: "LogicHandler list \<Rightarrow> LogicHandlerRequest multiset" where
  "held_requests ws = sum_list (map (\<lambda>w. map_requests (mRequestMap w)) ws)"

definition keyed :: "RequestMap \<Rightarrow> bool" where
  "keyed m \<longleftrightarrow> (\<forall>p \<in> set m. fst p = ioHandler (request (snd p)))"

definition worker_ok :: "LogicHandler \<Rightarrow> bool" where
  "worker_ok w \<longleftrightarrow> handler_inv w \<and> cq_bag (mResponseQueue w) = {#} \<and> keyed (mRequestMap w)"

definition io_ok :: "('m, 'b) IOHandler \<Rightarrow> bool" where
  "io_ok h \<longleftrightarrow> ioRequestQueue h \<and> ioResponseQueue h = None"

definition server_inv :: "('m, 'b) server \<Rightarrow> bool" where
  "server_inv st \<longleftrightarrow> cq_inv (requests st) \<and> (\<forall>w \<in> set (workers st). worker_ok w) \<and> (\<forall>h \<in> set (handlers st). io_ok h)
     \<and> length (workers st) = 4 \<and> distinct (map ioHandler (sent st)) \<and> set (map ioHandler (sent st)) \<subseteq> Some ` set (eoms st)
     \<and> mset (sent st) = cq_bag (requests st) + held_requests (workers st)"

lemma held_upd: "k < length ws \<Longrightarrow> held_requests (ws[k := w]) + map_requests (mRequestMap (ws ! k)) = held_requests ws + map_requests (mRequestMap w)"
proof (induction ws arbitrary: k)
  case (Cons x ws)
  then show ?case by (cases k) (auto simp: held_requests_def add.assoc add.left_commute)
qed simp

lemma held_member: "k < length ws \<Longrightarrow> map_requests (mRequestMap (ws ! k)) \<subseteq># held_requests ws"
proof (induction ws arbitrary: k)
  case (Cons x ws)
  then show ?case by (cases k) (auto simp: held_requests_def intro: subset_mset.add_increasing)
qed simp

text \<open>One pass of a worker that got no responses.\<close>

lemma worker_body:
  assumes "worker_ok w" "cq_inv q"
    and fresh: "\<And>r p. r \<in># cq_bag q \<Longrightarrow> p \<in> set (mRequestMap w) \<Longrightarrow> fst p \<noteq> ioHandler r"
    and some: "granted \<longrightarrow> cq_bag q \<noteq> {#}"
  shows "\<exists>q' w'. executor_body granted q w = Some (Inr (q', w')) \<and> worker_ok w' \<and> cq_inv q'
    \<and> cq_bag q + map_requests (mRequestMap w) = cq_bag q' + map_requests (mRequestMap w')
    \<and> map_requests (mRequestMap w) \<subseteq># map_requests (mRequestMap w')"
proof (cases "length (mRequestMap w) < 128")
  case False
  have inv: "handler_inv w" using assms(1) by (simp add: worker_ok_def)
  then have "length (mRequestMap w) = 128" using False by (simp add: handler_inv_def)
  then show ?thesis using executor_body_full [OF inv] assms by blast
next
  case True
  have inv: "handler_inv w" "cq_bag (mResponseQueue w) = {#}" "keyed (mRequestMap w)" using assms(1) by (simp_all add: worker_ok_def)
  from executor_body_room [OF inv(1) assms(2) True some]
  obtain taken q' qr rs m' where b: "executor_body granted q w = Some (Inr (q', w\<lparr>mResponseQueue := qr, mRequestMap := m'\<rparr>))" "cq_inv q'"
    "cq_bag q = cq_bag q' + (case taken of None \<Rightarrow> {#} | Some r \<Rightarrow> {#r#})"
    "m' = fold handle_response rs (case taken of None \<Rightarrow> mRequestMap w
        | Some r \<Rightarrow> map_insert (ioHandler r) (LogicHandlerRequestStage_new r 100000 100) (mRequestMap w))"
    "handler_inv (w\<lparr>mResponseQueue := qr, mRequestMap := m'\<rparr>)" "\<forall>t. cq_lane qr t = []" "mset rs = cq_bag (mResponseQueue w)"
    by (elim exE conjE) (rule that; assumption)
  have "rs = []" using b(7) inv(2) by simp
  then have m': "m' = (case taken of None \<Rightarrow> mRequestMap w
      | Some r \<Rightarrow> (ioHandler r, LogicHandlerRequestStage_new r 100000 100) # mRequestMap w)"
  proof (cases taken)
    case (Some r)
    have "map_of (mRequestMap w) (ioHandler r) = None"
      using fresh [of r] b(3) Some unfolding map_of_eq_None_iff by fastforce
    then show ?thesis using b(4) Some \<open>rs = []\<close> by (simp add: map_insert_def)
  qed (use b(4) \<open>rs = []\<close> in simp)
  have "cq_bag qr = {#}" using b(6) by (simp add: cq_bag_def lane_bag_empty)
  moreover have "keyed m'" using inv(3) unfolding m' by (auto simp: keyed_def LogicHandlerRequestStage_new_def split: option.splits)
  ultimately have "worker_ok (w\<lparr>mResponseQueue := qr, mRequestMap := m'\<rparr>)" using b(5) by (simp add: worker_ok_def)
  moreover have "cq_bag q + map_requests (mRequestMap w) = cq_bag q' + map_requests m'"
    unfolding m' b(3) by (auto simp: map_requests_def LogicHandlerRequestStage_new_def split: option.splits)
  moreover have "map_requests (mRequestMap w) \<subseteq># map_requests m'" unfolding m' by (auto simp: map_requests_def split: option.splits)
  ultimately show ?thesis using b(1,2) by (intro exI conjI) (assumption | simp)+
qed

lemma worker_step:
  assumes "worker_ok w" "cq_inv q"
    and fresh: "\<And>r p. r \<in># cq_bag q \<Longrightarrow> p \<in> set (mRequestMap w) \<Longrightarrow> fst p \<noteq> ioHandler r"
  shows "(\<exists>q' w'. executor_step granted q w = Some (Inr (q', w')) \<and> worker_ok w' \<and> cq_inv q'
      \<and> cq_bag q + map_requests (mRequestMap w) = cq_bag q' + map_requests (mRequestMap w')
      \<and> map_requests (mRequestMap w) \<subseteq># map_requests (mRequestMap w'))
    \<or> executor_step granted q w = None \<and> granted \<and> cq_bag q = {#}"
proof (cases "mThread w = Some In_body \<and> granted \<and> cq_bag q = {#} \<and> length (mRequestMap w) < 128")
  case True
  have "handler_inv w" using assms(1) by (simp add: worker_ok_def)
  then have "executor_body True q w = None" using executor_body_waits [OF _ assms(2)] True by blast
  then show ?thesis using True by (simp add: executor_step_def)
next
  case waits: False
  have upd: "worker_ok (w'\<lparr>mThread := t, mIsRunning := b\<rparr>) = worker_ok w'" "worker_ok (w'\<lparr>mThread := t\<rparr>) = worker_ok w'" for w' t b
    by (simp_all add: worker_ok_def handler_inv_def)
  have head: "worker_ok (executor_head w)" "mRequestMap (executor_head w) = mRequestMap w"
    using assms(1) by (simp_all add: executor_head_def test_and_set_def worker_ok_def handler_inv_def)
  have body: "\<exists>q' w'. executor_body granted q w = Some (Inr (q', w')) \<and> worker_ok w' \<and> cq_inv q'
    \<and> cq_bag q + map_requests (mRequestMap w) = cq_bag q' + map_requests (mRequestMap w')
    \<and> map_requests (mRequestMap w) \<subseteq># map_requests (mRequestMap w')" if t: "mThread w = Some In_body"
  proof (cases "length (mRequestMap w) < 128")
    case True
    then have "granted \<longrightarrow> cq_bag q \<noteq> {#}" using waits t by simp
    from worker_body [OF assms this] show ?thesis .
  next
    case False
    have inv: "handler_inv w" using assms(1) by (simp add: worker_ok_def)
    then have "length (mRequestMap w) = 128" using False by (simp add: handler_inv_def)
    then show ?thesis using executor_body_full [OF inv] assms(1,2) by blast
  qed
  show ?thesis
  proof (cases "mThread w = Some In_body")
    case True
    then show ?thesis using body by (auto simp: executor_step_def upd)
  next
    case False
    then show ?thesis
      using head assms(1,2) by (auto simp: executor_step_def upd split: option.splits worker.splits)
  qed
qed

lemma worker_step_grows:
  assumes "worker_ok w" "cq_inv q" "\<And>r p. r \<in># cq_bag q \<Longrightarrow> p \<in> set (mRequestMap w) \<Longrightarrow> fst p \<noteq> ioHandler r"
    and "executor_step granted q w = Some (Inr (q', w'))"
  shows "map_requests (mRequestMap w) \<subseteq># map_requests (mRequestMap w')"
  using worker_step [OF assms(1-3), of granted] assms(4) by auto

lemma distinct_split:
  assumes "distinct (map f xs)" "mset xs = A + B" "a \<in># A" "b \<in># B"
  shows "f a \<noteq> f b"
proof
  assume e: "f a = f b"
  obtain A' B' where "A = add_mset a A'" "B = add_mset b B'" using assms(3,4) by (meson multi_member_split)
  then have "mset (map f xs) = add_mset (f a) (add_mset (f a) (image_mset f (A' + B')))" using assms(2) e by simp
  then have "count (mset (map f xs)) (f a) > 1" by simp
  then show False using assms(1) distinct_count_atmost_1 [of "map f xs"] by (auto split: if_splits)
qed

lemma server_fresh:
  assumes "server_inv st" "k < length (workers st)" "r \<in># cq_bag (requests st)" "p \<in> set (mRequestMap (workers st ! k))"
  shows "fst p \<noteq> ioHandler r"
proof -
  have "request (snd p) \<in># map_requests (mRequestMap (workers st ! k))" using assms(4) by (auto simp: map_requests_def)
  then have "request (snd p) \<in># held_requests (workers st)" using held_member [OF assms(2)] by (rule mset_subset_eqD [rotated])
  moreover have "fst p = ioHandler (request (snd p))"
    using assms(1,2,4) nth_mem [OF assms(2)] by (auto simp: server_inv_def worker_ok_def keyed_def)
  ultimately show ?thesis
    using distinct_split [of ioHandler "sent st" "cq_bag (requests st)" "held_requests (workers st)" r "request (snd p)"] assms(1,3)
    unfolding server_inv_def by metis
qed

lemma server_worker_step:
  assumes inv: "server_inv st" and k: "k < length (workers st)"
  shows "(\<exists>q w. executor_step granted (requests st) (workers st ! k) = Some (Inr (q, w))
      \<and> server_inv (st\<lparr>requests := q, workers := (workers st)[k := w]\<rparr>))
    \<or> executor_step granted (requests st) (workers st ! k) = None \<and> granted \<and> cq_bag (requests st) = {#}"
proof (cases "executor_step granted (requests st) (workers st ! k) = None \<and> granted \<and> cq_bag (requests st) = {#}")
  case False
  have ok: "worker_ok (workers st ! k)" "cq_inv (requests st)" using inv nth_mem [OF k] by (auto simp: server_inv_def)
  from worker_step [OF ok server_fresh [OF inv k], of granted] False
  obtain q w where w: "executor_step granted (requests st) (workers st ! k) = Some (Inr (q, w))" "worker_ok w" "cq_inv q"
    "cq_bag (requests st) + map_requests (mRequestMap (workers st ! k)) = cq_bag q + map_requests (mRequestMap w)" by blast
  have "cq_bag q + held_requests ((workers st)[k := w]) + map_requests (mRequestMap (workers st ! k))
      = cq_bag (requests st) + held_requests (workers st) + map_requests (mRequestMap (workers st ! k))"
    using w(4) held_upd [OF k, of w] by (metis add.assoc add.commute)
  then have "cq_bag (requests st) + held_requests (workers st) = cq_bag q + held_requests ((workers st)[k := w])" by simp
  moreover have "\<forall>v \<in> set ((workers st)[k := w]). worker_ok v"
    using set_update_subset_insert [of "workers st" k w] w(2) inv by (auto simp: server_inv_def)
  ultimately show ?thesis using w(1,3) inv by (intro disjI1 exI [of _ q] exI [of _ w]) (simp add: server_inv_def)
qed blast

lemma notify_quiet: "io_ok h \<Longrightarrow> notify env a n h rs = Inr (h\<lparr>mStatus := notification_status n\<rparr>, rs)"
  by (simp add: notify_def handleResponseNotification_def io_ok_def Let_def)

lemma set_response_queues_same: "set_response_queues (response_queues st) (workers st) = workers st"
  unfolding set_response_queues_def response_queues_def by (rule nth_equalityI) simp_all

lemma server_handlers_inv:
  assumes "server_inv st" "io_ok h"
  shows "server_inv (st\<lparr>handlers := (handlers st)[a := h]\<rparr>)"
  using assms set_update_subset_insert [of "handlers st" a h] by (auto simp: server_inv_def)

lemma server_eom:
  assumes inv: "server_inv st" and a: "a < length (handlers st)" "a \<notin> set (eoms st)" and env: "env_valid env"
  shows "\<exists>q. onEOM env now a (handlers st ! a) (requests st) = Inr q
    \<and> server_inv (st\<lparr>requests := q, eoms := a # eoms st,
        sent := (if eom_accepted env now a (requests st) then eom_request now a # sent st else sent st)\<rparr>)"
proof -
  have h: "ioRequestQueue (handlers st ! a)" using inv nth_mem [OF a(1)] by (auto simp: server_inv_def io_ok_def)
  have "cq_inv (requests st)" using inv by (simp add: server_inv_def)
  from cq_enqueue_bag [OF this env, of "eom_request now a"]
  obtain ok q where e: "cq_enqueue env (eom_request now a) (requests st) = Inr (ok, q)" "cq_inv q"
    "cq_bag q = (if ok then add_mset (eom_request now a) (cq_bag (requests st)) else cq_bag (requests st))" by blast
  have on: "onEOM env now a (handlers st ! a) (requests st) = Inr q" using e(1) h by (simp add: onEOM_def eom_request_def)
  have acc: "eom_accepted env now a (requests st) = ok" using e(1) by (simp add: eom_accepted_def)
  have io: "ioHandler (eom_request now a) = Some a" by (simp add: eom_request_def LogicHandlerRequest_new_def)
  have fresh: "Some a \<notin> set (map ioHandler (sent st))" using inv a(2) unfolding server_inv_def by blast
  show ?thesis
    using inv on e(2,3) fresh unfolding acc server_inv_def by (cases ok) (auto simp: io)
qed

text \<open>When the block index of a new sub-queue cannot be allocated, the enqueue crashes, unless the thread has its sub-queue.\<close>

lemma onEOM_index_failure:
  assumes inv: "server_inv st" and a: "a < length (handlers st)" and t: "env_thread env \<noteq> invalid_thread_id"
  shows "onEOM env now a (handlers st ! a) (requests st) = onEOM (index_given env) now a (handlers st ! a) (requests st)
      \<and> eom_accepted env now a (requests st) = eom_accepted (index_given env) now a (requests st)
    \<or> onEOM env now a (handlers st ! a) (requests st) = Inl Cq_null_pointer \<and> \<not> env_valid env"
proof -
  have h: "ioRequestQueue (handlers st ! a)" using inv nth_mem [OF a] by (auto simp: server_inv_def io_ok_def)
  have "cq_inv (requests st)" using inv by (simp add: server_inv_def)
  from cq_enqueue_index_failure [OF this t, of Can_alloc "eom_request now a"] show ?thesis
    using h by (auto simp: onEOM_def eom_accepted_def eom_request_def cq_enqueue_def INITIAL_IMPLICIT_PRODUCER_HASH_SIZE_def)
qed

lemma server_step_inv:
  assumes step: "server_step prependChain st st'" and inv: "server_inv st"
  shows "server_inv st'"
  using step
proof cases
  case (accept eb)
  then show ?thesis
    using inv by (auto simp: server_inv_def io_ok_def factory_onRequest_def onServerStart_def server_factory_def IOHandler_new_def)
next
  case (headers a m)
  have "io_ok (handlers st ! a)" using inv nth_mem [OF headers(2)] by (auto simp: server_inv_def)
  then show ?thesis unfolding headers(1) by (intro server_handlers_inv [OF inv]) (simp add: io_ok_def onRequest_def)
next
  case (body a b)
  have "io_ok (handlers st ! a)" using inv nth_mem [OF body(2)] by (auto simp: server_inv_def)
  then show ?thesis
    unfolding body(1) by (intro server_handlers_inv [OF inv]) (auto simp: io_ok_def onBody_def split: option.splits)
next
  case (eom a env now q)
  have "onEOM env now a (handlers st ! a) (requests st) = onEOM (index_given env) now a (handlers st ! a) (requests st)"
    "eom_accepted env now a (requests st) = eom_accepted (index_given env) now a (requests st)"
    using onEOM_index_failure [OF inv eom(2,4), of now] eom(5) by auto
  then show ?thesis using server_eom [OF inv eom(2,3) index_given_valid [OF eom(4)], of now] eom(1,5) by auto
next
  case (notify a env n h rs)
  have "io_ok (handlers st ! a)" using inv nth_mem [OF notify(2)] by (auto simp: server_inv_def)
  then have h: "h = (handlers st ! a)\<lparr>mStatus := notification_status n\<rparr>" "rs = response_queues st" "io_ok h"
    using notify(4) notify_quiet [of "handlers st ! a" env a n "response_queues st"] by (auto simp: io_ok_def)
  have "st' = st\<lparr>handlers := (handlers st)[a := h]\<rparr>" using notify(1) set_response_queues_same [of st] h(2) by simp
  then show ?thesis using server_handlers_inv [OF inv h(3)] by simp
next
  case (work k granted q w)
  then show ?thesis using server_worker_step [OF inv work(2), of granted] by auto
next
  case (stop k)
  have "worker_ok (workers st ! k)" using inv nth_mem [OF stop(2)] by (auto simp: server_inv_def)
  then have "worker_ok (LogicHandler.stop (workers st ! k))" by (simp add: worker_ok_def handler_inv_def stop_def)
  moreover have "held_requests ((workers st)[k := LogicHandler.stop (workers st ! k)]) = held_requests (workers st)"
    using held_upd [OF stop(2), of "LogicHandler.stop (workers st ! k)"] by (simp add: stop_def)
  ultimately show ?thesis
    using inv set_update_subset_insert [of "workers st" k "LogicHandler.stop (workers st ! k)"] unfolding stop(1)
    by (auto simp: server_inv_def)
qed

lemma server_reachable_inv: "server_reachable prependChain malloc_ok st \<Longrightarrow> server_inv st"
proof (induction rule: server_reachable.induct)
  case init
  have "worker_ok (start_handler True (LogicHandler_new malloc_ok))"
    using LogicHandler_new_inv [of malloc_ok]
    by (auto simp: worker_ok_def start_handler_def keyed_def LogicHandler_new_def handler_inv_def cq_new_bag)
  then show ?case
    by (auto simp: server_inv_def server_main_def cq_new_bag held_requests_def map_requests_def start_handler_def LogicHandler_new_def sum_list_replicate numeral_eq_Suc)
next
  case (step st st')
  then show ?case by (auto intro: server_step_inv)
qed

text \<open>A worker never gives up a request: no step makes the held requests less.\<close>

lemma server_held_grows:
  assumes inv: "server_inv st" and step: "server_step prependChain st st'"
  shows "held_requests (workers st) \<subseteq># held_requests (workers st')"
  using step
proof cases
  case (notify a env n h rs)
  have "io_ok (handlers st ! a)" using inv nth_mem [OF notify(2)] by (auto simp: server_inv_def)
  then have "rs = response_queues st" using notify(4) notify_quiet [of "handlers st ! a" env a n "response_queues st"] by simp
  then show ?thesis using notify(1) set_response_queues_same [of st] by simp
next
  case (work k granted q w)
  have ok: "worker_ok (workers st ! k)" "cq_inv (requests st)" using inv nth_mem [OF work(2)] by (auto simp: server_inv_def)
  have "map_requests (mRequestMap (workers st ! k)) \<subseteq># map_requests (mRequestMap w)"
    using worker_step_grows [OF ok server_fresh [OF inv work(2)] work(3)] .
  then obtain D where D: "map_requests (mRequestMap w) = map_requests (mRequestMap (workers st ! k)) + D"
    unfolding subset_mset.le_iff_add by blast
  have "held_requests ((workers st)[k := w]) = held_requests (workers st) + D"
    using held_upd [OF work(2), of w] unfolding D by (metis add.assoc add.commute add_right_cancel)
  then show ?thesis unfolding work(1) by simp
next
  case (stop k)
  then show ?thesis using held_upd [OF stop(2), of "LogicHandler.stop (workers st ! k)"] by (simp add: stop_def)
qed simp_all

lemma held_bound: "\<forall>w \<in> set ws. length (mRequestMap w) \<le> c \<Longrightarrow> size (held_requests ws) \<le> length ws * c"
  by (induction ws) (auto simp: held_requests_def map_requests_def intro: add_mono)

lemma server_held_bound: "server_inv st \<Longrightarrow> size (held_requests (workers st)) \<le> 512"
  using held_bound [of "workers st" 128] by (auto simp: server_inv_def worker_ok_def handler_inv_def)


lemma eom_reachable:
  "\<exists>st :: (unit, nat list) server. server_reachable (@) True st \<and> sent st = [eom_request 5 0] \<and> length (handlers st) = 1
     \<and> workers st = replicate 4 (start_handler True (LogicHandler_new True))"
proof -
  let ?st = "server_main True :: (unit, nat list) server"
  let ?st1 = "?st\<lparr>handlers := handlers ?st @ [factory_onRequest None (onServerStart None server_factory)]\<rparr>"
  let ?env = "(64, (True, True, True), True, True) :: cq_env"
  have env: "env_valid ?env" "env_all_ok ?env" by (simp_all add: env_valid_def env_all_ok_def invalid_thread_id_def)
  have r1: "server_reachable (@) True ?st1" by (rule server_reachable.step [OF server_reachable.init server_step.accept])
  have l: "0 < length (handlers ?st1)" "(0 :: nat) \<notin> set (eoms ?st1)" by (simp_all add: server_main_def)
  from server_eom [OF server_reachable_inv [OF r1] l env(1), of 5]
  obtain q where q: "onEOM ?env 5 0 (handlers ?st1 ! 0) (requests ?st1) = Inr q" by blast
  have t: "env_thread ?env \<noteq> invalid_thread_id" by (simp add: env_thread_def invalid_thread_id_def)
  have acc: "eom_accepted ?env 5 0 (requests ?st1)"
    using cq_new_accepts [OF env, of "eom_request 5 0" True 256] by (auto simp: eom_accepted_def server_main_def)
  let ?st2 = "?st1\<lparr>requests := q, eoms := 0 # eoms ?st1, sent := eom_request 5 0 # sent ?st1\<rparr>"
  have "server_reachable (@) True ?st2" using server_reachable.step [OF r1 server_step.eom [OF l t q]] acc by simp
  moreover have "sent ?st2 = [eom_request 5 0]" "length (handlers ?st2) = 1" "workers ?st2 = replicate 4 (start_handler True (LogicHandler_new True))"
    by (simp_all add: server_main_def)
  ultimately show ?thesis by blast
qed

text \<open>The first worker has gone into its loop.\<close>

lemma taking_reachable:
  "\<exists>st :: (unit, nat list) server. server_reachable (@) True st \<and> length (workers st) = 4
     \<and> mThread (workers st ! 0) = Some In_body \<and> cq_bag (requests st) = {#eom_request 5 0#}"
proof -
  obtain st :: "(unit, nat list) server" where st: "server_reachable (@) True st" "sent st = [eom_request 5 0]"
    "workers st = replicate 4 (start_handler True (LogicHandler_new True))" using eom_reachable by blast
  let ?w = "executor_head (start_handler True (LogicHandler_new True))" and ?h = "start_handler True (LogicHandler_new True)"
  have t: "mThread ?h = Some At_head" "mThread ?w = Some In_body" "mRequestMap ?h = []"
    by (simp_all add: start_handler_def LogicHandler_new_def executor_head_def test_and_set_def)
  have k: "0 < length (workers st)" "workers st ! 0 = ?h" unfolding st(3) by simp_all
  have x: "executor_step False (requests st) (workers st ! 0) = Some (Inr (requests st, ?w))" using t unfolding k(2) by (simp add: executor_step_def)
  have "server_reachable (@) True (st\<lparr>requests := requests st, workers := (workers st)[0 := ?w]\<rparr>)"
    by (rule server_reachable.step [OF st(1) server_step.work [OF k(1) x]])
  moreover have "held_requests (workers st) = {#}" unfolding st(3) by (simp add: held_requests_def map_requests_def t(3) sum_list_replicate numeral_eq_Suc)
  then have "cq_bag (requests st) = {#eom_request 5 0#}" using server_reachable_inv [OF st(1)] st(2) by (simp add: server_inv_def)
  ultimately show ?thesis using st(3) t(2)
    by (intro exI [of _ "st\<lparr>requests := requests st, workers := (workers st)[0 := ?w]\<rparr>"]) simp
qed

subsection \<open>Properties\<close>

text \<open>
  C4: no request is lost or duplicated between the threads. In every reachable state of the server, every request
  that the queue accepted is in exactly one place: still in the request queue, or in the map of one worker; and no two
  of them belong to the same I/O handler.
\<close>

theorem server_conserves:
  assumes "server_reachable prependChain malloc_ok st"
  shows "mset (sent st) = cq_bag (requests st) + held_requests (workers st) \<and> distinct (map ioHandler (sent st))"
  using server_reachable_inv [OF assms] by (simp add: server_inv_def)

theorem server_conserves_witness:
  "\<exists>st :: (unit, nat list) server. sent st = [eom_request 5 0]
    \<and> cq_bag (requests st) + held_requests (workers st) = {#eom_request 5 0#}"
proof -
  obtain st :: "(unit, nat list) server" where st: "server_reachable (@) True st" "sent st = [eom_request 5 0]"
    using eom_reachable by blast
  then show ?thesis using server_conserves [OF st(1)] by (intro exI [of _ st]) simp
qed

text \<open>
  C15: what can fail. In every reachable state, each worker's next step ends without an error; it does not end (yet) only when its wait was granted
  while the request queue is empty. The \<open>onEOM\<close> of every handler ends without an error, whether or not memory is given, with one exception: when
  the memory for a new sub-queue is given but not that for its block index, it may dereference a null pointer. A notification never fails.
  The calling thread has an identifier that is not 0.
\<close>

theorem server_never_fails:
  assumes "server_reachable prependChain malloc_ok st" "env_thread env \<noteq> invalid_thread_id"
  shows "(\<forall>k < length (workers st). (\<exists>q w. executor_step granted (requests st) (workers st ! k) = Some (Inr (q, w)))
        \<or> executor_step granted (requests st) (workers st ! k) = None \<and> granted \<and> cq_bag (requests st) = {#})
    \<and> (\<forall>a < length (handlers st). a \<notin> set (eoms st) \<longrightarrow> (\<exists>q. onEOM env now a (handlers st ! a) (requests st) = Inr q)
        \<or> onEOM env now a (handlers st ! a) (requests st) = Inl Cq_null_pointer \<and> \<not> env_valid env)
    \<and> (\<forall>a < length (handlers st). \<exists>h rs. notify env a n (handlers st ! a) (response_queues st) = Inr (h, rs))"
proof -
  have inv: "server_inv st" by (rule server_reachable_inv [OF assms(1)])
  have "\<exists>h rs. notify env a n (handlers st ! a) (response_queues st) = Inr (h, rs)" if "a < length (handlers st)" for a
    using notify_quiet [of "handlers st ! a"] inv nth_mem [OF that] by (auto simp: server_inv_def)
  moreover have "(\<exists>q. onEOM env now a (handlers st ! a) (requests st) = Inr q)
      \<or> onEOM env now a (handlers st ! a) (requests st) = Inl Cq_null_pointer \<and> \<not> env_valid env"
    if "a < length (handlers st)" "a \<notin> set (eoms st)" for a
    using server_eom [OF inv that index_given_valid [OF assms(2)], of now] onEOM_index_failure [OF inv that(1) assms(2), of now] by auto
  ultimately show ?thesis using server_worker_step [OF inv, of _ granted] by blast
qed

theorem server_never_fails_witness:
  "\<exists>(st :: (unit, nat list) server) q w. mThread (workers st ! 0) = Some In_body \<and> cq_bag (requests st) = {#eom_request 5 0#}
     \<and> executor_step True (requests st) (workers st ! 0) = Some (Inr (q, w))"
proof -
  obtain st :: "(unit, nat list) server" where st: "server_reachable (@) True st" "length (workers st) = 4"
    "mThread (workers st ! 0) = Some In_body" "cq_bag (requests st) = {#eom_request 5 0#}" using taking_reachable by blast
  have "env_thread (64, (False, False, False), False, False) \<noteq> invalid_thread_id" by (simp add: env_thread_def invalid_thread_id_def)
  note d = server_never_fails [OF st(1) this, THEN conjunct1, rule_format, of 0 True]
  then show ?thesis using st by (intro exI [of _ st]) auto
qed

text \<open>
  C21: requests are never finished. No step of the server takes a request out of the map of a worker: no handler
  has a response queue, so no response ever arrives. Each worker holds at most 128 requests, so after 512 requests the
  server takes none out of the queue any more.
\<close>

theorem server_stops_serving:
  assumes "server_reachable prependChain malloc_ok st" "server_step prependChain st st'"
  shows "held_requests (workers st) \<subseteq># held_requests (workers st') \<and> (\<forall>w \<in> set (workers st). length (mRequestMap w) \<le> 128)
    \<and> length (sent st) \<le> size (cq_bag (requests st)) + 512"
proof -
  have inv: "server_inv st" by (rule server_reachable_inv [OF assms(1)])
  have "size (mset (sent st)) = size (cq_bag (requests st)) + size (held_requests (workers st))"
    using inv unfolding server_inv_def by simp
  then show ?thesis
    using server_held_grows [OF inv assms(2)] server_held_bound [OF inv] inv
    by (auto simp: server_inv_def worker_ok_def handler_inv_def)
qed

theorem server_stops_serving_witness:
  "\<exists>st :: (unit, nat list) server. length (sent st) = 1 \<and> length (sent st) \<le> size (cq_bag (requests st)) + 512"
proof -
  obtain st :: "(unit, nat list) server" where st: "server_reachable (@) True st" "sent st = [eom_request 5 0]"
    using eom_reachable by blast
  from server_stops_serving [OF st(1) server_step.accept] st(2) show ?thesis by (intro exI [of _ st]) simp
qed

end
