(* ===== verification/Spec2Isabelle.thy ===== *)
theory Spec2Isabelle
  imports ScheduleDay IntrusivePtr DataDumpMain QueueTeardown ExplicitBulkPut BlockingRWQueue ObjectPool MemoryStore ThriftOperators Server
begin

text \<open>
  Verification development of ApiPack2, a C++ server that answers HTTP requests from a catalogue database, with its tools and
  its lock-free queues (\<open>source/\<close>).

  \<^bold>\<open>The program.\<close> An HTTP request is handled by an \<open>IOHandler\<close> on an I/O thread of proxygen. It collects the
  headers and the body, and at the end of the message puts a request into the request queue, a
  \<open>BlockingConcurrentQueue\<close>. Four \<open>LogicHandler\<close> threads take requests from that queue into their request maps, apply the responses of their
  own response queues, and are stopped and joined by \<open>main\<close>. The data come from \<open>Datastore\<close>, which lends its one
  \<open>DatastoreIterator\<close> (a PostgreSQL cursor) out through an \<open>intrusive_ptr\<close>; \<open>ThriftConverter\<close> makes objects of the rows,
  and \<open>dataDump\<close> is a tool that runs three queries. The blocking queue is a \<open>ConcurrentQueue\<close> together with a
  \<open>LightweightSemaphore\<close> that counts its elements. The concurrent queue has one sub-queue (\<open>ImplicitProducer\<close>) for every
  thread that enqueues, found in a hash from threads to sub-queues; all sub-queues take their blocks from one pool.

  \<^bold>\<open>Theories and sources.\<close> Every definition carries the name of the function or type it translates.

    \<^item> \<open>Prelude\<close>: sequencing of fallible steps, \<open>bindE\<close>; facts on words and masks; the collections \<open>bits_simps\<close> and \<open>inv_intros\<close>.
    \<^item> \<open>ScheduleDay\<close> (\<open>datastore/ScheduleDay\<close>), \<open>Topics\<close> (\<open>datastore/Topics\<close>), \<open>ConnectionInfo\<close> (\<open>datastore/DatastoreConnectionInfo\<close>),
      \<open>ThriftConverter\<close>, \<open>DatastoreIterator\<close>, \<open>Datastore\<close>: the data layer, over records of the calls of libpq, folly, boost and Thrift.
      \<open>DataDump\<close> and \<open>DataDumpMain\<close> (\<open>tools/dataDump/dataDump.cpp\<close>) compose them.
    \<^item> \<open>IntrusivePtr\<close> (\<open>utils/intrusive_ptr.h\<close>, \<open>utils/IntrusiveTracked.h\<close>): smart pointers over a heap of reference counts.
    \<^item> \<open>ObjectPool\<close> (\<open>utils/ObjectPool.h\<close>), \<open>MemoryStore\<close> (\<open>memorystore/CacheEntry.h\<close>, \<open>memorystore/GridCache.cpp\<close>, \<open>pipeline/Message.h\<close>),
      \<open>Timers\<close> (\<open>utils/StopTimer.h\<close>, \<open>utils/SleepTimer.cpp\<close>), \<open>ThriftOperators\<close> (\<open>thriftHelpers/ThriftModelOperators.cpp\<close>).
    \<^item> \<open>ReaderWriterQueue\<close> and \<open>BlockingRWQueue\<close> (\<open>utils/readerwriterqueue.h\<close>): the single-producer single-consumer queue, a ring of ring buffers.
    \<^item> \<open>QueueUtils\<close>, \<open>BlockPool\<close>, \<open>ImplicitProducer\<close>, \<open>ProducerHash\<close>, \<open>ConcurrentQueue\<close>, \<open>QueueBulk\<close>, \<open>QueueBulkIn\<close>, \<open>QueueBulkPut\<close>,
      \<open>QueueTeardown\<close> (\<open>utils/concurrentqueue.h\<close>): constants and circular comparison; blocks, free list and pool; the sub-queue and its
      block index; the hash; the queue; taking and adding several elements at once; the destructors.
    \<^item> \<open>ExplicitProducer\<close>, \<open>ExplicitFifo\<close>, \<open>ExplicitTeardown\<close>, \<open>ExplicitBulk\<close>, \<open>ExplicitBulkPut\<close> (\<open>utils/concurrentqueue.h\<close>): the sub-queue behind
      a producer token, which keeps its blocks in a circle and takes an empty one again; its contract; its destructor; adding several elements.
    \<^item> \<open>Semaphore\<close> and \<open>BlockingQueue\<close> (\<open>utils/blockingconcurrentqueue.h\<close>): the semaphore and the blocking queue with all interleavings
      of their threads.
    \<^item> \<open>IOHandler\<close> (\<open>handler/IOHandler.cpp\<close>, \<open>handler/IOHandlerFactory.cpp\<close>, the messages), \<open>LogicHandler\<close> (\<open>handler/LogicHandler.cpp\<close>),
      \<open>Server\<close> (\<open>server/main.cpp\<close>): the handlers, the workers, and all interleavings of callbacks, workers and \<open>stop\<close>.
    \<^item> \<open>Fifo\<close> and \<open>Lanes\<close>: the contracts below.

  \<^bold>\<open>State.\<close> A class is a record with the fields of the class. Pointers into one kind of object are positions in the list of those
  objects, \<open>None\<close> is \<open>nullptr\<close>; so aliasing is explicit (a free-list link, the owner of a block, the entry a block index
  points to). Machine integers are words of their width, with wrap-around. A failed \<open>assert\<close>, a null dereference, the read of
  a slot without an object, and a loop that cannot end are error values (\<open>Inl\<close>); the theorems show that they do not occur.
  The success of \<open>malloc\<close> and the choices of a scheduler are arguments.

  \<^bold>\<open>Contracts.\<close> The locale \<open>fifo\<close> (\<open>Fifo\<close>) is the contract of a queue: enqueue appends or refuses, dequeue takes the front. It is interpreted on
  \<open>ReaderWriterQueue\<close> (\<open>rw\<close>) and on the sub-queues (\<open>implicit\<close>, \<open>explicit\<close>). The locale \<open>lanes\<close> is the contract of a queue with many producers, one list for
  every thread; \<open>finite_lanes\<close> extends it by what follows for the multiset of all elements, and \<open>fifo\<close> is a sublocale of \<open>lanes\<close> with one
  thread. Both are interpreted on the concurrent queue (\<open>cq\<close>, \<open>cqf\<close>). \<open>block_source\<close> (\<open>BlockPool\<close>) is the contract of the pool: a block is
  handed out to one owner at a time. \<open>strict_weak_order\<close> (\<open>ThriftOperators\<close>) is what \<open>std::set\<close> requires of a comparison, met by every operator for the field that it reads.

  \<^bold>\<open>Lemmas.\<close> Each component has a representation predicate or an invariant: \<open>pool_rep\<close> (which blocks are free), \<open>index_rep\<close> (the block index
  as a map from block numbers), \<open>prod_rep\<close> (a sub-queue and the blocks it owns), \<open>hash_rep\<close> (the hash as a map), \<open>cq_rep\<close> (the queue: the
  sets of blocks of the sub-queues and of the pool are disjoint and cover the heap, so no block is lost), \<open>xprod_rep\<close>, \<open>xindex_rep\<close> and \<open>xbulk\<close> (the circle of an
  explicit producer, its index, and both while blocks are being obtained), \<open>rw_rep\<close>, \<open>rc_inv\<close>,
  \<open>sem_inv\<close> and \<open>bq_inv\<close> (books of permits and elements), \<open>handler_inv\<close>, and the invariant of the server. One lemma for every operation
  (named \<open>*_rep\<close> or \<open>*_inv\<close>) says what it returns on every branch and that the predicate is kept. The properties C1, C2, ... follow from these.
  They are the theorems with a claim number in the text before them: refinement of lists and of lanes by the queues, safety and liveness of the
  semaphore and of the blocking queue in every interleaving, conservation of requests and boundedness of the server, reference counts,
  the life of a database cursor with its error paths, round trips and bounds of the packed identifiers.

  \<^bold>\<open>Bounds and fuel.\<close> Positions of a queue are 64-bit words; a sub-queue holds less than \<open>2 ^ 63\<close> positions, and a refused enqueue says so
  (\<open>2 ^ 63 \<le> length xs + 32\<close> is one of its reasons). There are less than \<open>2 ^ 56\<close> producers, and a pool used by an explicit producer has at most \<open>2 ^ 57\<close> blocks. A loop that follows a chain of \<open>n\<close> objects has fuel
  \<open>n\<close>: a longer walk visits an object twice and never ends, which is the error \<open>Cq_diverges\<close>, and the lemmas show that it is not
  reached. A hash probe has as many steps as the table has slots, the loop of \<open>dequeue_bulk\<close> over blocks one more than it has elements, the
  loops of \<open>enqueue_bulk\<close> as many as blocks are needed. The loops of the tools over a cursor take fuel that the theorem bounds by the number of rows.
  Loops over words (\<open>take_elements\<close>, \<open>put_elements\<close>) end by the distance of the words. The count of the semaphore has the width of \<open>ssize_t\<close>
  and the number of posts is cast to \<open>int\<close>, as in the code; the theorems on it assume that fewer than \<open>2 ^ 63\<close> permits were given and that the
  threads and the rejected deadlines are fewer than \<open>2 ^ 31\<close> together, so that neither wraps.

  \<^bold>\<open>Concurrency.\<close> The semaphore, the blocking queue and the server are step relations over all interleavings, with reachable states and invariants. The
  concurrent queue and the reader-writer queue are modelled one operation at a time: an operation takes effect at once, so the retries of
  a failed compare-and-swap do not occur and memory orders have no effect. What such a race can do to the threads of the blocking queue is a
  choice of the scheduler there: a dequeue may fail although there is an element, a bulk dequeue may overlook some. A weak compare-and-swap may fail spuriously,
  a timed wait may expire at any point, and its deadline may be rejected by \<open>sem_timedwait\<close> (\<open>EINVAL\<close>), which the code takes for a permit:
  \<open>rejected\<close> counts these, and the books of permits and elements are kept with them.

  \<^bold>\<open>The crash in the queue.\<close> The constructor of a sub-queue ignores that its block index could not be allocated, and the first enqueue then
  dereferences a null pointer. \<open>env_valid\<close> excludes this case; \<open>concurrent_queue_lanes\<close> and \<open>server_never_fails\<close> cover it, and say that
  there is no other failure. The theorems on the blocking queue, on bulk operations and on the destructor of the queue assume that the index was allocated.

  \<^bold>\<open>The database.\<close> \<open>documented\<close> (\<open>DatastoreIterator\<close>) states what the theorems assume of PostgreSQL, as a relation between the commands and the state of the
  session (\<open>pg_session\<close>: idle, or in a transaction block with its open cursors): \<open>BEGIN\<close> opens a block, \<open>DECLARE\<close>, \<open>FETCH\<close> and \<open>CLOSE\<close> work
  inside one and on an open cursor only, \<open>END\<close> ends it; nothing is assumed of
  queries that the server does not accept. \<open>pq_leaked\<close> is the number of results obtained and neither cleared nor stored.

  \<^bold>\<open>Not modelled.\<close>

    \<^item> The tokens of the concurrent queue: nothing in the repository makes one, so the sub-queue behind a token is modelled by itself.
    \<^item> Move construction, move assignment and swap of the queues: they exchange fields and repair pointers into the queue object, which has no
      address in the model. Nothing in the repository moves a queue.
    \<^item> Element types whose constructors or assignments throw, except the constructor in \<open>ExplicitProducer::enqueue\<close>: the queues of the repository
      hold requests and responses, which move without throwing.
    \<^item> Interleavings inside an operation of the concurrent queue or of the reader-writer queue, and the C++ memory model: they need a model of weak memory.
    \<^item> \<open>CacheStatistics\<close> has no operation; the bodies of \<open>SerializedDataObject\<close> are empty and some lack their \<open>return\<close>, which is undefined behaviour.
    \<^item> Command lines, logging, the HTTP binding and the event loop of proxygen, the floats of the timers, debug printing under \<open>MCDBGQ\<close> and
      \<open>MOODYCAMEL_QUEUE_INTERNAL_DEBUG\<close>, the kernel semaphores of Windows and Mach, build files and data scripts.
    \<^item> The code outside of the repository (libpq, folly, boost, Thrift and its generated classes, proxygen, \<open>atomicops.h\<close>) appears as parameters:
      records of the functions that the sources call, with the documented behaviour as a hypothesis where a theorem needs it.
\<close>

end
